(* ===== verification/Prelude.thy ===== *)
theory Prelude
  imports Main "HOL-Library.Char_ord" "HOL-Library.List_Lexorder" "HOL-Library.Monad_Syntax"
begin

text \<open>
  Shared vocabulary of the development. A byte of the source (Rust's \<open>u8\<close>) is a HOL
  character, which has exactly 256 values, so that witness texts can be written as string
  literals; a byte slice is a list of them. The collections below gather the facts the
  component theories hand to the simplifier:
    \<^item> \<open>scan_simps\<close>: how the scanners read a position of a byte slice;
    \<^item> \<open>progress\<close>: a scanner that succeeds ends past where it started and inside the slice.
\<close>

named_theorems scan_simps \<open>reading a position of a byte slice\<close>
named_theorems progress \<open>a scanner moves forward and stays inside its subslice\<close>

type_synonym byte = char
type_synonym bytes = "byte list"

text \<open>A scanner reads a value at a position and says where it stopped, or refuses.\<close>

type_synonym 'a scanner = "bytes \<Rightarrow> nat \<Rightarrow> ('a \<times> nat) option"

subsection \<open>Bytes\<close>

abbreviation byte_val :: "byte \<Rightarrow> nat" where
  "byte_val \<equiv> of_char"

text \<open>\<open>u8::is_ascii_digit\<close>, and the value \<open>b - b'0'\<close> of a digit.\<close>

definition is_digit :: "byte \<Rightarrow> bool" where
  "is_digit b \<longleftrightarrow> 48 \<le> byte_val b \<and> byte_val b \<le> 57"

definition digit_val :: "byte \<Rightarrow> nat" where
  "digit_val b = byte_val b - 48"

definition digit_byte :: "nat \<Rightarrow> byte" where
  "digit_byte d = char_of (48 + d)"

lemma digit_val_le: "is_digit b \<Longrightarrow> digit_val b \<le> 9"
  by (auto simp: is_digit_def digit_val_def)

lemma digit_byte_val [simp]: "d < 10 \<Longrightarrow> digit_val (digit_byte d) = d"
  by (simp add: digit_val_def digit_byte_def of_char_of)

lemma is_digit_digit_byte [simp]: "d < 10 \<Longrightarrow> is_digit (digit_byte d)"
  by (simp add: is_digit_def digit_byte_def of_char_of)

lemma digit_val_inj:
  assumes "is_digit a" and "is_digit b" and "digit_val a = digit_val b"
  shows "a = b"
proof -
  have "byte_val a = byte_val b"
    using assms unfolding is_digit_def digit_val_def by linarith
  then show ?thesis by simp
qed

lemma digit_val_less:
  assumes "is_digit a" and "is_digit b"
  shows "digit_val a < digit_val b \<longleftrightarrow> a < b"
  using assms unfolding is_digit_def digit_val_def less_char_def by linarith

lemma digit_val_zero: "is_digit b \<Longrightarrow> digit_val b = 0 \<longleftrightarrow> b = CHR ''0''"
  using digit_val_inj [of b "CHR ''0''"] by (auto simp: is_digit_def digit_val_def)

text \<open>The blanks the certificate formats skip.\<close>

definition is_space :: "byte \<Rightarrow> bool" where
  "is_space b \<longleftrightarrow> b = CHR 0x20 \<or> b = CHR 0x0A \<or> b = CHR 0x0D \<or> b = CHR 0x09"

definition newline :: byte where
  "newline = CHR 0x0A"

subsection \<open>Positions of a slice\<close>

text \<open>\<open>s.get(i)\<close>.\<close>

definition sget :: "'a list \<Rightarrow> nat \<Rightarrow> 'a option" where
  "sget s i = (if i < length s then Some (s ! i) else None)"

lemma sget_Some [scan_simps]: "sget s i = Some c \<longleftrightarrow> i < length s \<and> s ! i = c"
  by (auto simp: sget_def)

lemma sget_None [scan_simps]: "sget s i = None \<longleftrightarrow> length s \<le> i"
  by (auto simp: sget_def)

lemma sget_Nil [simp]: "sget [] i = None"
  by (simp add: sget_def)

text \<open>
  The length of the run of bytes with a property that starts at a position: the source's
  \<open>s[i..].iter().take_while(p).count()\<close>.
\<close>

definition run_len :: "('a \<Rightarrow> bool) \<Rightarrow> 'a list \<Rightarrow> nat \<Rightarrow> nat" where
  "run_len p s i = length (takeWhile p (drop i s))"

lemma run_len_bound: "i \<le> length s \<Longrightarrow> i + run_len p s i \<le> length s"
  using length_takeWhile_le [of p "drop i s"] by (simp add: run_len_def)

text \<open>The bytes \<open>&s[i..j]\<close>.\<close>

definition subslice :: "'a list \<Rightarrow> nat \<Rightarrow> nat \<Rightarrow> 'a list" where
  "subslice s i j = take (j - i) (drop i s)"

lemma subslice_run: "subslice s i (i + run_len p s i) = takeWhile p (drop i s)"
  by (simp add: subslice_def run_len_def takeWhile_eq_take [symmetric])

lemma subslice_run_all: "\<forall>b \<in> set (subslice s i (i + run_len p s i)). p b"
  by (auto simp: subslice_run dest: set_takeWhileD)

text \<open>\<open>xs[i..i + ys.len()].copy_from_slice(ys)\<close>, where it does not panic.\<close>

definition put :: "'a list \<Rightarrow> nat \<Rightarrow> 'a list \<Rightarrow> 'a list" where
  "put xs i ys = take i xs @ ys @ drop (i + length ys) xs"

lemma length_put [simp]: "i + length ys \<le> length xs \<Longrightarrow> length (put xs i ys) = length xs"
  by (simp add: put_def)

lemma put_before: "j < i \<Longrightarrow> i \<le> length xs \<Longrightarrow> put xs i ys ! j = xs ! j"
  by (simp add: put_def nth_append)

lemma put_after: "i + length ys \<le> j \<Longrightarrow> j < length xs \<Longrightarrow> put xs i ys ! j = xs ! j"
  by (auto simp: put_def nth_append)

subsection \<open>Options and lists\<close>

lemma bind_Some_iff [scan_simps]: "Option.bind m f = Some y \<longleftrightarrow> (\<exists>x. m = Some x \<and> f x = Some y)"
  by (cases m) auto

lemma bind_None_iff: "Option.bind m f = None \<longleftrightarrow> m = None \<or> (\<exists>x. m = Some x \<and> f x = None)"
  by (cases m) auto

text \<open>\<open>slice::split\<close> at every byte with a property: one more piece than separators.\<close>

fun split_on :: "('a \<Rightarrow> bool) \<Rightarrow> 'a list \<Rightarrow> 'a list list" where
  "split_on p [] = [[]]"
| "split_on p (x # xs) =
     (if p x then [] # split_on p xs
      else (case split_on p xs of [] \<Rightarrow> [[x]] | y # ys \<Rightarrow> (x # y) # ys))"

lemma split_on_not_Nil [simp]: "split_on p xs \<noteq> []"
  by (induction xs) (auto split: list.splits)

lemma length_split_on: "length (split_on p xs) = Suc (length (filter p xs))"
proof (induction xs)
  case (Cons x xs)
  then show ?case
    by (cases "split_on p xs") auto
qed simp

lemma split_on_pieces: "ys \<in> set (split_on p xs) \<Longrightarrow> y \<in> set ys \<Longrightarrow> \<not> p y \<and> y \<in> set xs"
proof (induction xs arbitrary: ys)
  case (Cons x xs)
  obtain z zs where zs: "split_on p xs = z # zs"
    by (cases "split_on p xs") auto
  show ?case
  proof (cases "p x")
    case True
    with Cons zs show ?thesis by fastforce
  next
    case False
    then consider "ys = x # z" | "ys \<in> set zs"
      using Cons.prems zs by auto
    then show ?thesis
      using Cons False zs by cases fastforce+
  qed
qed simp

lemma split_on_none: "\<forall>x \<in> set xs. \<not> p x \<Longrightarrow> split_on p xs = [xs]"
  by (induction xs) auto

lemma split_on_append_sep:
  "\<forall>x \<in> set xs. \<not> p x \<Longrightarrow> p c \<Longrightarrow> split_on p (xs @ c # ys) = xs # split_on p ys"
  by (induction xs) auto

text \<open>\<open>slice::split_first\<close>.\<close>

definition split_first :: "'a list \<Rightarrow> ('a \<times> 'a list) option" where
  "split_first xs = (case xs of [] \<Rightarrow> None | x # r \<Rightarrow> Some (x, r))"

text \<open>A non-empty run of bytes lies below a bound.\<close>

lemma interval_below:
  "{a..<a + b} \<noteq> {} \<and> {a..<a + b} \<subseteq> {..<c} \<longleftrightarrow> 0 < b \<and> a + b \<le> c" for a b c :: nat
proof (cases "b = 0")
  case False
  have "a + b \<le> c" if "{a..<a + b} \<subseteq> {..<c}"
  proof -
    have "a + b - 1 \<in> {a..<a + b}" using False by auto
    then have "a + b - 1 < c" using that by blast
    then show ?thesis by linarith
  qed
  with False show ?thesis by auto
qed simp

lemma zip_all:
  assumes "length xs \<le> length ys"
  shows "list_all (\<lambda>(x, y). P x y) (zip xs ys) \<longleftrightarrow> (\<forall>i < length xs. P (xs ! i) (ys ! i))"
  using assms by (auto simp: list_all_length)

lemma drop_all: "list_all P (drop k xs) \<longleftrightarrow> (\<forall>i < length xs. k \<le> i \<longrightarrow> P (xs ! i))"
proof -
  have "(\<forall>j < length xs - k. P (xs ! (k + j))) \<longleftrightarrow> (\<forall>i < length xs. k \<le> i \<longrightarrow> P (xs ! i))"
    by (metis add_diff_inverse_nat diff_less_mono le_add1 less_diff_conv add.commute not_less)
  then show ?thesis
    by (cases "k \<le> length xs") (auto simp: list_all_length)
qed

lemma split_on_length: "ys \<in> set (split_on p xs) \<Longrightarrow> length ys \<le> length xs"
proof (induction xs arbitrary: ys)
  case (Cons x xs)
  obtain z zs where "split_on p xs = z # zs"
    by (cases "split_on p xs") auto
  with Cons show ?case
    by (fastforce split: if_splits)
qed simp

subsection \<open>Comparison\<close>

text \<open>\<open>std::cmp::Ordering\<close>, the comparison of a totally ordered type, and that of two iterators.\<close>

datatype ordering = Less | Equal | Greater

definition ord_of :: "'a :: linorder \<Rightarrow> 'a \<Rightarrow> ordering" where
  "ord_of a b = (if a < b then Less else if b < a then Greater else Equal)"

fun lex_cmp :: "'a :: linorder list \<Rightarrow> 'a list \<Rightarrow> ordering" where
  "lex_cmp [] [] = Equal"
| "lex_cmp [] (b # bs) = Less"
| "lex_cmp (a # as) [] = Greater"
| "lex_cmp (a # as) (b # bs) = (if a < b then Less else if b < a then Greater else lex_cmp as bs)"

lemma ord_of_iff:
  "ord_of a b = Less \<longleftrightarrow> a < b" "ord_of a b = Equal \<longleftrightarrow> a = b" "ord_of a b = Greater \<longleftrightarrow> b < a"
  by (auto simp: ord_of_def)

text \<open>The comparison of iterators is the lexicographic order of the lists.\<close>

lemma lex_cmp_ord: "lex_cmp xs ys = ord_of xs ys"
  by (induction xs ys rule: lex_cmp.induct) (auto simp: ord_of_def)

end
