(* ===== verification/Nat_Digits.thy ===== *)
theory Nat_Digits
  imports Prelude
begin

text \<open>
  The decimal naturals of \<open>crates/almide-verify/src/nat.rs\<close> and the shared witness
  splitters. A witness id is kept as its normalized digit string, compared by length and
  then by bytes; the theory shows that this is the order of the numbers the strings write,
  that addition is exact, and that the subset test decides inclusion of the written numbers.
\<close>

subsection \<open>The type and its operations\<close>

datatype dnat = Nat (nat_digits: bytes)

definition from_digits :: "bytes \<Rightarrow> dnat" where
  "from_digits digits = Nat (dropWhile (\<lambda>d. d = CHR ''0'') digits)"

definition le_one :: "dnat \<Rightarrow> bool" where
  "le_one n \<longleftrightarrow> nat_digits n = [] \<or> nat_digits n = ''1''"

text \<open>
  The loop of \<open>Nat::add\<close>: positions \<open>i\<close> and \<open>j\<close> walk down from the ends, the digits
  pushed are the result, least significant first.
\<close>

function add_loop :: "bytes \<Rightarrow> bytes \<Rightarrow> nat \<Rightarrow> nat \<Rightarrow> nat \<Rightarrow> bytes" where
  "add_loop a b i j carry =
     (if 0 < i \<or> 0 < j \<or> 0 < carry then
        let x = (if 0 < i then digit_val (a ! (i - 1)) else 0);
            y = (if 0 < j then digit_val (b ! (j - 1)) else 0);
            d = x + y + carry
        in digit_byte (d mod 10) # add_loop a b (i - 1) (j - 1) (d div 10)
      else [])"
  by pat_completeness auto
termination
  by (relation "measures [\<lambda>(a, b, i, j, c). i + j, \<lambda>(a, b, i, j, c). c]") auto

declare add_loop.simps [simp del]

definition nat_add :: "dnat \<Rightarrow> dnat \<Rightarrow> dnat" where
  "nat_add m n =
     (let a = nat_digits m; b = nat_digits n
      in from_digits (rev (add_loop a b (length a) (length b) 0)))"

text \<open>\<open>usize::checked_mul\<close> and \<open>checked_add\<close> on a 64-bit target.\<close>

definition checked_mul_usize :: "nat \<Rightarrow> nat \<Rightarrow> nat option" where
  "checked_mul_usize a b = (if a * b < 2 ^ 64 then Some (a * b) else None)"

definition checked_add_usize :: "nat \<Rightarrow> nat \<Rightarrow> nat option" where
  "checked_add_usize a b = (if a + b < 2 ^ 64 then Some (a + b) else None)"

fun index_fold :: "nat \<Rightarrow> bytes \<Rightarrow> nat option" where
  "index_fold acc [] = Some acc"
| "index_fold acc (d # ds) =
     do { m \<leftarrow> checked_mul_usize acc 10; s \<leftarrow> checked_add_usize m (digit_val d); index_fold s ds }"

definition as_index :: "dnat \<Rightarrow> nat option" where
  "as_index n = (if 18 < length (nat_digits n) then None else index_fold 0 (nat_digits n))"

text \<open>\<open>Ord for Nat\<close>: by length, then by bytes; the order of the type is that comparison.\<close>

definition nat_cmp :: "dnat \<Rightarrow> dnat \<Rightarrow> ordering" where
  "nat_cmp m n =
     (case ord_of (length (nat_digits m)) (length (nat_digits n)) of
        Equal \<Rightarrow> lex_cmp (nat_digits m) (nat_digits n)
      | r \<Rightarrow> r)"

lemma nat_cmp_Less:
  "nat_cmp m n = Less \<longleftrightarrow>
     length (nat_digits m) < length (nat_digits n) \<or>
     length (nat_digits m) = length (nat_digits n) \<and> nat_digits m < nat_digits n"
  by (auto simp: nat_cmp_def lex_cmp_ord ord_of_iff split: ordering.split)

lemma nat_cmp_Greater: "nat_cmp m n = Greater \<longleftrightarrow> nat_cmp n m = Less"
  by (auto simp: nat_cmp_def lex_cmp_ord ord_of_iff split: ordering.split)

instantiation dnat :: linorder
begin

definition less_eq_dnat :: "dnat \<Rightarrow> dnat \<Rightarrow> bool" where
  "m \<le> n \<longleftrightarrow> nat_cmp m n \<noteq> Greater"

definition less_dnat :: "dnat \<Rightarrow> dnat \<Rightarrow> bool" where
  "m < n \<longleftrightarrow> nat_cmp m n = Less"

instance
  by standard (auto simp: less_eq_dnat_def less_dnat_def nat_cmp_Greater nat_cmp_Less dnat.expand)

end

lemma nat_cmp_ord: "nat_cmp m n = ord_of m n"
proof (cases "nat_cmp m n")
  case Equal
  then have "m \<le> n" "\<not> m < n" by (simp_all add: less_eq_dnat_def less_dnat_def)
  then show ?thesis using Equal by (simp add: ord_of_def)
qed (auto simp: ord_of_def less_dnat_def nat_cmp_Greater)

subsection \<open>Splitters and the subset certificate\<close>

definition pnats :: "bytes \<Rightarrow> dnat list" where
  "pnats s = map from_digits (filter (\<lambda>run. run \<noteq> []) (split_on (\<lambda>b. \<not> is_digit b) s))"

definition split_bar :: "bytes \<Rightarrow> bytes \<times> bytes" where
  "split_bar s =
     (if CHR ''|'' \<in> set s
      then (takeWhile (\<lambda>b. b \<noteq> CHR ''|'') s, tl (dropWhile (\<lambda>b. b \<noteq> CHR ''|'') s))
      else (s, []))"

definition split_semi :: "bytes \<Rightarrow> bytes list" where
  "split_semi s = split_on (\<lambda>b. b = CHR '';'') s"

definition nat_subset :: "dnat list \<Rightarrow> dnat list \<Rightarrow> bool" where
  "nat_subset sp sb \<longleftrightarrow> (let s = set sp in list_all (\<lambda>x. x \<in> s) sb)"

definition subset_cert :: "bytes \<Rightarrow> bool" where
  "subset_cert witness = (let (sp, sb) = split_bar witness in nat_subset (pnats sp) (pnats sb))"

subsection \<open>The number a digit string writes\<close>

fun dec_from :: "nat \<Rightarrow> bytes \<Rightarrow> nat" where
  "dec_from n [] = n"
| "dec_from n (d # ds) = dec_from (10 * n + digit_val d) ds"

definition dec_val :: "bytes \<Rightarrow> nat" where
  "dec_val ds = dec_from 0 ds"

definition dval :: "dnat \<Rightarrow> nat" where
  "dval n = dec_val (nat_digits n)"

definition all_digits :: "bytes \<Rightarrow> bool" where
  "all_digits ds \<longleftrightarrow> (\<forall>d \<in> set ds. is_digit d)"

text \<open>The canonical strings: digits, with no leading zero.\<close>

definition wf_nat :: "dnat \<Rightarrow> bool" where
  "wf_nat n \<longleftrightarrow> all_digits (nat_digits n) \<and> (nat_digits n = [] \<or> hd (nat_digits n) \<noteq> CHR ''0'')"

lemma all_digits_simps [simp]:
  "all_digits []" "all_digits (d # ds) \<longleftrightarrow> is_digit d \<and> all_digits ds"
  "all_digits (xs @ ys) \<longleftrightarrow> all_digits xs \<and> all_digits ys" "all_digits (rev xs) \<longleftrightarrow> all_digits xs"
  by (auto simp: all_digits_def)

lemma dec_from_append: "dec_from n (xs @ ys) = dec_from (dec_from n xs) ys"
  by (induction xs arbitrary: n) auto

lemma dec_from_eq: "dec_from n ds = n * 10 ^ length ds + dec_val ds"
proof (induction ds arbitrary: n rule: rev_induct)
  case (snoc d ds)
  have "dec_val (ds @ [d]) = 10 * dec_val ds + digit_val d"
    by (simp add: dec_val_def dec_from_append)
  then show ?case
    by (simp add: dec_from_append snoc algebra_simps)
qed (simp add: dec_val_def)

lemma dec_val_Nil [simp]: "dec_val [] = 0"
  by (simp add: dec_val_def)

lemma dec_val_Cons: "dec_val (d # ds) = digit_val d * 10 ^ length ds + dec_val ds"
  using dec_from_eq [of "digit_val d" ds] by (simp add: dec_val_def)

lemma dec_val_snoc: "dec_val (ds @ [d]) = 10 * dec_val ds + digit_val d"
  by (simp add: dec_val_def dec_from_append)

lemma dec_val_bound: "all_digits ds \<Longrightarrow> dec_val ds < 10 ^ length ds"
proof (induction ds)
  case (Cons d ds)
  then have v: "digit_val d \<le> 9" and r: "dec_val ds < 10 ^ length ds"
    by (simp_all add: digit_val_le)
  have "dec_val (d # ds) < (digit_val d + 1) * 10 ^ length ds"
    using r by (simp add: dec_val_Cons algebra_simps)
  also have "\<dots> \<le> 10 * 10 ^ length ds"
    using v by (intro mult_right_mono) auto
  finally show ?case by simp
qed simp

lemma dec_val_lead:
  assumes "all_digits (d # ds)" and "d \<noteq> CHR ''0''"
  shows "10 ^ length ds \<le> dec_val (d # ds)"
proof -
  have "0 < digit_val d"
    using assms digit_val_zero by auto
  then have "10 ^ length ds \<le> digit_val d * 10 ^ length ds"
    by simp
  then show ?thesis
    by (simp add: dec_val_Cons trans_le_add1)
qed

lemma dec_val_less_same:
  assumes "length xs = length ys" and "all_digits xs" and "all_digits ys"
  shows "dec_val xs < dec_val ys \<longleftrightarrow> xs < ys"
  using assms
proof (induction xs ys rule: list_induct2)
  case (Cons x xs y ys)
  then have x: "dec_val xs < 10 ^ length ys" and y: "dec_val ys < 10 ^ length ys"
    using dec_val_bound [of xs] dec_val_bound [of ys] by simp_all
  consider "x = y" | "digit_val x < digit_val y" "x < y" | "digit_val y < digit_val x" "y < x"
    using Cons.prems digit_val_less [of x y] digit_val_less [of y x] by fastforce
  then show ?case
  proof cases
    case 1
    with Cons show ?thesis by (simp add: dec_val_Cons)
  next
    case 2
    have "(digit_val x + 1) * 10 ^ length ys \<le> digit_val y * 10 ^ length ys"
      using 2 by (intro mult_right_mono) auto
    then have "digit_val x * 10 ^ length ys + dec_val xs < digit_val y * 10 ^ length ys + dec_val ys"
      using x by (simp add: algebra_simps)
    with 2 Cons.hyps show ?thesis by (simp add: dec_val_Cons)
  next
    case 3
    have "(digit_val y + 1) * 10 ^ length ys \<le> digit_val x * 10 ^ length ys"
      using 3 by (intro mult_right_mono) auto
    then have "digit_val y * 10 ^ length ys + dec_val ys < digit_val x * 10 ^ length ys + dec_val xs"
      using y by (simp add: algebra_simps)
    with 3 Cons.hyps show ?thesis by (auto simp: dec_val_Cons)
  qed
qed simp

subsection \<open>Canonical strings are the numbers\<close>

lemma wf_from_digits [simp]: "all_digits ds \<Longrightarrow> wf_nat (from_digits ds)"
  using hd_dropWhile [of "\<lambda>d. d = CHR ''0''" ds]
  by (auto simp: wf_nat_def from_digits_def all_digits_def dest: set_dropWhileD)

lemma dval_from_digits [simp]: "dval (from_digits ds) = dec_val ds"
proof (induction ds)
  case (Cons d ds)
  then show ?case
    by (cases "d = CHR ''0''")
       (simp_all add: dval_def from_digits_def dec_val_Cons digit_val_def)
qed (simp add: dval_def from_digits_def)

lemma dval_shorter:
  assumes "wf_nat m" and "wf_nat n" and "length (nat_digits m) < length (nat_digits n)"
  shows "dval m < dval n"
proof -
  obtain d ds where n: "nat_digits n = d # ds"
    using assms(3) by (cases "nat_digits n") auto
  have "dval m < 10 ^ length (nat_digits m)"
    using assms(1) dec_val_bound by (simp add: wf_nat_def dval_def)
  also have "\<dots> \<le> 10 ^ length ds"
    using assms(3) n by (intro power_increasing) auto
  also have "\<dots> \<le> dval n"
    using assms(2) n dec_val_lead [of d ds] by (simp add: wf_nat_def dval_def)
  finally show ?thesis .
qed

lemma less_dval:
  assumes "wf_nat m" and "wf_nat n"
  shows "m < n \<longleftrightarrow> dval m < dval n"
proof -
  consider "length (nat_digits m) < length (nat_digits n)"
    | "length (nat_digits n) < length (nat_digits m)"
    | "length (nat_digits m) = length (nat_digits n)"
    by linarith
  then show ?thesis
  proof cases
    case 1
    with dval_shorter [OF assms] show ?thesis by (simp add: less_dnat_def nat_cmp_Less)
  next
    case 2
    with dval_shorter [OF assms(2,1)] show ?thesis by (simp add: less_dnat_def nat_cmp_Less)
  next
    case 3
    with assms dec_val_less_same [OF 3] show ?thesis
      by (simp add: less_dnat_def nat_cmp_Less wf_nat_def dval_def)
  qed
qed

lemma le_dval: "wf_nat m \<Longrightarrow> wf_nat n \<Longrightarrow> m \<le> n \<longleftrightarrow> dval m \<le> dval n"
  using less_dval [of n m] by (simp add: not_less [symmetric])

lemma nat_cmp_val: "wf_nat m \<Longrightarrow> wf_nat n \<Longrightarrow> nat_cmp m n = ord_of (dval m) (dval n)"
  by (simp add: nat_cmp_ord ord_of_def less_dval)

lemma dval_inj: "wf_nat m \<Longrightarrow> wf_nat n \<Longrightarrow> dval m = dval n \<longleftrightarrow> m = n"
  using le_dval [of m n] le_dval [of n m] by auto

subsection \<open>Addition\<close>

text \<open>The pushed digits, least significant first, write the sum of the unread prefixes.\<close>

lemma add_loop_spec:
  assumes "all_digits a" and "all_digits b" and "i \<le> length a" and "j \<le> length b" and "c \<le> 1"
  shows "all_digits (add_loop a b i j c) \<and>
    dec_val (rev (add_loop a b i j c)) = dec_val (take i a) + dec_val (take j b) + c"
  using assms
proof (induction a b i j c rule: add_loop.induct)
  case (1 a b i j c)
  define x where "x = (if 0 < i then digit_val (a ! (i - 1)) else 0)"
  define y where "y = (if 0 < j then digit_val (b ! (j - 1)) else 0)"
  define d where "d = x + y + c"
  show ?case
  proof (cases "0 < i \<or> 0 < j \<or> 0 < c")
    case False
    then show ?thesis
      by (simp add: add_loop.simps [of a b 0 0 0])
  next
    case True
    have "x \<le> 9" "y \<le> 9"
      using "1.prems" by (auto simp: x_def y_def all_digits_def intro!: digit_val_le)
    then have c: "d div 10 \<le> 1"
      using "1.prems"(5) by (simp add: d_def)
    have i: "dec_val (take i a) = 10 * dec_val (take (i - 1) a) + x"
      using "1.prems"(3) by (cases i) (simp_all add: x_def take_Suc_conv_app_nth dec_val_snoc)
    have j: "dec_val (take j b) = 10 * dec_val (take (j - 1) b) + y"
      using "1.prems"(4) by (cases j) (simp_all add: y_def take_Suc_conv_app_nth dec_val_snoc)
    have unfold: "add_loop a b i j c = digit_byte (d mod 10) # add_loop a b (i - 1) (j - 1) (d div 10)"
      using True by (subst add_loop.simps) (simp add: x_def y_def d_def Let_def)
    have "all_digits (add_loop a b (i - 1) (j - 1) (d div 10)) \<and>
        dec_val (rev (add_loop a b (i - 1) (j - 1) (d div 10))) =
        dec_val (take (i - 1) a) + dec_val (take (j - 1) b) + d div 10"
      using "1.IH" [OF True x_def y_def d_def "1.prems"(1,2) _ _ c] "1.prems"(3,4) by simp
    then show ?thesis
      using i j by (simp add: unfold dec_val_snoc) (simp add: d_def)
  qed
qed

lemma nat_add_val:
  assumes "wf_nat m" and "wf_nat n"
  shows "dval (nat_add m n) = dval m + dval n"
  using assms add_loop_spec [of "nat_digits m" "nat_digits n" "length (nat_digits m)" "length (nat_digits n)" 0]
  by (simp add: nat_add_def Let_def wf_nat_def dval_def [of m] dval_def [of n])

lemma nat_add_wf [simp]: "wf_nat m \<Longrightarrow> wf_nat n \<Longrightarrow> wf_nat (nat_add m n)"
  using add_loop_spec [of "nat_digits m" "nat_digits n" "length (nat_digits m)" "length (nat_digits n)" 0]
  by (simp add: nat_add_def Let_def wf_nat_def [of m] wf_nat_def [of n])

subsection \<open>Indices\<close>

text \<open>Eighteen digits never overflow a 64-bit index, so the fold computes the number.\<close>

lemma index_fold_val:
  assumes "all_digits ds" and "acc < 10 ^ k" and "k + length ds \<le> 18"
  shows "index_fold acc ds = Some (dec_from acc ds)"
  using assms
proof (induction ds arbitrary: acc k)
  case (Cons d ds)
  have d: "digit_val d \<le> 9"
    using Cons.prems(1) by (simp add: digit_val_le)
  have step: "10 * acc + digit_val d < 10 ^ Suc k"
    using Cons.prems(2) d by simp
  have "(10::nat) ^ Suc k \<le> 10 ^ 18"
    using Cons.prems(3) by (intro power_increasing) auto
  then have small: "10 * acc + digit_val d < 2 ^ 64"
    using step by simp
  then have "checked_mul_usize acc 10 = Some (10 * acc)"
    "checked_add_usize (10 * acc) (digit_val d) = Some (10 * acc + digit_val d)"
    by (simp_all add: checked_mul_usize_def checked_add_usize_def mult.commute)
  then show ?case
    using Cons.IH [of "10 * acc + digit_val d" "Suc k"] Cons.prems step by simp
qed simp

lemma as_index_val:
  assumes "wf_nat n"
  shows "as_index n = (if 18 < length (nat_digits n) then None else Some (dval n))"
  using assms index_fold_val [of "nat_digits n" 0 0]
  by (simp add: as_index_def wf_nat_def dval_def dec_val_def)

text \<open>Evaluation never multiplies up to the machine bound.\<close>

lemma as_index_code [code]:
  "as_index n =
     (if 18 < length (nat_digits n) then None
      else if wf_nat n then Some (dval n) else index_fold 0 (nat_digits n))"
  by (simp add: as_index_val) (simp add: as_index_def)

lemma as_index_Some: "wf_nat n \<Longrightarrow> as_index n = Some i \<Longrightarrow> dval n = i"
  by (auto simp: as_index_val split: if_splits)

text \<open>A number no list can be as long as is the only one with no index.\<close>

lemma as_index_None:
  assumes "wf_nat n" and "as_index n = None"
  shows "10 ^ 18 \<le> dval n"
proof -
  obtain d ds where n: "nat_digits n = d # ds" and len: "18 \<le> length ds"
    using assms by (cases "nat_digits n") (auto simp: as_index_val split: if_splits)
  have "(10::nat) ^ 18 \<le> 10 ^ length ds"
    using len by (intro power_increasing) auto
  also have "\<dots> \<le> dval n"
    using assms(1) n dec_val_lead [of d ds] by (simp add: wf_nat_def dval_def)
  finally show ?thesis .
qed

text \<open>The test \<open>as_index().is_some_and(|i| i < k)\<close> of the checkers.\<close>

definition index_below :: "dnat \<Rightarrow> nat \<Rightarrow> bool" where
  "index_below n k \<longleftrightarrow> (case as_index n of None \<Rightarrow> False | Some i \<Rightarrow> i < k)"

lemma index_below_val:
  assumes "wf_nat n" and "k \<le> 10 ^ 18"
  shows "index_below n k \<longleftrightarrow> dval n < k"
proof (cases "as_index n")
  case None
  then show ?thesis using as_index_None [OF assms(1)] assms(2) by (simp add: index_below_def)
next
  case (Some i)
  then show ?thesis using as_index_Some [OF assms(1)] by (simp add: index_below_def)
qed

lemma le_one_val:
  assumes "wf_nat n"
  shows "le_one n \<longleftrightarrow> dval n \<le> 1"
proof -
  have "le_one n \<longleftrightarrow> n = from_digits [] \<or> n = from_digits ''1''"
    by (cases n) (auto simp: le_one_def from_digits_def)
  also have "\<dots> \<longleftrightarrow> dval n = 0 \<or> dval n = 1"
    using dval_inj [OF assms, of "from_digits []"] dval_inj [OF assms, of "from_digits ''1''"]
    by (simp add: is_digit_def dec_val_Cons digit_val_def)
  finally show ?thesis by auto
qed

subsection \<open>Splitters\<close>

lemma pnats_wf: "n \<in> set (pnats s) \<Longrightarrow> wf_nat n"
  using split_on_pieces [of _ "\<lambda>b. \<not> is_digit b" s]
  by (auto simp: pnats_def all_digits_def intro!: wf_from_digits)

lemma split_bar_append: "CHR ''|'' \<notin> set l \<Longrightarrow> split_bar (l @ CHR ''|'' # r) = (l, r)"
  by (simp add: split_bar_def takeWhile_append dropWhile_append)

lemma split_bar_join:
  assumes "split_bar s = (l, r)"
  shows "CHR ''|'' \<notin> set l \<and> (s = l @ CHR ''|'' # r \<or> s = l \<and> r = [])"
proof (cases "CHR ''|'' \<in> set s")
  case True
  then obtain u v where s: "s = u @ CHR ''|'' # v" and u: "CHR ''|'' \<notin> set u"
    by (auto dest: split_list_first)
  then show ?thesis
    using assms split_bar_append [OF u, of v] by simp
qed (use assms in \<open>simp add: split_bar_def\<close>)

lemma nat_subset_iff: "nat_subset sp sb \<longleftrightarrow> set sb \<subseteq> set sp"
  by (auto simp: nat_subset_def Let_def list_all_iff)

text \<open>On canonical ids, inclusion of the strings is inclusion of the numbers.\<close>

lemma nat_subset_val:
  assumes "\<forall>n \<in> set sp. wf_nat n" and "\<forall>n \<in> set sb. wf_nat n"
  shows "nat_subset sp sb \<longleftrightarrow> dval ` set sb \<subseteq> dval ` set sp"
  unfolding nat_subset_iff using assms by (force simp: dval_inj)

subsection \<open>Writing a number\<close>

text \<open>\<open>usize::to_string\<close>.\<close>

fun dec_string :: "nat \<Rightarrow> bytes" where
  "dec_string n =
     (if n < 10 then [digit_byte n] else dec_string (n div 10) @ [digit_byte (n mod 10)])"

declare dec_string.simps [simp del]

lemma all_digits_dec_string [simp]: "all_digits (dec_string n)"
  by (induction n rule: dec_string.induct) (subst dec_string.simps, simp)

lemma dec_val_dec_string [simp]: "dec_val (dec_string n) = n"
proof (induction n rule: dec_string.induct)
  case (1 n)
  show ?case
  proof (cases "n < 10")
    case True
    then show ?thesis by (simp add: dec_string.simps [of n] dec_val_Cons)
  next
    case False
    then show ?thesis
      using 1 [OF False] by (simp add: dec_string.simps [of n] dec_val_snoc)
  qed
qed

lemma dec_string_not_Nil [simp]: "dec_string n \<noteq> []"
  by (subst dec_string.simps) simp

text \<open>The canonical id of a number.\<close>

definition dnat_of :: "nat \<Rightarrow> dnat" where
  "dnat_of n = from_digits (dec_string n)"

lemma dval_dnat_of [simp]: "dval (dnat_of n) = n"
  by (simp add: dnat_of_def)

lemma wf_dnat_of [simp]: "wf_nat (dnat_of n)"
  by (simp add: dnat_of_def)

lemma dnat_of_inj [simp]: "dnat_of m = dnat_of n \<longleftrightarrow> m = n"
  using dval_dnat_of [of m] dval_dnat_of [of n] by metis

lemma dnat_of_dval [simp]: "wf_nat n \<Longrightarrow> dnat_of (dval n) = n"
  using dval_inj [of "dnat_of (dval n)" n] by simp

end
