(* ===== verification/Ownership.thy ===== *)
theory Ownership
  imports Nat_Digits
begin

text \<open>
  The ownership checker, \<open>crates/almide-verify/src/ownership.rs\<close>: the event alphabet of one
  reference-counted object, the line parser with its defensive closings, the count folds, the
  owned-line guard, and the three entry points (\<open>check_xc\<close>, \<open>check_sig_cert\<close>,
  \<open>native_lines_ok\<close>). The meaning of a line is in theory \<open>Ownership_Runs\<close>.
\<close>

subsection \<open>Events and lines\<close>

datatype op = Inc | Alias | Dec | MoveOut | Reuse | Borrow | ShareOut

datatype cert_item =
    Op op
  | Loop "op list"
  | CondLoop "op list" "op list"
  | Branch "op list" "op list"
  | BranchRet bool "op list" "op list"
  | BranchAbort bool "op list" "op list"
  | Poison

definition ascii_lower :: "byte \<Rightarrow> byte" where
  "ascii_lower b = (if 65 \<le> byte_val b \<and> byte_val b \<le> 90 then char_of (byte_val b + 32) else b)"

definition parse_byte :: "byte \<Rightarrow> op option" where
  "parse_byte b0 =
     (let b = ascii_lower b0
      in if b = CHR ''i'' then Some Inc
         else if b = CHR ''a'' then Some Alias
         else if b = CHR ''d'' then Some Dec
         else if b = CHR ''m'' then Some MoveOut
         else if b = CHR ''r'' then Some Reuse
         else if b = CHR ''b'' then Some Borrow
         else if b = CHR ''s'' then Some ShareOut
         else None)"

definition is_xmark :: "byte \<Rightarrow> bool" where
  "is_xmark b \<longleftrightarrow> b = CHR ''x'' \<or> b = CHR ''X''"

definition is_tmark :: "byte \<Rightarrow> bool" where
  "is_tmark b \<longleftrightarrow> b = CHR ''t'' \<or> b = CHR ''T''"

subsection \<open>Folding the count\<close>

text \<open>
  The source's \<open>rc\<close> is an \<open>i64\<close>; it starts at 0 and grows by at most one per byte of a line
  (lemmas \<open>exec_range\<close> and \<open>exec_line_range\<close>), so no addition overflows.
\<close>

fun exec_op :: "op \<Rightarrow> int \<Rightarrow> int option" where
  "exec_op Inc rc = Some (rc + 1)"
| "exec_op Alias rc = Some (rc + 1)"
| "exec_op Dec rc = (if rc \<le> 0 then None else Some (rc - 1))"
| "exec_op MoveOut rc = (if rc \<le> 0 then None else Some (rc - 1))"
| "exec_op Reuse rc = (if rc = 1 then Some 0 else None)"
| "exec_op Borrow rc = (if rc \<le> 0 then None else Some rc)"
| "exec_op ShareOut rc = Some rc"

fun exec :: "op list \<Rightarrow> int \<Rightarrow> int option" where
  "exec [] rc = Some rc"
| "exec (o' # ops) rc = Option.bind (exec_op o' rc) (exec ops)"

fun exec_item :: "cert_item \<Rightarrow> int \<Rightarrow> int option" where
  "exec_item (Op o') rc = exec [o'] rc"
| "exec_item (Loop body) rc = do { r \<leftarrow> exec body rc; if r = rc then Some rc else None }"
| "exec_item (CondLoop t e) rc =
     do { rt \<leftarrow> exec t rc; re \<leftarrow> exec e rc; if rt = rc \<and> re = rc then Some rc else None }"
| "exec_item (Branch t e) rc =
     do { rt \<leftarrow> exec t rc; re \<leftarrow> exec e rc; if rt = re then Some rt else None }"
| "exec_item (BranchRet ret_then t e) rc =
     do { rt \<leftarrow> exec t rc; re \<leftarrow> exec e rc;
          let (exiting, surviving) = (if ret_then then (rt, re) else (re, rt));
          if exiting = 0 then Some surviving else None }"
| "exec_item (BranchAbort ab_then t e) rc =
     do { rt \<leftarrow> exec t rc; re \<leftarrow> exec e rc; Some (if ab_then then re else rt) }"
| "exec_item Poison rc = None"

fun exec_line :: "cert_item list \<Rightarrow> int \<Rightarrow> int option" where
  "exec_line [] rc = Some rc"
| "exec_line (it # items) rc = Option.bind (exec_item it rc) (exec_line items)"

definition check_line :: "cert_item list \<Rightarrow> bool" where
  "check_line items \<longleftrightarrow> exec_line items 0 = Some 0"

subsection \<open>The line parser\<close>

record brx =
  b_in_else :: bool
  then_exited :: bool
  else_exited :: bool
  then_aborted :: bool
  else_aborted :: bool
  malformed :: bool
  b_then :: "op list"
  b_else :: "op list"

definition brx_default :: brx where
  "brx_default = \<lparr>b_in_else = False, then_exited = False, else_exited = False, then_aborted = False,
     else_aborted = False, malformed = False, b_then = [], b_else = []\<rparr>"

definition brx_close :: "brx \<Rightarrow> cert_item" where
  "brx_close x =
     (let then_term = then_exited x \<or> then_aborted x; else_term = else_exited x \<or> else_aborted x
      in if malformed x \<or> (then_term \<and> else_term) then Poison
         else if then_exited x then BranchRet True (b_then x) (b_else x)
         else if else_exited x then BranchRet False (b_then x) (b_else x)
         else if then_aborted x then BranchAbort True (b_then x) (b_else x)
         else if else_aborted x then BranchAbort False (b_then x) (b_else x)
         else Branch (b_then x) (b_else x))"

definition brx_step :: "brx \<Rightarrow> byte \<Rightarrow> brx" where
  "brx_step x b =
     (if b = CHR ''|'' then x\<lparr>b_in_else := True\<rparr>
      else if is_xmark b \<or> is_tmark b then
        let abort = is_tmark b
        in if b_in_else x
           then x\<lparr>malformed := malformed x \<or> (else_exited x \<or> else_aborted x),
                  else_exited := else_exited x \<or> \<not> abort, else_aborted := else_aborted x \<or> abort\<rparr>
           else x\<lparr>malformed := malformed x \<or> (then_exited x \<or> then_aborted x),
                  then_exited := then_exited x \<or> \<not> abort, then_aborted := then_aborted x \<or> abort\<rparr>
      else case parse_byte b of
             None \<Rightarrow> x
           | Some o' \<Rightarrow>
               if b_in_else x
               then x\<lparr>malformed := malformed x \<or> (else_exited x \<or> else_aborted x), b_else := b_else x @ [o']\<rparr>
               else x\<lparr>malformed := malformed x \<or> (then_exited x \<or> then_aborted x), b_then := b_then x @ [o']\<rparr>)"

record cond =
  c_in_else :: bool
  c_then :: "op list"
  c_else :: "op list"

definition cond_default :: cond where
  "cond_default = \<lparr>c_in_else = False, c_then = [], c_else = []\<rparr>"

text \<open>One byte inside a conditional loop, and whether it closed it.\<close>

definition cond_step :: "cond \<Rightarrow> byte \<Rightarrow> cond \<times> bool" where
  "cond_step c b =
     (if b = CHR ''|'' then (c\<lparr>c_in_else := True\<rparr>, False)
      else if b = CHR '']'' then (c, True)
      else case parse_byte b of
             None \<Rightarrow> (c, False)
           | Some o' \<Rightarrow>
               if c_in_else c then (c\<lparr>c_else := c_else c @ [o']\<rparr>, False)
               else (c\<lparr>c_then := c_then c @ [o']\<rparr>, False))"

record line_state =
  items :: "cert_item list"
  loop_body :: "op list option"
  in_cond :: "cond option"
  in_branch :: "brx option"

definition line_default :: line_state where
  "line_default = \<lparr>items = [], loop_body = None, in_cond = None, in_branch = None\<rparr>"

definition line_finish :: "line_state \<Rightarrow> cert_item list" where
  "line_finish st =
     (case in_branch st of
        Some x \<Rightarrow> items st @ [brx_close x]
      | None \<Rightarrow>
     (case in_cond st of
        Some c \<Rightarrow> items st @ [CondLoop (c_then c) (c_else c)]
      | None \<Rightarrow>
     (case loop_body st of
        Some body \<Rightarrow> items st @ [Loop body]
      | None \<Rightarrow> items st)))"

definition step_plain :: "line_state \<Rightarrow> byte \<Rightarrow> line_state" where
  "step_plain st b =
     (if b = CHR ''{'' then st\<lparr>in_branch := Some brx_default\<rparr>
      else if b = CHR ''['' then st\<lparr>in_cond := Some cond_default\<rparr>
      else if b = CHR ''('' then st\<lparr>loop_body := Some []\<rparr>
      else if b = CHR '')'' then
        (case loop_body st of
           None \<Rightarrow> st
         | Some body \<Rightarrow> st\<lparr>loop_body := None, items := items st @ [Loop body]\<rparr>)
      else case parse_byte b of
             None \<Rightarrow> st
           | Some o' \<Rightarrow>
               (case loop_body st of
                  Some body \<Rightarrow> st\<lparr>loop_body := Some (body @ [o'])\<rparr>
                | None \<Rightarrow> st\<lparr>items := items st @ [Op o']\<rparr>))"

definition line_step :: "line_state \<Rightarrow> byte \<Rightarrow> line_state" where
  "line_step st b =
     (case in_branch st of
        Some x \<Rightarrow>
          if b = CHR ''}'' then st\<lparr>in_branch := None, items := items st @ [brx_close x]\<rparr>
          else st\<lparr>in_branch := Some (brx_step x b)\<rparr>
      | None \<Rightarrow>
          if is_xmark b \<or> is_tmark b then st\<lparr>items := items st @ [Poison]\<rparr>
          else (case in_cond st of
                  Some c \<Rightarrow>
                    let (c', closed) = cond_step c b
                    in if closed
                       then st\<lparr>in_cond := None, items := items st @ [CondLoop (c_then c') (c_else c')]\<rparr>
                       else st\<lparr>in_cond := Some c'\<rparr>
                | None \<Rightarrow> step_plain st b))"

definition parse_line :: "bytes \<Rightarrow> cert_item list" where
  "parse_line line = line_finish (foldl line_step line_default line)"

definition parse_xc :: "bytes \<Rightarrow> cert_item list list" where
  "parse_xc witness = map parse_line (split_on (\<lambda>b. b = newline) witness)"

subsection \<open>The owned-line guard and the entry points\<close>

fun guard_op :: "op \<Rightarrow> op list" where
  "guard_op Alias = [Borrow, Alias]"
| "guard_op ShareOut = [Borrow, ShareOut]"
| "guard_op o' = [o']"

definition guard_ops :: "op list \<Rightarrow> op list" where
  "guard_ops ops = concat (map guard_op ops)"

fun guard_item :: "cert_item \<Rightarrow> cert_item list" where
  "guard_item (Op o') = map Op (guard_ops [o'])"
| "guard_item (Loop body) = [Loop (guard_ops body)]"
| "guard_item (CondLoop t e) = [CondLoop (guard_ops t) (guard_ops e)]"
| "guard_item (Branch t e) = [Branch (guard_ops t) (guard_ops e)]"
| "guard_item (BranchRet f t e) = [BranchRet f (guard_ops t) (guard_ops e)]"
| "guard_item (BranchAbort f t e) = [BranchAbort f (guard_ops t) (guard_ops e)]"
| "guard_item Poison = [Poison]"

definition guard_line :: "cert_item list \<Rightarrow> cert_item list" where
  "guard_line its =
     (case split_first its of
        Some (Op Inc, rest) \<Rightarrow> Op Inc # concat (map guard_item rest)
      | _ \<Rightarrow> its)"

definition check_xc :: "bytes \<Rightarrow> bool" where
  "check_xc witness = list_all (\<lambda>line. check_line (guard_line line)) (parse_xc witness)"

fun item_no_reuse :: "cert_item \<Rightarrow> bool" where
  "item_no_reuse (Op o') = (o' \<noteq> Reuse)"
| "item_no_reuse (Loop b) = (Reuse \<notin> set b)"
| "item_no_reuse (CondLoop t e) = (Reuse \<notin> set t \<and> Reuse \<notin> set e)"
| "item_no_reuse (Branch t e) = (Reuse \<notin> set t \<and> Reuse \<notin> set e)"
| "item_no_reuse (BranchRet f t e) = (Reuse \<notin> set t \<and> Reuse \<notin> set e)"
| "item_no_reuse (BranchAbort f t e) = (Reuse \<notin> set t \<and> Reuse \<notin> set e)"
| "item_no_reuse Poison = False"

text \<open>The line of a parameter, from the reference its mode declares.\<close>

definition seeded :: "dnat \<Rightarrow> cert_item list \<Rightarrow> cert_item list" where
  "seeded m line = (if as_index m = Some 0 then line else Op Inc # line)"

definition check_sig_cert :: "bytes \<Rightarrow> bool" where
  "check_sig_cert witness =
     (let (left, right) = split_bar witness;
          modes = pnats left;
          lns = parse_xc right
      in if \<not> list_all le_one modes \<or> length lns < length modes then False
         else list_all (\<lambda>(m, line). list_all item_no_reuse line \<and> check_line (seeded m line)) (zip modes lns) \<and>
              list_all (\<lambda>line. check_line (guard_line line)) (drop (length modes) lns))"

definition native_lines_ok :: "dnat list \<Rightarrow> bytes \<Rightarrow> bool" where
  "native_lines_ok modes body =
     (let lns = parse_xc body
      in if length lns < length modes then False
         else list_all (\<lambda>(m, line). list_all item_no_reuse line \<and> check_line (guard_line (seeded m line)))
                (zip modes lns) \<and>
              list_all (\<lambda>line. check_line (guard_line line)) (drop (length modes) lns))"

subsection \<open>The count stays in range\<close>

lemma exec_append: "exec (xs @ ys) rc = Option.bind (exec xs rc) (exec ys)"
proof (induction xs arbitrary: rc)
  case (Cons x xs)
  then show ?case by (cases "exec_op x rc") auto
qed simp

lemma exec_range: "exec ops rc = Some r \<Longrightarrow> 0 \<le> rc \<Longrightarrow> 0 \<le> r \<and> r \<le> rc + int (length ops)"
proof (induction ops arbitrary: rc)
  case (Cons x xs)
  from Cons.prems obtain m where m: "exec_op x rc = Some m" "exec xs m = Some r"
    by (auto simp: bind_Some_iff)
  then have "0 \<le> m \<and> m \<le> rc + 1"
    using Cons.prems(2) by (cases x) (auto split: if_splits)
  then show ?case
    using Cons.IH [OF m(2)] by simp
qed simp

fun item_ops :: "cert_item \<Rightarrow> nat" where
  "item_ops (Op o') = 1"
| "item_ops (Loop b) = length b"
| "item_ops (CondLoop t e) = length t + length e"
| "item_ops (Branch t e) = length t + length e"
| "item_ops (BranchRet f t e) = length t + length e"
| "item_ops (BranchAbort f t e) = length t + length e"
| "item_ops Poison = 0"

lemma exec_item_range:
  assumes "exec_item it rc = Some r" and "0 \<le> rc"
  shows "0 \<le> r \<and> r \<le> rc + int (item_ops it)"
proof (cases it)
  case (Op o')
  then show ?thesis using assms exec_range [of "[o']" rc r] by simp
qed (use assms in \<open>auto simp: bind_Some_iff Let_def split: if_splits dest!: exec_range\<close>)

lemma exec_line_range:
  "exec_line its rc = Some r \<Longrightarrow> 0 \<le> rc \<Longrightarrow> 0 \<le> r \<and> r \<le> rc + int (sum_list (map item_ops its))"
proof (induction its arbitrary: rc)
  case (Cons it its)
  from Cons.prems obtain m where m: "exec_item it rc = Some m" "exec_line its m = Some r"
    by (auto simp: bind_Some_iff)
  then show ?case
    using exec_item_range [OF m(1) Cons.prems(2)] Cons.IH [OF m(2)] by simp
qed simp

end
