(* ===== verification/Ownership_Runs.thy ===== *)
theory Ownership_Runs
  imports Ownership
begin

text \<open>
  The meaning of an ownership line, stated without the checker: the event sequences the code
  can run on one object (loops any number of times, either arm of a branch, an arm that
  returns or ends the process), and the life of the object under such a sequence. A line is
  safe when no run faults and every run that is not cut off by an abort gives back every
  reference. The checker decides exactly that.
\<close>

subsection \<open>The runs of a line\<close>

datatype ending = Falls | Returns | Aborts

inductive item_path :: "cert_item \<Rightarrow> op list \<Rightarrow> ending \<Rightarrow> bool" where
  op: "item_path (Op o') [o'] Falls"
| loop_done: "item_path (Loop b) [] Falls"
| loop_more: "item_path (Loop b) tr Falls \<Longrightarrow> item_path (Loop b) (b @ tr) Falls"
| cond_done: "item_path (CondLoop t e) [] Falls"
| cond_then: "item_path (CondLoop t e) tr Falls \<Longrightarrow> item_path (CondLoop t e) (t @ tr) Falls"
| cond_else: "item_path (CondLoop t e) tr Falls \<Longrightarrow> item_path (CondLoop t e) (e @ tr) Falls"
| branch_then: "item_path (Branch t e) t Falls"
| branch_else: "item_path (Branch t e) e Falls"
| ret_then: "item_path (BranchRet r t e) t (if r then Returns else Falls)"
| ret_else: "item_path (BranchRet r t e) e (if r then Falls else Returns)"
| abort_then: "item_path (BranchAbort a t e) t (if a then Aborts else Falls)"
| abort_else: "item_path (BranchAbort a t e) e (if a then Falls else Aborts)"

inductive line_path :: "cert_item list \<Rightarrow> op list \<Rightarrow> ending \<Rightarrow> bool" where
  empty: "line_path [] [] Falls"
| through: "item_path it tr Falls \<Longrightarrow> line_path its tr' e \<Longrightarrow> line_path (it # its) (tr @ tr') e"
| stops: "item_path it tr e \<Longrightarrow> e \<noteq> Falls \<Longrightarrow> line_path (it # its) tr e"

inductive_cases line_path_ConsE: "line_path (it # its) tr e"

inductive_simps item_path_Op_iff: "item_path (Op o') tr e"
inductive_simps item_path_Branch_iff: "item_path (Branch t f) tr e"
inductive_simps item_path_Ret_iff: "item_path (BranchRet r t f) tr e"
inductive_simps item_path_Abort_iff: "item_path (BranchAbort a t f) tr e"
inductive_simps item_path_Poison_iff: "item_path Poison tr e"
inductive_simps line_path_Nil_iff: "line_path [] tr e"

subsection \<open>The life of an object\<close>

text \<open>
  The count is the references the code holds. A release with none held is a double free, a
  borrow with none a use after free, a reuse needs the only reference. An owned object is
  freed when its count returns to 0, so that sharing it then is a use after free; a line that
  does not own its object starts with none of the references it may share.
\<close>

fun life :: "bool \<Rightarrow> op \<Rightarrow> nat \<Rightarrow> nat option" where
  "life owned Inc n = Some (n + 1)"
| "life owned Alias n = (if owned \<and> n = 0 then None else Some (n + 1))"
| "life owned Dec n = (if n = 0 then None else Some (n - 1))"
| "life owned MoveOut n = (if n = 0 then None else Some (n - 1))"
| "life owned Reuse n = (if n = 1 then Some 0 else None)"
| "life owned Borrow n = (if n = 0 then None else Some n)"
| "life owned ShareOut n = (if owned \<and> n = 0 then None else Some n)"

fun run :: "bool \<Rightarrow> op list \<Rightarrow> nat \<Rightarrow> nat option" where
  "run owned [] n = Some n"
| "run owned (o' # tr) n = Option.bind (life owned o' n) (run owned tr)"

definition safe_from :: "bool \<Rightarrow> nat \<Rightarrow> cert_item list \<Rightarrow> bool" where
  "safe_from owned n its \<longleftrightarrow>
     Poison \<notin> set its \<and>
     (\<forall>tr e. line_path its tr e \<longrightarrow> (\<exists>m. run owned tr n = Some m \<and> (e = Aborts \<or> m = 0)))"

definition line_safe :: "cert_item list \<Rightarrow> bool" where
  "line_safe its =
     (case its of Op Inc # rest \<Rightarrow> safe_from True 1 rest | _ \<Rightarrow> safe_from False 0 its)"

lemma run_append: "run w (xs @ ys) n = Option.bind (run w xs n) (run w ys)"
proof (induction xs arbitrary: n)
  case (Cons x xs)
  then show ?case by (cases "life w x n") auto
qed simp

text \<open>No event forgets the count, so what a run ends with tells where it began.\<close>

lemma life_inj: "life w x a = Some c \<Longrightarrow> life w x b = Some c \<Longrightarrow> a = b"
  by (cases x) (auto split: if_splits)

lemma run_inj: "run w tr a = Some c \<Longrightarrow> run w tr b = Some c \<Longrightarrow> a = b"
proof (induction tr arbitrary: a b)
  case (Cons x tr)
  from Cons.prems obtain m k where "life w x a = Some m" "run w tr m = Some c"
    and "life w x b = Some k" "run w tr k = Some c"
    by (auto simp: bind_Some_iff)
  then show ?case
    using Cons.IH [of m k] life_inj by blast
qed simp

subsection \<open>The folds compute the runs\<close>

text \<open>The guarded ops of an owned line, and the ops of any other.\<close>

definition gops :: "bool \<Rightarrow> op list \<Rightarrow> op list" where
  "gops w ops = (if w then guard_ops ops else ops)"

definition gitem :: "bool \<Rightarrow> cert_item \<Rightarrow> cert_item list" where
  "gitem w it = (if w then guard_item it else [it])"

lemma bind_exec_Nil [simp]: "Option.bind m (exec []) = m"
  by (cases m) auto

lemma bind_exec_line_Nil [simp]: "Option.bind m (exec_line []) = m"
  by (cases m) auto

lemma exec_gops: "exec (gops w ops) (int n) = map_option int (run w ops n)"
proof (induction ops arbitrary: n)
  case Nil
  then show ?case by (simp add: gops_def guard_ops_def)
next
  case (Cons x ops)
  have split: "gops w (x # ops) = gops w [x] @ gops w ops"
    by (simp add: gops_def guard_ops_def)
  have one: "exec (gops w [x]) (int n) = map_option int (life w x n)"
    by (cases x) (auto simp: gops_def guard_ops_def bind_exec_Nil)
  show ?case
    unfolding split exec_append one by (cases "life w x n") (auto simp: Cons)
qed

lemma exec_line_append: "exec_line (xs @ ys) rc = Option.bind (exec_line xs rc) (exec_line ys)"
proof (induction xs arbitrary: rc)
  case (Cons x xs)
  then show ?case by (cases "exec_item x rc") auto
qed simp

lemma exec_line_ops: "exec_line (map Op ops) rc = exec ops rc"
proof (induction ops arbitrary: rc)
  case (Cons x ops)
  then show ?case by (cases "exec_op x rc") auto
qed simp

text \<open>What an item must guarantee, from the runs alone, to lead from one count to another.\<close>

definition item_leads :: "bool \<Rightarrow> cert_item \<Rightarrow> nat \<Rightarrow> nat \<Rightarrow> bool" where
  "item_leads w it n k \<longleftrightarrow> it \<noteq> Poison \<and>
     (\<forall>tr. item_path it tr Falls \<longrightarrow> run w tr n = Some k) \<and>
     (\<forall>tr. item_path it tr Returns \<longrightarrow> run w tr n = Some 0) \<and>
     (\<forall>tr. item_path it tr Aborts \<longrightarrow> run w tr n \<noteq> None)"

lemma loop_runs:
  assumes "item_path it tr e" and "it = Loop b" and "run w b n = Some n"
  shows "run w tr n = Some n \<and> e = Falls"
  using assms by (induction rule: item_path.induct) (auto simp: run_append)

lemma cond_runs:
  assumes "item_path it tr e" and "it = CondLoop t f" and "run w t n = Some n" and "run w f n = Some n"
  shows "run w tr n = Some n \<and> e = Falls"
  using assms by (induction rule: item_path.induct) (auto simp: run_append)

lemma loop_leads: "item_leads w (Loop b) n k \<longleftrightarrow> k = n \<and> run w b n = Some n"
proof
  assume "item_leads w (Loop b) n k"
  then have all: "\<And>tr. item_path (Loop b) tr Falls \<Longrightarrow> run w tr n = Some k"
    by (simp add: item_leads_def)
  show "k = n \<and> run w b n = Some n"
    using all [OF loop_done] all [OF loop_more [OF loop_done]] by simp
next
  assume "k = n \<and> run w b n = Some n"
  then show "item_leads w (Loop b) n k"
    using loop_runs [of "Loop b" _ _ b w n] by (auto simp: item_leads_def)
qed

lemma cond_leads:
  "item_leads w (CondLoop t f) n k \<longleftrightarrow> k = n \<and> run w t n = Some n \<and> run w f n = Some n"
proof
  assume "item_leads w (CondLoop t f) n k"
  then have all: "\<And>tr. item_path (CondLoop t f) tr Falls \<Longrightarrow> run w tr n = Some k"
    by (simp add: item_leads_def)
  show "k = n \<and> run w t n = Some n \<and> run w f n = Some n"
    using all [OF cond_done] all [OF cond_then [OF cond_done]] all [OF cond_else [OF cond_done]] by simp
next
  assume "k = n \<and> run w t n = Some n \<and> run w f n = Some n"
  then show "item_leads w (CondLoop t f) n k"
    using cond_runs [of "CondLoop t f" _ _ t f w n] by (auto simp: item_leads_def)
qed

lemma gitem_exec:
  "exec_line (gitem w it) (int n) = Some (int k) \<longleftrightarrow> item_leads w it n k"
proof (cases it)
  case (Op x)
  have "exec_line (gitem w it) (int n) = exec (gops w [x]) (int n)"
    by (cases w) (simp_all add: Op gitem_def gops_def exec_line_ops)
  then show ?thesis
    by (auto simp: Op exec_gops item_leads_def item_path_Op_iff bind_Some_iff)
next
  case (Loop b)
  have "exec_line (gitem w it) (int n) = exec_item (Loop (gops w b)) (int n)"
    by (cases w) (simp_all add: Loop gitem_def gops_def)
  then show ?thesis
    unfolding Loop loop_leads by (auto simp: exec_gops bind_Some_iff)
next
  case (CondLoop t f)
  have "exec_line (gitem w it) (int n) = exec_item (CondLoop (gops w t) (gops w f)) (int n)"
    by (cases w) (simp_all add: CondLoop gitem_def gops_def)
  then show ?thesis
    unfolding CondLoop cond_leads by (auto simp: exec_gops bind_Some_iff)
next
  case (Branch t f)
  have "exec_line (gitem w it) (int n) = exec_item (Branch (gops w t) (gops w f)) (int n)"
    by (cases w) (simp_all add: Branch gitem_def gops_def)
  then show ?thesis
    unfolding Branch item_leads_def item_path_Branch_iff by (auto simp: exec_gops bind_Some_iff)
next
  case (BranchRet r t f)
  have "exec_line (gitem w it) (int n) = exec_item (BranchRet r (gops w t) (gops w f)) (int n)"
    by (cases w) (simp_all add: BranchRet gitem_def gops_def)
  then show ?thesis
    unfolding BranchRet item_leads_def item_path_Ret_iff
    by (cases r) (auto simp: exec_gops bind_Some_iff Let_def)
next
  case (BranchAbort a t f)
  have "exec_line (gitem w it) (int n) = exec_item (BranchAbort a (gops w t) (gops w f)) (int n)"
    by (cases w) (simp_all add: BranchAbort gitem_def gops_def)
  then show ?thesis
    unfolding BranchAbort item_leads_def item_path_Abort_iff
    by (cases a) (auto simp: exec_gops bind_Some_iff)
next
  case Poison
  then show ?thesis
    by (cases w) (simp_all add: gitem_def item_leads_def)
qed

subsection \<open>The checker decides safety\<close>

lemma item_falls: "it \<noteq> Poison \<Longrightarrow> \<exists>tr. item_path it tr Falls"
proof (cases it)
  case (BranchRet r t e)
  then show ?thesis by (cases r) (auto simp: item_path_Ret_iff)
next
  case (BranchAbort a t e)
  then show ?thesis by (cases a) (auto simp: item_path_Abort_iff)
qed (auto intro: item_path.intros)

lemma line_falls: "Poison \<notin> set its \<Longrightarrow> \<exists>tr. line_path its tr Falls"
proof (induction its)
  case Nil
  then show ?case by (auto intro: line_path.empty)
next
  case (Cons it its)
  then show ?case
    using item_falls [of it] by (auto intro: line_path.through)
qed

text \<open>Safety from a count, with the count a falling run leaves.\<close>

definition line_leads :: "bool \<Rightarrow> cert_item list \<Rightarrow> nat \<Rightarrow> nat \<Rightarrow> bool" where
  "line_leads w its n m \<longleftrightarrow> Poison \<notin> set its \<and>
     (\<forall>tr. line_path its tr Falls \<longrightarrow> run w tr n = Some m) \<and>
     (\<forall>tr. line_path its tr Returns \<longrightarrow> run w tr n = Some 0) \<and>
     (\<forall>tr. line_path its tr Aborts \<longrightarrow> run w tr n \<noteq> None)"

lemma line_leads_Nil: "line_leads w [] n m \<longleftrightarrow> n = m"
  by (simp add: line_leads_def line_path_Nil_iff)

lemma line_path_Cons_iff:
  "line_path (it # its) tr e \<longleftrightarrow>
    (\<exists>u v. tr = u @ v \<and> item_path it u Falls \<and> line_path its v e) \<or>
    item_path it tr e \<and> e \<noteq> Falls"
  by (auto elim: line_path_ConsE intro: line_path.intros)

lemma line_leads_Cons_intro:
  assumes "item_leads w it n k" and "line_leads w its k m"
  shows "line_leads w (it # its) n m"
  using assms by (auto simp: line_leads_def item_leads_def line_path_Cons_iff run_append)

lemma line_leads_Cons_dest:
  assumes "line_leads w (it # its) n m"
  shows "\<exists>k. item_leads w it n k \<and> line_leads w its k m"
proof -
  have np: "it \<noteq> Poison" "Poison \<notin> set its"
    using assms by (auto simp: line_leads_def)
  obtain u v where u: "item_path it u Falls" and v: "line_path its v Falls"
    using item_falls [OF np(1)] line_falls [OF np(2)] by blast
  then have "run w (u @ v) n = Some m"
    using assms line_path.through [OF u v] by (simp add: line_leads_def)
  then obtain k where k: "run w u n = Some k" "run w v k = Some m"
    by (auto simp: run_append bind_Some_iff)
  have falls: "run w tr n = Some k" if "item_path it tr Falls" for tr
  proof -
    have "run w (tr @ v) n = Some m"
      using assms line_path.through [OF that v] by (simp add: line_leads_def)
    then obtain k' where "run w tr n = Some k'" "run w v k' = Some m"
      by (auto simp: run_append bind_Some_iff)
    with k(2) show ?thesis using run_inj by blast
  qed
  have stop: "line_path (it # its) tr e" if "item_path it tr e" "e \<noteq> Falls" for tr e
    using that by (rule line_path.stops)
  have pass: "run w tr k = run w (u @ tr) n" for tr
    by (simp add: run_append k(1))
  have thru: "line_path (it # its) (u @ tr) e" if "line_path its tr e" for tr e
    using u that by (rule line_path.through)
  have "item_leads w it n k"
    using np(1) falls stop assms by (auto simp: item_leads_def line_leads_def)
  moreover have "line_leads w its k m"
    unfolding line_leads_def pass using np(2) thru assms unfolding line_leads_def by blast
  ultimately show ?thesis by blast
qed

lemma exec_line_leads:
  "exec_line (concat (map (gitem w) its)) (int n) = Some (int m) \<longleftrightarrow> line_leads w its n m"
proof (induction its arbitrary: n)
  case Nil
  then show ?case by (simp add: line_leads_Nil)
next
  case (Cons it its)
  have nat: "\<exists>k. r = int k" if "exec_line (gitem w it) (int n) = Some r" for r
    using exec_line_range [OF that] nonneg_int_cases by auto
  have "exec_line (concat (map (gitem w) (it # its))) (int n) = Some (int m) \<longleftrightarrow>
      (\<exists>k. exec_line (gitem w it) (int n) = Some (int k) \<and>
        exec_line (concat (map (gitem w) its)) (int k) = Some (int m))"
    using nat by (auto simp: exec_line_append bind_Some_iff)
  also have "\<dots> \<longleftrightarrow> (\<exists>k. item_leads w it n k \<and> line_leads w its k m)"
    by (simp only: gitem_exec Cons.IH)
  also have "\<dots> \<longleftrightarrow> line_leads w (it # its) n m"
    using line_leads_Cons_intro line_leads_Cons_dest by blast
  finally show ?case .
qed

lemma ending_cases: "(\<forall>e. P e) \<longleftrightarrow> P Falls \<and> P Returns \<and> P Aborts"
  by (metis ending.exhaust)

lemma safe_from_leads: "safe_from w n its \<longleftrightarrow> line_leads w its n 0"
  unfolding safe_from_def line_leads_def
  by (rule conj_cong [OF refl]) (subst all_comm, subst ending_cases, auto)

lemma safe_from_exec: "safe_from w n its \<longleftrightarrow> exec_line (concat (map (gitem w) its)) (int n) = Some 0"
  using exec_line_leads [of w its n 0] by (simp add: safe_from_leads)

lemma gitem_False [simp]: "concat (map (gitem False) its) = its"
  by (induction its) (simp_all add: gitem_def)

lemma gitem_True: "gitem True = guard_item"
  by (simp add: gitem_def fun_eq_iff)

lemma check_line_safe: "check_line its \<longleftrightarrow> safe_from False 0 its"
  using safe_from_exec [of False 0 its] by (simp add: check_line_def)

lemma guard_line_other: "(\<And>rest. its \<noteq> Op Inc # rest) \<Longrightarrow> guard_line its = its"
  by (auto simp: guard_line_def split_first_def split: list.splits cert_item.splits op.splits)

lemma check_guard_line: "check_line (guard_line its) \<longleftrightarrow> line_safe its"
proof (cases "\<exists>rest. its = Op Inc # rest")
  case True
  then obtain rest where its: "its = Op Inc # rest" by blast
  show ?thesis
    using safe_from_exec [of True 1 rest]
    by (simp add: its check_line_def guard_line_def split_first_def line_safe_def gitem_True)
next
  case False
  then have "line_safe its \<longleftrightarrow> safe_from False 0 its"
    by (auto simp: line_safe_def split: list.splits cert_item.splits op.splits)
  with False show ?thesis
    by (simp add: guard_line_other check_line_safe)
qed

lemma check_xc_iff: "check_xc w \<longleftrightarrow> (\<forall>line \<in> set (parse_xc w). line_safe line)"
  by (simp add: check_xc_def list_all_iff check_guard_line)

subsection \<open>Parameters\<close>

lemma item_no_reuse_iff:
  "item_no_reuse it \<longleftrightarrow> it \<noteq> Poison \<and> (\<forall>tr e. item_path it tr e \<longrightarrow> Reuse \<notin> set tr)"
proof (cases it)
  case (Loop b)
  have "Reuse \<notin> set tr" if "item_path it tr e" "Reuse \<notin> set b" for tr e
    using that Loop by (induction rule: item_path.induct) auto
  moreover have "item_path it b Falls"
    using loop_more [OF loop_done] Loop by fastforce
  ultimately show ?thesis using Loop by auto
next
  case (CondLoop t f)
  have "Reuse \<notin> set tr" if "item_path it tr e" "Reuse \<notin> set t" "Reuse \<notin> set f" for tr e
    using that CondLoop by (induction rule: item_path.induct) auto
  moreover have "item_path it t Falls" "item_path it f Falls"
    using cond_then [OF cond_done] cond_else [OF cond_done] CondLoop by fastforce+
  ultimately show ?thesis using CondLoop by auto
qed (auto simp: item_path_Op_iff item_path_Branch_iff item_path_Ret_iff item_path_Abort_iff)

lemma line_no_reuse:
  "list_all item_no_reuse its \<longleftrightarrow> Poison \<notin> set its \<and> (\<forall>tr e. line_path its tr e \<longrightarrow> Reuse \<notin> set tr)"
proof (induction its)
  case Nil
  then show ?case by (simp add: line_path_Nil_iff)
next
  case (Cons it its)
  show ?case
  proof
    show "list_all item_no_reuse (it # its) \<Longrightarrow> Poison \<notin> set (it # its) \<and> (\<forall>tr e. line_path (it # its) tr e \<longrightarrow> Reuse \<notin> set tr)"
    proof -
      assume free: "list_all item_no_reuse (it # its)"
      then have it: "it \<noteq> Poison" "\<And>tr e. item_path it tr e \<Longrightarrow> Reuse \<notin> set tr"
        using item_no_reuse_iff [of it] by auto
      have rest: "Poison \<notin> set its" "\<And>tr e. line_path its tr e \<Longrightarrow> Reuse \<notin> set tr"
        using Cons.IH free by auto
      have "Reuse \<notin> set tr" if "line_path (it # its) tr e" for tr e
        using that it(2) rest(2) unfolding line_path_Cons_iff by fastforce
      with it(1) rest(1) show ?thesis by simp
    qed
  next
    assume free: "Poison \<notin> set (it # its) \<and> (\<forall>tr e. line_path (it # its) tr e \<longrightarrow> Reuse \<notin> set tr)"
    obtain u v where u: "item_path it u Falls" and v: "line_path its v Falls"
      using free item_falls [of it] line_falls [of its] by auto
    have "item_no_reuse it"
      unfolding item_no_reuse_iff using free v line_path.through [of it _ its v Falls] line_path.stops [of it]
      by (metis UnI1 list.set_intros(1) set_append)
    moreover have "list_all item_no_reuse its"
      using free u line_path.through [of it u its] unfolding Cons.IH by fastforce
    ultimately show "list_all item_no_reuse (it # its)" by simp
  qed
qed

text \<open>
  A parameter line: it starts with the references its mode hands over (none for a borrow, one
  for a move), gives them all back, and never reuses the block in place.
\<close>

definition param_safe :: "bool \<Rightarrow> dnat \<Rightarrow> cert_item list \<Rightarrow> bool" where
  "param_safe guarded m line \<longleftrightarrow>
     (if dval m = 0 then (if guarded then line_safe line else safe_from False 0 line)
      else safe_from guarded 1 line) \<and>
     (\<forall>tr e. line_path line tr e \<longrightarrow> Reuse \<notin> set tr)"

lemma as_index_zero: "wf_nat m \<Longrightarrow> as_index m = Some 0 \<longleftrightarrow> dval m = 0"
  using as_index_Some [of m] as_index_None [of m] by (cases "as_index m") auto

lemma safe_no_poison: "safe_from w n its \<Longrightarrow> Poison \<notin> set its"
  by (simp add: safe_from_def)

lemma param_plain:
  assumes "wf_nat m"
  shows "list_all item_no_reuse line \<and> check_line (seeded m line) \<longleftrightarrow> param_safe False m line"
  using safe_from_exec [of False 0 line] safe_from_exec [of False 1 line] safe_no_poison
  by (auto simp: seeded_def as_index_zero [OF assms] check_line_def param_safe_def line_no_reuse)

lemma line_safe_no_poison: "line_safe its \<Longrightarrow> Poison \<notin> set its"
  by (auto simp: line_safe_def safe_from_def split: list.splits cert_item.splits op.splits)

lemma param_guarded:
  assumes "wf_nat m"
  shows "list_all item_no_reuse line \<and> check_line (guard_line (seeded m line)) \<longleftrightarrow> param_safe True m line"
  using safe_no_poison [of True 1 line] line_safe_no_poison [of line]
  by (auto simp: seeded_def as_index_zero [OF assms] check_guard_line param_safe_def line_no_reuse
      line_safe_def [of "Op Inc # line"])

text \<open>The lines of one function: the parameters first, then the objects it owns.\<close>

definition lines_safe :: "bool \<Rightarrow> dnat list \<Rightarrow> cert_item list list \<Rightarrow> bool" where
  "lines_safe guarded modes lns \<longleftrightarrow>
     length modes \<le> length lns \<and>
     (\<forall>i < length modes. param_safe guarded (modes ! i) (lns ! i)) \<and>
     (\<forall>i < length lns. length modes \<le> i \<longrightarrow> line_safe (lns ! i))"

lemma native_lines_ok_iff:
  assumes "\<forall>m \<in> set modes. wf_nat m"
  shows "native_lines_ok modes body \<longleftrightarrow> lines_safe True modes (parse_xc body)"
proof (cases "length (parse_xc body) < length modes")
  case True
  then show ?thesis by (simp add: native_lines_ok_def lines_safe_def Let_def)
next
  case False
  have "list_all (\<lambda>(m, line). list_all item_no_reuse line \<and> check_line (guard_line (seeded m line)))
      (zip modes (parse_xc body)) \<longleftrightarrow>
      (\<forall>i < length modes. param_safe True (modes ! i) (parse_xc body ! i))"
    using False assms by (subst zip_all) (simp_all add: param_guarded)
  with False show ?thesis
    by (simp add: native_lines_ok_def lines_safe_def Let_def check_guard_line drop_all)
qed

lemma check_sig_cert_iff:
  "check_sig_cert w \<longleftrightarrow>
    (let modes = pnats (fst (split_bar w))
     in (\<forall>m \<in> set modes. dval m \<le> 1) \<and> lines_safe False modes (parse_xc (snd (split_bar w))))"
proof -
  define modes where "modes = pnats (fst (split_bar w))"
  define lns where "lns = parse_xc (snd (split_bar w))"
  have wf: "\<forall>m \<in> set modes. wf_nat m"
    by (simp add: modes_def pnats_wf)
  have le: "list_all le_one modes \<longleftrightarrow> (\<forall>m \<in> set modes. dval m \<le> 1)"
    using wf by (simp add: list_all_iff le_one_val)
  have check: "check_sig_cert w \<longleftrightarrow>
      list_all le_one modes \<and> length modes \<le> length lns \<and>
      list_all (\<lambda>(m, line). list_all item_no_reuse line \<and> check_line (seeded m line)) (zip modes lns) \<and>
      list_all line_safe (drop (length modes) lns)"
    by (cases "length lns < length modes"; cases "list_all le_one modes")
      (simp_all add: check_sig_cert_def modes_def [symmetric] lns_def [symmetric] Let_def check_guard_line
        split_beta not_less)
  have params: "list_all (\<lambda>(m, line). list_all item_no_reuse line \<and> check_line (seeded m line)) (zip modes lns) \<longleftrightarrow>
      (\<forall>i < length modes. param_safe False (modes ! i) (lns ! i))" if "length modes \<le> length lns"
    using that wf by (subst zip_all) (simp_all add: param_plain)
  have "check_sig_cert w \<longleftrightarrow> (\<forall>m \<in> set modes. dval m \<le> 1) \<and> lines_safe False modes lns"
    unfolding check le lines_safe_def drop_all using params by blast
  then show ?thesis
    by (simp add: modes_def lns_def Let_def)
qed

end
