(* ===== verification/Ownership_Text.thy ===== *)
theory Ownership_Text
  imports Ownership_Runs
begin

text \<open>
  The text of ownership lines, as the emitter writes them, and the proof that the parser reads
  every such text back: no event, loop, arm or terminal mark of a certificate is lost or moved
  between the file and the checked items.
\<close>

fun op_byte :: "op \<Rightarrow> byte" where
  "op_byte Inc = CHR ''i''"
| "op_byte Alias = CHR ''a''"
| "op_byte Dec = CHR ''d''"
| "op_byte MoveOut = CHR ''m''"
| "op_byte Reuse = CHR ''r''"
| "op_byte Borrow = CHR ''b''"
| "op_byte ShareOut = CHR ''s''"

definition ops_text :: "op list \<Rightarrow> bytes" where
  "ops_text ops = map op_byte ops"

definition arms_text :: "bytes \<Rightarrow> op list \<Rightarrow> bytes \<Rightarrow> op list \<Rightarrow> bytes" where
  "arms_text mt t me e = CHR ''{'' # ops_text t @ mt @ CHR ''|'' # ops_text e @ me @ ''}''"

fun cert_item_text :: "cert_item \<Rightarrow> bytes" where
  "cert_item_text (Op o') = [op_byte o']"
| "cert_item_text (Loop b) = CHR ''('' # ops_text b @ '')''"
| "cert_item_text (CondLoop t e) = CHR ''['' # ops_text t @ CHR ''|'' # ops_text e @ '']''"
| "cert_item_text (Branch t e) = arms_text [] t [] e"
| "cert_item_text (BranchRet r t e) = (if r then arms_text ''x'' t [] e else arms_text [] t ''x'' e)"
| "cert_item_text (BranchAbort a t e) = (if a then arms_text ''t'' t [] e else arms_text [] t ''t'' e)"
| "cert_item_text Poison = ''x''"

definition line_text :: "cert_item list \<Rightarrow> bytes" where
  "line_text its = concat (map cert_item_text its)"

fun xc_text :: "cert_item list list \<Rightarrow> bytes" where
  "xc_text [] = []"
| "xc_text [l] = line_text l"
| "xc_text (l # ls) = line_text l @ newline # xc_text ls"

lemma op_byte_parse [simp]: "parse_byte (op_byte x) = Some x"
  by (cases x) (simp_all add: parse_byte_def ascii_lower_def)

lemma op_byte_plain [simp]:
  "\<not> is_xmark (op_byte x)" "\<not> is_tmark (op_byte x)" "op_byte x \<noteq> newline"
  "op_byte x \<noteq> CHR ''|''" "op_byte x \<noteq> CHR ''}''" "op_byte x \<noteq> CHR ''{''"
  "op_byte x \<noteq> CHR '']''" "op_byte x \<noteq> CHR ''[''" "op_byte x \<noteq> CHR ''(''" "op_byte x \<noteq> CHR '')''"
  by (cases x, simp_all add: is_xmark_def is_tmark_def newline_def)+

subsection \<open>Inside a region\<close>

lemma brx_ops_then:
  "\<not> b_in_else x \<Longrightarrow> \<not> then_exited x \<Longrightarrow> \<not> then_aborted x \<Longrightarrow>
    foldl brx_step x (ops_text ops) = x\<lparr>b_then := b_then x @ ops\<rparr>"
  by (induction ops arbitrary: x) (simp_all add: ops_text_def brx_step_def)

lemma brx_ops_else:
  "b_in_else x \<Longrightarrow> \<not> else_exited x \<Longrightarrow> \<not> else_aborted x \<Longrightarrow>
    foldl brx_step x (ops_text ops) = x\<lparr>b_else := b_else x @ ops\<rparr>"
  by (induction ops arbitrary: x) (simp_all add: ops_text_def brx_step_def)

lemma line_in_branch:
  "in_branch st = Some x \<Longrightarrow> CHR ''}'' \<notin> set bs \<Longrightarrow>
    foldl line_step st bs = st\<lparr>in_branch := Some (foldl brx_step x bs)\<rparr>"
proof (induction bs arbitrary: st x)
  case (Cons b bs)
  then have "b \<noteq> CHR ''}''" and "CHR ''}'' \<notin> set bs" by auto
  moreover from this have "line_step st b = st\<lparr>in_branch := Some (brx_step x b)\<rparr>"
    using Cons.prems(1) by (simp add: line_step_def)
  ultimately show ?case
    using Cons.IH [of "st\<lparr>in_branch := Some (brx_step x b)\<rparr>" "brx_step x b"] by simp
qed simp

lemma no_close [simp]: "CHR ''}'' \<notin> set (ops_text ops)"
  by (auto simp: ops_text_def dest: sym)

lemma cond_ops_then:
  "in_branch st = None \<Longrightarrow> in_cond st = Some c \<Longrightarrow> \<not> c_in_else c \<Longrightarrow>
    foldl line_step st (ops_text ops) = st\<lparr>in_cond := Some (c\<lparr>c_then := c_then c @ ops\<rparr>)\<rparr>"
  by (induction ops arbitrary: st c) (simp_all add: ops_text_def line_step_def cond_step_def)

lemma cond_ops_else:
  "in_branch st = None \<Longrightarrow> in_cond st = Some c \<Longrightarrow> c_in_else c \<Longrightarrow>
    foldl line_step st (ops_text ops) = st\<lparr>in_cond := Some (c\<lparr>c_else := c_else c @ ops\<rparr>)\<rparr>"
  by (induction ops arbitrary: st c) (simp_all add: ops_text_def line_step_def cond_step_def)

lemma loop_ops:
  "in_branch st = None \<Longrightarrow> in_cond st = None \<Longrightarrow> loop_body st = Some b \<Longrightarrow>
    foldl line_step st (ops_text ops) = st\<lparr>loop_body := Some (b @ ops)\<rparr>"
  by (induction ops arbitrary: st b) (simp_all add: ops_text_def line_step_def step_plain_def)

subsection \<open>Items, lines and certificates\<close>

text \<open>Between two items no region is open.\<close>

definition at_top :: "line_state \<Rightarrow> bool" where
  "at_top st \<longleftrightarrow> in_branch st = None \<and> in_cond st = None \<and> loop_body st = None"

lemma arms_read:
  assumes "at_top st" and "mt \<in> {[], ''x'', ''t''}" and "me \<in> {[], ''x'', ''t''}"
  shows "foldl line_step st (arms_text mt t me e) =
    st\<lparr>items := items st @ [brx_close
      \<lparr>b_in_else = True, then_exited = (mt = ''x''), else_exited = (me = ''x''),
       then_aborted = (mt = ''t''), else_aborted = (me = ''t''), malformed = False,
       b_then = t, b_else = e\<rparr>]\<rparr>"
proof -
  have mark: "CHR ''}'' \<notin> set mt" "CHR ''}'' \<notin> set me"
    using assms(2,3) by auto
  let ?body = "ops_text t @ mt @ CHR ''|'' # ops_text e @ me"
  let ?st = "st\<lparr>in_branch := Some brx_default\<rparr>"
  have open_: "line_step st (CHR ''{'') = ?st"
    using assms(1) by (simp add: at_top_def line_step_def is_xmark_def is_tmark_def step_plain_def)
  have body: "foldl line_step ?st ?body = ?st\<lparr>in_branch := Some (foldl brx_step brx_default ?body)\<rparr>"
    using mark by (intro line_in_branch) auto
  have brx: "foldl brx_step brx_default ?body =
      \<lparr>b_in_else = True, then_exited = (mt = ''x''), else_exited = (me = ''x''),
       then_aborted = (mt = ''t''), else_aborted = (me = ''t''), malformed = False,
       b_then = t, b_else = e\<rparr>"
    using assms(2,3)
    by (auto simp: brx_ops_then brx_ops_else brx_default_def brx_step_def is_xmark_def is_tmark_def)
  have arms: "arms_text mt t me e = CHR ''{'' # ?body @ ''}''"
    by (simp add: arms_text_def)
  have "foldl line_step st (arms_text mt t me e) = line_step (foldl line_step ?st ?body) (CHR ''}'')"
    unfolding arms foldl_append foldl_Cons foldl_Nil open_ ..
  also have "\<dots> = line_step (?st\<lparr>in_branch := Some (foldl brx_step brx_default ?body)\<rparr>) (CHR ''}'')"
    unfolding body ..
  also have "\<dots> = st\<lparr>items := items st @ [brx_close (foldl brx_step brx_default ?body)]\<rparr>"
    using assms(1) by (cases st) (simp add: line_step_def at_top_def)
  finally show ?thesis
    unfolding brx .
qed

lemma item_read:
  assumes "at_top st"
  shows "foldl line_step st (cert_item_text it) = st\<lparr>items := items st @ [it]\<rparr>"
proof (cases it)
  case (Op x)
  then show ?thesis
    using assms by (simp add: at_top_def line_step_def step_plain_def)
next
  case (Loop b)
  then show ?thesis
    using assms
    by (cases st) (simp add: at_top_def line_step_def step_plain_def is_xmark_def is_tmark_def loop_ops)
next
  case (CondLoop t e)
  then show ?thesis
    using assms
    by (cases st) (simp add: at_top_def line_step_def step_plain_def is_xmark_def is_tmark_def
        cond_ops_then cond_ops_else cond_default_def cond_step_def)
next
  case Poison
  then show ?thesis
    using assms by (simp add: at_top_def line_step_def is_xmark_def)
qed (auto simp: arms_read [OF assms] brx_close_def)

lemma line_read: "at_top st \<Longrightarrow> foldl line_step st (line_text its) = st\<lparr>items := items st @ its\<rparr>"
proof (induction its arbitrary: st)
  case (Cons it its)
  then show ?case
    by (simp add: line_text_def item_read at_top_def)
qed (simp add: line_text_def)

lemma parse_line_text: "parse_line (line_text its) = its"
  using line_read [of line_default its]
  by (simp add: parse_line_def at_top_def line_default_def line_finish_def)

lemma newline_chars:
  "newline \<noteq> CHR ''{''" "newline \<noteq> CHR ''}''" "newline \<noteq> CHR ''[''" "newline \<noteq> CHR '']''"
  "newline \<noteq> CHR ''(''" "newline \<noteq> CHR '')''" "newline \<noteq> CHR ''|''" "newline \<noteq> CHR ''x''"
  "newline \<noteq> CHR ''t''"
  by (simp_all add: newline_def)

lemma line_text_no_newline: "\<forall>b \<in> set (line_text its). b \<noteq> newline"
proof -
  have ops: "newline \<notin> set (ops_text ops)" for ops
    by (auto simp: ops_text_def dest: sym)
  have "newline \<notin> set (cert_item_text it)" for it
    using ops by (cases it) (auto simp: arms_text_def newline_chars dest: op_byte_plain(3) [THEN notE, OF sym])
  then show ?thesis by (auto simp: line_text_def)
qed

lemma parse_xc_text: "ls \<noteq> [] \<Longrightarrow> parse_xc (xc_text ls) = ls"
proof (induction ls rule: xc_text.induct)
  case (2 l)
  have "split_on (\<lambda>b. b = newline) (line_text l) = [line_text l]"
    using line_text_no_newline by (intro split_on_none) auto
  then show ?case by (simp add: parse_xc_def parse_line_text)
next
  case (3 l m ls)
  have "split_on (\<lambda>b. b = newline) (line_text l @ newline # xc_text (m # ls)) =
      line_text l # split_on (\<lambda>b. b = newline) (xc_text (m # ls))"
    using line_text_no_newline by (intro split_on_append_sep) auto
  with 3 show ?case by (simp add: parse_xc_def parse_line_text)
qed simp

end
