(* ===== verification/Modes.thy ===== *)
theory Modes
  imports Nat_Digits
begin

text \<open>
  The call-mode checker, \<open>crates/almide-verify/src/modes.rs\<close>: every function declares how it
  takes each heap parameter (0 borrows, 1 moves), every call site states the modes it passes,
  and the two must agree. The last section reads the accepted witness as a statement on the
  references a call hands over.
\<close>

subsection \<open>The checker\<close>

definition parse_modes :: "bytes \<Rightarrow> dnat list list \<times> dnat list list" where
  "parse_modes witness =
     (let (sigs, sites) = split_bar witness
      in (map pnats (split_semi sigs), filter (\<lambda>s. s \<noteq> []) (map pnats (split_semi sites))))"

definition site_ok :: "dnat list list \<Rightarrow> dnat list \<Rightarrow> bool" where
  "site_ok sigs site =
     (case split_first site of
        None \<Rightarrow> False
      | Some (callee, actual) \<Rightarrow>
          (case Option.bind (as_index callee) (sget sigs) of
             None \<Rightarrow> False
           | Some sig \<Rightarrow> sig = actual))"

definition check_modes_cert :: "bytes \<Rightarrow> bool" where
  "check_modes_cert witness =
     (let (sigs, sites) = parse_modes witness
      in list_all (list_all le_one) sigs \<and> list_all (site_ok sigs) sites)"

subsection \<open>What a site that passes says\<close>

definition modes_wf :: "dnat list list \<Rightarrow> bool" where
  "modes_wf ms \<longleftrightarrow> (\<forall>m \<in> set ms. \<forall>n \<in> set m. wf_nat n)"

lemma parse_modes_wf:
  assumes "parse_modes w = (sigs, sites)"
  shows "modes_wf sigs" and "modes_wf sites" and "\<forall>s \<in> set sites. s \<noteq> []"
  using assms by (auto simp: parse_modes_def modes_wf_def pnats_wf split: prod.splits)

lemma site_ok_iff:
  "site_ok sigs site \<longleftrightarrow>
    (\<exists>callee actual i. site = callee # actual \<and> as_index callee = Some i \<and>
      i < length sigs \<and> sigs ! i = actual)"
  by (auto simp: site_ok_def split_first_def bind_eq_Some_conv bind_eq_None_conv scan_simps
      split: list.splits option.splits)

text \<open>
  The call a site makes, as numbers: the callee in range, and mode for mode the callee's
  declared list.
\<close>

definition call_agrees :: "nat list list \<Rightarrow> nat list \<Rightarrow> bool" where
  "call_agrees sigs site \<longleftrightarrow> site \<noteq> [] \<and> hd site < length sigs \<and> sigs ! hd site = tl site"

lemma map_dval_inj:
  "\<forall>n \<in> set xs. wf_nat n \<Longrightarrow> \<forall>n \<in> set ys. wf_nat n \<Longrightarrow> map dval xs = map dval ys \<longleftrightarrow> xs = ys"
proof (induction xs arbitrary: ys)
  case (Cons x xs)
  then show ?case by (cases ys) (auto simp: dval_inj)
qed auto

lemma site_ok_agrees:
  assumes wf: "modes_wf sigs" "\<forall>n \<in> set site. wf_nat n" and len: "length sigs \<le> 10 ^ 18"
  shows "site_ok sigs site \<longleftrightarrow> call_agrees (map (map dval) sigs) (map dval site)"
proof (cases site)
  case Nil
  then show ?thesis by (simp add: site_ok_iff call_agrees_def)
next
  case (Cons callee actual)
  have eq: "map dval (sigs ! i) = map dval actual \<longleftrightarrow> sigs ! i = actual" if "i < length sigs" for i
    using that wf Cons by (intro map_dval_inj) (auto simp: modes_wf_def)
  have idx: "(as_index callee = Some i \<and> i < length sigs) \<longleftrightarrow> (dval callee = i \<and> i < length sigs)" for i
  proof (cases "as_index callee")
    case None
    then have "length sigs \<le> dval callee"
      using as_index_None [of callee] wf(2) len Cons by simp
    then show ?thesis using None by auto
  next
    case (Some k)
    then show ?thesis using as_index_Some [of callee] wf(2) Cons by simp
  qed
  have "site_ok sigs site \<longleftrightarrow> (\<exists>i. (as_index callee = Some i \<and> i < length sigs) \<and> sigs ! i = actual)"
    by (auto simp: site_ok_iff Cons)
  also have "\<dots> \<longleftrightarrow> dval callee < length sigs \<and> sigs ! dval callee = actual"
    unfolding idx by blast
  also have "\<dots> \<longleftrightarrow> dval callee < length sigs \<and> map dval (sigs ! dval callee) = map dval actual"
    using eq by blast
  finally show ?thesis
    by (simp add: call_agrees_def Cons cong: conj_cong)
qed

text \<open>
  A call with actual modes moves the arguments its \<open>1\<close> modes name; the callee takes over
  the parameters its signature moves. Agreement makes the two counts one.
\<close>

definition moves :: "nat list \<Rightarrow> nat" where
  "moves ms = length (filter (\<lambda>m. m = 1) ms)"

lemma call_agrees_moves:
  "call_agrees sigs site \<Longrightarrow> moves (tl site) = moves (sigs ! hd site) \<and> length (tl site) = length (sigs ! hd site)"
  by (simp add: call_agrees_def)

lemma check_modes_cert_iff:
  assumes "parse_modes w = (sigs, sites)" and "length sigs \<le> 10 ^ 18"
  shows "check_modes_cert w \<longleftrightarrow>
    (\<forall>sig \<in> set sigs. \<forall>m \<in> set sig. dval m \<le> 1) \<and>
    (\<forall>site \<in> set sites. call_agrees (map (map dval) sigs) (map dval site))"
proof -
  have le: "(\<forall>sig \<in> set sigs. \<forall>m \<in> set sig. le_one m) \<longleftrightarrow>
      (\<forall>sig \<in> set sigs. \<forall>m \<in> set sig. dval m \<le> 1)"
    using parse_modes_wf(1) [OF assms(1)] by (auto simp: modes_wf_def le_one_val)
  have agree: "site_ok sigs site \<longleftrightarrow> call_agrees (map (map dval) sigs) (map dval site)"
    if "site \<in> set sites" for site
    using that parse_modes_wf(1,2) [OF assms(1)] assms(2)
    by (intro site_ok_agrees) (auto simp: modes_wf_def)
  show ?thesis
    using le agree by (auto simp: check_modes_cert_def assms(1) list_all_iff)
qed

end
