(* ===== verification/Reach.thy ===== *)
theory Reach
  imports Nat_Digits
begin

text \<open>
  The transitive capability checker, \<open>crates/almide-verify/src/reach.rs\<close>: a call graph whose
  functions declare capabilities, and a walk that collects what every function reaches. The
  walk terminates on every graph, and what it collects is the union over the reflexive
  transitive closure of the call relation.
\<close>

subsection \<open>The call graph and the walk\<close>

record node =
  declared :: "dnat list"
  direct :: "dnat list"
  callees :: "dnat list"

definition parse_node :: "bytes \<Rightarrow> node" where
  "parse_node segment =
     (let (decl, rest) = split_bar segment; (dir, calls) = split_bar rest
      in \<lparr>declared = pnats decl, direct = pnats dir, callees = pnats calls\<rparr>)"

text \<open>The inner loop: mark every unseen in-range callee and push it.\<close>

fun visit :: "nat \<Rightarrow> nat list \<Rightarrow> bool list \<times> nat list \<Rightarrow> bool list \<times> nat list" where
  "visit n [] st = st"
| "visit n (c # cs) (seen, queue) =
     (if c < n \<and> \<not> seen ! c then visit n cs (seen[c := True], queue @ [c])
      else visit n cs (seen, queue))"

definition unseen :: "bool list \<Rightarrow> nat" where
  "unseen seen = length (filter Not seen)"

lemma unseen_mark: "c < length seen \<Longrightarrow> \<not> seen ! c \<Longrightarrow> Suc (unseen (seen[c := True])) = unseen seen"
proof (induction seen arbitrary: c)
  case (Cons s seen)
  then show ?case by (cases c) (auto simp: unseen_def)
qed simp

lemma visit_measure:
  "length seen = n \<Longrightarrow> visit n cs (seen, queue) = (seen', queue') \<Longrightarrow>
    length seen' = n \<and> length queue' + 2 * unseen seen' \<le> length queue + 2 * unseen seen"
proof (induction n cs "(seen, queue)" arbitrary: seen queue rule: visit.induct)
  case (2 n c cs seen queue)
  show ?case
  proof (cases "c < n \<and> \<not> seen ! c")
    case True
    then show ?thesis
      using 2(1) [OF True] 2(3,4) unseen_mark [of c seen] by auto
  next
    case False
    then show ?thesis using 2(2) [OF False] 2(3,4) by auto
  qed
qed simp

text \<open>
  The outer loop. The walk keeps one mark per node, so the test on the lengths holds in every
  call the checker makes (\<open>reach\<close> starts with as many marks as nodes).
\<close>

function walk :: "node list \<Rightarrow> bool list \<Rightarrow> nat list \<Rightarrow> dnat list \<Rightarrow> dnat list" where
  "walk prog seen queue caps =
     (if queue = [] \<or> length seen \<noteq> length prog then caps
      else
        let i = last queue;
            (seen', queue') =
              visit (length prog) (List.map_filter as_index (callees (prog ! i))) (seen, butlast queue)
        in walk prog seen' queue' (caps @ direct (prog ! i)))"
  by pat_completeness auto
termination
proof (relation "measure (\<lambda>(prog, seen, queue, caps). length queue + 2 * unseen seen)", goal_cases)
  case (2 prog seen queue caps i p seen' queue')
  then have "visit (length prog) (List.map_filter as_index (callees (prog ! i))) (seen, butlast queue) =
      (seen', queue')"
    by simp
  then have "length queue' + 2 * unseen seen' \<le> length (butlast queue) + 2 * unseen seen"
    using visit_measure [of seen "length prog"] 2 by blast
  moreover have "length (butlast queue) < length queue"
    using 2 by simp
  ultimately show ?case by simp
qed simp

declare walk.simps [simp del]

definition reach :: "node list \<Rightarrow> nat \<Rightarrow> dnat list" where
  "reach prog start = walk prog ((replicate (length prog) False)[start := True]) [start] []"

definition check_prog_cert :: "bytes \<Rightarrow> bool" where
  "check_prog_cert witness =
     (let prog = map parse_node (split_semi witness)
      in list_all (\<lambda>i. nat_subset (declared (prog ! i)) (reach prog i)) [0..<length prog])"

subsection \<open>The walk collects the closure\<close>

text \<open>The call relation: from an in-range function to every in-range callee it names.\<close>

definition calls :: "node list \<Rightarrow> (nat \<times> nat) set" where
  "calls prog =
     {(i, j). i < length prog \<and> j < length prog \<and> Some j \<in> as_index ` set (callees (prog ! i))}"

definition marked :: "bool list \<Rightarrow> nat set" where
  "marked seen = {i. i < length seen \<and> seen ! i}"

lemma marked_update: "c < length seen \<Longrightarrow> marked (seen[c := True]) = insert c (marked seen)"
  by (auto simp: marked_def nth_list_update)

lemma visit_marks:
  assumes "length seen = n" and "visit n cs (seen, queue) = (seen', queue')"
    and "marked seen = P \<union> set queue"
  shows "length seen' = n \<and> marked seen' = P \<union> set queue' \<and>
    marked seen' = marked seen \<union> {c \<in> set cs. c < n}"
  using assms
proof (induction n cs "(seen, queue)" arbitrary: seen queue rule: visit.induct)
  case (2 n c cs seen queue)
  show ?case
  proof (cases "c < n \<and> \<not> seen ! c")
    case True
    have "marked (seen[c := True]) = P \<union> set (queue @ [c])"
      using True 2(3,5) by (simp add: marked_update)
    moreover have "length (seen[c := True]) = n" and "visit n cs (seen[c := True], queue @ [c]) = (seen', queue')"
      using True 2(3,4) by simp_all
    ultimately have ih: "length seen' = n \<and> marked seen' = P \<union> set queue' \<and>
        marked seen' = marked (seen[c := True]) \<union> {c \<in> set cs. c < n}"
      using 2(1) [OF True] by blast
    moreover have "marked (seen[c := True]) \<union> {c \<in> set cs. c < n} =
        marked seen \<union> {c' \<in> set (c # cs). c' < n}"
      using True 2(3) by (auto simp: marked_update)
    ultimately show ?thesis by metis
  next
    case False
    then have "c < n \<longrightarrow> c \<in> marked seen"
      using 2(3) by (auto simp: marked_def)
    moreover have "length seen' = n \<and> marked seen' = P \<union> set queue' \<and>
        marked seen' = marked seen \<union> {c \<in> set cs. c < n}"
    proof (rule 2(2) [OF False 2(3) _ 2(5)])
      show "visit n cs (seen, queue) = (seen', queue')"
        using 2(4) unfolding visit.simps if_not_P [OF False] .
    qed
    ultimately show ?thesis by auto
  qed
qed auto

lemma set_map_filter: "set (List.map_filter f xs) = {y. Some y \<in> f ` set xs}"
  by (induction xs) (auto simp: List.map_filter_simps split: option.splits)

text \<open>The loop invariant: \<open>P\<close> is processed, the marks are \<open>P\<close> and the queue.\<close>

lemma walk_collects:
  assumes "length seen = length prog"
    and "marked seen = P \<union> set queue"
    and "calls prog `` P \<subseteq> marked seen"
    and "set caps = (\<Union>i \<in> P. set (direct (prog ! i)))"
    and "marked seen \<subseteq> (calls prog)\<^sup>* `` {start}" and "start \<in> marked seen"
  shows "set (walk prog seen queue caps) = (\<Union>i \<in> (calls prog)\<^sup>* `` {start}. set (direct (prog ! i)))"
  using assms
proof (induction prog seen queue caps arbitrary: P rule: walk.induct)
  case (1 prog seen queue caps)
  show ?case
  proof (cases "queue = []")
    case True
    have "j \<in> P" if "(start, j) \<in> (calls prog)\<^sup>*" for j
      using that "1.prems"(2,3,6) True by induction auto
    then have "(calls prog)\<^sup>* `` {start} \<subseteq> P"
      by blast
    then have "P = (calls prog)\<^sup>* `` {start}"
      using "1.prems"(2,5) True by auto
    then show ?thesis
      using True "1.prems"(4) by (simp add: walk.simps)
  next
    case False
    define i where "i = last queue"
    obtain seen' queue' where v:
      "visit (length prog) (List.map_filter as_index (callees (prog ! i))) (seen, butlast queue) =
        (seen', queue')"
      by fastforce
    have queue: "set queue = insert i (set (butlast queue))"
      using append_butlast_last_id [OF False] by (metis i_def insert_is_Un list.simps(15) set_append sup_commute empty_set)
    have i: "i \<in> marked seen" and i_lt: "i < length prog"
      using "1.prems"(1,2) queue by (auto simp: marked_def)
    have marks: "length seen' = length prog" "marked seen' = insert i P \<union> set queue'"
      "marked seen' = marked seen \<union> calls prog `` {i}"
      using visit_marks [OF "1.prems"(1) v, of "insert i P"] "1.prems"(2) queue i_lt
      by (auto simp: set_map_filter calls_def)
    have sub: "marked seen' \<subseteq> (calls prog)\<^sup>* `` {start}"
      using marks(3) "1.prems"(5) i by (auto intro: rtrancl_into_rtrancl)
    have closed: "calls prog `` insert i P \<subseteq> marked seen'"
      using marks(3) "1.prems"(3) by auto
    have guard: "\<not> (queue = [] \<or> length seen \<noteq> length prog)"
      using False "1.prems"(1) by simp
    have caps: "set (caps @ direct (prog ! i)) = (\<Union>i \<in> insert i P. set (direct (prog ! i)))"
      using "1.prems"(4) by auto
    have st: "start \<in> marked seen'"
      using marks(3) "1.prems"(6) by blast
    have "set (walk prog seen' queue' (caps @ direct (prog ! i))) =
        (\<Union>i \<in> (calls prog)\<^sup>* `` {start}. set (direct (prog ! i)))"
      by (rule "1.IH" [OF guard i_def v [symmetric] refl marks(1,2) closed caps sub st])
    then show ?thesis
      using False "1.prems"(1) v by (simp add: walk.simps [of prog seen queue] i_def Let_def)
  qed
qed

lemma marked_start: "start < n \<Longrightarrow> marked ((replicate n False)[start := True]) = {start}"
  by (auto simp: marked_def nth_list_update split: if_splits)

lemma reach_set:
  "start < length prog \<Longrightarrow>
    set (reach prog start) = (\<Union>i \<in> (calls prog)\<^sup>* `` {start}. set (direct (prog ! i)))"
  unfolding reach_def by (rule walk_collects [where P = "{}"]) (auto simp: marked_start)

subsection \<open>What an accepted graph says\<close>

text \<open>
  As numbers: function \<open>i\<close> may run function \<open>j\<close>, and each capability \<open>j\<close> uses directly is
  declared by \<open>i\<close>.
\<close>

definition caps_contained :: "node list \<Rightarrow> bool" where
  "caps_contained prog \<longleftrightarrow>
     (\<forall>i < length prog. \<forall>j. (i, j) \<in> (calls prog)\<^sup>* \<longrightarrow>
       dval ` set (direct (prog ! j)) \<subseteq> dval ` set (declared (prog ! i)))"

definition node_wf :: "node \<Rightarrow> bool" where
  "node_wf n \<longleftrightarrow> (\<forall>x \<in> set (declared n) \<union> set (direct n) \<union> set (callees n). wf_nat x)"

lemma parse_node_wf: "node_wf (parse_node s)"
  by (auto simp: node_wf_def parse_node_def Let_def pnats_wf split: prod.splits)

lemma calls_range: "(i, j) \<in> (calls prog)\<^sup>* \<Longrightarrow> i < length prog \<Longrightarrow> j < length prog"
  by (induction rule: rtrancl_induct) (auto simp: calls_def)

lemma reach_wf:
  assumes "\<forall>n \<in> set prog. node_wf n" and "i < length prog"
  shows "\<forall>x \<in> set (reach prog i). wf_nat x"
proof
  fix x
  assume "x \<in> set (reach prog i)"
  then obtain j where "(i, j) \<in> (calls prog)\<^sup>*" and x: "x \<in> set (direct (prog ! j))"
    using reach_set [OF assms(2)] by auto
  then have "node_wf (prog ! j)"
    using calls_range assms by simp
  with x show "wf_nat x"
    by (simp add: node_wf_def)
qed

lemma subset_reach:
  assumes "\<forall>n \<in> set prog. node_wf n" and "i < length prog"
  shows "nat_subset (declared (prog ! i)) (reach prog i) \<longleftrightarrow>
    (\<forall>j. (i, j) \<in> (calls prog)\<^sup>* \<longrightarrow>
      dval ` set (direct (prog ! j)) \<subseteq> dval ` set (declared (prog ! i)))"
proof -
  have "\<forall>x \<in> set (declared (prog ! i)). wf_nat x"
    using nth_mem [OF assms(2)] assms(1) unfolding node_wf_def by blast
  then have "nat_subset (declared (prog ! i)) (reach prog i) \<longleftrightarrow>
      dval ` set (reach prog i) \<subseteq> dval ` set (declared (prog ! i))"
    by (rule nat_subset_val [OF _ reach_wf [OF assms]])
  then show ?thesis
    unfolding reach_set [OF assms(2)] by blast
qed

lemma check_prog_cert_iff:
  "check_prog_cert w \<longleftrightarrow> caps_contained (map parse_node (split_semi w))"
proof -
  define prog where "prog = map parse_node (split_semi w)"
  have wf: "\<forall>n \<in> set prog. node_wf n"
    by (simp add: prog_def parse_node_wf)
  have "check_prog_cert w \<longleftrightarrow>
      (\<forall>i < length prog. nat_subset (declared (prog ! i)) (reach prog i))"
    by (simp add: check_prog_cert_def prog_def [symmetric] Let_def list_all_iff Ball_def)
  also have "\<dots> \<longleftrightarrow> caps_contained prog"
    by (simp add: caps_contained_def subset_reach [OF wf])
  finally show ?thesis by (simp only: prog_def)
qed

end
