(* ===== verification/Scan.thy ===== *)
theory Scan
  imports Nat_Digits
begin

text \<open>
  The token scanner the init and fields checkers share word for word
  (\<open>skip_blank\<close>, \<open>field\<close> in \<open>crates/almide-verify/src/init.rs\<close> and \<open>fields.rs\<close>), and the laws
  every scanner of the verifier keeps, as a locale: a scanner that succeeds has consumed at
  least a byte and has stayed inside the slice.
\<close>

subsection \<open>Blanks and tagged numbers\<close>

function skip_blank :: "bytes \<Rightarrow> nat \<Rightarrow> nat" where
  "skip_blank s i =
     (if (case sget s i of Some b \<Rightarrow> is_space b | None \<Rightarrow> False) then skip_blank s (i + 1) else i)"
  by pat_completeness auto
termination
  by (relation "measure (\<lambda>(s, i). length s - i)") (auto simp: sget_def split: option.splits if_splits)

declare skip_blank.simps [simp del]

definition field :: "byte \<Rightarrow> dnat scanner" where
  "field tag s i0 =
     (let i = skip_blank s i0
      in if sget s i \<noteq> Some tag \<or> \<not> (case sget s (i + 1) of Some b \<Rightarrow> is_digit b | None \<Rightarrow> False)
         then None
         else let start = i + 1; e = start + run_len is_digit s start
              in Some (from_digits (subslice s start e), e))"

lemma skip_blank_ge: "i \<le> skip_blank s i"
proof (induction s i rule: skip_blank.induct)
  case (1 s i)
  then show ?case by (subst skip_blank.simps) auto
qed

lemma skip_blank_le: "i \<le> length s \<Longrightarrow> skip_blank s i \<le> length s"
proof (induction s i rule: skip_blank.induct)
  case (1 s i)
  then show ?case by (subst skip_blank.simps) (auto simp: sget_def)
qed

lemma skip_blank_stop: "skip_blank s i < length s \<Longrightarrow> \<not> is_space (s ! skip_blank s i)"
proof (induction s i rule: skip_blank.induct)
  case (1 s i)
  show ?case
  proof (cases "i < length s \<and> is_space (s ! i)")
    case True
    then have "skip_blank s i = skip_blank s (i + 1)"
      by (subst skip_blank.simps) (simp add: sget_def)
    then show ?thesis using 1 True by (simp add: sget_def)
  next
    case False
    then have "skip_blank s i = i"
      by (subst skip_blank.simps) (auto simp: sget_def)
    then show ?thesis using 1(2) False by simp
  qed
qed

lemma skip_blank_id: "\<not> (i < length s \<and> is_space (s ! i)) \<Longrightarrow> skip_blank s i = i"
  by (subst skip_blank.simps) (auto simp: sget_def)

lemma field_progress [progress]: "field tag s i = Some (n, j) \<Longrightarrow> i < j \<and> j \<le> length s"
proof -
  let ?k = "skip_blank s i"
  assume "field tag s i = Some (n, j)"
  then have "?k + 1 < length s" and "j = ?k + 1 + run_len is_digit s (?k + 1)"
    by (auto simp: field_def Let_def sget_def split: if_splits)
  then show ?thesis
    using skip_blank_ge [of i s] run_len_bound [of "?k + 1" s is_digit] by linarith
qed

lemma field_wf: "field tag s i = Some (n, j) \<Longrightarrow> wf_nat n"
  using subslice_run_all [of s "skip_blank s i + 1" is_digit]
  by (auto simp: field_def Let_def all_digits_def split: if_splits intro!: wf_from_digits)

subsection \<open>Scanners that move forward\<close>

locale scanner =
  fixes item :: "'a scanner" and good :: "'a \<Rightarrow> bool"
  assumes forward: "item s i = Some (x, j) \<Longrightarrow> i < j \<and> j \<le> length s"
    and item_good: "item s i = Some (x, j) \<Longrightarrow> good x"
begin

lemma shrinks: "item s i = Some (x, j) \<Longrightarrow> length s - j < length s - i"
  using forward by fastforce

lemma not_at_end: "length s \<le> i \<Longrightarrow> item s i = None"
  using forward [of s i] by (cases "item s i") fastforce+

end

interpretation tagged: scanner "field tag" wf_nat for tag
  by unfold_locales (auto dest: field_wf field_progress)

text \<open>A token written by the encoder is read back, whatever follows its digits.\<close>

definition tag_text :: "byte \<Rightarrow> nat \<Rightarrow> bytes" where
  "tag_text tag n = CHR '' '' # tag # dec_string n"

lemma run_len_digits:
  assumes "all_digits ds" and "\<not> (\<exists>b r. post = b # r \<and> is_digit b)"
  shows "run_len is_digit (pre @ ds @ post) (length pre) = length ds"
proof -
  have "takeWhile is_digit (ds @ post) = ds @ takeWhile is_digit post"
    using assms(1) by (simp add: all_digits_def)
  moreover have "takeWhile is_digit post = []"
    using assms(2) by (cases post) auto
  ultimately show ?thesis by (simp add: run_len_def)
qed

lemma subslice_mid [simp]: "subslice (pre @ ds @ post) (length pre) (length pre + length ds) = ds"
  by (simp add: subslice_def)

lemma field_tag_text:
  assumes "\<not> is_space tag" and post: "\<not> (\<exists>b r. post = b # r \<and> is_digit b)"
  shows "field tag (pre @ tag_text tag n @ post) (length pre) =
    Some (dnat_of n, length pre + length (tag_text tag n))"
proof -
  let ?s = "pre @ tag_text tag n @ post"
  have "skip_blank ?s (length pre) = skip_blank ?s (length pre + 1)"
    by (subst skip_blank.simps) (simp add: sget_def nth_append tag_text_def is_space_def)
  also have "\<dots> = length pre + 1"
    using assms(1) by (intro skip_blank_id) (simp add: nth_append tag_text_def)
  finally have k: "skip_blank ?s (length pre) = length pre + 1" .
  obtain d ds where d: "dec_string n = d # ds"
    by (cases "dec_string n") auto
  have dig: "is_digit d"
    using all_digits_dec_string [of n] d by simp
  have s: "?s = (pre @ [CHR '' '', tag]) @ dec_string n @ post"
    by (simp add: tag_text_def)
  have run: "run_len is_digit ?s (length pre + 2) = length (dec_string n)"
    using run_len_digits [OF all_digits_dec_string post, of "pre @ [CHR '' '', tag]" n]
    unfolding s by simp
  have cut: "subslice ?s (length pre + 2) (length pre + 2 + length (dec_string n)) = dec_string n"
    using subslice_mid [of "pre @ [CHR '' '', tag]" "dec_string n" post]
    unfolding s by simp
  have at: "sget ?s (length pre + 1) = Some tag" "sget ?s (length pre + 2) = Some d"
    by (simp_all add: sget_def nth_append tag_text_def d)
  show ?thesis
    unfolding field_def k Let_def using at dig run cut
    by (simp add: dnat_of_def tag_text_def numeral_2_eq_2)
qed

subsection \<open>Bare numbers\<close>

text \<open>
  \<open>number\<close> and \<open>nums\<close>, the same in \<open>rbounds.rs\<close> and \<open>procs.rs\<close>: a run of digits, and a fixed
  count of them joined by commas.
\<close>

definition number :: "dnat scanner" where
  "number s i =
     (if length s < i then None
      else let e = i + run_len is_digit s i
           in if i < e then Some (from_digits (subslice s i e), e) else None)"

fun nums :: "bytes \<Rightarrow> nat \<Rightarrow> nat \<Rightarrow> (dnat list \<times> nat) option" where
  "nums s i 0 = Some ([], i)"
| "nums s i (Suc k) =
     (case number s i of
        None \<Rightarrow> None
      | Some (n, e) \<Rightarrow>
          if k = 0 then Some ([n], e)
          else if sget s e \<noteq> Some (CHR '','') then None
          else (case nums s (e + 1) k of None \<Rightarrow> None | Some (ns, j) \<Rightarrow> Some (n # ns, j)))"

lemma number_progress [progress]: "number s i = Some (n, j) \<Longrightarrow> i < j \<and> j \<le> length s"
  using run_len_bound [of i s is_digit] by (auto simp: number_def Let_def split: if_splits)

lemma number_wf: "number s i = Some (n, j) \<Longrightarrow> wf_nat n"
  using subslice_run_all [of s i is_digit]
  by (auto simp: number_def Let_def all_digits_def split: if_splits intro!: wf_from_digits)

interpretation bare: scanner number wf_nat
  by unfold_locales (auto dest: number_progress number_wf)

lemma nums_progress [progress]: "nums s i k = Some (ns, j) \<Longrightarrow> 0 < k \<Longrightarrow> i < j \<and> j \<le> length s"
proof (induction s i k arbitrary: ns j rule: nums.induct)
  case (2 s i k)
  obtain n e where n: "number s i = Some (n, e)"
    using 2(2) by (auto split: option.splits)
  have e: "i < e" "e \<le> length s"
    using number_progress [OF n] by auto
  show ?case
  proof (cases "k = 0")
    case True
    then show ?thesis using 2(2) n e by simp
  next
    case False
    then obtain ns' where "sget s e = Some (CHR '','')" "nums s (e + 1) k = Some (ns', j)"
      using 2(2) n by (auto split: option.splits if_splits)
    then show ?thesis
      using 2(1) [OF n refl False] False e by fastforce
  qed
qed simp

lemma nums_wf: "nums s i k = Some (ns, j) \<Longrightarrow> \<forall>n \<in> set ns. wf_nat n"
proof (induction s i k arbitrary: ns j rule: nums.induct)
  case (2 s i k)
  obtain n e where n: "number s i = Some (n, e)"
    using 2(2) by (auto split: option.splits)
  show ?case
  proof (cases "k = 0")
    case True
    then show ?thesis using 2(2) n number_wf [OF n] by auto
  next
    case False
    then obtain ns' where ns': "sget s e = Some (CHR '','')" "nums s (e + 1) k = Some (ns', j)" "ns = n # ns'"
      using 2(2) n by (auto split: option.splits if_splits)
    then show ?thesis
      using 2(1) [OF n refl False _ ns'(2)] number_wf [OF n] by simp
  qed
qed simp

text \<open>The tests on strides, offsets and widths.\<close>

definition zero_nat :: dnat where
  "zero_nat = from_digits ''0''"

definition positive :: "dnat \<Rightarrow> bool" where
  "positive n \<longleftrightarrow> zero_nat < n"

definition in_slot :: "dnat \<Rightarrow> dnat \<Rightarrow> dnat \<Rightarrow> bool" where
  "in_slot st o' w \<longleftrightarrow> positive st \<and> positive w \<and> nat_add o' w \<le> st"

definition in_hdr :: "dnat \<Rightarrow> dnat \<Rightarrow> bool" where
  "in_hdr o' w \<longleftrightarrow> positive w \<and> nat_add o' w \<le> from_digits ''12''"

lemma dec_consts:
  "dval zero_nat = 0" "dec_val ''12'' = 12" "dval (from_digits ''12'') = 12"
  "wf_nat zero_nat" "wf_nat (from_digits ''12'')"
proof -
  have d: "all_digits ''12''" "all_digits ''0''"
    by (simp_all add: is_digit_def)
  show "wf_nat zero_nat" "wf_nat (from_digits ''12'')"
    using d by (simp_all only: zero_nat_def wf_from_digits)
  show "dval zero_nat = 0" "dec_val ''12'' = 12" "dval (from_digits ''12'') = 12"
    by (simp_all add: zero_nat_def dec_val_Cons digit_val_def)
qed

lemma positive_val: "wf_nat n \<Longrightarrow> positive n \<longleftrightarrow> 0 < dval n"
  by (simp add: positive_def less_dval dec_consts)

lemma in_slot_val:
  "wf_nat st \<Longrightarrow> wf_nat o' \<Longrightarrow> wf_nat w \<Longrightarrow>
    in_slot st o' w \<longleftrightarrow> 0 < dval st \<and> 0 < dval w \<and> dval o' + dval w \<le> dval st"
  by (simp add: in_slot_def positive_val le_dval nat_add_val)

lemma in_hdr_val:
  "wf_nat o' \<Longrightarrow> wf_nat w \<Longrightarrow> in_hdr o' w \<longleftrightarrow> 0 < dval w \<and> dval o' + dval w \<le> 12"
  by (simp add: in_hdr_def positive_val le_dval nat_add_val dec_consts)

subsection \<open>Sequences of items\<close>

text \<open>
  \<open>seq_at\<close> of \<open>procs.rs\<close>: items up to the first \<open>|\<close> or \<open>}\<close>. The loop runs as long as the item
  parser says, so it is a partial function; for a scanner, which moves forward, any function
  that satisfies its equation is \<open>seq_at\<close> itself (\<open>seq_at_unique\<close>), so it always returns.
\<close>

partial_function (option) seq_at :: "'a scanner \<Rightarrow> bytes \<Rightarrow> nat \<Rightarrow> 'a list \<Rightarrow> ('a list \<times> nat) option" where
  "seq_at item s i out =
     (case sget s i of
        None \<Rightarrow> None
      | Some c \<Rightarrow>
          if c = CHR ''|'' \<or> c = CHR ''}'' then Some (out, i)
          else if is_space c then seq_at item s (i + 1) out
          else (case item s i of
                  None \<Rightarrow> None
                | Some (x, e) \<Rightarrow> seq_at item s e (out @ [x])))"

declare seq_at.simps [code]

context scanner
begin

lemma seq_at_spec:
  "seq_at item s i out = Some (r, j) \<Longrightarrow> \<forall>x \<in> set out. good x \<Longrightarrow>
    i \<le> j \<and> j < length s \<and> (\<forall>x \<in> set r. good x)"
proof (induction "length s - i" arbitrary: i out rule: less_induct)
  case less
  obtain c where c: "sget s i = Some c"
    using less.prems(1) by (subst (asm) seq_at.simps) (auto split: option.splits)
  then have i: "i < length s" by (simp add: sget_Some)
  consider "c = CHR ''|'' \<or> c = CHR ''}''" | "\<not> (c = CHR ''|'' \<or> c = CHR ''}'')" "is_space c"
    | "\<not> (c = CHR ''|'' \<or> c = CHR ''}'')" "\<not> is_space c" by blast
  then show ?case
  proof cases
    case 1
    then show ?thesis
      using less.prems c i by (subst (asm) seq_at.simps) simp
  next
    case 2
    then have "seq_at item s (i + 1) out = Some (r, j)"
      using less.prems(1) c by (subst (asm) seq_at.simps) simp
    moreover have "length s - (i + 1) < length s - i"
      using i by linarith
    ultimately have "i + 1 \<le> j \<and> j < length s \<and> (\<forall>x \<in> set r. good x)"
      using less.hyps less.prems(2) by blast
    then show ?thesis by simp
  next
    case 3
    then obtain x e where x: "item s i = Some (x, e)" "seq_at item s e (out @ [x]) = Some (r, j)"
      using less.prems(1) c by (subst (asm) seq_at.simps) (auto split: option.splits)
    have g: "\<forall>y \<in> set (out @ [x]). good y"
      using item_good [OF x(1)] less.prems(2) by simp
    have "e \<le> j \<and> j < length s \<and> (\<forall>x \<in> set r. good x)"
      by (rule less.hyps [OF shrinks [OF x(1)] x(2) g])
    then show ?thesis
      using forward [OF x(1)] by linarith
  qed
qed

lemma seq_at_unique:
  assumes "\<And>s i out. g s i out =
     (case sget s i of
        None \<Rightarrow> None
      | Some c \<Rightarrow>
          if c = CHR ''|'' \<or> c = CHR ''}'' then Some (out, i)
          else if is_space c then g s (i + 1) out
          else (case item s i of
                  None \<Rightarrow> None
                | Some (x, e) \<Rightarrow> g s e (out @ [x])))"
  shows "g s i out = seq_at item s i out"
proof (induction "length s - i" arbitrary: i out rule: less_induct)
  case less
  show ?case
  proof (cases "sget s i")
    case None
    then show ?thesis by (simp add: assms [of s i] seq_at.simps [of item s i])
  next
    case (Some c)
    then have "length s - (i + 1) < length s - i"
      by (auto simp: sget_Some)
    then have "g s (i + 1) out = seq_at item s (i + 1) out"
      by (rule less.hyps)
    moreover have "g s e (out @ [x]) = seq_at item s e (out @ [x])" if "item s i = Some (x, e)" for x e
      using less.hyps [OF shrinks [OF that]] .
    ultimately show ?thesis
      using Some by (auto simp: assms [of s i] seq_at.simps [of item s i] split: option.splits)
  qed
qed

end

text \<open>Pairs \<open>x:y\<close> and triples \<open>x,y,z\<close> (\<open>procs.rs\<close>).\<close>

definition pair_item :: "(dnat \<times> dnat) scanner" where
  "pair_item s i = do {
     (x, e) \<leftarrow> number s i;
     if sget s e \<noteq> Some (CHR '':'') then None else do { (y, e2) \<leftarrow> number s (e + 1); Some ((x, y), e2) } }"

definition triple_item :: "(dnat \<times> dnat \<times> dnat) scanner" where
  "triple_item s i = do {
     (v, e) \<leftarrow> nums s i 3;
     (case v of [a, b, c] \<Rightarrow> Some ((a, b, c), e) | _ \<Rightarrow> None) }"

definition pair_wf :: "dnat \<times> dnat \<Rightarrow> bool" where
  "pair_wf p \<longleftrightarrow> wf_nat (fst p) \<and> wf_nat (snd p)"

definition triple_wf :: "dnat \<times> dnat \<times> dnat \<Rightarrow> bool" where
  "triple_wf p \<longleftrightarrow> wf_nat (fst p) \<and> wf_nat (fst (snd p)) \<and> wf_nat (snd (snd p))"

lemma pair_item_spec: "pair_item s i = Some (p, j) \<Longrightarrow> i < j \<and> j \<le> length s \<and> pair_wf p"
  by (auto simp: pair_item_def bind_Some_iff pair_wf_def split: if_splits
      dest: number_wf number_progress [THEN conjunct1] number_progress [THEN conjunct2] less_trans)

lemma list4_cases:
  obtains "xs = []" | a where "xs = [a]" | a b where "xs = [a, b]" | a b c where "xs = [a, b, c]"
  | a b c d ys where "xs = a # b # c # d # ys"
  by (metis neq_Nil_conv)

lemma triple_item_spec:
  assumes "triple_item s i = Some (p, j)"
  shows "i < j \<and> j \<le> length s \<and> triple_wf p"
proof -
  obtain a b c where v: "nums s i 3 = Some ([a, b, c], j)" "p = (a, b, c)"
  proof -
    obtain v e where "nums s i 3 = Some (v, e)"
      and c: "(case v of [a, b, c] \<Rightarrow> Some ((a, b, c), e) | _ \<Rightarrow> None) = Some (p, j)"
      using assms by (auto simp: triple_item_def bind_Some_iff)
    then show ?thesis
      using that by (cases v rule: list4_cases) auto
  qed
  show ?thesis
    using nums_progress [OF v(1)] nums_wf [OF v(1)] v(2) by (simp add: triple_wf_def)
qed

interpretation pairs: scanner pair_item pair_wf
  by unfold_locales (auto dest: pair_item_spec)

interpretation triples: scanner triple_item triple_wf
  by unfold_locales (auto dest: triple_item_spec)

end
