(* ===== verification/Init_Cert.thy ===== *)
theory Init_Cert
  imports Scan
begin

text \<open>
  The initialisation checker, \<open>crates/almide-verify/src/init.rs\<close>: construction sites that
  store every slot of a fresh block, one by one or in a counted loop. The second half gives
  the block a run-time meaning (a block of slots, a loop over bytes) and shows that the test
  decides full initialisation with no store past the block.
\<close>

subsection \<open>Sites and their parser\<close>

datatype site =
    Fixed (hdr: dnat) (width: dnat) (slots: dnat) (stores: "dnat list")
  | Fill (hdr: dnat) (width: dnat) (count_local: dnat) (counter: dnat) (step: dnat)

function stores_at :: "bytes \<Rightarrow> nat \<Rightarrow> dnat list \<Rightarrow> (dnat list \<times> nat) option" where
  "stores_at s i acc =
     (let j = skip_blank s i
      in case sget s j of
           None \<Rightarrow> Some (acc, j)
         | Some b \<Rightarrow>
             if b = CHR '';'' then Some (acc, j)
             else case field (CHR ''s'') s j of
                    None \<Rightarrow> None
                  | Some (n, k) \<Rightarrow> stores_at s k (acc @ [n]))"
  by pat_completeness auto
termination
proof (relation "measure (\<lambda>(s, i, acc). length s - i)", goal_cases)
  case (2 s i acc j b x n k)
  then have "i \<le> j" and "j < k \<and> k \<le> length s"
    using skip_blank_ge [of i s] field_progress [of _ s j n k] by auto
  then show ?case by auto
qed simp

declare stores_at.simps [simp del]

definition site_at :: "bytes \<Rightarrow> nat \<Rightarrow> (site \<times> nat) option" where
  "site_at s i0 = do {
     (h, i) \<leftarrow> field (CHR ''h'') s i0;
     (w, i) \<leftarrow> field (CHR ''w'') s i;
     (case field (CHR ''n'') s i of
        Some (n, i) \<Rightarrow> do {
          (repr, i) \<leftarrow> field (CHR ''r'') s i;
          (st, j) \<leftarrow> stores_at s i [];
          Some (Fixed h w n st, j) }
      | None \<Rightarrow> do {
          (k, i) \<leftarrow> field (CHR ''v'') s i;
          (repr, i) \<leftarrow> field (CHR ''r'') s i;
          (l, i) \<leftarrow> field (CHR ''f'') s i;
          (t, i) \<leftarrow> field (CHR ''t'') s i;
          let j = skip_blank s i;
          (case sget s j of
             None \<Rightarrow> Some (Fill h w k l t, j)
           | Some b \<Rightarrow> if b = CHR '';'' then Some (Fill h w k l t, j) else None) }) }"

lemma stores_at_progress [progress]:
  "stores_at s i acc = Some (st, j) \<Longrightarrow> i \<le> length s \<Longrightarrow> i \<le> j \<and> j \<le> length s"
proof (induction s i acc arbitrary: st j rule: stores_at.induct)
  case (1 s i acc)
  let ?j = "skip_blank s i"
  have k: "i \<le> ?j" "?j \<le> length s"
    using skip_blank_ge skip_blank_le "1.prems"(2) by auto
  show ?case
  proof (cases "sget s ?j = None \<or> sget s ?j = Some (CHR '';'')")
    case True
    then show ?thesis
      using "1.prems"(1) k by (subst (asm) stores_at.simps) (auto simp: Let_def)
  next
    case False
    then obtain b where b: "sget s ?j = Some b" "b \<noteq> CHR '';''" by auto
    then obtain n m where f: "field (CHR ''s'') s ?j = Some (n, m)"
      and r: "stores_at s m (acc @ [n]) = Some (st, j)"
      using "1.prems"(1) by (subst (asm) stores_at.simps) (auto simp: Let_def split: option.splits)
    have "?j < m" "m \<le> length s"
      using field_progress [OF f] by auto
    then show ?thesis
      using "1.IH" [OF refl b f refl r] k by simp
  qed
qed

lemma stores_at_wf:
  "stores_at s i acc = Some (st, j) \<Longrightarrow> \<forall>n \<in> set acc. wf_nat n \<Longrightarrow> \<forall>n \<in> set st. wf_nat n"
proof (induction s i acc arbitrary: st j rule: stores_at.induct)
  case (1 s i acc)
  let ?j = "skip_blank s i"
  show ?case
  proof (cases "sget s ?j = None \<or> sget s ?j = Some (CHR '';'')")
    case True
    then show ?thesis
      using "1.prems" by (subst (asm) stores_at.simps) (auto simp: Let_def)
  next
    case False
    then obtain b where b: "sget s ?j = Some b" "b \<noteq> CHR '';''" by auto
    then obtain n m where f: "field (CHR ''s'') s ?j = Some (n, m)"
      and r: "stores_at s m (acc @ [n]) = Some (st, j)"
      using "1.prems"(1) by (subst (asm) stores_at.simps) (auto simp: Let_def split: option.splits)
    show ?thesis
      using "1.IH" [OF refl b f refl r] "1.prems"(2) field_wf [OF f] by simp
  qed
qed

definition site_wf :: "site \<Rightarrow> bool" where
  "site_wf x = (case x of
     Fixed h w n st \<Rightarrow> wf_nat h \<and> wf_nat w \<and> wf_nat n \<and> (\<forall>i \<in> set st. wf_nat i)
   | Fill h w k l t \<Rightarrow> wf_nat h \<and> wf_nat w \<and> wf_nat k \<and> wf_nat l \<and> wf_nat t)"

lemma site_at_progress [progress]: "site_at s i = Some (x, j) \<Longrightarrow> i < j \<and> j \<le> length s"
  unfolding site_at_def Let_def
  by (auto simp: scan_simps split: option.splits if_splits
      dest!: field_progress stores_at_progress dest: order_trans [OF _ skip_blank_ge]
      intro: less_le_trans [OF _ skip_blank_ge] skip_blank_le)

lemma site_at_wf: "site_at s i = Some (x, j) \<Longrightarrow> site_wf x"
  unfolding site_at_def Let_def
  by (auto simp: scan_simps site_wf_def split: option.splits if_splits
      dest!: field_wf dest: stores_at_wf)

interpretation site: scanner site_at site_wf
  by unfold_locales (auto dest: site_at_progress site_at_wf)

function parse_sites :: "bytes \<Rightarrow> nat \<Rightarrow> site list \<Rightarrow> site list option" where
  "parse_sites s i out =
     (if skip_blank s i = length s then Some out
      else case site_at s i of
             None \<Rightarrow> None
           | Some (x, j) \<Rightarrow>
               (case sget s j of
                  None \<Rightarrow> Some (out @ [x])
                | Some b \<Rightarrow> if b = CHR '';'' then parse_sites s (j + 1) (out @ [x]) else None))"
  by pat_completeness auto
termination
proof (relation "measure (\<lambda>(s, i, out). length s - i)", goal_cases)
  case (2 s i out y x j b)
  then have "i < j \<and> j \<le> length s"
    using site.forward by blast
  then show ?case by auto
qed simp

declare parse_sites.simps [simp del]

subsection \<open>The test\<close>

definition init_site_ok :: "site \<Rightarrow> bool" where
  "init_site_ok x =
     (let zero = from_digits []
      in case x of
           Fixed h w n st \<Rightarrow>
             if h = zero \<or> w = zero \<or> list_ex (\<lambda>i. n \<le> i) st then False
             else from_digits (dec_string (card (set st))) = n
         | Fill h w k l t \<Rightarrow> h \<noteq> zero \<and> w \<noteq> zero \<and> k = l \<and> t = w)"

definition check_init_cert :: "bytes \<Rightarrow> bool" where
  "check_init_cert witness =
     (case parse_sites witness 0 [] of None \<Rightarrow> False | Some sites \<Rightarrow> list_all init_site_ok sites)"

lemma parse_sites_wf:
  "parse_sites s i out = Some sites \<Longrightarrow> \<forall>x \<in> set out. site_wf x \<Longrightarrow> \<forall>x \<in> set sites. site_wf x"
proof (induction s i out arbitrary: sites rule: parse_sites.induct)
  case (1 s i out)
  show ?case
  proof (cases "skip_blank s i = length s")
    case True
    then show ?thesis using "1.prems" by (simp add: parse_sites.simps)
  next
    case False
    then obtain x j where x: "site_at s i = Some (x, j)"
      using "1.prems"(1) by (subst (asm) parse_sites.simps) (auto split: option.splits)
    show ?thesis
    proof (cases "sget s j")
      case None
      then show ?thesis
        using "1.prems" False x site.item_good [OF x]
        by (subst (asm) parse_sites.simps) auto
    next
      case (Some b)
      then have b: "b = CHR '';''" "parse_sites s (j + 1) (out @ [x]) = Some sites"
        using "1.prems"(1) False x by (subst (asm) parse_sites.simps, auto split: if_splits)+
      show ?thesis
        using "1.IH" [OF False x refl Some b] "1.prems"(2) site.item_good [OF x] by simp
    qed
  qed
qed

subsection \<open>What the sites do at run time\<close>

text \<open>
  A fixed site runs its stores in order on a block of \<open>n\<close> slots: the state is the set of
  slots initialised so far, and a store past the block is a fault.
\<close>

fun run_stores :: "nat \<Rightarrow> nat list \<Rightarrow> nat set \<Rightarrow> nat set option" where
  "run_stores n [] done = Some done"
| "run_stores n (i # is) done = (if i < n then run_stores n is (insert i done) else None)"

text \<open>
  A loop fill counts a local down; every turn writes \<open>width\<close> bytes at the cursor and advances
  it by \<open>step\<close>. A write past the block is a fault.
\<close>

fun run_fill :: "nat \<Rightarrow> nat \<Rightarrow> nat \<Rightarrow> nat \<Rightarrow> nat \<Rightarrow> nat set \<Rightarrow> nat set option" where
  "run_fill w st blk 0 cursor done = Some done"
| "run_fill w st blk (Suc c) cursor done =
     (if cursor + w \<le> blk then run_fill w st blk c (cursor + st) (done \<union> {cursor..<cursor + w})
      else None)"

text \<open>
  A site initialises its block: with a header and slots of positive size, the run is free of
  faults and leaves no slot (no payload byte) unwritten, whatever the locals hold.
\<close>

definition site_initialises :: "site \<Rightarrow> bool" where
  "site_initialises x = (case x of
     Fixed h w n st \<Rightarrow>
       0 < dval h \<and> 0 < dval w \<and> run_stores (dval n) (map dval st) {} = Some {..<dval n}
   | Fill h w k l t \<Rightarrow>
       0 < dval h \<and> 0 < dval w \<and>
       (\<forall>locals :: nat \<Rightarrow> nat.
          run_fill (dval w) (dval t) (dval h + locals (dval k) * dval w) (locals (dval l)) (dval h) {} =
          Some {dval h..<dval h + locals (dval k) * dval w}))"

lemma run_stores_spec:
  "run_stores n is done = (if \<forall>i \<in> set is. i < n then Some (done \<union> set is) else None)"
  by (induction n "is" "done" rule: run_stores.induct) auto

lemma run_fill_spec:
  "run_fill w w (h + (d + c) * w) c (h + d * w) {h..<h + d * w} = Some {h..<h + (d + c) * w}"
proof (induction c arbitrary: d)
  case (Suc c)
  have "{h..<h + d * w} \<union> {h + d * w..<h + d * w + w} = {h..<h + Suc d * w}"
    by (auto simp: algebra_simps)
  then show ?case
    using Suc [of "Suc d"] by (simp add: algebra_simps)
qed simp

text \<open>Two turns tell a wrong step apart, one turn a wrong counter.\<close>

lemma fill_exact:
  assumes w: "0 < w"
  shows "(\<forall>locals :: nat \<Rightarrow> nat. run_fill w t (h + locals k * w) (locals l) h {} =
      Some {h..<h + locals k * w}) \<longleftrightarrow> k = l \<and> t = w"
    (is "?runs \<longleftrightarrow> _")
proof
  assume runs: ?runs
  have kl: "k = l"
  proof (rule ccontr)
    assume "k \<noteq> l"
    then show False
      using runs [THEN spec, of "(\<lambda>_. 0)(l := 1)"] w by simp
  qed
  have two: "run_fill w t (h + 2 * w) 2 h {} = Some {h..<h + 2 * w}"
    using runs [THEN spec, of "\<lambda>_. 2"] kl by simp
  then have union: "{h..<h + w} \<union> {h + t..<h + t + w} = {h..<h + 2 * w}" and "t \<le> w"
    by (auto simp: numeral_2_eq_2 split: if_splits)
  have "h + 2 * w - 1 \<in> {h..<h + 2 * w}"
    using w by simp
  then have "h + 2 * w - 1 < h + t + w"
    unfolding union [symmetric] using w by auto
  with \<open>t \<le> w\<close> kl show "k = l \<and> t = w"
    by linarith
next
  assume "k = l \<and> t = w"
  then show ?runs
    using run_fill_spec [of w h 0] by simp
qed

lemma dval_zero_iff: "wf_nat n \<Longrightarrow> n = from_digits [] \<longleftrightarrow> dval n = 0"
  using dval_inj [of n "from_digits []"] by simp

lemma init_site_ok_exact:
  assumes "site_wf x"
  shows "init_site_ok x \<longleftrightarrow> site_initialises x"
proof (cases x)
  case (Fixed h w n st)
  have wf: "wf_nat h" "wf_nat w" "wf_nat n" "\<forall>i \<in> set st. wf_nat i"
    using assms by (simp_all add: Fixed site_wf_def)
  have card: "card (set st) = card (dval ` set st)"
    using wf(4) by (intro card_image [symmetric] inj_onI) (auto simp: dval_inj)
  have below: "list_ex (\<lambda>i. n \<le> i) st \<longleftrightarrow> \<not> dval ` set st \<subseteq> {..<dval n}"
    using wf(3,4) by (auto simp: list_ex_iff le_dval not_less)
  have count: "from_digits (dec_string (card (set st))) = n \<longleftrightarrow> card (dval ` set st) = dval n"
    using dval_inj [of "from_digits (dec_string (card (set st)))" n] wf(3) card by simp
  have full: "dval ` set st \<subseteq> {..<dval n} \<and> card (dval ` set st) = dval n \<longleftrightarrow> dval ` set st = {..<dval n}"
    using card_subset_eq [of "{..<dval n}" "dval ` set st"] by auto
  have runs: "run_stores (dval n) (map dval st) {} = Some {..<dval n} \<longleftrightarrow> dval ` set st = {..<dval n}"
    unfolding run_stores_spec by auto
  show ?thesis
    unfolding init_site_ok_def site_initialises_def Fixed Let_def site.case runs full [symmetric]
    using below count wf(1,2) by (simp add: dval_zero_iff)
next
  case (Fill h w k l t)
  have wf: "wf_nat h" "wf_nat w" "wf_nat k" "wf_nat l" "wf_nat t"
    using assms by (simp_all add: Fill site_wf_def)
  have eq: "k = l \<longleftrightarrow> dval k = dval l" "t = w \<longleftrightarrow> dval t = dval w"
    using wf by (simp_all add: dval_inj)
  show ?thesis
  proof (cases "0 < dval w")
    case True
    then show ?thesis
      unfolding init_site_ok_def site_initialises_def Fill Let_def site.case eq fill_exact [OF True]
      using wf by (simp add: dval_zero_iff)
  next
    case False
    then show ?thesis
      using wf by (simp add: init_site_ok_def site_initialises_def Fill Let_def dval_zero_iff)
  qed
qed

lemma check_init_cert_iff:
  "check_init_cert w \<longleftrightarrow> (\<exists>sites. parse_sites w 0 [] = Some sites \<and> (\<forall>x \<in> set sites. site_initialises x))"
  using parse_sites_wf [of w 0 "[]"] init_site_ok_exact
  by (auto simp: check_init_cert_def list_all_iff split: option.splits)

subsection \<open>The parser reads what the encoder writes\<close>

definition stores_text :: "dnat list \<Rightarrow> bytes" where
  "stores_text st = concat (map (\<lambda>i. tag_text (CHR ''s'') (dval i)) st)"

definition site_text :: "site \<Rightarrow> bytes" where
  "site_text x = (case x of
     Fixed h w n st \<Rightarrow>
       tag_text (CHR ''h'') (dval h) @ tag_text (CHR ''w'') (dval w) @ tag_text (CHR ''n'') (dval n) @
       tag_text (CHR ''r'') 0 @ stores_text st
   | Fill h w k l t \<Rightarrow>
       tag_text (CHR ''h'') (dval h) @ tag_text (CHR ''w'') (dval w) @ tag_text (CHR ''v'') (dval k) @
       tag_text (CHR ''r'') 0 @ tag_text (CHR ''f'') (dval l) @ tag_text (CHR ''t'') (dval t))"

fun sites_text :: "site list \<Rightarrow> bytes" where
  "sites_text [] = []"
| "sites_text [x] = site_text x"
| "sites_text (x # xs) = site_text x @ CHR '';'' # sites_text xs"

text \<open>What may follow a site: nothing, or a separator.\<close>

definition ends_item :: "bytes \<Rightarrow> bool" where
  "ends_item post \<longleftrightarrow> post = [] \<or> (\<exists>r. post = CHR '';'' # r)"

lemma field_at:
  assumes "s = pre @ tag_text tag n @ post" and "i = length pre" and "\<not> is_space tag"
    and "\<not> (\<exists>b r. post = b # r \<and> is_digit b)"
  shows "field tag s i = Some (dnat_of n, i + length (tag_text tag n))"
  using field_tag_text [OF assms(3,4)] assms(1,2) by simp

lemma field_other:
  assumes "s = pre @ tag_text tag n @ post" and "i = length pre" and "\<not> is_space tag" and "tag \<noteq> tag'"
  shows "field tag' s i = None"
proof -
  have "skip_blank s i = skip_blank s (i + 1)"
    using assms(1,2) by (subst skip_blank.simps) (simp add: sget_def nth_append tag_text_def is_space_def)
  also have "\<dots> = i + 1"
    using assms by (intro skip_blank_id) (simp add: nth_append tag_text_def)
  finally show ?thesis
    using assms(1,2,4) by (simp add: field_def Let_def sget_def nth_append tag_text_def)
qed

lemma ends_no_digit: "ends_item post \<Longrightarrow> \<not> (\<exists>b r. post = b # r \<and> is_digit b)"
  by (auto simp: ends_item_def is_digit_def)

lemma tag_text_no_digit: "\<not> (\<exists>b r. tag_text t n @ post = b # r \<and> is_digit b)"
  by (auto simp: tag_text_def is_digit_def)

lemma stores_text_no_digit: "ends_item post \<Longrightarrow> \<not> (\<exists>b r. stores_text st @ post = b # r \<and> is_digit b)"
  by (cases st) (auto simp: stores_text_def tag_text_def is_digit_def ends_item_def)

lemma stores_at_text:
  assumes "\<forall>i \<in> set st. wf_nat i" and "ends_item post"
    and "s = pre @ stores_text st @ post" and "i = length pre"
  shows "stores_at s i acc = Some (acc @ st, i + length (stores_text st))"
  using assms
proof (induction st arbitrary: pre i acc)
  case Nil
  have "skip_blank s i = i"
    using Nil.prems by (intro skip_blank_id) (auto simp: stores_text_def ends_item_def is_space_def nth_append)
  then show ?case
    using Nil.prems by (subst stores_at.simps) (auto simp: stores_text_def ends_item_def sget_def Let_def)
next
  case (Cons n st)
  let ?t = "tag_text (CHR ''s'') (dval n)"
  have s: "s = pre @ ?t @ stores_text st @ post"
    using Cons.prems(3) by (simp add: stores_text_def)
  have j: "skip_blank s i = i + 1"
  proof -
    have "skip_blank s i = skip_blank s (i + 1)"
      using s Cons.prems(4)
      by (subst skip_blank.simps) (simp add: sget_def nth_append tag_text_def is_space_def)
    also have "\<dots> = i + 1"
      using s Cons.prems(4) by (intro skip_blank_id) (simp add: nth_append tag_text_def is_space_def)
    finally show ?thesis .
  qed
  have at: "sget s (i + 1) = Some (CHR ''s'')"
    using s Cons.prems(4) by (simp add: sget_def nth_append tag_text_def)
  have f: "field (CHR ''s'') s i = Some (n, i + length ?t)"
    using field_at [OF s Cons.prems(4) _ stores_text_no_digit [OF Cons.prems(2)]] Cons.prems(1)
    by (simp add: is_space_def)
  have jj: "skip_blank s (i + 1) = i + 1"
    using at by (intro skip_blank_id) (auto simp: sget_def is_space_def)
  have "field (CHR ''s'') s (i + 1) = field (CHR ''s'') s i"
    unfolding field_def jj j ..
  with f have f': "field (CHR ''s'') s (i + 1) = Some (n, i + length ?t)"
    by simp
  have "stores_at s (i + length ?t) (acc @ [n]) = Some ((acc @ [n]) @ st, i + length ?t + length (stores_text st))"
    using Cons.prems s by (intro Cons.IH [of "pre @ ?t"]) simp_all
  then show ?case
    using j at f' by (subst stores_at.simps) (simp add: Let_def stores_text_def)
qed

lemma site_at_text:
  assumes "site_wf x" and "ends_item post" and "s = pre @ site_text x @ post" and "i = length pre"
  shows "site_at s i = Some (x, i + length (site_text x))"
proof (cases x)
  case (Fixed h w n st)
  let ?h = "tag_text (CHR ''h'') (dval h)" and ?w = "tag_text (CHR ''w'') (dval w)"
    and ?n = "tag_text (CHR ''n'') (dval n)" and ?r = "tag_text (CHR ''r'') 0"
  have wf: "wf_nat h" "wf_nat w" "wf_nat n" "\<forall>i \<in> set st. wf_nat i"
    using assms(1) by (simp_all add: Fixed site_wf_def)
  have s: "s = pre @ ?h @ ?w @ ?n @ ?r @ stores_text st @ post"
    using assms(3) by (simp add: Fixed site_text_def)
  have 1: "field (CHR ''h'') s i = Some (h, i + length ?h)"
    using field_at [OF s assms(4) _ tag_text_no_digit] wf by (simp add: is_space_def)
  have 2: "field (CHR ''w'') s (i + length ?h) = Some (w, i + length ?h + length ?w)"
    using field_at [of s "pre @ ?h" _ _ _ "i + length ?h", OF _ _ _ tag_text_no_digit] s assms(4) wf
    by (simp add: is_space_def)
  have 3: "field (CHR ''n'') s (i + length ?h + length ?w) = Some (n, i + length ?h + length ?w + length ?n)"
    using field_at [of s "pre @ ?h @ ?w" _ _ _ "i + length ?h + length ?w", OF _ _ _ tag_text_no_digit]
      s assms(4) wf
    by (simp add: is_space_def)
  have 4: "field (CHR ''r'') s (i + length ?h + length ?w + length ?n) =
      Some (dnat_of 0, i + length ?h + length ?w + length ?n + length ?r)"
    using field_at [of s "pre @ ?h @ ?w @ ?n" _ _ _ "i + length ?h + length ?w + length ?n",
        OF _ _ _ stores_text_no_digit [OF assms(2)]] s assms(4)
    by (simp add: is_space_def)
  have 5: "stores_at s (i + length ?h + length ?w + length ?n + length ?r) [] =
      Some (st, i + length ?h + length ?w + length ?n + length ?r + length (stores_text st))"
    using stores_at_text [OF wf(4) assms(2), of s "pre @ ?h @ ?w @ ?n @ ?r" _ "[]"] s assms(4)
    by (simp add: add.assoc)
  show ?thesis
    unfolding site_at_def using 1 2 3 4 5 by (simp add: Fixed site_text_def add.assoc)
next
  case (Fill h w k l t)
  let ?h = "tag_text (CHR ''h'') (dval h)" and ?w = "tag_text (CHR ''w'') (dval w)"
    and ?k = "tag_text (CHR ''v'') (dval k)" and ?r = "tag_text (CHR ''r'') 0"
    and ?l = "tag_text (CHR ''f'') (dval l)" and ?t = "tag_text (CHR ''t'') (dval t)"
  let ?i2 = "i + length ?h" and ?i3 = "i + length ?h + length ?w"
  let ?i4 = "?i3 + length ?k" and ?i5 = "?i3 + length ?k + length ?r"
  let ?i6 = "?i5 + length ?l" and ?i7 = "?i5 + length ?l + length ?t"
  have wf: "wf_nat h" "wf_nat w" "wf_nat k" "wf_nat l" "wf_nat t"
    using assms(1) by (simp_all add: Fill site_wf_def)
  have s: "s = pre @ ?h @ ?w @ ?k @ ?r @ ?l @ ?t @ post"
    using assms(3) by (simp add: Fill site_text_def)
  have 1: "field (CHR ''h'') s i = Some (h, ?i2)"
    using field_at [OF s assms(4) _ tag_text_no_digit] wf by (simp add: is_space_def)
  have 2: "field (CHR ''w'') s ?i2 = Some (w, ?i3)"
    using field_at [of s "pre @ ?h" _ _ _ ?i2, OF _ _ _ tag_text_no_digit] s assms(4) wf
    by (simp add: is_space_def)
  have 3: "field (CHR ''n'') s ?i3 = None"
    using s assms(4)
    by (intro field_other [of s "pre @ ?h @ ?w" "CHR ''v''" "dval k" "?r @ ?l @ ?t @ post"])
      (simp_all add: is_space_def)
  have 4: "field (CHR ''v'') s ?i3 = Some (k, ?i4)"
    using field_at [of s "pre @ ?h @ ?w" _ _ _ ?i3, OF _ _ _ tag_text_no_digit] s assms(4) wf
    by (simp add: is_space_def)
  have 5: "field (CHR ''r'') s ?i4 = Some (dnat_of 0, ?i5)"
    using field_at [of s "pre @ ?h @ ?w @ ?k" _ _ _ ?i4, OF _ _ _ tag_text_no_digit] s assms(4)
    by (simp add: is_space_def)
  have 6: "field (CHR ''f'') s ?i5 = Some (l, ?i6)"
    using field_at [of s "pre @ ?h @ ?w @ ?k @ ?r" _ _ _ ?i5, OF _ _ _ tag_text_no_digit] s assms(4) wf
    by (simp add: is_space_def)
  have 7: "field (CHR ''t'') s ?i6 = Some (t, ?i7)"
    using field_at [of s "pre @ ?h @ ?w @ ?k @ ?r @ ?l" _ _ _ ?i6, OF _ _ _ ends_no_digit [OF assms(2)]]
      s assms(4) wf
    by (simp add: is_space_def)
  have len: "length s = ?i7 + length post"
    using s assms(4) by simp
  have s': "s = (pre @ ?h @ ?w @ ?k @ ?r @ ?l @ ?t) @ post"
    using s by simp
  have tl: "s ! ?i7 = CHR '';''" if "post \<noteq> []"
    using that assms(2,4) nth_append_length_plus [of "pre @ ?h @ ?w @ ?k @ ?r @ ?l @ ?t" post 0]
    unfolding s' by (auto simp: ends_item_def add.assoc)
  have 8: "skip_blank s ?i7 = ?i7"
    using tl len by (intro skip_blank_id) (auto simp: is_space_def)
  have 9: "sget s ?i7 = None \<or> sget s ?i7 = Some (CHR '';'')"
    using tl len by (auto simp: sget_def)
  show ?thesis
    unfolding site_at_def using 1 2 3 4 5 6 7 8 9 by (auto simp: Fill site_text_def add.assoc Let_def)
qed

lemma site_text_not_blank:
  assumes "s = pre @ site_text x @ post" and "i = length pre"
  shows "skip_blank s i \<noteq> length s"
proof -
  obtain n r where x: "site_text x = tag_text (CHR ''h'') n @ r"
    by (cases x) (auto simp: site_text_def)
  have "skip_blank s i = skip_blank s (i + 1)"
    using assms x by (subst skip_blank.simps) (simp add: sget_def nth_append tag_text_def is_space_def)
  also have "\<dots> = i + 1"
    using assms x by (intro skip_blank_id) (simp add: nth_append tag_text_def is_space_def)
  finally show ?thesis
    using assms x by (simp add: tag_text_def)
qed

lemma parse_sites_text:
  assumes "\<forall>x \<in> set xs. site_wf x" and "s = pre @ sites_text xs" and "i = length pre"
  shows "parse_sites s i out = Some (out @ xs)"
  using assms
proof (induction xs arbitrary: pre i out rule: sites_text.induct)
  case 1
  then have "skip_blank s i = length s"
    by (simp add: skip_blank_id)
  then show ?case by (simp add: parse_sites.simps)
next
  case (2 x)
  have x: "site_at s i = Some (x, length s)"
    using site_at_text [of x "[]" s pre i] 2 by (simp add: ends_item_def)
  have "skip_blank s i \<noteq> length s"
    using site_text_not_blank [of s pre x "[]" i] 2 by simp
  with x show ?case
    by (simp add: parse_sites.simps [of s i] sget_def)
next
  case (3 x y ys)
  let ?rest = "sites_text (y # ys)"
  have s: "s = pre @ site_text x @ CHR '';'' # ?rest"
    using 3 by simp
  have x: "site_at s i = Some (x, i + length (site_text x))"
    using site_at_text [of x "CHR '';'' # ?rest" s pre i] 3 s by (simp add: ends_item_def)
  have semi: "sget s (i + length (site_text x)) = Some (CHR '';'')"
    unfolding s using 3(4) by (simp add: sget_def nth_append)
  have blank: "skip_blank s i \<noteq> length s"
    using site_text_not_blank [OF s 3(4)] .
  have "parse_sites s (i + length (site_text x) + 1) (out @ [x]) = Some ((out @ [x]) @ y # ys)"
    using 3 by (intro 3(1) [of "pre @ site_text x @ '';''"]) simp_all
  then show ?case
    using x semi blank by (simp add: parse_sites.simps [of s i])
qed

end
