(* ===== verification/Fields_Cert.thy ===== *)
theory Fields_Cert
  imports Scan
begin

text \<open>
  The fields checker, \<open>crates/almide-verify/src/fields.rs\<close>: layouts of block kinds, and the
  construction sites, accesses and tag reads that must agree with them. The last section
  states the accepted witness as a table of layouts whose fields lie inside their payload, and
  every item as an access inside a field of the table.
\<close>

subsection \<open>Items and their parser\<close>

record shape =
  sz :: dnat
  fld :: "(dnat \<times> dnat) list"

datatype item =
    Lay dnat dnat dnat shape
  | Site dnat dnat "dnat list"
  | Acc dnat dnat dnat
  | Tag dnat

text \<open>After blanks: the end, or a separator, and the position there.\<close>

definition at_end :: "bytes \<Rightarrow> nat \<Rightarrow> nat option" where
  "at_end s i =
     (let j = skip_blank s i
      in case sget s j of None \<Rightarrow> Some j | Some b \<Rightarrow> if b = CHR '';'' then Some j else None)"

lemma at_end_None: "at_end s i = None \<Longrightarrow> i < length s"
proof (rule ccontr)
  assume "at_end s i = None" and "\<not> i < length s"
  then show False
    by (simp add: at_end_def skip_blank_id sget_def)
qed

text \<open>The inner loop of \<open>repeated\<close>: one field per tag.\<close>

fun fields_of :: "bytes \<Rightarrow> nat \<Rightarrow> byte list \<Rightarrow> dnat list \<Rightarrow> (dnat list \<times> nat) option" where
  "fields_of s i [] one = Some (one, i)"
| "fields_of s i (t # ts) one =
     (case field t s i of None \<Rightarrow> None | Some (v, k) \<Rightarrow> fields_of s k ts (one @ [v]))"

lemma fields_of_progress:
  "fields_of s i ts one = Some (vs, k) \<Longrightarrow> i \<le> length s \<Longrightarrow>
    i \<le> k \<and> k \<le> length s \<and> (ts \<noteq> [] \<longrightarrow> i < k)"
proof (induction s i ts one rule: fields_of.induct)
  case (2 s i t ts one)
  then obtain v j where j: "field t s i = Some (v, j)" "fields_of s j ts (one @ [v]) = Some (vs, k)"
    by (auto split: option.splits)
  then show ?case
    using 2(1) [OF j(1) refl j(2)] field_progress [OF j(1)] by auto
qed simp

text \<open>
  \<open>repeated\<close>. The tag list of every call is non-empty; on an empty one the source's loop would
  not advance, and the model refuses.
\<close>

function repeated :: "bytes \<Rightarrow> nat \<Rightarrow> byte list \<Rightarrow> dnat list list \<Rightarrow> (dnat list list \<times> nat) option" where
  "repeated s i tags out =
     (case at_end s i of
        Some j \<Rightarrow> Some (out, j)
      | None \<Rightarrow>
          if tags = [] then None
          else (case fields_of s i tags [] of
                  None \<Rightarrow> None
                | Some (one, k) \<Rightarrow> repeated s k tags (out @ [one])))"
  by pat_completeness auto
termination
proof (relation "measure (\<lambda>(s, i, tags, out). length s - i)", goal_cases)
  case (2 s i tags out x one k)
  then have "i < k \<and> k \<le> length s"
    using fields_of_progress [of s i tags "[]" one k] at_end_None [of s i] by auto
  then show ?case by auto
qed simp

declare repeated.simps [simp del]

definition item_at :: "bytes \<Rightarrow> nat \<Rightarrow> (item \<times> nat) option" where
  "item_at s i0 =
     (case field (CHR ''L'') s i0 of
        Some (r, i) \<Rightarrow> do {
          (c, i) \<leftarrow> field (CHR ''c'') s i;
          (n, i) \<leftarrow> field (CHR ''n'') s i;
          (z, i) \<leftarrow> field (CHR ''z'') s i;
          (ps, j) \<leftarrow> repeated s i ''ow'' [];
          Some (Lay r c n \<lparr>sz = z, fld = map (\<lambda>p. (p ! 0, p ! 1)) ps\<rparr>, j) }
      | None \<Rightarrow>
     (case field (CHR ''k'') s i0 of
        Some (r, i) \<Rightarrow> do {
          (c, i) \<leftarrow> field (CHR ''c'') s i;
          (st, j) \<leftarrow> repeated s i ''s'' [];
          Some (Site r c (concat st), j) }
      | None \<Rightarrow>
     (case field (CHR ''a'') s i0 of
        Some (r, i) \<Rightarrow> do {
          (c, i) \<leftarrow> field (CHR ''c'') s i;
          (f, i) \<leftarrow> field (CHR ''f'') s i;
          j \<leftarrow> at_end s i;
          Some (Acc r c f, j) }
      | None \<Rightarrow> do {
          (r, i) \<leftarrow> field (CHR ''t'') s i0;
          j \<leftarrow> at_end s i;
          Some (Tag r, j) })))"

lemma at_end_progress [progress]: "at_end s i = Some j \<Longrightarrow> i \<le> j \<and> (i \<le> length s \<longrightarrow> j \<le> length s)"
  using skip_blank_ge [of i s] skip_blank_le [of i s]
  by (auto simp: at_end_def Let_def split: option.splits if_splits)

lemma repeated_progress [progress]:
  "repeated s i tags out = Some (vs, j) \<Longrightarrow> i \<le> length s \<Longrightarrow> i \<le> j \<and> j \<le> length s"
proof (induction s i tags out rule: repeated.induct)
  case (1 s i tags out)
  show ?case
  proof (cases "at_end s i")
    case (Some k)
    then show ?thesis using 1(2,3) at_end_progress [OF Some] by (simp add: repeated.simps)
  next
    case None
    then obtain one k where k: "tags \<noteq> []" "fields_of s i tags [] = Some (one, k)"
      and r: "repeated s k tags (out @ [one]) = Some (vs, j)"
      using 1(2,3) by (subst (asm) repeated.simps) (auto split: option.splits if_splits)
    have "i < k" "k \<le> length s"
      using fields_of_progress [OF k(2) 1(3)] k(1) by auto
    then show ?thesis
      using 1(1) [OF None _ k(2) refl r] k(1) 1(3) by auto
  qed
qed

lemma fields_of_wf:
  "fields_of s i ts one = Some (vs, k) \<Longrightarrow> \<forall>v \<in> set one. wf_nat v \<Longrightarrow>
    length vs = length one + length ts \<and> (\<forall>v \<in> set vs. wf_nat v)"
proof (induction s i ts one rule: fields_of.induct)
  case (2 s i t ts one)
  then obtain v j where j: "field t s i = Some (v, j)" "fields_of s j ts (one @ [v]) = Some (vs, k)"
    by (auto split: option.splits)
  then show ?case
    using 2(1) [OF j(1) refl j(2)] 2(3) field_wf [OF j(1)] by auto
qed auto

lemma repeated_wf:
  "repeated s i tags out = Some (vs, j) \<Longrightarrow>
    \<forall>v \<in> set out. length v = length tags \<and> (\<forall>n \<in> set v. wf_nat n) \<Longrightarrow>
    \<forall>v \<in> set vs. length v = length tags \<and> (\<forall>n \<in> set v. wf_nat n)"
proof (induction s i tags out rule: repeated.induct)
  case (1 s i tags out)
  show ?case
  proof (cases "at_end s i")
    case (Some k)
    then show ?thesis using 1(2,3) by (simp add: repeated.simps)
  next
    case None
    then obtain one k where k: "tags \<noteq> []" "fields_of s i tags [] = Some (one, k)"
      and r: "repeated s k tags (out @ [one]) = Some (vs, j)"
      using 1(2) by (subst (asm) repeated.simps) (auto split: option.splits if_splits)
    show ?thesis
      using 1(1) [OF None k(1) k(2) refl r] 1(3) fields_of_wf [OF k(2)] by auto
  qed
qed

definition item_wf :: "item \<Rightarrow> bool" where
  "item_wf it = (case it of
     Lay r c n s \<Rightarrow> wf_nat r \<and> wf_nat c \<and> wf_nat n \<and> wf_nat (sz s) \<and>
       (\<forall>(o', w) \<in> set (fld s). wf_nat o' \<and> wf_nat w)
   | Site r c st \<Rightarrow> wf_nat r \<and> wf_nat c \<and> (\<forall>x \<in> set st. wf_nat x)
   | Acc r c f \<Rightarrow> wf_nat r \<and> wf_nat c \<and> wf_nat f
   | Tag r \<Rightarrow> wf_nat r)"

lemma item_at_progress [progress]: "item_at s i = Some (it, j) \<Longrightarrow> i < j \<and> j \<le> length s"
  unfolding item_at_def
  by (auto simp: scan_simps split: option.splits
      dest!: field_progress repeated_progress at_end_progress)

lemma pairs_wf:
  assumes "repeated s k ''ow'' [] = Some (ps, j)" and "v \<in> set ps"
  shows "wf_nat (v ! 0) \<and> wf_nat (v ! Suc 0)"
  using repeated_wf [OF assms(1)] assms(2) by (simp add: nth_mem)

lemma flat_wf:
  assumes "repeated s k ''s'' [] = Some (ps, j)" and "v \<in> set ps" and "n \<in> set v"
  shows "wf_nat n"
  using repeated_wf [OF assms(1)] assms(2,3) by simp

lemma item_at_wf: "item_at s i = Some (it, j) \<Longrightarrow> item_wf it"
  unfolding item_at_def
  by (auto simp: scan_simps item_wf_def split: option.splits) (blast dest: field_wf pairs_wf flat_wf)+

interpretation item: scanner item_at item_wf
  by unfold_locales (auto dest: item_at_progress item_at_wf)

function parse_items :: "bytes \<Rightarrow> nat \<Rightarrow> item list \<Rightarrow> item list option" where
  "parse_items s i out =
     (if skip_blank s i = length s then Some out
      else case item_at s i of
             None \<Rightarrow> None
           | Some (it, j) \<Rightarrow>
               (case sget s j of
                  None \<Rightarrow> Some (out @ [it])
                | Some b \<Rightarrow> if b = CHR '';'' then parse_items s (j + 1) (out @ [it]) else None))"
  by pat_completeness auto
termination
proof (relation "measure (\<lambda>(s, i, out). length s - i)", goal_cases)
  case (2 s i out y x j b)
  then have "i < j \<and> j \<le> length s"
    using item.forward by blast
  then show ?case by auto
qed simp

declare parse_items.simps [simp del]

subsection \<open>The test\<close>

definition shape_ok :: "shape \<Rightarrow> bool" where
  "shape_ok s =
     (let zero = from_digits []
      in list_all (\<lambda>(o', w). zero < w \<and> nat_add o' w \<le> sz s) (fld s))"

definition below :: "dnat \<Rightarrow> nat \<Rightarrow> bool" where
  "below i len = (case as_index i of None \<Rightarrow> False | Some x \<Rightarrow> x < len)"

definition layout_table :: "item list \<Rightarrow> (dnat \<times> dnat \<times> shape) list" where
  "layout_table items =
     List.map_filter (\<lambda>it. case it of Lay r c n s \<Rightarrow> Some (r, c, s) | _ \<Rightarrow> None) items"

definition repeated_kind :: "(dnat \<times> dnat \<times> shape) list \<Rightarrow> bool" where
  "repeated_kind table =
     list_ex (\<lambda>k. let a = table ! k
                  in list_ex (\<lambda>b. fst b = fst a \<and> fst (snd b) = fst (snd a)) (drop (k + 1) table))
       [0..<length table]"

definition layout_lookup :: "(dnat \<times> dnat \<times> shape) list \<Rightarrow> dnat \<Rightarrow> dnat \<Rightarrow> shape option" where
  "layout_lookup table r c =
     map_option (\<lambda>e. snd (snd e)) (find (\<lambda>e. fst e = r \<and> fst (snd e) = c) table)"

definition item_ok :: "(dnat \<times> dnat \<times> shape) list \<Rightarrow> item \<Rightarrow> bool" where
  "item_ok table it =
     (let four = from_digits ''4''; zero = from_digits []
      in case it of
           Lay r c n s \<Rightarrow> shape_ok s \<and> c < n
         | Site r c st \<Rightarrow>
             (case layout_lookup table r c of
                None \<Rightarrow> False
              | Some s \<Rightarrow>
                  let len = length (fld s)
                  in list_all (\<lambda>i. list_ex (\<lambda>x. as_index x = Some i) st) [0..<len] \<and>
                     list_all (\<lambda>x. below x len) st)
         | Acc r c f \<Rightarrow>
             (case layout_lookup table r c of None \<Rightarrow> False | Some s \<Rightarrow> below f (length (fld s)))
         | Tag r \<Rightarrow>
             list_ex (\<lambda>e. fst e = r) table \<and>
             list_all (\<lambda>e. case fld (snd (snd e)) of [] \<Rightarrow> False | (o', w) # _ \<Rightarrow> o' = zero \<and> w = four)
               (filter (\<lambda>e. fst e = r) table))"

definition check_fields_cert :: "bytes \<Rightarrow> bool" where
  "check_fields_cert witness =
     (case parse_items witness 0 [] of
        None \<Rightarrow> False
      | Some items \<Rightarrow>
          let table = layout_table items
          in if repeated_kind table then False else list_all (item_ok table) items)"

subsection \<open>What an accepted witness says\<close>

text \<open>
  A layout as numbers: representation, case, payload size, and the offset and width of every
  field. It fits when no field is empty and all its bytes are payload bytes.
\<close>

type_synonym layout = "nat \<times> nat \<times> nat \<times> (nat \<times> nat) list"

definition layout_val :: "dnat \<times> dnat \<times> shape \<Rightarrow> layout" where
  "layout_val = (\<lambda>(r, c, s). (dval r, dval c, dval (sz s), map (map_prod dval dval) (fld s)))"

definition kind :: "'a \<times> 'b \<times> 'c \<Rightarrow> 'a \<times> 'b" where
  "kind e = (fst e, fst (snd e))"

definition layout_fits :: "nat \<Rightarrow> (nat \<times> nat) list \<Rightarrow> bool" where
  "layout_fits z fs \<longleftrightarrow> (\<forall>(o', w) \<in> set fs. {o'..<o' + w} \<noteq> {} \<and> {o'..<o' + w} \<subseteq> {..<z})"

definition item_means :: "layout set \<Rightarrow> item \<Rightarrow> bool" where
  "item_means L it = (case it of
     Lay r c n s \<Rightarrow>
       layout_fits (dval (sz s)) (map (map_prod dval dval) (fld s)) \<and> dval c < dval n
   | Site r c st \<Rightarrow>
       (\<exists>z fs. (dval r, dval c, z, fs) \<in> L \<and> dval ` set st = {..<length fs})
   | Acc r c f \<Rightarrow> (\<exists>z fs. (dval r, dval c, z, fs) \<in> L \<and> dval f < length fs)
   | Tag r \<Rightarrow>
       (\<exists>c z fs. (dval r, c, z, fs) \<in> L) \<and>
       (\<forall>c z fs. (dval r, c, z, fs) \<in> L \<longrightarrow> (\<exists>rest. fs = (0, 4) # rest)))"

definition fields_meaning :: "item list \<Rightarrow> bool" where
  "fields_meaning items \<longleftrightarrow>
     (let L = map layout_val (layout_table items)
      in distinct (map kind L) \<and> (\<forall>it \<in> set items. item_means (set L) it))"

definition table_wf :: "(dnat \<times> dnat \<times> shape) list \<Rightarrow> bool" where
  "table_wf t \<longleftrightarrow> (\<forall>(r, c, s) \<in> set t. wf_nat r \<and> wf_nat c \<and> wf_nat (sz s) \<and>
     (\<forall>(o', w) \<in> set (fld s). wf_nat o' \<and> wf_nat w))"

lemma table_wfD:
  assumes "table_wf t" and "(r, c, s) \<in> set t"
  shows "\<forall>p \<in> set (fld s). wf_nat (fst p) \<and> wf_nat (snd p)"
  using bspec [OF assms(1) [unfolded table_wf_def] assms(2)] by (simp add: split_beta)

lemma repeated_kind_iff: "repeated_kind t \<longleftrightarrow> \<not> distinct (map kind t)"
proof -
  have "repeated_kind t \<longleftrightarrow> (\<exists>k < length t. \<exists>b \<in> set (drop (k + 1) t). kind b = kind (t ! k))"
    by (simp add: repeated_kind_def list_ex_iff Let_def kind_def Bex_def)
  also have "\<dots> \<longleftrightarrow> (\<exists>k < length t. \<exists>j < length t. k < j \<and> kind (t ! j) = kind (t ! k))"
  proof (intro ex_cong1 conj_cong refl iffI)
    fix k
    assume "\<exists>b \<in> set (drop (k + 1) t). kind b = kind (t ! k)"
    then obtain i where "i < length t - (k + 1)" "kind (t ! (k + 1 + i)) = kind (t ! k)"
      by (auto simp: in_set_conv_nth)
    then show "\<exists>j < length t. k < j \<and> kind (t ! j) = kind (t ! k)"
      by (intro exI [of _ "k + 1 + i"]) simp
  next
    fix k
    assume "\<exists>j < length t. k < j \<and> kind (t ! j) = kind (t ! k)"
    then obtain j where "j < length t" "k < j" "kind (t ! j) = kind (t ! k)" by blast
    moreover from this have "t ! j \<in> set (drop (k + 1) t)"
      by (auto simp: in_set_conv_nth intro!: exI [of _ "j - (k + 1)"])
    ultimately show "\<exists>b \<in> set (drop (k + 1) t). kind b = kind (t ! k)" by blast
  qed
  also have "\<dots> \<longleftrightarrow> \<not> distinct (map kind t)"
  proof -
    have "\<not> distinct (map kind t) \<longleftrightarrow>
        (\<exists>k < length t. \<exists>j < length t. k \<noteq> j \<and> kind (t ! j) = kind (t ! k))"
      by (auto simp: distinct_conv_nth)
    then show ?thesis by (metis nat_neq_iff)
  qed
  finally show ?thesis .
qed

lemma layout_lookup_map_of:
  "layout_lookup t r c = map_of (map (\<lambda>e. (kind e, snd (snd e))) t) (r, c)"
  by (induction t) (auto simp: layout_lookup_def kind_def)

lemma layout_lookup_iff:
  assumes "distinct (map kind t)"
  shows "layout_lookup t r c = Some s \<longleftrightarrow> (r, c, s) \<in> set t"
proof -
  have "map fst (map (\<lambda>e. (kind e, snd (snd e))) t) = map kind t"
    by simp
  then have "layout_lookup t r c = Some s \<longleftrightarrow> ((r, c), s) \<in> set (map (\<lambda>e. (kind e, snd (snd e))) t)"
    using assms by (subst layout_lookup_map_of, subst map_of_eq_Some_iff) (simp_all add: comp_def)
  then show ?thesis
    by (force simp: kind_def)
qed

lemma layout_val_mem:
  assumes "table_wf t" and "wf_nat r" and "wf_nat c"
  shows "(dval r, dval c, z, fs) \<in> layout_val ` set t \<longleftrightarrow>
    (\<exists>s. (r, c, s) \<in> set t \<and> z = dval (sz s) \<and> fs = map (map_prod dval dval) (fld s))"
  using assms by (force simp: layout_val_def table_wf_def dval_inj image_iff)

lemma layout_val_repr:
  assumes "table_wf t" and "wf_nat r"
  shows "(dval r, c, z, fs) \<in> layout_val ` set t \<longleftrightarrow>
    (\<exists>c' s. (r, c', s) \<in> set t \<and> c = dval c' \<and> z = dval (sz s) \<and> fs = map (map_prod dval dval) (fld s))"
  using assms by (force simp: layout_val_def table_wf_def dval_inj image_iff)

lemma repr_layouts:
  assumes "table_wf t" and "wf_nat r"
  shows "(\<forall>c z fs. (dval r, c, z, fs) \<in> layout_val ` set t \<longrightarrow> P fs) \<longleftrightarrow>
    (\<forall>c s. (r, c, s) \<in> set t \<longrightarrow> P (map (map_prod dval dval) (fld s)))"
proof
  assume all: "\<forall>c z fs. (dval r, c, z, fs) \<in> layout_val ` set t \<longrightarrow> P fs"
  show "\<forall>c s. (r, c, s) \<in> set t \<longrightarrow> P (map (map_prod dval dval) (fld s))"
  proof (intro allI impI)
    fix c s
    assume "(r, c, s) \<in> set t"
    then have "(dval r, dval c, dval (sz s), map (map_prod dval dval) (fld s)) \<in> layout_val ` set t"
      unfolding layout_val_repr [OF assms] by blast
    with all show "P (map (map_prod dval dval) (fld s))" by blast
  qed
qed (auto simp: layout_val_repr [OF assms])

lemma repr_some:
  assumes "table_wf t" and "wf_nat r"
  shows "(\<exists>c z fs. (dval r, c, z, fs) \<in> layout_val ` set t) \<longleftrightarrow> (\<exists>c s. (r, c, s) \<in> set t)"
  unfolding layout_val_repr [OF assms] by blast

lemma distinct_kinds:
  assumes "table_wf t"
  shows "distinct (map kind (map layout_val t)) \<longleftrightarrow> distinct (map kind t)"
proof -
  have "map kind (map layout_val t) = map (map_prod dval dval) (map kind t)"
    by (simp add: kind_def layout_val_def case_prod_unfold)
  moreover have "inj_on (map_prod dval dval) (set (map kind t))"
  proof (rule inj_onI)
    fix x y
    assume "x \<in> set (map kind t)" "y \<in> set (map kind t)" and eq: "map_prod dval dval x = map_prod dval dval y"
    then obtain a b where ab: "a \<in> set t" "x = kind a" "b \<in> set t" "y = kind b" by auto
    then have "wf_nat (fst x)" "wf_nat (snd x)" "wf_nat (fst y)" "wf_nat (snd y)"
      using assms by (auto simp: kind_def table_wf_def)
    then show "x = y"
      using eq by (cases x; cases y) (simp add: dval_inj)
  qed
  ultimately show ?thesis
    by (simp only: distinct_map) simp
qed

lemma shape_ok_fits:
  assumes "wf_nat (sz s)" and "\<forall>(o', w) \<in> set (fld s). wf_nat o' \<and> wf_nat w"
  shows "shape_ok s \<longleftrightarrow> layout_fits (dval (sz s)) (map (map_prod dval dval) (fld s))"
proof -
  have "from_digits [] < w \<and> nat_add o' w \<le> sz s \<longleftrightarrow>
      {dval o'..<dval o' + dval w} \<noteq> {} \<and> {dval o'..<dval o' + dval w} \<subseteq> {..<dval (sz s)}"
    if "(o', w) \<in> set (fld s)" for o' w
  proof -
    have wf: "wf_nat o'" "wf_nat w" using assms(2) that by auto
    have "{dval o'..<dval o' + dval w} \<noteq> {} \<and> {dval o'..<dval o' + dval w} \<subseteq> {..<dval (sz s)} \<longleftrightarrow>
        0 < dval w \<and> dval o' + dval w \<le> dval (sz s)"
      by (rule interval_below)
    then show ?thesis
      using wf assms(1) by (simp add: less_dval le_dval nat_add_val)
  qed
  then have "(\<forall>(o', w) \<in> set (fld s). from_digits [] < w \<and> nat_add o' w \<le> sz s) \<longleftrightarrow>
      (\<forall>(o', w) \<in> set (fld s).
        {dval o'..<dval o' + dval w} \<noteq> {} \<and> {dval o'..<dval o' + dval w} \<subseteq> {..<dval (sz s)})"
    by blast
  then show ?thesis
    by (simp add: shape_ok_def layout_fits_def list_all_iff Let_def split_beta)
qed

lemma below_val: "wf_nat i \<Longrightarrow> n \<le> 10 ^ 18 \<Longrightarrow> below i n \<longleftrightarrow> dval i < n"
  using index_below_val by (simp add: below_def index_below_def)

lemma stores_each:
  assumes "\<forall>x \<in> set st. wf_nat x" and "n \<le> 10 ^ 18"
  shows "list_all (\<lambda>i. list_ex (\<lambda>x. as_index x = Some i) st) [0..<n] \<and> list_all (\<lambda>x. below x n) st \<longleftrightarrow>
    dval ` set st = {..<n}"
proof -
  have idx: "as_index x = Some i \<longleftrightarrow> dval x = i" if "x \<in> set st" "i < n" for x i
  proof (cases "as_index x")
    case None
    then show ?thesis
      using as_index_None [of x] that assms by fastforce
  next
    case (Some k)
    then show ?thesis using as_index_Some that(1) assms(1) by auto
  qed
  have low: "list_all (\<lambda>x. below x n) st \<longleftrightarrow> dval ` set st \<subseteq> {..<n}"
    using assms below_val by (auto simp: list_all_iff)
  have all: "list_all (\<lambda>i. list_ex (\<lambda>x. as_index x = Some i) st) [0..<n] \<longleftrightarrow> {..<n} \<subseteq> dval ` set st"
  proof -
    have "list_all (\<lambda>i. list_ex (\<lambda>x. as_index x = Some i) st) [0..<n] \<longleftrightarrow>
        (\<forall>i < n. \<exists>x \<in> set st. as_index x = Some i)"
      by (simp add: list_all_iff list_ex_iff Ball_def)
    also have "\<dots> \<longleftrightarrow> (\<forall>i < n. \<exists>x \<in> set st. dval x = i)"
      using idx by blast
    also have "\<dots> \<longleftrightarrow> {..<n} \<subseteq> dval ` set st"
      by auto
    finally show ?thesis .
  qed
  show ?thesis unfolding low all by blast
qed

lemma item_ok_means:
  assumes t: "table_wf t" "distinct (map kind t)" and it: "item_wf it"
    and len: "\<forall>(r, c, s) \<in> set t. length (fld s) \<le> 10 ^ 18"
  shows "item_ok t it \<longleftrightarrow> item_means (layout_val ` set t) it"
proof (cases it)
  case (Lay r c n s)
  then show ?thesis
    using it by (simp add: item_ok_def item_means_def item_wf_def Let_def shape_ok_fits less_dval)
next
  case (Site r c st)
  have wf: "wf_nat r" "wf_nat c" "\<forall>x \<in> set st. wf_nat x"
    using it by (simp_all add: Site item_wf_def)
  have "item_ok t it \<longleftrightarrow> (\<exists>s. (r, c, s) \<in> set t \<and> dval ` set st = {..<length (fld s)})"
  proof (cases "layout_lookup t r c")
    case None
    then show ?thesis
      using layout_lookup_iff [OF t(2), of r c] by (auto simp: Site item_ok_def)
  next
    case (Some s)
    then have s: "(r, c, s') \<in> set t \<longleftrightarrow> s' = s" for s'
      using layout_lookup_iff [OF t(2), of r c s'] by auto
    then have "length (fld s) \<le> 10 ^ 18" using len by fastforce
    from stores_each [OF wf(3) this] show ?thesis
      by (simp add: Site item_ok_def Some s)
  qed
  also have "\<dots> \<longleftrightarrow> item_means (layout_val ` set t) it"
    unfolding Site item_means_def item.case layout_val_mem [OF t(1) wf(1,2)] by (metis length_map)
  finally show ?thesis .
next
  case (Acc r c f)
  have wf: "wf_nat r" "wf_nat c" "wf_nat f"
    using it by (simp_all add: Acc item_wf_def)
  have "item_ok t it \<longleftrightarrow> (\<exists>s. (r, c, s) \<in> set t \<and> dval f < length (fld s))"
  proof (cases "layout_lookup t r c")
    case None
    then show ?thesis
      using layout_lookup_iff [OF t(2), of r c] by (auto simp: Acc item_ok_def)
  next
    case (Some s)
    then have s: "(r, c, s') \<in> set t \<longleftrightarrow> s' = s" for s'
      using layout_lookup_iff [OF t(2), of r c s'] by auto
    then have "length (fld s) \<le> 10 ^ 18" using len by fastforce
    from below_val [OF wf(3) this] show ?thesis
      by (simp add: Acc item_ok_def Some s)
  qed
  also have "\<dots> \<longleftrightarrow> item_means (layout_val ` set t) it"
    unfolding Acc item_means_def item.case layout_val_mem [OF t(1) wf(1,2)] by (metis length_map)
  finally show ?thesis .
next
  case (Tag r)
  have wf: "wf_nat r" using it by (simp add: Tag item_wf_def)
  have first: "(case fld s of [] \<Rightarrow> False | (o', w) # _ \<Rightarrow> o' = from_digits [] \<and> w = from_digits ''4'') \<longleftrightarrow>
      (\<exists>rest. map (map_prod dval dval) (fld s) = (0, 4) # rest)" if "(r', c', s) \<in> set t" for r' c' s
  proof (cases "fld s")
    case (Cons p ps)
    then have "wf_nat (fst p)" "wf_nat (snd p)"
      using table_wfD [OF t(1) that] by simp_all
    then show ?thesis
      using dval_inj [of "fst p" "from_digits []"] dval_inj [of "snd p" "from_digits ''4''"] Cons
      by (cases p) (simp add: is_digit_def dec_val_Cons digit_val_def)
  qed simp
  have "item_ok t it \<longleftrightarrow> (\<exists>c s. (r, c, s) \<in> set t) \<and>
      (\<forall>c s. (r, c, s) \<in> set t \<longrightarrow> (\<exists>rest. map (map_prod dval dval) (fld s) = (0, 4) # rest))"
  proof -
    let ?P = "\<lambda>s. case fld s of [] \<Rightarrow> False | (o', w) # _ \<Rightarrow> o' = from_digits [] \<and> w = from_digits ''4''"
    have "item_ok t it \<longleftrightarrow> (\<exists>e \<in> set t. fst e = r) \<and> (\<forall>e \<in> set t. fst e = r \<longrightarrow> ?P (snd (snd e)))"
      by (auto simp: Tag item_ok_def Let_def list_ex_iff list_all_iff)
    also have "\<dots> \<longleftrightarrow> (\<exists>c s. (r, c, s) \<in> set t) \<and> (\<forall>c s. (r, c, s) \<in> set t \<longrightarrow> ?P s)"
      unfolding Ball_def Bex_def by (metis prod.collapse fst_conv snd_conv)
    finally show ?thesis
      using first by meson
  qed
  also have "\<dots> \<longleftrightarrow> item_means (layout_val ` set t) it"
    unfolding Tag item_means_def item.case repr_layouts [OF t(1) wf] repr_some [OF t(1) wf] ..
  finally show ?thesis .
qed

lemma parse_items_wf:
  "parse_items s i out = Some items \<Longrightarrow> \<forall>x \<in> set out. item_wf x \<Longrightarrow> \<forall>x \<in> set items. item_wf x"
proof (induction s i out arbitrary: items rule: parse_items.induct)
  case (1 s i out)
  show ?case
  proof (cases "skip_blank s i = length s")
    case True
    then show ?thesis using "1.prems" by (simp add: parse_items.simps)
  next
    case False
    then obtain x j where x: "item_at s i = Some (x, j)"
      using "1.prems"(1) by (subst (asm) parse_items.simps) (auto split: option.splits)
    show ?thesis
    proof (cases "sget s j")
      case None
      then show ?thesis
        using "1.prems" False x item.item_good [OF x]
        by (subst (asm) parse_items.simps) auto
    next
      case (Some b)
      then have b: "b = CHR '';''" "parse_items s (j + 1) (out @ [x]) = Some items"
        using "1.prems"(1) False x by (subst (asm) parse_items.simps, auto split: if_splits)+
      show ?thesis
        using "1.IH" [OF False x refl Some b] "1.prems"(2) item.item_good [OF x] by simp
    qed
  qed
qed

lemma layout_table_mem: "(r, c, s) \<in> set (layout_table items) \<longleftrightarrow> (\<exists>n. Lay r c n s \<in> set items)"
  unfolding layout_table_def
  by (induction items) (auto simp: List.map_filter_simps split: item.splits option.splits)

lemma layout_table_wf: "\<forall>x \<in> set items. item_wf x \<Longrightarrow> table_wf (layout_table items)"
  by (fastforce simp: table_wf_def layout_table_mem item_wf_def)

text \<open>
  Fewer fields than \<open>10 ^ 18\<close> is no restriction on a file: every field of a layout takes four
  bytes of it.
\<close>

definition modest :: "item list \<Rightarrow> bool" where
  "modest items \<longleftrightarrow> (\<forall>(r, c, s) \<in> set (layout_table items). length (fld s) \<le> 10 ^ 18)"

lemma check_fields_cert_iff:
  assumes "parse_items w 0 [] = Some items" and "modest items"
  shows "check_fields_cert w \<longleftrightarrow> fields_meaning items"
proof -
  have wf: "\<forall>x \<in> set items. item_wf x"
    using parse_items_wf [OF assms(1)] by simp
  note t = layout_table_wf [OF wf]
  show ?thesis
  proof (cases "distinct (map kind (layout_table items))")
    case False
    then show ?thesis
      using distinct_kinds [OF t]
      by (simp add: check_fields_cert_def assms(1) fields_meaning_def Let_def repeated_kind_iff)
  next
    case True
    have "item_ok (layout_table items) it \<longleftrightarrow> item_means (layout_val ` set (layout_table items)) it"
      if "it \<in> set items" for it
      using item_ok_means [OF t True] wf that assms(2) by (simp add: modest_def)
    then show ?thesis
      using True distinct_kinds [OF t]
      by (simp add: check_fields_cert_def assms(1) fields_meaning_def Let_def repeated_kind_iff
          list_all_iff)
  qed
qed

text \<open>
  An access of an accepted witness reads bytes of the payload of the one layout its kind has,
  and a construction site writes every field of it.
\<close>

lemma fields_meaning_access:
  assumes "fields_meaning items" and "Acc r c f \<in> set items"
  shows "\<exists>!L. L \<in> layout_val ` set (layout_table items) \<and> kind L = (dval r, dval c)"
    and "(dval r, dval c, z, fs) \<in> layout_val ` set (layout_table items) \<Longrightarrow>
      dval f < length fs \<and> fst (fs ! dval f) + snd (fs ! dval f) \<le> z \<and> 0 < snd (fs ! dval f)"
proof -
  let ?L = "map layout_val (layout_table items)"
  have dist: "distinct (map kind ?L)" and means: "\<forall>it \<in> set items. item_means (set ?L) it"
    using assms(1) by (simp_all add: fields_meaning_def Let_def)
  have one: "L = L'" if "L \<in> set ?L" "L' \<in> set ?L" "kind L = kind L'" for L L'
    using dist that unfolding distinct_map inj_on_def by blast
  obtain z' fs' where L: "(dval r, dval c, z', fs') \<in> set ?L" and f: "dval f < length fs'"
    using means assms(2) by (fastforce simp: item_means_def)
  have k: "kind (dval r, dval c, x) = (dval r, dval c)" for x :: "nat \<times> (nat \<times> nat) list"
    by (simp add: kind_def)
  show "\<exists>!L. L \<in> layout_val ` set (layout_table items) \<and> kind L = (dval r, dval c)"
    using L one k by (intro ex1I [of _ "(dval r, dval c, z', fs')"]) (auto simp del: image_iff)
  assume "(dval r, dval c, z, fs) \<in> layout_val ` set (layout_table items)"
  then have mem: "(dval r, dval c, z, fs) \<in> set ?L" by simp
  then have eq: "z' = z" "fs' = fs"
    using one [OF L mem] k by simp_all
  obtain r' c' s where s: "(r', c', s) \<in> set (layout_table items)"
    "z = dval (sz s)" "fs = map (map_prod dval dval) (fld s)"
    using mem by (auto simp: layout_val_def)
  then obtain n where "Lay r' c' n s \<in> set items"
    by (auto simp: layout_table_mem)
  then have fit: "layout_fits z fs"
    using means s by (fastforce simp: item_means_def)
  have "fs ! dval f \<in> set fs"
    using f eq by simp
  then have "0 < snd (fs ! dval f) \<and> fst (fs ! dval f) + snd (fs ! dval f) \<le> z"
    using fit interval_below by (fastforce simp: layout_fits_def)
  then show "dval f < length fs \<and> fst (fs ! dval f) + snd (fs ! dval f) \<le> z \<and> 0 < snd (fs ! dval f)"
    using f eq by simp
qed

end
