(* ===== verification/Native_Calls.thy ===== *)
theory Native_Calls
  imports Modes Ownership_Runs
begin

text \<open>
  The native call-binding checker, \<open>crates/almide-verify/src/native_calls.rs\<close>: one block per
  function, binding the modes its calls pass to the callee's, each moved argument to one \<open>M\<close>
  event of a line, and each host call to the named set. The last section adds the accepted
  blocks up: the references the callers' lines give to calls are the references the callees'
  parameter lines start with.
\<close>

subsection \<open>Blocks\<close>

record block =
  bmodes :: "dnat list"
  bsites :: "dnat list list"
  bmarks :: "dnat list"
  bhosts :: "dnat list"
  bbody :: bytes

definition split_nl :: "bytes \<Rightarrow> bytes \<times> bytes" where
  "split_nl b =
     (if newline \<in> set b
      then (takeWhile (\<lambda>c. c \<noteq> newline) b, tl (dropWhile (\<lambda>c. c \<noteq> newline) b))
      else (b, []))"

definition parse_block :: "bytes \<Rightarrow> block" where
  "parse_block b =
     (let (header, body) = split_nl b;
          (modes, rest) = split_bar header;
          (sites, rest) = split_bar rest;
          (marks, hosts) = split_bar rest
      in \<lparr>bmodes = pnats modes,
          bsites = filter (\<lambda>s. s \<noteq> []) (map pnats (split_semi sites)),
          bmarks = pnats marks, bhosts = pnats hosts, bbody = body\<rparr>)"

definition native_fs_host_calls :: "string list" where
  "native_fs_host_calls =
    [''almide_rt_fs_read_text'',
     ''almide_rt_fs_read_bytes'',
     ''almide_rt_fs_read_lines'',
     ''almide_rt_fs_read_text_if_exists'',
     ''almide_rt_fs_list_dir'',
     ''almide_rt_fs_exists'',
     ''almide_rt_fs_is_dir'',
     ''almide_rt_fs_is_file'',
     ''almide_rt_fs_is_symlink'',
     ''almide_rt_fs_walk'',
     ''almide_rt_fs_glob'',
     ''almide_rt_fs___root_read_text'',
     ''almide_rt_fs___root_read_bytes'',
     ''almide_rt_fs___root_list_dir'',
     ''almide_rt_fs___root_exists'',
     ''almide_rt_fs_temp_dir'',
     ''almide_rt_fs_write'',
     ''almide_rt_fs_write_bytes'',
     ''almide_rt_fs_mkdir_p'',
     ''almide_rt_fs_remove_all'',
     ''almide_rt_fs___root_write_text'',
     ''almide_rt_fs_rename'',
     ''almide_rt_fs_copy'',
     ''almide_rt_fs_append'',
     ''almide_rt_fs_append_bytes'',
     ''almide_rt_fs_remove'',
     ''almide_rt_fs___root_remove'',
     ''almide_rt_fs_create_temp_dir'',
     ''almide_rt_fs_create_temp_file'']"

subsection \<open>The test\<close>

definition hosts_ok :: "block \<Rightarrow> bool" where
  "hosts_ok b =
     list_all (\<lambda>h. case as_index h of None \<Rightarrow> False | Some i \<Rightarrow> i < length native_fs_host_calls) (bhosts b)"

definition nsite_ok :: "dnat list list \<Rightarrow> dnat list \<Rightarrow> bool" where
  "nsite_ok sigs site =
     (case split_first site of
        None \<Rightarrow> False
      | Some (callee, actual) \<Rightarrow>
          (case Option.bind (as_index callee) (sget sigs) of
             None \<Rightarrow> False
           | Some sig \<Rightarrow> sig = actual))"

definition site_moves :: "dnat list \<Rightarrow> nat" where
  "site_moves site =
     (case split_first site of
        None \<Rightarrow> 0
      | Some (_, actual) \<Rightarrow> length (filter (\<lambda>m. as_index m = Some 1) actual))"

definition marks_ok :: "block \<Rightarrow> bool" where
  "marks_ok b =
     (let raw = split_on (\<lambda>c. c = newline) (bbody b);
          moved = sum_list (map site_moves (bsites b));
          idx = map as_index (bmarks b)
      in length (bmarks b) = moved \<and>
         list_all (\<lambda>j. case j of None \<Rightarrow> False | Some i \<Rightarrow> i < length raw) idx \<and>
         list_all (\<lambda>(j, l). length (filter (\<lambda>c. c = CHR ''M'') l) = length (filter (\<lambda>m. m = Some j) idx))
           (zip [0..<length raw] raw))"

definition check_native_calls_cert :: "bytes \<Rightarrow> bool" where
  "check_native_calls_cert witness =
     (let blocks = map parse_block (split_on (\<lambda>c. c = CHR ''#'') witness);
          sigs = map bmodes blocks
      in list_all (\<lambda>b.
           list_all le_one (bmodes b) \<and> list_all (nsite_ok sigs) (bsites b) \<and> marks_ok b \<and>
           hosts_ok b \<and> native_lines_ok (bmodes b) (bbody b)) blocks)"

subsection \<open>What an accepted program says\<close>

definition count_byte :: "byte \<Rightarrow> bytes \<Rightarrow> nat" where
  "count_byte c s = length (filter (\<lambda>b. b = c) s)"

definition block_wf :: "block \<Rightarrow> bool" where
  "block_wf b \<longleftrightarrow> (\<forall>n \<in> set (bmodes b) \<union> set (concat (bsites b)) \<union> set (bmarks b) \<union> set (bhosts b). wf_nat n) \<and>
     [] \<notin> set (bsites b)"

lemma parse_block_wf: "block_wf (parse_block s)"
  by (auto simp: block_wf_def parse_block_def Let_def pnats_wf split: prod.splits)

text \<open>
  Every call hands over the modes its callee declares; the marks bind each moved argument to
  one event of a line; hosts are of the named set; every line is safe from the references the
  modes declare.
\<close>

definition block_bound :: "nat list list \<Rightarrow> block \<Rightarrow> bool" where
  "block_bound sigs b \<longleftrightarrow>
     (\<forall>m \<in> set (bmodes b). dval m \<le> 1) \<and>
     (\<forall>site \<in> set (bsites b). call_agrees sigs (map dval site)) \<and>
     (let lns = split_on (\<lambda>c. c = newline) (bbody b); moves_of = (\<lambda>s. moves (tl (map dval s)))
      in length (bmarks b) = sum_list (map moves_of (bsites b)) \<and>
         (\<forall>m \<in> set (bmarks b). dval m < length lns) \<and>
         (\<forall>j < length lns. count_byte (CHR ''M'') (lns ! j) = length (filter (\<lambda>m. dval m = j) (bmarks b)))) \<and>
     (\<forall>h \<in> set (bhosts b). dval h < length native_fs_host_calls) \<and>
     lines_safe True (bmodes b) (parse_xc (bbody b))"

lemma nsite_ok_eq: "nsite_ok = site_ok"
  by (simp add: fun_eq_iff nsite_ok_def site_ok_def)

lemma as_index_dval: "wf_nat n \<Longrightarrow> i < 10 ^ 18 \<Longrightarrow> as_index n = Some i \<longleftrightarrow> dval n = i"
  using as_index_Some [of n] as_index_None [of n] by (cases "as_index n") auto

lemma site_moves_val:
  assumes "\<forall>n \<in> set site. wf_nat n"
  shows "site_moves site = moves (tl (map dval site))"
proof (cases site)
  case (Cons c actual)
  have "as_index m = Some 1 \<longleftrightarrow> dval m = 1" if "m \<in> set actual" for m
    using as_index_dval [of m 1] assms that Cons by simp
  then have "filter (\<lambda>m. as_index m = Some 1) actual = filter (\<lambda>m. dval m = 1) actual"
    by (rule filter_cong [OF refl])
  then show ?thesis
    by (simp add: Cons site_moves_def split_first_def moves_def filter_map comp_def)
qed (simp add: site_moves_def split_first_def moves_def)

lemma zip_index: "list_all (\<lambda>(j, l). P j l) (zip [0..<length xs] xs) \<longleftrightarrow> (\<forall>j < length xs. P j (xs ! j))"
  by (subst zip_all) simp_all

lemma in_range:
  assumes "wf_nat n" and "k \<le> 10 ^ 18"
  shows "(case as_index n of None \<Rightarrow> False | Some i \<Rightarrow> i < k) \<longleftrightarrow> dval n < k"
  using index_below_val [OF assms] by (simp add: index_below_def)

lemma marks_ok_iff:
  assumes wf: "block_wf b" and len: "length (bbody b) < 10 ^ 18"
  shows "marks_ok b \<longleftrightarrow>
    (let lns = split_on (\<lambda>c. c = newline) (bbody b); moves_of = (\<lambda>s. moves (tl (map dval s)))
     in length (bmarks b) = sum_list (map moves_of (bsites b)) \<and>
        (\<forall>m \<in> set (bmarks b). dval m < length lns) \<and>
        (\<forall>j < length lns. count_byte (CHR ''M'') (lns ! j) = length (filter (\<lambda>m. dval m = j) (bmarks b))))"
proof -
  define lns where "lns = split_on (\<lambda>c. c = newline) (bbody b)"
  have small: "length lns \<le> 10 ^ 18"
    using le_less_trans [OF length_filter_le len, of "\<lambda>c. c = newline"]
    unfolding lns_def length_split_on by linarith
  have wfm: "\<forall>m \<in> set (bmarks b). wf_nat m"
    using wf by (simp add: block_wf_def)
  have moved: "map site_moves (bsites b) = map (\<lambda>s. moves (tl (map dval s))) (bsites b)"
    using wf by (intro map_cong refl site_moves_val) (auto simp: block_wf_def)
  have named: "length (filter (\<lambda>m. m = Some j) (map as_index (bmarks b))) = length (filter (\<lambda>m. dval m = j) (bmarks b))"
    if "j < length lns" for j
  proof -
    have "filter (\<lambda>m. as_index m = Some j) (bmarks b) = filter (\<lambda>m. dval m = j) (bmarks b)"
      using wfm that small as_index_dval by (intro filter_cong) auto
    then show ?thesis by (simp add: filter_map comp_def)
  qed
  have range: "list_all (\<lambda>j. case j of None \<Rightarrow> False | Some i \<Rightarrow> i < length lns) (map as_index (bmarks b)) \<longleftrightarrow>
      (\<forall>m \<in> set (bmarks b). dval m < length lns)"
    using wfm small by (simp add: list_all_iff in_range)
  show ?thesis
    unfolding marks_ok_def Let_def lns_def [symmetric] moved zip_index range count_byte_def
    using named by simp
qed

lemma check_native_calls_iff:
  assumes "length w < 10 ^ 18" and "blocks = map parse_block (split_on (\<lambda>c. c = CHR ''#'') w)"
  shows "check_native_calls_cert w \<longleftrightarrow>
    (\<forall>b \<in> set blocks. block_bound (map (\<lambda>b. map dval (bmodes b)) blocks) b)"
proof -
  have len: "length blocks \<le> 10 ^ 18"
    using le_less_trans [OF length_filter_le assms(1), of "\<lambda>c. c = CHR ''#''"]
    unfolding assms(2) length_map length_split_on by linarith
  have wf: "block_wf b" if "b \<in> set blocks" for b
    using that assms(2) parse_block_wf by auto
  have wfs: "modes_wf (map bmodes blocks)"
    using wf by (fastforce simp: modes_wf_def block_wf_def)
  have body: "length (bbody b) < 10 ^ 18" if b: "b \<in> set blocks" for b
  proof -
    obtain s where s: "s \<in> set (split_on (\<lambda>c. c = CHR ''#'') w)" "b = parse_block s"
      using b unfolding assms(2) by auto
    have "length (bbody b) \<le> length s"
      using length_dropWhile_le [of "\<lambda>c. c \<noteq> newline" s]
      by (auto simp: s(2) parse_block_def split_nl_def Let_def split: prod.splits)
    also have "length s \<le> length w"
      using split_on_length [OF s(1)] .
    finally show ?thesis using assms(1) by linarith
  qed
  have one: "(list_all le_one (bmodes b) \<and> list_all (nsite_ok (map bmodes blocks)) (bsites b) \<and> marks_ok b \<and>
      hosts_ok b \<and> native_lines_ok (bmodes b) (bbody b)) \<longleftrightarrow>
      block_bound (map (\<lambda>b. map dval (bmodes b)) blocks) b" if b: "b \<in> set blocks" for b
  proof -
    have w: "\<forall>m \<in> set (bmodes b). wf_nat m" "\<forall>s \<in> set (bsites b). \<forall>n \<in> set s. wf_nat n"
      "\<forall>h \<in> set (bhosts b). wf_nat h"
      using wf [OF b] by (auto simp: block_wf_def)
    have 1: "list_all le_one (bmodes b) \<longleftrightarrow> (\<forall>m \<in> set (bmodes b). dval m \<le> 1)"
      using w(1) by (simp add: list_all_iff le_one_val)
    have 2: "list_all (nsite_ok (map bmodes blocks)) (bsites b) \<longleftrightarrow>
        (\<forall>site \<in> set (bsites b). call_agrees (map (\<lambda>b. map dval (bmodes b)) blocks) (map dval site))"
      using w(2) wfs len site_ok_agrees [of "map bmodes blocks"]
      by (simp add: list_all_iff nsite_ok_eq comp_def)
    have 3: "hosts_ok b \<longleftrightarrow> (\<forall>h \<in> set (bhosts b). dval h < length native_fs_host_calls)"
    proof -
      have "length native_fs_host_calls \<le> 10 ^ 18"
        by (simp add: native_fs_host_calls_def)
      then show ?thesis
        using w(3) by (simp add: hosts_ok_def list_all_iff in_range del: One_nat_def)
    qed
    show ?thesis
      unfolding 1 2 3 marks_ok_iff [OF wf [OF b] body [OF b]] native_lines_ok_iff [OF w(1)] block_bound_def
      by blast
  qed
  then show ?thesis
    using assms(2) by (simp add: check_native_calls_cert_def Let_def list_all_iff comp_def)
qed

text \<open>
  Conservation: the references a function's lines give away at \<open>M\<close> events are, one for one,
  the references the parameter lines of its callees start with.
\<close>

lemma count_split:
  assumes "c \<noteq> sep"
  shows "sum_list (map (count_byte c) (split_on (\<lambda>b. b = sep) s)) = count_byte c s"
proof (induction s)
  case (Cons b s)
  obtain y ys where "split_on (\<lambda>b. b = sep) s = y # ys"
    by (cases "split_on (\<lambda>b. b = sep) s") auto
  then show ?case
    using Cons assms by (auto simp: count_byte_def)
qed (simp add: count_byte_def)

lemma filter_classes:
  fixes f :: "'a \<Rightarrow> nat"
  shows "(\<forall>m \<in> set ms. f m < n) \<Longrightarrow> (\<Sum>j<n. length (filter (\<lambda>m. f m = j) ms)) = length ms"
proof (induction ms)
  case (Cons m ms)
  have "(\<Sum>j<n. length (filter (\<lambda>m. f m = j) (m # ms))) =
      (\<Sum>j<n. (if f m = j then 1 else 0) + length (filter (\<lambda>m. f m = j) ms))"
    by (rule sum.cong) auto
  moreover have "(\<Sum>j<n. if f m = j then 1 else 0) = (1::nat)"
    using Cons.prems by (subst sum.delta') simp_all
  ultimately show ?case
    using Cons by (simp only: sum.distrib list.set ball_simps length_Cons) simp
qed simp

lemma bound_conserves:
  assumes "block_bound sigs b"
  shows "count_byte (CHR ''M'') (bbody b) = sum_list (map (\<lambda>site. moves (sigs ! dval (hd site))) (bsites b))"
proof -
  define lns where "lns = split_on (\<lambda>c. c = newline) (bbody b)"
  have marks: "length (bmarks b) = sum_list (map (\<lambda>s. moves (tl (map dval s))) (bsites b))"
    "\<forall>m \<in> set (bmarks b). dval m < length lns"
    "\<And>j. j < length lns \<Longrightarrow> count_byte (CHR ''M'') (lns ! j) = length (filter (\<lambda>m. dval m = j) (bmarks b))"
    using assms by (simp_all add: block_bound_def Let_def lns_def)
  have site: "moves (tl (map dval s)) = moves (sigs ! dval (hd s))" if "s \<in> set (bsites b)" for s
  proof -
    have "call_agrees sigs (map dval s)"
      using assms that by (simp add: block_bound_def)
    then show ?thesis by (cases s) (auto simp: call_agrees_def)
  qed
  have "count_byte (CHR ''M'') (bbody b) = (\<Sum>j<length lns. count_byte (CHR ''M'') (lns ! j))"
    using count_split [of "CHR ''M''" newline "bbody b"]
    by (simp add: newline_def lns_def sum_list_sum_nth atLeast0LessThan)
  also have "\<dots> = (\<Sum>j<length lns. length (filter (\<lambda>m. dval m = j) (bmarks b)))"
    using marks(3) by (intro sum.cong) auto
  also have "\<dots> = length (bmarks b)"
    using filter_classes marks(2) by blast
  also have "\<dots> = sum_list (map (\<lambda>site. moves (sigs ! dval (hd site))) (bsites b))"
    unfolding marks(1) using site by (metis (no_types, lifting) map_cong)
  finally show ?thesis .
qed

end
