(* ===== verification/Slot_Facts.thy ===== *)
theory Slot_Facts
  imports Nat_Digits "HOL-Library.Word"
begin

text \<open>
  The interface between a bounds checker and the facts it tracks. A fact speaks of one slot of
  the environment; a checker keeps a set of facts it knows to hold. The laws below are what the
  walks need: writing a slot keeps the facts of the others, intersecting keeps what both sides
  know, and dropping facts is always allowed.
\<close>

locale slot_facts =
  fixes slot_of :: "'f \<Rightarrow> 'x" and holds :: "'f \<Rightarrow> ('x \<Rightarrow> 'v) \<Rightarrow> bool"
  assumes frame: "e (slot_of f) = e' (slot_of f) \<Longrightarrow> holds f e = holds f e'"
begin

definition known :: "'f set \<Rightarrow> ('x \<Rightarrow> 'v) \<Rightarrow> bool" where
  "known K e \<longleftrightarrow> (\<forall>f \<in> K. holds f e)"

lemma known_empty [simp]: "known {} e"
  by (simp add: known_def)

lemma known_insert [simp]: "known (insert f K) e \<longleftrightarrow> holds f e \<and> known K e"
  by (simp add: known_def)

lemma known_Un [simp]: "known (K \<union> K') e \<longleftrightarrow> known K e \<and> known K' e"
  by (auto simp: known_def)

lemma known_sub: "K \<subseteq> K' \<Longrightarrow> known K' e \<Longrightarrow> known K e"
  by (auto simp: known_def)

lemma known_write:
  assumes "known K e"
  shows "known {f \<in> K. slot_of f \<noteq> x} (e(x := v))"
  unfolding known_def
proof
  fix f assume f: "f \<in> {f \<in> K. slot_of f \<noteq> x}"
  then show "holds f (e(x := v))"
    using assms frame [of "e(x := v)" f e] by (simp add: known_def)
qed

lemma known_minus:
  assumes "known K e" and "\<And>x. x \<notin> ks \<Longrightarrow> e' x = e x"
  shows "known {f \<in> K. slot_of f \<notin> ks} e'"
  unfolding known_def
proof
  fix f assume f: "f \<in> {f \<in> K. slot_of f \<notin> ks}"
  then show "holds f e'"
    using assms frame [of e' f e] by (simp add: known_def)
qed

end

text \<open>How a run of a stretch ends: with an environment, at a failed test, or out of bounds.\<close>

datatype 'e outcome = Done 'e | Aborted | Fault

text \<open>A 64-bit word with a clear top bit reads the same signed and unsigned.\<close>

lemma sint_small:
  fixes v :: "64 word"
  assumes "unat v < 2 ^ 63"
  shows "sint v = int (unat v)"
proof -
  have v: "int (unat v) = uint v" by simp
  have "uint v < 2 ^ 63"
    using assms v by (metis of_nat_less_iff of_nat_numeral of_nat_power)
  moreover have "- (2 ^ 63) \<le> uint v"
    by (rule order.trans [OF _ uint_ge_0]) simp
  ultimately have "signed_take_bit 63 (uint v) = uint v"
    by (rule signed_take_bit_int_eq_self [rotated])
  then show ?thesis
    unfolding sint_uint v by simp
qed

text \<open>A set met with every set of a list.\<close>

lemma foldl_inter_sub: "foldl (\<inter>) k left \<subseteq> k"
proof (induction left arbitrary: k)
  case (Cons m left)
  from Cons.IH [of "k \<inter> m"] show ?case by auto
qed simp

lemma foldl_inter_mem: "l \<in> set left \<Longrightarrow> foldl (\<inter>) k left \<subseteq> l"
proof (induction left arbitrary: k)
  case (Cons m left)
  show ?case
  proof (cases "l = m")
    case True
    with foldl_inter_sub [of "k \<inter> m" left] show ?thesis by auto
  next
    case False
    with Cons show ?thesis by simp
  qed
qed simp

lemma sint_nonneg:
  fixes v :: "64 word"
  assumes "0 \<le> sint v"
  shows "sint v = int (unat v) \<and> unat v < 2 ^ 63"
proof -
  have "sint v < 2 ^ 63"
    using sint_lt [of v] by simp
  then have "uint v = sint v"
    using assms uint_sint [of v] by (simp add: take_bit_int_eq_self)
  moreover have "int (unat v) = uint v" by simp
  ultimately have "int (unat v) = sint v" "int (unat v) < 2 ^ 63"
    using \<open>sint v < 2 ^ 63\<close> by linarith+
  then show ?thesis
    by (metis of_nat_less_iff of_nat_numeral of_nat_power)
qed

end
