(* ===== verification/Bounds_List.thy ===== *)
theory Bounds_List
  imports Scan Slot_Facts
begin

text \<open>
  The list-element stretches of the bounds checker, \<open>crates/almide-verify/src/bounds.rs\<close>: the
  program parser \<open>prog_at\<close>, the known-slot walk \<open>check\<close>, and the runs of a stretch on 64-bit
  slots, with the proof that no run of an accepted stretch leaves the elements of its blocks.
\<close>

subsection \<open>Programs and their parser\<close>

datatype bitem =
    BCheck dnat
  | BRead dnat
  | BWrite dnat
  | BSet dnat
  | BExit dnat
  | BLoop "bitem list"
  | BBranch "bitem list" "bitem list"

text \<open>A sequence ends at one of these bytes, which it does not consume.\<close>

definition ends_seq :: "byte \<Rightarrow> bool" where
  "ends_seq c \<longleftrightarrow> c = CHR ''}'' \<or> c = CHR ''|'' \<or> c = CHR '';''"

definition slot_item :: "byte \<Rightarrow> dnat \<Rightarrow> bitem" where
  "slot_item c n =
     (if c = CHR ''c'' then BCheck n
      else if c = CHR ''a'' then BRead n
      else if c = CHR ''w'' then BWrite n
      else if c = CHR ''e'' then BExit n
      else BSet n)"

function prog_at :: "bytes \<Rightarrow> nat \<Rightarrow> bitem list \<Rightarrow> (bitem list \<times> nat) option" where
  "prog_at s i its =
     (case sget s i of
        None \<Rightarrow> Some (its, i)
      | Some c \<Rightarrow>
          if ends_seq c then Some (its, i)
          else if is_space c then prog_at s (i + 1) its
          else if c \<in> set ''cawse'' then
            let start = i + 1; e = start + run_len is_digit s start
            in if e = start then None
               else prog_at s e (its @ [slot_item c (from_digits (subslice s start e))])
          else if c = CHR ''L'' then
            (if sget s (i + 1) \<noteq> Some (CHR ''{'') then None
             else case prog_at s (i + 2) [] of
                    None \<Rightarrow> None
                  | Some (body, j) \<Rightarrow>
                      if sget s j \<noteq> Some (CHR ''}'') then None
                      else prog_at s (j + 1) (its @ [BLoop body]))
          else if c = CHR ''B'' then
            (if sget s (i + 1) \<noteq> Some (CHR ''{'') then None
             else case prog_at s (i + 2) [] of
                    None \<Rightarrow> None
                  | Some (thn, j) \<Rightarrow>
                      if sget s j \<noteq> Some (CHR ''|'') then None
                      else case prog_at s (j + 1) [] of
                             None \<Rightarrow> None
                           | Some (els, k) \<Rightarrow>
                               if sget s k \<noteq> Some (CHR ''}'') then None
                               else prog_at s (k + 1) (its @ [BBranch thn els]))
          else None)"
  by pat_completeness auto

text \<open>The recursion is nested: a sequence that parses has not moved backwards.\<close>

lemma prog_at_forward:
  "prog_at_dom (s, i, its) \<Longrightarrow> prog_at s i its = Some (r, j) \<Longrightarrow> i \<le> j"
proof (induction s i its arbitrary: r j rule: prog_at.pinduct)
  case (1 s i its)
  note IH = 1(2-)
  show ?case
  proof (cases "sget s i")
    case None
    then show ?thesis using 1 by (simp add: prog_at.psimps)
  next
    case (Some c)
    note res = 1(9) [unfolded prog_at.psimps [OF 1(1)] Some option.case]
    consider "ends_seq c" | "\<not> ends_seq c" "is_space c" | "\<not> ends_seq c" "\<not> is_space c" "c \<in> set ''cawse''"
      | "\<not> ends_seq c" "\<not> is_space c" "c \<notin> set ''cawse''" "c = CHR ''L''"
      | "\<not> ends_seq c" "\<not> is_space c" "c \<notin> set ''cawse''" "c \<noteq> CHR ''L''" "c = CHR ''B''"
      | "\<not> ends_seq c" "\<not> is_space c" "c \<notin> set ''cawse''" "c \<noteq> CHR ''L''" "c \<noteq> CHR ''B''"
      by blast
    then show ?thesis
    proof cases
      case 1
      then show ?thesis using res by simp
    next
      case 2
      then show ?thesis using res IH(1) [OF Some 2] by fastforce
    next
      case 3
      then show ?thesis
        using res IH(2) [OF Some 3 refl refl] by (fastforce simp: Let_def split: if_splits)
    next
      case 4
      then obtain body k where b: "sget s (i + 1) = Some (CHR ''{'')" "prog_at s (i + 2) [] = Some (body, k)"
        "sget s k = Some (CHR ''}'')" "prog_at s (k + 1) (its @ [BLoop body]) = Some (r, j)"
        using res by (auto split: option.splits if_splits)
      have "i + 2 \<le> k"
        using IH(3) [OF Some 4 _ b(2)] b(1) by simp
      moreover have "k + 1 \<le> j"
        using IH(4) [OF Some 4 _ b(2) refl _ b(4)] b(1,3) by simp
      ultimately show ?thesis by simp
    next
      case 5
      then obtain thn k els l where b: "sget s (i + 1) = Some (CHR ''{'')" "prog_at s (i + 2) [] = Some (thn, k)"
        "sget s k = Some (CHR ''|'')" "prog_at s (k + 1) [] = Some (els, l)"
        "sget s l = Some (CHR ''}'')" "prog_at s (l + 1) (its @ [BBranch thn els]) = Some (r, j)"
        using res by (auto split: option.splits if_splits)
      have "i + 2 \<le> k"
        using IH(5) [OF Some 5 _ b(2)] b(1) by simp
      moreover have "k + 1 \<le> l"
        using IH(6) [OF Some 5 _ b(2) refl _ b(4)] b(1,3) by simp
      moreover have "l + 1 \<le> j"
        using IH(7) [OF Some 5 _ b(2) refl _ b(4) refl _ b(6)] b(1,3,5) by simp
      ultimately show ?thesis by simp
    next
      case 6
      then show ?thesis using res by simp
    qed
  qed
qed

lemma prog_at_total: "All prog_at_dom"
proof (rule "prog_at.termination" [of "measure (\<lambda>(s, i, its). length s - i)"], goal_cases)
  case 1
  then show ?case by simp
next
  case (2 s i its c)
  then show ?case by (auto simp: sget_Some)
next
  case (3 s i its c)
  then show ?case by (auto simp: sget_Some)
next
  case (4 s i its c)
  then show ?case by (auto simp: sget_Some)
next
  case (5 s i its c p body j)
  then show ?case using prog_at_forward [of s "i + 2" "[]" body j] by (auto simp: sget_Some)
next
  case (6 s i its c)
  then show ?case by (auto simp: sget_Some)
next
  case (7 s i its c p thn j)
  then show ?case using prog_at_forward [of s "i + 2" "[]" thn j] by (auto simp: sget_Some)
next
  case (8 s i its c p thn j q els k)
  then show ?case
    using prog_at_forward [of s "i + 2" "[]" thn j] prog_at_forward [of s "j + 1" "[]" els k]
    by (auto simp: sget_Some)
qed

termination prog_at
  by (rule prog_at_total)

declare prog_at.simps [simp del]

lemma prog_at_ge [progress]: "prog_at s i its = Some (r, j) \<Longrightarrow> i \<le> j"
  using prog_at_forward prog_at_total by blast

subsection \<open>The check\<close>

fun bkills :: "bitem list \<Rightarrow> dnat set" where
  "bkills [] = {}"
| "bkills (BSet n # its) = insert n (bkills its)"
| "bkills (BLoop body # its) = bkills body \<union> bkills its"
| "bkills (BBranch t e # its) = bkills t \<union> bkills e \<union> bkills its"
| "bkills (_ # its) = bkills its"

text \<open>
  The loop of \<open>check\<close>: the known set, the sets the exit tests left from, the items to go.
\<close>

fun bcheck_loop :: "dnat set \<Rightarrow> dnat set list \<Rightarrow> bitem list \<Rightarrow> dnat set option" where
  "bcheck_loop kn left [] = Some (foldl (\<inter>) kn left)"
| "bcheck_loop kn left (BExit n # its) = bcheck_loop (insert n kn) (left @ [kn]) its"
| "bcheck_loop kn left (BCheck n # its) = bcheck_loop (insert n kn) left its"
| "bcheck_loop kn left (BRead n # its) = (if n \<notin> kn then None else bcheck_loop kn left its)"
| "bcheck_loop kn left (BWrite n # its) = (if n \<notin> kn then None else bcheck_loop kn left its)"
| "bcheck_loop kn left (BSet n # its) = bcheck_loop (kn - {n}) left its"
| "bcheck_loop kn left (BLoop body # its) =
     (let k0 = kn - bkills body
      in case bcheck_loop k0 [] body of
           None \<Rightarrow> None
         | Some kb \<Rightarrow> if \<not> k0 \<subseteq> kb then None else bcheck_loop k0 left its)"
| "bcheck_loop kn left (BBranch t e # its) =
     (case bcheck_loop kn [] t of
        None \<Rightarrow> None
      | Some kt \<Rightarrow>
          (case bcheck_loop kn [] e of
             None \<Rightarrow> None
           | Some ke \<Rightarrow> bcheck_loop (kt \<inter> ke) left its))"

definition bcheck :: "dnat set \<Rightarrow> bitem list \<Rightarrow> dnat set option" where
  "bcheck kn its = bcheck_loop kn [] its"

subsection \<open>Runs of a stretch\<close>

text \<open>
  A slot indexes one block: its header bytes, its element count, the bytes of an element. A
  slot's value is an \<open>i64\<close>; an element access reads or writes \<open>ewidth\<close> bytes at
  \<open>header + value * ewidth\<close>, and the emitted test is one unsigned compare with the count.
\<close>

record eblock =
  header :: nat
  count :: nat
  ewidth :: nat

definition eblock_wf :: "eblock \<Rightarrow> bool" where
  "eblock_wf b \<longleftrightarrow> 0 < ewidth b \<and> count b < 2 ^ 63"

type_synonym words = "dnat \<Rightarrow> 64 word"

definition elem_in :: "eblock \<Rightarrow> 64 word \<Rightarrow> bool" where
  "elem_in b v \<longleftrightarrow>
     (let off = int (header b) + sint v * int (ewidth b)
      in int (header b) \<le> off \<and> off + int (ewidth b) \<le> int (header b) + int (count b) * int (ewidth b))"

definition test_fails :: "eblock \<Rightarrow> 64 word \<Rightarrow> bool" where
  "test_fails b v \<longleftrightarrow> of_nat (count b) \<le> v"

inductive brun :: "(dnat \<Rightarrow> eblock) \<Rightarrow> words \<Rightarrow> bitem list \<Rightarrow> words outcome \<Rightarrow> bool" for B where
  finish: "brun B e [] (Done e)"
| access: "it = BRead x \<or> it = BWrite x \<Longrightarrow> elem_in (B x) (e x) \<Longrightarrow> brun B e k r \<Longrightarrow> brun B e (it # k) r"
| fault: "it = BRead x \<or> it = BWrite x \<Longrightarrow> \<not> elem_in (B x) (e x) \<Longrightarrow> brun B e (it # k) Fault"
| pass: "\<not> test_fails (B x) (e x) \<Longrightarrow> brun B e k r \<Longrightarrow> brun B e (BCheck x # k) r"
| abort: "test_fails (B x) (e x) \<Longrightarrow> brun B e (BCheck x # k) Aborted"
| stay: "\<not> test_fails (B x) (e x) \<Longrightarrow> brun B e k r \<Longrightarrow> brun B e (BExit x # k) r"
| leave: "test_fails (B x) (e x) \<Longrightarrow> brun B e (BExit x # k) (Done e)"
| assign: "brun B (e(x := v)) k r \<Longrightarrow> brun B e (BSet x # k) r"
| loop_out: "brun B e k r \<Longrightarrow> brun B e (BLoop body # k) r"
| loop_on: "brun B e body (Done e') \<Longrightarrow> brun B e' (BLoop body # k) r \<Longrightarrow> brun B e (BLoop body # k) r"
| loop_stop: "brun B e body r \<Longrightarrow> (\<And>e'. r \<noteq> Done e') \<Longrightarrow> brun B e (BLoop body # k) r"
| arm: "arm = t \<or> arm = f \<Longrightarrow> brun B e arm (Done e') \<Longrightarrow> brun B e' k r \<Longrightarrow> brun B e (BBranch t f # k) r"
| arm_stop: "arm = t \<or> arm = f \<Longrightarrow> brun B e arm r \<Longrightarrow> (\<And>e'. r \<noteq> Done e') \<Longrightarrow> brun B e (BBranch t f # k) r"

text \<open>A slot is known when its value is below the count of its block, compared as the test does.\<close>

definition elem_known :: "(dnat \<Rightarrow> eblock) \<Rightarrow> dnat \<Rightarrow> words \<Rightarrow> bool" where
  "elem_known B x e \<longleftrightarrow> \<not> test_fails (B x) (e x)"

interpretation elem: slot_facts "\<lambda>x. x" "elem_known B" for B
  by unfold_locales (simp add: elem_known_def)

lemma test_passed: "\<not> test_fails (B x) (e x) \<Longrightarrow> elem_known B x e"
  by (simp add: elem_known_def)

text \<open>One unsigned compare excludes both ends: a negative index reads above every count.\<close>

lemma elem_known_in:
  assumes "eblock_wf (B x)" and "elem_known B x e"
  shows "elem_in (B x) (e x)"
proof -
  let ?b = "B x" and ?v = "e x"
  have c: "count ?b < 2 ^ 63" and w: "0 < ewidth ?b"
    using assms(1) by (simp_all add: eblock_wf_def)
  have "unat (of_nat (count ?b) :: 64 word) = count ?b"
    using c by (simp add: unat_of_nat take_bit_nat_eq_self)
  then have lt: "unat ?v < count ?b"
    using assms(2) by (simp add: elem_known_def test_fails_def word_le_nat_alt)
  have "sint ?v = int (unat ?v)"
    using lt c by (intro sint_small) simp
  then have v: "0 \<le> sint ?v" "sint ?v + 1 \<le> int (count ?b)"
    using lt by linarith+
  have "(sint ?v + 1) * int (ewidth ?b) \<le> int (count ?b) * int (ewidth ?b)"
    using v(2) by (intro mult_right_mono) auto
  moreover have "0 \<le> sint ?v * int (ewidth ?b)"
    using v(1) by simp
  ultimately show ?thesis
    by (simp add: elem_in_def Let_def algebra_simps)
qed

lemma bcheck_left: "bcheck_loop kn left its = Some kn' \<Longrightarrow> l \<in> set left \<Longrightarrow> kn' \<subseteq> l"
  by (induction kn left its arbitrary: kn' rule: bcheck_loop.induct)
    (auto simp: Let_def split: if_splits option.splits dest: foldl_inter_mem [THEN subsetD])

subsection \<open>Soundness\<close>

text \<open>What a run ends with, against the facts the walk ends with.\<close>

definition bends :: "(dnat \<Rightarrow> eblock) \<Rightarrow> dnat set \<Rightarrow> words outcome \<Rightarrow> bool" where
  "bends B kn r = (case r of Done e \<Rightarrow> elem.known B kn e | Aborted \<Rightarrow> True | Fault \<Rightarrow> False)"

lemma bcheck_loop_again:
  "bcheck_loop kn left (BLoop body # its) = Some kn' \<Longrightarrow>
    \<exists>kb. bcheck_loop (kn - bkills body) [] body = Some kb \<and> kn - bkills body \<subseteq> kb \<and>
      bcheck_loop (kn - bkills body) left its = Some kn' \<and>
      bcheck_loop (kn - bkills body) left (BLoop body # its) = Some kn'"
  by (auto simp: Let_def split: option.splits if_splits)

lemma brun_sound:
  assumes "brun B e its r" and "\<forall>x. eblock_wf (B x)"
    and "bcheck_loop kn left its = Some kn'" and "elem.known B kn e"
  shows "bends B kn' r"
  using assms(1,3,4)
proof (induction arbitrary: kn left kn' rule: brun.induct)
  case (finish e)
  then show ?case
    using elem.known_sub [OF foldl_inter_sub] by (auto simp: bends_def)
next
  case (access it x e k r)
  then show ?case by (auto split: if_splits)
next
  case (fault it x e k)
  then have "elem_known B x e"
    by (auto simp: elem.known_def split: if_splits)
  then show ?case
    using fault.hyps elem_known_in assms(2) by blast
next
  case (pass x e k r)
  then have "elem.known B (insert x kn) e"
    by (simp add: test_passed)
  then show ?case
    using pass.IH pass.prems(1) by simp
next
  case (abort x e k)
  then show ?case by (simp add: bends_def)
next
  case (stay x e k r)
  then have "elem.known B (insert x kn) e"
    by (simp add: test_passed)
  then show ?case
    using stay.IH stay.prems(1) by simp
next
  case (leave x e k)
  then have "kn' \<subseteq> kn"
    using bcheck_left by fastforce
  then show ?case
    using elem.known_sub leave.prems by (auto simp: bends_def)
next
  case (assign e x v k r)
  have "kn - {x} = {y \<in> kn. y \<noteq> x}" by auto
  then have "elem.known B (kn - {x}) (e(x := v))"
    using elem.known_write [OF assign.prems(2)] by simp
  then show ?case
    using assign.IH assign.prems(1) by (metis bcheck_loop.simps(6))
next
  case (loop_out e k r body)
  then show ?case
    using bcheck_loop_again elem.known_sub [OF Diff_subset] by blast
next
  case (loop_on e body e' k r)
  then obtain kb where kb: "bcheck_loop (kn - bkills body) [] body = Some kb" "kn - bkills body \<subseteq> kb"
    "bcheck_loop (kn - bkills body) left (BLoop body # k) = Some kn'"
    using bcheck_loop_again by blast
  have "elem.known B (kn - bkills body) e"
    using elem.known_sub [OF Diff_subset] loop_on.prems(2) by blast
  then have "elem.known B kb e'"
    using loop_on.IH(1) [OF kb(1)] by (simp add: bends_def)
  then show ?case
    using loop_on.IH(2) [OF kb(3)] elem.known_sub [OF kb(2)] by blast
next
  case (loop_stop e body r k)
  then obtain kb where kb: "bcheck_loop (kn - bkills body) [] body = Some kb"
    using bcheck_loop_again by blast
  have "elem.known B (kn - bkills body) e"
    using elem.known_sub [OF Diff_subset] loop_stop.prems(2) by blast
  then show ?case
    using loop_stop.IH [OF kb] loop_stop.hyps(2) by (auto simp: bends_def split: outcome.splits)
next
  case (arm arm t f e e' k r)
  then obtain kt kf where kt: "bcheck_loop kn [] t = Some kt" "bcheck_loop kn [] f = Some kf"
    "bcheck_loop (kt \<inter> kf) left k = Some kn'"
    by (auto split: option.splits)
  have "elem.known B (kt \<inter> kf) e'"
    using arm.hyps(1)
  proof
    assume "arm = t"
    then have "elem.known B kt e'"
      using arm.IH(1) kt(1) arm.prems(2) by (fastforce simp: bends_def)
    then show ?thesis by (rule elem.known_sub [rotated]) simp
  next
    assume "arm = f"
    then have "elem.known B kf e'"
      using arm.IH(1) kt(2) arm.prems(2) by (fastforce simp: bends_def)
    then show ?thesis by (rule elem.known_sub [rotated]) simp
  qed
  then show ?case
    using arm.IH(2) [OF kt(3)] by blast
next
  case (arm_stop arm t f e r k)
  then obtain kt kf where kt: "bcheck_loop kn [] t = Some kt" "bcheck_loop kn [] f = Some kf"
    by (auto split: option.splits)
  then have "bends B kt r \<or> bends B kf r"
    using arm_stop.IH arm_stop.hyps(1) arm_stop.prems(2) by blast
  then show ?case
    using arm_stop.hyps(3) by (auto simp: bends_def split: outcome.splits)
qed

lemma bcheck_sound:
  assumes "bcheck {} its \<noteq> None" and "\<forall>x. eblock_wf (B x)"
  shows "\<not> brun B e its Fault"
proof
  assume "brun B e its Fault"
  moreover obtain kn' where "bcheck_loop {} [] its = Some kn'"
    using assms(1) by (auto simp: bcheck_def)
  ultimately have "bends B kn' Fault"
    using brun_sound assms(2) elem.known_empty by blast
  then show False by (simp add: bends_def)
qed

end
