(* ===== verification/Procs.thy ===== *)
theory Procs
  imports Scan Slot_Facts
begin

text \<open>
  The self-host procedures, \<open>crates/almide-verify/src/procs.rs\<close>: a table of procedures with
  declared preconditions, signed and unsigned tests, slot groups, and calls that must prove the
  callee's precondition. The run relation gives every call a frame of its own; soundness is by
  induction on the run, so recursion needs no unfolding.
\<close>

subsection \<open>Programs, procedures and their parser\<close>

type_synonym pfact = "dnat \<times> dnat"
type_synonym pcount = "dnat \<times> dnat \<times> dnat"

datatype pitem =
    PHdrOk dnat dnat
  | PAcc pfact dnat dnat
  | PLen dnat dnat dnat
  | PCheck pfact dnat bool
  | PExit pfact dnat bool
  | PSet dnat
  | PConst dnat
  | PStep dnat pfact dnat
  | PLoop "pitem list"
  | PBranch "pitem list" "pitem list"
  | PCall dnat "(dnat \<times> dnat) list"

record pproc =
  groups :: "(dnat \<times> dnat) list"
  pre_known :: "pfact list"
  pre_counts :: "pcount list"
  pre_nonneg :: "dnat list"
  pbody :: "pitem list"

definition expect_byte :: "bytes \<Rightarrow> nat \<Rightarrow> byte \<Rightarrow> nat option" where
  "expect_byte s i0 c = (let i = skip_blank s i0 in if sget s i = Some c then Some (i + 1) else None)"

definition pitem3 :: "byte \<Rightarrow> dnat list \<Rightarrow> pitem option" where
  "pitem3 c v = (case v of
     [a, b, d] \<Rightarrow> Some (
       if c = CHR ''h'' \<or> c = CHR ''H'' then PHdrOk b d
       else if c = CHR ''n'' then PLen a b d
       else if c = CHR ''c'' then PCheck (a, d) b False
       else if c = CHR ''C'' then PCheck (a, d) b True
       else if c = CHR ''e'' then PExit (a, d) b False
       else PExit (a, d) b True)
   | _ \<Rightarrow> None)"

definition pitem4 :: "byte \<Rightarrow> dnat list \<Rightarrow> pitem option" where
  "pitem4 c v = (case v of
     [x, y, o', w] \<Rightarrow> Some (if c = CHR ''t'' then PStep x (y, w) o' else PAcc (x, y) o' w)
   | _ \<Rightarrow> None)"

definition pitem2 :: "dnat list \<Rightarrow> pitem option" where
  "pitem2 v = (case v of [x, _] \<Rightarrow> Some (PConst x) | _ \<Rightarrow> None)"

definition call_item :: "bytes \<Rightarrow> nat \<Rightarrow> (pitem \<times> nat) option" where
  "call_item s i = do {
     (g, e) \<leftarrow> number s (i + 1);
     j \<leftarrow> expect_byte s e (CHR ''{'');
     (args, k) \<leftarrow> seq_at pair_item s j [];
     if sget s k \<noteq> Some (CHR ''}'') then None else Some (PCall g args, k + 1) }"

text \<open>The items that hold no sequence.\<close>

definition pflat_item :: "byte \<Rightarrow> bytes \<Rightarrow> nat \<Rightarrow> (pitem \<times> nat) option" where
  "pflat_item c s i =
     (if c \<in> set ''hHncCeE'' then
        do { (v, e) \<leftarrow> nums s (i + 1) 3; it \<leftarrow> pitem3 c v; Some (it, e) }
      else if c \<in> set ''awt'' then
        do { (v, e) \<leftarrow> nums s (i + 1) 4; it \<leftarrow> pitem4 c v; Some (it, e) }
      else if c = CHR ''k'' then
        do { (v, e) \<leftarrow> nums s (i + 1) 2; it \<leftarrow> pitem2 v; Some (it, e) }
      else if c = CHR ''s'' then
        do { (x, e) \<leftarrow> number s (i + 1); Some (PSet x, e) }
      else call_item s i)"

definition pends_seq :: "byte \<Rightarrow> bool" where
  "pends_seq c \<longleftrightarrow> c = CHR ''}'' \<or> c = CHR ''|'' \<or> c = CHR '';''"

function pprog_at :: "bytes \<Rightarrow> nat \<Rightarrow> pitem list \<Rightarrow> (pitem list \<times> nat) option" where
  "pprog_at s i its =
     (case sget s i of
        None \<Rightarrow> Some (its, i)
      | Some c \<Rightarrow>
          if pends_seq c then Some (its, i)
          else if is_space c then pprog_at s (i + 1) its
          else if c \<in> set ''hHncCeEawtksF'' then
            (case pflat_item c s i of
               None \<Rightarrow> None
             | Some (it, e) \<Rightarrow> pprog_at s e (its @ [it]))
          else if c = CHR ''L'' then
            (case expect_byte s (i + 1) (CHR ''{'') of
               None \<Rightarrow> None
             | Some j \<Rightarrow>
                 (case pprog_at s j [] of
                    None \<Rightarrow> None
                  | Some (body, k) \<Rightarrow>
                      if sget s k \<noteq> Some (CHR ''}'') then None
                      else pprog_at s (k + 1) (its @ [PLoop body])))
          else if c = CHR ''B'' then
            (case expect_byte s (i + 1) (CHR ''{'') of
               None \<Rightarrow> None
             | Some j \<Rightarrow>
                 (case pprog_at s j [] of
                    None \<Rightarrow> None
                  | Some (thn, k) \<Rightarrow>
                      if sget s k \<noteq> Some (CHR ''|'') then None
                      else case pprog_at s (k + 1) [] of
                             None \<Rightarrow> None
                           | Some (els, l) \<Rightarrow>
                               if sget s l \<noteq> Some (CHR ''}'') then None
                               else pprog_at s (l + 1) (its @ [PBranch thn els])))
          else None)"
  by pat_completeness auto

lemma expect_byte_ge: "expect_byte s i c = Some j \<Longrightarrow> i < j"
  using skip_blank_ge [of i s] by (auto simp: expect_byte_def Let_def split: if_splits)

lemma call_item_steps:
  assumes "call_item s i = Some (it, e)"
  obtains g a j args k where "number s (i + 1) = Some (g, a)" "expect_byte s a (CHR ''{'') = Some j"
    "seq_at pair_item s j [] = Some (args, k)" "it = PCall g args" "e = k + 1"
  using assms by (auto simp: call_item_def bind_Some_iff split: if_splits)

lemma call_item_ge: "call_item s i = Some (it, e) \<Longrightarrow> i < e"
proof (erule call_item_steps)
  fix g a j args k
  assume *: "number s (i + 1) = Some (g, a)" "expect_byte s a (CHR ''{'') = Some j"
    "seq_at pair_item s j [] = Some (args, k)" "e = k + 1"
  have "j \<le> k"
    using pairs.seq_at_spec [OF *(3)] by simp
  then show "i < e"
    using number_progress [OF *(1)] expect_byte_ge [OF *(2)] *(4) by linarith
qed

lemma pflat_item_cases:
  assumes "pflat_item c s i = Some (it, e)"
  obtains v where "nums s (i + 1) 3 = Some (v, e)" "pitem3 c v = Some it"
  | v where "nums s (i + 1) 4 = Some (v, e)" "pitem4 c v = Some it"
  | v where "nums s (i + 1) 2 = Some (v, e)" "pitem2 v = Some it"
  | x where "number s (i + 1) = Some (x, e)" "it = PSet x"
  | "call_item s i = Some (it, e)"
proof (cases "c \<in> set ''hHncCeE''")
  case True
  show ?thesis
    using assms that(1) unfolding pflat_item_def if_P [OF True] by (auto simp: bind_Some_iff)
next
  case n3: False
  note p3 = assms [unfolded pflat_item_def if_not_P [OF n3]]
  show ?thesis
  proof (cases "c \<in> set ''awt''")
    case True
    show ?thesis
      using p3 [unfolded if_P [OF True]] that(2) by (auto simp: bind_Some_iff)
  next
    case n4: False
    note p4 = p3 [unfolded if_not_P [OF n4]]
    show ?thesis
      using p4 that(3,4,5) by (auto simp: bind_Some_iff split: if_splits)
  qed
qed

lemma pflat_item_ge: "pflat_item c s i = Some (it, e) \<Longrightarrow> i < e"
proof (erule pflat_item_cases)
  fix v
  show "nums s (i + 1) 3 = Some (v, e) \<Longrightarrow> i < e" "nums s (i + 1) 4 = Some (v, e) \<Longrightarrow> i < e"
    "nums s (i + 1) 2 = Some (v, e) \<Longrightarrow> i < e"
    using nums_progress [of s "i + 1" _ v e] by fastforce+
next
  fix x
  show "number s (i + 1) = Some (x, e) \<Longrightarrow> i < e"
    using number_progress [of s "i + 1" x e] by simp
qed (rule call_item_ge)

lemma pprog_at_forward:
  "pprog_at_dom (s, i, its) \<Longrightarrow> pprog_at s i its = Some (r, j) \<Longrightarrow> i \<le> j"
proof (induction s i its arbitrary: r j rule: pprog_at.pinduct)
  case (1 s i its)
  note IH = 1(2-)
  show ?case
  proof (cases "sget s i")
    case None
    then show ?thesis using 1 by (simp add: pprog_at.psimps)
  next
    case (Some c)
    note res = "1.prems" [unfolded pprog_at.psimps [OF 1(1)] Some option.case]
    let ?F = "c \<in> set ''hHncCeEawtksF''"
    consider "pends_seq c" | "\<not> pends_seq c" "is_space c" | "\<not> pends_seq c" "\<not> is_space c" ?F
      | "\<not> pends_seq c" "\<not> is_space c" "\<not> ?F" "c = CHR ''L''"
      | "\<not> pends_seq c" "\<not> is_space c" "\<not> ?F" "c \<noteq> CHR ''L''" "c = CHR ''B''"
      | "\<not> pends_seq c" "\<not> is_space c" "\<not> ?F" "c \<noteq> CHR ''L''" "c \<noteq> CHR ''B''"
      by blast
    then show ?thesis
    proof cases
      case 1
      then show ?thesis using res by simp
    next
      case 2
      then show ?thesis using res IH(1) [OF Some 2] by fastforce
    next
      case 3
      then obtain it e where f: "pflat_item c s i = Some (it, e)" "pprog_at s e (its @ [it]) = Some (r, j)"
        using res by (auto split: option.splits)
      then show ?thesis
        using IH(2) [OF Some 3 f(1) refl f(2)] pflat_item_ge [OF f(1)] by simp
    next
      case 4
      then obtain a body k where b: "expect_byte s (i + 1) (CHR ''{'') = Some a" "pprog_at s a [] = Some (body, k)"
        "sget s k = Some (CHR ''}'')" "pprog_at s (k + 1) (its @ [PLoop body]) = Some (r, j)"
        using res by (auto split: option.splits if_splits)
      have "a \<le> k"
        using IH(3) [OF Some 4 b(1,2)] .
      moreover have "k + 1 \<le> j"
        using IH(4) [OF Some 4 b(1,2) refl _ b(4)] b(3) by simp
      ultimately show ?thesis
        using expect_byte_ge [OF b(1)] by simp
    next
      case 5
      then obtain a thn k els l where b: "expect_byte s (i + 1) (CHR ''{'') = Some a"
        "pprog_at s a [] = Some (thn, k)" "sget s k = Some (CHR ''|'')"
        "pprog_at s (k + 1) [] = Some (els, l)" "sget s l = Some (CHR ''}'')"
        "pprog_at s (l + 1) (its @ [PBranch thn els]) = Some (r, j)"
        using res by (auto split: option.splits if_splits)
      have "a \<le> k"
        using IH(5) [OF Some 5 b(1,2)] .
      moreover have "k + 1 \<le> l"
        using IH(6) [OF Some 5 b(1,2) refl _ b(4)] b(3) by simp
      moreover have "l + 1 \<le> j"
        using IH(7) [OF Some 5 b(1,2) refl _ b(4) refl _ b(6)] b(3,5) by simp
      ultimately show ?thesis
        using expect_byte_ge [OF b(1)] by simp
    next
      case 6
      then show ?thesis using res by simp
    qed
  qed
qed

lemma pprog_at_total: "All pprog_at_dom"
proof (rule "pprog_at.termination" [of "measure (\<lambda>(s, i, its). length s - i)"], goal_cases)
  case 1
  then show ?case by simp
next
  case (2 s i its c)
  then show ?case by (auto simp: sget_Some)
next
  case (3 s i its c p it e)
  then show ?case using pflat_item_ge [of c s i it e] by (auto simp: sget_Some)
next
  case (4 s i its c j)
  then show ?case by (auto dest!: expect_byte_ge simp: sget_Some)
next
  case (5 s i its c j p body k)
  then have "i < j" "j \<le> k"
    using expect_byte_ge [of s "i + 1"] pprog_at_forward [of s j "[]" body k] by fastforce+
  then show ?case
    using 5(1) by (auto simp: sget_Some)
next
  case (6 s i its c j)
  then show ?case by (auto dest!: expect_byte_ge simp: sget_Some)
next
  case (7 s i its c j p thn k)
  then have "i < j" "j \<le> k"
    using expect_byte_ge [of s "i + 1"] pprog_at_forward [of s j "[]" thn k] by fastforce+
  then show ?case
    using 7(1) by (auto simp: sget_Some)
next
  case (8 s i its c j p thn k q els l)
  then have "i < j" "j \<le> k" "k + 1 \<le> l"
    using expect_byte_ge [of s "i + 1"] pprog_at_forward [of s j "[]" thn k]
      pprog_at_forward [of s "k + 1" "[]" els l] by fastforce+
  then show ?case
    using 8(1) by (auto simp: sget_Some)
qed

termination pprog_at
  by (rule pprog_at_total)

declare pprog_at.simps [simp del]

lemma pprog_at_ge [progress]: "pprog_at s i its = Some (r, j) \<Longrightarrow> i \<le> j"
  using pprog_at_forward pprog_at_total by blast

text \<open>Every number of a parsed body is canonical.\<close>

fun pitems_wf :: "pitem list \<Rightarrow> bool" where
  "pitems_wf [] \<longleftrightarrow> True"
| "pitems_wf (PHdrOk o' w # its) \<longleftrightarrow> wf_nat o' \<and> wf_nat w \<and> pitems_wf its"
| "pitems_wf (PAcc f o' w # its) \<longleftrightarrow> pair_wf f \<and> wf_nat o' \<and> wf_nat w \<and> pitems_wf its"
| "pitems_wf (PLen n x st # its) \<longleftrightarrow> wf_nat st \<and> pitems_wf its"
| "pitems_wf (PCheck f n g # its) \<longleftrightarrow> pair_wf f \<and> pitems_wf its"
| "pitems_wf (PExit f n g # its) \<longleftrightarrow> pair_wf f \<and> pitems_wf its"
| "pitems_wf (PSet x # its) \<longleftrightarrow> pitems_wf its"
| "pitems_wf (PConst x # its) \<longleftrightarrow> pitems_wf its"
| "pitems_wf (PStep x f c # its) \<longleftrightarrow> pair_wf f \<and> wf_nat c \<and> pitems_wf its"
| "pitems_wf (PLoop body # its) \<longleftrightarrow> pitems_wf body \<and> pitems_wf its"
| "pitems_wf (PBranch t e # its) \<longleftrightarrow> pitems_wf t \<and> pitems_wf e \<and> pitems_wf its"
| "pitems_wf (PCall f args # its) \<longleftrightarrow> pitems_wf its"

lemma pitems_wf_Cons: "pitems_wf (it # its) \<longleftrightarrow> pitems_wf [it] \<and> pitems_wf its"
  by (cases it) auto

lemma pitems_wf_append [simp]: "pitems_wf (xs @ ys) \<longleftrightarrow> pitems_wf xs \<and> pitems_wf ys"
proof (induction xs)
  case (Cons x xs)
  then show ?case
    using pitems_wf_Cons [of x "xs @ ys"] pitems_wf_Cons [of x xs] by simp
qed simp

lemma pflat_item_wf:
  assumes "pflat_item c s i = Some (it, e)"
  shows "pitems_wf [it]"
  using assms
proof (cases rule: pflat_item_cases)
  case (1 v)
  then show ?thesis
    using nums_wf [OF 1(1)] by (auto simp: pitem3_def pair_wf_def split: list.splits if_splits)
next
  case (2 v)
  then show ?thesis
    using nums_wf [OF 2(1)] by (auto simp: pitem4_def pair_wf_def split: list.splits if_splits)
next
  case (3 v)
  then show ?thesis by (auto simp: pitem2_def split: list.splits)
next
  case 5
  then show ?thesis by (auto elim!: call_item_steps)
qed simp

lemma pprog_at_wf:
  "pprog_at s i its = Some (r, j) \<Longrightarrow> pitems_wf its \<Longrightarrow> pitems_wf r"
proof (induction s i its arbitrary: r j rule: pprog_at.induct)
  case (1 s i its)
  note IH = "1.IH"
  show ?case
  proof (cases "sget s i")
    case None
    then show ?thesis using "1.prems" by (simp add: pprog_at.simps)
  next
    case (Some c)
    note res = "1.prems"(1) [unfolded pprog_at.simps [of s i] Some option.case]
    let ?F = "c \<in> set ''hHncCeEawtksF''"
    consider "pends_seq c" | "\<not> pends_seq c" "is_space c" | "\<not> pends_seq c" "\<not> is_space c" ?F
      | "\<not> pends_seq c" "\<not> is_space c" "\<not> ?F" "c = CHR ''L''"
      | "\<not> pends_seq c" "\<not> is_space c" "\<not> ?F" "c \<noteq> CHR ''L''" "c = CHR ''B''"
      | "\<not> pends_seq c" "\<not> is_space c" "\<not> ?F" "c \<noteq> CHR ''L''" "c \<noteq> CHR ''B''"
      by blast
    then show ?thesis
    proof cases
      case 1
      then show ?thesis using res "1.prems"(2) by simp
    next
      case 2
      then show ?thesis using res IH(1) [OF Some 2] "1.prems"(2) by fastforce
    next
      case 3
      then obtain it e where f: "pflat_item c s i = Some (it, e)" "pprog_at s e (its @ [it]) = Some (r, j)"
        using res by (auto split: option.splits)
      then show ?thesis
        using IH(2) [OF Some 3 f(1) refl f(2)] pflat_item_wf [OF f(1)] "1.prems"(2) by simp
    next
      case 4
      then obtain a body k where b: "expect_byte s (i + 1) (CHR ''{'') = Some a" "pprog_at s a [] = Some (body, k)"
        "sget s k = Some (CHR ''}'')" "pprog_at s (k + 1) (its @ [PLoop body]) = Some (r, j)"
        using res by (auto split: option.splits if_splits)
      have "pitems_wf body"
        using IH(3) [OF Some 4 b(1,2)] by simp
      then show ?thesis
        using IH(4) [OF Some 4 b(1,2) refl _ b(4)] b(3) "1.prems"(2) by simp
    next
      case 5
      then obtain a thn k els l where b: "expect_byte s (i + 1) (CHR ''{'') = Some a"
        "pprog_at s a [] = Some (thn, k)" "sget s k = Some (CHR ''|'')"
        "pprog_at s (k + 1) [] = Some (els, l)" "sget s l = Some (CHR ''}'')"
        "pprog_at s (l + 1) (its @ [PBranch thn els]) = Some (r, j)"
        using res by (auto split: option.splits if_splits)
      have "pitems_wf thn"
        using IH(5) [OF Some 5 b(1,2)] by simp
      moreover have "pitems_wf els"
        using IH(6) [OF Some 5 b(1,2) refl _ b(4)] b(3) by simp
      ultimately show ?thesis
        using IH(7) [OF Some 5 b(1,2) refl _ b(4) refl _ b(6)] b(3,5) "1.prems"(2) by simp
    next
      case 6
      then show ?thesis using res by simp
    qed
  qed
qed

text \<open>One procedure, after its \<open>P\<close>.\<close>

definition at_byte :: "bytes \<Rightarrow> byte \<Rightarrow> 'a \<times> nat \<Rightarrow> ('a \<times> nat) option" where
  "at_byte s c p = (if sget s (snd p) = Some c then Some (fst p, snd p + 1) else None)"

definition parse_proc :: "bytes \<Rightarrow> nat \<Rightarrow> ((dnat \<times> pproc) \<times> nat) option" where
  "parse_proc s i0 = do {
     (pid, e) \<leftarrow> number s i0;
     i \<leftarrow> expect_byte s e (CHR ''{'');
     g \<leftarrow> seq_at pair_item s i [];
     (gs, i) \<leftarrow> at_byte s (CHR ''|'') g;
     q \<leftarrow> seq_at pair_item s i [];
     (kq, i) \<leftarrow> at_byte s (CHR ''|'') q;
     c \<leftarrow> seq_at triple_item s i [];
     (cq, i) \<leftarrow> at_byte s (CHR ''|'') c;
     n \<leftarrow> seq_at number s i [];
     (nq, i) \<leftarrow> at_byte s (CHR ''|'') n;
     (body, i) \<leftarrow> pprog_at s i [];
     if sget s i \<noteq> Some (CHR ''}'') then None
     else Some ((pid, \<lparr>groups = gs, pre_known = kq, pre_counts = cq, pre_nonneg = nq, pbody = body\<rparr>),
                skip_blank s (i + 1)) }"

definition proc_wf :: "pproc \<Rightarrow> bool" where
  "proc_wf d \<longleftrightarrow> pitems_wf (pbody d) \<and> list_all pair_wf (pre_known d)"

lemma at_byte_steps: "at_byte s c p = Some (x, j) \<longleftrightarrow> p = (x, j - 1) \<and> 0 < j \<and> sget s (j - 1) = Some c"
  by (cases p) (auto simp: at_byte_def)

lemma parse_proc_spec:
  assumes "parse_proc s i = Some ((pid, d), j)"
  shows "i < j \<and> proc_wf d"
proof -
  obtain e i0 gs i1 kq i2 cq i3 nq i4 body i5 where p:
    "number s i = Some (pid, e)" "expect_byte s e (CHR ''{'') = Some i0"
    "seq_at pair_item s i0 [] = Some (gs, i1)" "seq_at pair_item s (i1 + 1) [] = Some (kq, i2)"
    "seq_at triple_item s (i2 + 1) [] = Some (cq, i3)" "seq_at number s (i3 + 1) [] = Some (nq, i4)"
    "pprog_at s (i4 + 1) [] = Some (body, i5)" "j = skip_blank s (i5 + 1)"
    "d = \<lparr>groups = gs, pre_known = kq, pre_counts = cq, pre_nonneg = nq, pbody = body\<rparr>"
    using assms by (auto simp: parse_proc_def bind_Some_iff at_byte_def split: if_splits)
  have "i < e" "e < i0" "i0 \<le> i1" "i1 + 1 \<le> i2" "i2 + 1 \<le> i3" "i3 + 1 \<le> i4" "i4 + 1 \<le> i5" "i5 + 1 \<le> j"
    using number_progress [OF p(1)] expect_byte_ge [OF p(2)] pairs.seq_at_spec [OF p(3)]
      pairs.seq_at_spec [OF p(4)] triples.seq_at_spec [OF p(5)] bare.seq_at_spec [OF p(6)]
      pprog_at_ge [OF p(7)] p(8) skip_blank_ge [of "i5 + 1" s] by simp_all
  moreover have "pitems_wf body" "\<forall>f \<in> set kq. pair_wf f"
    using pprog_at_wf [OF p(7)] pairs.seq_at_spec [OF p(4)] by simp_all
  ultimately show ?thesis
    using p(9) by (simp add: proc_wf_def list_all_iff)
qed

subsection \<open>The check\<close>

fun gof :: "(dnat \<times> dnat) list \<Rightarrow> dnat \<Rightarrow> dnat" where
  "gof [] x = x"
| "gof ((a, r) # gs) x = (if a = x then r else gof gs x)"

definition amap :: "(dnat \<times> dnat) list \<Rightarrow> dnat \<Rightarrow> dnat option" where
  "amap args p = map_of args p"

fun pkills :: "pitem list \<Rightarrow> dnat set" where
  "pkills [] = {}"
| "pkills (PSet x # its) = insert x (pkills its)"
| "pkills (PConst x # its) = insert x (pkills its)"
| "pkills (PStep x f c # its) = insert x (pkills its)"
| "pkills (PLen n x st # its) = insert n (pkills its)"
| "pkills (PLoop body # its) = pkills body \<union> pkills its"
| "pkills (PBranch t e # its) = pkills t \<union> pkills e \<union> pkills its"
| "pkills (_ # its) = pkills its"

record pst =
  kn :: "pfact set"
  cn :: "pcount set"
  nn :: "dnat set"

definition pkill :: "pst \<Rightarrow> dnat \<Rightarrow> pst" where
  "pkill st y =
     \<lparr>kn = {f \<in> kn st. fst f \<noteq> y}, cn = {c \<in> cn st. fst c \<noteq> y}, nn = nn st - {y}\<rparr>"

definition pminus :: "pst \<Rightarrow> dnat set \<Rightarrow> pst" where
  "pminus st ks =
     \<lparr>kn = {f \<in> kn st. fst f \<notin> ks}, cn = {c \<in> cn st. fst c \<notin> ks}, nn = {x \<in> nn st. x \<notin> ks}\<rparr>"

definition pmeet :: "pst \<Rightarrow> pst \<Rightarrow> pst" where
  "pmeet a b = \<lparr>kn = kn a \<inter> kn b, cn = cn a \<inter> cn b, nn = nn a \<inter> nn b\<rparr>"

definition pwithin :: "pst \<Rightarrow> pst \<Rightarrow> bool" where
  "pwithin a b \<longleftrightarrow> kn a \<subseteq> kn b \<and> cn a \<subseteq> cn b \<and> nn a \<subseteq> nn b"

definition pnonneg :: "pst \<Rightarrow> dnat \<Rightarrow> bool" where
  "pnonneg st x \<longleftrightarrow> x \<in> nn st \<or> (\<exists>f \<in> kn st. fst f = x)"

type_synonym ptable = "(dnat \<times> pproc) list"

definition plook :: "ptable \<Rightarrow> dnat \<Rightarrow> pproc option" where
  "plook P f = map_of P f"

text \<open>The caller proves the callee's precondition of the slots it passes.\<close>

definition groups_agree :: "(dnat \<times> dnat) list \<Rightarrow> (dnat \<times> dnat) list \<Rightarrow> (dnat \<times> dnat) list \<Rightarrow> bool" where
  "groups_agree gs gs' args \<longleftrightarrow>
     list_all (\<lambda>a1. list_all (\<lambda>a2.
       gof gs' (fst a1) \<noteq> gof gs' (fst a2) \<or> gof gs (snd a1) = gof gs (snd a2)) args) args"

definition pre_met :: "(dnat \<times> dnat) list \<Rightarrow> pst \<Rightarrow> (dnat \<times> dnat) list \<Rightarrow> pproc \<Rightarrow> bool" where
  "pre_met gs st args callee \<longleftrightarrow>
     groups_agree gs (groups callee) args \<and>
     list_all (\<lambda>(p, s). case amap args p of None \<Rightarrow> False | Some x \<Rightarrow> (x, s) \<in> kn st) (pre_known callee) \<and>
     list_all (\<lambda>(n, r, s). case (amap args n, amap args r) of
         (Some n2, Some x) \<Rightarrow> (n2, gof gs x, s) \<in> cn st | _ \<Rightarrow> False) (pre_counts callee) \<and>
     list_all (\<lambda>y. case amap args y of None \<Rightarrow> False | Some x \<Rightarrow> pnonneg st x) (pre_nonneg callee)"

definition learn :: "pst \<Rightarrow> pfact \<Rightarrow> pst" where
  "learn st f = st\<lparr>kn := insert f (kn st)\<rparr>"

definition test_ok :: "(dnat \<times> dnat) list \<Rightarrow> pst \<Rightarrow> pfact \<Rightarrow> dnat \<Rightarrow> bool \<Rightarrow> bool" where
  "test_ok gs st f n g \<longleftrightarrow> (n, gof gs (fst f), snd f) \<in> cn st \<and> \<not> (g \<and> \<not> pnonneg st (fst f))"

definition mark_nonneg :: "pst \<Rightarrow> dnat \<Rightarrow> pst" where
  "mark_nonneg st x = st\<lparr>nn := insert x (nn st)\<rparr>"

fun pcheck_loop :: "ptable \<Rightarrow> (dnat \<times> dnat) list \<Rightarrow> pst \<Rightarrow> pst list \<Rightarrow> pitem list \<Rightarrow> pst option" where
  "pcheck_loop P gs st left [] = Some (foldl pmeet st left)"
| "pcheck_loop P gs st left (PHdrOk o' w # its) =
     (if \<not> in_hdr o' w then None else pcheck_loop P gs st left its)"
| "pcheck_loop P gs st left (PAcc f o' w # its) =
     (if f \<notin> kn st \<or> \<not> in_slot (snd f) o' w then None else pcheck_loop P gs st left its)"
| "pcheck_loop P gs st left (PLen n x s # its) =
     (if \<not> positive s then None
      else let st1 = pkill st n
           in pcheck_loop P gs (mark_nonneg (st1\<lparr>cn := insert (n, gof gs x, s) (cn st1)\<rparr>) n) left its)"
| "pcheck_loop P gs st left (PCheck f n g # its) =
     (if \<not> test_ok gs st f n g then None else pcheck_loop P gs (learn st f) left its)"
| "pcheck_loop P gs st left (PExit f n g # its) =
     (if \<not> test_ok gs st f n g then None else pcheck_loop P gs (learn st f) (left @ [st]) its)"
| "pcheck_loop P gs st left (PSet x # its) = pcheck_loop P gs (pkill st x) left its"
| "pcheck_loop P gs st left (PConst x # its) = pcheck_loop P gs (mark_nonneg (pkill st x) x) left its"
| "pcheck_loop P gs st left (PStep x f c # its) =
     (let st1 = pkill st x
      in pcheck_loop P gs (if f \<in> kn st \<and> c \<le> snd f then mark_nonneg st1 x else st1) left its)"
| "pcheck_loop P gs st left (PLoop body # its) =
     (let s0 = pminus st (pkills body)
      in case pcheck_loop P gs s0 [] body of
           None \<Rightarrow> None
         | Some sb \<Rightarrow> if \<not> pwithin s0 sb then None else pcheck_loop P gs s0 left its)"
| "pcheck_loop P gs st left (PBranch t e # its) =
     (case pcheck_loop P gs st [] t of
        None \<Rightarrow> None
      | Some a \<Rightarrow>
          (case pcheck_loop P gs st [] e of
             None \<Rightarrow> None
           | Some b \<Rightarrow> pcheck_loop P gs (pmeet a b) left its))"
| "pcheck_loop P gs st left (PCall f args # its) =
     (case plook P f of
        None \<Rightarrow> None
      | Some callee \<Rightarrow> if \<not> pre_met gs st args callee then None else pcheck_loop P gs st left its)"

definition pcheck :: "ptable \<Rightarrow> (dnat \<times> dnat) list \<Rightarrow> pst \<Rightarrow> pitem list \<Rightarrow> pst option" where
  "pcheck P gs st its = pcheck_loop P gs st [] its"

definition pre_state :: "pproc \<Rightarrow> pst" where
  "pre_state d = \<lparr>kn = set (pre_known d), cn = set (pre_counts d), nn = set (pre_nonneg d)\<rparr>"

definition procs_ok :: "ptable \<Rightarrow> bool" where
  "procs_ok P \<longleftrightarrow>
     card (set (map fst P)) = length P \<and>
     list_all (\<lambda>(_, d). pcheck P (groups d) (pre_state d) (pbody d) \<noteq> None) P"

end
