(* ===== verification/Rbounds.thy ===== *)
theory Rbounds
  imports Scan Slot_Facts
begin

text \<open>
  The routine stretches, \<open>crates/almide-verify/src/rbounds.rs\<close>: header and payload accesses at a
  stride, counts read from a block, the tests against them, and helper calls checked under
  their own contract. The runs are on 64-bit slots over blocks of a 12-byte header and a
  payload of fixed capacity; no run of an accepted stretch touches a byte outside.
\<close>

subsection \<open>Programs and their parser\<close>

type_synonym fact = "dnat \<times> dnat"
type_synonym count_fact = "dnat \<times> dnat \<times> dnat"

datatype ritem =
    RHdr dnat dnat
  | RAcc fact dnat dnat
  | RLen count_fact
  | RCheck fact dnat
  | RExit fact dnat
  | RSet dnat
  | RLoop "ritem list"
  | RBranch "ritem list" "ritem list"
  | RCall "fact list" "fact list" "ritem list"

function pairs_at :: "bytes \<Rightarrow> nat \<Rightarrow> fact list \<Rightarrow> (fact list \<times> nat) option" where
  "pairs_at s i out =
     (case sget s i of
        None \<Rightarrow> None
      | Some c \<Rightarrow>
          if c = CHR ''|'' then Some (out, i)
          else if is_space c then pairs_at s (i + 1) out
          else (case number s i of
                  None \<Rightarrow> None
                | Some (x, e) \<Rightarrow>
                    if sget s e \<noteq> Some (CHR '':'') then None
                    else (case number s (e + 1) of
                            None \<Rightarrow> None
                          | Some (st, e2) \<Rightarrow> pairs_at s e2 (out @ [(x, st)]))))"
  by pat_completeness auto
termination
proof (relation "measure (\<lambda>(s, i, out). length s - i)", goal_cases)
  case (2 s i out c)
  then show ?case by (auto simp: sget_Some)
next
  case (3 s i out c p x e q st e2)
  then show ?case
    using number_progress [of s i x e] number_progress [of s "e + 1" st e2] by auto
qed simp

declare pairs_at.simps [simp del]

lemma pairs_at_cases:
  assumes "pairs_at s i out = Some (r, j)"
  obtains "sget s i = Some (CHR ''|'')" "r = out" "j = i"
  | c where "sget s i = Some c" "c \<noteq> CHR ''|''" "is_space c" "pairs_at s (i + 1) out = Some (r, j)"
  | c x e st e2 where "sget s i = Some c" "c \<noteq> CHR ''|''" "\<not> is_space c"
      "number s i = Some (x, e)" "sget s e = Some (CHR '':'')" "number s (e + 1) = Some (st, e2)"
      "pairs_at s e2 (out @ [(x, st)]) = Some (r, j)"
  using assms by (subst (asm) pairs_at.simps) (auto split: option.splits if_splits)

lemma pairs_at_ge [progress]: "pairs_at s i out = Some (r, j) \<Longrightarrow> i \<le> j"
proof (induction s i out rule: pairs_at.induct)
  case (1 s i out)
  from 1(3) show ?case
  proof (cases rule: pairs_at_cases)
    case (2 c)
    then show ?thesis using 1(1) [OF 2(1,2,3,4)] by simp
  next
    case (3 c x e st e2)
    then show ?thesis
      using 1(2) [OF 3(1,2,3,4) refl _ 3(6) refl 3(7)] number_progress [OF 3(4)] number_progress [OF 3(6)]
      by simp
  qed simp
qed

definition fact_wf :: "fact \<Rightarrow> bool" where
  "fact_wf f \<longleftrightarrow> wf_nat (fst f) \<and> wf_nat (snd f)"

lemma pairs_at_wf:
  "pairs_at s i out = Some (r, j) \<Longrightarrow> \<forall>f \<in> set out. fact_wf f \<Longrightarrow> \<forall>f \<in> set r. fact_wf f"
proof (induction s i out rule: pairs_at.induct)
  case (1 s i out)
  from 1(3) show ?case
  proof (cases rule: pairs_at_cases)
    case 1
    then show ?thesis using "1.prems"(2) by simp
  next
    case (2 c)
    then show ?thesis using "1.IH"(1) [OF 2(1,2,3,4)] "1.prems"(2) by simp
  next
    case (3 c x e st e2)
    have "fact_wf (x, st)"
      using number_wf [OF 3(4)] number_wf [OF 3(6)] by (simp add: fact_wf_def)
    then have "\<forall>f \<in> set (out @ [(x, st)]). fact_wf f"
      using "1.prems"(2) by simp
    moreover have "\<not> sget s e \<noteq> Some (CHR '':'')"
      using 3(5) by simp
    ultimately show ?thesis
      using "1.IH"(2) [OF 3(1,2,3,4) refl _ 3(6) refl 3(7)] by blast
  qed
qed

text \<open>The items of one letter and their numbers.\<close>

definition item3 :: "byte \<Rightarrow> dnat list \<Rightarrow> ritem option" where
  "item3 c v = (case v of
     [a, b, d] \<Rightarrow> Some (
       if c = CHR ''h'' \<or> c = CHR ''H'' then RHdr b d
       else if c = CHR ''n'' then RLen (a, b, d)
       else if c = CHR ''c'' then RCheck (a, d) b
       else RExit (a, d) b)
   | _ \<Rightarrow> None)"

definition item4 :: "dnat list \<Rightarrow> ritem option" where
  "item4 v = (case v of [x, st, o', w] \<Rightarrow> Some (RAcc (x, st) o' w) | _ \<Rightarrow> None)"

definition rends :: "byte \<Rightarrow> bool" where
  "rends c \<longleftrightarrow> c = CHR ''}'' \<or> c = CHR ''|'' \<or> c = CHR '';''"

text \<open>The items that hold no sequence: \<open>h H n c e\<close>, \<open>a w\<close> and \<open>s\<close>.\<close>

definition flat_item :: "byte \<Rightarrow> bytes \<Rightarrow> nat \<Rightarrow> (ritem \<times> nat) option" where
  "flat_item c s i =
     (if c \<in> set ''hHnce'' then
        do { (v, e) \<leftarrow> nums s (i + 1) 3; it \<leftarrow> item3 c v; Some (it, e) }
      else if c \<in> set ''aw'' then
        do { (v, e) \<leftarrow> nums s (i + 1) 4; it \<leftarrow> item4 v; Some (it, e) }
      else
        do { (x, e) \<leftarrow> number s (i + 1); Some (RSet x, e) })"

function rprog_at :: "bytes \<Rightarrow> nat \<Rightarrow> ritem list \<Rightarrow> (ritem list \<times> nat) option" where
  "rprog_at s i its =
     (case sget s i of
        None \<Rightarrow> Some (its, i)
      | Some c \<Rightarrow>
          if rends c then Some (its, i)
          else if is_space c then rprog_at s (i + 1) its
          else if c \<in> set ''hHnceaws'' then
            (case flat_item c s i of
               None \<Rightarrow> None
             | Some (it, e) \<Rightarrow> rprog_at s e (its @ [it]))
          else if c = CHR ''L'' then
            (if sget s (i + 1) \<noteq> Some (CHR ''{'') then None
             else case rprog_at s (i + 2) [] of
                    None \<Rightarrow> None
                  | Some (body, j) \<Rightarrow>
                      if sget s j \<noteq> Some (CHR ''}'') then None
                      else rprog_at s (j + 1) (its @ [RLoop body]))
          else if c = CHR ''B'' then
            (if sget s (i + 1) \<noteq> Some (CHR ''{'') then None
             else case rprog_at s (i + 2) [] of
                    None \<Rightarrow> None
                  | Some (thn, j) \<Rightarrow>
                      if sget s j \<noteq> Some (CHR ''|'') then None
                      else case rprog_at s (j + 1) [] of
                             None \<Rightarrow> None
                           | Some (els, k) \<Rightarrow>
                               if sget s k \<noteq> Some (CHR ''}'') then None
                               else rprog_at s (k + 1) (its @ [RBranch thn els]))
          else if c = CHR ''C'' then
            (if sget s (i + 1) \<noteq> Some (CHR ''{'') then None
             else case pairs_at s (i + 2) [] of
                    None \<Rightarrow> None
                  | Some (req, j) \<Rightarrow>
                      (case pairs_at s (j + 1) [] of
                         None \<Rightarrow> None
                       | Some (ens, k) \<Rightarrow>
                           (case rprog_at s (k + 1) [] of
                              None \<Rightarrow> None
                            | Some (body, l) \<Rightarrow>
                                if sget s l \<noteq> Some (CHR ''}'') then None
                                else rprog_at s (l + 1) (its @ [RCall req ens body]))))
          else None)"
  by pat_completeness auto

lemma flat_item_cases:
  assumes "flat_item c s i = Some (it, e)"
  obtains v where "nums s (i + 1) 3 = Some (v, e)" "item3 c v = Some it"
  | v where "nums s (i + 1) 4 = Some (v, e)" "item4 v = Some it"
  | x where "number s (i + 1) = Some (x, e)" "it = RSet x"
proof (cases "c \<in> set ''hHnce''")
  case True
  show ?thesis
    using assms that(1) unfolding flat_item_def if_P [OF True] by (auto simp: bind_Some_iff)
next
  case not3: False
  show ?thesis
  proof (cases "c \<in> set ''aw''")
    case True
    show ?thesis
      using assms that(2) unfolding flat_item_def if_not_P [OF not3] if_P [OF True]
      by (auto simp: bind_Some_iff)
  next
    case False
    show ?thesis
      using assms that(3) unfolding flat_item_def if_not_P [OF not3] if_not_P [OF False]
      by (auto simp: bind_Some_iff)
  qed
qed

lemma flat_item_ge: "flat_item c s i = Some (it, e) \<Longrightarrow> i < e"
proof (erule flat_item_cases)
  fix v
  show "nums s (i + 1) 3 = Some (v, e) \<Longrightarrow> i < e" "nums s (i + 1) 4 = Some (v, e) \<Longrightarrow> i < e"
    using nums_progress [of s "i + 1" _ v e] by fastforce+
next
  fix x
  show "number s (i + 1) = Some (x, e) \<Longrightarrow> i < e"
    using number_progress [of s "i + 1" x e] by simp
qed

lemma rprog_at_forward:
  "rprog_at_dom (s, i, its) \<Longrightarrow> rprog_at s i its = Some (r, j) \<Longrightarrow> i \<le> j"
proof (induction s i its arbitrary: r j rule: rprog_at.pinduct)
  case (1 s i its)
  note IH = 1(2-)
  show ?case
  proof (cases "sget s i")
    case None
    then show ?thesis using 1 by (simp add: rprog_at.psimps)
  next
    case (Some c)
    note res = "1.prems" [unfolded rprog_at.psimps [OF 1(1)] Some option.case]
    let ?F = "c \<in> set ''hHnceaws''"
    consider "rends c" | "\<not> rends c" "is_space c" | "\<not> rends c" "\<not> is_space c" ?F
      | "\<not> rends c" "\<not> is_space c" "\<not> ?F" "c = CHR ''L''"
      | "\<not> rends c" "\<not> is_space c" "\<not> ?F" "c \<noteq> CHR ''L''" "c = CHR ''B''"
      | "\<not> rends c" "\<not> is_space c" "\<not> ?F" "c \<noteq> CHR ''L''" "c \<noteq> CHR ''B''" "c = CHR ''C''"
      | "\<not> rends c" "\<not> is_space c" "\<not> ?F" "c \<noteq> CHR ''L''" "c \<noteq> CHR ''B''" "c \<noteq> CHR ''C''"
      by blast
    then show ?thesis
    proof cases
      case 1
      then show ?thesis using res by simp
    next
      case 2
      then show ?thesis using res IH(1) [OF Some 2] by fastforce
    next
      case 3
      then obtain it e where f: "flat_item c s i = Some (it, e)" "rprog_at s e (its @ [it]) = Some (r, j)"
        using res by (auto split: option.splits)
      then show ?thesis
        using IH(2) [OF Some 3 f(1) refl f(2)] flat_item_ge [OF f(1)] by simp
    next
      case 4
      then obtain body k where b: "sget s (i + 1) = Some (CHR ''{'')" "rprog_at s (i + 2) [] = Some (body, k)"
        "sget s k = Some (CHR ''}'')" "rprog_at s (k + 1) (its @ [RLoop body]) = Some (r, j)"
        using res by (auto split: option.splits if_splits)
      have "i + 2 \<le> k"
        using IH(3) [OF Some 4 _ b(2)] b(1) by simp
      moreover have "k + 1 \<le> j"
        using IH(4) [OF Some 4 _ b(2) refl _ b(4)] b(1,3) by simp
      ultimately show ?thesis by simp
    next
      case 5
      then obtain thn k els l where b: "sget s (i + 1) = Some (CHR ''{'')" "rprog_at s (i + 2) [] = Some (thn, k)"
        "sget s k = Some (CHR ''|'')" "rprog_at s (k + 1) [] = Some (els, l)"
        "sget s l = Some (CHR ''}'')" "rprog_at s (l + 1) (its @ [RBranch thn els]) = Some (r, j)"
        using res by (auto split: option.splits if_splits)
      have "i + 2 \<le> k"
        using IH(5) [OF Some 5 _ b(2)] b(1) by simp
      moreover have "k + 1 \<le> l"
        using IH(6) [OF Some 5 _ b(2) refl _ b(4)] b(1,3) by simp
      moreover have "l + 1 \<le> j"
        using IH(7) [OF Some 5 _ b(2) refl _ b(4) refl _ b(6)] b(1,3,5) by simp
      ultimately show ?thesis by simp
    next
      case 6
      then obtain req k ens l body m where b: "sget s (i + 1) = Some (CHR ''{'')"
        "pairs_at s (i + 2) [] = Some (req, k)" "pairs_at s (k + 1) [] = Some (ens, l)"
        "rprog_at s (l + 1) [] = Some (body, m)" "sget s m = Some (CHR ''}'')"
        "rprog_at s (m + 1) (its @ [RCall req ens body]) = Some (r, j)"
        using res by (auto split: option.splits if_splits)
      have "i + 2 \<le> k" "k + 1 \<le> l"
        using pairs_at_ge [OF b(2)] pairs_at_ge [OF b(3)] by simp_all
      moreover have "l + 1 \<le> m"
        using IH(8) [OF Some 6 _ b(2) refl b(3) refl b(4)] b(1) by simp
      moreover have "m + 1 \<le> j"
        using IH(9) [OF Some 6 _ b(2) refl b(3) refl b(4) refl _ b(6)] b(1,5) by simp
      ultimately show ?thesis by simp
    next
      case 7
      then show ?thesis using res by simp
    qed
  qed
qed

lemma rprog_at_total: "All rprog_at_dom"
proof (rule "rprog_at.termination" [of "measure (\<lambda>(s, i, its). length s - i)"], goal_cases)
  case 1
  then show ?case by simp
next
  case (2 s i its c)
  then show ?case by (auto simp: sget_Some)
next
  case (3 s i its c p it e)
  then show ?case using flat_item_ge [of c s i it e] by (auto simp: sget_Some)
next
  case (4 s i its c)
  then show ?case by (auto simp: sget_Some)
next
  case (5 s i its c p body j)
  then show ?case using rprog_at_forward [of s "i + 2" "[]" body j] by (auto simp: sget_Some)
next
  case (6 s i its c)
  then show ?case by (auto simp: sget_Some)
next
  case (7 s i its c p thn j)
  then show ?case using rprog_at_forward [of s "i + 2" "[]" thn j] by (auto simp: sget_Some)
next
  case (8 s i its c p thn j q els k)
  then show ?case
    using rprog_at_forward [of s "i + 2" "[]" thn j] rprog_at_forward [of s "j + 1" "[]" els k]
    by (auto simp: sget_Some)
next
  case (9 s i its c p req j q ens k)
  then show ?case
    using pairs_at_ge [of s "i + 2" "[]" req j] pairs_at_ge [of s "j + 1" "[]" ens k]
    by (auto simp: sget_Some)
next
  case (10 s i its c p req j q ens k r body l)
  then show ?case
    using pairs_at_ge [of s "i + 2" "[]" req j] pairs_at_ge [of s "j + 1" "[]" ens k]
      rprog_at_forward [of s "k + 1" "[]" body l]
    by (auto simp: sget_Some)
qed

termination rprog_at
  by (rule rprog_at_total)

declare rprog_at.simps [simp del]

lemma rprog_at_ge [progress]: "rprog_at s i its = Some (r, j) \<Longrightarrow> i \<le> j"
  using rprog_at_forward rprog_at_total by blast

text \<open>Every number of a parsed program is canonical.\<close>

fun ritems_wf :: "ritem list \<Rightarrow> bool" where
  "ritems_wf [] \<longleftrightarrow> True"
| "ritems_wf (RHdr o' w # its) \<longleftrightarrow> wf_nat o' \<and> wf_nat w \<and> ritems_wf its"
| "ritems_wf (RAcc f o' w # its) \<longleftrightarrow> fact_wf f \<and> wf_nat o' \<and> wf_nat w \<and> ritems_wf its"
| "ritems_wf (RLen c # its) \<longleftrightarrow> wf_nat (snd (snd c)) \<and> ritems_wf its"
| "ritems_wf (RCheck f n # its) \<longleftrightarrow> fact_wf f \<and> ritems_wf its"
| "ritems_wf (RExit f n # its) \<longleftrightarrow> fact_wf f \<and> ritems_wf its"
| "ritems_wf (RSet x # its) \<longleftrightarrow> ritems_wf its"
| "ritems_wf (RLoop body # its) \<longleftrightarrow> ritems_wf body \<and> ritems_wf its"
| "ritems_wf (RBranch t e # its) \<longleftrightarrow> ritems_wf t \<and> ritems_wf e \<and> ritems_wf its"
| "ritems_wf (RCall req ens body # its) \<longleftrightarrow>
     (\<forall>f \<in> set req. fact_wf f) \<and> (\<forall>f \<in> set ens. fact_wf f) \<and> ritems_wf body \<and> ritems_wf its"

lemma ritems_wf_Cons: "ritems_wf (it # its) \<longleftrightarrow> ritems_wf [it] \<and> ritems_wf its"
  by (cases it) auto

lemma ritems_wf_append [simp]: "ritems_wf (xs @ ys) \<longleftrightarrow> ritems_wf xs \<and> ritems_wf ys"
proof (induction xs)
  case (Cons x xs)
  then show ?case
    using ritems_wf_Cons [of x "xs @ ys"] ritems_wf_Cons [of x xs] by simp
qed simp

lemma flat_item_wf:
  assumes "flat_item c s i = Some (it, e)"
  shows "ritems_wf [it]"
  using assms
proof (cases rule: flat_item_cases)
  case (1 v)
  then show ?thesis
    using nums_wf [OF 1(1)] by (auto simp: item3_def fact_wf_def split: list.splits if_splits)
next
  case (2 v)
  then show ?thesis
    using nums_wf [OF 2(1)] by (auto simp: item4_def fact_wf_def split: list.splits)
qed simp

lemma rprog_at_wf:
  "rprog_at s i its = Some (r, j) \<Longrightarrow> ritems_wf its \<Longrightarrow> ritems_wf r"
proof (induction s i its arbitrary: r j rule: rprog_at.induct)
  case (1 s i its)
  note IH = "1.IH"
  show ?case
  proof (cases "sget s i")
    case None
    then show ?thesis using "1.prems" by (simp add: rprog_at.simps)
  next
    case (Some c)
    note res = "1.prems"(1) [unfolded rprog_at.simps [of s i] Some option.case]
    let ?F = "c \<in> set ''hHnceaws''"
    consider "rends c" | "\<not> rends c" "is_space c" | "\<not> rends c" "\<not> is_space c" ?F
      | "\<not> rends c" "\<not> is_space c" "\<not> ?F" "c = CHR ''L''"
      | "\<not> rends c" "\<not> is_space c" "\<not> ?F" "c \<noteq> CHR ''L''" "c = CHR ''B''"
      | "\<not> rends c" "\<not> is_space c" "\<not> ?F" "c \<noteq> CHR ''L''" "c \<noteq> CHR ''B''" "c = CHR ''C''"
      | "\<not> rends c" "\<not> is_space c" "\<not> ?F" "c \<noteq> CHR ''L''" "c \<noteq> CHR ''B''" "c \<noteq> CHR ''C''"
      by blast
    then show ?thesis
    proof cases
      case 1
      then show ?thesis using res "1.prems"(2) by simp
    next
      case 2
      then show ?thesis using res IH(1) [OF Some 2] "1.prems"(2) by fastforce
    next
      case 3
      then obtain it e where f: "flat_item c s i = Some (it, e)" "rprog_at s e (its @ [it]) = Some (r, j)"
        using res by (auto split: option.splits)
      then show ?thesis
        using IH(2) [OF Some 3 f(1) refl f(2)] flat_item_wf [OF f(1)] "1.prems"(2) by simp
    next
      case 4
      then obtain body k where b: "sget s (i + 1) = Some (CHR ''{'')" "rprog_at s (i + 2) [] = Some (body, k)"
        "sget s k = Some (CHR ''}'')" "rprog_at s (k + 1) (its @ [RLoop body]) = Some (r, j)"
        using res by (auto split: option.splits if_splits)
      have "ritems_wf body"
        using IH(3) [OF Some 4 _ b(2)] b(1) by simp
      then show ?thesis
        using IH(4) [OF Some 4 _ b(2) refl _ b(4)] b(1,3) "1.prems"(2) by simp
    next
      case 5
      then obtain thn k els l where b: "sget s (i + 1) = Some (CHR ''{'')" "rprog_at s (i + 2) [] = Some (thn, k)"
        "sget s k = Some (CHR ''|'')" "rprog_at s (k + 1) [] = Some (els, l)"
        "sget s l = Some (CHR ''}'')" "rprog_at s (l + 1) (its @ [RBranch thn els]) = Some (r, j)"
        using res by (auto split: option.splits if_splits)
      have "ritems_wf thn"
        using IH(5) [OF Some 5 _ b(2)] b(1) by simp
      moreover have "ritems_wf els"
        using IH(6) [OF Some 5 _ b(2) refl _ b(4)] b(1,3) by simp
      ultimately show ?thesis
        using IH(7) [OF Some 5 _ b(2) refl _ b(4) refl _ b(6)] b(1,3,5) "1.prems"(2) by simp
    next
      case 6
      then obtain req k ens l body m where b: "sget s (i + 1) = Some (CHR ''{'')"
        "pairs_at s (i + 2) [] = Some (req, k)" "pairs_at s (k + 1) [] = Some (ens, l)"
        "rprog_at s (l + 1) [] = Some (body, m)" "sget s m = Some (CHR ''}'')"
        "rprog_at s (m + 1) (its @ [RCall req ens body]) = Some (r, j)"
        using res by (auto split: option.splits if_splits)
      have open_close: "\<not> sget s (i + 1) \<noteq> Some (CHR ''{'')" "\<not> sget s m \<noteq> Some (CHR ''}'')"
        using b(1,5) by simp_all
      have "ritems_wf body"
        using IH(8) [OF Some 6 open_close(1) b(2) refl b(3) refl b(4)] by simp
      moreover have "\<forall>f \<in> set req. fact_wf f" "\<forall>f \<in> set ens. fact_wf f"
        using pairs_at_wf [OF b(2)] pairs_at_wf [OF b(3)] by simp_all
      ultimately have "ritems_wf (its @ [RCall req ens body])"
        using "1.prems"(2) by simp
      then show ?thesis
        using IH(9) [OF Some 6 open_close(1) b(2) refl b(3) refl b(4) refl open_close(2) b(6)] by blast
    next
      case 7
      then show ?thesis using res by simp
    qed
  qed
qed

subsection \<open>The check\<close>

fun rkills :: "ritem list \<Rightarrow> dnat set" where
  "rkills [] = {}"
| "rkills (RSet x # its) = insert x (rkills its)"
| "rkills (RLen c # its) = insert (fst c) (rkills its)"
| "rkills (RLoop body # its) = rkills body \<union> rkills its"
| "rkills (RBranch t e # its) = rkills t \<union> rkills e \<union> rkills its"
| "rkills (RCall req ens body # its) = rkills body \<union> rkills its"
| "rkills (_ # its) = rkills its"

type_synonym rstate = "fact set \<times> count_fact set"

definition rminus :: "rstate \<Rightarrow> dnat set \<Rightarrow> rstate" where
  "rminus st ks = ({f \<in> fst st. fst f \<notin> ks}, {c \<in> snd st. fst c \<notin> ks})"

definition rmeet :: "rstate \<Rightarrow> rstate \<Rightarrow> rstate" where
  "rmeet a b = (fst a \<inter> fst b, snd a \<inter> snd b)"

definition rwithin :: "rstate \<Rightarrow> rstate \<Rightarrow> bool" where
  "rwithin a b \<longleftrightarrow> fst a \<subseteq> fst b \<and> snd a \<subseteq> snd b"

definition rforget :: "rstate \<Rightarrow> dnat \<Rightarrow> rstate" where
  "rforget st x = ({f \<in> fst st. fst f \<noteq> x}, {c \<in> snd st. fst c \<noteq> x})"

fun rcheck_loop :: "rstate \<Rightarrow> rstate list \<Rightarrow> ritem list \<Rightarrow> rstate option" where
  "rcheck_loop st left [] = Some (foldl rmeet st left)"
| "rcheck_loop st left (RHdr o' w # its) = (if \<not> in_hdr o' w then None else rcheck_loop st left its)"
| "rcheck_loop st left (RAcc f o' w # its) =
     (if f \<notin> fst st \<or> \<not> in_slot (snd f) o' w then None else rcheck_loop st left its)"
| "rcheck_loop st left (RLen c # its) =
     (if \<not> positive (snd (snd c)) then None
      else let (kn, cn) = rforget st (fst c) in rcheck_loop (kn, insert c cn) left its)"
| "rcheck_loop st left (RCheck f n # its) =
     (if (n, fst f, snd f) \<notin> snd st then None else rcheck_loop (insert f (fst st), snd st) left its)"
| "rcheck_loop st left (RExit f n # its) =
     (if (n, fst f, snd f) \<notin> snd st then None
      else rcheck_loop (insert f (fst st), snd st) (left @ [st]) its)"
| "rcheck_loop st left (RSet x # its) = rcheck_loop (rforget st x) left its"
| "rcheck_loop st left (RLoop body # its) =
     (let s0 = rminus st (rkills body)
      in case rcheck_loop s0 [] body of
           None \<Rightarrow> None
         | Some sb \<Rightarrow> if \<not> rwithin s0 sb then None else rcheck_loop s0 left its)"
| "rcheck_loop st left (RBranch t e # its) =
     (case rcheck_loop st [] t of
        None \<Rightarrow> None
      | Some a \<Rightarrow>
          (case rcheck_loop st [] e of
             None \<Rightarrow> None
           | Some b \<Rightarrow> rcheck_loop (rmeet a b) left its))"
| "rcheck_loop st left (RCall req ens body # its) =
     (if \<not> list_all (\<lambda>f. f \<in> fst st) req then None
      else case rcheck_loop (set req, {}) [] body of
             None \<Rightarrow> None
           | Some (kb, _) \<Rightarrow>
               if \<not> list_all (\<lambda>f. f \<in> kb) ens then None
               else let (kn, cn) = rminus st (rkills body)
                    in rcheck_loop (kn \<union> set ens, cn) left its)"

definition raccepts :: "ritem list \<Rightarrow> bool" where
  "raccepts its \<longleftrightarrow> rcheck_loop ({}, {}) [] its \<noteq> None"

subsection \<open>Runs of a routine\<close>

text \<open>
  Every slot names a block of a 12-byte header and \<open>cap\<close> payload bytes; a slot's value is an
  \<open>i64\<close>. An access at stride \<open>s\<close> touches \<open>w\<close> bytes at \<open>12 + value * s + o\<close>; a count read
  from the block is any value with \<open>0 \<le> n\<close> and \<open>n * s \<le> cap\<close>; a test is one unsigned compare.
\<close>

type_synonym caps = "dnat \<Rightarrow> nat"
type_synonym slots = "dnat \<Rightarrow> 64 word"

definition caps_wf :: "caps \<Rightarrow> bool" where
  "caps_wf C \<longleftrightarrow> (\<forall>x. C x < 2 ^ 63)"

definition bytes_in :: "int \<Rightarrow> int \<Rightarrow> int \<Rightarrow> int \<Rightarrow> bool" where
  "bytes_in off w lo hi \<longleftrightarrow> lo \<le> off \<and> off + w \<le> hi"

definition payload_in :: "caps \<Rightarrow> fact \<Rightarrow> dnat \<Rightarrow> dnat \<Rightarrow> slots \<Rightarrow> bool" where
  "payload_in C f o' w e =
     bytes_in (12 + sint (e (fst f)) * int (dval (snd f)) + int (dval o')) (int (dval w))
       12 (12 + int (C (fst f)))"

definition hdr_in :: "dnat \<Rightarrow> dnat \<Rightarrow> bool" where
  "hdr_in o' w = bytes_in (int (dval o')) (int (dval w)) 0 12"

definition count_ok :: "caps \<Rightarrow> dnat \<Rightarrow> dnat \<Rightarrow> 64 word \<Rightarrow> bool" where
  "count_ok C x st v \<longleftrightarrow> 0 \<le> sint v \<and> sint v * int (dval st) \<le> int (C x)"

inductive rrun :: "caps \<Rightarrow> slots \<Rightarrow> ritem list \<Rightarrow> slots outcome \<Rightarrow> bool" for C where
  finish: "rrun C e [] (Done e)"
| hdr: "hdr_in o' w \<Longrightarrow> rrun C e k r \<Longrightarrow> rrun C e (RHdr o' w # k) r"
| hdr_fault: "\<not> hdr_in o' w \<Longrightarrow> rrun C e (RHdr o' w # k) Fault"
| access: "payload_in C f o' w e \<Longrightarrow> rrun C e k r \<Longrightarrow> rrun C e (RAcc f o' w # k) r"
| access_fault: "\<not> payload_in C f o' w e \<Longrightarrow> rrun C e (RAcc f o' w # k) Fault"
| len: "count_ok C x st v \<Longrightarrow> rrun C (e(n := v)) k r \<Longrightarrow> rrun C e (RLen (n, x, st) # k) r"
| pass: "e (fst f) < e n \<Longrightarrow> rrun C e k r \<Longrightarrow> rrun C e (RCheck f n # k) r"
| abort: "\<not> e (fst f) < e n \<Longrightarrow> rrun C e (RCheck f n # k) Aborted"
| stay: "e (fst f) < e n \<Longrightarrow> rrun C e k r \<Longrightarrow> rrun C e (RExit f n # k) r"
| leave: "\<not> e (fst f) < e n \<Longrightarrow> rrun C e (RExit f n # k) (Done e)"
| assign: "rrun C (e(x := v)) k r \<Longrightarrow> rrun C e (RSet x # k) r"
| loop_out: "rrun C e k r \<Longrightarrow> rrun C e (RLoop body # k) r"
| loop_on: "rrun C e body (Done e') \<Longrightarrow> rrun C e' (RLoop body # k) r \<Longrightarrow> rrun C e (RLoop body # k) r"
| loop_stop: "rrun C e body r \<Longrightarrow> (\<And>e'. r \<noteq> Done e') \<Longrightarrow> rrun C e (RLoop body # k) r"
| arm: "arm = t \<or> arm = f \<Longrightarrow> rrun C e arm (Done e') \<Longrightarrow> rrun C e' k r \<Longrightarrow> rrun C e (RBranch t f # k) r"
| arm_stop: "arm = t \<or> arm = f \<Longrightarrow> rrun C e arm r \<Longrightarrow> (\<And>e'. r \<noteq> Done e') \<Longrightarrow> rrun C e (RBranch t f # k) r"
| call: "rrun C e body (Done e') \<Longrightarrow> rrun C e' k r \<Longrightarrow> rrun C e (RCall req ens body # k) r"
| call_stop: "rrun C e body r \<Longrightarrow> (\<And>e'. r \<noteq> Done e') \<Longrightarrow> rrun C e (RCall req ens body # k) r"

text \<open>What the walk knows: a slot in bounds at a stride, and a count of a block at a stride.\<close>

definition slot_known :: "caps \<Rightarrow> fact \<Rightarrow> slots \<Rightarrow> bool" where
  "slot_known C f e \<longleftrightarrow>
     0 \<le> sint (e (fst f)) \<and> (sint (e (fst f)) + 1) * int (dval (snd f)) \<le> int (C (fst f))"

definition count_known :: "caps \<Rightarrow> count_fact \<Rightarrow> slots \<Rightarrow> bool" where
  "count_known C c e \<longleftrightarrow> count_ok C (fst (snd c)) (snd (snd c)) (e (fst c))"

interpretation rk: slot_facts fst "slot_known C" for C
  by unfold_locales (simp add: slot_known_def)

interpretation rc: slot_facts fst "count_known C" for C
  by unfold_locales (simp add: count_known_def)

definition rholds :: "caps \<Rightarrow> rstate \<Rightarrow> slots \<Rightarrow> bool" where
  "rholds C st e \<longleftrightarrow> rk.known C (fst st) e \<and> rc.known C (snd st) e"

lemma rholds_within: "rwithin a b \<Longrightarrow> rholds C b e \<Longrightarrow> rholds C a e"
  by (auto simp: rwithin_def rholds_def intro: rk.known_sub rc.known_sub)

lemma rwithin_trans: "rwithin a b \<Longrightarrow> rwithin b c \<Longrightarrow> rwithin a c"
  by (auto simp: rwithin_def)

lemma rmeet_within: "rwithin (rmeet a b) a" "rwithin (rmeet a b) b"
  by (auto simp: rwithin_def rmeet_def)

lemma rminus_within: "rwithin (rminus a ks) a"
  by (auto simp: rwithin_def rminus_def)

lemma rmeets_within: "rwithin (foldl rmeet st left) st"
proof (induction left arbitrary: st)
  case Nil
  then show ?case by (simp add: rwithin_def)
next
  case (Cons l left)
  from Cons.IH [of "rmeet st l"] show ?case
    using rmeet_within(1) rwithin_trans by (metis foldl_Cons)
qed

lemma rmeets_left: "l \<in> set left \<Longrightarrow> rwithin (foldl rmeet st left) l"
proof (induction left arbitrary: st)
  case (Cons m left)
  show ?case
  proof (cases "l = m")
    case True
    with rmeets_within [of "rmeet st m" left] show ?thesis
      using rmeet_within(2) rwithin_trans by (metis foldl_Cons)
  next
    case False
    with Cons show ?thesis by simp
  qed
qed simp

lemma rcheck_left: "rcheck_loop st left its = Some st' \<Longrightarrow> l \<in> set left \<Longrightarrow> rwithin st' l"
  by (induction st left its arbitrary: st' rule: rcheck_loop.induct)
    (auto simp: Let_def rmeets_left split: if_splits option.splits prod.splits)

lemma rholds_write: "rholds C st e \<Longrightarrow> rholds C (rforget st x) (e(x := v))"
  using rk.known_write rc.known_write by (simp add: rholds_def rforget_def)

lemma rholds_minus:
  "rholds C st e \<Longrightarrow> (\<And>x. x \<notin> ks \<Longrightarrow> e' x = e x) \<Longrightarrow> rholds C (rminus st ks) e'"
  unfolding rholds_def rminus_def fst_conv snd_conv by (blast intro: rk.known_minus rc.known_minus)

text \<open>A run changes only the slots its items name.\<close>

lemma rrun_frame: "rrun C e its r \<Longrightarrow> r = Done e' \<Longrightarrow> x \<notin> rkills its \<Longrightarrow> e' x = e x"
  by (induction arbitrary: e' rule: rrun.induct) auto

text \<open>The test against a count puts the slot in bounds at its stride.\<close>

lemma test_known:
  assumes "caps_wf C" and "count_known C (n, fst f, snd f) e" and "e (fst f) < e n"
  shows "slot_known C f e"
proof -
  let ?v = "e (fst f)" and ?n = "e n"
  have n: "0 \<le> sint ?n" "sint ?n * int (dval (snd f)) \<le> int (C (fst f))"
    using assms(2) by (simp_all add: count_known_def count_ok_def)
  have un: "sint ?n = int (unat ?n)" and small: "unat ?n < 2 ^ 63"
    using sint_nonneg [OF n(1)] by simp_all
  have lt: "unat ?v < unat ?n"
    using assms(3) by (simp add: word_less_nat_alt)
  then have v: "sint ?v = int (unat ?v)"
    using small by (intro sint_small) linarith
  have "(sint ?v + 1) * int (dval (snd f)) \<le> sint ?n * int (dval (snd f))"
  proof (rule mult_right_mono)
    show "sint ?v + 1 \<le> sint ?n"
      unfolding v un using lt by linarith
  qed simp
  with n(2) v show ?thesis
    by (simp add: slot_known_def)
qed

text \<open>A known slot's access inside its stride is inside the payload.\<close>

lemma known_access:
  assumes "slot_known C f e" and "fact_wf f" and "wf_nat o'" and "wf_nat w" and "in_slot (snd f) o' w"
  shows "payload_in C f o' w e"
proof -
  let ?v = "sint (e (fst f))" and ?s = "int (dval (snd f))"
  have s: "int (dval o') + int (dval w) \<le> ?s"
    using assms(2-5) in_slot_val [of "snd f" o' w] by (simp add: fact_wf_def)
  have "0 \<le> ?v * ?s" and "?v * ?s + ?s \<le> int (C (fst f))"
    using assms(1) by (simp_all add: slot_known_def algebra_simps)
  with s show ?thesis
    by (simp add: payload_in_def bytes_in_def)
qed

subsection \<open>Soundness\<close>

definition rends_ok :: "caps \<Rightarrow> rstate \<Rightarrow> slots outcome \<Rightarrow> bool" where
  "rends_ok C st r = (case r of Done e \<Rightarrow> rholds C st e | Aborted \<Rightarrow> True | Fault \<Rightarrow> False)"

lemma rends_stop: "rends_ok C st r \<Longrightarrow> (\<And>e'. r \<noteq> Done e') \<Longrightarrow> rends_ok C st' r"
  by (auto simp: rends_ok_def split: outcome.splits)

lemma rloop_again:
  "rcheck_loop st left (RLoop body # its) = Some st' \<Longrightarrow>
    \<exists>sb. rcheck_loop (rminus st (rkills body)) [] body = Some sb \<and> rwithin (rminus st (rkills body)) sb \<and>
      rcheck_loop (rminus st (rkills body)) left its = Some st' \<and>
      rcheck_loop (rminus st (rkills body)) left (RLoop body # its) = Some st'"
  by (auto simp: Let_def rminus_def split: option.splits if_splits)

lemma rcall_steps:
  assumes "rcheck_loop st left (RCall req ens body # its) = Some st'"
  shows "\<exists>kb cb. set req \<subseteq> fst st \<and> rcheck_loop (set req, {}) [] body = Some (kb, cb) \<and> set ens \<subseteq> kb \<and>
    rcheck_loop (fst (rminus st (rkills body)) \<union> set ens, snd (rminus st (rkills body))) left its = Some st'"
  using assms by (auto simp: list_all_iff split: option.splits if_splits prod.splits)

lemma rrun_sound:
  assumes "rrun C e its r" and "caps_wf C"
    and "rcheck_loop st left its = Some st'" and "ritems_wf its" and "rholds C st e"
  shows "rends_ok C st' r"
  using assms(1,3,4,5)
proof (induction arbitrary: st left st' rule: rrun.induct)
  case (finish e)
  then have "st' = foldl rmeet st left" by simp
  then show ?case
    using rholds_within [OF rmeets_within finish.prems(3), of left] by (simp only: rends_ok_def outcome.case)
next
  case (hdr o' w e k r)
  then show ?case by (auto split: if_splits)
next
  case (hdr_fault o' w e k)
  then have "in_hdr o' w" by (auto split: if_splits)
  then show ?case
    using hdr_fault by (simp add: in_hdr_val hdr_in_def bytes_in_def)
next
  case (access f o' w e k r)
  then show ?case by (auto split: if_splits)
next
  case (access_fault f o' w e k)
  then have "slot_known C f e" "in_slot (snd f) o' w" "fact_wf f" "wf_nat o'" "wf_nat w"
    by (auto simp: rholds_def rk.known_def split: if_splits)
  then show ?case
    using known_access access_fault.hyps by blast
next
  case (len x st0 v e n k r)
  have "rholds C (fst (rforget st n), insert (n, x, st0) (snd (rforget st n))) (e(n := v))"
    using rholds_write [OF len.prems(3)] len.hyps(1) by (simp add: rholds_def count_known_def)
  moreover have "rcheck_loop (fst (rforget st n), insert (n, x, st0) (snd (rforget st n))) left k = Some st'"
    using len.prems(1) by (auto simp: Let_def split: if_splits prod.splits)
  moreover have "ritems_wf k"
    using len.prems(2) by simp
  ultimately show ?case
    using len.IH by blast
next
  case (pass e f n k r)
  then have "count_known C (n, fst f, snd f) e"
    by (auto simp: rholds_def rc.known_def split: if_splits)
  then have "rholds C (insert f (fst st), snd st) e"
    using test_known [OF assms(2) _ pass.hyps(1)] pass.prems(3) by (simp add: rholds_def)
  then show ?case
    using pass.IH pass.prems(1,2) by (auto split: if_splits)
next
  case (abort e f n k)
  then show ?case by (simp add: rends_ok_def)
next
  case (stay e f n k r)
  then have "count_known C (n, fst f, snd f) e"
    by (auto simp: rholds_def rc.known_def split: if_splits)
  then have "rholds C (insert f (fst st), snd st) e"
    using test_known [OF assms(2) _ stay.hyps(1)] stay.prems(3) by (simp add: rholds_def)
  then show ?case
    using stay.IH stay.prems(1,2) by (auto split: if_splits)
next
  case (leave e f n k)
  then have "rwithin st' st"
    using rcheck_left by (fastforce split: if_splits)
  then show ?case
    using rholds_within leave.prems(3) by (auto simp: rends_ok_def)
next
  case (assign e x v k r)
  then show ?case
    using rholds_write by (metis rcheck_loop.simps(7) ritems_wf.simps(7))
next
  case (loop_out e k r body)
  obtain sb where sb: "rcheck_loop (rminus st (rkills body)) left k = Some st'"
    using rloop_again [OF loop_out.prems(1)] by blast
  then show ?case
    using loop_out.IH [OF sb] loop_out.prems(2,3) rholds_within [OF rminus_within] by simp
next
  case (loop_on e body e' k r)
  obtain sb where sb: "rcheck_loop (rminus st (rkills body)) [] body = Some sb"
    "rwithin (rminus st (rkills body)) sb"
    "rcheck_loop (rminus st (rkills body)) left (RLoop body # k) = Some st'"
    using rloop_again [OF loop_on.prems(1)] by blast
  have "rholds C (rminus st (rkills body)) e"
    using rholds_within [OF rminus_within] loop_on.prems(3) by blast
  then have "rholds C sb e'"
    using loop_on.IH(1) [OF sb(1)] loop_on.prems(2) by (simp add: rends_ok_def)
  then show ?case
    using loop_on.IH(2) [OF sb(3)] loop_on.prems(2) rholds_within [OF sb(2)] by simp
next
  case (loop_stop e body r k)
  obtain sb where sb: "rcheck_loop (rminus st (rkills body)) [] body = Some sb"
    using rloop_again [OF loop_stop.prems(1)] by blast
  have "rends_ok C sb r"
    using loop_stop.IH [OF sb] loop_stop.prems(2,3) rholds_within [OF rminus_within] by simp
  then show ?case
    using loop_stop.hyps(2) by (rule rends_stop)
next
  case (arm arm t f e e' k r)
  then obtain a b where ab: "rcheck_loop st [] t = Some a" "rcheck_loop st [] f = Some b"
    "rcheck_loop (rmeet a b) left k = Some st'"
    by (auto split: option.splits)
  have wf: "ritems_wf t" "ritems_wf f"
    using arm.prems(2) by simp_all
  have "rends_ok C a (Done e') \<or> rends_ok C b (Done e')"
    using arm.hyps(1)
  proof
    assume "arm = t"
    from arm.IH(1) [unfolded this, OF ab(1) wf(1) arm.prems(3)] show ?thesis ..
  next
    assume "arm = f"
    from arm.IH(1) [unfolded this, OF ab(2) wf(2) arm.prems(3)] show ?thesis ..
  qed
  then have "rholds C a e' \<or> rholds C b e'"
    by (simp add: rends_ok_def)
  then have "rholds C (rmeet a b) e'"
    using rholds_within [OF rmeet_within(1)] rholds_within [OF rmeet_within(2)] by blast
  then show ?case
    using arm.IH(2) [OF ab(3)] arm.prems(2) by simp
next
  case (arm_stop arm t f e r k)
  then obtain a b where ab: "rcheck_loop st [] t = Some a" "rcheck_loop st [] f = Some b"
    by (auto split: option.splits)
  have wf: "ritems_wf t" "ritems_wf f"
    using arm_stop.prems(2) by simp_all
  have "rends_ok C a r \<or> rends_ok C b r"
    using arm_stop.hyps(1)
  proof
    assume "arm = t"
    from arm_stop.IH [unfolded this, OF ab(1) wf(1) arm_stop.prems(3)] show ?thesis ..
  next
    assume "arm = f"
    from arm_stop.IH [unfolded this, OF ab(2) wf(2) arm_stop.prems(3)] show ?thesis ..
  qed
  then show ?case
    using rends_stop arm_stop.hyps(3) by blast
next
  case (call e body e' k r req ens)
  obtain kb cb where c: "set req \<subseteq> fst st" "rcheck_loop (set req, {}) [] body = Some (kb, cb)" "set ens \<subseteq> kb"
    "rcheck_loop (fst (rminus st (rkills body)) \<union> set ens, snd (rminus st (rkills body))) left k = Some st'"
    using rcall_steps [OF call.prems(1)] by blast
  have "rholds C (set req, {}) e"
    using rk.known_sub [OF c(1)] call.prems(3) by (simp add: rholds_def)
  then have "rends_ok C (kb, cb) (Done e')"
    using call.IH(1) [OF c(2)] call.prems(2) by simp
  then have "rk.known C (set ens) e'"
    using rk.known_sub [OF c(3)] by (simp add: rends_ok_def rholds_def)
  moreover have "rholds C (rminus st (rkills body)) e'"
    using rholds_minus [OF call.prems(3)] rrun_frame [OF call.hyps(1) refl] by blast
  ultimately have "rholds C (fst (rminus st (rkills body)) \<union> set ens, snd (rminus st (rkills body))) e'"
    by (simp add: rholds_def)
  then show ?case
    using call.IH(2) [OF c(4)] call.prems(2) by simp
next
  case (call_stop e body r req ens k)
  obtain kb cb where c: "set req \<subseteq> fst st" "rcheck_loop (set req, {}) [] body = Some (kb, cb)"
    using rcall_steps [OF call_stop.prems(1)] by blast
  have "rholds C (set req, {}) e"
    using rk.known_sub [OF c(1)] call_stop.prems(3) by (simp add: rholds_def)
  then have "rends_ok C (kb, cb) r"
    using call_stop.IH [OF c(2)] call_stop.prems(2) by simp
  then show ?case
    using call_stop.hyps(2) by (rule rends_stop)
qed

lemma raccepts_sound:
  assumes "raccepts its" and "ritems_wf its" and "caps_wf C"
  shows "\<not> rrun C e its Fault"
proof
  assume run: "rrun C e its Fault"
  obtain st' where "rcheck_loop ({}, {}) [] its = Some st'"
    using assms(1) by (auto simp: raccepts_def)
  from rrun_sound [OF run assms(3) this assms(2)] have "rends_ok C st' Fault"
    by (simp add: rholds_def)
  then show False by (simp add: rends_ok_def)
qed

end
