(* ===== verification/Procs_Sound.thy ===== *)
theory Procs_Sound
  imports Procs Rbounds
begin

text \<open>
  Runs of a procedure table and the soundness of its check. A frame maps each slot to a block and
  a value; a call runs the callee's body in a frame of its own whose parameters are the caller's
  arguments, and the caller's slots are untouched. The proof is by induction on the run, so a
  recursive table needs no unfolding. \<open>chained_groups\<close> shows why the groups must be flat.
\<close>

subsection \<open>Frames\<close>

text \<open>The block map of a frame agrees across each declared group.\<close>

definition resp :: "(dnat \<times> dnat) list \<Rightarrow> (dnat \<Rightarrow> nat) \<Rightarrow> bool" where
  "resp gs bm \<longleftrightarrow> (\<forall>x. bm x = bm (gof gs x))"

text \<open>Every parameter is its argument's block and value.\<close>

definition binds :: "(dnat \<times> dnat) list \<Rightarrow> (dnat \<Rightarrow> nat) \<Rightarrow> slots \<Rightarrow> (dnat \<Rightarrow> nat) \<Rightarrow> slots \<Rightarrow> bool" where
  "binds args bm e bm' e' \<longleftrightarrow> (\<forall>(p, x) \<in> set args. bm' p = bm x \<and> e' p = e x)"

definition enters :: "pproc \<Rightarrow> (dnat \<times> dnat) list \<Rightarrow> (dnat \<Rightarrow> nat) \<Rightarrow> slots \<Rightarrow> (dnat \<Rightarrow> nat) \<Rightarrow> slots \<Rightarrow> bool" where
  "enters d args bm e bm' e' \<longleftrightarrow> resp (groups d) bm' \<and> binds args bm e bm' e'"

definition test_pass :: "bool \<Rightarrow> 64 word \<Rightarrow> 64 word \<Rightarrow> bool" where
  "test_pass g v n = (if g then sint v < sint n else v < n)"

text \<open>
  A call with no frame that respects the callee's groups and the arguments is a fault: the
  certificate then does not describe the program.
\<close>

inductive prun :: "ptable \<Rightarrow> (nat \<Rightarrow> nat) \<Rightarrow> (dnat \<Rightarrow> nat) \<Rightarrow> slots \<Rightarrow> pitem list \<Rightarrow> slots outcome \<Rightarrow> bool"
  for P C where
  pfinish: "prun P C bm e [] (Done e)"
| phdr: "hdr_in o' w \<Longrightarrow> prun P C bm e k r \<Longrightarrow> prun P C bm e (PHdrOk o' w # k) r"
| phdr_fault: "\<not> hdr_in o' w \<Longrightarrow> prun P C bm e (PHdrOk o' w # k) Fault"
| pacc: "payload_in (C \<circ> bm) f o' w e \<Longrightarrow> prun P C bm e k r \<Longrightarrow> prun P C bm e (PAcc f o' w # k) r"
| pacc_fault: "\<not> payload_in (C \<circ> bm) f o' w e \<Longrightarrow> prun P C bm e (PAcc f o' w # k) Fault"
| plen: "count_ok (C \<circ> bm) x s v \<Longrightarrow> prun P C bm (e(n := v)) k r \<Longrightarrow> prun P C bm e (PLen n x s # k) r"
| ppass: "test_pass g (e (fst f)) (e n) \<Longrightarrow> prun P C bm e k r \<Longrightarrow> prun P C bm e (PCheck f n g # k) r"
| pabort: "\<not> test_pass g (e (fst f)) (e n) \<Longrightarrow> prun P C bm e (PCheck f n g # k) Aborted"
| pstay: "test_pass g (e (fst f)) (e n) \<Longrightarrow> prun P C bm e k r \<Longrightarrow> prun P C bm e (PExit f n g # k) r"
| pleave: "\<not> test_pass g (e (fst f)) (e n) \<Longrightarrow> prun P C bm e (PExit f n g # k) (Done e)"
| pset: "prun P C bm (e(x := v)) k r \<Longrightarrow> prun P C bm e (PSet x # k) r"
| pconst: "0 \<le> sint v \<Longrightarrow> prun P C bm (e(x := v)) k r \<Longrightarrow> prun P C bm e (PConst x # k) r"
| pstep: "prun P C bm (e(x := e (fst f) + of_nat (dval c))) k r \<Longrightarrow> prun P C bm e (PStep x f c # k) r"
| ploop_out: "prun P C bm e k r \<Longrightarrow> prun P C bm e (PLoop body # k) r"
| ploop_on: "prun P C bm e body (Done e') \<Longrightarrow> prun P C bm e' (PLoop body # k) r \<Longrightarrow> prun P C bm e (PLoop body # k) r"
| ploop_stop: "prun P C bm e body r \<Longrightarrow> (\<And>e'. r \<noteq> Done e') \<Longrightarrow> prun P C bm e (PLoop body # k) r"
| parm: "arm = t \<or> arm = f \<Longrightarrow> prun P C bm e arm (Done e') \<Longrightarrow> prun P C bm e' k r \<Longrightarrow>
    prun P C bm e (PBranch t f # k) r"
| parm_stop: "arm = t \<or> arm = f \<Longrightarrow> prun P C bm e arm r \<Longrightarrow> (\<And>e'. r \<noteq> Done e') \<Longrightarrow>
    prun P C bm e (PBranch t f # k) r"
| pcall: "plook P f = Some d \<Longrightarrow> enters d args bm e bm' e' \<Longrightarrow> prun P C bm' e' (pbody d) (Done e1) \<Longrightarrow>
    prun P C bm e k r \<Longrightarrow> prun P C bm e (PCall f args # k) r"
| pcall_stop: "plook P f = Some d \<Longrightarrow> enters d args bm e bm' e' \<Longrightarrow> prun P C bm' e' (pbody d) r \<Longrightarrow>
    (\<And>e1. r \<noteq> Done e1) \<Longrightarrow> prun P C bm e (PCall f args # k) r"
| pcall_clash: "plook P f = Some d \<Longrightarrow> (\<And>bm' e'. \<not> enters d args bm e bm' e') \<Longrightarrow>
    prun P C bm e (PCall f args # k) Fault"
| pcall_none: "plook P f = None \<Longrightarrow> prun P C bm e (PCall f args # k) Fault"

text \<open>A run changes only the slots its items name.\<close>

lemma prun_frame: "prun P C bm e its r \<Longrightarrow> r = Done e' \<Longrightarrow> x \<notin> pkills its \<Longrightarrow> e' x = e x"
  by (induction arbitrary: e' rule: prun.induct) auto

subsection \<open>What a state means in a frame\<close>

interpretation rn: slot_facts "\<lambda>x. x" "\<lambda>x e. 0 \<le> sint (e x :: 64 word)"
  by unfold_locales simp

definition pholds :: "(nat \<Rightarrow> nat) \<Rightarrow> (dnat \<Rightarrow> nat) \<Rightarrow> pst \<Rightarrow> slots \<Rightarrow> bool" where
  "pholds C bm st e \<longleftrightarrow>
     rk.known (C \<circ> bm) (kn st) e \<and> rc.known (C \<circ> bm) (cn st) e \<and> rn.known (nn st) e"

lemma pholds_within: "pwithin a b \<Longrightarrow> pholds C bm b e \<Longrightarrow> pholds C bm a e"
  by (auto simp: pwithin_def pholds_def intro: rk.known_sub rc.known_sub rn.known_sub)

lemma pwithin_trans: "pwithin a b \<Longrightarrow> pwithin b c \<Longrightarrow> pwithin a c"
  by (auto simp: pwithin_def)

lemma pmeet_within: "pwithin (pmeet a b) a" "pwithin (pmeet a b) b"
  by (auto simp: pwithin_def pmeet_def)

lemma pminus_within: "pwithin (pminus a ks) a"
  by (auto simp: pwithin_def pminus_def)

lemma pmeets_within: "pwithin (foldl pmeet st left) st"
proof (induction left arbitrary: st)
  case Nil
  then show ?case by (simp add: pwithin_def)
next
  case (Cons l left)
  from Cons.IH [of "pmeet st l"] show ?case
    using pmeet_within(1) pwithin_trans by (metis foldl_Cons)
qed

lemma pmeets_left: "l \<in> set left \<Longrightarrow> pwithin (foldl pmeet st left) l"
proof (induction left arbitrary: st)
  case (Cons m left)
  show ?case
  proof (cases "l = m")
    case True
    with pmeets_within [of "pmeet st m" left] show ?thesis
      using pmeet_within(2) pwithin_trans by (metis foldl_Cons)
  next
    case False
    with Cons show ?thesis by simp
  qed
qed simp

lemma pcheck_left:
  "pcheck_loop P gs st left its = Some st' \<Longrightarrow> l \<in> set left \<Longrightarrow> pwithin st' l"
  by (induction P gs st left its arbitrary: st' rule: pcheck_loop.induct)
    (auto simp: Let_def pmeets_left split: if_splits option.splits)

lemma pholds_write: "pholds C bm st e \<Longrightarrow> pholds C bm (pkill st x) (e(x := v))"
  using rk.known_write [of "C \<circ> bm" "kn st" e x v] rc.known_write [of "C \<circ> bm" "cn st" e x v]
    rn.known_write [of "nn st" e x v]
  by (simp add: pholds_def pkill_def Collect_conj_eq Diff_eq Compl_eq)

lemma pholds_minus:
  "pholds C bm st e \<Longrightarrow> (\<And>x. x \<notin> ks \<Longrightarrow> e' x = e x) \<Longrightarrow> pholds C bm (pminus st ks) e'"
  unfolding pholds_def pminus_def pst.select_convs
  by (blast intro: rk.known_minus rc.known_minus rn.known_minus)

lemma pholds_mark: "pholds C bm st e \<Longrightarrow> 0 \<le> sint (e x) \<Longrightarrow> pholds C bm (mark_nonneg st x) e"
  by (simp add: pholds_def mark_nonneg_def)

lemma pholds_learn: "pholds C bm st e \<Longrightarrow> slot_known (C \<circ> bm) f e \<Longrightarrow> pholds C bm (learn st f) e"
  by (simp add: pholds_def learn_def)

lemma pnonneg_holds: "pholds C bm st e \<Longrightarrow> pnonneg st x \<Longrightarrow> 0 \<le> sint (e x)"
  by (auto simp: pholds_def pnonneg_def rk.known_def rn.known_def slot_known_def)

lemma count_group:
  "resp gs bm \<Longrightarrow> count_known (C \<circ> bm) (n, gof gs x, s) e = count_known (C \<circ> bm) (n, x, s) e"
  by (simp add: count_known_def count_ok_def resp_def)

subsection \<open>Each test, step and call\<close>

definition caps_small :: "(nat \<Rightarrow> nat) \<Rightarrow> bool" where
  "caps_small C \<longleftrightarrow> (\<forall>b. C b < 2 ^ 63)"

lemma caps_small_wf: "caps_small C \<Longrightarrow> caps_wf (C \<circ> bm)"
  by (simp add: caps_small_def caps_wf_def)

lemma pair_wf_fact: "pair_wf f = fact_wf f"
  by (simp add: pair_wf_def fact_wf_def)

lemma signed_test_known:
  assumes "count_known C (n, fst f, snd f) e" and "0 \<le> sint (e (fst f))" and "sint (e (fst f)) < sint (e n)"
  shows "slot_known C f e"
proof -
  have "(sint (e (fst f)) + 1) * int (dval (snd f)) \<le> sint (e n) * int (dval (snd f))"
    using assms(3) by (intro mult_right_mono) simp_all
  then show ?thesis
    using assms(1,2) by (simp add: slot_known_def count_known_def count_ok_def)
qed

lemma ptest_learns:
  assumes "test_ok gs st f n g" and "pholds C bm st e" and "resp gs bm" and "caps_small C"
    and "test_pass g (e (fst f)) (e n)"
  shows "pholds C bm (learn st f) e"
proof -
  have c: "count_known (C \<circ> bm) (n, fst f, snd f) e"
    using assms(1,2,3) count_group by (auto simp: test_ok_def pholds_def rc.known_def)
  have "slot_known (C \<circ> bm) f e"
  proof (cases g)
    case True
    then have "0 \<le> sint (e (fst f))"
      using assms(1,2) pnonneg_holds by (auto simp: test_ok_def)
    then show ?thesis
      using signed_test_known [OF c] assms(5) True by (simp add: test_pass_def)
  next
    case False
    then show ?thesis
      using test_known [OF caps_small_wf [OF assms(4)] c] assms(5) by (simp add: test_pass_def)
  qed
  then show ?thesis
    using pholds_learn assms(2) by blast
qed

lemma step_bound:
  fixes v s c :: nat
  assumes "(v + 1) * s \<le> cap" and "c \<le> s" and "cap < 2 ^ 63" and "v < 2 ^ 63"
  shows "v + c < 2 ^ 63"
proof (cases "s = 0")
  case False
  then have "v + c \<le> v * s + s"
    using assms(2) by (intro add_mono) simp_all
  also have "\<dots> = (v + 1) * s" by simp
  finally show ?thesis
    using assms(1,3) by linarith
qed (use assms in simp)

lemma step_nonneg:
  assumes "slot_known (C \<circ> bm) f e" and "pair_wf f" and "wf_nat c" and "c \<le> snd f" and "caps_small C"
  shows "0 \<le> sint (e (fst f) + of_nat (dval c))"
proof -
  let ?v = "e (fst f)"
  have n: "0 \<le> sint ?v" "(sint ?v + 1) * int (dval (snd f)) \<le> int (C (bm (fst f)))"
    using assms(1) by (simp_all add: slot_known_def)
  have v: "sint ?v = int (unat ?v)" "unat ?v < 2 ^ 63"
    using sint_nonneg [OF n(1)] by simp_all
  have "(int (unat ?v) + 1) * int (dval (snd f)) = int ((unat ?v + 1) * dval (snd f))"
    by (simp add: algebra_simps)
  then have "(unat ?v + 1) * dval (snd f) \<le> C (bm (fst f))"
    using n(2) v(1) by (metis of_nat_le_iff)
  moreover have "dval c \<le> dval (snd f)"
    using assms(2-4) by (simp add: le_dval pair_wf_def)
  moreover have "C (bm (fst f)) < 2 ^ 63"
    using assms(5) by (simp add: caps_small_def)
  ultimately have lt: "unat ?v + dval c < 2 ^ 63"
    using step_bound v(2) by blast
  have "unat (of_nat (dval c) :: 64 word) = dval c"
    using lt by (simp add: unat_of_nat)
  then have "unat (?v + of_nat (dval c)) = unat ?v + dval c"
    using lt by (subst unat_add_lem [THEN iffD1]) simp_all
  then show ?thesis
    using sint_small lt by simp
qed

lemma groups_agreeD:
  assumes "groups_agree gs gs' args" and "a1 \<in> set args" and "a2 \<in> set args"
    and "gof gs' (fst a1) = gof gs' (fst a2)"
  shows "gof gs (snd a1) = gof gs (snd a2)"
  using assms unfolding groups_agree_def list_all_iff by blast

lemma pre_met_known: "pre_met gs st args d \<Longrightarrow> (p, s) \<in> set (pre_known d) \<Longrightarrow>
    \<exists>x. amap args p = Some x \<and> (x, s) \<in> kn st"
  unfolding pre_met_def list_all_iff by (fastforce split: option.splits)

lemma pre_met_count: "pre_met gs st args d \<Longrightarrow> (n, r, s) \<in> set (pre_counts d) \<Longrightarrow>
    \<exists>m x. amap args n = Some m \<and> amap args r = Some x \<and> (m, gof gs x, s) \<in> cn st"
  unfolding pre_met_def list_all_iff by (fastforce split: option.splits)

lemma pre_met_nonneg: "pre_met gs st args d \<Longrightarrow> y \<in> set (pre_nonneg d) \<Longrightarrow>
    \<exists>x. amap args y = Some x \<and> pnonneg st x"
  unfolding pre_met_def list_all_iff by (fastforce split: option.splits)

text \<open>A call that meets the callee's precondition enters a frame where it holds.\<close>

lemma pre_met_holds:
  assumes "pre_met gs st args d" and "pholds C bm st e" and "resp gs bm" and "binds args bm e bm' e'"
  shows "pholds C bm' (pre_state d) e'"
proof -
  have bound: "bm' p = bm x \<and> e' p = e x" if "amap args p = Some x" for p x
    using that assms(4) map_of_SomeD [of args p x] by (auto simp: binds_def amap_def)
  have "slot_known (C \<circ> bm') q e'" if "q \<in> set (pre_known d)" for q
  proof -
    have "(fst q, snd q) \<in> set (pre_known d)"
      using that by simp
    then obtain x where x: "amap args (fst q) = Some x" "(x, snd q) \<in> kn st"
      using pre_met_known [OF assms(1)] by blast
    then have "slot_known (C \<circ> bm) (x, snd q) e"
      using assms(2) by (simp add: pholds_def rk.known_def)
    then show ?thesis
      using bound [OF x(1)] by (simp add: slot_known_def)
  qed
  moreover have "count_known (C \<circ> bm') c e'" if "c \<in> set (pre_counts d)" for c
  proof -
    obtain n r s where c: "c = (n, r, s)" by (cases c)
    then have "(n, r, s) \<in> set (pre_counts d)"
      using that by simp
    then obtain n2 x where x: "amap args n = Some n2" "amap args r = Some x" "(n2, gof gs x, s) \<in> cn st"
      using pre_met_count [OF assms(1), of n r s] by blast
    then have "count_known (C \<circ> bm) (n2, x, s) e"
      using assms(2) count_group [OF assms(3), of C n2 x s e] by (auto simp: pholds_def rc.known_def)
    then show ?thesis
      using bound [OF x(1)] bound [OF x(2)] c by (simp add: count_known_def count_ok_def)
  qed
  moreover have "0 \<le> sint (e' y)" if "y \<in> set (pre_nonneg d)" for y
  proof -
    obtain x where x: "amap args y = Some x" "pnonneg st x"
      using pre_met_nonneg [OF assms(1), of y] \<open>y \<in> set (pre_nonneg d)\<close> by blast
    then show ?thesis
      using pnonneg_holds [OF assms(2) x(2)] bound [OF x(1)] by simp
  qed
  ultimately show ?thesis
    by (simp add: pholds_def pre_state_def rk.known_def rc.known_def rn.known_def)
qed

text \<open>Flat groups: every representative represents itself.\<close>

definition flat :: "(dnat \<times> dnat) list \<Rightarrow> bool" where
  "flat gs \<longleftrightarrow> (\<forall>x. gof gs (gof gs x) = gof gs x)"

lemma frame_exists:
  assumes "groups_agree gs (groups d) args" and "flat (groups d)" and "distinct (map fst args)"
    and "resp gs bm"
  shows "\<exists>bm' e'. enters d args bm e bm' e'"
proof -
  let ?g = "gof (groups d)"
  let ?bm = "\<lambda>y. case find (\<lambda>a. ?g (fst a) = ?g y) args of None \<Rightarrow> 0 | Some a \<Rightarrow> bm (snd a)"
  let ?e = "\<lambda>y. case map_of args y of None \<Rightarrow> 0 | Some x \<Rightarrow> e x"
  have "resp (groups d) ?bm"
    using assms(2) by (simp add: resp_def flat_def)
  moreover have "binds args bm e ?bm ?e"
    unfolding binds_def
  proof clarify
    fix p x assume px: "(p, x) \<in> set args"
    obtain a where a: "find (\<lambda>a. ?g (fst a) = ?g p) args = Some a"
      using px by (cases "find (\<lambda>a. ?g (fst a) = ?g p) args") (auto simp: find_None_iff)
    then have "a \<in> set args" "?g (fst a) = ?g p"
      by (auto simp: find_Some_iff)
    then have "gof gs (snd a) = gof gs x"
      using groups_agreeD [OF assms(1) _ px] by simp
    then have "bm (snd a) = bm x"
      using assms(4) by (metis resp_def)
    then show "?bm p = bm x \<and> ?e p = e x"
      using a px assms(3) by simp
  qed
  ultimately show ?thesis
    unfolding enters_def by blast
qed

subsection \<open>Soundness\<close>

definition pends_ok :: "(nat \<Rightarrow> nat) \<Rightarrow> (dnat \<Rightarrow> nat) \<Rightarrow> pst \<Rightarrow> slots outcome \<Rightarrow> bool" where
  "pends_ok C bm st r = (case r of Done e \<Rightarrow> pholds C bm st e | Aborted \<Rightarrow> True | Fault \<Rightarrow> False)"

lemma pends_stop: "pends_ok C bm st r \<Longrightarrow> (\<And>e'. r \<noteq> Done e') \<Longrightarrow> pends_ok C bm' st' r"
  by (auto simp: pends_ok_def split: outcome.splits)

text \<open>Calls with one argument per parameter.\<close>

fun calls_plain :: "pitem list \<Rightarrow> bool" where
  "calls_plain [] \<longleftrightarrow> True"
| "calls_plain (PLoop body # its) \<longleftrightarrow> calls_plain body \<and> calls_plain its"
| "calls_plain (PBranch t e # its) \<longleftrightarrow> calls_plain t \<and> calls_plain e \<and> calls_plain its"
| "calls_plain (PCall f args # its) \<longleftrightarrow> distinct (map fst args) \<and> calls_plain its"
| "calls_plain (_ # its) \<longleftrightarrow> calls_plain its"

definition proc_plain :: "pproc \<Rightarrow> bool" where
  "proc_plain d \<longleftrightarrow> flat (groups d) \<and> calls_plain (pbody d)"

definition table_fit :: "ptable \<Rightarrow> bool" where
  "table_fit P \<longleftrightarrow> (\<forall>(_, d) \<in> set P. proc_wf d \<and> proc_plain d)"

lemma plook_set: "plook P f = Some d \<Longrightarrow> (f, d) \<in> set P"
  by (simp add: plook_def map_of_SomeD)

lemma procs_ok_body:
  assumes "procs_ok P" and "(f, d) \<in> set P"
  shows "\<exists>st'. pcheck_loop P (groups d) (pre_state d) [] (pbody d) = Some st'"
  using assms unfolding procs_ok_def list_all_iff pcheck_def by fastforce

lemma table_fit_body:
  "table_fit P \<Longrightarrow> (f, d) \<in> set P \<Longrightarrow> pitems_wf (pbody d) \<and> calls_plain (pbody d) \<and> flat (groups d)"
  by (auto simp: table_fit_def proc_wf_def proc_plain_def)

lemma ploop_again:
  "pcheck_loop P gs st left (PLoop body # its) = Some st' \<Longrightarrow>
    \<exists>sb. pcheck_loop P gs (pminus st (pkills body)) [] body = Some sb \<and>
      pwithin (pminus st (pkills body)) sb \<and>
      pcheck_loop P gs (pminus st (pkills body)) left its = Some st' \<and>
      pcheck_loop P gs (pminus st (pkills body)) left (PLoop body # its) = Some st'"
  by (auto simp: Let_def pminus_def split: option.splits if_splits)

lemma pbranch_steps:
  assumes "pcheck_loop P gs st left (PBranch t f # its) = Some st'"
  obtains a b where "pcheck_loop P gs st [] t = Some a" "pcheck_loop P gs st [] f = Some b"
    "pcheck_loop P gs (pmeet a b) left its = Some st'"
  using assms by (auto split: option.splits)

lemma pcall_steps:
  assumes "pcheck_loop P gs st left (PCall f args # its) = Some st'" and "plook P f = Some d"
  shows "pre_met gs st args d \<and> pcheck_loop P gs st left its = Some st'"
  using assms by (auto split: if_splits)

lemma prun_sound:
  assumes "prun P C bm e its r" and "procs_ok P" and "table_fit P" and "caps_small C"
    and "resp gs bm" and "pcheck_loop P gs st left its = Some st'"
    and "pitems_wf its" and "calls_plain its" and "pholds C bm st e"
  shows "pends_ok C bm st' r"
  using assms(1,5-)
proof (induction arbitrary: gs st left st' rule: prun.induct)
  case (pfinish bm e)
  then have "st' = foldl pmeet st left" by simp
  then show ?case
    using pholds_within [OF pmeets_within pfinish.prems(5), of left] by (simp only: pends_ok_def outcome.case)
next
  case (phdr o' w bm e k r)
  then show ?case by (auto split: if_splits)
next
  case (phdr_fault o' w bm e k)
  then have "in_hdr o' w" by (auto split: if_splits)
  then show ?case
    using phdr_fault by (simp add: in_hdr_val hdr_in_def bytes_in_def)
next
  case (pacc bm f o' w e k r)
  then show ?case by (auto split: if_splits)
next
  case (pacc_fault bm f o' w e k)
  then have "slot_known (C \<circ> bm) f e" "in_slot (snd f) o' w" "fact_wf f" "wf_nat o'" "wf_nat w"
    by (auto simp: pholds_def rk.known_def pair_wf_fact split: if_splits)
  then show ?case
    using known_access pacc_fault.hyps by blast
next
  case (plen bm x s v e n k r)
  let ?st = "pkill st n"
  have "pholds C bm (?st\<lparr>cn := insert (n, gof gs x, s) (cn ?st)\<rparr>) (e(n := v))"
    using pholds_write [OF plen.prems(5), of n v] plen.hyps(1) count_group [OF plen.prems(1), of C n x s "e(n := v)"]
    by (simp add: pholds_def count_known_def)
  then have "pholds C bm (mark_nonneg (?st\<lparr>cn := insert (n, gof gs x, s) (cn ?st)\<rparr>) n) (e(n := v))"
    using plen.hyps(1) by (intro pholds_mark) (simp_all add: count_ok_def)
  moreover have "pcheck_loop P gs (mark_nonneg (?st\<lparr>cn := insert (n, gof gs x, s) (cn ?st)\<rparr>) n) left k = Some st'"
    using plen.prems(2) by (auto simp: Let_def split: if_splits)
  moreover have "pitems_wf k" "calls_plain k"
    using plen.prems(3,4) by simp_all
  ultimately show ?case
    using plen.IH [OF plen.prems(1)] by blast
next
  case (ppass g e f n bm k r)
  then have "test_ok gs st f n g" "pcheck_loop P gs (learn st f) left k = Some st'"
    by (auto split: if_splits)
  then show ?case
    using ptest_learns [OF _ ppass.prems(5,1) assms(4) ppass.hyps(1)] ppass.IH [OF ppass.prems(1)]
      ppass.prems(3,4) by simp
next
  case (pabort g e f n bm k)
  then show ?case by (simp add: pends_ok_def)
next
  case (pstay g e f n bm k r)
  then have "test_ok gs st f n g" "pcheck_loop P gs (learn st f) (left @ [st]) k = Some st'"
    by (auto split: if_splits)
  then show ?case
    using ptest_learns [OF _ pstay.prems(5,1) assms(4) pstay.hyps(1)] pstay.IH [OF pstay.prems(1)]
      pstay.prems(3,4) by simp
next
  case (pleave g e f n bm k)
  then have "pwithin st' st"
    using pcheck_left by (fastforce split: if_splits)
  then show ?case
    using pholds_within pleave.prems(5) by (auto simp: pends_ok_def)
next
  case (pset bm e x v k r)
  have "pcheck_loop P gs (pkill st x) left k = Some st'"
    using pset.prems(2) by simp
  then show ?case
    using pset.IH [OF pset.prems(1) _ _ _ pholds_write [OF pset.prems(5)]] pset.prems(3,4) by simp
next
  case (pconst v bm e x k r)
  have "pcheck_loop P gs (mark_nonneg (pkill st x) x) left k = Some st'"
    using pconst.prems(2) by simp
  moreover have "pholds C bm (mark_nonneg (pkill st x) x) (e(x := v))"
    using pholds_write [OF pconst.prems(5)] pconst.hyps(1) by (intro pholds_mark) simp_all
  moreover have "pitems_wf k" "calls_plain k"
    using pconst.prems(3,4) by simp_all
  ultimately show ?case
    using pconst.IH [OF pconst.prems(1)] by blast
next
  case (pstep bm e x f c k r)
  let ?e = "e(x := e (fst f) + of_nat (dval c))"
  let ?st = "if f \<in> kn st \<and> c \<le> snd f then mark_nonneg (pkill st x) x else pkill st x"
  have w: "pholds C bm (pkill st x) ?e"
    by (rule pholds_write [OF pstep.prems(5)])
  have "pholds C bm ?st ?e"
  proof (cases "f \<in> kn st \<and> c \<le> snd f")
    case True
    then have "slot_known (C \<circ> bm) f e"
      using pstep.prems(5) by (simp add: pholds_def rk.known_def)
    then have "0 \<le> sint (?e x)"
      using step_nonneg [of C bm f e c] True pstep.prems(3) assms(4) by simp
    then show ?thesis
      using pholds_mark [OF w] True by simp
  next
    case False
    then show ?thesis
      by (simp only: if_False w)
  qed
  moreover have "pcheck_loop P gs ?st left k = Some st'"
    using pstep.prems(2) by (simp only: pcheck_loop.simps Let_def)
  moreover have "pitems_wf k" "calls_plain k"
    using pstep.prems(3,4) by simp_all
  ultimately show ?case
    using pstep.IH [OF pstep.prems(1)] by blast
next
  case (ploop_out bm e k r body)
  then show ?case
    using ploop_again [OF ploop_out.prems(2)] ploop_out.IH [OF ploop_out.prems(1)]
      pholds_within [OF pminus_within] by fastforce
next
  case (ploop_on bm e body e' k r)
  let ?s0 = "pminus st (pkills body)"
  obtain sb where sb: "pcheck_loop P gs ?s0 [] body = Some sb" "pwithin ?s0 sb"
    "pcheck_loop P gs ?s0 left (PLoop body # k) = Some st'"
    using ploop_again [OF ploop_on.prems(2)] by blast
  have "pholds C bm ?s0 e"
    using pholds_within [OF pminus_within] ploop_on.prems(5) by blast
  then have "pholds C bm sb e'"
    using ploop_on.IH(1) [OF ploop_on.prems(1) sb(1)] ploop_on.prems(3,4) by (simp add: pends_ok_def)
  then show ?case
    using ploop_on.IH(2) [OF ploop_on.prems(1) sb(3) ploop_on.prems(3,4)] pholds_within [OF sb(2)] by simp
next
  case (ploop_stop bm e body r k)
  let ?s0 = "pminus st (pkills body)"
  obtain sb where sb: "pcheck_loop P gs ?s0 [] body = Some sb"
    using ploop_again [OF ploop_stop.prems(2)] by blast
  have "pends_ok C bm sb r"
    using ploop_stop.IH [OF ploop_stop.prems(1) sb] ploop_stop.prems(3-5) pholds_within [OF pminus_within]
    by simp
  then show ?case
    using ploop_stop.hyps(2) by (rule pends_stop)
next
  case (parm arm t f bm e e' k r)
  obtain a b where ab: "pcheck_loop P gs st [] t = Some a" "pcheck_loop P gs st [] f = Some b"
    "pcheck_loop P gs (pmeet a b) left k = Some st'"
    using pbranch_steps [OF parm.prems(2)] .
  have "\<exists>s. (s = a \<or> s = b) \<and> pcheck_loop P gs st [] arm = Some s" "pitems_wf arm" "calls_plain arm"
    using parm.hyps(1) ab parm.prems(3,4) by auto
  then obtain s where "s = a \<or> s = b" "pends_ok C bm s (Done e')"
    using parm.IH(1) [OF parm.prems(1)] parm.prems(5) by blast
  then have "pholds C bm (pmeet a b) e'"
    using pholds_within [OF pmeet_within(1)] pholds_within [OF pmeet_within(2)] by (auto simp: pends_ok_def)
  then show ?case
    using parm.IH(2) [OF parm.prems(1) ab(3)] parm.prems(3,4) by simp
next
  case (parm_stop arm t f bm e r k)
  obtain a b where ab: "pcheck_loop P gs st [] t = Some a" "pcheck_loop P gs st [] f = Some b"
    using pbranch_steps [OF parm_stop.prems(2)] .
  have "\<exists>s. pcheck_loop P gs st [] arm = Some s" "pitems_wf arm" "calls_plain arm"
    using parm_stop.hyps(1) ab parm_stop.prems(3,4) by auto
  then obtain s where "pends_ok C bm s r"
    using parm_stop.IH [OF parm_stop.prems(1)] parm_stop.prems(5) by blast
  then show ?case
    using parm_stop.hyps(3) by (rule pends_stop)
next
  case (pcall f d args bm e bm' e' e1 k r)
  have "pcheck_loop P gs st left k = Some st'" "pitems_wf k" "calls_plain k"
    using pcall_steps [OF pcall.prems(2) pcall.hyps(1)] pcall.prems(3,4) by simp_all
  then show ?case
    using pcall.IH(2) [OF pcall.prems(1)] pcall.prems(5) by blast
next
  case (pcall_stop f d args bm e bm' e' r k)
  have en: "resp (groups d) bm'" "binds args bm e bm' e'"
    using pcall_stop.hyps(2) by (simp_all add: enters_def)
  obtain s where s: "pcheck_loop P (groups d) (pre_state d) [] (pbody d) = Some s"
    using procs_ok_body [OF assms(2) plook_set [OF pcall_stop.hyps(1)]] by blast
  have pre: "pholds C bm' (pre_state d) e'"
    using pre_met_holds [OF _ pcall_stop.prems(5,1) en(2)] pcall_steps [OF pcall_stop.prems(2) pcall_stop.hyps(1)]
    by blast
  have "pends_ok C bm' s r"
    using pcall_stop.IH [OF en(1) s _ _ pre] table_fit_body [OF assms(3) plook_set [OF pcall_stop.hyps(1)]]
    by blast
  then show ?case
    using pcall_stop.hyps(4) by (rule pends_stop)
next
  case (pcall_clash f d args bm e k)
  have "groups_agree gs (groups d) args"
    using pcall_steps [OF pcall_clash.prems(2) pcall_clash.hyps(1)] by (simp add: pre_met_def)
  moreover have "flat (groups d)" "distinct (map fst args)"
    using table_fit_body [OF assms(3) plook_set [OF pcall_clash.hyps(1)]] pcall_clash.prems(4) by simp_all
  ultimately show ?case
    using frame_exists pcall_clash.prems(1) pcall_clash.hyps(2) by blast
next
  case (pcall_none f bm e args k)
  then show ?case by simp
qed

lemma procs_ok_sound:
  assumes "procs_ok P" and "table_fit P" and "caps_small C" and "(f, d) \<in> set P"
    and "resp (groups d) bm" and "pholds C bm (pre_state d) e"
  shows "\<not> prun P C bm e (pbody d) Fault"
proof
  assume run: "prun P C bm e (pbody d) Fault"
  obtain st' where c: "pcheck_loop P (groups d) (pre_state d) [] (pbody d) = Some st'"
    using procs_ok_body [OF assms(1,4)] by blast
  have "pends_ok C bm st' Fault"
    using prun_sound [OF run assms(1-3,5) c _ _ assms(6)] table_fit_body [OF assms(2,4)] by blast
  then show False by (simp add: pends_ok_def)
qed

subsection \<open>Groups that are not flat\<close>

text \<open>
  \<open>pre_met\<close> compares representatives after one step of \<open>gof\<close>. With the callee's groups
  \<open>0:1 1:2\<close> the slots 0 and 1 have different one-step representatives, so a call may pass slots
  of two blocks for them, while the count the callee's precondition names for slot 1 is the one
  its test of slot 0 uses. The table below is accepted, and its call lets the callee pass the
  test and read outside the block of slot 0.
\<close>

definition chained_callee :: pproc where
  "chained_callee = \<lparr>groups = [(dnat_of 0, dnat_of 1), (dnat_of 1, dnat_of 2)], pre_known = [],
     pre_counts = [(dnat_of 3, dnat_of 1, dnat_of 8)], pre_nonneg = [],
     pbody = [PCheck (dnat_of 0, dnat_of 8) (dnat_of 3) False, PAcc (dnat_of 0, dnat_of 8) (dnat_of 0) (dnat_of 8)]\<rparr>"

definition chained_args :: "(dnat \<times> dnat) list" where
  "chained_args = [(dnat_of 0, dnat_of 6), (dnat_of 1, dnat_of 4), (dnat_of 3, dnat_of 5)]"

definition chained_caller :: pproc where
  "chained_caller = \<lparr>groups = [], pre_known = [], pre_counts = [], pre_nonneg = [],
     pbody = [PLen (dnat_of 5) (dnat_of 4) (dnat_of 8), PCall (dnat_of 1) chained_args]\<rparr>"

definition chained_table :: ptable where
  "chained_table = [(dnat_of 1, chained_callee), (dnat_of 2, chained_caller)]"

definition chained_blocks :: "dnat \<Rightarrow> nat" where
  "chained_blocks x = (if x = dnat_of 6 then 1 else 0)"

definition chained_caps :: "nat \<Rightarrow> nat" where
  "chained_caps b = (if b = 0 then 8 else 0)"

lemma chained_accepted: "procs_ok chained_table"
  by code_simp

lemma chained_found: "plook chained_table (dnat_of 1) = Some chained_callee"
  by code_simp

lemma chained_not_flat: "\<not> flat (groups chained_callee)"
proof -
  have "gof (groups chained_callee) (gof (groups chained_callee) (dnat_of 0)) \<noteq> gof (groups chained_callee) (dnat_of 0)"
    by code_simp
  then show ?thesis
    unfolding flat_def by blast
qed

lemma chained_no_frame: "\<not> enters chained_callee chained_args chained_blocks e bm' e'"
proof
  assume "enters chained_callee chained_args chained_blocks e bm' e'"
  then have r: "\<And>x. bm' x = bm' (gof (groups chained_callee) x)"
    and b: "bm' (dnat_of 0) = chained_blocks (dnat_of 6)" "bm' (dnat_of 1) = chained_blocks (dnat_of 4)"
    by (auto simp: enters_def resp_def binds_def chained_args_def)
  have "gof (groups chained_callee) (dnat_of 0) = dnat_of 1"
    by code_simp
  with r [of "dnat_of 0"] have "bm' (dnat_of 0) = bm' (dnat_of 1)" by simp
  moreover have "chained_blocks (dnat_of 6) \<noteq> chained_blocks (dnat_of 4)"
    by code_simp
  ultimately show False
    using b by simp
qed

lemma chained_faults:
  "\<exists>e. prun chained_table chained_caps chained_blocks e (pbody chained_caller) Fault"
proof -
  have c: "count_ok (chained_caps \<circ> chained_blocks) (dnat_of 4) (dnat_of 8) 1"
    by code_simp
  have "prun chained_table chained_caps chained_blocks ((\<lambda>_. 0)(dnat_of 5 := 1)) [PCall (dnat_of 1) chained_args] Fault"
    by (rule pcall_clash [OF chained_found chained_no_frame])
  then have "prun chained_table chained_caps chained_blocks (\<lambda>_. 0) (pbody chained_caller) Fault"
    unfolding chained_caller_def pproc.select_convs by (rule plen [OF c])
  then show ?thesis by (intro exI [of _ "\<lambda>_. 0"])
qed

text \<open>With the bindings alone the callee's test passes and its access is outside the block.\<close>

lemma chained_reads_outside:
  fixes e e' :: slots
  assumes "binds chained_args chained_blocks e bm' e'"
    and "e (dnat_of 6) = 0" and "e (dnat_of 5) = 1"
  shows "test_pass False (e' (dnat_of 0)) (e' (dnat_of 3)) \<and>
    \<not> payload_in (chained_caps \<circ> bm') (dnat_of 0, dnat_of 8) (dnat_of 0) (dnat_of 8) e'"
proof -
  have "bm' (dnat_of 0) = 1"
  proof -
    have "chained_blocks (dnat_of 6) = 1" by code_simp
    then show ?thesis using assms(1) by (simp add: binds_def chained_args_def)
  qed
  moreover have "e' (dnat_of 0) = 0" "e' (dnat_of 3) = 1"
    using assms by (simp_all add: binds_def chained_args_def)
  moreover have "dval (dnat_of 0) = 0" "dval (dnat_of 8) = 8"
    by code_simp+
  ultimately show ?thesis
    by (simp add: test_pass_def payload_in_def bytes_in_def chained_caps_def)
qed

end
