(* ===== verification/Zint.thy ===== *)
theory Zint
  imports Nat_Digits "HOL-Library.Word"
begin

text \<open>
  The unbounded integers of \<open>crates/almide-verify/src/zint.rs\<close>: sign and magnitude in base
  \<open>2 ^ 32\<close>, little-endian limbs, 64-bit carries, no trailing zero limb, one zero. The routines
  are on machine words; their results are the results on the integers, and the order and the
  equality of canonical forms are the order and the equality of the integers.
\<close>

subsection \<open>Magnitudes\<close>

type_synonym limb = "32 word"

definition trim :: "limb list \<Rightarrow> limb list" where
  "trim v = rev (dropWhile (\<lambda>d. d = 0) (rev v))"

text \<open>\<open>a.iter().rev().cmp(b.iter().rev())\<close> is \<open>lex_cmp\<close> on the reversed lists.\<close>

definition cmp_mag :: "limb list \<Rightarrow> limb list \<Rightarrow> ordering" where
  "cmp_mag a b =
     (if length a < length b then Less
      else if length b < length a then Greater
      else lex_cmp (rev a) (rev b))"

text \<open>
  The loops of \<open>add_mag\<close> and \<open>sub_mag\<close> read limb \<open>i\<close> of both operands, a missing limb as 0;
  here they walk the two lists.
\<close>

definition limb_or_zero :: "limb list \<Rightarrow> limb" where
  "limb_or_zero a = (case a of [] \<Rightarrow> 0 | x # _ \<Rightarrow> x)"

function add_mag_loop :: "limb list \<Rightarrow> limb list \<Rightarrow> 64 word \<Rightarrow> limb list" where
  "add_mag_loop a b carry =
     (if a = [] \<and> b = [] then (if 0 < carry then [ucast carry] else [])
      else
        let s = (ucast (limb_or_zero a) :: 64 word) + ucast (limb_or_zero b) + carry
        in ucast s # add_mag_loop (tl a) (tl b) (drop_bit 32 s))"
  by pat_completeness auto
termination
  by (relation "measure (\<lambda>(a, b, c). length a + length b)") (auto simp: neq_Nil_conv)

declare add_mag_loop.simps [simp del]

definition add_mag :: "limb list \<Rightarrow> limb list \<Rightarrow> limb list" where
  "add_mag a b = add_mag_loop a b 0"

text \<open>The differences are at least \<open>- 2 ^ 32\<close>, far inside the source's \<open>i64\<close>.\<close>

fun sub_mag_loop :: "limb list \<Rightarrow> limb list \<Rightarrow> int \<Rightarrow> limb list" where
  "sub_mag_loop [] b borrow = []"
| "sub_mag_loop (x # a) b borrow =
     (let d = uint x - uint (limb_or_zero b) - borrow
      in if d < 0 then word_of_int (d + 2 ^ 32) # sub_mag_loop a (tl b) 1
         else word_of_int d # sub_mag_loop a (tl b) 0)"

definition sub_mag :: "limb list \<Rightarrow> limb list \<Rightarrow> limb list" where
  "sub_mag a b = trim (sub_mag_loop a b 0)"

text \<open>The inner loop of \<open>mul_mag\<close> at row \<open>i\<close>: position \<open>k = i + j\<close>, the limbs of \<open>b\<close> from \<open>j\<close>.\<close>

fun mul_row :: "limb list \<Rightarrow> nat \<Rightarrow> limb \<Rightarrow> limb list \<Rightarrow> 64 word \<Rightarrow> limb list \<times> 64 word" where
  "mul_row out k x [] carry = (out, carry)"
| "mul_row out k x (y # b) carry =
     (let t = (ucast (out ! k) :: 64 word) + ucast x * ucast y + carry
      in mul_row (out[k := ucast t]) (k + 1) x b (drop_bit 32 t))"

text \<open>
  The carry loop. The source indexes \<open>out[k]\<close>, which lemma \<open>carry_loop_val\<close> keeps in range: the
  test on the length is never the one that ends it.
\<close>

function carry_loop :: "limb list \<Rightarrow> nat \<Rightarrow> 64 word \<Rightarrow> limb list" where
  "carry_loop out k carry =
     (if 0 < carry \<and> k < length out then
        let t = (ucast (out ! k) :: 64 word) + carry
        in carry_loop (out[k := ucast t]) (k + 1) (drop_bit 32 t)
      else out)"
  by pat_completeness auto
termination
  by (relation "measure (\<lambda>(out, k, c). length out - k)") auto

declare carry_loop.simps [simp del]

fun mul_rows :: "limb list \<Rightarrow> nat \<Rightarrow> limb list \<Rightarrow> limb list \<Rightarrow> limb list" where
  "mul_rows out i [] b = out"
| "mul_rows out i (x # a) b =
     (let (out, carry) = mul_row out i x b 0
      in mul_rows (carry_loop out (i + length b) carry) (i + 1) a b)"

definition mul_mag :: "limb list \<Rightarrow> limb list \<Rightarrow> limb list" where
  "mul_mag a b =
     (if a = [] \<or> b = [] then []
      else trim (mul_rows (replicate (length a + length b) 0) 0 a b))"

subsection \<open>The value of a magnitude\<close>

definition radix :: nat where
  "radix = 2 ^ 32"

lemma radix_pos [simp]: "0 < radix" "Suc 0 \<le> radix" "radix \<noteq> 0"
  by (simp_all add: radix_def)

fun mag_val :: "limb list \<Rightarrow> nat" where
  "mag_val [] = 0"
| "mag_val (d # ds) = unat d + radix * mag_val ds"

definition trimmed :: "limb list \<Rightarrow> bool" where
  "trimmed v \<longleftrightarrow> v = [] \<or> last v \<noteq> 0"

lemma limb_lt: "unat (d :: limb) < radix"
proof -
  have "unat d < 2 ^ LENGTH(32)" by (rule unsigned_less)
  then show ?thesis by (simp add: radix_def)
qed

lemma mag_val_append: "mag_val (xs @ ys) = mag_val xs + radix ^ length xs * mag_val ys"
  by (induction xs) (simp_all add: algebra_simps)

lemma mag_val_lt: "mag_val xs < radix ^ length xs"
proof (induction xs)
  case (Cons d ds)
  have "mag_val (d # ds) < radix + radix * mag_val ds"
    using limb_lt [of d] by simp
  also have "\<dots> = radix * (mag_val ds + 1)"
    by (simp add: algebra_simps)
  also have "\<dots> \<le> radix * radix ^ length ds"
    using Cons by (intro mult_le_mono2) simp
  finally show ?case by simp
qed simp

lemma mag_val_replicate [simp]: "mag_val (replicate n 0) = 0"
  by (induction n) simp_all

lemma trim_snoc: "trim (xs @ [x]) = (if x = 0 then trim xs else xs @ [x])"
  by (simp add: trim_def)

lemma mag_val_trim [simp]: "mag_val (trim v) = mag_val v"
proof (induction v rule: rev_induct)
  case (snoc x xs)
  then show ?case by (simp add: trim_snoc mag_val_append)
qed (simp add: trim_def)

lemma trimmed_trim [simp]: "trimmed (trim v)"
proof (induction v rule: rev_induct)
  case (snoc x xs)
  then show ?case by (simp add: trim_snoc trimmed_def)
qed (simp add: trim_def trimmed_def)

lemma trimmed_lead:
  assumes "trimmed v" and "v \<noteq> []"
  shows "radix ^ (length v - 1) \<le> mag_val v"
proof -
  obtain xs x where v: "v = xs @ [x]"
    using assms(2) by (cases v rule: rev_cases) auto
  then have "0 < unat x"
    using assms(1) by (simp add: trimmed_def unat_gt_0)
  then obtain k where "unat x = Suc k"
    using gr0_implies_Suc by blast
  then show ?thesis
    by (simp add: v mag_val_append)
qed

lemma trimmed_zero: "trimmed v \<Longrightarrow> mag_val v = 0 \<longleftrightarrow> v = []"
proof (cases "v = []")
  case False
  assume "trimmed v"
  then have "0 < mag_val v"
    using trimmed_lead [of v] False by (metis less_le_trans radix_pos(1) zero_less_power)
  with False show ?thesis by simp
qed simp

lemma trimmed_longer:
  assumes "trimmed b" and "length a < length b"
  shows "mag_val a < mag_val b"
proof -
  have "mag_val a < radix ^ length a"
    by (rule mag_val_lt)
  also have "\<dots> \<le> radix ^ (length b - 1)"
    using assms(2) by (intro power_increasing) auto
  also have "\<dots> \<le> mag_val b"
    using assms by (intro trimmed_lead) auto
  finally show ?thesis .
qed

subsection \<open>Carries\<close>

text \<open>A 64-bit sum splits into the limb kept and the carry passed on.\<close>

lemma split_limb:
  fixes t :: "64 word"
  shows "unat (ucast t :: limb) + radix * unat (drop_bit 32 t) = unat t"
proof -
  have "unat (ucast t :: limb) = unat t mod 2 ^ 32"
    by (simp add: unsigned_ucast_eq take_bit_eq_mod)
  moreover have "unat (drop_bit 32 t) = unat t div 2 ^ 32"
  proof -
    have "unat t < 2 ^ LENGTH(64)" by (rule unsigned_less)
    then have "take_bit 64 (unat t) = unat t" by (simp add: take_bit_nat_eq_self)
    then show ?thesis unfolding unsigned_drop_bit_eq by (simp add: drop_bit_eq_div)
  qed
  ultimately show ?thesis
    by (simp add: radix_def)
qed

lemma unat_wide [simp]: "unat (ucast (x :: limb) :: 64 word) = unat x"
  by (simp add: unsigned_ucast_eq take_bit_nat_eq_self_iff order.strict_trans [OF limb_lt [unfolded radix_def]])

lemma unat_sum64:
  fixes a b :: "64 word"
  assumes "unat a + unat b < 2 ^ 64"
  shows "unat (a + b) = unat a + unat b"
  using assms by (simp add: unat_word_ariths)

lemma unat_prod64:
  fixes a b :: "64 word"
  assumes "unat a * unat b < 2 ^ 64"
  shows "unat (a * b) = unat a * unat b"
  using assms by (simp add: unat_word_ariths)

lemma sum_limbs:
  assumes "unat c \<le> 1"
  shows "unat ((ucast (x :: limb) :: 64 word) + ucast (y :: limb) + c) = unat x + unat y + unat c"
proof -
  have "unat x < 2 ^ 32" "unat y < 2 ^ 32"
    using limb_lt by (simp_all add: radix_def)
  then show ?thesis
    using assms by (simp add: unat_sum64)
qed

lemma mul_limbs:
  assumes "unat c < radix"
  shows "unat ((ucast (o' :: limb) :: 64 word) + ucast (x :: limb) * ucast (y :: limb) + c) =
    unat o' + unat x * unat y + unat c"
    and "unat o' + unat x * unat y + unat c < radix * radix"
proof -
  have lim: "unat o' \<le> radix - 1" "unat x \<le> radix - 1" "unat y \<le> radix - 1" "unat c \<le> radix - 1"
    using limb_lt [of o'] limb_lt [of x] limb_lt [of y] assms by linarith+
  have "unat x * unat y \<le> (radix - 1) * (radix - 1)"
    using lim by (intro mult_le_mono)
  moreover have "(radix - 1) * (radix - 1) + (radix - 1) + (radix - 1) < radix * radix"
    by (simp add: radix_def)
  ultimately show small: "unat o' + unat x * unat y + unat c < radix * radix"
    using lim by linarith
  have p: "unat x * unat y < 2 ^ 64" and s: "unat o' + unat x * unat y < 2 ^ 64"
    "unat o' + unat x * unat y + unat c < 2 ^ 64"
    using small by (simp_all add: radix_def)
  show "unat ((ucast o' :: 64 word) + ucast x * ucast y + c) = unat o' + unat x * unat y + unat c"
    using p s by (simp add: unat_sum64 unat_prod64)
qed

lemma carry_small:
  assumes "unat (t :: 64 word) < radix * k"
  shows "unat (drop_bit 32 t) < k"
proof -
  have "radix * unat (drop_bit 32 t) < radix * k"
    using split_limb [of t] assms by linarith
  then show ?thesis by simp
qed

subsection \<open>Addition\<close>

lemma mag_val_tl: "mag_val a = unat (limb_or_zero a) + radix * mag_val (tl a)"
  by (cases a) (simp_all add: limb_or_zero_def)

lemma add_mag_loop_val:
  "unat c \<le> 1 \<Longrightarrow> mag_val (add_mag_loop a b c) = mag_val a + mag_val b + unat c"
proof (induction a b c rule: add_mag_loop.induct)
  case (1 a b c)
  show ?case
  proof (cases "a = [] \<and> b = []")
    case True
    have "unat (ucast c :: limb) = unat c"
      using 1(2) by (simp add: unsigned_ucast_eq take_bit_nat_eq_self)
    then show ?thesis
      using True by (auto simp: add_mag_loop.simps word_gt_0)
  next
    case False
    define s where "s = (ucast (limb_or_zero a) :: 64 word) + ucast (limb_or_zero b) + c"
    have s: "unat s = unat (limb_or_zero a) + unat (limb_or_zero b) + unat c"
      unfolding s_def using 1(2) by (rule sum_limbs)
    then have "unat s < radix * 2"
      using limb_lt [of "limb_or_zero a"] limb_lt [of "limb_or_zero b"] 1(2) by linarith
    then have "unat (drop_bit 32 s) \<le> 1"
      using carry_small [of s 2] by simp
    then have "mag_val (add_mag_loop a b c) =
        unat (ucast s :: limb) + radix * (mag_val (tl a) + mag_val (tl b) + unat (drop_bit 32 s))"
      using 1(1) [OF False s_def]
      unfolding add_mag_loop.simps [of a b c] if_not_P [OF False] Let_def s_def [symmetric] by simp
    also have "\<dots> = mag_val a + mag_val b + unat c"
      using split_limb [of s] s mag_val_tl [of a] mag_val_tl [of b] by (simp add: algebra_simps)
    finally show ?thesis .
  qed
qed

lemma trimmed_Cons: "trimmed (x # xs) \<longleftrightarrow> (if xs = [] then x \<noteq> 0 else trimmed xs)"
  by (simp add: trimmed_def)

lemma trimmed_tl: "trimmed a \<Longrightarrow> trimmed (tl a)"
  by (cases a) (simp_all add: trimmed_Cons trimmed_def split: if_splits)

lemma add_mag_loop_trimmed:
  "unat c \<le> 1 \<Longrightarrow> trimmed a \<Longrightarrow> trimmed b \<Longrightarrow> trimmed (add_mag_loop a b c)"
proof (induction a b c rule: add_mag_loop.induct)
  case (1 a b c)
  show ?case
  proof (cases "a = [] \<and> b = []")
    case True
    have "ucast c \<noteq> (0 :: limb)" if "c \<noteq> 0"
    proof -
      have "unat (ucast c :: limb) = unat c"
        using 1(2) by (simp add: unsigned_ucast_eq take_bit_nat_eq_self)
      with that show ?thesis by (metis unat_eq_zero)
    qed
    then show ?thesis
      using True by (auto simp: add_mag_loop.simps trimmed_def word_gt_0)
  next
    case False
    define s where "s = (ucast (limb_or_zero a) :: 64 word) + ucast (limb_or_zero b) + c"
    have s: "unat s = unat (limb_or_zero a) + unat (limb_or_zero b) + unat c"
      unfolding s_def using 1(2) by (rule sum_limbs)
    then have "unat s < radix * 2"
      using limb_lt [of "limb_or_zero a"] limb_lt [of "limb_or_zero b"] 1(2) by linarith
    then have c': "unat (drop_bit 32 s) \<le> 1"
      using carry_small [of s 2] by simp
    let ?rest = "add_mag_loop (tl a) (tl b) (drop_bit 32 s)"
    have rest: "trimmed ?rest"
      using 1(1) [OF False s_def c'] 1(3,4) trimmed_tl by blast
    have unf: "add_mag_loop a b c = ucast s # ?rest"
      unfolding add_mag_loop.simps [of a b c] if_not_P [OF False] Let_def s_def ..
    have "ucast s \<noteq> (0 :: limb)" if nil: "?rest = []"
    proof -
      have "mag_val (tl a) + mag_val (tl b) + unat (drop_bit 32 s) = 0"
        using add_mag_loop_val [OF c', of "tl a" "tl b"] nil by simp
      then have "tl a = []" "tl b = []" "unat (drop_bit 32 s) = 0"
        using trimmed_zero [OF trimmed_tl [OF 1(3)]] trimmed_zero [OF trimmed_tl [OF 1(4)]] by simp_all
      moreover have "0 < unat s"
        using False 1(3,4) calculation s
        by (cases a; cases b) (auto simp: trimmed_Cons limb_or_zero_def unat_gt_0)
      ultimately show ?thesis
        using split_limb [of s] by (metis add.right_neutral mult_0_right unsigned_0 less_irrefl)
    qed
    with rest show ?thesis
      unfolding unf trimmed_Cons by simp
  qed
qed

subsection \<open>Comparison and subtraction\<close>

text \<open>On equal lengths the most significant limb that differs decides.\<close>

lemma lex_cmp_snoc:
  "length as = length bs \<Longrightarrow>
    lex_cmp (as @ [x]) (bs @ [y]) = (case lex_cmp as bs of Equal \<Rightarrow> ord_of x y | r \<Rightarrow> r)"
  by (induction as bs rule: list_induct2) (simp_all add: ord_of_def)

lemma digit_order:
  assumes "x < radix" and "y < radix"
  shows "ord_of (x + radix * m) (y + radix * n) = (case ord_of m n of Equal \<Rightarrow> ord_of x y | r \<Rightarrow> r)"
proof -
  have less: "x + radix * m < y + radix * n" if "m < n" "x < radix" for m n x y
  proof -
    have "x + radix * m < radix * (m + 1)" using that(2) by simp
    also have "\<dots> \<le> radix * n" using that(1) by (intro mult_le_mono2) simp
    finally show ?thesis by simp
  qed
  consider "m < n" | "n < m" | "m = n" by linarith
  then show ?thesis
  proof cases
    case 1
    then show ?thesis using less [OF 1 assms(1), of y] by (simp add: ord_of_def)
  next
    case 2
    then show ?thesis using less [OF 2 assms(2), of x] by (simp add: ord_of_def)
  qed (simp add: ord_of_def)
qed

lemma lex_cmp_val:
  "length a = length b \<Longrightarrow> lex_cmp (rev a) (rev b) = ord_of (mag_val a) (mag_val b)"
proof (induction a b rule: list_induct2)
  case Nil
  then show ?case by (simp add: ord_of_def)
next
  case (Cons x xs y ys)
  have "ord_of x y = ord_of (unat x) (unat y)"
    by (simp add: ord_of_def word_less_nat_alt)
  then show ?case
    using Cons lex_cmp_snoc [of "rev xs" "rev ys" x y] digit_order [OF limb_lt limb_lt, of x "mag_val xs" y "mag_val ys"]
    by (simp split: ordering.split)
qed

lemma cmp_mag_val:
  assumes "trimmed a" and "trimmed b"
  shows "cmp_mag a b = ord_of (mag_val a) (mag_val b)"
proof -
  consider "length a < length b" | "length b < length a" | "length a = length b" by linarith
  then show ?thesis
  proof cases
    case 1
    then show ?thesis using trimmed_longer [OF assms(2) 1] by (simp add: cmp_mag_def ord_of_def)
  next
    case 2
    then show ?thesis using trimmed_longer [OF assms(1) 2] by (simp add: cmp_mag_def ord_of_def)
  next
    case 3
    then show ?thesis by (simp add: cmp_mag_def lex_cmp_val)
  qed
qed

lemma mag_val_inj: "trimmed a \<Longrightarrow> trimmed b \<Longrightarrow> mag_val a = mag_val b \<Longrightarrow> a = b"
proof (induction a arbitrary: b)
  case Nil
  then show ?case using trimmed_zero [of b] by simp
next
  case (Cons x xs)
  have "b \<noteq> []"
    using Cons.prems trimmed_zero [of "x # xs"] by auto
  then obtain y ys where b: "b = y # ys" by (cases b) auto
  have eq: "unat x + radix * mag_val xs = unat y + radix * mag_val ys"
    using Cons.prems(3) b by simp
  have "unat x = (unat x + radix * mag_val xs) mod radix" "unat y = (unat y + radix * mag_val ys) mod radix"
    using limb_lt by simp_all
  then have xy: "unat x = unat y" using eq by simp
  then have "mag_val xs = mag_val ys" using eq by simp
  then have "xs = ys"
    using Cons.IH [of ys] Cons.prems trimmed_tl [of "x # xs"] trimmed_tl [of b] b by simp
  with xy b show ?case by (simp add: word_unat_eq_iff)
qed

lemma uint_small: "0 \<le> d \<Longrightarrow> d < 2 ^ 32 \<Longrightarrow> uint (word_of_int d :: limb) = d"
  by (simp add: uint_word_of_int_eq take_bit_int_eq_self)

lemma sub_mag_loop_val:
  assumes "borrow \<in> {0, 1}" and "length b \<le> length a" and "int (mag_val b) + borrow \<le> int (mag_val a)"
  shows "int (mag_val (sub_mag_loop a b borrow)) = int (mag_val a) - int (mag_val b) - borrow"
  using assms
proof (induction a b borrow rule: sub_mag_loop.induct)
  case (1 b borrow)
  then show ?case by simp
next
  case (2 x a b borrow)
  define y where "y = limb_or_zero b"
  define d where "d = uint x - uint y - borrow"
  let ?R = "int radix"
  have R: "?R = 2 ^ 32" by (simp add: radix_def)
  have bor: "0 \<le> borrow" "borrow \<le> 1" using 2(3) by auto
  have xy: "0 \<le> uint x" "uint x < ?R" "0 \<le> uint y" "uint y < ?R"
    using uint_lt2p [of x] uint_lt2p [of y] by (simp_all add: R)
  have b: "int (mag_val b) = uint y + ?R * int (mag_val (tl b))"
    using mag_val_tl [of b] by (simp add: y_def)
  have a: "int (mag_val (x # a)) = uint x + ?R * int (mag_val a)"
    by simp
  have len: "length (tl b) \<le> length a" using 2(4) by simp
  show ?case
  proof (cases "d < 0")
    case True
    have "int (mag_val (tl b)) + 1 \<le> int (mag_val a)"
    proof (rule ccontr)
      assume "\<not> ?thesis"
      then have "?R * int (mag_val a) \<le> ?R * int (mag_val (tl b))"
        by (intro mult_left_mono) auto
      then show False
        using True 2(5) a b xy unfolding d_def by linarith
    qed
    then have "int (mag_val (sub_mag_loop a (tl b) 1)) = int (mag_val a) - int (mag_val (tl b)) - 1"
      using 2(1) [OF d_def [unfolded y_def] True _ len] by simp
    moreover have "uint (word_of_int (d + 2 ^ 32) :: limb) = d + 2 ^ 32"
      using True xy bor unfolding d_def R by (intro uint_small) linarith+
    moreover have "int (mag_val (sub_mag_loop (x # a) b borrow)) =
        uint (word_of_int (d + 2 ^ 32) :: limb) + ?R * int (mag_val (sub_mag_loop a (tl b) 1))"
      unfolding sub_mag_loop.simps Let_def y_def [symmetric] d_def [symmetric] if_P [OF True] by simp
    ultimately show ?thesis
      unfolding a b by (simp only: R d_def) (simp add: algebra_simps)
  next
    case False
    have "int (mag_val (tl b)) \<le> int (mag_val a)"
    proof (rule ccontr)
      assume "\<not> ?thesis"
      then have "?R * (int (mag_val a) + 1) \<le> ?R * int (mag_val (tl b))"
        by (intro mult_left_mono) auto
      then show False
        using 2(3,5) a b xy by (auto simp: algebra_simps)
    qed
    then have "int (mag_val (sub_mag_loop a (tl b) 0)) = int (mag_val a) - int (mag_val (tl b))"
      using 2(2) [OF d_def [unfolded y_def] False _ len] by simp
    moreover have "uint (word_of_int d :: limb) = d"
      using False xy bor unfolding d_def R by (intro uint_small) linarith+
    moreover have "int (mag_val (sub_mag_loop (x # a) b borrow)) =
        uint (word_of_int d :: limb) + ?R * int (mag_val (sub_mag_loop a (tl b) 0))"
      unfolding sub_mag_loop.simps Let_def y_def [symmetric] d_def [symmetric] if_not_P [OF False] by simp
    ultimately show ?thesis
      unfolding a b by (simp only: R d_def) (simp add: algebra_simps)
  qed
qed

lemma sub_mag_val:
  assumes "length b \<le> length a" and "mag_val b \<le> mag_val a"
  shows "mag_val (sub_mag a b) = mag_val a - mag_val b"
proof -
  have "int (mag_val (sub_mag a b)) = int (mag_val a) - int (mag_val b)"
    using sub_mag_loop_val [of 0 b a] assms by (simp add: sub_mag_def)
  then show ?thesis by linarith
qed

lemma mag_le_length: "trimmed b \<Longrightarrow> mag_val b \<le> mag_val a \<Longrightarrow> length b \<le> length a"
  using trimmed_longer [of b a] by (meson not_le)

subsection \<open>Multiplication\<close>

lemma mag_val_update:
  assumes "k < length out"
  shows "int (mag_val (out[k := d])) = int (mag_val out) + int (radix ^ k) * (int (unat d) - int (unat (out ! k)))"
  using assms
proof (induction out arbitrary: k)
  case (Cons x xs)
  show ?case
  proof (cases k)
    case (Suc j)
    then have "j < length xs" using Cons.prems by simp
    from Cons.IH [OF this] show ?thesis
      unfolding Suc list_update.simps nat.case mag_val.simps nth_Cons_Suc of_nat_add of_nat_mult
      by (simp only: power_Suc of_nat_mult) (simp add: algebra_simps)
  qed (simp add: algebra_simps)
qed simp

lemma mul_row_val:
  assumes "k + length b \<le> length out" and "unat c < radix" and "mul_row out k x b c = (out', c')"
  shows "length out' = length out \<and> unat c' < radix \<and>
    int (mag_val out') + int (radix ^ (k + length b)) * int (unat c') =
    int (mag_val out) + int (radix ^ k) * (int (unat x) * int (mag_val b) + int (unat c))"
  using assms
proof (induction out k x b c rule: mul_row.induct)
  case (1 out k x c)
  then show ?case by simp
next
  case (2 out k x y b c)
  define t where "t = (ucast (out ! k) :: 64 word) + ucast x * ucast y + c"
  have t: "unat t = unat (out ! k) + unat x * unat y + unat c" "unat t < radix * radix"
    using mul_limbs [OF 2(3), of "out ! k" x y] by (simp_all add: t_def)
  have carry: "unat (drop_bit 32 t) < radix"
    using t(2) by (rule carry_small)
  have row: "mul_row (out[k := ucast t]) (k + 1) x b (drop_bit 32 t) = (out', c')"
    using 2(4) by (simp add: t_def Let_def)
  have ih: "length out' = length out" "unat c' < radix"
    "int (mag_val out') + int (radix ^ (k + 1 + length b)) * int (unat c') =
     int (mag_val (out[k := ucast t])) +
     int (radix ^ (k + 1)) * (int (unat x) * int (mag_val b) + int (unat (drop_bit 32 t)))"
    using 2(1) [OF t_def _ carry row] 2(2) by simp_all
  have split: "int (unat t) = int (unat (ucast t :: limb)) + int radix * int (unat (drop_bit 32 t))"
    using split_limb [of t] by (metis of_nat_add of_nat_mult)
  have upd: "int (mag_val (out[k := ucast t])) =
      int (mag_val out) + int (radix ^ k) * (int (unat (ucast t :: limb)) - int (unat (out ! k)))"
    using 2(2) by (intro mag_val_update) simp
  have "int (mag_val out') + int (radix ^ (k + 1 + length b)) * int (unat c') =
      int (mag_val out) + int (radix ^ k) *
        (int (unat t) - int (unat (out ! k)) + int radix * (int (unat x) * int (mag_val b)))"
    unfolding ih(3) upd split by (simp add: algebra_simps)
  also have "\<dots> = int (mag_val out) + int (radix ^ k) *
      (int (unat x) * int (mag_val (y # b)) + int (unat c))"
    unfolding t(1) by (simp add: algebra_simps)
  finally show ?case
    using ih(1,2) by simp
qed

text \<open>A carry that fits is absorbed before the end of the array.\<close>

lemma carry_loop_val:
  assumes "k \<le> length out" and "unat c < radix"
    and "mag_val out + radix ^ k * unat c < radix ^ length out"
  shows "length (carry_loop out k c) = length out \<and>
    mag_val (carry_loop out k c) = mag_val out + radix ^ k * unat c"
  using assms
proof (induction out k c rule: carry_loop.induct)
  case (1 out k c)
  show ?case
  proof (cases "0 < c")
    case False
    then have "c = 0" by (simp add: word_gt_0)
    then show ?thesis by (simp add: carry_loop.simps)
  next
    case c: True
    have k: "k < length out"
    proof (rule ccontr)
      assume "\<not> ?thesis"
      then have "k = length out" using 1(2) by simp
      moreover have "0 < unat c" using c by (simp add: word_gt_0 unat_gt_0)
      ultimately have "radix ^ length out \<le> radix ^ k * unat c" by simp
      with 1(4) show False by linarith
    qed
    with c have guard: "0 < c \<and> k < length out" by blast
    define t where "t = (ucast (out ! k) :: 64 word) + c"
    have lim: "unat (out ! k) + unat c < radix * 2"
      using limb_lt [of "out ! k"] 1(3) by simp
    then have "unat (out ! k) + unat c < 2 ^ 64"
      by (simp add: radix_def)
    then have t: "unat t = unat (out ! k) + unat c"
      by (simp add: t_def unat_sum64)
    have carry: "unat (drop_bit 32 t) < 2"
      using carry_small [of t 2] lim t by simp
    then have carry': "unat (drop_bit 32 t) < radix"
      by (simp add: radix_def)
    have split: "int (unat t) = int (unat (ucast t :: limb)) + int radix * int (unat (drop_bit 32 t))"
      using split_limb [of t] by (metis of_nat_add of_nat_mult)
    have "int (mag_val (out[k := ucast t])) + int (radix ^ (k + 1)) * int (unat (drop_bit 32 t)) =
        int (mag_val out) + int (radix ^ k) * (int (unat t) - int (unat (out ! k)))"
      unfolding mag_val_update [OF k] split by (simp add: algebra_simps)
    also have "\<dots> = int (mag_val out) + int (radix ^ k) * int (unat c)"
      by (simp add: t)
    finally have "int (mag_val (out[k := ucast t]) + radix ^ (k + 1) * unat (drop_bit 32 t)) =
        int (mag_val out + radix ^ k * unat c)"
      by (simp only: of_nat_add of_nat_mult)
    then have step: "mag_val (out[k := ucast t]) + radix ^ (k + 1) * unat (drop_bit 32 t) =
        mag_val out + radix ^ k * unat c"
      by (simp only: of_nat_eq_iff)
    have "length (carry_loop (out[k := ucast t]) (k + 1) (drop_bit 32 t)) = length (out[k := ucast t]) \<and>
        mag_val (carry_loop (out[k := ucast t]) (k + 1) (drop_bit 32 t)) =
        mag_val (out[k := ucast t]) + radix ^ (k + 1) * unat (drop_bit 32 t)"
    proof (rule 1(1) [OF guard t_def _ carry'])
      show "k + 1 \<le> length (out[k := ucast t])" using k by simp
      show "mag_val (out[k := ucast t]) + radix ^ (k + 1) * unat (drop_bit 32 t) <
          radix ^ length (out[k := ucast t])"
        using 1(4) unfolding step by simp
    qed
    moreover have "carry_loop out k c = carry_loop (out[k := ucast t]) (k + 1) (drop_bit 32 t)"
      unfolding carry_loop.simps [of out k c] if_P [OF guard] Let_def t_def ..
    ultimately show ?thesis
      using step by simp
  qed
qed

lemma row_bound:
  fixes R :: nat
  assumes "m < R ^ (i + n)" and "x < R" and "b < R ^ n"
  shows "m + R ^ i * (x * b) < R ^ (i + 1 + n)"
proof -
  have "x * b \<le> (R - 1) * R ^ n"
    using assms(2,3) by (intro mult_le_mono) auto
  then have "R ^ i * (x * b) \<le> R ^ i * ((R - 1) * R ^ n)"
    by simp
  also have "\<dots> = (R - 1) * R ^ (i + n)"
    by (simp add: power_add)
  finally have "m + R ^ i * (x * b) < R ^ (i + n) + (R - 1) * R ^ (i + n)"
    using assms(1) by linarith
  also have "\<dots> = R ^ (i + 1 + n)"
    using assms(2) by (cases R) (simp_all add: power_add)
  finally show ?thesis .
qed

lemma mul_rows_val:
  assumes "i + length a + length b \<le> length out" and "mag_val out < radix ^ (i + length b)"
  shows "mag_val (mul_rows out i a b) = mag_val out + radix ^ i * (mag_val a * mag_val b)"
  using assms
proof (induction a arbitrary: out i)
  case (Cons x a)
  obtain out1 c where row: "mul_row out i x b 0 = (out1, c)"
    by fastforce
  let ?T = "mag_val out + radix ^ i * (unat x * mag_val b)"
  have len: "length out1 = length out" and c: "unat c < radix"
    and v: "int (mag_val out1) + int (radix ^ (i + length b)) * int (unat c) =
      int (mag_val out) + int (radix ^ i) * (int (unat x) * int (mag_val b) + int (unat (0 :: 64 word)))"
    using mul_row_val [OF _ _ row] Cons.prems(1) by simp_all
  have "int (mag_val out1 + radix ^ (i + length b) * unat c) = int ?T"
    using v by simp
  then have T: "mag_val out1 + radix ^ (i + length b) * unat c = ?T"
    by (simp only: of_nat_eq_iff)
  have small: "?T < radix ^ (i + 1 + length b)"
    using Cons.prems(2) limb_lt mag_val_lt by (rule row_bound)
  also have "\<dots> \<le> radix ^ length out1"
    using Cons.prems(1) len by (intro power_increasing) auto
  finally have fits: "mag_val out1 + radix ^ (i + length b) * unat c < radix ^ length out1"
    unfolding T .
  have "i + length b \<le> length out1"
    using Cons.prems(1) len by simp
  from carry_loop_val [OF this c fits]
  have carry: "length (carry_loop out1 (i + length b) c) = length out"
    "mag_val (carry_loop out1 (i + length b) c) = ?T"
    by (simp_all only: T len)
  have "mag_val (mul_rows out i (x # a) b) = ?T + radix ^ (i + 1) * (mag_val a * mag_val b)"
    using Cons.IH [of "i + 1" "carry_loop out1 (i + length b) c"] Cons.prems(1) carry small row by simp
  also have "\<dots> = mag_val out + radix ^ i * (mag_val (x # a) * mag_val b)"
    by (simp add: algebra_simps)
  finally show ?case .
qed simp

lemma mul_mag_val: "mag_val (mul_mag a b) = mag_val a * mag_val b"
proof (cases "a = [] \<or> b = []")
  case False
  then show ?thesis
    using mul_rows_val [of 0 a b "replicate (length a + length b) 0"] by (simp add: mul_mag_def)
qed (auto simp: mul_mag_def)

lemma mul_mag_trimmed: "trimmed (mul_mag a b)"
  by (simp add: mul_mag_def trimmed_def [of "[]"])

subsection \<open>Signed integers\<close>

text \<open>The fields of \<open>Z\<close>, and the canonical ones: no trailing zero limb, zero not negative.\<close>

datatype zrep = ZRep (zneg: bool) (zmag: "limb list")

definition canonical :: "zrep \<Rightarrow> bool" where
  "canonical z \<longleftrightarrow> trimmed (zmag z) \<and> (zmag z = [] \<longrightarrow> \<not> zneg z)"

typedef zint = "{z. canonical z}" morphisms zint_rep Abs_zint
  by (intro exI [of _ "ZRep False []"]) (simp add: canonical_def trimmed_def)

setup_lifting type_definition_zint

lift_definition z_zero :: zint is "ZRep False []"
  by (simp add: canonical_def trimmed_def)

lift_definition z_from_i64 :: "64 word \<Rightarrow> zint" is
  "\<lambda>v. let m = (if sint v < 0 then - v else v);
           mag = trim [ucast m, ucast (drop_bit 32 m)]
       in ZRep (sint v < 0 \<and> m \<noteq> 0) mag"
proof -
  fix v :: "64 word"
  let ?m = "if sint v < 0 then - v else v"
  have "?m = 0" if "trim [ucast ?m, ucast (drop_bit 32 ?m)] = ([] :: limb list)"
  proof -
    have "mag_val [ucast ?m, ucast (drop_bit 32 ?m)] = 0"
      using that mag_val_trim by (metis mag_val.simps(1))
    moreover have "unat (ucast (drop_bit 32 ?m) :: limb) = unat (drop_bit 32 ?m)"
    proof -
      have "unat ?m < radix * radix"
        using unsigned_less [of ?m] by (simp add: radix_def)
      then have "unat (drop_bit 32 ?m) < radix" by (rule carry_small)
      then show ?thesis
        by (simp add: unsigned_ucast_eq take_bit_nat_eq_self radix_def)
    qed
    ultimately have "unat (ucast ?m :: limb) + radix * unat (drop_bit 32 ?m) = 0"
      by simp
    then have "unat ?m = 0"
      using split_limb [of ?m] by linarith
    then show ?thesis
      using unat_eq_zero by blast
  qed
  then show "canonical (let m = ?m; mag = trim [ucast m, ucast (drop_bit 32 m)] in ZRep (sint v < 0 \<and> m \<noteq> 0) mag)"
    by (auto simp: canonical_def Let_def)
qed

lift_definition z_pow2 :: "nat \<Rightarrow> zint" is
  "\<lambda>k. ZRep False (replicate (k div 32) 0 @ [push_bit (k mod 32) 1])"
proof -
  fix k :: nat
  have "push_bit (k mod 32) (1 :: limb) \<noteq> 0"
    by (simp add: push_bit_eq_mult) 
  then show "canonical (ZRep False (replicate (k div 32) 0 @ [push_bit (k mod 32) 1]))"
    by (simp add: canonical_def trimmed_def)
qed

lift_definition z_is_neg :: "zint \<Rightarrow> bool" is zneg .

lift_definition z_is_pos :: "zint \<Rightarrow> bool" is "\<lambda>z. \<not> zneg z \<and> zmag z \<noteq> []" .

lift_definition z_neg :: "zint \<Rightarrow> zint" is "\<lambda>z. ZRep (\<not> zneg z \<and> zmag z \<noteq> []) (zmag z)"
  by (simp add: canonical_def)

definition add_rep :: "zrep \<Rightarrow> zrep \<Rightarrow> zrep" where
  "add_rep a b =
     (if zneg a = zneg b then ZRep (zneg a) (add_mag (zmag a) (zmag b))
      else case cmp_mag (zmag a) (zmag b) of
             Equal \<Rightarrow> ZRep False []
           | Greater \<Rightarrow> ZRep (zneg a) (sub_mag (zmag a) (zmag b))
           | Less \<Rightarrow> ZRep (zneg b) (sub_mag (zmag b) (zmag a)))"

definition mul_rep :: "zrep \<Rightarrow> zrep \<Rightarrow> zrep" where
  "mul_rep a b = (let mag = mul_mag (zmag a) (zmag b) in ZRep (mag \<noteq> [] \<and> zneg a \<noteq> zneg b) mag)"

definition cmp_rep :: "zrep \<Rightarrow> zrep \<Rightarrow> ordering" where
  "cmp_rep a b =
     (case (zneg a, zneg b) of
        (False, True) \<Rightarrow> Greater
      | (True, False) \<Rightarrow> Less
      | (False, False) \<Rightarrow> cmp_mag (zmag a) (zmag b)
      | (True, True) \<Rightarrow> cmp_mag (zmag b) (zmag a))"

lemma trimmed_sub_mag [simp]: "trimmed (sub_mag a b)"
  by (simp add: sub_mag_def)

lemma sub_mag_pos:
  assumes "trimmed a" and "trimmed b" and "mag_val b < mag_val a"
  shows "sub_mag a b \<noteq> []" and "mag_val (sub_mag a b) = mag_val a - mag_val b"
proof -
  show "mag_val (sub_mag a b) = mag_val a - mag_val b"
    using mag_le_length [OF assms(2), of a] assms(3) by (intro sub_mag_val) auto
  then show "sub_mag a b \<noteq> []"
    using assms(3) by auto
qed

lemma add_mag_spec:
  assumes "trimmed a" and "trimmed b"
  shows "trimmed (add_mag a b)" and "mag_val (add_mag a b) = mag_val a + mag_val b"
  using add_mag_loop_trimmed [of 0 a b] add_mag_loop_val [of 0 a b] assms by (simp_all add: add_mag_def)

lemma ord_of_cases:
  "ord_of a b = Less \<longleftrightarrow> a < b" "ord_of a b = Greater \<longleftrightarrow> b < a" "ord_of a b = Equal \<longleftrightarrow> a = b"
  by (auto simp: ord_of_def)

definition rep_val :: "zrep \<Rightarrow> int" where
  "rep_val z = (if zneg z then - int (mag_val (zmag z)) else int (mag_val (zmag z)))"

lemma add_rep_spec:
  assumes "canonical a" and "canonical b"
  shows "canonical (add_rep a b)" and "rep_val (add_rep a b) = rep_val a + rep_val b"
proof -
  have t: "trimmed (zmag a)" "trimmed (zmag b)"
    using assms by (simp_all add: canonical_def)
  note add = add_mag_spec [OF t] and c = cmp_mag_val [OF t]
  have both: "canonical (add_rep a b) \<and> rep_val (add_rep a b) = rep_val a + rep_val b"
  proof (cases "zneg a = zneg b")
    case True
    have "zneg a \<longrightarrow> add_mag (zmag a) (zmag b) \<noteq> []"
    proof
      assume "zneg a"
      then have "0 < mag_val (zmag a)"
        using assms(1) trimmed_zero [OF t(1)] by (auto simp: canonical_def)
      then show "add_mag (zmag a) (zmag b) \<noteq> []"
        using add(2) by auto
    qed
    then show ?thesis
      using True add by (auto simp: add_rep_def canonical_def rep_val_def)
  next
    case False
    consider "mag_val (zmag a) < mag_val (zmag b)" | "mag_val (zmag b) < mag_val (zmag a)"
      | "mag_val (zmag a) = mag_val (zmag b)" by linarith
    then show ?thesis
    proof cases
      case 1
      then show ?thesis
        using False sub_mag_pos [OF t(2,1) 1] c
        by (auto simp: add_rep_def canonical_def rep_val_def ord_of_def)
    next
      case 2
      then show ?thesis
        using False sub_mag_pos [OF t 2] c
        by (auto simp: add_rep_def canonical_def rep_val_def ord_of_def)
    next
      case 3
      then show ?thesis
        using False c by (auto simp: add_rep_def canonical_def rep_val_def ord_of_def trimmed_def)
    qed
  qed
  then show "canonical (add_rep a b)" and "rep_val (add_rep a b) = rep_val a + rep_val b"
    by blast+
qed

lemma mul_rep_spec:
  shows "canonical (mul_rep a b)" and "rep_val (mul_rep a b) = rep_val a * rep_val b"
proof -
  show "canonical (mul_rep a b)"
    by (simp add: mul_rep_def canonical_def mul_mag_trimmed Let_def)
  have "mag_val (zmag a) = 0 \<or> mag_val (zmag b) = 0" if "mul_mag (zmag a) (zmag b) = []"
    using that mul_mag_val [of "zmag a" "zmag b"] by simp
  then show "rep_val (mul_rep a b) = rep_val a * rep_val b"
    by (auto simp: mul_rep_def rep_val_def Let_def mul_mag_val)
qed

lemma cmp_rep_val:
  assumes "canonical a" and "canonical b"
  shows "cmp_rep a b = ord_of (rep_val a) (rep_val b)"
proof -
  have t: "trimmed (zmag a)" "trimmed (zmag b)"
    and pos: "zneg a \<Longrightarrow> 0 < mag_val (zmag a)" "zneg b \<Longrightarrow> 0 < mag_val (zmag b)"
    using assms trimmed_zero [of "zmag a"] trimmed_zero [of "zmag b"] by (auto simp: canonical_def)
  show ?thesis
    using pos cmp_mag_val [OF t] cmp_mag_val [OF t(2,1)]
    by (cases "zneg a"; cases "zneg b") (auto simp: cmp_rep_def rep_val_def ord_of_def)
qed

lemma rep_val_inj:
  assumes "canonical a" and "canonical b" and "rep_val a = rep_val b"
  shows "a = b"
proof -
  have t: "trimmed (zmag a)" "trimmed (zmag b)"
    and pos: "zneg a \<Longrightarrow> 0 < mag_val (zmag a)" "zneg b \<Longrightarrow> 0 < mag_val (zmag b)"
    using assms(1,2) trimmed_zero [of "zmag a"] trimmed_zero [of "zmag b"] by (auto simp: canonical_def)
  have "zneg a = zneg b" and "mag_val (zmag a) = mag_val (zmag b)"
    using assms(3) pos by (auto simp: rep_val_def split: if_splits)
  then show ?thesis
    using mag_val_inj [OF t] by (simp add: zrep.expand)
qed

lift_definition z_add :: "zint \<Rightarrow> zint \<Rightarrow> zint" is add_rep
  by (simp add: add_rep_spec)

lift_definition z_mul :: "zint \<Rightarrow> zint \<Rightarrow> zint" is mul_rep
  by (simp add: mul_rep_spec)

definition z_sub :: "zint \<Rightarrow> zint \<Rightarrow> zint" where
  "z_sub a b = z_add a (z_neg b)"

fun z_digits :: "zint \<Rightarrow> bytes \<Rightarrow> zint" where
  "z_digits z [] = z"
| "z_digits z (d # ds) = z_digits (z_add (z_mul z (z_from_i64 10)) (z_from_i64 (of_nat (digit_val d)))) ds"

definition z_from_digits :: "bytes \<Rightarrow> zint" where
  "z_from_digits ds = z_digits z_zero ds"

text \<open>\<open>Ord for Z\<close> and the derived equality of the fields.\<close>

instantiation zint :: linorder
begin

lift_definition less_eq_zint :: "zint \<Rightarrow> zint \<Rightarrow> bool" is "\<lambda>a b. cmp_rep a b \<noteq> Greater" .
lift_definition less_zint :: "zint \<Rightarrow> zint \<Rightarrow> bool" is "\<lambda>a b. cmp_rep a b = Less" .

instance
proof
  fix x y z :: zint
  show "(x < y) = (x \<le> y \<and> \<not> y \<le> x)" "x \<le> x" "x \<le> y \<Longrightarrow> y \<le> z \<Longrightarrow> x \<le> z"
    "x \<le> y \<Longrightarrow> y \<le> x \<Longrightarrow> x = y" "x \<le> y \<or> y \<le> x"
    by (transfer, auto simp: cmp_rep_val ord_of_def rep_val_inj split: if_splits)+
qed

end

instantiation zint :: equal
begin

lift_definition equal_zint :: "zint \<Rightarrow> zint \<Rightarrow> bool" is "(=)" .

instance
  by standard (transfer, simp)

end

subsection \<open>The integers they are\<close>

named_theorems zval_simps \<open>the value of an integer operation\<close>

lift_definition zval :: "zint \<Rightarrow> int" is rep_val .

lemma zval_zero [zval_simps, simp]: "zval z_zero = 0"
  by transfer (simp add: rep_val_def)

lemma zval_neg [zval_simps]: "zval (z_neg a) = - zval a"
proof (transfer)
  fix a assume "canonical a"
  then have "zneg a \<longrightarrow> zmag a \<noteq> []" and "zmag a = [] \<longrightarrow> mag_val (zmag a) = 0"
    by (auto simp: canonical_def)
  then show "rep_val (ZRep (\<not> zneg a \<and> zmag a \<noteq> []) (zmag a)) = - rep_val a"
    by (auto simp: rep_val_def)
qed

lemma zval_add [zval_simps]: "zval (z_add a b) = zval a + zval b"
  by transfer (rule add_rep_spec)

lemma zval_mul [zval_simps]: "zval (z_mul a b) = zval a * zval b"
  by transfer (rule mul_rep_spec)

lemma zval_sub [zval_simps]: "zval (z_sub a b) = zval a - zval b"
  by (simp add: z_sub_def zval_simps)

lemma zval_is_neg [zval_simps]: "z_is_neg a \<longleftrightarrow> zval a < 0"
proof (transfer)
  fix a assume "canonical a"
  then have "zneg a \<longrightarrow> 0 < mag_val (zmag a)"
    using trimmed_zero [of "zmag a"] by (auto simp: canonical_def)
  then show "zneg a = (rep_val a < 0)"
    by (auto simp: rep_val_def)
qed

lemma zval_is_pos [zval_simps]: "z_is_pos a \<longleftrightarrow> 0 < zval a"
proof (transfer)
  fix z assume z: "canonical z"
  then have "zmag z \<noteq> [] \<longleftrightarrow> 0 < mag_val (zmag z)"
    using trimmed_zero [of "zmag z"] by (auto simp: canonical_def)
  then show "(\<not> zneg z \<and> zmag z \<noteq> []) = (0 < rep_val z)"
    by (auto simp: rep_val_def)
qed

lemma zval_inj: "zval a = zval b \<longleftrightarrow> a = b"
  by transfer (auto simp: rep_val_inj)

lemma zval_le [zval_simps]: "a \<le> b \<longleftrightarrow> zval a \<le> zval b"
  by transfer (auto simp: cmp_rep_val ord_of_def)

lemma zval_less [zval_simps]: "a < b \<longleftrightarrow> zval a < zval b"
  by transfer (auto simp: cmp_rep_val ord_of_def)

lemma zval_pow2 [zval_simps]: "zval (z_pow2 k) = 2 ^ k"
proof (transfer)
  fix k :: nat
  have "unat (push_bit (k mod 32) (1 :: limb)) = 2 ^ (k mod 32)"
  proof -
    have "(2::nat) ^ (k mod 32) < 2 ^ 32"
      by (intro power_strict_increasing) auto
    then show ?thesis
      unfolding unsigned_push_bit_eq by (simp add: push_bit_eq_mult take_bit_nat_eq_self)
  qed
  then have "mag_val (replicate (k div 32) 0 @ [push_bit (k mod 32) 1]) = (2 ^ 32) ^ (k div 32) * 2 ^ (k mod 32)"
    by (simp add: mag_val_append radix_def)
  also have "\<dots> = 2 ^ (32 * (k div 32) + k mod 32)"
    by (simp only: power_add power_mult)
  also have "\<dots> = 2 ^ k"
    by simp
  finally show "rep_val (ZRep False (replicate (k div 32) 0 @ [push_bit (k mod 32) 1])) = 2 ^ k"
    by (simp add: rep_val_def)
qed

lemma abs_sint: "int (unat (if sint v < 0 then - v else v)) = \<bar>sint v\<bar>" for v :: "64 word"
proof (cases "sint v < 0")
  case True
  have u: "uint v = sint v + 2 ^ 64"
  proof -
    have "- (2 ^ 63) \<le> sint v"
      using sint_ge [of v] by simp
    then have "(sint v + 2 ^ 64) mod 2 ^ 64 = sint v + 2 ^ 64"
      using True by (intro mod_pos_pos_trivial) auto
    then show ?thesis
      using uint_sint [of v] by (simp add: take_bit_eq_mod)
  qed
  have "uint (- v) = (- uint v) mod 2 ^ 64"
    by (simp add: uint_word_ariths)
  also have "\<dots> = - sint v"
    using True u sint_ge [of v] by (simp add: mod_pos_pos_trivial)
  finally show ?thesis
    using True by simp
next
  case False
  then show ?thesis
    using uint_sint [of v] sint_lt [of v] by (simp add: take_bit_int_eq_self)
qed

lemma zval_from_i64 [zval_simps]: "zval (z_from_i64 v) = sint v"
proof -
  define m where "m = (if sint v < 0 then - v else v)"
  have "unat m < radix * radix"
    using unsigned_less [of m] by (simp add: radix_def)
  then have "unat (drop_bit 32 m) < radix" by (rule carry_small)
  then have "unat (ucast (drop_bit 32 m) :: limb) = unat (drop_bit 32 m)"
    by (simp add: unsigned_ucast_eq take_bit_nat_eq_self radix_def)
  then have "mag_val [ucast m, ucast (drop_bit 32 m)] = unat m"
    using split_limb [of m] by simp
  then have "rep_val (ZRep (sint v < 0 \<and> m \<noteq> 0) (trim [ucast m, ucast (drop_bit 32 m)])) = sint v"
    using abs_sint [of v] by (auto simp: rep_val_def m_def [symmetric])
  then show ?thesis
    by (simp only: zval.rep_eq z_from_i64.rep_eq Let_def m_def)
qed

lemma zval_small: "n < 2 ^ 63 \<Longrightarrow> zval (z_from_i64 (of_nat n)) = int n"
proof -
  assume "n < 2 ^ 63"
  then have "int n < 2 ^ 63"
    by simp
  then have "sint (word_of_int (int n) :: 64 word) = int n"
    by (subst sint_sbintrunc') (simp add: signed_take_bit_int_eq_self)
  then show ?thesis
    unfolding zval_from_i64 by simp
qed

lemma zval_digits: "all_digits ds \<Longrightarrow> zval (z_digits z ds) = zval z * 10 ^ length ds + int (dec_val ds)"
proof (induction ds arbitrary: z)
  case (Cons d ds)
  have d: "zval (z_from_i64 (of_nat (digit_val d))) = int (digit_val d)"
    using Cons.prems digit_val_le [of d] by (intro zval_small) auto
  have ten: "zval (z_from_i64 10) = 10"
    by (simp add: zval_from_i64)
  show ?case
    using Cons by (simp add: zval_add zval_mul d ten dec_val_Cons algebra_simps)
qed simp

lemma zval_from_digits: "all_digits ds \<Longrightarrow> zval (z_from_digits ds) = int (dec_val ds)"
  by (simp add: z_from_digits_def zval_digits)

end
