(* ===== verification/Lin_Algebra.thy ===== *)
theory Lin_Algebra
  imports Zint
begin

text \<open>
  The term algebra of \<open>crates/almide-verify/src/lin.rs\<close>: linear forms over slots, block bases and
  block capacities, kept as the code builds them (same terms, same order), and the Farkas test
  \<open>entails\<close>. A form read in an environment is an integer; as a fact it says that integer is at most
  zero. Each operation is shown to mean what its name says, and \<open>entails\<close> to be sound.
\<close>

subsection \<open>Linear forms\<close>

datatype lvar = S dnat | B dnat | C dnat

type_synonym term_list = "(lvar \<times> zint) list"

record lin =
  terms :: term_list
  cst :: zint

type_synonym facts = "lin list"
type_synonym pf = "(dnat \<times> zint) list \<times> zint"

definition z_one :: zint where
  "z_one = z_from_i64 1"

definition v1 :: "lvar \<Rightarrow> lin" where
  "v1 v = \<lparr>terms = [(v, z_one)], cst = z_zero\<rparr>"

definition kz :: "zint \<Rightarrow> lin" where
  "kz c = \<lparr>terms = [], cst = c\<rparr>"

definition scale :: "zint \<Rightarrow> term_list \<Rightarrow> term_list" where
  "scale k ts = map (\<lambda>(v, a). (v, z_mul k a)) ts"

definition ladd :: "lin \<Rightarrow> lin \<Rightarrow> lin" where
  "ladd a b = \<lparr>terms = terms a @ terms b, cst = z_add (cst a) (cst b)\<rparr>"

definition lneg :: "lin \<Rightarrow> lin" where
  "lneg a = \<lparr>terms = scale (z_from_i64 (-1)) (terms a), cst = z_neg (cst a)\<rparr>"

definition lsub :: "lin \<Rightarrow> lin \<Rightarrow> lin" where
  "lsub a b = ladd a (lneg b)"

definition lmul :: "zint \<Rightarrow> lin \<Rightarrow> lin" where
  "lmul k a = \<lparr>terms = scale k (terms a), cst = z_mul k (cst a)\<rparr>"

definition coef :: "term_list \<Rightarrow> lvar \<Rightarrow> zint" where
  "coef ts v = foldl (\<lambda>acc (_, a). z_add a acc) z_zero (filter (\<lambda>(u, _). u = v) ts)"

definition mentions :: "lvar \<Rightarrow> lin \<Rightarrow> bool" where
  "mentions v l \<longleftrightarrow> list_ex (\<lambda>(u, _). u = v) (terms l)"

definition kill :: "facts \<Rightarrow> lvar \<Rightarrow> facts" where
  "kill f v = filter (\<lambda>l. \<not> mentions v l) f"

definition kill_region :: "facts \<Rightarrow> dnat \<Rightarrow> facts" where
  "kill_region f r = kill (kill f (B r)) (C r)"

definition eqs :: "lvar \<Rightarrow> lin \<Rightarrow> facts" where
  "eqs v l = [lsub (v1 v) l, lsub l (v1 v)]"

definition dropv :: "lvar \<Rightarrow> term_list \<Rightarrow> term_list" where
  "dropv v ts = filter (\<lambda>(u, _). u \<noteq> v) ts"

definition subst_terms :: "lvar \<Rightarrow> lin \<Rightarrow> term_list \<Rightarrow> term_list" where
  "subst_terms v d ts = concat (map (\<lambda>(u, a). if u = v then scale a (terms d) else [(u, a)]) ts)"

definition lsubst :: "lvar \<Rightarrow> lin \<Rightarrow> lin \<Rightarrow> lin" where
  "lsubst v d f = \<lparr>terms = subst_terms v d (terms f), cst = z_add (cst f) (z_mul (coef (terms f) v) (cst d))\<rparr>"

subsection \<open>Entailment\<close>

definition fact_at :: "facts \<Rightarrow> dnat \<Rightarrow> lin option" where
  "fact_at f j = (case as_index j of None \<Rightarrow> None | Some i \<Rightarrow> if i < length f then Some (f ! i) else None)"

text \<open>The loop runs over the reversed pairs, so the first pair's terms come first.\<close>

fun comb :: "facts \<Rightarrow> (dnat \<times> zint) list \<Rightarrow> (term_list \<times> zint) option" where
  "comb f [] = Some ([], z_zero)"
| "comb f ((j, k) # ps) =
     (case comb f ps of
        None \<Rightarrow> None
      | Some (ts, c) \<Rightarrow>
          (case fact_at f j of
             None \<Rightarrow> None
           | Some g \<Rightarrow>
               if z_is_neg k then None
               else Some (scale k (terms g) @ ts, z_add (z_mul k (cst g)) c)))"

definition entails :: "facts \<Rightarrow> pf \<Rightarrow> lin \<Rightarrow> bool" where
  "entails f pf t =
     (let (ps, mu) = pf
      in if \<not> z_is_pos mu then False
         else case comb f ps of
                None \<Rightarrow> False
              | Some (ts, c) \<Rightarrow>
                  list_all (\<lambda>(v, _). coef ts v = z_mul mu (coef (terms t) v)) (ts @ terms t) \<and>
                  z_mul mu (cst t) \<le> c)"

subsection \<open>Values\<close>

type_synonym lenv = "lvar \<Rightarrow> int"

definition tval :: "lenv \<Rightarrow> term_list \<Rightarrow> int" where
  "tval rho ts = (\<Sum>(v, a)\<leftarrow>ts. zval a * rho v)"

definition lval :: "lenv \<Rightarrow> lin \<Rightarrow> int" where
  "lval rho l = tval rho (terms l) + zval (cst l)"

definition lsat :: "lenv \<Rightarrow> facts \<Rightarrow> bool" where
  "lsat rho f \<longleftrightarrow> (\<forall>l \<in> set f. lval rho l \<le> 0)"

named_theorems lval_simps \<open>the value of a linear form\<close>

lemma zval_one [zval_simps, simp]: "zval z_one = 1"
  by (simp add: z_one_def zval_simps)

lemma tval_Nil [simp]: "tval rho [] = 0"
  by (simp add: tval_def)

lemma tval_Cons: "tval rho ((v, a) # ts) = zval a * rho v + tval rho ts"
  by (simp add: tval_def)

lemma tval_append [simp]: "tval rho (xs @ ys) = tval rho xs + tval rho ys"
  by (simp add: tval_def)

lemma tval_scale [simp]: "tval rho (scale k ts) = zval k * tval rho ts"
  by (induction ts) (auto simp: tval_def scale_def zval_simps algebra_simps)

lemma lval_v1 [lval_simps]: "lval rho (v1 v) = rho v"
  by (simp add: lval_def v1_def tval_def)

lemma lval_kz [lval_simps]: "lval rho (kz c) = zval c"
  by (simp add: lval_def kz_def)

lemma lval_ladd [lval_simps]: "lval rho (ladd a b) = lval rho a + lval rho b"
  by (simp add: lval_def ladd_def zval_simps)

lemma lval_lneg [lval_simps]: "lval rho (lneg a) = - lval rho a"
  by (simp add: lval_def lneg_def zval_simps)

lemma lval_lsub [lval_simps]: "lval rho (lsub a b) = lval rho a - lval rho b"
  by (simp add: lsub_def lval_simps)

lemma lval_lmul [lval_simps]: "lval rho (lmul k a) = zval k * lval rho a"
  by (simp add: lval_def lmul_def zval_simps algebra_simps)

lemma lsat_Nil [simp]: "lsat rho []"
  by (simp add: lsat_def)

lemma lsat_Cons [simp]: "lsat rho (l # f) \<longleftrightarrow> lval rho l \<le> 0 \<and> lsat rho f"
  by (auto simp: lsat_def)

lemma lsat_append [simp]: "lsat rho (f @ g) \<longleftrightarrow> lsat rho f \<and> lsat rho g"
  by (auto simp: lsat_def)

lemma lsat_sub: "set f \<subseteq> set g \<Longrightarrow> lsat rho g \<Longrightarrow> lsat rho f"
  by (auto simp: lsat_def)

lemma lsat_eqs [simp]: "lsat rho (eqs v l) \<longleftrightarrow> rho v = lval rho l"
  by (auto simp: eqs_def lval_simps)

subsection \<open>Coefficients\<close>

lemma foldl_add_val:
  "zval (foldl (\<lambda>acc (_, a). z_add a acc) z ts) = zval z + (\<Sum>(_, a)\<leftarrow>ts. zval a)"
  by (induction ts arbitrary: z) (auto simp: zval_simps)

lemma zval_coef: "zval (coef ts v) = (\<Sum>(u, a)\<leftarrow>ts. if u = v then zval a else 0)"
proof -
  have "(\<Sum>(_, a)\<leftarrow>filter (\<lambda>(u, _). u = v) ts. zval a) = (\<Sum>(u, a)\<leftarrow>ts. if u = v then zval a else 0)"
    by (induction ts) auto
  then show ?thesis
    by (simp add: coef_def foldl_add_val)
qed

lemma coef_Cons: "zval (coef ((u, a) # ts) v) = (if u = v then zval a else 0) + zval (coef ts v)"
  by (simp add: zval_coef)

lemma coef_Nil [simp]: "zval (coef [] v) = 0"
  by (simp add: zval_coef)

lemma tval_coef:
  assumes "finite V" and "fst ` set ts \<subseteq> V"
  shows "tval rho ts = (\<Sum>v\<in>V. zval (coef ts v) * rho v)"
  using assms(2)
proof (induction ts)
  case (Cons p ts)
  obtain u a where p: "p = (u, a)" by (cases p)
  have "(\<Sum>v\<in>V. zval (coef (p # ts) v) * rho v) =
      (\<Sum>v\<in>V. (if u = v then zval a * rho v else 0) + zval (coef ts v) * rho v)"
    unfolding p coef_Cons by (rule sum.cong) (auto simp: algebra_simps)
  also have "\<dots> = zval a * rho u + tval rho ts"
    using Cons assms(1) p by (simp add: sum.distrib)
  finally show ?case
    by (simp add: p tval_Cons)
qed simp

lemma tval_dropv: "tval rho ts = zval (coef ts v) * rho v + tval rho (dropv v ts)"
  by (induction ts) (auto simp: dropv_def tval_Cons coef_Cons algebra_simps)

lemma tval_cong: "(\<And>v. v \<in> fst ` set ts \<Longrightarrow> rho v = rho' v) \<Longrightarrow> tval rho ts = tval rho' ts"
  by (induction ts) (auto simp: tval_Cons)

lemma tval_dropv_upd [simp]: "tval (rho(v := z)) (dropv v ts) = tval rho (dropv v ts)"
  by (rule tval_cong) (auto simp: dropv_def)

lemma lval_upd_other:
  assumes "\<not> mentions v l"
  shows "lval (rho(v := z)) l = lval rho l"
proof -
  have "tval (rho(v := z)) (terms l) = tval rho (terms l)"
    using assms by (intro tval_cong) (auto simp: mentions_def list_ex_iff)
  then show ?thesis
    by (simp add: lval_def)
qed

lemma lval_coef0:
  assumes "zval (coef (terms l) v) = 0"
  shows "lval (rho(v := z)) l = lval rho l"
  using tval_dropv [of "rho(v := z)" "terms l" v] tval_dropv [of rho "terms l" v] assms
  by (simp add: lval_def)

lemma lsat_kill: "lsat rho f \<Longrightarrow> lsat (rho(v := z)) (kill f v)"
  by (auto simp: lsat_def kill_def lval_upd_other)

lemma lsat_kill_same: "lsat rho f \<Longrightarrow> lsat rho (kill f v)"
  by (auto simp: lsat_def kill_def)

text \<open>A substituted form has the value the form has once the variable is the substitute's value.\<close>

lemma tval_subst:
  "tval rho (subst_terms v d ts) + zval (coef ts v) * zval (cst d) = tval (rho(v := lval rho d)) ts"
proof (induction ts)
  case (Cons p ts)
  obtain u a where p: "p = (u, a)" by (cases p)
  show ?case
  proof (cases "u = v")
    case True
    have "tval rho (subst_terms v d (p # ts)) = zval a * tval rho (terms d) + tval rho (subst_terms v d ts)"
      using True p by (simp add: subst_terms_def)
    moreover have "zval (coef (p # ts) v) = zval a + zval (coef ts v)"
      using True p by (simp add: coef_Cons)
    moreover have "tval (rho(v := lval rho d)) (p # ts) = zval a * lval rho d + tval (rho(v := lval rho d)) ts"
      using True p by (simp add: tval_Cons)
    ultimately show ?thesis
      using Cons by (simp add: lval_def algebra_simps del: fun_upd_apply)
  next
    case False
    then show ?thesis
      using Cons p by (simp add: subst_terms_def tval_Cons coef_Cons)
  qed
qed (simp add: subst_terms_def)

lemma lval_subst: "lval rho (lsubst v d f) = lval (rho(v := lval rho d)) f"
  using tval_subst [of rho v d "terms f"] by (simp add: lval_def lsubst_def zval_simps)

subsection \<open>Soundness of entailment\<close>

lemma fact_at_mem: "fact_at f j = Some g \<Longrightarrow> g \<in> set f"
  by (auto simp: fact_at_def split: option.splits if_splits)

lemma comb_sound:
  "lsat rho f \<Longrightarrow> comb f ps = Some (ts, c) \<Longrightarrow> tval rho ts + zval c \<le> 0"
proof (induction f ps arbitrary: ts c rule: comb.induct)
  case (2 f j k ps)
  obtain ts' c' g where r: "comb f ps = Some (ts', c')" "fact_at f j = Some g" "0 \<le> zval k"
    "ts = scale k (terms g) @ ts'" "c = z_add (z_mul k (cst g)) c'"
    using 2(3) by (auto simp: zval_is_neg split: option.splits if_splits)
  have "tval rho ts' + zval c' \<le> 0"
    using 2(1) [OF 2(2) r(1)] .
  moreover have "zval k * lval rho g \<le> 0"
    using 2(2) fact_at_mem [OF r(2)] r(3) by (simp add: lsat_def mult_nonneg_nonpos)
  ultimately show ?case
    using r(4,5) by (simp add: zval_simps lval_def algebra_simps)
qed (simp add: tval_def)

lemma entails_steps:
  assumes "entails f (ps, mu) t"
  shows "0 < zval mu \<and> (\<exists>ts c. comb f ps = Some (ts, c) \<and>
    (\<forall>p \<in> set (ts @ terms t). coef ts (fst p) = z_mul mu (coef (terms t) (fst p))) \<and> z_mul mu (cst t) \<le> c)"
proof (cases "comb f ps")
  case None
  then show ?thesis
    using assms by (simp add: entails_def split: if_splits)
next
  case (Some q)
  then obtain ts c where "comb f ps = Some (ts, c)"
    by (cases q) simp
  then show ?thesis
    using assms by (simp add: entails_def zval_is_pos list_all_iff case_prod_unfold split: if_splits)
qed

lemma entails_sound:
  assumes "lsat rho f" and "entails f pf t"
  shows "lval rho t \<le> 0"
proof -
  obtain ps mu ts c where pf: "pf = (ps, mu)" and mu: "0 < zval mu" and c: "comb f ps = Some (ts, c)"
    and all: "\<And>v. v \<in> fst ` set (ts @ terms t) \<Longrightarrow> zval (coef ts v) = zval mu * zval (coef (terms t) v)"
    and k: "zval mu * zval (cst t) \<le> zval c"
  proof -
    obtain ps mu where pf: "pf = (ps, mu)" by (cases pf)
    obtain ts c where "comb f ps = Some (ts, c)"
      "\<forall>p \<in> set (ts @ terms t). coef ts (fst p) = z_mul mu (coef (terms t) (fst p))" "z_mul mu (cst t) \<le> c"
      using entails_steps assms(2) unfolding pf by blast
    moreover have "0 < zval mu"
      using entails_steps assms(2) unfolding pf by blast
    ultimately show ?thesis
      by (intro that [OF pf]) (force simp: zval_simps)+
  qed
  let ?V = "fst ` set (ts @ terms t)"
  have "tval rho ts = (\<Sum>v\<in>?V. zval (coef ts v) * rho v)"
    by (rule tval_coef) auto
  also have "\<dots> = (\<Sum>v\<in>?V. zval mu * (zval (coef (terms t) v) * rho v))"
    by (rule sum.cong) (simp_all add: all)
  also have "\<dots> = zval mu * tval rho (terms t)"
    by (subst tval_coef [of ?V "terms t"]) (auto simp: sum_distrib_left)
  finally have "zval mu * lval rho t \<le> tval rho ts + zval c"
    using k by (simp add: lval_def algebra_simps)
  also have "\<dots> \<le> 0"
    by (rule comb_sound [OF assms(1) c])
  finally show ?thesis
    using mu by (simp add: mult_le_0_iff)
qed

end
