(* ===== verification/Lin.thy ===== *)
theory Lin
  imports Lin_Algebra
begin

text \<open>
  The linear-facts procedure checker, \<open>crates/almide-verify/src/lin.rs\<close>: the items of a body, the
  facts each leaves, the translation of a contract across a call, and \<open>lcheck\<close>, which returns the
  state a body falls through with and the state it breaks with.
\<close>

subsection \<open>Procedures\<close>

type_synonym lst = "facts option"
type_synonym larg = "dnat \<times> lin \<times> (pf \<times> pf) option"
type_synonym slot_map = "(dnat \<times> dnat) list"

datatype litem =
    LAcc dnat zint zint lin pf pf pf
  | LSto dnat zint zint lin pf pf pf
  | LHandle dnat dnat
  | LLen dnat dnat zint
  | LAlloc dnat dnat lin pf pf
  | LWf dnat
  | LStatic dnat zint zint
  | LSet dnat
  | LSetR dnat zint zint
  | LAsn dnat lin pf pf
  | LTest lin lin bool "pf \<times> pf" "pf \<times> pf" "pf \<times> pf" "litem list" "litem list"
  | LBranch "litem list" "litem list"
  | LLoop facts "pf list" "litem list"
  | LCont "pf list"
  | LBrk
  | LTrap
  | LCall dnat "larg list" slot_map slot_map dnat "pf list"
  | LRet "pf list"

record lproc =
  lpre :: facts
  lpost :: facts
  rslot :: dnat
  lbody :: "litem list"

type_synonym ltable = "(dnat \<times> lproc) list"

subsection \<open>The facts an item needs and leaves\<close>

definition i64min :: zint where
  "i64min = z_neg (z_pow2 63)"

definition i64max :: zint where
  "i64max = z_sub (z_pow2 63) z_one"

definition bare_slot :: "lin \<Rightarrow> bool" where
  "bare_slot l = (case terms l of
     [(S _, a)] \<Rightarrow> a = z_one \<and> cst l = z_zero
   | _ \<Rightarrow> False)"

definition no_wrap :: "facts \<Rightarrow> lin \<Rightarrow> pf \<times> pf \<Rightarrow> bool" where
  "no_wrap f l p \<longleftrightarrow>
     bare_slot l \<or> entails f (fst p) (lsub (kz i64min) l) \<and> entails f (snd p) (lsub l (kz i64max))"

definition fjoin :: "lst \<Rightarrow> lst \<Rightarrow> lst" where
  "fjoin a b = (case (a, b) of
     (None, x) \<Rightarrow> x
   | (Some fa, None) \<Rightarrow> Some fa
   | (Some fa, Some fb) \<Rightarrow> Some (filter (\<lambda>l. l \<in> set fb) fa))"

definition proves :: "facts \<Rightarrow> facts \<Rightarrow> pf list \<Rightarrow> bool" where
  "proves f g pfs \<longleftrightarrow>
     length g = length pfs \<and> list_all (\<lambda>(l, p). l \<in> set f \<or> entails f p l) (zip g pfs)"

definition acc_ok :: "facts \<Rightarrow> dnat \<Rightarrow> zint \<Rightarrow> zint \<Rightarrow> lin \<Rightarrow> pf \<Rightarrow> pf \<Rightarrow> pf \<Rightarrow> bool" where
  "acc_ok f r w off addr p0 p1 p2 =
     (let vb = v1 (B r); vc = v1 (C r)
      in z_is_pos w \<and> \<not> z_is_neg off \<and>
         entails f p0 (lneg addr) \<and>
         entails f p1 (lsub vb (ladd addr (kz off))) \<and>
         entails f p2 (lsub (ladd addr (kz (z_sub (z_add off w) (z_from_i64 12)))) (ladd vb vc)))"

definition asn_facts :: "facts \<Rightarrow> dnat \<Rightarrow> lin \<Rightarrow> pf \<Rightarrow> pf \<Rightarrow> facts" where
  "asn_facts f x l lo hi =
     (let vx = S x
      in if \<not> no_wrap f l (lo, hi) then kill f vx
         else let c = coef (terms l) vx
              in if c = z_zero then eqs vx l @ kill f vx
                 else if c = z_one then
                   (let d = lsub (v1 vx) \<lparr>terms = dropv vx (terms l), cst = cst l\<rparr>
                    in map (lsubst vx d) f)
                 else kill f vx)"

definition test_facts ::
    "facts \<Rightarrow> lin \<Rightarrow> lin \<Rightarrow> bool \<Rightarrow> pf \<times> pf \<Rightarrow> pf \<times> pf \<Rightarrow> pf \<times> pf \<Rightarrow> facts \<times> facts" where
  "test_facts f a b g pa pb nn =
     (if no_wrap f a pa \<and> no_wrap f b pb \<and>
         (g \<or> entails f (fst nn) (lneg a) \<and> entails f (snd nn) (lneg b))
      then ([lsub b a], [ladd (lsub a b) (kz z_one)]) else ([], []))"

definition handle_facts :: "facts \<Rightarrow> dnat \<Rightarrow> dnat \<Rightarrow> facts" where
  "handle_facts f h r = eqs (S h) (v1 (B r)) @ kill f (S h)"

definition len_facts :: "facts \<Rightarrow> dnat \<Rightarrow> dnat \<Rightarrow> zint \<Rightarrow> facts" where
  "len_facts f n r st =
     (let vn = v1 (S n) in [lneg vn, lsub (lmul st vn) (v1 (C r))] @ kill f (S n))"

definition alloc_ok :: "facts \<Rightarrow> dnat \<Rightarrow> dnat \<Rightarrow> lin \<Rightarrow> pf \<Rightarrow> pf \<Rightarrow> bool" where
  "alloc_ok f h r sz lo hi \<longleftrightarrow>
     entails f lo (lneg sz) \<and> entails f hi (lsub sz (kz (z_sub (z_pow2 32) z_one))) \<and>
     \<not> mentions (S h) sz \<and> \<not> mentions (B r) sz \<and> \<not> mentions (C r) sz"

definition alloc_facts :: "facts \<Rightarrow> dnat \<Rightarrow> dnat \<Rightarrow> lin \<Rightarrow> facts" where
  "alloc_facts f h r sz =
     eqs (S h) (v1 (B r)) @ [lsub sz (v1 (C r))] @ kill_region (kill f (S h)) r"

definition wf_facts :: "facts \<Rightarrow> dnat \<Rightarrow> facts" where
  "wf_facts f r =
     (let vb = v1 (B r); vc = v1 (C r);
          k = z_add (z_sub (z_from_i64 12) (z_pow2 32)) z_one
      in [lneg vb, lneg vc, ladd (ladd vb vc) (kz k)] @ f)"

definition static_facts :: "facts \<Rightarrow> dnat \<Rightarrow> zint \<Rightarrow> zint \<Rightarrow> facts" where
  "static_facts f r b0 c0 = eqs (B r) (kz b0) @ eqs (C r) (kz c0) @ kill_region f r"

definition range_facts :: "facts \<Rightarrow> dnat \<Rightarrow> zint \<Rightarrow> zint \<Rightarrow> facts" where
  "range_facts f x lo hi =
     (let vx = v1 (S x) in [lsub (kz lo) vx, lsub vx (kz hi)] @ kill f (S x))"

subsection \<open>Calls\<close>

fun assoc :: "dnat \<Rightarrow> (dnat \<times> 'a) list \<Rightarrow> 'a option" where
  "assoc k [] = None"
| "assoc k ((k2, a) # l) = (if k2 = k then Some a else assoc k l)"

fun tr_terms :: "(lvar \<Rightarrow> lin option) \<Rightarrow> term_list \<Rightarrow> lin option" where
  "tr_terms tr [] = Some (kz z_zero)"
| "tr_terms tr ((v, a) # ts) =
     (case tr v of
        None \<Rightarrow> None
      | Some d \<Rightarrow> (case tr_terms tr ts of None \<Rightarrow> None | Some m \<Rightarrow> Some (ladd (lmul a d) m)))"

definition tr_lin :: "(lvar \<Rightarrow> lin option) \<Rightarrow> lin \<Rightarrow> lin option" where
  "tr_lin tr l = (case tr_terms tr (terms l) of None \<Rightarrow> None | Some m \<Rightarrow> Some (ladd m (kz (cst l))))"

fun tr_all :: "(lvar \<Rightarrow> lin option) \<Rightarrow> facts \<Rightarrow> facts option" where
  "tr_all tr [] = Some []"
| "tr_all tr (g # gs) =
     (case tr_lin tr g of
        None \<Rightarrow> None
      | Some h \<Rightarrow> (case tr_all tr gs of None \<Rightarrow> None | Some hs \<Rightarrow> Some (h # hs)))"

definition tr_some :: "(lvar \<Rightarrow> lin option) \<Rightarrow> facts \<Rightarrow> facts" where
  "tr_some tr gs = concat (map (\<lambda>g. case tr_lin tr g of None \<Rightarrow> [] | Some h \<Rightarrow> [h]) gs)"

fun writes :: "litem list \<Rightarrow> dnat list" where
  "writes [] = []"
| "writes (LHandle h r # its) = h # writes its"
| "writes (LLen h r s # its) = h # writes its"
| "writes (LSet h # its) = h # writes its"
| "writes (LSetR h lo hi # its) = h # writes its"
| "writes (LAlloc h r sz lo hi # its) = h # writes its"
| "writes (LAsn x l lo hi # its) = x # writes its"
| "writes (LCall f args reps outs res pfs # its) = res # writes its"
| "writes (LTest a b g pa pb nn t e # its) = writes t @ writes e @ writes its"
| "writes (LBranch t e # its) = writes t @ writes e @ writes its"
| "writes (LLoop iv pin body # its) = writes body @ writes its"
| "writes (_ # its) = writes its"

fun rebinds :: "litem list \<Rightarrow> dnat list" where
  "rebinds [] = []"
| "rebinds (LAlloc h r sz lo hi # its) = r # rebinds its"
| "rebinds (LStatic r b0 c0 # its) = r # rebinds its"
| "rebinds (LCall f args reps outs res pfs # its) = map fst outs @ rebinds its"
| "rebinds (LTest a b g pa pb nn t e # its) = rebinds t @ rebinds e @ rebinds its"
| "rebinds (LBranch t e # its) = rebinds t @ rebinds e @ rebinds its"
| "rebinds (LLoop iv pin body # its) = rebinds body @ rebinds its"
| "rebinds (_ # its) = rebinds its"

definition lplook :: "ltable \<Rightarrow> dnat \<Rightarrow> lproc option" where
  "lplook P f = map_of P f"

text \<open>The arguments whose no-wrap proofs hold: the parameter is the argument's exact value.\<close>

definition valid_args :: "facts \<Rightarrow> larg list \<Rightarrow> (dnat \<times> lin) list" where
  "valid_args f args = concat (map (\<lambda>(q, l, pp). case pp of
     Some p \<Rightarrow> if no_wrap f l p then [(q, l)] else []
   | None \<Rightarrow> []) args)"

fun tr_in :: "(dnat \<times> lin) list \<Rightarrow> slot_map \<Rightarrow> lvar \<Rightarrow> lin option" where
  "tr_in a reps (S q) = assoc q a"
| "tr_in a reps (B r2) = map_option (\<lambda>r. v1 (B r)) (assoc r2 reps)"
| "tr_in a reps (C r2) = map_option (\<lambda>r. v1 (C r)) (assoc r2 reps)"

definition call_ok :: "(dnat \<times> lin) list \<Rightarrow> slot_map \<Rightarrow> slot_map \<Rightarrow> dnat \<Rightarrow> bool" where
  "call_ok a reps outs res \<longleftrightarrow>
     list_all (\<lambda>(_, l). \<not> mentions (S res) l \<and>
       list_all (\<lambda>q. \<not> mentions (B (fst q)) l \<and> \<not> mentions (C (fst q)) l) outs) a \<and>
     list_all (\<lambda>q. \<not> list_ex (\<lambda>q2. fst q2 = snd q) outs) reps"

definition out_of :: "slot_map \<Rightarrow> dnat \<Rightarrow> dnat option" where
  "out_of outs r2 = map_option fst (find (\<lambda>q. assoc (fst q) outs = Some r2) outs)"

definition tr_region :: "slot_map \<Rightarrow> slot_map \<Rightarrow> lproc \<Rightarrow> dnat \<Rightarrow> dnat option" where
  "tr_region reps outs d r2 = (case out_of outs r2 of
     Some r \<Rightarrow> Some r
   | None \<Rightarrow> if r2 \<in> set (rebinds (lbody d)) then None else assoc r2 reps)"

fun tr_out :: "(dnat \<times> lin) list \<Rightarrow> slot_map \<Rightarrow> slot_map \<Rightarrow> lproc \<Rightarrow> dnat \<Rightarrow> lvar \<Rightarrow> lin option" where
  "tr_out a reps outs d res (S q) =
     (if q = rslot d then Some (v1 (S res))
      else if q \<in> set (writes (lbody d)) then None
      else assoc q a)"
| "tr_out a reps outs d res (B r2) = map_option (\<lambda>r. v1 (B r)) (tr_region reps outs d r2)"
| "tr_out a reps outs d res (C r2) = map_option (\<lambda>r. v1 (C r)) (tr_region reps outs d r2)"

definition kill_outs :: "facts \<Rightarrow> slot_map \<Rightarrow> facts" where
  "kill_outs f outs = foldl (\<lambda>g q. kill_region g (fst q)) f outs"

definition call_facts ::
    "ltable \<Rightarrow> facts \<Rightarrow> dnat \<Rightarrow> larg list \<Rightarrow> slot_map \<Rightarrow> slot_map \<Rightarrow> dnat \<Rightarrow> pf list \<Rightarrow> facts option" where
  "call_facts P f g args reps outs res pfs =
     (case lplook P g of
        None \<Rightarrow> None
      | Some d \<Rightarrow>
          let a = valid_args f args
          in case tr_all (tr_in a reps) (lpre d) of
               None \<Rightarrow> None
             | Some pre2 \<Rightarrow>
                 if \<not> (proves f pre2 pfs \<and> call_ok a reps outs res) then None
                 else Some (tr_some (tr_out a reps outs d res) (lpost d) @
                            kill (kill_outs f outs) (S res)))"

subsection \<open>The check\<close>

text \<open>The context: the loop invariant inside a loop, and the postcondition.\<close>

type_synonym lctx = "facts option \<times> facts"

definition lfinish :: "lst list \<Rightarrow> lst \<Rightarrow> lst \<Rightarrow> (lst \<times> lst) option" where
  "lfinish joins s b = Some (s, foldr fjoin joins b)"

fun lcheck_loop :: "ltable \<Rightarrow> lctx \<Rightarrow> facts \<Rightarrow> lst list \<Rightarrow> litem list \<Rightarrow> (lst \<times> lst) option" where
  "lcheck_loop P c f joins [] = lfinish joins (Some f) None"
| "lcheck_loop P c f joins (LAcc r w off addr p0 p1 p2 # its) =
     (if \<not> acc_ok f r w off addr p0 p1 p2 then None else lcheck_loop P c f joins its)"
| "lcheck_loop P c f joins (LSto r w off addr p0 p1 p2 # its) =
     (if \<not> acc_ok f r w off addr p0 p1 p2 then None else lcheck_loop P c f joins its)"
| "lcheck_loop P c f joins (LHandle h r # its) = lcheck_loop P c (handle_facts f h r) joins its"
| "lcheck_loop P c f joins (LLen n r st # its) = lcheck_loop P c (len_facts f n r st) joins its"
| "lcheck_loop P c f joins (LAlloc h r sz lo hi # its) =
     (if \<not> alloc_ok f h r sz lo hi then None else lcheck_loop P c (alloc_facts f h r sz) joins its)"
| "lcheck_loop P c f joins (LWf r # its) = lcheck_loop P c (wf_facts f r) joins its"
| "lcheck_loop P c f joins (LStatic r b0 c0 # its) = lcheck_loop P c (static_facts f r b0 c0) joins its"
| "lcheck_loop P c f joins (LSet x # its) = lcheck_loop P c (kill f (S x)) joins its"
| "lcheck_loop P c f joins (LSetR x lo hi # its) = lcheck_loop P c (range_facts f x lo hi) joins its"
| "lcheck_loop P c f joins (LAsn x l lo hi # its) = lcheck_loop P c (asn_facts f x l lo hi) joins its"
| "lcheck_loop P c f joins (LTest a b g pa pb nn thn els # its) =
     (let (ft, fe) = test_facts f a b g pa pb nn
      in case lcheck_loop P c (ft @ f) [] thn of
           None \<Rightarrow> None
         | Some (st, bt) \<Rightarrow>
             (case lcheck_loop P c (fe @ f) [] els of
                None \<Rightarrow> None
              | Some (se, be) \<Rightarrow>
                  let j = fjoin bt be
                  in (case fjoin st se of
                        None \<Rightarrow> lfinish joins None j
                      | Some g \<Rightarrow> lcheck_loop P c g (joins @ [j]) its)))"
| "lcheck_loop P c f joins (LBranch thn els # its) =
     (case lcheck_loop P c f [] thn of
        None \<Rightarrow> None
      | Some (st, bt) \<Rightarrow>
          (case lcheck_loop P c f [] els of
             None \<Rightarrow> None
           | Some (se, be) \<Rightarrow>
               let j = fjoin bt be
               in (case fjoin st se of
                     None \<Rightarrow> lfinish joins None j
                   | Some g \<Rightarrow> lcheck_loop P c g (joins @ [j]) its)))"
| "lcheck_loop P c f joins (LLoop iv pin body # its) =
     (if \<not> proves f iv pin then None
      else case lcheck_loop P (Some iv, snd c) iv [] body of
             None \<Rightarrow> None
           | Some (sb, bb) \<Rightarrow>
               (case fjoin sb bb of
                  None \<Rightarrow> lfinish joins None None
                | Some g \<Rightarrow> lcheck_loop P c g joins its))"
| "lcheck_loop P c f joins (LCont pfs # its) =
     (case fst c of
        Some iv \<Rightarrow> if proves f iv pfs then lfinish joins None None else None
      | None \<Rightarrow> None)"
| "lcheck_loop P c f joins (LBrk # its) = lfinish joins None (Some f)"
| "lcheck_loop P c f joins (LTrap # its) = lfinish joins None None"
| "lcheck_loop P c f joins (LRet pfs # its) =
     (if proves f (snd c) pfs then lfinish joins None None else None)"
| "lcheck_loop P c f joins (LCall g args reps outs res pfs # its) =
     (case call_facts P f g args reps outs res pfs of
        None \<Rightarrow> None
      | Some f1 \<Rightarrow> lcheck_loop P c f1 joins its)"

definition lcheck :: "ltable \<Rightarrow> lctx \<Rightarrow> facts \<Rightarrow> litem list \<Rightarrow> (lst \<times> lst) option" where
  "lcheck P c f its = lcheck_loop P c f [] its"

definition lprocs_ok :: "ltable \<Rightarrow> bool" where
  "lprocs_ok P \<longleftrightarrow>
     distinct (map fst P) \<and>
     list_all (\<lambda>(_, d). lcheck P (None, lpost d) (lpre d) (lbody d) = Some (None, None)) P"

end
