(* ===== verification/Lin_Format.thy ===== *)
theory Lin_Format
  imports Lin Scan
begin

text \<open>
  The byte format of a \<open>Q\<close> procedure, the parser of \<open>crates/almide-verify/src/lin.rs\<close>: tokens
  separated by blanks and commas, linear forms \<open>[s0:1 b2:-1]5\<close>, proofs \<open>(0:1 3:2)1\<close>, and the items
  of a body. Every loop moves forward, so the parser returns on every input
  (\<open>lprog_at\<close> is total).
\<close>

subsection \<open>Tokens\<close>

definition is_sep :: "byte \<Rightarrow> bool" where
  "is_sep c \<longleftrightarrow> is_space c \<or> c = CHR '',''"

function sk :: "bytes \<Rightarrow> nat \<Rightarrow> nat" where
  "sk s i = (case sget s i of Some c \<Rightarrow> if is_sep c then sk s (i + 1) else i | None \<Rightarrow> i)"
  by pat_completeness auto
termination
  by (relation "measure (\<lambda>(s, i). length s - i)") (auto simp: sget_Some)

declare sk.simps [simp del]

definition tok :: "bytes \<Rightarrow> nat \<Rightarrow> byte \<Rightarrow> nat option" where
  "tok s i c = (let j = sk s i in if sget s j = Some c then Some (j + 1) else None)"

definition at_stop :: "bytes \<Rightarrow> nat \<Rightarrow> bool" where
  "at_stop s i = (case sget s (sk s i) of None \<Rightarrow> True | Some c \<Rightarrow> c \<in> set ''|}])'')"

definition digits_end :: "bytes \<Rightarrow> nat \<Rightarrow> nat" where
  "digits_end s i = i + run_len is_digit s i"

definition unum :: "bytes \<Rightarrow> nat \<Rightarrow> (zint \<times> nat) option" where
  "unum s i = (let e = digits_end s i in if i < e then Some (z_from_digits (subslice s i e), e) else None)"

definition nat_at :: "bytes \<Rightarrow> nat \<Rightarrow> (dnat \<times> nat) option" where
  "nat_at s i =
     (let j = sk s i; e = digits_end s j
      in if j < e then Some (from_digits (subslice s j e), e) else None)"

definition z_at :: "bytes \<Rightarrow> nat \<Rightarrow> (zint \<times> nat) option" where
  "z_at s i =
     (let j = sk s i
      in if sget s j = Some (CHR ''-'') then map_option (\<lambda>(z, k). (z_neg z, k)) (unum s (j + 1))
         else unum s j)"

lemma sk_ge: "i \<le> sk s i"
  by (induction s i rule: sk.induct) (subst sk.simps, auto split: option.splits)

lemma sk_le: "i \<le> length s \<Longrightarrow> sk s i \<le> length s"
  by (induction s i rule: sk.induct) (subst sk.simps, auto split: option.splits simp: sget_Some)

lemma tok_progress: "tok s i c = Some j \<Longrightarrow> i < j \<and> j \<le> length s"
  using sk_ge [of i s] by (auto simp: tok_def Let_def sget_Some split: if_splits)

lemma digits_end_le: "i < digits_end s i \<Longrightarrow> digits_end s i \<le> length s"
  using run_len_bound [of i s is_digit]
  by (cases "i \<le> length s") (auto simp: digits_end_def run_len_def)

lemma unum_progress: "unum s i = Some (z, j) \<Longrightarrow> i < j \<and> j \<le> length s"
  by (auto simp: unum_def Let_def digits_end_le split: if_splits)

lemma nat_at_progress: "nat_at s i = Some (n, j) \<Longrightarrow> i < j \<and> j \<le> length s"
  using sk_ge [of i s] by (auto simp: nat_at_def Let_def digits_end_le split: if_splits)

lemma z_at_progress: "z_at s i = Some (z, j) \<Longrightarrow> i < j \<and> j \<le> length s"
  using unum_progress [of s "sk s i"] unum_progress [of s "sk s i + 1"] sk_ge [of i s]
  by (fastforce simp: z_at_def Let_def split: if_splits)

lemmas token_progress = tok_progress nat_at_progress z_at_progress

subsection \<open>Repeated items\<close>

partial_function (option) many :: "'a scanner \<Rightarrow> bytes \<Rightarrow> nat \<Rightarrow> 'a list \<Rightarrow> ('a list \<times> nat) option" where
  "many item s i out =
     (if at_stop s i then Some (out, sk s i)
      else case item s i of
             None \<Rightarrow> None
           | Some (x, j) \<Rightarrow> many item s j (out @ [x]))"

declare many.simps [code]

context scanner
begin

lemma many_progress:
  "many item s i out = Some (r, j) \<Longrightarrow> i \<le> j \<and> (i \<le> length s \<longrightarrow> j \<le> length s)"
proof (induction "length s - i" arbitrary: i out rule: less_induct)
  case less
  show ?case
  proof (cases "at_stop s i")
    case True
    then have "j = sk s i"
      using less.prems by (subst (asm) many.simps) simp
    then show ?thesis
      using sk_ge [of i s] sk_le [of i s] by simp
  next
    case False
    then obtain x e where x: "item s i = Some (x, e)" "many item s e (out @ [x]) = Some (r, j)"
      using less.prems by (subst (asm) many.simps) (auto split: option.splits)
    show ?thesis
      using less.hyps [OF shrinks [OF x(1)] x(2)] forward [OF x(1)] by linarith
  qed
qed

text \<open>The loop returns: any function with its equation is \<open>many\<close>.\<close>

lemma many_unique:
  assumes "\<And>s i out. g s i out =
     (if at_stop s i then Some (out, sk s i)
      else case item s i of None \<Rightarrow> None | Some (x, j) \<Rightarrow> g s j (out @ [x]))"
  shows "g s i out = many item s i out"
proof (induction "length s - i" arbitrary: i out rule: less_induct)
  case less
  have "g s e (out @ [x]) = many item s e (out @ [x])" if "item s i = Some (x, e)" for x e
    using less.hyps [OF shrinks [OF that]] .
  then show ?case
    by (auto simp: assms [of s i] many.simps [of item s i] split: option.splits)
qed

end

definition term_at :: "(lvar \<times> zint) scanner" where
  "term_at s i = do {
     let j = sk s i;
     d \<leftarrow> sget s j;
     (n, k) \<leftarrow> nat_at s (j + 1);
     k \<leftarrow> tok s k (CHR '':'');
     (a, k) \<leftarrow> z_at s k;
     if d = CHR ''s'' then Some ((S n, a), k)
     else if d = CHR ''b'' then Some ((B n, a), k)
     else if d = CHR ''c'' then Some ((C n, a), k)
     else None }"

definition lin_at :: "lin scanner" where
  "lin_at s i = do {
     i \<leftarrow> tok s i (CHR ''['');
     (ts, i) \<leftarrow> many term_at s i [];
     i \<leftarrow> tok s i (CHR '']'');
     (c, i) \<leftarrow> z_at s i;
     Some (\<lparr>terms = ts, cst = c\<rparr>, i) }"

definition mult_at :: "(dnat \<times> zint) scanner" where
  "mult_at s i = do {
     (j, i) \<leftarrow> nat_at s i;
     i \<leftarrow> tok s i (CHR '':'');
     (k, i) \<leftarrow> z_at s i;
     Some ((j, k), i) }"

definition pf_at :: "pf scanner" where
  "pf_at s i = do {
     i \<leftarrow> tok s i (CHR ''('');
     (ms, i) \<leftarrow> many mult_at s i [];
     i \<leftarrow> tok s i (CHR '')'');
     (mu, i) \<leftarrow> z_at s i;
     Some ((ms, mu), i) }"

definition pf2_at :: "(pf \<times> pf) scanner" where
  "pf2_at s i = do { (a, i) \<leftarrow> pf_at s i; (b, i) \<leftarrow> pf_at s i; Some ((a, b), i) }"

definition map_at :: "(dnat \<times> dnat) scanner" where
  "map_at s i = do {
     (a, i) \<leftarrow> nat_at s i;
     i \<leftarrow> tok s i (CHR '':'');
     (b, i) \<leftarrow> nat_at s i;
     Some ((a, b), i) }"

definition arg_at :: "larg scanner" where
  "arg_at s i = do {
     (p, i) \<leftarrow> nat_at s i;
     i \<leftarrow> tok s i (CHR '':'');
     (l, i) \<leftarrow> lin_at s i;
     (case tok s i (CHR ''!'') of
        Some j \<Rightarrow> do { (pp, j) \<leftarrow> pf2_at s j; Some ((p, l, Some pp), j) }
      | None \<Rightarrow> Some ((p, l, None), i)) }"

definition pf3 :: "(pf \<times> pf \<times> pf) scanner" where
  "pf3 s i = do { (a, i) \<leftarrow> pf_at s i; (b, i) \<leftarrow> pf_at s i; (c, i) \<leftarrow> pf_at s i; Some ((a, b, c), i) }"

lemma term_at_progress: "term_at s i = Some (x, j) \<Longrightarrow> i < j \<and> j \<le> length s"
  using sk_ge [of i s]
  by (fastforce simp: term_at_def Let_def bind_Some_iff split: if_splits dest!: token_progress)

interpretation many_terms: scanner term_at "\<lambda>_. True"
  by unfold_locales (simp_all add: term_at_progress)

lemma mult_at_progress: "mult_at s i = Some (x, j) \<Longrightarrow> i < j \<and> j \<le> length s"
  by (auto simp: mult_at_def bind_Some_iff dest!: token_progress)

interpretation many_mults: scanner mult_at "\<lambda>_. True"
  by unfold_locales (simp_all add: mult_at_progress)

lemma lin_at_progress: "lin_at s i = Some (x, j) \<Longrightarrow> i < j \<and> j \<le> length s"
  by (auto simp: lin_at_def bind_Some_iff dest!: token_progress many_terms.many_progress)

interpretation many_lins: scanner lin_at "\<lambda>_. True"
  by unfold_locales (simp_all add: lin_at_progress)

lemma pf_at_progress: "pf_at s i = Some (x, j) \<Longrightarrow> i < j \<and> j \<le> length s"
  by (auto simp: pf_at_def bind_Some_iff dest!: token_progress many_mults.many_progress)

interpretation many_pfs: scanner pf_at "\<lambda>_. True"
  by unfold_locales (simp_all add: pf_at_progress)

lemma pf2_at_progress: "pf2_at s i = Some (x, j) \<Longrightarrow> i < j \<and> j \<le> length s"
  by (auto simp: pf2_at_def bind_Some_iff dest!: pf_at_progress)

lemma pf3_progress: "pf3 s i = Some (x, j) \<Longrightarrow> i < j \<and> j \<le> length s"
  by (auto simp: pf3_def bind_Some_iff dest!: pf_at_progress)

lemma map_at_progress: "map_at s i = Some (x, j) \<Longrightarrow> i < j \<and> j \<le> length s"
  by (auto simp: map_at_def bind_Some_iff dest!: token_progress)

interpretation many_maps: scanner map_at "\<lambda>_. True"
  by unfold_locales (simp_all add: map_at_progress)

lemma arg_at_progress:
  assumes "arg_at s i = Some (x, j)"
  shows "i < j \<and> j \<le> length s"
proof -
  obtain p a b l e where a: "nat_at s i = Some (p, a)" "tok s a (CHR '':'') = Some b" "lin_at s b = Some (l, e)"
    and r: "(case tok s e (CHR ''!'') of
        Some k \<Rightarrow> do { (pp, k) \<leftarrow> pf2_at s k; Some ((p, l, Some pp), k) }
      | None \<Rightarrow> Some ((p, l, None), e)) = Some (x, j)"
    using assms by (auto simp: arg_at_def bind_Some_iff)
  have "i < e" "e \<le> length s"
    using token_progress(2) [OF a(1)] token_progress(1) [OF a(2)] lin_at_progress [OF a(3)] by linarith+
  then show ?thesis
    using r by (auto simp: bind_Some_iff split: option.splits dest!: tok_progress pf2_at_progress)
qed

interpretation many_args: scanner arg_at "\<lambda>_. True"
  by unfold_locales (simp_all add: arg_at_progress)

subsection \<open>The items of a body\<close>

text \<open>The items that hold no sequence of items, after their letter.\<close>

definition lflat_acc :: "byte \<Rightarrow> bytes \<Rightarrow> nat \<Rightarrow> (litem \<times> nat) option" where
  "lflat_acc c s r = do {
     (rg, k) \<leftarrow> nat_at s r;
     (w, k) \<leftarrow> z_at s k;
     (off, k) \<leftarrow> z_at s k;
     (addr, k) \<leftarrow> lin_at s k;
     ((p0, p1, p2), k) \<leftarrow> pf3 s k;
     Some (if c = CHR ''A'' then LAcc rg w off addr p0 p1 p2 else LSto rg w off addr p0 p1 p2, k) }"

definition lflat_handle :: "bytes \<Rightarrow> nat \<Rightarrow> (litem \<times> nat) option" where
  "lflat_handle s r = do { (h, k) \<leftarrow> nat_at s r; (rg, k) \<leftarrow> nat_at s k; Some (LHandle h rg, k) }"

definition lflat_len :: "bytes \<Rightarrow> nat \<Rightarrow> (litem \<times> nat) option" where
  "lflat_len s r = do {
     (n, k) \<leftarrow> nat_at s r; (rg, k) \<leftarrow> nat_at s k; (st, k) \<leftarrow> z_at s k; Some (LLen n rg st, k) }"

definition lflat_alloc :: "bytes \<Rightarrow> nat \<Rightarrow> (litem \<times> nat) option" where
  "lflat_alloc s r = do {
     (h, k) \<leftarrow> nat_at s r; (rg, k) \<leftarrow> nat_at s k; (sz, k) \<leftarrow> lin_at s k;
     (lo, k) \<leftarrow> pf_at s k; (hi, k) \<leftarrow> pf_at s k; Some (LAlloc h rg sz lo hi, k) }"

definition lflat_wf :: "bytes \<Rightarrow> nat \<Rightarrow> (litem \<times> nat) option" where
  "lflat_wf s r = do { (rg, k) \<leftarrow> nat_at s r; Some (LWf rg, k) }"

definition lflat_static :: "bytes \<Rightarrow> nat \<Rightarrow> (litem \<times> nat) option" where
  "lflat_static s r = do {
     (rg, k) \<leftarrow> nat_at s r; (b0, k) \<leftarrow> z_at s k; (c0, k) \<leftarrow> z_at s k; Some (LStatic rg b0 c0, k) }"

definition lflat_set :: "bytes \<Rightarrow> nat \<Rightarrow> (litem \<times> nat) option" where
  "lflat_set s r = do { (x, k) \<leftarrow> nat_at s r; Some (LSet x, k) }"

definition lflat_setr :: "bytes \<Rightarrow> nat \<Rightarrow> (litem \<times> nat) option" where
  "lflat_setr s r = do {
     (x, k) \<leftarrow> nat_at s r; (lo, k) \<leftarrow> z_at s k; (hi, k) \<leftarrow> z_at s k; Some (LSetR x lo hi, k) }"

definition lflat_asn :: "bytes \<Rightarrow> nat \<Rightarrow> (litem \<times> nat) option" where
  "lflat_asn s r = do {
     (x, k) \<leftarrow> nat_at s r; (l, k) \<leftarrow> lin_at s k; (lo, k) \<leftarrow> pf_at s k; (hi, k) \<leftarrow> pf_at s k;
     Some (LAsn x l lo hi, k) }"

definition lflat_pfs :: "byte \<Rightarrow> bytes \<Rightarrow> nat \<Rightarrow> (litem \<times> nat) option" where
  "lflat_pfs c s r = do {
     k \<leftarrow> tok s r (CHR ''{'');
     (pfs, k) \<leftarrow> many pf_at s k [];
     k \<leftarrow> tok s k (CHR ''}'');
     Some (if c = CHR ''c'' then LCont pfs else LRet pfs, k) }"

definition lflat_call :: "bytes \<Rightarrow> nat \<Rightarrow> (litem \<times> nat) option" where
  "lflat_call s r = do {
     (f, k) \<leftarrow> nat_at s r;
     k \<leftarrow> tok s k (CHR ''{'');
     (args, k) \<leftarrow> many arg_at s k [];
     k \<leftarrow> tok s k (CHR ''|'');
     (reps, k) \<leftarrow> many map_at s k [];
     k \<leftarrow> tok s k (CHR ''|'');
     (outs, k) \<leftarrow> many map_at s k [];
     k \<leftarrow> tok s k (CHR ''|'');
     (res, k) \<leftarrow> nat_at s k;
     k \<leftarrow> tok s k (CHR ''|'');
     (pfs, k) \<leftarrow> many pf_at s k [];
     k \<leftarrow> tok s k (CHR ''}'');
     Some (LCall f args reps outs res pfs, k) }"

definition lflat_item :: "byte \<Rightarrow> bytes \<Rightarrow> nat \<Rightarrow> (litem \<times> nat) option" where
  "lflat_item c s r =
     (if c = CHR ''A'' \<or> c = CHR ''W'' then lflat_acc c s r
      else if c = CHR ''h'' then lflat_handle s r
      else if c = CHR ''n'' then lflat_len s r
      else if c = CHR ''a'' then lflat_alloc s r
      else if c = CHR ''f'' then lflat_wf s r
      else if c = CHR ''g'' then lflat_static s r
      else if c = CHR ''s'' then lflat_set s r
      else if c = CHR ''r'' then lflat_setr s r
      else if c = CHR ''='' then lflat_asn s r
      else if c = CHR ''c'' \<or> c = CHR ''R'' then lflat_pfs c s r
      else if c = CHR ''k'' then Some (LBrk, r)
      else if c = CHR ''x'' then Some (LTrap, r)
      else if c = CHR ''C'' then lflat_call s r
      else None)"

text \<open>The part of a test before its arms, and of a loop before its body.\<close>

definition test_head ::
    "bytes \<Rightarrow> nat \<Rightarrow> ((bool \<times> lin \<times> lin \<times> (pf \<times> pf) \<times> (pf \<times> pf) \<times> (pf \<times> pf)) \<times> nat) option" where
  "test_head s r = do {
     let g = sk s r;
     sg \<leftarrow> sget s g;
     if sg \<noteq> CHR ''+'' \<and> sg \<noteq> CHR ''u'' then None
     else do {
       (a, k) \<leftarrow> lin_at s (g + 1);
       (b, k) \<leftarrow> lin_at s k;
       (pa, k) \<leftarrow> pf2_at s k;
       (pb, k) \<leftarrow> pf2_at s k;
       (nn, k) \<leftarrow> pf2_at s k;
       k \<leftarrow> tok s k (CHR ''{'');
       Some ((sg = CHR ''+'', a, b, pa, pb, nn), k) } }"

definition loop_head :: "bytes \<Rightarrow> nat \<Rightarrow> ((facts \<times> pf list) \<times> nat) option" where
  "loop_head s r = do {
     k \<leftarrow> tok s r (CHR ''{'');
     (iv, k) \<leftarrow> many lin_at s k [];
     k \<leftarrow> tok s k (CHR ''|'');
     (pin, k) \<leftarrow> many pf_at s k [];
     k \<leftarrow> tok s k (CHR ''|'');
     Some ((iv, pin), k) }"

fun terminal :: "litem \<Rightarrow> bool" where
  "terminal (LCont pfs) = True"
| "terminal (LRet pfs) = True"
| "terminal LBrk = True"
| "terminal LTrap = True"
| "terminal _ = False"

function lprog_at :: "bytes \<Rightarrow> nat \<Rightarrow> litem list \<Rightarrow> (litem list \<times> nat) option" where
  "lprog_at s i its =
     (if at_stop s i then Some (its, sk s i)
      else if sget s (sk s i) = Some (CHR ''T'') then
        (case test_head s (sk s i + 1) of
           None \<Rightarrow> None
         | Some ((g, a, b, pa, pb, nn), k) \<Rightarrow>
             (case lprog_at s k [] of
                None \<Rightarrow> None
              | Some (thn, l) \<Rightarrow>
                  (case tok s l (CHR ''|'') of
                     None \<Rightarrow> None
                   | Some l2 \<Rightarrow>
                       (case lprog_at s l2 [] of
                          None \<Rightarrow> None
                        | Some (els, m) \<Rightarrow>
                            (case tok s m (CHR ''}'') of
                               None \<Rightarrow> None
                             | Some m2 \<Rightarrow> lprog_at s m2 (its @ [LTest a b g pa pb nn thn els]))))))
      else if sget s (sk s i) = Some (CHR ''B'') then
        (case tok s (sk s i + 1) (CHR ''{'') of
           None \<Rightarrow> None
         | Some k \<Rightarrow>
             (case lprog_at s k [] of
                None \<Rightarrow> None
              | Some (thn, l) \<Rightarrow>
                  (case tok s l (CHR ''|'') of
                     None \<Rightarrow> None
                   | Some l2 \<Rightarrow>
                       (case lprog_at s l2 [] of
                          None \<Rightarrow> None
                        | Some (els, m) \<Rightarrow>
                            (case tok s m (CHR ''}'') of
                               None \<Rightarrow> None
                             | Some m2 \<Rightarrow> lprog_at s m2 (its @ [LBranch thn els]))))))
      else if sget s (sk s i) = Some (CHR ''L'') then
        (case loop_head s (sk s i + 1) of
           None \<Rightarrow> None
         | Some ((iv, pin), k) \<Rightarrow>
             (case lprog_at s k [] of
                None \<Rightarrow> None
              | Some (body, l) \<Rightarrow>
                  (case tok s l (CHR ''}'') of
                     None \<Rightarrow> None
                   | Some l2 \<Rightarrow> lprog_at s l2 (its @ [LLoop iv pin body]))))
      else
        (case lflat_item (s ! sk s i) s (sk s i + 1) of
           None \<Rightarrow> None
         | Some (it, k) \<Rightarrow>
             if terminal it then (if at_stop s k then Some (its @ [it], sk s k) else None)
             else lprog_at s k (its @ [it])))"
  by pat_completeness auto

text \<open>Each moves forward.\<close>

lemmas part_progress =
  token_progress lin_at_progress pf3_progress pf_at_progress many_pfs.many_progress
  many_args.many_progress many_maps.many_progress

lemma lflat_acc_progress: "lflat_acc c s r = Some (it, k) \<Longrightarrow> r \<le> k"
  by (auto simp: lflat_acc_def bind_Some_iff dest!: part_progress)

lemma lflat_handle_progress: "lflat_handle s r = Some (it, k) \<Longrightarrow> r \<le> k"
  by (auto simp: lflat_handle_def bind_Some_iff dest!: part_progress)

lemma lflat_len_progress: "lflat_len s r = Some (it, k) \<Longrightarrow> r \<le> k"
  by (auto simp: lflat_len_def bind_Some_iff dest!: part_progress)

lemma lflat_alloc_progress: "lflat_alloc s r = Some (it, k) \<Longrightarrow> r \<le> k"
  by (auto simp: lflat_alloc_def bind_Some_iff dest!: part_progress)

lemma lflat_wf_progress: "lflat_wf s r = Some (it, k) \<Longrightarrow> r \<le> k"
  by (auto simp: lflat_wf_def bind_Some_iff dest!: part_progress)

lemma lflat_static_progress: "lflat_static s r = Some (it, k) \<Longrightarrow> r \<le> k"
  by (auto simp: lflat_static_def bind_Some_iff dest!: part_progress)

lemma lflat_set_progress: "lflat_set s r = Some (it, k) \<Longrightarrow> r \<le> k"
  by (auto simp: lflat_set_def bind_Some_iff dest!: part_progress)

lemma lflat_setr_progress: "lflat_setr s r = Some (it, k) \<Longrightarrow> r \<le> k"
  by (auto simp: lflat_setr_def bind_Some_iff dest!: part_progress)

lemma lflat_asn_progress: "lflat_asn s r = Some (it, k) \<Longrightarrow> r \<le> k"
  by (auto simp: lflat_asn_def bind_Some_iff dest!: part_progress)

lemma lflat_pfs_progress: "lflat_pfs c s r = Some (it, k) \<Longrightarrow> r \<le> k"
  by (auto simp: lflat_pfs_def bind_Some_iff dest!: part_progress)

lemma lflat_call_progress: "lflat_call s r = Some (it, k) \<Longrightarrow> r \<le> k"
  by (auto simp: lflat_call_def bind_Some_iff dest!: part_progress)

lemma if_is: "(if c then a else b) = x \<Longrightarrow> (a = x \<Longrightarrow> P) \<Longrightarrow> (b = x \<Longrightarrow> P) \<Longrightarrow> P"
  by (cases c) simp_all

lemma lflat_item_progress: "lflat_item c s r = Some (it, k) \<Longrightarrow> r \<le> k"
  unfolding lflat_item_def
  by (elim if_is; (erule lflat_acc_progress lflat_handle_progress lflat_len_progress
      lflat_alloc_progress lflat_wf_progress lflat_static_progress lflat_set_progress lflat_setr_progress
      lflat_asn_progress lflat_pfs_progress lflat_call_progress | simp))

lemma test_head_progress: "test_head s r = Some (h, k) \<Longrightarrow> r < k"
  using sk_ge [of r s]
  by (auto simp: test_head_def Let_def bind_Some_iff split: if_splits
      dest!: token_progress lin_at_progress pf2_at_progress)

lemma loop_head_progress: "loop_head s r = Some (h, k) \<Longrightarrow> r < k"
  by (auto simp: loop_head_def bind_Some_iff dest!: token_progress many_lins.many_progress many_pfs.many_progress)

lemma not_stop: "\<not> at_stop s i \<Longrightarrow> i \<le> sk s i \<and> sk s i < length s"
  using sk_ge [of i s] by (auto simp: at_stop_def sget_Some split: option.splits)

lemma lprog_at_forward:
  "lprog_at_dom (s, i, its) \<Longrightarrow> lprog_at s i its = Some (r, j) \<Longrightarrow> i \<le> j"
proof (induction s i its arbitrary: r j rule: lprog_at.pinduct)
  case (1 s i its)
  note IH = 1(2-) and res = "1.prems" [unfolded lprog_at.psimps [OF 1(1)]]
  let ?c = "sget s (sk s i)"
  consider "at_stop s i" | "\<not> at_stop s i" "?c = Some (CHR ''T'')"
    | "\<not> at_stop s i" "?c \<noteq> Some (CHR ''T'')" "?c = Some (CHR ''B'')"
    | "\<not> at_stop s i" "?c \<noteq> Some (CHR ''T'')" "?c \<noteq> Some (CHR ''B'')" "?c = Some (CHR ''L'')"
    | "\<not> at_stop s i" "?c \<noteq> Some (CHR ''T'')" "?c \<noteq> Some (CHR ''B'')" "?c \<noteq> Some (CHR ''L'')"
    by blast
  then show ?case
  proof cases
    case 1
    then show ?thesis using res sk_ge [of i s] by simp
  next
    case 2
    note r2 = res [unfolded if_not_P [OF 2(1)] if_P [OF 2(2)]]
    obtain g a b pa pb nn k where h: "test_head s (sk s i + 1) = Some ((g, a, b, pa, pb, nn), k)"
      using r2 by (auto split: option.splits)
    then obtain thn l l2 els m m2 where b: "lprog_at s k [] = Some (thn, l)" "tok s l (CHR ''|'') = Some l2"
      "lprog_at s l2 [] = Some (els, m)" "tok s m (CHR ''}'') = Some m2"
      "lprog_at s m2 (its @ [LTest a b g pa pb nn thn els]) = Some (r, j)"
      using r2 by (auto split: option.splits)
    have "k \<le> l"
      using IH(1) [OF 2 h refl refl refl refl refl refl b(1)] .
    moreover have "l2 \<le> m"
      using IH(2) [OF 2 h refl refl refl refl refl refl b(1) refl b(2,3)] .
    moreover have "m2 \<le> j"
      using IH(3) [OF 2 h refl refl refl refl refl refl b(1) refl b(2,3) refl b(4,5)] .
    ultimately show ?thesis
      using test_head_progress [OF h] tok_progress [OF b(2)] tok_progress [OF b(4)] not_stop [OF 2(1)] by linarith
  next
    case 3
    note r3 = res [unfolded if_not_P [OF 3(1)] if_not_P [OF 3(2)] if_P [OF 3(3)]]
    obtain k thn l l2 els m m2 where b: "tok s (sk s i + 1) (CHR ''{'') = Some k" "lprog_at s k [] = Some (thn, l)"
      "tok s l (CHR ''|'') = Some l2" "lprog_at s l2 [] = Some (els, m)" "tok s m (CHR ''}'') = Some m2"
      "lprog_at s m2 (its @ [LBranch thn els]) = Some (r, j)"
      using r3 by (auto split: option.splits)
    have "k \<le> l"
      using IH(4) [OF 3 b(1,2)] .
    moreover have "l2 \<le> m"
      using IH(5) [OF 3 b(1,2) refl b(3,4)] .
    moreover have "m2 \<le> j"
      using IH(6) [OF 3 b(1,2) refl b(3,4) refl b(5,6)] .
    ultimately show ?thesis
      using tok_progress [OF b(1)] tok_progress [OF b(3)] tok_progress [OF b(5)] not_stop [OF 3(1)] by linarith
  next
    case 4
    note r4 = res [unfolded if_not_P [OF 4(1)] if_not_P [OF 4(2)] if_not_P [OF 4(3)] if_P [OF 4(4)]]
    obtain iv pin k body l l2 where b: "loop_head s (sk s i + 1) = Some ((iv, pin), k)" "lprog_at s k [] = Some (body, l)"
      "tok s l (CHR ''}'') = Some l2" "lprog_at s l2 (its @ [LLoop iv pin body]) = Some (r, j)"
      using r4 by (auto split: option.splits)
    have "k \<le> l"
      using IH(7) [OF 4 b(1) refl refl b(2)] .
    moreover have "l2 \<le> j"
      using IH(8) [OF 4 b(1) refl refl b(2) refl b(3,4)] .
    ultimately show ?thesis
      using loop_head_progress [OF b(1)] tok_progress [OF b(3)] not_stop [OF 4(1)] by linarith
  next
    case 5
    note r5 = res [unfolded if_not_P [OF 5(1)] if_not_P [OF 5(2)] if_not_P [OF 5(3)] if_not_P [OF 5(4)]]
    obtain it k where f: "lflat_item (s ! sk s i) s (sk s i + 1) = Some (it, k)"
      using r5 by (auto split: option.splits)
    have "i < k"
      using lflat_item_progress [OF f] not_stop [OF 5(1)] by linarith
    moreover have "k \<le> j"
    proof (cases "terminal it")
      case True
      then show ?thesis using r5 f sk_ge [of k s] by (auto split: if_splits)
    next
      case False
      then have "lprog_at s k (its @ [it]) = Some (r, j)"
        using r5 f by simp
      then show ?thesis
        using IH(9) [OF 5 f refl False] by blast
    qed
    ultimately show ?thesis by simp
  qed
qed

lemma lprog_at_total: "All lprog_at_dom"
  by (rule "lprog_at.termination" [of "measure (\<lambda>(s, i, its). length s - i)"])
    (auto intro!: diff_less_mono2 dest!: not_stop lprog_at_forward tok_progress test_head_progress
      loop_head_progress lflat_item_progress)

termination lprog_at
  by (rule lprog_at_total)

declare lprog_at.simps [simp del]

lemma lprog_at_ge: "lprog_at s i its = Some (r, j) \<Longrightarrow> i \<le> j"
  using lprog_at_forward lprog_at_total by blast

subsection \<open>Procedures\<close>

definition parse_lproc :: "bytes \<Rightarrow> nat \<Rightarrow> ((dnat \<times> lproc) \<times> nat) option" where
  "parse_lproc s i = do {
     (fid, i) \<leftarrow> nat_at s i;
     i \<leftarrow> tok s i (CHR ''{'');
     (pr, i) \<leftarrow> many lin_at s i [];
     i \<leftarrow> tok s i (CHR ''|'');
     (po, i) \<leftarrow> many lin_at s i [];
     i \<leftarrow> tok s i (CHR ''|'');
     (rs, i) \<leftarrow> nat_at s i;
     i \<leftarrow> tok s i (CHR ''|'');
     (body, i) \<leftarrow> lprog_at s i [];
     i \<leftarrow> tok s i (CHR ''}'');
     Some ((fid, \<lparr>lpre = pr, lpost = po, rslot = rs, lbody = body\<rparr>), sk s i) }"

definition stretch_start :: "bytes \<Rightarrow> nat \<Rightarrow> nat" where
  "stretch_start s i = sk s i"

lemma parse_lproc_progress: "parse_lproc s i = Some (q, j) \<Longrightarrow> i < j"
  by (auto simp: parse_lproc_def bind_Some_iff
      dest!: token_progress many_lins.many_progress lprog_at_ge intro!: less_le_trans [OF _ sk_ge])

end
