(* ===== verification/Lin_Sound.thy ===== *)
theory Lin_Sound
  imports Lin Slot_Facts
begin

text \<open>
  Runs of a procedure table of \<open>lin.rs\<close> over memory blocks, and the soundness of its check. A frame
  maps each region to a block and each slot to an \<open>i64\<close>; a block has a base address and a capacity
  inside the 32-bit address space. Addresses are computed as wasm computes them: the linear form's
  value wrapped to 32 bits, then the offset. No accepted body reads or writes outside its block.
\<close>

subsection \<open>Blocks and frames\<close>

record layout =
  base :: "nat \<Rightarrow> nat"
  room :: "nat \<Rightarrow> nat"

definition layout_ok :: "layout \<Rightarrow> bool" where
  "layout_ok M \<longleftrightarrow> (\<forall>b. base M b + 12 + room M b < 2 ^ 32)"

type_synonym frame = "(dnat \<Rightarrow> nat) \<times> (dnat \<Rightarrow> 64 word)"

fun frame_env :: "layout \<Rightarrow> frame \<Rightarrow> lenv" where
  "frame_env M fr (S x) = sint (snd fr x)"
| "frame_env M fr (B r) = int (base M (fst fr r))"
| "frame_env M fr (C r) = int (room M (fst fr r))"

definition set_slot :: "frame \<Rightarrow> dnat \<Rightarrow> 64 word \<Rightarrow> frame" where
  "set_slot fr x v = (fst fr, (snd fr)(x := v))"

definition set_region :: "frame \<Rightarrow> dnat \<Rightarrow> nat \<Rightarrow> frame" where
  "set_region fr r b = ((fst fr)(r := b), snd fr)"

text \<open>An access of \<open>w\<close> bytes at \<open>addr + off\<close> inside the header and payload of the region's block.\<close>

definition acc_in :: "layout \<Rightarrow> frame \<Rightarrow> dnat \<Rightarrow> zint \<Rightarrow> zint \<Rightarrow> lin \<Rightarrow> bool" where
  "acc_in M fr r w off addr \<longleftrightarrow>
     (let a = lval (frame_env M fr) addr mod 2 ^ 32 + zval off
      in 0 < zval w \<and> int (base M (fst fr r)) \<le> a \<and>
         a + zval w \<le> int (base M (fst fr r)) + 12 + int (room M (fst fr r)))"

definition val64 :: "layout \<Rightarrow> frame \<Rightarrow> lin \<Rightarrow> 64 word" where
  "val64 M fr l = word_of_int (lval (frame_env M fr) l)"

definition cmp_ge :: "bool \<Rightarrow> 64 word \<Rightarrow> 64 word \<Rightarrow> bool" where
  "cmp_ge g x y = (if g then sint y \<le> sint x else y \<le> x)"

text \<open>The callee's frame: parameters and mapped regions bound, everything else arbitrary.\<close>

definition lbinds :: "layout \<Rightarrow> larg list \<Rightarrow> slot_map \<Rightarrow> frame \<Rightarrow> frame \<Rightarrow> bool" where
  "lbinds M args reps fr fr' \<longleftrightarrow>
     (\<forall>(p, l, pp) \<in> set args. snd fr' p = val64 M fr l) \<and>
     (\<forall>(r', r) \<in> set reps. fst fr' r' = fst fr r)"

definition after_call :: "frame \<Rightarrow> frame \<Rightarrow> slot_map \<Rightarrow> dnat \<Rightarrow> dnat \<Rightarrow> frame" where
  "after_call fr fr1 outs res rs =
     ((\<lambda>y. case assoc y outs of Some r' \<Rightarrow> fst fr1 r' | None \<Rightarrow> fst fr y), (snd fr)(res := snd fr1 rs))"

datatype lout = LDone frame | LBroke frame | LConted frame | LReturned frame | LAborted | LFault

fun stops :: "lout \<Rightarrow> bool" where
  "stops (LDone fr) = False"
| "stops _ = True"

text \<open>
  A body that ends any other way than by a return or a trap, an unknown callee, or a call whose
  bindings no frame satisfies, is a fault of the caller.
\<close>

inductive lrun :: "ltable \<Rightarrow> layout \<Rightarrow> frame \<Rightarrow> litem list \<Rightarrow> lout \<Rightarrow> bool" for P M where
  lr_end: "lrun P M fr [] (LDone fr)"
| lr_acc: "acc_in M fr r w off addr \<Longrightarrow> lrun P M fr k out \<Longrightarrow>
    lrun P M fr (LAcc r w off addr p0 p1 p2 # k) out"
| lr_acc_fault: "\<not> acc_in M fr r w off addr \<Longrightarrow> lrun P M fr (LAcc r w off addr p0 p1 p2 # k) LFault"
| lr_sto: "acc_in M fr r w off addr \<Longrightarrow> lrun P M fr k out \<Longrightarrow>
    lrun P M fr (LSto r w off addr p0 p1 p2 # k) out"
| lr_sto_fault: "\<not> acc_in M fr r w off addr \<Longrightarrow> lrun P M fr (LSto r w off addr p0 p1 p2 # k) LFault"
| lr_handle: "lrun P M (set_slot fr h (of_nat (base M (fst fr r)))) k out \<Longrightarrow> lrun P M fr (LHandle h r # k) out"
| lr_len: "0 \<le> sint v \<Longrightarrow> zval st * sint v \<le> int (room M (fst fr r)) \<Longrightarrow>
    lrun P M (set_slot fr n v) k out \<Longrightarrow> lrun P M fr (LLen n r st # k) out"
| lr_alloc: "lval (frame_env M fr) sz mod 2 ^ 32 \<le> int (room M b) \<Longrightarrow>
    lrun P M (set_slot (set_region fr r b) h (of_nat (base M b))) k out \<Longrightarrow>
    lrun P M fr (LAlloc h r sz lo hi # k) out"
| lr_wf: "lrun P M fr k out \<Longrightarrow> lrun P M fr (LWf r # k) out"
| lr_static: "int (base M b) = zval b0 \<Longrightarrow> int (room M b) = zval c0 \<Longrightarrow>
    lrun P M (set_region fr r b) k out \<Longrightarrow> lrun P M fr (LStatic r b0 c0 # k) out"
| lr_set: "lrun P M (set_slot fr x v) k out \<Longrightarrow> lrun P M fr (LSet x # k) out"
| lr_setr: "zval lo \<le> sint v \<Longrightarrow> sint v \<le> zval hi \<Longrightarrow> lrun P M (set_slot fr x v) k out \<Longrightarrow>
    lrun P M fr (LSetR x lo hi # k) out"
| lr_asn: "lrun P M (set_slot fr x (val64 M fr l)) k out \<Longrightarrow> lrun P M fr (LAsn x l lo hi # k) out"
| lr_test: "arm = (if cmp_ge g (val64 M fr a) (val64 M fr b) then thn else els) \<Longrightarrow>
    lrun P M fr arm (LDone fr') \<Longrightarrow> lrun P M fr' k out \<Longrightarrow>
    lrun P M fr (LTest a b g pa pb nn thn els # k) out"
| lr_test_stop: "arm = (if cmp_ge g (val64 M fr a) (val64 M fr b) then thn else els) \<Longrightarrow>
    lrun P M fr arm out \<Longrightarrow> stops out \<Longrightarrow> lrun P M fr (LTest a b g pa pb nn thn els # k) out"
| lr_branch: "arm = thn \<or> arm = els \<Longrightarrow> lrun P M fr arm (LDone fr') \<Longrightarrow> lrun P M fr' k out \<Longrightarrow>
    lrun P M fr (LBranch thn els # k) out"
| lr_branch_stop: "arm = thn \<or> arm = els \<Longrightarrow> lrun P M fr arm out \<Longrightarrow> stops out \<Longrightarrow>
    lrun P M fr (LBranch thn els # k) out"
| lr_loop_exit: "lrun P M fr body o1 \<Longrightarrow> o1 = LDone fr' \<or> o1 = LBroke fr' \<Longrightarrow> lrun P M fr' k out \<Longrightarrow>
    lrun P M fr (LLoop iv pin body # k) out"
| lr_loop_again: "lrun P M fr body (LConted fr') \<Longrightarrow> lrun P M fr' (LLoop iv pin body # k) out \<Longrightarrow>
    lrun P M fr (LLoop iv pin body # k) out"
| lr_loop_stop: "lrun P M fr body out \<Longrightarrow> out = LAborted \<or> out = LFault \<or> out = LReturned fr' \<Longrightarrow>
    lrun P M fr (LLoop iv pin body # k) out"
| lr_cont: "lrun P M fr (LCont pfs # k) (LConted fr)"
| lr_brk: "lrun P M fr (LBrk # k) (LBroke fr)"
| lr_trap: "lrun P M fr (LTrap # k) LAborted"
| lr_ret: "lrun P M fr (LRet pfs # k) (LReturned fr)"
| lr_call: "lplook P f = Some d \<Longrightarrow> lbinds M args reps fr fr' \<Longrightarrow> lrun P M fr' (lbody d) (LReturned fr1) \<Longrightarrow>
    lrun P M (after_call fr fr1 outs res (rslot d)) k out \<Longrightarrow>
    lrun P M fr (LCall f args reps outs res pfs # k) out"
| lr_call_stop: "lplook P f = Some d \<Longrightarrow> lbinds M args reps fr fr' \<Longrightarrow> lrun P M fr' (lbody d) o1 \<Longrightarrow>
    (\<And>fr1. o1 \<noteq> LReturned fr1) \<Longrightarrow> out = (if o1 = LAborted then LAborted else LFault) \<Longrightarrow>
    lrun P M fr (LCall f args reps outs res pfs # k) out"
| lr_call_clash: "lplook P f = Some d \<Longrightarrow> (\<And>fr'. \<not> lbinds M args reps fr fr') \<Longrightarrow>
    lrun P M fr (LCall f args reps outs res pfs # k) LFault"
| lr_call_none: "lplook P f = None \<Longrightarrow> lrun P M fr (LCall f args reps outs res pfs # k) LFault"

text \<open>A run writes only the slots and rebinds only the regions its items name.\<close>

fun out_frame :: "lout \<Rightarrow> frame option" where
  "out_frame (LDone fr) = Some fr"
| "out_frame (LBroke fr) = Some fr"
| "out_frame (LConted fr) = Some fr"
| "out_frame (LReturned fr) = Some fr"
| "out_frame _ = None"

lemma assoc_None: "x \<notin> fst ` set l \<Longrightarrow> assoc x l = None"
  by (induction l) auto

lemma assoc_mem: "assoc x l = Some y \<Longrightarrow> (x, y) \<in> set l"
  by (induction l) (auto split: if_splits)

lemma lrun_keeps_slots:
  "lrun P M fr its out \<Longrightarrow> out_frame out = Some fr1 \<Longrightarrow> x \<notin> set (writes its) \<Longrightarrow> snd fr1 x = snd fr x"
  by (induction arbitrary: fr1 rule: lrun.induct)
    (auto simp: set_slot_def set_region_def after_call_def split: if_splits)

lemma lrun_keeps_regions:
  "lrun P M fr its out \<Longrightarrow> out_frame out = Some fr1 \<Longrightarrow> x \<notin> set (rebinds its) \<Longrightarrow> fst fr1 x = fst fr x"
  by (induction arbitrary: fr1 rule: lrun.induct)
    (auto simp: set_slot_def set_region_def after_call_def assoc_None split: if_splits)

subsection \<open>The facts of each item\<close>

lemma env_set_slot: "frame_env M (set_slot fr x v) = (frame_env M fr)(S x := sint v)"
proof
  fix u show "frame_env M (set_slot fr x v) u = ((frame_env M fr)(S x := sint v)) u"
    by (cases u) (auto simp: set_slot_def)
qed

lemma env_set_region:
  "frame_env M (set_region fr r b) = (frame_env M fr)(B r := int (base M b), C r := int (room M b))"
proof
  fix u show "frame_env M (set_region fr r b) u =
      ((frame_env M fr)(B r := int (base M b), C r := int (room M b))) u"
    by (cases u) (auto simp: set_region_def)
qed

lemma lsat_kill_region: "lsat rho f \<Longrightarrow> lsat (rho(B r := p, C r := q)) (kill_region f r)"
  by (simp add: kill_region_def lsat_kill)

lemma sint_base:
  assumes "layout_ok M"
  shows "sint (of_nat (base M b) :: 64 word) = int (base M b)"
proof -
  have "base M b < 2 ^ 32"
    using assms unfolding layout_ok_def by (metis add_lessD1)
  then have "unat (of_nat (base M b) :: 64 word) = base M b"
    by (simp add: unat_of_nat)
  moreover have "base M b < 2 ^ 63"
    using \<open>base M b < 2 ^ 32\<close> by simp
  ultimately show ?thesis
    using sint_small [of "of_nat (base M b)"] by simp
qed

lemma sint_of_int64:
  assumes "- (2 ^ 63) \<le> z" and "z < 2 ^ 63"
  shows "sint (word_of_int z :: 64 word) = z"
  using assms by (subst sint_sbintrunc') (simp add: signed_take_bit_int_eq_self)

lemma bare_slot_shape:
  assumes "bare_slot l"
  obtains x where "terms l = [(S x, z_one)]" "cst l = z_zero"
proof (cases "terms l")
  case Nil
  then show thesis using assms by (simp add: bare_slot_def)
next
  case (Cons p ts)
  obtain v a where p: "p = (v, a)" by (cases p)
  have "ts = []" "\<exists>x. v = S x"
    using assms Cons p by (cases v; cases ts; simp add: bare_slot_def)+
  then show thesis
    using assms Cons p that by (auto simp: bare_slot_def)
qed

lemma layout_int: "layout_ok M \<Longrightarrow> int (base M b) + 12 + int (room M b) < 2 ^ 32"
proof -
  assume "layout_ok M"
  then have "int (base M b + 12 + room M b) < int (2 ^ 32)"
    unfolding layout_ok_def of_nat_less_iff by blast
  then show ?thesis by simp
qed

lemma no_wrap_sound:
  assumes "no_wrap f l p" and "lsat (frame_env M fr) f"
  shows "- (2 ^ 63) \<le> lval (frame_env M fr) l \<and> lval (frame_env M fr) l < 2 ^ 63"
proof (cases "bare_slot l")
  case True
  then obtain x where "terms l = [(S x, z_one)]" "cst l = z_zero"
    by (rule bare_slot_shape)
  then have "lval (frame_env M fr) l = sint (snd fr x)"
    by (simp add: lval_def tval_def)
  then show ?thesis
    using sint_ge [of "snd fr x"] sint_lt [of "snd fr x"] by simp
next
  case False
  then have "entails f (fst p) (lsub (kz i64min) l)" "entails f (snd p) (lsub l (kz i64max))"
    using assms(1) by (auto simp: no_wrap_def)
  from this [THEN entails_sound [OF assms(2)]] show ?thesis
    by (simp add: lval_simps i64min_def i64max_def zval_simps)
qed

lemma val64_exact:
  "no_wrap f l p \<Longrightarrow> lsat (frame_env M fr) f \<Longrightarrow> sint (val64 M fr l) = lval (frame_env M fr) l"
  using no_wrap_sound by (simp add: val64_def sint_of_int64)

lemma acc_ok_in:
  assumes "acc_ok f r w off addr p0 p1 p2" and "lsat (frame_env M fr) f" and "layout_ok M"
  shows "acc_in M fr r w off addr"
proof -
  let ?a = "lval (frame_env M fr) addr" and ?b = "int (base M (fst fr r))" and ?c = "int (room M (fst fr r))"
  have w: "0 < zval w" "0 \<le> zval off"
    using assms(1) by (auto simp: acc_ok_def Let_def zval_simps)
  have e: "entails f p0 (lneg addr)" "entails f p1 (lsub (v1 (B r)) (ladd addr (kz off)))"
    "entails f p2 (lsub (ladd addr (kz (z_sub (z_add off w) (z_from_i64 12)))) (ladd (v1 (B r)) (v1 (C r))))"
    using assms(1) by (simp_all add: acc_ok_def Let_def)
  have "?b + 12 + ?c < 2 ^ 32"
    by (rule layout_int [OF assms(3)])
  moreover have "0 \<le> ?a" "?b \<le> ?a + zval off" "?a + (zval off + zval w - 12) \<le> ?b + ?c"
    using e [THEN entails_sound [OF assms(2)]] by (simp_all add: lval_simps zval_simps)
  moreover from this have "?a mod 2 ^ 32 = ?a"
    using w calculation(1) by (intro mod_pos_pos_trivial) linarith+
  ultimately show ?thesis
    using w by (simp add: acc_in_def)
qed

lemma handle_sound:
  assumes "lsat (frame_env M fr) f" and "layout_ok M"
  shows "lsat (frame_env M (set_slot fr h (of_nat (base M (fst fr r))))) (handle_facts f h r)"
  using assms by (simp add: handle_facts_def env_set_slot lval_simps sint_base lsat_kill)

lemma len_sound:
  assumes "lsat (frame_env M fr) f" and "0 \<le> sint v" and "zval st * sint v \<le> int (room M (fst fr r))"
  shows "lsat (frame_env M (set_slot fr n v)) (len_facts f n r st)"
  using assms by (simp add: len_facts_def Let_def env_set_slot lval_simps lsat_kill)

lemma range_sound:
  assumes "lsat (frame_env M fr) f" and "zval lo \<le> sint v" and "sint v \<le> zval hi"
  shows "lsat (frame_env M (set_slot fr x v)) (range_facts f x lo hi)"
  using assms by (simp add: range_facts_def Let_def env_set_slot lval_simps lsat_kill)

lemma wf_sound:
  "lsat (frame_env M fr) f \<Longrightarrow> layout_ok M \<Longrightarrow> lsat (frame_env M fr) (wf_facts f r)"
  using layout_int [of M "fst fr r"] by (simp add: wf_facts_def Let_def lval_simps zval_simps)

lemma static_sound:
  assumes "lsat (frame_env M fr) f" and "int (base M b) = zval b0" and "int (room M b) = zval c0"
  shows "lsat (frame_env M (set_region fr r b)) (static_facts f r b0 c0)"
  using assms by (simp add: static_facts_def env_set_region lval_simps lsat_kill_region)

lemma alloc_sound:
  assumes "lsat (frame_env M fr) f" and "alloc_ok f h r sz lo hi" and "layout_ok M"
    and "lval (frame_env M fr) sz mod 2 ^ 32 \<le> int (room M b)"
  shows "lsat (frame_env M (set_slot (set_region fr r b) h (of_nat (base M b)))) (alloc_facts f h r sz)"
proof -
  let ?rho = "frame_env M fr" and ?h = "int (base M b)"
  let ?rho' = "(?rho(S h := ?h))(B r := ?h, C r := int (room M b))"
  have env: "frame_env M (set_slot (set_region fr r b) h (of_nat (base M b))) = ?rho'"
    unfolding env_set_slot env_set_region sint_base [OF assms(3)] by (auto simp: fun_upd_def)
  have "entails f lo (lneg sz)" "entails f hi (lsub sz (kz (z_sub (z_pow2 32) z_one)))"
    and m: "\<not> mentions (S h) sz" "\<not> mentions (B r) sz" "\<not> mentions (C r) sz"
    using assms(2) by (simp_all add: alloc_ok_def)
  from this(1,2) [THEN entails_sound [OF assms(1)]]
  have "0 \<le> lval ?rho sz" "lval ?rho sz < 2 ^ 32"
    by (simp_all add: lval_simps zval_simps)
  then have "lval ?rho sz \<le> int (room M b)"
    using assms(4) by simp
  moreover have "lval ?rho' sz = lval ?rho sz"
    using m by (simp only: lval_upd_other not_False_eq_True)
  moreover have "lsat ?rho' (kill_region (kill f (S h)) r)"
    using lsat_kill [OF assms(1)] by (rule lsat_kill_region)
  ultimately show ?thesis
    unfolding env alloc_facts_def by (simp add: lval_simps)
qed

lemma asn_sound:
  assumes "lsat (frame_env M fr) f"
  shows "lsat (frame_env M (set_slot fr x (val64 M fr l))) (asn_facts f x l lo hi)"
proof -
  let ?rho = "frame_env M fr" and ?v = "sint (val64 M fr l)"
  have k: "lsat (?rho(S x := ?v)) (kill f (S x))"
    using lsat_kill [OF assms] .
  show ?thesis
  proof (cases "no_wrap f l (lo, hi)")
    case False
    then show ?thesis
      using k by (simp add: asn_facts_def env_set_slot)
  next
    case True
    have v: "?v = lval ?rho l"
      using val64_exact [OF True assms] .
    consider "coef (terms l) (S x) = z_zero" | "coef (terms l) (S x) \<noteq> z_zero" "coef (terms l) (S x) = z_one"
      | "coef (terms l) (S x) \<noteq> z_zero" "coef (terms l) (S x) \<noteq> z_one" by blast
    then show ?thesis
    proof cases
      case 1
      then have "lval (?rho(S x := ?v)) l = lval ?rho l"
        by (intro lval_coef0) simp
      then show ?thesis
        using True 1 k v by (simp add: asn_facts_def Let_def env_set_slot)
    next
      case 2
      let ?d = "lsub (v1 (S x)) \<lparr>terms = dropv (S x) (terms l), cst = cst l\<rparr>"
      have "lval ?rho l = ?rho (S x) + tval ?rho (dropv (S x) (terms l)) + zval (cst l)"
        using tval_dropv [of ?rho "terms l" "S x"] 2 by (simp add: lval_def)
      then have d: "lval (?rho(S x := ?v)) ?d = ?rho (S x)"
        unfolding lval_lsub lval_v1 using v by (simp add: lval_def del: frame_env.simps)
      have "lval (?rho(S x := ?v)) (lsubst (S x) ?d g) = lval ?rho g" for g
        unfolding lval_subst d by (simp del: frame_env.simps)
      then have "lsat (?rho(S x := ?v)) (map (lsubst (S x) ?d) f)"
        using assms by (simp add: lsat_def)
      moreover have "asn_facts f x l lo hi = map (lsubst (S x) ?d) f"
        using True 2 by (simp add: asn_facts_def Let_def)
      ultimately show ?thesis
        by (simp only: env_set_slot)
    next
      case 3
      then show ?thesis
        using True k by (simp add: asn_facts_def env_set_slot Let_def)
    qed
  qed
qed

lemma uint_nonneg64:
  fixes v :: "64 word"
  assumes "0 \<le> sint v"
  shows "uint v = sint v"
  using sint_nonneg [OF assms] by simp

lemma test_sound:
  assumes "lsat (frame_env M fr) f" and "test_facts f a b g pa pb nn = (ft, fe)"
  shows "lsat (frame_env M fr) ((if cmp_ge g (val64 M fr a) (val64 M fr b) then ft else fe) @ f)"
proof (cases "no_wrap f a pa \<and> no_wrap f b pb \<and> (g \<or> entails f (fst nn) (lneg a) \<and> entails f (snd nn) (lneg b))")
  case False
  then have "ft = [] \<and> fe = []"
    using assms(2) unfolding test_facts_def if_not_P [OF False] by simp
  then show ?thesis using assms(1) by simp
next
  case True
  then have t: "ft = [lsub b a]" "fe = [ladd (lsub a b) (kz z_one)]"
    using assms(2) unfolding test_facts_def if_P [OF True] by simp_all
  have v: "sint (val64 M fr a) = lval (frame_env M fr) a" "sint (val64 M fr b) = lval (frame_env M fr) b"
    using True val64_exact assms(1) by blast+
  have "cmp_ge g (val64 M fr a) (val64 M fr b) \<longleftrightarrow> lval (frame_env M fr) b \<le> lval (frame_env M fr) a"
  proof (cases g)
    case False
    then have "entails f (fst nn) (lneg a)" "entails f (snd nn) (lneg b)"
      using True by simp_all
    from this [THEN entails_sound [OF assms(1)]]
    have "0 \<le> sint (val64 M fr a)" "0 \<le> sint (val64 M fr b)"
      using v by (simp_all add: lval_simps)
    then show ?thesis
      using False v by (simp add: cmp_ge_def word_le_def uint_nonneg64)
  qed (use v in \<open>simp add: cmp_ge_def\<close>)
  then show ?thesis
    using assms(1) t by (simp add: lval_simps)
qed

subsection \<open>Joins and proofs\<close>

definition gst :: "layout \<Rightarrow> frame \<Rightarrow> lst \<Rightarrow> bool" where
  "gst M fr st = (case st of None \<Rightarrow> False | Some f \<Rightarrow> lsat (frame_env M fr) f)"

lemma gst_None [simp]: "\<not> gst M fr None"
  by (simp add: gst_def)

lemma gst_Some [simp]: "gst M fr (Some f) \<longleftrightarrow> lsat (frame_env M fr) f"
  by (simp add: gst_def)

lemma gst_fjoin: "gst M fr a \<or> gst M fr b \<Longrightarrow> gst M fr (fjoin a b)"
  by (cases a; cases b) (auto simp: fjoin_def lsat_def)

lemma gst_fjoin_Some:
  assumes "gst M fr a \<or> gst M fr b"
  obtains g where "fjoin a b = Some g" "lsat (frame_env M fr) g"
  using gst_fjoin [OF assms] by (cases "fjoin a b") auto

lemma gst_foldr: "gst M fr b \<or> (\<exists>j \<in> set joins. gst M fr j) \<Longrightarrow> gst M fr (foldr fjoin joins b)"
  by (induction joins) (auto intro: gst_fjoin)

text \<open>The breaks of the arms already passed are in the result's break state.\<close>

lemma lcheck_joins:
  "lcheck_loop P c f joins its = Some (sr, br) \<Longrightarrow> j \<in> set joins \<Longrightarrow> gst M fr j \<Longrightarrow> gst M fr br"
proof (induction P c f joins its arbitrary: sr br rule: lcheck_loop.induct)
  case (12 P c f joins a b g pa pb nn thn els its)
  obtain ft fe where t: "test_facts f a b g pa pb nn = (ft, fe)" by fastforce
  show ?case
    using 12 t by (fastforce simp: Let_def lfinish_def intro: gst_foldr split: option.splits prod.splits)
next
  case (13 P c f joins thn els its)
  then show ?case
    by (fastforce simp: Let_def lfinish_def intro: gst_foldr split: option.splits prod.splits)
next
  case (14 P c f joins iv pin body its)
  then show ?case
    by (fastforce simp: Let_def lfinish_def intro: gst_foldr split: option.splits prod.splits if_splits)
qed (auto simp: lfinish_def intro: gst_foldr split: if_splits option.splits)

lemma proves_sound:
  assumes "proves f g pfs" and "lsat rho f"
  shows "lsat rho g"
  unfolding lsat_def
proof
  fix l assume "l \<in> set g"
  then obtain i where i: "i < length g" "l = g ! i" by (auto simp: in_set_conv_nth)
  then have "(l, pfs ! i) \<in> set (zip g pfs)"
    using assms(1) by (auto simp: proves_def set_zip)
  then have "l \<in> set f \<or> entails f (pfs ! i) l"
    using assms(1) by (auto simp: proves_def list_all_iff)
  then show "lval rho l \<le> 0"
    using assms(2) entails_sound [OF assms(2), of "pfs ! i" l] unfolding lsat_def by blast
qed

subsection \<open>Calls\<close>

lemma lval_cong:
  assumes "\<And>v. mentions v l \<Longrightarrow> rho v = rho' v"
  shows "lval rho l = lval rho' l"
proof -
  have "tval rho (terms l) = tval rho' (terms l)"
    by (rule tval_cong) (rule assms, auto simp: mentions_def list_ex_iff)
  then show ?thesis by (simp add: lval_def)
qed

lemma tr_terms_val:
  "tr_terms tr ts = Some m \<Longrightarrow> (\<And>v d. tr v = Some d \<Longrightarrow> lval rho d = rho' v) \<Longrightarrow> lval rho m = tval rho' ts"
proof (induction ts arbitrary: m)
  case (Cons p ts)
  obtain v a where p: "p = (v, a)" by (cases p)
  obtain d m' where "tr v = Some d" "tr_terms tr ts = Some m'" "m = ladd (lmul a d) m'"
    using Cons.prems(1) p by (auto split: option.splits)
  then show ?case
    using Cons p by (simp add: lval_simps tval_Cons)
qed (auto simp: lval_simps)

lemma tr_lin_val:
  assumes "tr_lin tr l = Some m" and "\<And>v d. tr v = Some d \<Longrightarrow> lval rho d = rho' v"
  shows "lval rho m = lval rho' l"
proof -
  obtain n where n: "tr_terms tr (terms l) = Some n" "m = ladd n (kz (cst l))"
    using assms(1) by (auto simp: tr_lin_def split: option.splits)
  have "lval rho n = tval rho' (terms l)"
    using tr_terms_val [OF n(1)] assms(2) by blast
  then show ?thesis
    by (simp add: n(2) lval_simps) (simp add: lval_def)
qed

lemma tr_all_sat:
  "tr_all tr gs = Some hs \<Longrightarrow> (\<And>v d. tr v = Some d \<Longrightarrow> lval rho d = rho' v) \<Longrightarrow> lsat rho hs \<Longrightarrow> lsat rho' gs"
proof (induction gs arbitrary: hs)
  case (Cons g gs)
  obtain h hs' where "tr_lin tr g = Some h" "tr_all tr gs = Some hs'" "hs = h # hs'"
    using Cons.prems(1) by (auto split: option.splits)
  then show ?case
    using Cons tr_lin_val [of tr g h rho rho'] by simp
qed simp

lemma tr_some_sat:
  assumes "\<And>v d. tr v = Some d \<Longrightarrow> lval rho d = rho' v" and "lsat rho' gs"
  shows "lsat rho (tr_some tr gs)"
  unfolding lsat_def
proof
  fix h assume "h \<in> set (tr_some tr gs)"
  then obtain g where "g \<in> set gs" "tr_lin tr g = Some h"
    by (auto simp: tr_some_def split: option.splits)
  then show "lval rho h \<le> 0"
    using tr_lin_val [of tr g h rho rho'] assms by (simp add: lsat_def)
qed

lemma valid_args_mem:
  "(q, l) \<in> set (valid_args f args) \<Longrightarrow> \<exists>p. (q, l, Some p) \<in> set args \<and> no_wrap f l p"
  by (auto simp: valid_args_def split: option.splits if_splits)

lemma valid_arg_value:
  assumes "(q, l) \<in> set (valid_args f args)" and "lbinds M args reps fr fr'" and "lsat (frame_env M fr) f"
  shows "sint (snd fr' q) = lval (frame_env M fr) l"
proof -
  obtain p where p: "(q, l, Some p) \<in> set args" "no_wrap f l p"
    using valid_args_mem [OF assms(1)] by blast
  then have "snd fr' q = val64 M fr l"
    using assms(2) by (auto simp: lbinds_def)
  then show ?thesis
    using val64_exact [OF p(2) assms(3)] by simp
qed

lemma rep_block: "lbinds M args reps fr fr' \<Longrightarrow> assoc r2 reps = Some r \<Longrightarrow> fst fr' r2 = fst fr r"
  using assoc_mem by (fastforce simp: lbinds_def)

lemma tr_in_value:
  assumes "tr_in (valid_args f args) reps v = Some d" and "lbinds M args reps fr fr'"
    and "lsat (frame_env M fr) f"
  shows "lval (frame_env M fr) d = frame_env M fr' v"
  using assms(1)
proof (cases v)
  case (S q)
  then show ?thesis
    using assms valid_arg_value [OF assoc_mem] by simp
qed (use assms(1) rep_block [OF assms(2)] in \<open>auto simp: lval_simps\<close>)

lemma kill_outs_mem:
  "l \<in> set (kill_outs f outs) \<Longrightarrow>
    l \<in> set f \<and> (\<forall>q \<in> set outs. \<not> mentions (B (fst q)) l \<and> \<not> mentions (C (fst q)) l)"
  unfolding kill_outs_def
proof (induction outs arbitrary: f)
  case (Cons q outs)
  have "l \<in> set (kill_region f (fst q)) \<and> (\<forall>q \<in> set outs. \<not> mentions (B (fst q)) l \<and> \<not> mentions (C (fst q)) l)"
    using Cons.IH [of "kill_region f (fst q)"] Cons.prems by simp
  moreover have "l \<in> set f \<and> \<not> mentions (B (fst q)) l \<and> \<not> mentions (C (fst q)) l"
    if "l \<in> set (kill_region f (fst q))"
    using that by (simp add: kill_region_def kill_def)
  ultimately show ?case
    by simp
qed simp

lemma after_call_other:
  assumes "\<not> mentions (S res) l"
    and "\<And>q. q \<in> set outs \<Longrightarrow> \<not> mentions (B (fst q)) l \<and> \<not> mentions (C (fst q)) l"
  shows "lval (frame_env M (after_call fr fr1 outs res rs)) l = lval (frame_env M fr) l"
proof (rule lval_cong)
  fix v assume v: "mentions v l"
  show "frame_env M (after_call fr fr1 outs res rs) v = frame_env M fr v"
  proof (cases v)
    case (S x)
    then show ?thesis using v assms(1) by (auto simp: after_call_def)
  next
    case (B r)
    then have "r \<notin> fst ` set outs" using v assms(2) by auto
    then show ?thesis using B by (simp add: after_call_def assoc_None)
  next
    case (C r)
    then have "r \<notin> fst ` set outs" using v assms(2) by auto
    then show ?thesis using C by (simp add: after_call_def assoc_None)
  qed
qed

lemma out_of_assoc: "out_of outs r2 = Some r \<Longrightarrow> assoc r outs = Some r2"
  by (auto simp: out_of_def find_Some_iff dest!: arg_cong [where f = fst])

lemma tr_region_block:
  assumes "tr_region reps outs d r2 = Some r" and "lbinds M args reps fr fr'" and "call_ok a reps outs res"
    and "\<And>x. x \<notin> set (rebinds (lbody d)) \<Longrightarrow> fst fr1 x = fst fr' x"
  shows "fst (after_call fr fr1 outs res rs) r = fst fr1 r2"
proof (cases "out_of outs r2")
  case (Some r0)
  then show ?thesis
    using assms(1) out_of_assoc by (auto simp: tr_region_def after_call_def)
next
  case None
  then have r: "r2 \<notin> set (rebinds (lbody d))" "assoc r2 reps = Some r"
    using assms(1) by (auto simp: tr_region_def split: if_splits)
  then have "r \<notin> fst ` set outs"
    using assms(3) assoc_mem [OF r(2)] by (force simp: call_ok_def list_all_iff list_ex_iff)
  then show ?thesis
    using r assms(4) rep_block [OF assms(2)] by (simp add: after_call_def assoc_None)
qed

lemma tr_out_value:
  assumes "tr_out (valid_args f args) reps outs d res v = Some e" and "lbinds M args reps fr fr'"
    and "lsat (frame_env M fr) f" and "call_ok (valid_args f args) reps outs res"
    and "\<And>x. x \<notin> set (writes (lbody d)) \<Longrightarrow> snd fr1 x = snd fr' x"
    and "\<And>x. x \<notin> set (rebinds (lbody d)) \<Longrightarrow> fst fr1 x = fst fr' x"
  shows "lval (frame_env M (after_call fr fr1 outs res (rslot d))) e = frame_env M fr1 v"
proof (cases v)
  case (S q)
  show ?thesis
  proof (cases "q = rslot d")
    case True
    then have "e = v1 (S res)"
      using assms(1) S by simp
    then show ?thesis
      using True S by (simp add: lval_simps after_call_def)
  next
    case False
    then have q: "q \<notin> set (writes (lbody d))" "(q, e) \<in> set (valid_args f args)"
      using assms(1) S by (auto split: if_splits intro: assoc_mem)
    then have "lval (frame_env M (after_call fr fr1 outs res (rslot d))) e = lval (frame_env M fr) e"
      using assms(4) by (intro after_call_other) (auto simp: call_ok_def list_all_iff)
    then show ?thesis
      using valid_arg_value [OF q(2) assms(2,3)] assms(5) [OF q(1)] S by simp
  qed
next
  case (B r2)
  then obtain r where "tr_region reps outs d r2 = Some r" "e = v1 (B r)"
    using assms(1) by auto
  then show ?thesis
    using tr_region_block [OF _ assms(2,4,6)] B by (simp add: lval_simps)
next
  case (C r2)
  then obtain r where "tr_region reps outs d r2 = Some r" "e = v1 (C r)"
    using assms(1) by auto
  then show ?thesis
    using tr_region_block [OF _ assms(2,4,6)] C by (simp add: lval_simps)
qed

lemma call_steps:
  assumes "call_facts P f g args reps outs res pfs = Some f1" and "lplook P g = Some d"
  obtains pre2 where "tr_all (tr_in (valid_args f args) reps) (lpre d) = Some pre2" "proves f pre2 pfs"
    "call_ok (valid_args f args) reps outs res"
    "f1 = tr_some (tr_out (valid_args f args) reps outs d res) (lpost d) @ kill (kill_outs f outs) (S res)"
  using assms by (auto simp: call_facts_def Let_def split: option.splits if_splits)

lemma call_pre:
  assumes "call_facts P f g args reps outs res pfs = Some f1" and "lplook P g = Some d"
    and "lbinds M args reps fr fr'" and "lsat (frame_env M fr) f"
  shows "lsat (frame_env M fr') (lpre d)"
proof -
  obtain pre2 where p: "tr_all (tr_in (valid_args f args) reps) (lpre d) = Some pre2" "proves f pre2 pfs"
    using call_steps [OF assms(1,2)] by blast
  show ?thesis
    using tr_all_sat [OF p(1)] tr_in_value [OF _ assms(3,4)] proves_sound [OF p(2) assms(4)] by blast
qed

lemma call_post:
  assumes "call_facts P f g args reps outs res pfs = Some f1" and "lplook P g = Some d"
    and "lbinds M args reps fr fr'" and "lsat (frame_env M fr) f"
    and "lrun P M fr' (lbody d) (LReturned fr1)" and "lsat (frame_env M fr1) (lpost d)"
  shows "lsat (frame_env M (after_call fr fr1 outs res (rslot d))) f1"
proof -
  have ok: "call_ok (valid_args f args) reps outs res"
    and f1: "f1 = tr_some (tr_out (valid_args f args) reps outs d res) (lpost d) @ kill (kill_outs f outs) (S res)"
    using call_steps [OF assms(1,2)] by blast+
  have "lsat (frame_env M (after_call fr fr1 outs res (rslot d)))
      (tr_some (tr_out (valid_args f args) reps outs d res) (lpost d))"
  proof (rule tr_some_sat [OF _ assms(6)])
    fix v e assume e: "tr_out (valid_args f args) reps outs d res v = Some e"
    show "lval (frame_env M (after_call fr fr1 outs res (rslot d))) e = frame_env M fr1 v"
      using tr_out_value [OF e assms(3,4) ok] lrun_keeps_slots [OF assms(5)] lrun_keeps_regions [OF assms(5)]
      by simp
  qed
  moreover have "lsat (frame_env M (after_call fr fr1 outs res (rslot d))) (kill (kill_outs f outs) (S res))"
    unfolding lsat_def
  proof
    fix l assume "l \<in> set (kill (kill_outs f outs) (S res))"
    then have l: "\<not> mentions (S res) l" "l \<in> set (kill_outs f outs)"
      by (auto simp: kill_def)
    then have "lval (frame_env M (after_call fr fr1 outs res (rslot d))) l = lval (frame_env M fr) l"
      using kill_outs_mem [OF l(2)] by (intro after_call_other) auto
    then show "lval (frame_env M (after_call fr fr1 outs res (rslot d))) l \<le> 0"
      using kill_outs_mem [OF l(2)] assms(4) by (simp add: lsat_def)
  qed
  ultimately show ?thesis
    by (simp add: f1)
qed

text \<open>Calls that bind each parameter and each region once; then a frame that binds them exists.\<close>

fun calls_once :: "litem list \<Rightarrow> bool" where
  "calls_once [] \<longleftrightarrow> True"
| "calls_once (LTest a b g pa pb nn t e # its) \<longleftrightarrow> calls_once t \<and> calls_once e \<and> calls_once its"
| "calls_once (LBranch t e # its) \<longleftrightarrow> calls_once t \<and> calls_once e \<and> calls_once its"
| "calls_once (LLoop iv pin body # its) \<longleftrightarrow> calls_once body \<and> calls_once its"
| "calls_once (LCall f args reps outs res pfs # its) \<longleftrightarrow>
     distinct (map fst args) \<and> distinct (map fst reps) \<and> calls_once its"
| "calls_once (_ # its) \<longleftrightarrow> calls_once its"

definition ltable_fit :: "ltable \<Rightarrow> bool" where
  "ltable_fit P \<longleftrightarrow> (\<forall>(_, d) \<in> set P. calls_once (lbody d))"

lemma frame_bound:
  assumes "distinct (map fst args)" and "distinct (map fst reps)"
  shows "\<exists>fr'. lbinds M args reps fr fr'"
proof -
  let ?e = "\<lambda>p. case map_of args p of None \<Rightarrow> 0 | Some (l, _) \<Rightarrow> val64 M fr l"
  let ?b = "\<lambda>r'. case map_of reps r' of None \<Rightarrow> 0 | Some r \<Rightarrow> fst fr r"
  have "lbinds M args reps fr (?b, ?e)"
    using assms by (auto simp: lbinds_def)
  then show ?thesis by blast
qed

subsection \<open>Soundness\<close>

definition lpost_ok :: "layout \<Rightarrow> lctx \<Rightarrow> lst \<times> lst \<Rightarrow> lout \<Rightarrow> bool" where
  "lpost_ok M c r out = (case out of
     LDone fr \<Rightarrow> gst M fr (fst r)
   | LBroke fr \<Rightarrow> gst M fr (snd r)
   | LConted fr \<Rightarrow> gst M fr (fst c)
   | LReturned fr \<Rightarrow> lsat (frame_env M fr) (snd c)
   | LAborted \<Rightarrow> True
   | LFault \<Rightarrow> False)"

lemma lprocs_ok_body:
  "lprocs_ok P \<Longrightarrow> lplook P f = Some d \<Longrightarrow>
    lcheck_loop P (None, lpost d) (lpre d) [] (lbody d) = Some (None, None)"
  unfolding lprocs_ok_def list_all_iff lcheck_def lplook_def by (fastforce dest: map_of_SomeD)

lemma ltable_fit_body: "ltable_fit P \<Longrightarrow> lplook P f = Some d \<Longrightarrow> calls_once (lbody d)"
  unfolding ltable_fit_def lplook_def by (fastforce dest: map_of_SomeD)

text \<open>A test or branch whose arms are accepted: the arms' states join.\<close>

definition arms_check ::
    "ltable \<Rightarrow> lctx \<Rightarrow> lst list \<Rightarrow> litem list \<Rightarrow> lst \<times> lst \<Rightarrow> lst \<times> lst \<Rightarrow> lst \<times> lst \<Rightarrow> bool" where
  "arms_check P c joins its t e r \<longleftrightarrow>
     (case fjoin (fst t) (fst e) of
        None \<Rightarrow> lfinish joins None (fjoin (snd t) (snd e)) = Some r
      | Some g \<Rightarrow> lcheck_loop P c g (joins @ [fjoin (snd t) (snd e)]) its = Some r)"

lemma test_steps:
  assumes "lcheck_loop P c f joins (LTest a b g pa pb nn thn els # its) = Some r"
  obtains ft fe t e where "test_facts f a b g pa pb nn = (ft, fe)" "lcheck_loop P c (ft @ f) [] thn = Some t"
    "lcheck_loop P c (fe @ f) [] els = Some e" "arms_check P c joins its t e r"
  using assms by (force simp: arms_check_def Let_def split: option.splits prod.splits)

lemma branch_steps:
  assumes "lcheck_loop P c f joins (LBranch thn els # its) = Some r"
  obtains t e where "lcheck_loop P c f [] thn = Some t"
    "lcheck_loop P c f [] els = Some e" "arms_check P c joins its t e r"
  using assms by (force simp: arms_check_def Let_def split: option.splits prod.splits)

lemma arms_stop:
  assumes "arms_check P c joins its t e r" and "s = t \<or> s = e" and "lpost_ok M c s out" and "stops out"
  shows "lpost_ok M c r out"
proof (cases out)
  case (LBroke fr)
  then have b: "gst M fr (fjoin (snd t) (snd e))"
    using assms(2,3) by (auto simp: lpost_ok_def intro: gst_fjoin)
  have "gst M fr (snd r)"
  proof (cases "fjoin (fst t) (fst e)")
    case None
    then have "r = (None, foldr fjoin joins (fjoin (snd t) (snd e)))"
      using assms(1) by (simp add: arms_check_def lfinish_def)
    then show ?thesis
      using gst_foldr b by simp
  next
    case (Some g)
    then have "lcheck_loop P c g (joins @ [fjoin (snd t) (snd e)]) its = Some (fst r, snd r)"
      using assms(1) by (simp add: arms_check_def)
    then show ?thesis
      using lcheck_joins [where j = "fjoin (snd t) (snd e)"] b by fastforce
  qed
  then show ?thesis
    using LBroke by (simp add: lpost_ok_def)
qed (use assms in \<open>simp_all add: lpost_ok_def\<close>)

lemma arms_go_on:
  assumes "arms_check P c joins its t e r" and "s = t \<or> s = e" and "gst M fr (fst s)"
  obtains g where "lcheck_loop P c g (joins @ [fjoin (snd t) (snd e)]) its = Some r" "lsat (frame_env M fr) g"
proof -
  obtain g where "fjoin (fst t) (fst e) = Some g" "lsat (frame_env M fr) g"
    using gst_fjoin_Some assms(2,3) by metis
  then show thesis
    using that assms(1) by (simp add: arms_check_def)
qed

lemma loop_steps:
  assumes "lcheck_loop P c f joins (LLoop iv pin body # its) = Some r"
  obtains t where "proves f iv pin" "lcheck_loop P (Some iv, snd c) iv [] body = Some t"
    "\<And>fr. gst M fr (fst t) \<or> gst M fr (snd t) \<Longrightarrow>
       \<exists>g. lcheck_loop P c g joins its = Some r \<and> lsat (frame_env M fr) g"
proof -
  obtain t where t: "proves f iv pin" "lcheck_loop P (Some iv, snd c) iv [] body = Some t"
    "(case fjoin (fst t) (snd t) of None \<Rightarrow> lfinish joins None None | Some g \<Rightarrow> lcheck_loop P c g joins its) = Some r"
    using assms by (auto split: if_splits option.splits)
  have "\<exists>g. lcheck_loop P c g joins its = Some r \<and> lsat (frame_env M fr) g"
    if "gst M fr (fst t) \<or> gst M fr (snd t)" for fr
    using gst_fjoin_Some [OF that] t(3) by (metis option.case(2))
  then show thesis
    using that t(1,2) by blast
qed

lemma proves_length: "proves f g pfs \<Longrightarrow> length g = length pfs"
  by (simp add: proves_def)

lemma proves_self: "length g = length pfs \<Longrightarrow> proves g g pfs"
  by (auto simp: proves_def list_all_iff set_zip)

lemma loop_again:
  assumes "lcheck_loop P c f joins (LLoop iv pin body # its) = Some r"
  shows "lcheck_loop P c iv joins (LLoop iv pin body # its) = Some r"
proof -
  have "proves f iv pin"
    using assms by (simp split: if_splits)
  then have "proves iv iv pin"
    using proves_self proves_length by blast
  then show ?thesis
    using assms by (simp split: if_splits)
qed

lemma lrun_sound:
  assumes "lrun P M fr its out" and "lprocs_ok P" and "ltable_fit P" and "layout_ok M"
    and "lcheck_loop P c f joins its = Some r" and "calls_once its" and "lsat (frame_env M fr) f"
  shows "lpost_ok M c r out"
  using assms(1,5-)
proof (induction arbitrary: c f joins r rule: lrun.induct)
  case (lr_end fr)
  then show ?case by (auto simp: lpost_ok_def lfinish_def)
next
  case (lr_acc fr r w off addr k out p0 p1 p2)
  then show ?case by (auto split: if_splits)
next
  case (lr_acc_fault fr rg w off addr p0 p1 p2 k)
  then show ?case using acc_ok_in assms(4) by (auto split: if_splits)
next
  case (lr_sto fr r w off addr k out p0 p1 p2)
  then show ?case by (auto split: if_splits)
next
  case (lr_sto_fault fr rg w off addr p0 p1 p2 k)
  then show ?case using acc_ok_in assms(4) by (auto split: if_splits)
next
  case (lr_handle fr h rg k out)
  then show ?case using handle_sound [OF _ assms(4)] by simp
next
  case (lr_len v st fr rg n k out)
  then show ?case using len_sound [OF lr_len.prems(3) lr_len.hyps(1,2)] by simp
next
  case (lr_alloc fr sz b rg h k out lo hi)
  then have "alloc_ok f h rg sz lo hi" "lcheck_loop P c (alloc_facts f h rg sz) joins k = Some r"
    by (auto split: if_splits)
  then show ?case
    using lr_alloc.IH alloc_sound [OF lr_alloc.prems(3) _ assms(4) lr_alloc.hyps(1)] lr_alloc.prems(2) by simp
next
  case (lr_wf fr k out rg)
  then show ?case using wf_sound [OF _ assms(4)] by simp
next
  case (lr_static b b0 c0 fr rg k out)
  then show ?case using static_sound [OF lr_static.prems(3) lr_static.hyps(1,2)] by simp
next
  case (lr_set fr x v k out)
  have "lsat (frame_env M (set_slot fr x v)) (kill f (S x))"
    unfolding env_set_slot by (rule lsat_kill [OF lr_set.prems(3)])
  then show ?case using lr_set by simp
next
  case (lr_setr lo v hi fr x k out)
  then show ?case using range_sound [OF lr_setr.prems(3) lr_setr.hyps(1,2)] by simp
next
  case (lr_asn fr x l k out lo hi)
  then show ?case using asn_sound by simp
next
  case (lr_test arm g fr a b thn els fr' k out pa pb nn)
  obtain ft fe t e where s: "test_facts f a b g pa pb nn = (ft, fe)" "lcheck_loop P c (ft @ f) [] thn = Some t"
    "lcheck_loop P c (fe @ f) [] els = Some e" "arms_check P c joins k t e r"
    using test_steps [OF lr_test.prems(1)] .
  have "calls_once thn" "calls_once els" and k: "calls_once k"
    using lr_test.prems(2) by simp_all
  then obtain s' where "s' = t \<or> s' = e" "lpost_ok M c s' (LDone fr')"
    using lr_test.IH(1) s(2,3) test_sound [OF lr_test.prems(3) s(1)] lr_test.hyps(1) by (metis (full_types))
  then obtain g' where "lcheck_loop P c g' (joins @ [fjoin (snd t) (snd e)]) k = Some r" "lsat (frame_env M fr') g'"
    using arms_go_on [OF s(4), of s' M fr'] by (auto simp: lpost_ok_def)
  then show ?case
    using lr_test.IH(2) k by blast
next
  case (lr_test_stop arm g fr a b thn els out pa pb nn k)
  obtain ft fe t e where s: "test_facts f a b g pa pb nn = (ft, fe)" "lcheck_loop P c (ft @ f) [] thn = Some t"
    "lcheck_loop P c (fe @ f) [] els = Some e" "arms_check P c joins k t e r"
    using test_steps [OF lr_test_stop.prems(1)] .
  have "calls_once thn" "calls_once els"
    using lr_test_stop.prems(2) by simp_all
  then obtain s' where "s' = t \<or> s' = e" "lpost_ok M c s' out"
    using lr_test_stop.IH s(2,3) test_sound [OF lr_test_stop.prems(3) s(1)] lr_test_stop.hyps(1)
    by (metis (full_types))
  then show ?case
    using arms_stop [OF s(4)] lr_test_stop.hyps(3) by blast
next
  case (lr_branch arm thn els fr fr' k out)
  obtain t e where s: "lcheck_loop P c f [] thn = Some t" "lcheck_loop P c f [] els = Some e"
    "arms_check P c joins k t e r"
    using branch_steps [OF lr_branch.prems(1)] .
  have "calls_once thn" "calls_once els" and k: "calls_once k"
    using lr_branch.prems(2) by simp_all
  then obtain s' where "s' = t \<or> s' = e" "lpost_ok M c s' (LDone fr')"
    using lr_branch.IH(1) s(1,2) lr_branch.prems(3) lr_branch.hyps(1) by metis
  then obtain g' where "lcheck_loop P c g' (joins @ [fjoin (snd t) (snd e)]) k = Some r" "lsat (frame_env M fr') g'"
    using arms_go_on [OF s(3), of s' M fr'] by (auto simp: lpost_ok_def)
  then show ?case
    using lr_branch.IH(2) k by blast
next
  case (lr_branch_stop arm thn els fr out k)
  obtain t e where s: "lcheck_loop P c f [] thn = Some t" "lcheck_loop P c f [] els = Some e"
    "arms_check P c joins k t e r"
    using branch_steps [OF lr_branch_stop.prems(1)] .
  have "calls_once thn" "calls_once els"
    using lr_branch_stop.prems(2) by simp_all
  then obtain s' where "s' = t \<or> s' = e" "lpost_ok M c s' out"
    using lr_branch_stop.IH s(1,2) lr_branch_stop.prems(3) lr_branch_stop.hyps(1) by metis
  then show ?case
    using arms_stop [OF s(3)] lr_branch_stop.hyps(3) by blast
next
  case (lr_loop_exit fr body o1 fr' k out iv pin)
  obtain t where t: "proves f iv pin" "lcheck_loop P (Some iv, snd c) iv [] body = Some t"
    "\<And>fr. gst M fr (fst t) \<or> gst M fr (snd t) \<Longrightarrow> \<exists>g. lcheck_loop P c g joins k = Some r \<and> lsat (frame_env M fr) g"
    using loop_steps [OF lr_loop_exit.prems(1)] by blast
  have "lpost_ok M (Some iv, snd c) t o1"
    using lr_loop_exit.IH(1) [OF t(2)] proves_sound [OF t(1) lr_loop_exit.prems(3)] lr_loop_exit.prems(2) by simp
  then have "gst M fr' (fst t) \<or> gst M fr' (snd t)"
    using lr_loop_exit.hyps(2) by (auto simp: lpost_ok_def)
  then show ?case
    using t(3) lr_loop_exit.IH(2) lr_loop_exit.prems(2) by fastforce
next
  case (lr_loop_again fr body fr' iv pin k out)
  obtain t where t: "proves f iv pin" "lcheck_loop P (Some iv, snd c) iv [] body = Some t"
    using loop_steps [OF lr_loop_again.prems(1)] by blast
  have "lpost_ok M (Some iv, snd c) t (LConted fr')"
    using lr_loop_again.IH(1) [OF t(2)] proves_sound [OF t(1) lr_loop_again.prems(3)] lr_loop_again.prems(2)
    by simp
  then have "lsat (frame_env M fr') iv"
    by (simp add: lpost_ok_def)
  then show ?case
    using lr_loop_again.IH(2) [OF loop_again [OF lr_loop_again.prems(1)] lr_loop_again.prems(2)] by simp
next
  case (lr_loop_stop fr body out fr' iv pin k)
  obtain t where t: "proves f iv pin" "lcheck_loop P (Some iv, snd c) iv [] body = Some t"
    using loop_steps [OF lr_loop_stop.prems(1)] by blast
  have "lpost_ok M (Some iv, snd c) t out"
    using lr_loop_stop.IH [OF t(2)] proves_sound [OF t(1) lr_loop_stop.prems(3)] lr_loop_stop.prems(2) by simp
  then show ?case
    using lr_loop_stop.hyps(2) by (auto simp: lpost_ok_def)
next
  case (lr_cont fr pfs k)
  then show ?case
    using proves_sound by (auto simp: lpost_ok_def split: option.splits if_splits)
next
  case (lr_brk fr k)
  then have "r = (None, foldr fjoin joins (Some f))"
    by (simp add: lfinish_def)
  then show ?case
    using lr_brk.prems(3) gst_foldr by (simp add: lpost_ok_def)
next
  case (lr_trap fr k)
  then show ?case by (simp add: lpost_ok_def)
next
  case (lr_ret fr pfs k)
  then show ?case
    using proves_sound by (auto simp: lpost_ok_def split: if_splits)
next
  case (lr_call g d args reps fr fr' fr1 outs res k out pfs)
  obtain f1 where f1: "call_facts P f g args reps outs res pfs = Some f1" "lcheck_loop P c f1 joins k = Some r"
    using lr_call.prems(1) by (auto split: option.splits)
  have "lpost_ok M (None, lpost d) (None, None) (LReturned fr1)"
    using lr_call.IH(1) [OF lprocs_ok_body [OF assms(2) lr_call.hyps(1)]]
      call_pre [OF f1(1) lr_call.hyps(1,2) lr_call.prems(3)] ltable_fit_body [OF assms(3) lr_call.hyps(1)] by simp
  then have "lsat (frame_env M fr1) (lpost d)"
    by (simp add: lpost_ok_def)
  then show ?case
    using lr_call.IH(2) [OF f1(2)] call_post [OF f1(1) lr_call.hyps(1,2) lr_call.prems(3) lr_call.hyps(3)]
      lr_call.prems(2) by simp
next
  case (lr_call_stop g d args reps fr fr' o1 out outs res pfs k)
  obtain f1 where f1: "call_facts P f g args reps outs res pfs = Some f1"
    using lr_call_stop.prems(1) by (auto split: option.splits)
  have "lpost_ok M (None, lpost d) (None, None) o1"
    using lr_call_stop.IH [OF lprocs_ok_body [OF assms(2) lr_call_stop.hyps(1)]]
      call_pre [OF f1(1) lr_call_stop.hyps(1,2) lr_call_stop.prems(3)]
      ltable_fit_body [OF assms(3) lr_call_stop.hyps(1)] by simp
  then have "o1 = LAborted"
    using lr_call_stop.hyps(4) by (cases o1) (auto simp: lpost_ok_def)
  then show ?case
    using lr_call_stop.hyps(5) by (simp add: lpost_ok_def)
next
  case (lr_call_clash g d args reps fr outs res pfs k)
  then show ?case
    using frame_bound by simp blast
next
  case (lr_call_none g fr args reps outs res pfs k)
  then show ?case by (simp add: call_facts_def)
qed

lemma lprocs_ok_sound:
  assumes "lprocs_ok P" and "ltable_fit P" and "layout_ok M" and "lplook P f = Some d"
    and "lsat (frame_env M fr) (lpre d)" and "lrun P M fr (lbody d) out"
  shows "out = LAborted \<or> (\<exists>fr1. out = LReturned fr1 \<and> lsat (frame_env M fr1) (lpost d))"
proof -
  have "lpost_ok M (None, lpost d) (None, None) out"
    by (rule lrun_sound [OF assms(6,1-3) lprocs_ok_body [OF assms(1,4)] ltable_fit_body [OF assms(2,4)] assms(5)])
  then show ?thesis
    by (cases out) (auto simp: lpost_ok_def)
qed

end
