(* ===== verification/Bounds_Cert.thy ===== *)
theory Bounds_Cert
  imports Bounds_List Procs_Sound Lin_Format Lin_Sound
begin

text \<open>
  The bounds certificate as a whole, \<open>check_bounds_cert\<close> of \<open>crates/almide-verify/src/bounds.rs\<close>:
  stretches separated by \<open>;\<close>, each in one of four languages, the procedures of the last two
  collected in a table each. Soundness brings the four languages together.
\<close>

datatype stretch =
    ListStretch "bitem list"
  | Routine "ritem list"
  | Proc dnat pproc
  | LinProc dnat lproc

definition parse_routine :: "bytes \<Rightarrow> nat \<Rightarrow> (ritem list \<times> nat) option" where
  "parse_routine s i = rprog_at s i []"

definition parse_stretch :: "bytes \<Rightarrow> nat \<Rightarrow> (stretch \<times> nat) option" where
  "parse_stretch s i =
     (let k = skip_blank s i; q = stretch_start s i
      in if sget s q = Some (CHR ''Q'') then
           map_option (\<lambda>((f, d), j). (LinProc f d, j)) (parse_lproc s (q + 1))
         else if sget s k = Some (CHR ''R'') then
           map_option (\<lambda>(p, j). (Routine p, j)) (parse_routine s (k + 1))
         else if sget s k = Some (CHR ''P'') then
           map_option (\<lambda>((f, d), j). (Proc f d, j)) (parse_proc s (k + 1))
         else map_option (\<lambda>(p, j). (ListStretch p, j)) (prog_at s i []))"

lemma parse_stretch_ge: "parse_stretch s i = Some (p, j) \<Longrightarrow> i \<le> j"
  using skip_blank_ge [of i s] sk_ge [of i s]
  by (auto simp: parse_stretch_def Let_def parse_routine_def stretch_start_def split: if_splits
      dest!: parse_lproc_progress rprog_at_ge parse_proc_spec prog_at_ge)

function parse_stretches :: "bytes \<Rightarrow> nat \<Rightarrow> stretch list \<Rightarrow> stretch list option" where
  "parse_stretches s i out =
     (case parse_stretch s i of
        None \<Rightarrow> None
      | Some (p, j) \<Rightarrow>
          (case sget s j of
             None \<Rightarrow> Some (out @ [p])
           | Some c \<Rightarrow> if c = CHR '';'' then parse_stretches s (j + 1) (out @ [p]) else None))"
  by pat_completeness auto
termination
  by (relation "measure (\<lambda>(s, i, out). length s - i)") (auto simp: sget_Some dest!: parse_stretch_ge)

declare parse_stretches.simps [simp del]

fun stretch_ok :: "stretch \<Rightarrow> bool" where
  "stretch_ok (ListStretch p) \<longleftrightarrow> bcheck {} p \<noteq> None"
| "stretch_ok (Routine p) \<longleftrightarrow> raccepts p"
| "stretch_ok (Proc f d) \<longleftrightarrow> True"
| "stretch_ok (LinProc f d) \<longleftrightarrow> True"

definition proc_table :: "stretch list \<Rightarrow> ptable" where
  "proc_table ps = concat (map (\<lambda>p. case p of Proc f d \<Rightarrow> [(f, d)] | _ \<Rightarrow> []) ps)"

definition lin_table :: "stretch list \<Rightarrow> ltable" where
  "lin_table ps = concat (map (\<lambda>p. case p of LinProc f d \<Rightarrow> [(f, d)] | _ \<Rightarrow> []) ps)"

definition check_bounds_cert :: "bytes \<Rightarrow> bool" where
  "check_bounds_cert w =
     (case parse_stretches w 0 [] of
        None \<Rightarrow> False
      | Some ps \<Rightarrow> list_all stretch_ok ps \<and> procs_ok (proc_table ps) \<and> lprocs_ok (lin_table ps))"

subsection \<open>Soundness\<close>

text \<open>The parser builds well-formed programs.\<close>

fun stretch_wf :: "stretch \<Rightarrow> bool" where
  "stretch_wf (Routine p) \<longleftrightarrow> ritems_wf p"
| "stretch_wf (Proc f d) \<longleftrightarrow> proc_wf d"
| "stretch_wf _ \<longleftrightarrow> True"

lemma parse_stretch_wf: "parse_stretch s i = Some (p, j) \<Longrightarrow> stretch_wf p"
  by (auto simp: parse_stretch_def Let_def parse_routine_def split: if_splits
      dest!: parse_proc_spec dest: rprog_at_wf)

lemma parse_stretches_wf:
  "parse_stretches s i out = Some ps \<Longrightarrow> list_all stretch_wf out \<Longrightarrow> list_all stretch_wf ps"
proof (induction s i out rule: parse_stretches.induct)
  case (1 s i out)
  obtain p j where p: "parse_stretch s i = Some (p, j)"
    using "1.prems"(1) by (subst (asm) parse_stretches.simps) (auto split: option.splits)
  have w: "list_all stretch_wf (out @ [p])"
    using "1.prems"(2) parse_stretch_wf [OF p] by simp
  show ?case
  proof (cases "sget s j")
    case None
    then show ?thesis
      using "1.prems"(1) p w by (subst (asm) parse_stretches.simps) simp
  next
    case (Some c)
    then have "c = CHR '';''" "parse_stretches s (j + 1) (out @ [p]) = Some ps"
      using "1.prems"(1) p by (subst (asm) parse_stretches.simps, simp split: if_splits)+
    then show ?thesis
      using "1.IH" [OF p refl Some] w by blast
  qed
qed

lemma proc_table_mem: "(f, d) \<in> set (proc_table ps) \<longleftrightarrow> Proc f d \<in> set ps"
  by (auto simp: proc_table_def split: stretch.splits intro!: bexI [of _ "Proc f d"])

lemma lin_table_mem: "(f, d) \<in> set (lin_table ps) \<longleftrightarrow> LinProc f d \<in> set ps"
  by (auto simp: lin_table_def split: stretch.splits intro!: bexI [of _ "LinProc f d"])

text \<open>Procedures whose groups are flat and whose calls bind each parameter once.\<close>

fun stretch_plain :: "stretch \<Rightarrow> bool" where
  "stretch_plain (Proc f d) \<longleftrightarrow> proc_plain d"
| "stretch_plain (LinProc f d) \<longleftrightarrow> calls_once (lbody d)"
| "stretch_plain _ \<longleftrightarrow> True"

text \<open>No run of the stretch, from a state its precondition allows, is out of bounds.\<close>

fun stretch_safe :: "stretch list \<Rightarrow> stretch \<Rightarrow> bool" where
  "stretch_safe ps (ListStretch p) \<longleftrightarrow> (\<forall>bl e. (\<forall>x. eblock_wf (bl x)) \<longrightarrow> \<not> brun bl e p Fault)"
| "stretch_safe ps (Routine p) \<longleftrightarrow> (\<forall>cp e. caps_wf cp \<longrightarrow> \<not> rrun cp e p Fault)"
| "stretch_safe ps (Proc f d) \<longleftrightarrow>
     (\<forall>cp bm e. caps_small cp \<longrightarrow> resp (groups d) bm \<longrightarrow> pholds cp bm (pre_state d) e \<longrightarrow>
       \<not> prun (proc_table ps) cp bm e (pbody d) Fault)"
| "stretch_safe ps (LinProc f d) \<longleftrightarrow>
     (\<forall>m fr. layout_ok m \<longrightarrow> lsat (frame_env m fr) (lpre d) \<longrightarrow>
       \<not> lrun (lin_table ps) m fr (lbody d) LFault)"

lemma stretch_accepted_safe:
  assumes "list_all stretch_ok ps" and "procs_ok (proc_table ps)" and "lprocs_ok (lin_table ps)"
    and "list_all stretch_wf ps" and "list_all stretch_plain ps" and "p \<in> set ps"
  shows "stretch_safe ps p"
proof (cases p)
  case (ListStretch its)
  then show ?thesis
    using assms(1,6) bcheck_sound by (force simp: list_all_iff)
next
  case (Routine its)
  then show ?thesis
    using assms(1,4,6) raccepts_sound by (force simp: list_all_iff)
next
  case (Proc f d)
  have "table_fit (proc_table ps)"
    using assms(4,5) by (fastforce simp: table_fit_def proc_table_mem list_all_iff)
  then show ?thesis
    using procs_ok_sound [OF assms(2)] assms(6) proc_table_mem Proc by simp
next
  case (LinProc f d)
  have fit: "ltable_fit (lin_table ps)"
    using assms(5) by (fastforce simp: ltable_fit_def lin_table_mem list_all_iff)
  have "distinct (map fst (lin_table ps))"
    using assms(3) by (simp add: lprocs_ok_def)
  then have "lplook (lin_table ps) f = Some d"
    using assms(6) LinProc by (simp add: lplook_def lin_table_mem)
  then have "\<not> lrun (lin_table ps) m fr (lbody d) LFault"
    if "layout_ok m" "lsat (frame_env m fr) (lpre d)" for m fr
    using lprocs_ok_sound [OF assms(3) fit that(1) _ that(2), of f LFault] by blast
  then show ?thesis
    using LinProc by simp
qed

lemma bounds_cert_sound:
  assumes "check_bounds_cert w" and "parse_stretches w 0 [] = Some ps" and "list_all stretch_plain ps"
  shows "list_all (stretch_safe ps) ps"
  using assms stretch_accepted_safe parse_stretches_wf [OF assms(2)]
  by (simp add: check_bounds_cert_def list_all_iff)

end
