(* ===== verification/Verify.thy ===== *)
theory Verify
  imports Modes Reach Init_Cert Fields_Cert Ownership_Runs Native_Calls Bounds_Cert
begin

text \<open>
  The verifier's dispatch, \<open>crates/almide-verify/src/lib.rs\<close>: the ten properties, their names, and
  the checker that decides each one's witness.
\<close>

datatype property =
    POwnership | PNames | PCaps | PCapsTransitive | PCallModes | PBounds | PInit | PFields | PRcSig | PNativeCalls

definition all_properties :: "property list" where
  "all_properties =
     [POwnership, PNames, PCaps, PCapsTransitive, PCallModes, PBounds, PInit, PFields, PRcSig, PNativeCalls]"

fun property_name :: "property \<Rightarrow> bytes" where
  "property_name POwnership = ''ownership''"
| "property_name PNames = ''names''"
| "property_name PCaps = ''caps''"
| "property_name PCapsTransitive = ''caps-transitive''"
| "property_name PCallModes = ''call-modes''"
| "property_name PBounds = ''bounds''"
| "property_name PInit = ''init''"
| "property_name PFields = ''fields''"
| "property_name PRcSig = ''rc-sig''"
| "property_name PNativeCalls = ''native-calls''"

definition property_from_name :: "bytes \<Rightarrow> property option" where
  "property_from_name name = find (\<lambda>p. property_name p = name) all_properties"

text \<open>Decide one witness.\<close>

fun check :: "property \<Rightarrow> bytes \<Rightarrow> bool" where
  "check POwnership w = check_xc w"
| "check PNames w = subset_cert w"
| "check PCaps w = subset_cert w"
| "check PCapsTransitive w = check_prog_cert w"
| "check PCallModes w = check_modes_cert w"
| "check PBounds w = check_bounds_cert w"
| "check PInit w = check_init_cert w"
| "check PFields w = check_fields_cert w"
| "check PRcSig w = check_sig_cert w"
| "check PNativeCalls w = check_native_calls_cert w"

lemma all_properties_UNIV: "set all_properties = UNIV"
proof -
  have "p \<in> set all_properties" for p
    by (cases p) (simp_all add: all_properties_def)
  then show ?thesis by blast
qed

lemma property_name_inj: "property_name p = property_name q \<Longrightarrow> p = q"
  by (cases p; cases q) simp_all

lemma from_name_of_name: "property_from_name (property_name p) = Some p"
  by (cases p) (simp_all add: property_from_name_def all_properties_def)

lemma from_name_iff: "property_from_name name = Some p \<longleftrightarrow> property_name p = name"
proof
  assume "property_from_name name = Some p"
  then show "property_name p = name"
    by (auto simp: property_from_name_def find_Some_iff)
next
  assume "property_name p = name"
  then show "property_from_name name = Some p"
    using from_name_of_name by blast
qed

text \<open>Each property has a witness it accepts and one it refuses.\<close>

end
