(* ===== verification/Sha256.thy ===== *)
theory Sha256
  imports Prelude "HOL-Library.Word"
begin

unbundle bit_operations_syntax

text \<open>
  The SHA-256 of \<open>crates/almide-verify/src/sha256.rs\<close>: the schedule filled in an array of 64 words,
  64 rounds over eight registers, and the last one or two blocks assembled in a 128-byte buffer.
  It computes FIPS 180-4's function: the message padded as a whole, cut into blocks, each with the
  schedule given by its recurrence (\<open>digest_fips\<close>).
\<close>

subsection \<open>The code\<close>

type_synonym u32 = "32 word"

definition sha_k :: "u32 list" where
  "sha_k = concat [
     [0x428a2f98, 0x71374491, 0xb5c0fbcf, 0xe9b5dba5, 0x3956c25b, 0x59f111f1, 0x923f82a4, 0xab1c5ed5],
     [0xd807aa98, 0x12835b01, 0x243185be, 0x550c7dc3, 0x72be5d74, 0x80deb1fe, 0x9bdc06a7, 0xc19bf174],
     [0xe49b69c1, 0xefbe4786, 0x0fc19dc6, 0x240ca1cc, 0x2de92c6f, 0x4a7484aa, 0x5cb0a9dc, 0x76f988da],
     [0x983e5152, 0xa831c66d, 0xb00327c8, 0xbf597fc7, 0xc6e00bf3, 0xd5a79147, 0x06ca6351, 0x14292967],
     [0x27b70a85, 0x2e1b2138, 0x4d2c6dfc, 0x53380d13, 0x650a7354, 0x766a0abb, 0x81c2c92e, 0x92722c85],
     [0xa2bfe8a1, 0xa81a664b, 0xc24b8b70, 0xc76c51a3, 0xd192e819, 0xd6990624, 0xf40e3585, 0x106aa070],
     [0x19a4c116, 0x1e376c08, 0x2748774c, 0x34b0bcb5, 0x391c0cb3, 0x4ed8aa4a, 0x5b9cca4f, 0x682e6ff3],
     [0x748f82ee, 0x78a5636f, 0x84c87814, 0x8cc70208, 0x90befffa, 0xa4506ceb, 0xbef9a3f7, 0xc67178f2]]"

definition sha_h0 :: "u32 list" where
  "sha_h0 = [
     0x6a09e667, 0xbb67ae85, 0x3c6ef372, 0xa54ff53a, 0x510e527f, 0x9b05688c, 0x1f83d9ab, 0x5be0cd19]"

text \<open>\<open>chunks_exact(n)\<close>, and its remainder.\<close>

fun chunks_exact :: "nat \<Rightarrow> 'a list \<Rightarrow> 'a list list" where
  "chunks_exact n xs = (if n = 0 \<or> length xs < n then [] else take n xs # chunks_exact n (drop n xs))"

declare chunks_exact.simps [simp del]

definition remainder :: "nat \<Rightarrow> 'a list \<Rightarrow> 'a list" where
  "remainder n xs = drop (n * (length xs div n)) xs"

definition be_u32 :: "bytes \<Rightarrow> u32" where
  "be_u32 b = foldl (\<lambda>v c. v * 256 + of_char c) 0 b"

definition be_bytes :: "nat \<Rightarrow> 'a :: len word \<Rightarrow> bytes" where
  "be_bytes n w = map (\<lambda>i. char_of (uint (drop_bit (8 * (n - 1 - i)) w))) [0..<n]"

definition sched_step :: "u32 list \<Rightarrow> nat \<Rightarrow> u32 list" where
  "sched_step w i =
     (let s0 = (word_rotr 7 (w ! (i - 15)) XOR word_rotr 18 (w ! (i - 15))) XOR drop_bit 3 (w ! (i - 15));
          s1 = (word_rotr 17 (w ! (i - 2)) XOR word_rotr 19 (w ! (i - 2))) XOR drop_bit 10 (w ! (i - 2))
      in w[i := w ! (i - 16) + s0 + w ! (i - 7) + s1])"

definition load_words :: "bytes \<Rightarrow> u32 list" where
  "load_words blk =
     foldl (\<lambda>w (i, word). w[i := be_u32 word]) (replicate 64 0) (List.enumerate 0 (chunks_exact 4 blk))"

datatype regs = Regs u32 u32 u32 u32 u32 u32 u32 u32

fun sha_round :: "u32 list \<Rightarrow> regs \<Rightarrow> nat \<Rightarrow> regs" where
  "sha_round w (Regs a b c d e f g hh) i =
     (let s1 = (word_rotr 6 e XOR word_rotr 11 e) XOR word_rotr 25 e;
          ch = (e AND f) XOR (NOT e AND g);
          t1 = hh + s1 + ch + sha_k ! i + w ! i;
          s0 = (word_rotr 2 a XOR word_rotr 13 a) XOR word_rotr 22 a;
          maj = ((a AND b) XOR (a AND c)) XOR (b AND c);
          t2 = s0 + maj
      in Regs (t1 + t2) a b c (d + t1) e f g)"

fun reg_list :: "regs \<Rightarrow> u32 list" where
  "reg_list (Regs a b c d e f g hh) = [a, b, c, d, e, f, g, hh]"

definition regs_of :: "u32 list \<Rightarrow> regs" where
  "regs_of h = Regs (h ! 0) (h ! 1) (h ! 2) (h ! 3) (h ! 4) (h ! 5) (h ! 6) (h ! 7)"

definition compress :: "u32 list \<Rightarrow> bytes \<Rightarrow> u32 list" where
  "compress h blk =
     (let w = foldl sched_step (load_words blk) [16..<64];
          r = foldl (sha_round w) (regs_of h) [0..<64]
      in map2 (+) h (reg_list r))"

text \<open>The 128-byte tail: the rest, \<open>0x80\<close>, zeros, and the bit length in its last eight bytes.\<close>

definition sha_tail :: "bytes \<Rightarrow> bytes" where
  "sha_tail data =
     (let rest = remainder 64 data;
          t0 = put (replicate 128 (CHR 0x00)) 0 rest;
          t1 = t0[length rest := CHR 0x80];
          n = (if length rest < 56 then 64 else 128)
      in take n (put t1 (n - 8) (be_bytes 8 (of_nat (length data) * 8 :: 64 word))))"

definition digest :: "bytes \<Rightarrow> bytes" where
  "digest data =
     (let h = foldl compress sha_h0 (chunks_exact 64 data);
          h = foldl compress h (chunks_exact 64 (sha_tail data))
      in concat (map (be_bytes 4) h))"

definition hex_digit :: "nat \<Rightarrow> byte" where
  "hex_digit n = ''0123456789abcdef'' ! n"

definition hex :: "bytes \<Rightarrow> bytes" where
  "hex data = concat (map (\<lambda>b. [hex_digit (byte_val b div 16), hex_digit (byte_val b mod 16)]) (digest data))"

subsection \<open>FIPS 180-4\<close>

definition ssig0 :: "u32 \<Rightarrow> u32" where
  "ssig0 x = (word_rotr 7 x XOR word_rotr 18 x) XOR drop_bit 3 x"

definition ssig1 :: "u32 \<Rightarrow> u32" where
  "ssig1 x = (word_rotr 17 x XOR word_rotr 19 x) XOR drop_bit 10 x"

text \<open>The message schedule of a block of 16 words, by its recurrence.\<close>

fun fips_w :: "u32 list \<Rightarrow> nat \<Rightarrow> u32" where
  "fips_w m t =
     (if t < 16 then m ! t
      else ssig1 (fips_w m (t - 2)) + fips_w m (t - 7) + ssig0 (fips_w m (t - 15)) + fips_w m (t - 16))"

declare fips_w.simps [simp del]

definition fips_block :: "u32 list \<Rightarrow> u32 list \<Rightarrow> u32 list" where
  "fips_block h m = map2 (+) h (reg_list (foldl (sha_round (map (fips_w m) [0..<64])) (regs_of h) [0..<64]))"

text \<open>The padded message: a one bit, the fewest zero bits, the length in bits.\<close>

definition fips_pad :: "bytes \<Rightarrow> bytes" where
  "fips_pad data =
     data @ [CHR 0x80] @ replicate ((119 - length data mod 64) mod 64) (CHR 0x00) @
     be_bytes 8 (of_nat (8 * length data) :: 64 word)"

definition fips_digest :: "bytes \<Rightarrow> bytes" where
  "fips_digest data =
     concat (map (be_bytes 4)
       (foldl (\<lambda>h blk. fips_block h (map be_u32 (chunks_exact 4 blk))) sha_h0 (chunks_exact 64 (fips_pad data))))"

subsection \<open>Blocks\<close>

lemma chunks_exact_length: "c \<in> set (chunks_exact n xs) \<Longrightarrow> length c = n"
  by (induction n xs rule: chunks_exact.induct) (subst (asm) (2) chunks_exact.simps, auto split: if_splits)

lemma chunks_exact_count: "0 < n \<Longrightarrow> length (chunks_exact n xs) = length xs div n"
proof (induction n xs rule: chunks_exact.induct)
  case (1 n xs)
  show ?case
  proof (cases "length xs < n")
    case False
    then have "length xs div n = Suc ((length xs - n) div n)"
      using 1(2) by (simp add: le_div_geq)
    then show ?thesis
      using 1 False by (subst chunks_exact.simps) simp
  qed (subst chunks_exact.simps, simp)
qed

lemma remainder_short: "length xs < n \<Longrightarrow> remainder n xs = xs"
  by (simp add: remainder_def)

lemma remainder_long:
  assumes "0 < n" and "n \<le> length xs"
  shows "remainder n xs = remainder n (drop n xs)"
proof -
  have "length xs div n = Suc ((length xs - n) div n)"
    using assms by (simp add: le_div_geq)
  then show ?thesis
    by (simp add: remainder_def add.commute)
qed

lemma chunks_exact_append:
  "0 < n \<Longrightarrow> chunks_exact n (xs @ ys) = chunks_exact n xs @ chunks_exact n (remainder n xs @ ys)"
proof (induction n xs rule: chunks_exact.induct)
  case (1 n xs)
  show ?case
  proof (cases "length xs < n")
    case True
    then have "chunks_exact n xs = []"
      by (subst chunks_exact.simps) simp
    then show ?thesis
      using True by (simp add: remainder_short)
  next
    case False
    then have "chunks_exact n (xs @ ys) = take n xs # chunks_exact n (drop n xs @ ys)"
      using 1(2) by (subst chunks_exact.simps) simp
    moreover have "chunks_exact n xs = take n xs # chunks_exact n (drop n xs)"
      using 1(2) False by (subst chunks_exact.simps) simp
    ultimately show ?thesis
      using 1 False remainder_long [of n xs] by simp
  qed
qed

lemma remainder_len: "length (remainder n xs) = length xs mod n"
  by (simp add: remainder_def minus_mult_div_eq_mod)

lemma length_be_bytes [simp]: "length (be_bytes n w) = n"
  by (simp add: be_bytes_def)

lemma take_put: "i \<le> length xs \<Longrightarrow> length ys = k \<Longrightarrow> take (i + k) (put xs i ys) = take i xs @ ys"
  by (simp add: put_def)

lemma sha_tail_eq:
  "sha_tail data = remainder 64 data @ [CHR 0x80] @
    replicate ((119 - length data mod 64) mod 64) (CHR 0x00) @ be_bytes 8 (of_nat (8 * length data) :: 64 word)"
proof -
  define rest where "rest = remainder 64 data"
  define n where "n = (if length rest < 56 then 64 else 128 :: nat)"
  let ?t1 = "(put (replicate 128 (CHR 0x00)) 0 rest)[length rest := CHR 0x80]"
  have r: "length rest = length data mod 64" "length rest < 64"
    by (simp_all add: rest_def remainder_len)
  have t1: "?t1 = rest @ CHR 0x80 # replicate (127 - length rest) (CHR 0x00)"
  proof -
    have "replicate (128 - length rest) (CHR 0x00) = CHR 0x00 # replicate (127 - length rest) (CHR 0x00)"
    proof -
      have "128 - length rest = Suc (127 - length rest)"
        using r(2) by linarith
      then show ?thesis by (simp only: replicate_Suc)
    qed
    then show ?thesis
      by (simp add: put_def list_update_append)
  qed
  have z: "n - 8 = length rest + Suc (n - 9 - length rest)" "n - 9 - length rest \<le> 127 - length rest"
    using r(2) by (auto simp: n_def)
  have tk: "take (n - 8) (rest @ CHR 0x80 # replicate (127 - length rest) (CHR 0x00)) =
      rest @ CHR 0x80 # replicate (n - 9 - length rest) (CHR 0x00)"
    unfolding z(1) using z(2) by (simp add: take_replicate min_def)
  have zeros: "n - 9 - length rest = (119 - length data mod 64) mod 64"
  proof (cases "length rest < 56")
    case True
    then have "119 - length rest = 55 - length rest + 64" by linarith
    then have "(119 - length rest) mod 64 = 55 - length rest"
      by (simp only: mod_add_self2) simp
    then show ?thesis
      using True by (simp only: n_def r(1) [symmetric]) simp
  next
    case False
    then show ?thesis
      using r(2) by (simp only: n_def r(1) [symmetric]) simp
  qed
  let ?len = "be_bytes 8 (of_nat (length data) * 8 :: 64 word)"
  have n: "n = n - 8 + 8" "n - 8 \<le> length ?t1"
    using r(2) unfolding t1 by (auto simp: n_def)
  have "sha_tail data = take (n - 8 + 8) (put ?t1 (n - 8) ?len)"
    unfolding n(1) [symmetric] by (simp only: sha_tail_def Let_def rest_def [symmetric] n_def [symmetric])
  also have "\<dots> = take (n - 8) ?t1 @ ?len"
    by (rule take_put [OF n(2)]) simp
  also have "take (n - 8) ?t1 = rest @ CHR 0x80 # replicate ((119 - length data mod 64) mod 64) (CHR 0x00)"
    unfolding t1 tk zeros ..
  finally show ?thesis
    by (simp add: rest_def mult.commute)
qed

lemma pad_chunks: "chunks_exact 64 (fips_pad data) = chunks_exact 64 data @ chunks_exact 64 (sha_tail data)"
  unfolding fips_pad_def sha_tail_eq by (rule chunks_exact_append) simp

subsection \<open>The schedule\<close>

lemma foldl_update:
  "k + length xs \<le> length ws \<Longrightarrow>
    foldl (\<lambda>w (i, x). w[i := f x]) ws (List.enumerate k xs) = take k ws @ map f xs @ drop (k + length xs) ws"
proof (induction xs arbitrary: k ws)
  case (Cons x xs)
  have "foldl (\<lambda>w (i, x). w[i := f x]) (ws[k := f x]) (List.enumerate (Suc k) xs) =
      take (Suc k) (ws[k := f x]) @ map f xs @ drop (Suc k + length xs) (ws[k := f x])"
    using Cons.prems by (intro Cons.IH) simp
  also have "take (Suc k) (ws[k := f x]) = take k ws @ [f x]"
    using Cons.prems by (simp add: take_Suc_conv_app_nth)
  finally show ?case
    by simp
qed simp

lemma load_words_eq:
  assumes "length blk = 64"
  shows "load_words blk = map be_u32 (chunks_exact 4 blk) @ replicate 48 0"
proof -
  have "length (chunks_exact 4 blk) = 16"
    using assms by (simp add: chunks_exact_count)
  then show ?thesis
    unfolding load_words_def by (subst foldl_update) simp_all
qed

lemma sched_prefix:
  assumes "length w = 64" and "\<And>t. t < 16 \<Longrightarrow> w ! t = m ! t" and "16 \<le> k" and "k \<le> 64"
  shows "length (foldl sched_step w [16..<k]) = 64 \<and> (\<forall>t < k. foldl sched_step w [16..<k] ! t = fips_w m t)"
  using assms(3,4)
proof (induction k rule: nat_induct_at_least)
  case base
  then show ?case
    using assms(1,2) by (simp add: fips_w.simps)
next
  case (Suc k)
  let ?v = "foldl sched_step w [16..<k]"
  have v: "length ?v = 64" "\<And>t. t < k \<Longrightarrow> ?v ! t = fips_w m t"
    using Suc by simp_all
  have "fips_w m k = ssig1 (fips_w m (k - 2)) + fips_w m (k - 7) + ssig0 (fips_w m (k - 15)) + fips_w m (k - 16)"
    using Suc(1) by (subst fips_w.simps) simp
  then have "sched_step ?v k = ?v[k := fips_w m k]"
    using Suc(1) v(2) by (simp add: sched_step_def ssig0_def ssig1_def add_ac)
  then show ?case
    using Suc v by (auto simp: nth_list_update less_Suc_eq)
qed

lemma schedule_eq:
  assumes "length blk = 64"
  shows "foldl sched_step (load_words blk) [16..<64] = map (fips_w (map be_u32 (chunks_exact 4 blk))) [0..<64]"
proof (rule nth_equalityI)
  let ?m = "map be_u32 (chunks_exact 4 blk)" and ?v = "foldl sched_step (load_words blk) [16..<64]"
  have "length ?m = 16"
    using assms by (simp add: chunks_exact_count)
  then have p: "length ?v = 64 \<and> (\<forall>t < 64. ?v ! t = fips_w ?m t)"
    using load_words_eq [OF assms] by (intro sched_prefix) (simp_all add: nth_append)
  then show "length ?v = length (map (fips_w ?m) [0..<64])"
    by (simp del: upt_conv_Cons upt_rec_numeral)
  fix t assume "t < length ?v"
  then have "t < 64" using p by simp
  then show "?v ! t = map (fips_w ?m) [0..<64] ! t"
    using p by (simp del: upt_conv_Cons upt_rec_numeral)
qed

lemma compress_fips:
  "length blk = 64 \<Longrightarrow> compress h blk = fips_block h (map be_u32 (chunks_exact 4 blk))"
  by (simp only: compress_def fips_block_def schedule_eq Let_def)

lemma digest_fips: "digest data = fips_digest data"
proof -
  have "foldl compress h bs = foldl (\<lambda>h blk. fips_block h (map be_u32 (chunks_exact 4 blk))) h bs"
    if "\<forall>b \<in> set bs. length b = 64" for h bs
    using that by (intro foldl_cong) (simp_all add: compress_fips)
  moreover have "\<forall>b \<in> set (chunks_exact 64 (fips_pad data)). length b = 64"
    using chunks_exact_length by blast
  ultimately show ?thesis
    by (simp add: digest_def fips_digest_def pad_chunks)
qed

subsection \<open>The digest as text\<close>

definition lower_hex :: "byte \<Rightarrow> bool" where
  "lower_hex b \<longleftrightarrow> is_digit b \<or> CHR ''a'' \<le> b \<and> b \<le> CHR ''f''"

lemma hex_digit_lower: "n < 16 \<Longrightarrow> lower_hex (hex_digit n)"
proof -
  assume "n < 16"
  then have "n \<in> set [0..<16]" by simp
  moreover have "list_all (\<lambda>n. lower_hex (hex_digit n)) [0..<16]"
    by code_simp
  ultimately show ?thesis
    unfolding list_all_iff by blast
qed

lemma length_reg_list [simp]: "length (reg_list r) = 8"
  by (cases r) simp

lemma length_compress: "length h = 8 \<Longrightarrow> length (compress h blk) = 8"
  by (simp add: compress_def Let_def)

lemma length_compress_all: "length h = 8 \<Longrightarrow> length (foldl compress h bs) = 8"
  by (induction bs arbitrary: h) (simp_all add: length_compress)

lemma length_digest: "length (digest data) = 32"
proof -
  have "length sha_h0 = 8"
    by (simp add: sha_h0_def)
  then have "length (foldl compress (foldl compress sha_h0 a) b) = 8" for a b
    by (simp add: length_compress_all)
  moreover have "length (concat (map (be_bytes 4) ws)) = 4 * length ws" for ws :: "u32 list"
    by (induction ws) simp_all
  ultimately show ?thesis
    by (simp add: digest_def Let_def)
qed

lemma hex_shape: "length (hex data) = 64 \<and> list_all lower_hex (hex data)"
proof -
  have "length (concat (map (\<lambda>b. [f b, g b]) bs)) = 2 * length bs" for f g :: "byte \<Rightarrow> byte" and bs
    by (induction bs) simp_all
  moreover have "lower_hex (hex_digit (byte_val b div 16))" "lower_hex (hex_digit (byte_val b mod 16))" for b :: byte
  proof -
    have "byte_val b div 16 < 16"
      using nat_of_char_less_256 [of b] by linarith
    then show "lower_hex (hex_digit (byte_val b div 16))" "lower_hex (hex_digit (byte_val b mod 16))"
      by (simp_all add: hex_digit_lower)
  qed
  ultimately show ?thesis
    by (auto simp: hex_def length_digest list_all_iff)
qed

end
