(* ===== verification/Std_Text.thy ===== *)
theory Std_Text
  imports Nat_Digits
begin

text \<open>
  What the programs use of the standard library's text functions, on byte strings: the UTF-8 test,
  splitting at spaces, and the decimal parser of unsigned 64-bit numbers.
\<close>

text \<open>\<open>str::from_utf8\<close>: the well-formed byte sequences of the Unicode standard, table 3-7.\<close>

definition in_range :: "nat \<Rightarrow> nat \<Rightarrow> byte \<Rightarrow> bool" where
  "in_range lo hi b \<longleftrightarrow> lo \<le> byte_val b \<and> byte_val b \<le> hi"

definition is_cont :: "byte \<Rightarrow> bool" where
  "is_cont b = in_range 128 191 b"

definition utf8_need :: "byte \<Rightarrow> nat" where
  "utf8_need a =
     (if byte_val a < 128 then 1
      else if in_range 194 223 a then 2
      else if in_range 224 239 a then 3
      else if in_range 240 244 a then 4
      else 0)"

definition second_ok :: "byte \<Rightarrow> byte \<Rightarrow> bool" where
  "second_ok a b =
     (if byte_val a = 224 then in_range 160 191 b
      else if byte_val a = 237 then in_range 128 159 b
      else if byte_val a = 240 then in_range 144 191 b
      else if byte_val a = 244 then in_range 128 143 b
      else is_cont b)"

text \<open>The length of the character a sequence starts with, 0 when it starts with none.\<close>

definition utf8_char :: "bytes \<Rightarrow> nat" where
  "utf8_char s = (case s of
     [] \<Rightarrow> 0
   | a # r \<Rightarrow>
       (let n = utf8_need a
        in if n \<le> length s \<and> (n = 1 \<or> second_ok a (r ! 0)) \<and> list_all is_cont (take (n - 2) (drop 1 r))
           then n else 0))"

function utf8_ok :: "bytes \<Rightarrow> bool" where
  "utf8_ok s =
     (if s = [] then True
      else if utf8_char s = 0 then False
      else utf8_ok (drop (utf8_char s) s))"
  by pat_completeness auto
termination
  by (relation "measure length") auto

declare utf8_ok.simps [simp del]

definition space_byte :: byte where
  "space_byte = CHR '' ''"

text \<open>\<open>str::split_once(' ')\<close>, and \<open>splitn(3, ' ')\<close> with missing parts empty.\<close>

definition split_once :: "bytes \<Rightarrow> (bytes \<times> bytes) option" where
  "split_once s =
     (let k = takeWhile (\<lambda>b. b \<noteq> space_byte) s
      in if length k < length s then Some (k, drop (length k + 1) s) else None)"

definition split_once_or :: "bytes \<Rightarrow> bytes \<times> bytes" where
  "split_once_or s = (case split_once s of Some p \<Rightarrow> p | None \<Rightarrow> (s, []))"

definition splitn3 :: "bytes \<Rightarrow> bytes \<times> bytes \<times> bytes" where
  "splitn3 s = (let (a, r) = split_once_or s; (b, c) = split_once_or r in (a, b, c))"

text \<open>\<open>str::parse::<usize>\<close>: an optional plus sign, then digits, below \<open>2 ^ 64\<close>.\<close>

definition parse_usize :: "bytes \<Rightarrow> nat option" where
  "parse_usize s =
     (let ds = (case s of c # r \<Rightarrow> if c = CHR ''+'' then r else s | [] \<Rightarrow> s)
      in if ds \<noteq> [] \<and> list_all is_digit ds \<and> dec_val ds < 2 ^ 64 then Some (dec_val ds) else None)"

end
