(* ===== verification/Bundle.thy ===== *)
theory Bundle
  imports Verify Sha256 Std_Text
begin

text \<open>
  The certificate bundle, \<open>crates/almide-verify/src/bundle.rs\<close>: a line-oriented framing with
  length-prefixed witnesses, read by a cursor that counts lines, and the verdict of the whole. The
  error messages are kept as constructors. The round trip with the writer is in \<open>Bundle_Text\<close>.
\<close>

subsection \<open>Bundles\<close>

definition magic :: "nat \<Rightarrow> bytes" where
  "magic v = ''almide-certificate-bundle '' @ dec_string v"

definition metadata_keys :: "bytes list" where
  "metadata_keys = [''producer'', ''source'']"

record artifact =
  art_sha256 :: bytes
  art_path :: bytes

record witness =
  w_property :: property
  w_function :: bytes
  w_bytes :: bytes

record cert_bundle =
  metadata :: "(bytes \<times> bytes) list"
  witnesses :: "witness list"
  uncertified :: "(bytes \<times> bytes) list"
  b_artifact :: "artifact option"

definition empty_bundle :: cert_bundle where
  "empty_bundle = \<lparr>metadata = [], witnesses = [], uncertified = [], b_artifact = None\<rparr>"

datatype bmessage =
    NoFinalNewline
  | NotUtf8
  | EndsFirst nat
  | NoNewlineAfter nat
  | NotSha256 bytes
  | NotHex bytes
  | NoFile
  | UnknownProperty bytes
  | NotALength bytes
  | NoFunction
  | BadMagic bytes
  | EmptyBundle
  | ShareOutTooOld
  | RcSigTooOld
  | NativeCallsTooOld
  | NoUncertified
  | SecondArtifact
  | LateMetadata bytes
  | UnknownRecord bytes

datatype berror = BError nat bmessage

definition artifact_matches :: "artifact \<Rightarrow> bytes \<Rightarrow> bool" where
  "artifact_matches a bs \<longleftrightarrow> hex bs = art_sha256 a"

datatype verdict_outcome = Certified | Rejected | Incomplete

fun exit_code :: "verdict_outcome \<Rightarrow> nat" where
  "exit_code Certified = 0"
| "exit_code Rejected = 1"
| "exit_code Incomplete = 3"

fun outcome_label :: "verdict_outcome \<Rightarrow> bytes" where
  "outcome_label Certified = ''CERTIFIED''"
| "outcome_label Rejected = ''REJECTED''"
| "outcome_label Incomplete = ''INCOMPLETE''"

record verdict =
  v_property :: property
  v_function :: bytes
  accepted :: bool

definition verify_bundle :: "cert_bundle \<Rightarrow> verdict list \<times> verdict_outcome" where
  "verify_bundle b =
     (let vs = map (\<lambda>w. \<lparr>v_property = w_property w, v_function = w_function w,
                          accepted = check (w_property w) (w_bytes w)\<rparr>) (witnesses b);
          r = (if vs = [] \<or> list_ex (\<lambda>v. \<not> accepted v) vs then Rejected
               else if uncertified b \<noteq> [] then Incomplete
               else Certified)
      in (vs, r))"

subsection \<open>The reader\<close>

record reader =
  rbytes :: bytes
  pos :: nat
  line :: nat

definition err :: "reader \<Rightarrow> bmessage \<Rightarrow> berror" where
  "err r m = BError (line r) m"

definition next_line :: "reader \<Rightarrow> berror + (bytes option \<times> reader)" where
  "next_line r =
     (if length (rbytes r) \<le> pos r then Inr (None, r)
      else let r1 = r\<lparr>line := line r + 1\<rparr>;
               rest = drop (pos r) (rbytes r);
               k = run_len (\<lambda>b. b \<noteq> newline) (rbytes r) (pos r)
           in if k = length rest then Inl (err r1 NoFinalNewline)
              else let r2 = r1\<lparr>pos := pos r + k + 1\<rparr>
                   in if utf8_ok (take k rest) then Inr (Some (take k rest), r2) else Inl (err r2 NotUtf8))"

definition take_witness :: "reader \<Rightarrow> nat \<Rightarrow> berror + (bytes \<times> reader)" where
  "take_witness r len =
     (case (case checked_add_usize (pos r) len of
              None \<Rightarrow> None
            | Some e \<Rightarrow> if e < length (rbytes r) then Some e else None) of
        None \<Rightarrow> Inl (err r (EndsFirst len))
      | Some e \<Rightarrow>
          if rbytes r ! e \<noteq> newline then Inl (err r (NoNewlineAfter len))
          else let w = subslice (rbytes r) (pos r) e
               in Inr (w, r\<lparr>line := line r + length (filter (\<lambda>b. b = newline) w) + 1, pos := e + 1\<rparr>))"

definition artifact_record :: "reader \<Rightarrow> bytes \<Rightarrow> berror + artifact" where
  "artifact_record r rest =
     (let (algo, dig, path) = splitn3 rest
      in if algo \<noteq> ''sha256'' then Inl (err r (NotSha256 algo))
         else if length dig \<noteq> 64 \<or> \<not> list_all (\<lambda>b. is_digit b \<or> CHR ''a'' \<le> b \<and> b \<le> CHR ''f'') dig
              then Inl (err r (NotHex dig))
         else if path = [] then Inl (err r NoFile)
         else Inr \<lparr>art_sha256 = dig, art_path = path\<rparr>)"

definition witness_header :: "reader \<Rightarrow> bytes \<Rightarrow> berror + (property \<times> nat \<times> bytes)" where
  "witness_header r rest =
     (let (prop, len, fn) = splitn3 rest
      in case property_from_name prop of
           None \<Rightarrow> Inl (err r (UnknownProperty prop))
         | Some p \<Rightarrow>
             (case parse_usize len of
                None \<Rightarrow> Inl (err r (NotALength len))
              | Some n \<Rightarrow> if fn = [] then Inl (err r NoFunction) else Inr (p, n, fn)))"

text \<open>What a version refuses of a witness.\<close>

definition too_old :: "nat \<Rightarrow> property \<Rightarrow> bytes \<Rightarrow> bmessage option" where
  "too_old v p w =
     (if v < 3 \<and> p = POwnership \<and> list_ex (\<lambda>b. ascii_lower b = CHR ''s'') w then Some ShareOutTooOld
      else if v < 4 \<and> p = PRcSig then Some RcSigTooOld
      else if v < 5 \<and> p = PNativeCalls then Some NativeCallsTooOld
      else None)"

definition witness_record :: "nat \<Rightarrow> reader \<Rightarrow> bytes \<Rightarrow> cert_bundle \<Rightarrow> berror + (reader \<times> cert_bundle)" where
  "witness_record v r rest b =
     (case witness_header r rest of
        Inl e \<Rightarrow> Inl e
      | Inr (p, len, fn) \<Rightarrow>
          (case take_witness r len of
             Inl e \<Rightarrow> Inl e
           | Inr (w, r2) \<Rightarrow>
               (case too_old v p w of
                  Some m \<Rightarrow> Inl (err r2 m)
                | None \<Rightarrow>
                    Inr (r2, b\<lparr>witnesses := witnesses b @ [\<lparr>w_property = p, w_function = fn, w_bytes = w\<rparr>]\<rparr>))))"

definition parse_record :: "nat \<Rightarrow> reader \<Rightarrow> bytes \<Rightarrow> cert_bundle \<Rightarrow> berror + (reader \<times> cert_bundle)" where
  "parse_record v r ln b =
     (let (keyword, rest) = split_once_or ln
      in if keyword = ''witness'' then witness_record v r rest b
         else if keyword = ''uncertified'' then
           (let (fn, reason) = split_once_or rest
            in if fn = [] then Inl (err r NoUncertified)
               else Inr (r, b\<lparr>uncertified := uncertified b @ [(fn, reason)]\<rparr>))
         else if keyword = ''artifact'' \<and> 2 \<le> v then
           (if b_artifact b \<noteq> None then Inl (err r SecondArtifact)
            else case artifact_record r rest of
                   Inl e \<Rightarrow> Inl e
                 | Inr a \<Rightarrow> Inr (r, b\<lparr>b_artifact := Some a\<rparr>))
         else if keyword \<in> set metadata_keys then
           (if witnesses b \<noteq> [] \<or> uncertified b \<noteq> [] then Inl (err r (LateMetadata keyword))
            else Inr (r, b\<lparr>metadata := metadata b @ [(keyword, rest)]\<rparr>))
         else Inl (err r (UnknownRecord keyword)))"

lemma next_line_progress:
  "next_line r = Inr (Some ln, r2) \<Longrightarrow> rbytes r2 = rbytes r \<and> pos r < pos r2 \<and> pos r2 \<le> length (rbytes r)"
  using run_len_bound [of "pos r" "rbytes r" "\<lambda>b. b \<noteq> newline"]
  by (auto simp: next_line_def Let_def split: if_splits)

lemma take_witness_progress:
  "take_witness r len = Inr (w, r2) \<Longrightarrow> rbytes r2 = rbytes r \<and> pos r < pos r2"
  by (auto simp: take_witness_def Let_def checked_add_usize_def split: option.splits if_splits)

lemma parse_record_progress:
  assumes "parse_record v r ln b = Inr (r2, b2)"
  shows "rbytes r2 = rbytes r \<and> pos r \<le> pos r2"
proof -
  have "rbytes r2 = rbytes r \<and> pos r < pos r2" if "witness_record v r rest b = Inr (r2, b2)" for rest
    using that by (auto simp: witness_record_def dest!: take_witness_progress
        split: sum.splits option.splits)
  then show ?thesis
    using assms by (fastforce simp: parse_record_def Let_def split: if_splits prod.splits sum.splits)
qed

function parse_loop :: "nat \<Rightarrow> reader \<Rightarrow> cert_bundle \<Rightarrow> berror + cert_bundle" where
  "parse_loop v r b =
     (case next_line r of
        Inl e \<Rightarrow> Inl e
      | Inr (None, _) \<Rightarrow> Inr b
      | Inr (Some ln, r1) \<Rightarrow>
          (case parse_record v r1 ln b of
             Inl e \<Rightarrow> Inl e
           | Inr (r2, b2) \<Rightarrow> parse_loop v r2 b2))"
  by pat_completeness auto
termination
  by (relation "measure (\<lambda>(v, r, b). length (rbytes r) - pos r)")
    (fastforce dest!: next_line_progress parse_record_progress)+

declare parse_loop.simps [simp del]

definition version_of :: "bytes \<Rightarrow> nat option" where
  "version_of ln =
     (if ln = magic 1 then Some 1
      else if ln = magic 2 then Some 2
      else if ln = magic 3 then Some 3
      else if ln = magic 4 then Some 4
      else if ln = magic 5 then Some 5
      else None)"

definition parse_bundle :: "bytes \<Rightarrow> berror + cert_bundle" where
  "parse_bundle bs =
     (case next_line \<lparr>rbytes = bs, pos = 0, line = 0\<rparr> of
        Inl e \<Rightarrow> Inl e
      | Inr (None, r) \<Rightarrow> Inl (err r EmptyBundle)
      | Inr (Some ln, r) \<Rightarrow>
          (case version_of ln of
             None \<Rightarrow> Inl (err r (BadMagic ln))
           | Some v \<Rightarrow> parse_loop v r empty_bundle))"

end
