(* ===== verification/Bundle_Text.thy ===== *)
theory Bundle_Text
  imports Bundle
begin

text \<open>
  What a parsed bundle is (\<open>bundle_wf\<close>), the writer's text of a bundle, and the round trip: the
  reader of \<open>bundle.rs\<close> gives back exactly what was written, whatever bytes the witnesses hold.
\<close>

subsection \<open>A parsed bundle is well formed\<close>

definition witness_wf :: "nat \<Rightarrow> witness \<Rightarrow> bool" where
  "witness_wf v w \<longleftrightarrow> w_function w \<noteq> [] \<and> too_old v (w_property w) (w_bytes w) = None"

definition hex64 :: "bytes \<Rightarrow> bool" where
  "hex64 s \<longleftrightarrow> length s = 64 \<and> list_all lower_hex s"

definition artifact_wf :: "nat \<Rightarrow> artifact \<Rightarrow> bool" where
  "artifact_wf v a \<longleftrightarrow> 2 \<le> v \<and> hex64 (art_sha256 a) \<and> art_path a \<noteq> []"

definition bundle_wf :: "nat \<Rightarrow> cert_bundle \<Rightarrow> bool" where
  "bundle_wf v b \<longleftrightarrow>
     (\<forall>m \<in> set (metadata b). fst m \<in> set metadata_keys) \<and>
     (\<forall>w \<in> set (witnesses b). witness_wf v w) \<and>
     (\<forall>u \<in> set (uncertified b). fst u \<noteq> []) \<and>
     (\<forall>a. b_artifact b = Some a \<longrightarrow> artifact_wf v a)"

lemma witness_record_wf:
  assumes "witness_record v r rest b = Inr (r2, b2)" and "bundle_wf v b"
  shows "bundle_wf v b2"
proof -
  obtain p len fn w r1 where "witness_header r rest = Inr (p, len, fn)" "take_witness r len = Inr (w, r1)"
    and t: "too_old v p w = None"
    and b2: "b2 = b\<lparr>witnesses := witnesses b @ [\<lparr>w_property = p, w_function = fn, w_bytes = w\<rparr>]\<rparr>"
    using assms(1) by (auto simp: witness_record_def split: sum.splits option.splits)
  moreover from this have "fn \<noteq> []"
    by (auto simp: witness_header_def Let_def split: prod.splits option.splits if_splits)
  ultimately show ?thesis
    using assms(2) by (auto simp: bundle_wf_def witness_wf_def)
qed

lemma artifact_record_wf: "artifact_record r rest = Inr a \<Longrightarrow> 2 \<le> v \<Longrightarrow> artifact_wf v a"
  by (auto simp: artifact_record_def artifact_wf_def hex64_def lower_hex_def [abs_def] Let_def
      split: prod.splits if_splits)

lemma if_result: "(if c then a else b) = x \<Longrightarrow> (c \<Longrightarrow> a = x \<Longrightarrow> P) \<Longrightarrow> (\<not> c \<Longrightarrow> b = x \<Longrightarrow> P) \<Longrightarrow> P"
  by (cases c) simp_all

lemma parse_record_wf:
  assumes "parse_record v r ln b = Inr (r2, b2)" and "bundle_wf v b"
  shows "bundle_wf v b2"
proof -
  obtain kw rest where k: "split_once_or ln = (kw, rest)" by fastforce
  note p = assms(1) [unfolded parse_record_def k Let_def prod.case]
  show ?thesis
    using p
  proof (elim if_result)
    assume "witness_record v r rest b = Inr (r2, b2)"
    then show ?thesis using witness_record_wf assms(2) by blast
  next
    assume "(case split_once_or rest of (fn, reason) \<Rightarrow>
        if fn = [] then Inl (err r NoUncertified)
        else Inr (r, b\<lparr>uncertified := uncertified b @ [(fn, reason)]\<rparr>)) = Inr (r2, b2)"
    then show ?thesis using assms(2) by (auto simp: bundle_wf_def split: prod.splits if_splits)
  next
    assume "kw = ''artifact'' \<and> 2 \<le> v"
      "(case artifact_record r rest of Inl e \<Rightarrow> Inl e | Inr a \<Rightarrow> Inr (r, b\<lparr>b_artifact := Some a\<rparr>)) = Inr (r2, b2)"
    then show ?thesis using assms(2) artifact_record_wf by (auto simp: bundle_wf_def split: sum.splits)
  next
    assume "kw \<in> set metadata_keys" "Inr (r, b\<lparr>metadata := metadata b @ [(kw, rest)]\<rparr>) = Inr (r2, b2)"
    then show ?thesis using assms(2) by (auto simp: bundle_wf_def)
  qed simp_all
qed

lemma parse_loop_wf: "parse_loop v r b = Inr b' \<Longrightarrow> bundle_wf v b \<Longrightarrow> bundle_wf v b'"
proof (induction v r b rule: parse_loop.induct)
  case (1 v r b)
  consider "b' = b" | ln r1 r2 b2 where "next_line r = Inr (Some ln, r1)" "parse_record v r1 ln b = Inr (r2, b2)"
    "parse_loop v r2 b2 = Inr b'"
    using 1(2) by (subst (asm) parse_loop.simps) (auto split: sum.splits option.splits prod.splits)
  then show ?case
  proof cases
    case 1
    then show ?thesis using "1.prems"(2) by simp
  next
    case 2
    then show ?thesis
      using "1.IH" [OF 2(1) refl refl 2(2) refl 2(3)] parse_record_wf [OF 2(2) "1.prems"(2)] by blast
  qed
qed

lemma empty_bundle_wf: "bundle_wf v empty_bundle"
  by (simp add: bundle_wf_def empty_bundle_def)

lemma parse_bundle_wf:
  assumes "parse_bundle bs = Inr b"
  shows "\<exists>v. version_of (takeWhile (\<lambda>c. c \<noteq> newline) bs) = Some v \<and> bundle_wf v b"
proof -
  obtain ln r v where n: "next_line \<lparr>rbytes = bs, pos = 0, line = 0\<rparr> = Inr (Some ln, r)"
    "version_of ln = Some v" "parse_loop v r empty_bundle = Inr b"
    using assms by (auto simp: parse_bundle_def split: sum.splits option.splits prod.splits)
  have "ln = takeWhile (\<lambda>c. c \<noteq> newline) bs"
    using n(1) by (auto simp: next_line_def run_len_def Let_def takeWhile_eq_take [symmetric] split: if_splits)
  then show ?thesis
    using parse_loop_wf [OF n(3) empty_bundle_wf] n(2) by blast
qed

subsection \<open>The writer\<close>

definition kw_witness :: bytes where
  "kw_witness = ''witness''"

definition kw_uncertified :: bytes where
  "kw_uncertified = ''uncertified''"

definition kw_artifact :: bytes where
  "kw_artifact = ''artifact''"

definition kw_sha256 :: bytes where
  "kw_sha256 = ''sha256''"

lemmas kw_defs = kw_witness_def kw_uncertified_def kw_artifact_def kw_sha256_def

datatype rec_line = RMeta bytes bytes | RArtifact artifact | RWitness witness | RUncertified bytes bytes

definition words3 :: "bytes \<Rightarrow> bytes \<Rightarrow> bytes \<Rightarrow> bytes" where
  "words3 a b c = a @ space_byte # b @ space_byte # c"

fun rec_head :: "rec_line \<Rightarrow> bytes" where
  "rec_head (RMeta k x) = k @ space_byte # x"
| "rec_head (RArtifact a) = kw_artifact @ space_byte # words3 kw_sha256 (art_sha256 a) (art_path a)"
| "rec_head (RWitness w) =
     kw_witness @ space_byte # words3 (property_name (w_property w)) (dec_string (length (w_bytes w))) (w_function w)"
| "rec_head (RUncertified f x) = kw_uncertified @ space_byte # f @ space_byte # x"

fun rec_text :: "rec_line \<Rightarrow> bytes" where
  "rec_text (RWitness w) = rec_head (RWitness w) @ newline # w_bytes w @ [newline]"
| "rec_text r = rec_head r @ [newline]"

definition recs_of :: "cert_bundle \<Rightarrow> rec_line list" where
  "recs_of b =
     map (\<lambda>(k, x). RMeta k x) (metadata b) @
     (case b_artifact b of None \<Rightarrow> [] | Some a \<Rightarrow> [RArtifact a]) @
     map RWitness (witnesses b) @
     map (\<lambda>(f, x). RUncertified f x) (uncertified b)"

definition bundle_text :: "nat \<Rightarrow> cert_bundle \<Rightarrow> bytes" where
  "bundle_text v b = magic v @ newline # concat (map rec_text (recs_of b))"

text \<open>A line: no newline, and UTF-8.\<close>

definition line_ok :: "bytes \<Rightarrow> bool" where
  "line_ok s \<longleftrightarrow> newline \<notin> set s \<and> utf8_ok s"

fun rec_ok :: "nat \<Rightarrow> rec_line \<Rightarrow> bool" where
  "rec_ok v (RMeta k x) \<longleftrightarrow> k \<in> set metadata_keys \<and> line_ok x"
| "rec_ok v (RArtifact a) \<longleftrightarrow> artifact_wf v a \<and> line_ok (art_path a)"
| "rec_ok v (RWitness w) \<longleftrightarrow> witness_wf v w \<and> line_ok (w_function w)"
| "rec_ok v (RUncertified f x) \<longleftrightarrow> f \<noteq> [] \<and> space_byte \<notin> set f \<and> line_ok f \<and> line_ok x"

definition bundle_ok :: "nat \<Rightarrow> cert_bundle \<Rightarrow> bool" where
  "bundle_ok v b \<longleftrightarrow> v \<in> {1..5} \<and> list_all (rec_ok v) (recs_of b) \<and> length (bundle_text v b) < 2 ^ 64"

fun apply_rec :: "cert_bundle \<Rightarrow> rec_line \<Rightarrow> cert_bundle" where
  "apply_rec b (RMeta k x) = b\<lparr>metadata := metadata b @ [(k, x)]\<rparr>"
| "apply_rec b (RArtifact a) = b\<lparr>b_artifact := Some a\<rparr>"
| "apply_rec b (RWitness w) = b\<lparr>witnesses := witnesses b @ [w]\<rparr>"
| "apply_rec b (RUncertified f x) = b\<lparr>uncertified := uncertified b @ [(f, x)]\<rparr>"

text \<open>A record may follow: metadata before any witness, one artifact.\<close>

fun may_follow :: "cert_bundle \<Rightarrow> rec_line \<Rightarrow> bool" where
  "may_follow b (RMeta k x) \<longleftrightarrow> witnesses b = [] \<and> uncertified b = []"
| "may_follow b (RArtifact a) \<longleftrightarrow> b_artifact b = None"
| "may_follow b _ \<longleftrightarrow> True"

subsection \<open>Lines\<close>

lemma utf8_Nil: "utf8_ok []"
  by (subst utf8_ok.simps) simp

lemma utf8_ascii: "\<forall>c \<in> set s. byte_val c < 128 \<Longrightarrow> utf8_ok s"
proof (induction s)
  case (Cons c s)
  then have "utf8_char (c # s) = 1"
    by (simp add: utf8_char_def utf8_need_def)
  then show ?case
    using Cons by (subst utf8_ok.simps) simp
qed (rule utf8_Nil)

lemma utf8_char_append:
  assumes "utf8_char s \<noteq> 0"
  shows "utf8_char s \<le> length s \<and> utf8_char (s @ t) = utf8_char s"
proof -
  obtain a r where s: "s = a # r"
    using assms by (cases s) (auto simp: utf8_char_def)
  let ?n = "utf8_need a"
  let ?P = "\<lambda>r. ?n \<le> length (a # r) \<and> (?n = 1 \<or> second_ok a (r ! 0)) \<and> list_all is_cont (take (?n - 2) (drop 1 r))"
  have char: "utf8_char (a # r) = (if ?P r then ?n else 0)" for r
    by (simp only: utf8_char_def list.case Let_def)
  have P: "?P r"
  proof (rule ccontr)
    assume "\<not> ?P r"
    then have "utf8_char (a # r) = 0"
      unfolding char by (rule if_not_P)
    then show False using assms s by simp
  qed
  have n: "utf8_char s = ?n" "?n \<noteq> 0"
    using assms unfolding s char if_P [OF P] by simp_all
  have "take (?n - 2) (drop 1 (r @ t)) = take (?n - 2) (drop 1 r)"
    using P by (cases r) auto
  moreover have "?n = 1 \<or> (r @ t) ! 0 = r ! 0"
    using P n(2) by (cases r) auto
  ultimately have "?P (r @ t)"
    using P by auto
  then have "utf8_char (a # (r @ t)) = ?n"
    unfolding char by (rule if_P)
  then show ?thesis
    using P n(1) s by simp
qed

lemma utf8_append: "utf8_ok s \<Longrightarrow> utf8_ok t \<Longrightarrow> utf8_ok (s @ t)"
proof (induction s rule: utf8_ok.induct)
  case (1 s)
  show ?case
  proof (cases "s = []")
    case False
    then have c: "utf8_char s \<noteq> 0" "utf8_ok (drop (utf8_char s) s)"
      using 1(2) utf8_ok.simps [of s] by (simp_all split: if_splits)
    then have "utf8_ok (drop (utf8_char s) s @ t)"
      using 1 False by blast
    then show ?thesis
      using utf8_char_append [OF c(1), of t] c(1) by (subst utf8_ok.simps) simp
  qed (use 1 in simp)
qed

lemma line_append: "line_ok s \<Longrightarrow> line_ok t \<Longrightarrow> line_ok (s @ t)"
  by (simp add: line_ok_def utf8_append)

lemma line_ascii: "list_all (\<lambda>c. byte_val c < 128 \<and> c \<noteq> newline) s \<Longrightarrow> line_ok s"
  unfolding line_ok_def list_all_iff using utf8_ascii [of s] by blast

lemma line_space: "line_ok s \<Longrightarrow> line_ok t \<Longrightarrow> line_ok (s @ space_byte # t)"
  using line_append [of s "[space_byte] @ t"] line_append [of "[space_byte]" t]
  by (simp add: line_ascii space_byte_def newline_def)

lemma split_once_word: "space_byte \<notin> set k \<Longrightarrow> split_once_or (k @ space_byte # x) = (k, x)"
proof -
  assume "space_byte \<notin> set k"
  then have "takeWhile (\<lambda>b. b \<noteq> space_byte) (k @ space_byte # x) = k"
    by (induction k) auto
  then show ?thesis
    by (simp add: split_once_or_def split_once_def)
qed

lemma splitn3_words: "space_byte \<notin> set a \<Longrightarrow> space_byte \<notin> set b \<Longrightarrow> splitn3 (words3 a b c) = (a, b, c)"
  by (simp add: splitn3_def words3_def split_once_word)

lemma digits_no_space: "all_digits s \<Longrightarrow> space_byte \<notin> set s"
  by (auto simp: all_digits_def space_byte_def is_digit_def)

lemma parse_usize_dec_string: "n < 2 ^ 64 \<Longrightarrow> parse_usize (dec_string n) = Some n"
proof -
  assume n: "n < 2 ^ 64"
  obtain c cs where c: "dec_string n = c # cs" by (cases "dec_string n") auto
  have "list_all is_digit (dec_string n)"
    using all_digits_dec_string [of n] unfolding all_digits_def list_all_iff .
  moreover from this have "c \<noteq> CHR ''+''"
    using c by (auto simp: is_digit_def)
  ultimately show ?thesis
    using n c by (simp add: parse_usize_def dec_val_dec_string [of n, unfolded c])
qed

lemma next_line_text:
  assumes "line_ok s"
  shows "next_line \<lparr>rbytes = pre @ s @ newline # post, pos = length pre, line = n\<rparr> =
    Inr (Some s, \<lparr>rbytes = pre @ s @ newline # post, pos = length pre + length s + 1, line = n + 1\<rparr>)"
proof -
  have "newline \<notin> set s"
    using assms by (simp add: line_ok_def)
  then have "takeWhile (\<lambda>b. b \<noteq> newline) (s @ newline # post) = s"
    by (induction s) auto
  then have "run_len (\<lambda>b. b \<noteq> newline) (pre @ s @ newline # post) (length pre) = length s"
    by (simp add: run_len_def)
  then show ?thesis
    using assms by (simp add: next_line_def line_ok_def)
qed

lemma take_witness_text:
  assumes "length pre + length w < 2 ^ 64"
  shows "take_witness \<lparr>rbytes = pre @ w @ newline # post, pos = length pre, line = n\<rparr> (length w) =
    Inr (w, \<lparr>rbytes = pre @ w @ newline # post, pos = length pre + length w + 1,
             line = n + length (filter (\<lambda>b. b = newline) w) + 1\<rparr>)"
  using assms by (simp add: take_witness_def checked_add_usize_def nth_append subslice_def)

subsection \<open>The round trip\<close>

lemma line_word: "space_byte \<notin> set k \<Longrightarrow> list_all (\<lambda>c. byte_val c < 128 \<and> c \<noteq> newline) k \<Longrightarrow>
    line_ok x \<Longrightarrow> line_ok (k @ space_byte # x)"
  using line_space line_ascii by blast

lemma lower_hex_line: "hex64 s \<Longrightarrow> line_ok s \<and> space_byte \<notin> set s"
proof -
  assume "hex64 s"
  then have h: "list_all lower_hex s" by (simp add: hex64_def)
  have c: "byte_val c < 128 \<and> c \<noteq> newline \<and> c \<noteq> space_byte" if "lower_hex c" for c
    using that by (auto simp: lower_hex_def is_digit_def less_eq_char_def newline_def space_byte_def)
  then show ?thesis
    using h line_ascii [of s] by (auto simp: list_all_iff)
qed

lemma digits_line: "all_digits s \<Longrightarrow> line_ok s"
  by (rule line_ascii) (auto simp: all_digits_def list_all_iff is_digit_def newline_def)

lemma name_line: "line_ok (property_name p) \<and> space_byte \<notin> set (property_name p)"
  by (cases p) (simp_all add: line_ascii newline_def space_byte_def)

lemma keyword_line:
  "k \<in> {kw_witness, kw_uncertified, kw_artifact, kw_sha256} \<union> set metadata_keys \<Longrightarrow>
    line_ok k \<and> space_byte \<notin> set k"
  by (auto simp: kw_defs metadata_keys_def line_ascii newline_def space_byte_def)

lemma rec_head_line: "rec_ok v r \<Longrightarrow> line_ok (rec_head r)"
proof (cases r)
  case (RMeta k x)
  then show "rec_ok v r \<Longrightarrow> ?thesis"
    using keyword_line [of k] by (simp add: line_space)
next
  case (RArtifact a)
  then show "rec_ok v r \<Longrightarrow> ?thesis"
    using keyword_line [of kw_artifact] keyword_line [of kw_sha256] lower_hex_line [of "art_sha256 a"]
      line_space by (simp add: words3_def artifact_wf_def)
next
  case (RWitness w)
  then show "rec_ok v r \<Longrightarrow> ?thesis"
    using keyword_line [of kw_witness] name_line [of "w_property w"] line_space
      digits_line [OF all_digits_dec_string] by (simp add: words3_def)
next
  case (RUncertified f x)
  then show "rec_ok v r \<Longrightarrow> ?thesis"
    using keyword_line [of kw_uncertified] line_space by simp
qed

lemma keyword_distinct:
  "k \<in> set metadata_keys \<Longrightarrow> k \<noteq> ''witness'' \<and> k \<noteq> ''uncertified'' \<and> k \<noteq> ''artifact''"
  by (auto simp: metadata_keys_def)

text \<open>Each keyword's line reaches its arm of \<open>parse_record\<close>.\<close>

lemma record_arms:
  "parse_record v r (kw_witness @ space_byte # x) b = witness_record v r x b"
  "parse_record v r (kw_uncertified @ space_byte # x) b =
     (let (fn, reason) = split_once_or x
      in if fn = [] then Inl (err r NoUncertified)
         else Inr (r, b\<lparr>uncertified := uncertified b @ [(fn, reason)]\<rparr>))"
  "2 \<le> v \<Longrightarrow> b_artifact b = None \<Longrightarrow> parse_record v r (kw_artifact @ space_byte # x) b =
     (case artifact_record r x of Inl e \<Rightarrow> Inl e | Inr a \<Rightarrow> Inr (r, b\<lparr>b_artifact := Some a\<rparr>))"
proof -
  have k: "split_once_or (k @ space_byte # x) = (k, x)" if "k \<in> {kw_witness, kw_uncertified, kw_artifact}" for k
    using that keyword_line [of k] by (intro split_once_word) auto
  show "parse_record v r (kw_witness @ space_byte # x) b = witness_record v r x b"
    unfolding parse_record_def k [of kw_witness, simplified] Let_def prod.case by (simp add: kw_defs)
  show "parse_record v r (kw_uncertified @ space_byte # x) b =
     (let (fn, reason) = split_once_or x
      in if fn = [] then Inl (err r NoUncertified)
         else Inr (r, b\<lparr>uncertified := uncertified b @ [(fn, reason)]\<rparr>))"
    unfolding parse_record_def k [of kw_uncertified, simplified] Let_def prod.case by (simp add: kw_defs)
  show "2 \<le> v \<Longrightarrow> b_artifact b = None \<Longrightarrow> parse_record v r (kw_artifact @ space_byte # x) b =
     (case artifact_record r x of Inl e \<Rightarrow> Inl e | Inr a \<Rightarrow> Inr (r, b\<lparr>b_artifact := Some a\<rparr>))"
    unfolding parse_record_def k [of kw_artifact, simplified] Let_def prod.case by (simp add: kw_defs)
qed

text \<open>Where a reader stands after a record, and the record read back there.\<close>

definition reads_to :: "nat \<Rightarrow> bytes \<Rightarrow> nat \<Rightarrow> cert_bundle \<Rightarrow> nat \<Rightarrow> cert_bundle \<Rightarrow> bool" where
  "reads_to v bs i b j b2 \<longleftrightarrow>
     (\<forall>n. \<exists>m. parse_loop v \<lparr>rbytes = bs, pos = i, line = n\<rparr> b = parse_loop v \<lparr>rbytes = bs, pos = j, line = m\<rparr> b2)"

lemma parse_plain_line:
  assumes "line_ok s" and "\<And>r. parse_record v r s b = Inr (r, b2)"
  shows "reads_to v (pre @ s @ newline # post) (length pre) b (length pre + length s + 1) b2"
  unfolding reads_to_def
proof
  fix n
  show "\<exists>m. parse_loop v \<lparr>rbytes = pre @ s @ newline # post, pos = length pre, line = n\<rparr> b =
      parse_loop v \<lparr>rbytes = pre @ s @ newline # post, pos = length pre + length s + 1, line = m\<rparr> b2"
    by (rule exI [of _ "n + 1"], subst parse_loop.simps)
      (simp only: next_line_text [OF assms(1)] sum.case option.case prod.case assms(2))
qed

lemma parse_witness_lines:
  assumes "witness_wf v w" and "line_ok (w_function w)"
    and "length pre + length (rec_text (RWitness w)) < 2 ^ 64"
  shows "reads_to v (pre @ rec_text (RWitness w) @ post) (length pre) b
    (length pre + length (rec_text (RWitness w))) (apply_rec b (RWitness w))"
  unfolding reads_to_def
proof
  fix n
  let ?h = "rec_head (RWitness w)"
  let ?bs = "pre @ ?h @ newline # (w_bytes w @ newline # post)"
  have bs: "pre @ rec_text (RWitness w) @ post = ?bs" "?bs = (pre @ ?h @ [newline]) @ w_bytes w @ newline # post"
    by simp_all
  let ?r1 = "\<lparr>rbytes = ?bs, pos = length pre + length ?h + 1, line = n + 1\<rparr>"
  let ?m = "n + 1 + length (filter (\<lambda>b. b = newline) (w_bytes w)) + 1"
  let ?r2 = "\<lparr>rbytes = ?bs, pos = length pre + length ?h + 1 + length (w_bytes w) + 1, line = ?m\<rparr>"
  have len: "length (w_bytes w) < 2 ^ 64" "length (pre @ ?h @ [newline]) + length (w_bytes w) < 2 ^ 64"
    using assms(3) by simp_all
  have "witness_header ?r1 (words3 (property_name (w_property w)) (dec_string (length (w_bytes w))) (w_function w)) =
      Inr (w_property w, length (w_bytes w), w_function w)"
    using name_line [of "w_property w"] digits_no_space [OF all_digits_dec_string] assms(1) len(1)
    by (simp add: witness_header_def splitn3_words from_name_of_name parse_usize_dec_string witness_wf_def)
  moreover have "take_witness ?r1 (length (w_bytes w)) = Inr (w_bytes w, ?r2)"
    using take_witness_text [OF len(2), of post "n + 1"] unfolding bs(2) by simp
  moreover have "too_old v (w_property w) (w_bytes w) = None"
    using assms(1) by (simp add: witness_wf_def)
  ultimately have "parse_record v ?r1 ?h b = Inr (?r2, apply_rec b (RWitness w))"
    by (simp add: record_arms witness_record_def)
  moreover have "line_ok ?h"
    using rec_head_line [of v "RWitness w"] assms(1,2) by simp
  ultimately have "parse_loop v \<lparr>rbytes = ?bs, pos = length pre, line = n\<rparr> b = parse_loop v ?r2 (apply_rec b (RWitness w))"
    by (subst parse_loop.simps) (simp only: next_line_text sum.case option.case prod.case)
  then show "\<exists>m. parse_loop v \<lparr>rbytes = pre @ rec_text (RWitness w) @ post, pos = length pre, line = n\<rparr> b =
      parse_loop v \<lparr>rbytes = pre @ rec_text (RWitness w) @ post,
        pos = length pre + length (rec_text (RWitness w)), line = m\<rparr> (apply_rec b (RWitness w))"
    unfolding bs(1) by (intro exI [of _ ?m]) (simp add: add_ac)
qed

lemma parse_meta_line:
  assumes "k \<in> set metadata_keys" and "witnesses b = []" and "uncertified b = []"
  shows "parse_record v r (rec_head (RMeta k x)) b = Inr (r, apply_rec b (RMeta k x))"
  using keyword_line [of k] keyword_distinct [OF assms(1)] assms
  by (simp add: parse_record_def split_once_word)

lemma parse_artifact_line:
  assumes "artifact_wf v a" and "b_artifact b = None"
  shows "parse_record v r (rec_head (RArtifact a)) b = Inr (r, apply_rec b (RArtifact a))"
proof -
  have h: "hex64 (art_sha256 a)" "2 \<le> v" "art_path a \<noteq> []"
    using assms(1) by (simp_all add: artifact_wf_def)
  have "splitn3 (words3 kw_sha256 (art_sha256 a) (art_path a)) = (kw_sha256, art_sha256 a, art_path a)"
    using lower_hex_line [OF h(1)] keyword_line [of kw_sha256] by (intro splitn3_words) simp_all
  then have "artifact_record r (words3 kw_sha256 (art_sha256 a) (art_path a)) = Inr a"
    using h by (simp add: artifact_record_def hex64_def lower_hex_def [abs_def] kw_sha256_def)
  then show ?thesis
    using h(2) assms(2) by (simp add: record_arms)
qed

lemma parse_uncertified_line:
  assumes "f \<noteq> []" and "space_byte \<notin> set f"
  shows "parse_record v r (rec_head (RUncertified f x)) b = Inr (r, apply_rec b (RUncertified f x))"
  using assms by (simp add: record_arms split_once_word)

lemma parse_one:
  assumes "rec_ok v r" and "may_follow b r" and "length pre + length (rec_text r) < 2 ^ 64"
  shows "reads_to v (pre @ rec_text r @ post) (length pre) b (length pre + length (rec_text r)) (apply_rec b r)"
proof (cases r)
  case (RWitness w)
  then show ?thesis
    using parse_witness_lines assms by simp
next
  case (RMeta k x)
  then have "\<And>r'. parse_record v r' (rec_head r) b = Inr (r', apply_rec b r)"
    using parse_meta_line assms(1,2) by simp
  then show ?thesis
    using parse_plain_line [OF rec_head_line [OF assms(1)]] RMeta by (simp del: rec_head.simps)
next
  case (RArtifact a)
  then have "\<And>r'. parse_record v r' (rec_head r) b = Inr (r', apply_rec b r)"
    using parse_artifact_line assms(1,2) by simp
  then show ?thesis
    using parse_plain_line [OF rec_head_line [OF assms(1)]] RArtifact by (simp del: rec_head.simps)
next
  case (RUncertified f x)
  then have "\<And>r'. parse_record v r' (rec_head r) b = Inr (r', apply_rec b r)"
    using parse_uncertified_line assms(1) by simp
  then show ?thesis
    using parse_plain_line [OF rec_head_line [OF assms(1)]] RUncertified by (simp del: rec_head.simps)
qed

text \<open>A sequence of records each of which may follow the ones before it.\<close>

fun follows :: "cert_bundle \<Rightarrow> rec_line list \<Rightarrow> bool" where
  "follows b [] \<longleftrightarrow> True"
| "follows b (r # rs) \<longleftrightarrow> may_follow b r \<and> follows (apply_rec b r) rs"

lemma parse_records:
  "list_all (rec_ok v) rs \<Longrightarrow> follows b rs \<Longrightarrow> length pre + length (concat (map rec_text rs)) < 2 ^ 64 \<Longrightarrow>
    parse_loop v \<lparr>rbytes = pre @ concat (map rec_text rs), pos = length pre, line = n\<rparr> b = Inr (foldl apply_rec b rs)"
proof (induction rs arbitrary: pre b n)
  case Nil
  then show ?case
    by (subst parse_loop.simps) (simp add: next_line_def)
next
  case (Cons r rs)
  let ?rest = "concat (map rec_text rs)"
  obtain m where "parse_loop v \<lparr>rbytes = pre @ rec_text r @ ?rest, pos = length pre, line = n\<rparr> b =
      parse_loop v \<lparr>rbytes = pre @ rec_text r @ ?rest, pos = length pre + length (rec_text r), line = m\<rparr> (apply_rec b r)"
    using parse_one [of v r b pre ?rest] Cons.prems by (auto simp: reads_to_def)
  moreover have "parse_loop v \<lparr>rbytes = (pre @ rec_text r) @ ?rest, pos = length (pre @ rec_text r), line = m\<rparr>
      (apply_rec b r) = Inr (foldl apply_rec (apply_rec b r) rs)"
    using Cons.prems by (intro Cons.IH) simp_all
  ultimately show ?case
    by simp
qed

lemma follows_append: "follows b (rs @ ss) \<longleftrightarrow> follows b rs \<and> follows (foldl apply_rec b rs) ss"
  by (induction rs arbitrary: b) auto

lemma fold_meta:
  "foldl apply_rec b (map (\<lambda>(k, x). RMeta k x) ms) = b\<lparr>metadata := metadata b @ ms\<rparr> \<and>
    (witnesses b = [] \<and> uncertified b = [] \<longrightarrow> follows b (map (\<lambda>(k, x). RMeta k x) ms))"
  by (induction ms arbitrary: b) (auto split: prod.splits)

lemma fold_witnesses:
  "foldl apply_rec b (map RWitness ws) = b\<lparr>witnesses := witnesses b @ ws\<rparr> \<and> follows b (map RWitness ws)"
  by (induction ws arbitrary: b) auto

lemma fold_uncertified:
  "foldl apply_rec b (map (\<lambda>(f, x). RUncertified f x) us) = b\<lparr>uncertified := uncertified b @ us\<rparr> \<and>
    follows b (map (\<lambda>(f, x). RUncertified f x) us)"
  by (induction us arbitrary: b) (auto split: prod.splits)

lemma recs_of_spec: "foldl apply_rec empty_bundle (recs_of b) = b \<and> follows empty_bundle (recs_of b)"
  by (cases "b_artifact b")
    (simp_all add: recs_of_def follows_append fold_meta fold_witnesses fold_uncertified empty_bundle_def)

lemma magic_line: "v \<in> {1..5} \<Longrightarrow> line_ok (magic v) \<and> version_of (magic v) = Some v"
proof -
  have "list_all (\<lambda>v. line_ok (magic v) \<and> version_of (magic v) = Some v) [1, 2, 3, 4, 5]"
    by code_simp
  moreover assume "v \<in> {1..5}"
  then have "v \<in> set [1, 2, 3, 4, 5]" by auto
  ultimately show ?thesis
    unfolding list_all_iff by blast
qed

lemma bundle_round_trip:
  assumes "bundle_ok v b"
  shows "parse_bundle (bundle_text v b) = Inr b"
proof -
  have v: "line_ok (magic v)" "version_of (magic v) = Some v" and rs: "list_all (rec_ok v) (recs_of b)"
    and len: "length (bundle_text v b) < 2 ^ 64"
    using assms magic_line by (auto simp: bundle_ok_def)
  let ?pre = "magic v @ [newline]" and ?rest = "concat (map rec_text (recs_of b))"
  have "next_line \<lparr>rbytes = bundle_text v b, pos = 0, line = 0\<rparr> =
      Inr (Some (magic v), \<lparr>rbytes = bundle_text v b, pos = length ?pre, line = 1\<rparr>)"
    using next_line_text [OF v(1), of "[]" ?rest 0] by (simp add: bundle_text_def)
  moreover have "parse_loop v \<lparr>rbytes = ?pre @ ?rest, pos = length ?pre, line = 1\<rparr> empty_bundle =
      Inr (foldl apply_rec empty_bundle (recs_of b))"
    using recs_of_spec [of b] rs len by (intro parse_records) (simp_all add: bundle_text_def)
  ultimately show ?thesis
    using recs_of_spec [of b] v(2) by (simp add: parse_bundle_def bundle_text_def)
qed

subsection \<open>The verdict\<close>

lemma certified_iff:
  "snd (verify_bundle b) = Certified \<longleftrightarrow>
    witnesses b \<noteq> [] \<and> (\<forall>w \<in> set (witnesses b). check (w_property w) (w_bytes w)) \<and> uncertified b = []"
  by (auto simp: verify_bundle_def Let_def list_ex_iff)

lemma incomplete_iff:
  "snd (verify_bundle b) = Incomplete \<longleftrightarrow>
    witnesses b \<noteq> [] \<and> (\<forall>w \<in> set (witnesses b). check (w_property w) (w_bytes w)) \<and> uncertified b \<noteq> []"
  by (auto simp: verify_bundle_def Let_def list_ex_iff)

end
