(* ===== verification/Meaning.thy ===== *)
theory Meaning
  imports Bundle
begin

text \<open>
  What each property of the verifier promises of the program a witness describes, and the proof
  that every checker implies its promise: the contract of \<open>check\<close> as one definition, over
  the meanings the components' theories give their certificates.
\<close>

fun property_meaning :: "property \<Rightarrow> bytes \<Rightarrow> bool" where
  "property_meaning POwnership w \<longleftrightarrow> (\<forall>line \<in> set (parse_xc w). line_safe line)"
| "property_meaning PNames w \<longleftrightarrow> (let (sp, sb) = split_bar w in dval ` set (pnats sb) \<subseteq> dval ` set (pnats sp))"
| "property_meaning PCaps w \<longleftrightarrow> (let (sp, sb) = split_bar w in dval ` set (pnats sb) \<subseteq> dval ` set (pnats sp))"
| "property_meaning PCapsTransitive w \<longleftrightarrow> caps_contained (map parse_node (split_semi w))"
| "property_meaning PCallModes w \<longleftrightarrow>
     (let (sigs, sites) = parse_modes w
      in length sigs \<le> 10 ^ 18 \<longrightarrow>
         (\<forall>sig \<in> set sigs. \<forall>m \<in> set sig. dval m \<le> 1) \<and>
         (\<forall>site \<in> set sites. call_agrees (map (map dval) sigs) (map dval site)))"
| "property_meaning PBounds w \<longleftrightarrow>
     (\<exists>ps. parse_stretches w 0 [] = Some ps \<and> (list_all stretch_plain ps \<longrightarrow> list_all (stretch_safe ps) ps))"
| "property_meaning PInit w \<longleftrightarrow>
     (\<exists>sites. parse_sites w 0 [] = Some sites \<and> (\<forall>x \<in> set sites. site_initialises x))"
| "property_meaning PFields w \<longleftrightarrow>
     (\<exists>items. parse_items w 0 [] = Some items \<and> (modest items \<longrightarrow> fields_meaning items))"
| "property_meaning PRcSig w \<longleftrightarrow>
     (let modes = pnats (fst (split_bar w))
      in (\<forall>m \<in> set modes. dval m \<le> 1) \<and> lines_safe False modes (parse_xc (snd (split_bar w))))"
| "property_meaning PNativeCalls w \<longleftrightarrow>
     (length w < 10 ^ 18 \<longrightarrow>
      (let blocks = map parse_block (split_on (\<lambda>c. c = CHR ''#'') w)
       in \<forall>b \<in> set blocks. block_bound (map (\<lambda>b. map dval (bmodes b)) blocks) b))"

lemma subset_cert_means:
  "subset_cert w \<longleftrightarrow> (let (sp, sb) = split_bar w in dval ` set (pnats sb) \<subseteq> dval ` set (pnats sp))"
  by (auto simp: subset_cert_def nat_subset_val pnats_wf split: prod.splits)

lemma modes_cert_means:
  assumes "check_modes_cert w"
  shows "property_meaning PCallModes w"
proof -
  obtain sigs sites where "parse_modes w = (sigs, sites)"
    by (cases "parse_modes w")
  then show ?thesis
    using check_modes_cert_iff [of w sigs sites] assms by simp
qed

lemma bounds_cert_means:
  assumes "check_bounds_cert w"
  shows "property_meaning PBounds w"
proof -
  obtain ps where "parse_stretches w 0 [] = Some ps"
    using assms by (auto simp: check_bounds_cert_def split: option.splits)
  then show ?thesis
    using bounds_cert_sound [OF assms] by simp
qed

lemma fields_cert_means:
  assumes "check_fields_cert w"
  shows "property_meaning PFields w"
proof -
  obtain items where "parse_items w 0 [] = Some items"
    using assms by (auto simp: check_fields_cert_def split: option.splits)
  then show ?thesis
    using check_fields_cert_iff [of w items] assms by simp
qed

lemma native_calls_cert_means:
  assumes "check_native_calls_cert w"
  shows "property_meaning PNativeCalls w"
  unfolding property_meaning.simps Let_def
  using check_native_calls_iff [of w, OF _ refl] assms by blast

lemma check_means: "check p w \<Longrightarrow> property_meaning p w"
proof (cases p)
  case PCallModes
  then show "check p w \<Longrightarrow> property_meaning p w" using modes_cert_means by simp
next
  case PBounds
  then show "check p w \<Longrightarrow> property_meaning p w" using bounds_cert_means by simp
next
  case PFields
  then show "check p w \<Longrightarrow> property_meaning p w" using fields_cert_means by simp
next
  case PNativeCalls
  then show "check p w \<Longrightarrow> property_meaning p w" using native_calls_cert_means by simp
qed (simp_all only: check.simps property_meaning.simps check_xc_iff subset_cert_means check_prog_cert_iff
    check_init_cert_iff check_sig_cert_iff)

text \<open>The names of the accepted facts of a bundle: what \<open>CERTIFIED\<close> says.\<close>

lemma certified_means:
  assumes "snd (verify_bundle b) = Certified"
  shows "witnesses b \<noteq> [] \<and> uncertified b = [] \<and>
    (\<forall>w \<in> set (witnesses b). property_meaning (w_property w) (w_bytes w))"
  using assms check_means
  by (auto simp: verify_bundle_def Let_def list_ex_iff split: if_splits)

end
