(* ===== verification/Examples.thy ===== *)
theory Examples
  imports Ownership_Text Bundle_Text Meaning
begin

text \<open>
  Concrete certificates and tables that the witnesses of the properties use, with the facts that
  evaluate them: integers of the linear checker as constants \<open>zi\<close>, the tail-recursive walk of
  the source's own tests as a linear procedure, and small certificate texts.
\<close>

subsection \<open>Integer constants\<close>

definition zi :: "int \<Rightarrow> zint" where
  "zi i =
     (if i < 0 then z_neg (z_from_digits (dec_string (nat (- i))))
      else z_from_digits (dec_string (nat i)))"

lemma zval_zi [simp]: "zval (zi i) = i"
  by (simp add: zi_def zval_simps zval_from_digits)

lemma zi_arith:
  "z_zero = zi 0" "z_one = zi 1" "z_pow2 k = zi (2 ^ k)" "z_from_i64 v = zi (sint v)"
  "z_neg (zi a) = zi (- a)" "z_add (zi a) (zi b) = zi (a + b)" "z_sub (zi a) (zi b) = zi (a - b)"
  "z_mul (zi a) (zi b) = zi (a * b)" "zi a = zi b \<longleftrightarrow> a = b" "zi a \<le> zi b \<longleftrightarrow> a \<le> b"
  "z_is_neg (zi a) \<longleftrightarrow> a < 0" "z_is_pos (zi a) \<longleftrightarrow> 0 < a"
  by (simp_all add: zval_inj [symmetric] zval_simps z_one_def)

lemma as_index_dnat_of: "n < 10 ^ 18 \<Longrightarrow> as_index (dnat_of n) = Some n"
  using as_index_None [of "dnat_of n"] as_index_Some [of "dnat_of n"]
  by (cases "as_index (dnat_of n)") auto

definition pf_of :: "(nat \<times> int) list \<Rightarrow> pf" where
  "pf_of ps = (map (\<lambda>(j, k). (dnat_of j, zi k)) ps, zi 1)"

definition lin_of :: "(lvar \<times> int) list \<Rightarrow> int \<Rightarrow> lin" where
  "lin_of ts c = \<lparr>terms = map (\<lambda>(v, a). (v, zi a)) ts, cst = zi c\<rparr>"

definition slot_of :: "nat \<Rightarrow> lin" where
  "slot_of x = lin_of [(S (dnat_of x), 1)] 0"

subsection \<open>The walk of the linear checker's tests\<close>

text \<open>
  Slot 0 walks the payload of region 7 up to the end pointer in slot 1: it reads one byte and
  calls itself with the next address.
\<close>

definition walk_pre :: facts where
  "walk_pre =
     [lin_of [(B (dnat_of 7), 1), (S (dnat_of 0), - 1)] 12,
      lin_of [(S (dnat_of 1), 1), (B (dnat_of 7), - 1), (C (dnat_of 7), - 1)] (- 12)]"

definition walk_args :: "larg list" where
  "walk_args =
     [(dnat_of 0, lin_of [(S (dnat_of 0), 1)] 1,
       Some (pf_of [(4, 1), (1, 1)], pf_of [(0, 1), (5, 1), (3, 1)])),
      (dnat_of 1, slot_of 1, Some (pf_of [], pf_of []))]"

definition walk_step :: "litem list" where
  "walk_step =
     [LAcc (dnat_of 7) (zi 1) (zi 0) (slot_of 0) (pf_of [(4, 1), (1, 1)]) (pf_of [(4, 1)])
        (pf_of [(0, 1), (5, 1)]),
      LCall (dnat_of 5) walk_args [(dnat_of 7, dnat_of 7)] [] (dnat_of 9) [pf_of [(4, 1)], pf_of [(5, 1)]],
      LRet []]"

definition walk_body :: "litem list" where
  "walk_body =
     [LWf (dnat_of 7),
      LTest (slot_of 0) (slot_of 1) True (pf_of [], pf_of []) (pf_of [], pf_of []) (pf_of [], pf_of [])
        [LRet []] walk_step]"

definition walker :: lproc where
  "walker = \<lparr>lpre = walk_pre, lpost = [], rslot = dnat_of 0, lbody = walk_body\<rparr>"

definition walk_table :: ltable where
  "walk_table = [(dnat_of 5, walker)]"

lemmas walk_defs = walk_table_def walker_def walk_body_def walk_step_def walk_args_def walk_pre_def
  slot_of_def lin_of_def pf_of_def

lemma walk_accepted: "lprocs_ok walk_table"
  by (simp add: lprocs_ok_def walk_defs wf_facts_def acc_ok_def entails_def fact_at_def v1_def kz_def
      scale_def ladd_def lneg_def lsub_def lmul_def coef_def kill_def mentions_def lcheck_def proves_def
      lfinish_def test_facts_def no_wrap_def bare_slot_def fjoin_def valid_args_def call_ok_def tr_lin_def
      tr_some_def call_facts_def lplook_def kill_outs_def i64min_def i64max_def zi_arith as_index_dnat_of Let_def)

lemma walk_fit: "ltable_fit walk_table"
  by (simp add: ltable_fit_def walk_defs)

lemma walk_found: "lplook walk_table (dnat_of 5) = Some walker"
  by (simp add: lplook_def walk_table_def)

text \<open>A block of eight payload bytes at 1000, and a frame that walks its last byte.\<close>

definition walk_layout :: layout where
  "walk_layout = \<lparr>base = (\<lambda>_. 1000), room = (\<lambda>_. 8)\<rparr>"

definition walk_frame :: "64 word \<Rightarrow> frame" where
  "walk_frame v = ((\<lambda>_. 0), (\<lambda>_. 0) (dnat_of 0 := v, dnat_of 1 := 1020))"

lemmas walk_eval = walk_layout_def walk_frame_def val64_def cmp_ge_def acc_in_def lval_def tval_def lin_of_def
  slot_of_def lsat_def walk_pre_def

lemma walk_layout_ok: "layout_ok walk_layout"
  by (simp add: layout_ok_def walk_layout_def)

lemma walk_frame_ok: "lsat (frame_env walk_layout (walk_frame 1019)) (lpre walker)"
  by (simp add: walk_eval walker_def)

lemma walk_returns: "lrun walk_table walk_layout (walk_frame 1020) walk_body (LReturned (walk_frame 1020))"
  unfolding walk_body_def
  by (intro lr_wf lr_test_stop [OF refl]) (simp_all add: walk_eval lr_ret)

lemma walk_binds:
  "lbinds walk_layout walk_args [(dnat_of 7, dnat_of 7)] (walk_frame 1019) (walk_frame 1020)"
  by (simp add: lbinds_def walk_args_def walk_eval)

lemma walk_reads:
  "lrun walk_table walk_layout (walk_frame 1019) walk_step
     (LReturned (after_call (walk_frame 1019) (walk_frame 1020) [] (dnat_of 9) (dnat_of 0)))"
proof -
  have r: "rslot walker = dnat_of 0"
    by (simp add: walker_def)
  have "acc_in walk_layout (walk_frame 1019) (dnat_of 7) (zi 1) (zi 0) (slot_of 0)"
    by (simp add: walk_eval)
  moreover have "lrun walk_table walk_layout (walk_frame 1020) (lbody walker) (LReturned (walk_frame 1020))"
    using walk_returns by (simp add: walker_def)
  ultimately show ?thesis
    unfolding walk_step_def
    by - (rule lr_acc, assumption, rule lr_call [OF walk_found walk_binds, unfolded r], assumption, rule lr_ret)
qed

lemma walk_runs:
  "lrun walk_table walk_layout (walk_frame 1019) walk_body
     (LReturned (after_call (walk_frame 1019) (walk_frame 1020) [] (dnat_of 9) (dnat_of 0)))"
  using walk_reads unfolding walk_body_def
  by (intro lr_wf lr_test_stop [OF refl]) (simp_all add: walk_eval)

subsection \<open>Certificate texts\<close>

text \<open>One stretch of each unnamed kind, and a procedure that walks an array by calling itself.\<close>

definition ex_bounds :: bytes where
  "ex_bounds =
     ''L{ s0 c0 a0 } ; R n1,0,1 L{ e0,1,1 a0,1,0,1 s0 } ; P0{ 3:2 | | 1,2,8 | 2 | B{ | C2,1,8 a2,8,0,8 t3,2,1,8 F0{1:1 2:3} } }''"

definition ex_list :: "bitem list" where
  "ex_list = [BLoop [BSet (dnat_of 0), BCheck (dnat_of 0), BRead (dnat_of 0)]]"

definition ex_routine :: "ritem list" where
  "ex_routine =
     [RLen (dnat_of 1, dnat_of 0, dnat_of 1),
      RLoop [RExit (dnat_of 0, dnat_of 1) (dnat_of 1), RAcc (dnat_of 0, dnat_of 1) (dnat_of 0) (dnat_of 1),
        RSet (dnat_of 0)]]"

definition ex_proc :: pproc where
  "ex_proc = \<lparr>groups = [(dnat_of 3, dnat_of 2)], pre_known = [],
     pre_counts = [(dnat_of 1, dnat_of 2, dnat_of 8)], pre_nonneg = [dnat_of 2],
     pbody =
       [PBranch []
          [PCheck (dnat_of 2, dnat_of 8) (dnat_of 1) True,
           PAcc (dnat_of 2, dnat_of 8) (dnat_of 0) (dnat_of 8),
           PStep (dnat_of 3) (dnat_of 2, dnat_of 8) (dnat_of 1),
           PCall (dnat_of 0) [(dnat_of 1, dnat_of 1), (dnat_of 2, dnat_of 3)]]]\<rparr>"

definition ex_stretches :: "stretch list" where
  "ex_stretches = [ListStretch ex_list, Routine ex_routine, Proc (dnat_of 0) ex_proc]"

lemma ex_bounds_parsed: "parse_stretches ex_bounds 0 [] = Some ex_stretches"
  by code_simp

lemma ex_bounds_accepted: "check_bounds_cert ex_bounds"
  by code_simp

lemma ex_bounds_plain: "list_all stretch_plain ex_stretches"
  by (simp add: ex_stretches_def ex_proc_def proc_plain_def flat_def)

definition ex_fields :: bytes where
  "ex_fields = ''L4 c0 n1 z16 o0 w8 o8 w4 ; k4 c0 s0 s1 ; a4 c0 f1''"

definition ex_items :: "item list" where
  "ex_items =
     [Lay (dnat_of 4) (dnat_of 0) (dnat_of 1)
        \<lparr>sz = dnat_of 16, fld = [(dnat_of 0, dnat_of 8), (dnat_of 8, dnat_of 4)]\<rparr>,
      Site (dnat_of 4) (dnat_of 0) [dnat_of 0, dnat_of 1], Acc (dnat_of 4) (dnat_of 0) (dnat_of 1)]"

lemma ex_fields_parsed: "parse_items ex_fields 0 [] = Some ex_items"
  by code_simp

lemma ex_fields_accepted: "check_fields_cert ex_fields"
  by code_simp

lemma ex_items_modest: "modest ex_items"
  by (simp add: modest_def ex_items_def layout_table_def List.map_filter_simps)

definition ex_native :: bytes where
  "ex_native = ''|1 1|0'' @ newline # ''iM'' @ newline # ''id#1||'' @ newline # ''m''"

lemma ex_native_accepted: "check_native_calls_cert ex_native"
  by code_simp

text \<open>A version 5 bundle with two witnesses and no uncertified function.\<close>

definition ex_bundle :: cert_bundle where
  "ex_bundle =
     \<lparr>metadata = [(''producer'', ''almide'')],
      witnesses =
        [\<lparr>w_property = POwnership, w_function = ''main'', w_bytes = ''id''\<rparr>,
         \<lparr>w_property = PCapsTransitive, w_function = ''main'', w_bytes = ''1 2|1|1;2 3|2|''\<rparr>],
      uncertified = [], b_artifact = None\<rparr>"

lemma ex_bundle_certified: "snd (verify_bundle ex_bundle) = Certified"
  by code_simp

lemma ex_bundle_ok: "bundle_ok 5 ex_bundle"
proof -
  have "length (bundle_text 5 ex_bundle) \<le> 200" by code_simp
  moreover have "list_all (rec_ok 5) (recs_of ex_bundle)" by code_simp
  ultimately show ?thesis by (simp add: bundle_ok_def)
qed

text \<open>The standard's test vector, which pins the constants.\<close>

lemma hex_abc: "hex ''abc'' = ''ba7816bf8f01cfea414140de5dae2223b00361a396177a9cb410ff61f20015ad''"
  by code_simp

end
