(* ===== verification/Vm_Types.thy ===== *)
theory Vm_Types
  imports "HOL-Library.Word" Prelude
begin

text \<open>
  The types and tables of the interpreter crate \<open>crates/almide-wasm-vm\<close>: value and function types
  (\<open>types.rs\<close>), traps and load errors (\<open>error.rs\<close>), and the flat instructions with their load and
  store tables (\<open>ir.rs\<close>). A cell is a 64-bit word.
\<close>

type_synonym cell = "64 word"

subsection \<open>Types\<close>

datatype val_type = I32 | I64 | F32 | F64

definition declared_type :: "byte \<Rightarrow> val_type option" where
  "declared_type b =
     (if b = CHR 0x7F then Some I32
      else if b = CHR 0x7E then Some I64
      else if b = CHR 0x7C then Some F64
      else None)"

record func_type =
  params :: "val_type list"
  results :: "val_type list"

subsection \<open>Errors\<close>

text \<open>The reasons of refusals are their message texts.\<close>

datatype load_error = LoadError (at_offset: "nat option") (reason: bytes)

definition whole :: "bytes \<Rightarrow> load_error" where
  "whole why = LoadError None why"

datatype trap =
    TUnreachable
  | TDivideByZero
  | TIntegerOverflow
  | TMemoryOutOfBounds
  | TCallToNull
  | TCallOutOfTable
  | TCallTypeMismatch
  | TStackExhausted
  | TOutOfFuel
  | THostNotServed bytes
  | THostOutOfBounds
  | THostMisaligned

fun trap_text :: "trap \<Rightarrow> bytes" where
  "trap_text TUnreachable = ''wasm `unreachable` instruction executed''"
| "trap_text TDivideByZero = ''integer divide by zero''"
| "trap_text TIntegerOverflow = ''integer overflow''"
| "trap_text TMemoryOutOfBounds = ''out of bounds memory access''"
| "trap_text TCallToNull = ''uninitialized element''"
| "trap_text TCallOutOfTable = ''undefined element: out of bounds table access''"
| "trap_text TCallTypeMismatch = ''indirect call type mismatch''"
| "trap_text TStackExhausted = ''call stack exhausted''"
| "trap_text TOutOfFuel = ''all fuel consumed by WebAssembly''"
| "trap_text THostOutOfBounds = ''Pointer out of bounds''"
| "trap_text THostMisaligned = ''Pointer not aligned to 4''"
| "trap_text (THostNotServed name) = ''host call `'' @ name @ ''` is not served by this VM''"

subsection \<open>Instructions\<close>

datatype call =
    Return
  | Call nat
  | CallIndirect nat
  | ReturnCall nat
  | ReturnCallIndirect nat

datatype instr =
    Unreachable
  | Br nat nat bool
  | BrIf nat nat bool
  | BrUnless nat
  | ICall call
  | Drop
  | Select
  | LocalGet nat
  | LocalSet nat
  | LocalTee nat
  | GlobalGet nat
  | GlobalSet nat
  | Load nat nat
  | Store nat nat
  | MemorySize
  | MemoryGrow
  | MemoryCopy
  | MemoryFill
  | Const cell
  | Unary "cell \<Rightarrow> cell"
  | Binary "cell \<Rightarrow> cell \<Rightarrow> trap + cell"

record load_op =
  l_code :: nat
  l_name :: bytes
  l_bytes :: nat
  l_signed :: bool
  l_result :: val_type

record store_op =
  s_code :: nat
  s_name :: bytes
  s_bytes :: nat
  s_value :: val_type

definition load_row :: "nat \<Rightarrow> bytes \<Rightarrow> nat \<Rightarrow> bool \<Rightarrow> val_type \<Rightarrow> load_op" where
  "load_row c n b sg t = \<lparr>l_code = c, l_name = n, l_bytes = b, l_signed = sg, l_result = t\<rparr>"

definition store_row :: "nat \<Rightarrow> bytes \<Rightarrow> nat \<Rightarrow> val_type \<Rightarrow> store_op" where
  "store_row c n b t = \<lparr>s_code = c, s_name = n, s_bytes = b, s_value = t\<rparr>"

definition LOADS :: "load_op list" where
  "LOADS = [
     load_row 0x28 ''i32.load'' 4 False I32,
     load_row 0x29 ''i64.load'' 8 False I64,
     load_row 0x2B ''f64.load'' 8 False F64,
     load_row 0x2D ''i32.load8_u'' 1 False I32,
     load_row 0x2F ''i32.load16_u'' 2 False I32,
     load_row 0x30 ''i64.load8_s'' 1 True I64,
     load_row 0x31 ''i64.load8_u'' 1 False I64,
     load_row 0x32 ''i64.load16_s'' 2 True I64,
     load_row 0x33 ''i64.load16_u'' 2 False I64,
     load_row 0x34 ''i64.load32_s'' 4 True I64,
     load_row 0x35 ''i64.load32_u'' 4 False I64]"

definition STORES :: "store_op list" where
  "STORES = [
     store_row 0x36 ''i32.store'' 4 I32,
     store_row 0x37 ''i64.store'' 8 I64,
     store_row 0x39 ''f64.store'' 8 F64,
     store_row 0x3A ''i32.store8'' 1 I32,
     store_row 0x3B ''i32.store16'' 2 I32,
     store_row 0x3C ''i64.store8'' 1 I64,
     store_row 0x3D ''i64.store16'' 2 I64,
     store_row 0x3E ''i64.store32'' 4 I64]"

definition CONTROL_AND_VARIABLE :: "bytes list" where
  "CONTROL_AND_VARIABLE = [
     ''unreachable'', ''block'', ''loop'', ''if'', ''else'', ''end'', ''br'', ''br_if'', ''return'', ''call'',
     ''call_indirect'', ''return_call'', ''return_call_indirect'', ''drop'', ''select'', ''local.get'',
     ''local.set'', ''local.tee'', ''global.get'', ''global.set'', ''memory.size'', ''memory.grow'',
     ''memory.copy'', ''memory.fill'', ''i32.const'', ''i64.const'', ''f64.const'']"

text \<open>The shifts are on 64-bit words; the second is arithmetic.\<close>

definition widen :: "load_op \<Rightarrow> cell \<Rightarrow> cell" where
  "widen l raw =
     (let bits = l_bytes l * 8;
          v = (if l_signed l \<and> bits < 64
               then let sh = 64 - bits in signed_drop_bit sh (push_bit sh raw)
               else raw)
      in case l_result l of I32 \<Rightarrow> and v 0xffffffff | _ \<Rightarrow> v)"

subsection \<open>Little-endian bytes\<close>

text \<open>\<open>u64::from_le_bytes\<close> of at most eight bytes, missing ones 0, and \<open>to_le_bytes\<close>.\<close>

fun le_val :: "bytes \<Rightarrow> 'a :: len word" where
  "le_val [] = 0"
| "le_val (b # bs) = of_char b + push_bit 8 (le_val bs)"

definition le_bytes :: "nat \<Rightarrow> 'a :: len word \<Rightarrow> bytes" where
  "le_bytes n w = map (\<lambda>i. char_of (uint (drop_bit (8 * i) w))) [0..<n]"

end
