(* ===== verification/Vm_Float.thy ===== *)
theory Vm_Float
  imports "HOL-Library.Word" Prelude
begin

text \<open>
  The \<open>f64\<close> and \<open>f32\<close> arithmetic the interpreter's numeric table uses: IEEE 754 binary64 and
  binary32 on bit patterns, every result the exact value rounded to nearest, ties to even. Which
  NaN an operation returns is not specified by the language, so it is a parameter of the
  operations.
\<close>

subsection \<open>Formats and data\<close>

record format =
  prec :: nat
  ewid :: nat

definition binary64 :: format where
  "binary64 = \<lparr>prec = 53, ewid = 11\<rparr>"

definition binary32 :: format where
  "binary32 = \<lparr>prec = 24, ewid = 8\<rparr>"

text \<open>A finite datum is \<open>(-1) ^ s * m * 2 ^ e\<close>.\<close>

datatype datum = NaN | Inf bool | Fin bool int int

definition emax :: "format \<Rightarrow> int" where
  "emax fm = 2 ^ ewid fm - 1"

definition bias :: "format \<Rightarrow> int" where
  "bias fm = 2 ^ (ewid fm - 1) - 1 + int (prec fm - 1)"

text \<open>The exponent of the subnormal numbers.\<close>

definition esub :: "format \<Rightarrow> int" where
  "esub fm = 1 - bias fm"

definition unpack :: "format \<Rightarrow> int \<Rightarrow> datum" where
  "unpack fm x =
     (let h = 2 ^ (prec fm - 1);
          fr = x mod h;
          ex = (x div h) mod 2 ^ ewid fm;
          s = odd (x div h div 2 ^ ewid fm)
      in if ex = emax fm then (if fr = 0 then Inf s else NaN)
         else if ex = 0 then Fin s fr (esub fm)
         else Fin s (h + fr) (ex - bias fm))"

definition bits :: "format \<Rightarrow> bool \<Rightarrow> int \<Rightarrow> int \<Rightarrow> int" where
  "bits fm s ex fr = (of_bool s * 2 ^ ewid fm + ex) * 2 ^ (prec fm - 1) + fr"

text \<open>The bits of \<open>m * 2 ^ q\<close>, where \<open>m\<close> has at most \<open>prec\<close> bits, and no fewer unless \<open>q\<close> is \<open>esub\<close>.\<close>

definition pack :: "format \<Rightarrow> bool \<Rightarrow> int \<Rightarrow> int \<Rightarrow> int" where
  "pack fm s m q =
     (let h = 2 ^ (prec fm - 1); ex = q + bias fm
      in if m < h then bits fm s 0 m
         else if emax fm \<le> ex then bits fm s (emax fm) 0
         else bits fm s ex (m - h))"

subsection \<open>Rounding\<close>

text \<open>The number of binary digits.\<close>

function blen :: "int \<Rightarrow> int" where
  "blen n = (if n \<le> 0 then 0 else 1 + blen (n div 2))"
  by pat_completeness auto
termination
  by (relation "measure nat") auto

declare blen.simps [simp del]

text \<open>\<open>n / d * 2 ^ e\<close> in units of \<open>2 ^ q\<close>: the quotient, the remainder and the divisor.\<close>

definition scaled :: "int \<Rightarrow> int \<Rightarrow> int \<Rightarrow> int \<Rightarrow> int \<times> int \<times> int" where
  "scaled n d e q =
     (let a = n * 2 ^ nat (e - q); b = d * 2 ^ nat (q - e) in (a div b, a mod b, b))"

definition half_even :: "int \<times> int \<times> int \<Rightarrow> int" where
  "half_even = (\<lambda>(m, r, b). if b < 2 * r \<or> 2 * r = b \<and> odd m then m + 1 else m)"

definition unit_of :: "format \<Rightarrow> int \<Rightarrow> int \<Rightarrow> int \<Rightarrow> int" where
  "unit_of fm n d e =
     (let q = max (esub fm) (e + blen n - blen d - int (prec fm))
      in if 2 ^ prec fm \<le> fst (scaled n d e q) then q + 1 else q)"

text \<open>The bits nearest to \<open>(-1) ^ s * n / d * 2 ^ e\<close>, for positive \<open>d\<close>.\<close>

definition round_to :: "format \<Rightarrow> bool \<Rightarrow> int \<Rightarrow> int \<Rightarrow> int \<Rightarrow> int" where
  "round_to fm s n d e =
     (if n = 0 then bits fm s 0 0
      else let q = unit_of fm n d e; m = half_even (scaled n d e q)
           in if m = 2 ^ prec fm then pack fm s (m div 2) (q + 1) else pack fm s m q)"

subsection \<open>Operations on data\<close>

text \<open>The result of an operation: a NaN of the platform's choice, or bits.\<close>

definition inf_bits :: "format \<Rightarrow> bool \<Rightarrow> int" where
  "inf_bits fm s = bits fm s (emax fm) 0"

definition zero_bits :: "format \<Rightarrow> bool \<Rightarrow> int" where
  "zero_bits fm s = bits fm s 0 0"

definition signed_of :: "bool \<Rightarrow> int \<Rightarrow> int" where
  "signed_of s m = (if s then - m else m)"

text \<open>Two finite data over their smaller exponent.\<close>

definition align :: "bool \<Rightarrow> int \<Rightarrow> int \<Rightarrow> int \<Rightarrow> int" where
  "align s m e q = signed_of s m * 2 ^ nat (e - q)"

fun fadd :: "format \<Rightarrow> datum \<Rightarrow> datum \<Rightarrow> int option" where
  "fadd fm (Fin s m e) (Fin t n f) =
     (let q = min e f; v = align s m e q + align t n f q
      in Some (if v = 0 then zero_bits fm (s \<and> t) else round_to fm (v < 0) \<bar>v\<bar> 1 q))"
| "fadd fm (Inf s) (Inf t) = (if s = t then Some (inf_bits fm s) else None)"
| "fadd fm (Inf s) (Fin t n f) = Some (inf_bits fm s)"
| "fadd fm (Fin s m e) (Inf t) = Some (inf_bits fm t)"
| "fadd fm _ _ = None"

fun fneg :: "datum \<Rightarrow> datum" where
  "fneg NaN = NaN"
| "fneg (Inf s) = Inf (\<not> s)"
| "fneg (Fin s m e) = Fin (\<not> s) m e"

fun fmul :: "format \<Rightarrow> datum \<Rightarrow> datum \<Rightarrow> int option" where
  "fmul fm (Fin s m e) (Fin t n f) = Some (round_to fm (s \<noteq> t) (m * n) 1 (e + f))"
| "fmul fm (Inf s) (Inf t) = Some (inf_bits fm (s \<noteq> t))"
| "fmul fm (Inf s) (Fin t n f) = (if n = 0 then None else Some (inf_bits fm (s \<noteq> t)))"
| "fmul fm (Fin s m e) (Inf t) = (if m = 0 then None else Some (inf_bits fm (s \<noteq> t)))"
| "fmul fm _ _ = None"

fun fdiv :: "format \<Rightarrow> datum \<Rightarrow> datum \<Rightarrow> int option" where
  "fdiv fm (Fin s m e) (Fin t n f) =
     (if n = 0 then (if m = 0 then None else Some (inf_bits fm (s \<noteq> t)))
      else Some (round_to fm (s \<noteq> t) m n (e - f)))"
| "fdiv fm (Inf s) (Fin t n f) = Some (inf_bits fm (s \<noteq> t))"
| "fdiv fm (Fin s m e) (Inf t) = Some (zero_bits fm (s \<noteq> t))"
| "fdiv fm _ _ = None"

text \<open>The integer square root, two bits at a time.\<close>

function isqrt :: "int \<Rightarrow> int" where
  "isqrt n =
     (if n \<le> 0 then 0
      else let r = 2 * isqrt (n div 4) in if (r + 1) * (r + 1) \<le> n then r + 1 else r)"
  by pat_completeness auto
termination
  by (relation "measure nat") auto

declare isqrt.simps [simp del]

text \<open>
  The root keeps more than \<open>prec\<close> bits; an inexact one gets a last bit 1 below them, which rounds
  as the root does.
\<close>

fun fsqrt :: "format \<Rightarrow> datum \<Rightarrow> int option" where
  "fsqrt fm (Fin s m e) =
     (if m = 0 then Some (zero_bits fm s)
      else if s then None
      else let k = 2 * prec fm + 4 + nat ((e + int (2 * prec fm)) mod 2);
               a = m * 2 ^ k; r = isqrt a
           in Some (round_to fm False (2 * r + of_bool (r * r \<noteq> a)) 1 ((e - int k) div 2 - 1)))"
| "fsqrt fm (Inf s) = (if s then None else Some (inf_bits fm False))"
| "fsqrt fm NaN = None"

text \<open>Rounding to an integer, down or up; a zero keeps the sign of the argument.\<close>

definition to_integral :: "bool \<Rightarrow> bool \<Rightarrow> int \<Rightarrow> int \<Rightarrow> int" where
  "to_integral up s m e =
     (if 0 \<le> e then m * 2 ^ nat e
      else let b = 2 ^ nat (- e) in m div b + of_bool (m mod b \<noteq> 0 \<and> s \<noteq> up))"

fun fintegral :: "format \<Rightarrow> bool \<Rightarrow> datum \<Rightarrow> int option" where
  "fintegral fm up (Fin s m e) = Some (round_to fm s (to_integral up s m e) 1 0)"
| "fintegral fm up (Inf s) = Some (inf_bits fm s)"
| "fintegral fm up NaN = None"

text \<open>Comparisons: a NaN is unordered, zeros are equal.\<close>

fun fless :: "datum \<Rightarrow> datum \<Rightarrow> bool" where
  "fless (Fin s m e) (Fin t n f) = (let q = min e f in align s m e q < align t n f q)"
| "fless (Inf s) (Inf t) = (s \<and> \<not> t)"
| "fless (Inf s) (Fin t n f) = s"
| "fless (Fin s m e) (Inf t) = (\<not> t)"
| "fless _ _ = False"

fun feq :: "datum \<Rightarrow> datum \<Rightarrow> bool" where
  "feq (Fin s m e) (Fin t n f) = (let q = min e f in align s m e q = align t n f q)"
| "feq (Inf s) (Inf t) = (s = t)"
| "feq _ _ = False"

text \<open>Rust's saturating \<open>as i64\<close>.\<close>

definition trunc_int :: "bool \<Rightarrow> int \<Rightarrow> int \<Rightarrow> int" where
  "trunc_int s m e = signed_of s (if 0 \<le> e then m * 2 ^ nat e else m div 2 ^ nat (- e))"

fun ftrunc_sat :: "datum \<Rightarrow> int" where
  "ftrunc_sat NaN = 0"
| "ftrunc_sat (Inf s) = (if s then - (2 ^ 63) else 2 ^ 63 - 1)"
| "ftrunc_sat (Fin s m e) = max (- (2 ^ 63)) (min (2 ^ 63 - 1) (trunc_int s m e))"

text \<open>Conversion between formats.\<close>

fun fconvert :: "format \<Rightarrow> datum \<Rightarrow> int option" where
  "fconvert fm (Fin s m e) = Some (round_to fm s m 1 e)"
| "fconvert fm (Inf s) = Some (inf_bits fm s)"
| "fconvert fm NaN = None"

subsection \<open>Bit patterns\<close>

text \<open>
  \<open>from_bits\<close> and \<open>to_bits\<close>: an operation on cells unpacks its operands and yields the bits, or
  the given NaN.
\<close>

definition cell_of :: "int option \<Rightarrow> 64 word \<Rightarrow> 64 word" where
  "cell_of r nan = (case r of None \<Rightarrow> nan | Some x \<Rightarrow> word_of_int x)"

definition f64v :: "64 word \<Rightarrow> datum" where
  "f64v x = unpack binary64 (uint x)"

definition f32v :: "64 word \<Rightarrow> datum" where
  "f32v x = unpack binary32 (uint (ucast x :: 32 word))"

end
