(* ===== verification/Vm_Numeric.thy ===== *)
theory Vm_Numeric
  imports Vm_Types Vm_Float "HOL-Library.Signed_Division"
begin

unbundle bit_operations_syntax

text \<open>
  The numeric instructions of the interpreter, \<open>crates/almide-wasm-vm/src/numeric.rs\<close>: one definition
  per semantics function on raw 64-bit cells (an i32 or f32 is zero-extended in the low half), and
  the table of opcodes. A parameter \<open>pn\<close> picks the NaN of a floating operation from its operands,
  which the language leaves to the platform.
\<close>

type_synonym unary = "cell \<Rightarrow> cell"
type_synonym binary = "cell \<Rightarrow> cell \<Rightarrow> trap + cell"

datatype semantics = SUnary unary | SBinary binary

record numeric_op =
  n_code :: nat
  n_name :: bytes
  n_operand :: val_type
  n_result :: val_type
  n_semantics :: semantics

definition un :: "nat \<Rightarrow> bytes \<Rightarrow> val_type \<Rightarrow> val_type \<Rightarrow> unary \<Rightarrow> numeric_op" where
  "un c n p r f = \<lparr>n_code = c, n_name = n, n_operand = p, n_result = r, n_semantics = SUnary f\<rparr>"

definition bin :: "nat \<Rightarrow> bytes \<Rightarrow> val_type \<Rightarrow> val_type \<Rightarrow> binary \<Rightarrow> numeric_op" where
  "bin c n p r f = \<lparr>n_code = c, n_name = n, n_operand = p, n_result = r, n_semantics = SBinary f\<rparr>"

text \<open>The NaN a platform returns: for an \<open>f64\<close> result and for an \<open>f32\<close> one.\<close>

record nan_choice =
  nan64 :: "cell \<Rightarrow> cell \<Rightarrow> cell"
  nan32 :: "cell \<Rightarrow> 32 word"

definition w32 :: "cell \<Rightarrow> 32 word" where
  "w32 x = ucast x"

definition c32 :: "32 word \<Rightarrow> cell" where
  "c32 x = ucast x"

definition bool_cell :: "bool \<Rightarrow> cell" where
  "bool_cell b = of_bool b"

subsection \<open>32-bit integers\<close>

definition leading_zeros :: "'a :: len word \<Rightarrow> nat" where
  "leading_zeros w = length (takeWhile (\<lambda>i. \<not> bit w i) (rev [0..<LENGTH('a)]))"

text \<open>\<open>wrapping_shl\<close> and \<open>wrapping_shr\<close> take the count modulo the width.\<close>

definition wrapping_shl :: "'a :: len word \<Rightarrow> 32 word \<Rightarrow> 'a word" where
  "wrapping_shl a n = push_bit (unat n mod LENGTH('a)) a"

definition wrapping_shr :: "'a :: len word \<Rightarrow> 32 word \<Rightarrow> 'a word" where
  "wrapping_shr a n = drop_bit (unat n mod LENGTH('a)) a"

definition wrapping_sar :: "'a :: len word \<Rightarrow> 32 word \<Rightarrow> 'a word" where
  "wrapping_sar a n = signed_drop_bit (unat n mod LENGTH('a)) a"

definition checked_div_u :: "'a :: len word \<Rightarrow> 'a word \<Rightarrow> 'a word option" where
  "checked_div_u a b = (if b = 0 then None else Some (a div b))"

definition i32_eqz :: unary where
  "i32_eqz a = bool_cell (w32 a = 0)"

definition i32_clz :: unary where
  "i32_clz a = c32 (of_nat (leading_zeros (w32 a)))"

definition i32_add :: binary where
  "i32_add a b = Inr (c32 (w32 a + w32 b))"

definition i32_sub :: binary where
  "i32_sub a b = Inr (c32 (w32 a - w32 b))"

definition i32_mul :: binary where
  "i32_mul a b = Inr (c32 (w32 a * w32 b))"

definition i32_div_u :: binary where
  "i32_div_u a b = (case checked_div_u (w32 a) (w32 b) of None \<Rightarrow> Inl TDivideByZero | Some q \<Rightarrow> Inr (c32 q))"

definition i32_and :: binary where
  "i32_and a b = Inr (c32 (w32 a AND w32 b))"

definition i32_or :: binary where
  "i32_or a b = Inr (c32 (w32 a OR w32 b))"

definition i32_xor :: binary where
  "i32_xor a b = Inr (c32 (w32 a XOR w32 b))"

definition i32_shl :: binary where
  "i32_shl a b = Inr (c32 (wrapping_shl (w32 a) (w32 b)))"

definition i32_shr_u :: binary where
  "i32_shr_u a b = Inr (c32 (wrapping_shr (w32 a) (w32 b)))"

definition i32_eq :: binary where
  "i32_eq a b = Inr (bool_cell (w32 a = w32 b))"

definition i32_ne :: binary where
  "i32_ne a b = Inr (bool_cell (w32 a \<noteq> w32 b))"

definition i32_lt_s :: binary where
  "i32_lt_s a b = Inr (bool_cell (sint (w32 a) < sint (w32 b)))"

definition i32_lt_u :: binary where
  "i32_lt_u a b = Inr (bool_cell ((w32 a) < (w32 b)))"

definition i32_gt_s :: binary where
  "i32_gt_s a b = Inr (bool_cell (sint (w32 a) > sint (w32 b)))"

definition i32_gt_u :: binary where
  "i32_gt_u a b = Inr (bool_cell ((w32 a) > (w32 b)))"

definition i32_le_s :: binary where
  "i32_le_s a b = Inr (bool_cell (sint (w32 a) \<le> sint (w32 b)))"

definition i32_le_u :: binary where
  "i32_le_u a b = Inr (bool_cell ((w32 a) \<le> (w32 b)))"

definition i32_ge_s :: binary where
  "i32_ge_s a b = Inr (bool_cell (sint (w32 a) \<ge> sint (w32 b)))"

definition i32_ge_u :: binary where
  "i32_ge_u a b = Inr (bool_cell ((w32 a) \<ge> (w32 b)))"

subsection \<open>64-bit integers\<close>

definition i64_eqz :: unary where
  "i64_eqz a = bool_cell (a = 0)"

definition i64_add :: binary where
  "i64_add a b = Inr (a + b)"

definition i64_sub :: binary where
  "i64_sub a b = Inr (a - b)"

definition i64_mul :: binary where
  "i64_mul a b = Inr (a * b)"

text \<open>\<open>i64::checked_div\<close> fails on a zero divisor and on the one quotient that does not fit.\<close>

definition checked_div_s :: "cell \<Rightarrow> cell \<Rightarrow> cell option" where
  "checked_div_s a b =
     (if b = 0 \<or> sint a = - (2 ^ 63) \<and> sint b = - 1 then None
      else Some (word_of_int (sint a sdiv sint b)))"

definition i64_div_s :: binary where
  "i64_div_s a b =
     (if b = 0 then Inl TDivideByZero
      else case checked_div_s a b of None \<Rightarrow> Inl TIntegerOverflow | Some q \<Rightarrow> Inr q)"

definition i64_div_u :: binary where
  "i64_div_u a b = (case checked_div_u a b of None \<Rightarrow> Inl TDivideByZero | Some q \<Rightarrow> Inr q)"

definition i64_rem_s :: binary where
  "i64_rem_s a b = (if b = 0 then Inl TDivideByZero else Inr (word_of_int (sint a smod sint b)))"

definition i64_rem_u :: binary where
  "i64_rem_u a b = (if b = 0 then Inl TDivideByZero else Inr (a mod b))"

definition i64_and :: binary where
  "i64_and a b = Inr (a AND b)"

definition i64_or :: binary where
  "i64_or a b = Inr (a OR b)"

definition i64_xor :: binary where
  "i64_xor a b = Inr (a XOR b)"

definition i64_shl :: binary where
  "i64_shl a b = Inr (wrapping_shl a (ucast b))"

definition i64_shr_s :: binary where
  "i64_shr_s a b = Inr (wrapping_sar a (ucast b))"

definition i64_shr_u :: binary where
  "i64_shr_u a b = Inr (wrapping_shr a (ucast b))"

definition i64_eq :: binary where
  "i64_eq a b = Inr (bool_cell (a = b))"

definition i64_ne :: binary where
  "i64_ne a b = Inr (bool_cell (a \<noteq> b))"

definition i64_lt_s :: binary where
  "i64_lt_s a b = Inr (bool_cell (sint a < sint b))"

definition i64_lt_u :: binary where
  "i64_lt_u a b = Inr (bool_cell (a < b))"

definition i64_gt_s :: binary where
  "i64_gt_s a b = Inr (bool_cell (sint a > sint b))"

definition i64_gt_u :: binary where
  "i64_gt_u a b = Inr (bool_cell (a > b))"

definition i64_le_s :: binary where
  "i64_le_s a b = Inr (bool_cell (sint a \<le> sint b))"

definition i64_le_u :: binary where
  "i64_le_u a b = Inr (bool_cell (a \<le> b))"

definition i64_ge_s :: binary where
  "i64_ge_s a b = Inr (bool_cell (sint a \<ge> sint b))"

definition i64_ge_u :: binary where
  "i64_ge_u a b = Inr (bool_cell (a \<ge> b))"

subsection \<open>Floating point\<close>

definition f64_eq :: binary where
  "f64_eq a b = Inr (bool_cell (feq (f64v a) (f64v b)))"

definition f64_ne :: binary where
  "f64_ne a b = Inr (bool_cell (\<not> feq (f64v a) (f64v b)))"

definition f64_lt :: binary where
  "f64_lt a b = Inr (bool_cell (fless (f64v a) (f64v b)))"

definition f64_gt :: binary where
  "f64_gt a b = Inr (bool_cell (fless (f64v b) (f64v a)))"

definition f64_le :: binary where
  "f64_le a b = Inr (bool_cell (fless (f64v a) (f64v b) \<or> feq (f64v a) (f64v b)))"

definition f64_ge :: binary where
  "f64_ge a b = Inr (bool_cell (fless (f64v b) (f64v a) \<or> feq (f64v a) (f64v b)))"

definition f64_abs :: unary where
  "f64_abs a = a AND NOT (push_bit 63 1)"

definition f64_neg :: unary where
  "f64_neg a = a XOR push_bit 63 1"

definition f64_ceil :: "nan_choice \<Rightarrow> unary" where
  "f64_ceil pn a = cell_of (fintegral binary64 True (f64v a)) (nan64 pn a a)"

definition f64_floor :: "nan_choice \<Rightarrow> unary" where
  "f64_floor pn a = cell_of (fintegral binary64 False (f64v a)) (nan64 pn a a)"

definition f64_sqrt :: "nan_choice \<Rightarrow> unary" where
  "f64_sqrt pn a = cell_of (fsqrt binary64 (f64v a)) (nan64 pn a a)"

definition f64_add :: "nan_choice \<Rightarrow> binary" where
  "f64_add pn a b = Inr (cell_of (fadd binary64 (f64v a) (f64v b)) (nan64 pn a b))"

definition f64_sub :: "nan_choice \<Rightarrow> binary" where
  "f64_sub pn a b = Inr (cell_of (fadd binary64 (f64v a) (fneg (f64v b))) (nan64 pn a b))"

definition f64_mul :: "nan_choice \<Rightarrow> binary" where
  "f64_mul pn a b = Inr (cell_of (fmul binary64 (f64v a) (f64v b)) (nan64 pn a b))"

definition f64_div :: "nan_choice \<Rightarrow> binary" where
  "f64_div pn a b = Inr (cell_of (fdiv binary64 (f64v a) (f64v b)) (nan64 pn a b))"

definition f64_copysign :: binary where
  "f64_copysign a b = Inr ((a AND NOT (push_bit 63 1)) OR (b AND push_bit 63 1))"

subsection \<open>Conversions\<close>

definition i32_wrap_i64 :: unary where
  "i32_wrap_i64 a = c32 (ucast a)"

definition i64_extend_i32_s :: unary where
  "i64_extend_i32_s a = scast (w32 a)"

definition i64_extend_i32_u :: unary where
  "i64_extend_i32_u a = c32 (w32 a)"

definition f32_convert_i64_s :: unary where
  "f32_convert_i64_s a = word_of_int (round_to binary32 (sint a < 0) \<bar>sint a\<bar> 1 0)"

definition f32_demote_f64 :: "nan_choice \<Rightarrow> unary" where
  "f32_demote_f64 pn a = cell_of (fconvert binary32 (f64v a)) (c32 (nan32 pn a))"

definition f64_convert_i64_s :: unary where
  "f64_convert_i64_s a = word_of_int (round_to binary64 (sint a < 0) \<bar>sint a\<bar> 1 0)"

definition f64_convert_i64_u :: unary where
  "f64_convert_i64_u a = word_of_int (round_to binary64 False (uint a) 1 0)"

definition f64_promote_f32 :: "nan_choice \<Rightarrow> unary" where
  "f64_promote_f32 pn a = cell_of (fconvert binary64 (f32v a)) (nan64 pn a a)"

definition reinterpret :: unary where
  "reinterpret a = a"

definition i64_extend8_s :: unary where
  "i64_extend8_s a = scast (ucast a :: 8 word)"

definition i64_extend16_s :: unary where
  "i64_extend16_s a = scast (ucast a :: 16 word)"

definition i64_extend32_s :: unary where
  "i64_extend32_s a = scast (ucast a :: 32 word)"

definition i64_trunc_sat_f64_s :: unary where
  "i64_trunc_sat_f64_s a = word_of_int (ftrunc_sat (f64v a))"

subsection \<open>The table\<close>

definition NUMERIC :: "nan_choice \<Rightarrow> numeric_op list" where
  "NUMERIC pn = [
     un 0x45 ''i32.eqz'' I32 I32 i32_eqz,
     bin 0x46 ''i32.eq'' I32 I32 i32_eq,
     bin 0x47 ''i32.ne'' I32 I32 i32_ne,
     bin 0x48 ''i32.lt_s'' I32 I32 i32_lt_s,
     bin 0x49 ''i32.lt_u'' I32 I32 i32_lt_u,
     bin 0x4A ''i32.gt_s'' I32 I32 i32_gt_s,
     bin 0x4B ''i32.gt_u'' I32 I32 i32_gt_u,
     bin 0x4C ''i32.le_s'' I32 I32 i32_le_s,
     bin 0x4D ''i32.le_u'' I32 I32 i32_le_u,
     bin 0x4E ''i32.ge_s'' I32 I32 i32_ge_s,
     bin 0x4F ''i32.ge_u'' I32 I32 i32_ge_u,
     un 0x50 ''i64.eqz'' I64 I32 i64_eqz,
     bin 0x51 ''i64.eq'' I64 I32 i64_eq,
     bin 0x52 ''i64.ne'' I64 I32 i64_ne,
     bin 0x53 ''i64.lt_s'' I64 I32 i64_lt_s,
     bin 0x54 ''i64.lt_u'' I64 I32 i64_lt_u,
     bin 0x55 ''i64.gt_s'' I64 I32 i64_gt_s,
     bin 0x56 ''i64.gt_u'' I64 I32 i64_gt_u,
     bin 0x57 ''i64.le_s'' I64 I32 i64_le_s,
     bin 0x58 ''i64.le_u'' I64 I32 i64_le_u,
     bin 0x59 ''i64.ge_s'' I64 I32 i64_ge_s,
     bin 0x5A ''i64.ge_u'' I64 I32 i64_ge_u,
     bin 0x61 ''f64.eq'' F64 I32 f64_eq,
     bin 0x62 ''f64.ne'' F64 I32 f64_ne,
     bin 0x63 ''f64.lt'' F64 I32 f64_lt,
     bin 0x64 ''f64.gt'' F64 I32 f64_gt,
     bin 0x65 ''f64.le'' F64 I32 f64_le,
     bin 0x66 ''f64.ge'' F64 I32 f64_ge,
     un 0x67 ''i32.clz'' I32 I32 i32_clz,
     bin 0x6A ''i32.add'' I32 I32 i32_add,
     bin 0x6B ''i32.sub'' I32 I32 i32_sub,
     bin 0x6C ''i32.mul'' I32 I32 i32_mul,
     bin 0x6E ''i32.div_u'' I32 I32 i32_div_u,
     bin 0x71 ''i32.and'' I32 I32 i32_and,
     bin 0x72 ''i32.or'' I32 I32 i32_or,
     bin 0x73 ''i32.xor'' I32 I32 i32_xor,
     bin 0x74 ''i32.shl'' I32 I32 i32_shl,
     bin 0x76 ''i32.shr_u'' I32 I32 i32_shr_u,
     bin 0x7C ''i64.add'' I64 I64 i64_add,
     bin 0x7D ''i64.sub'' I64 I64 i64_sub,
     bin 0x7E ''i64.mul'' I64 I64 i64_mul,
     bin 0x7F ''i64.div_s'' I64 I64 i64_div_s,
     bin 0x80 ''i64.div_u'' I64 I64 i64_div_u,
     bin 0x81 ''i64.rem_s'' I64 I64 i64_rem_s,
     bin 0x82 ''i64.rem_u'' I64 I64 i64_rem_u,
     bin 0x83 ''i64.and'' I64 I64 i64_and,
     bin 0x84 ''i64.or'' I64 I64 i64_or,
     bin 0x85 ''i64.xor'' I64 I64 i64_xor,
     bin 0x86 ''i64.shl'' I64 I64 i64_shl,
     bin 0x87 ''i64.shr_s'' I64 I64 i64_shr_s,
     bin 0x88 ''i64.shr_u'' I64 I64 i64_shr_u,
     un 0x99 ''f64.abs'' F64 F64 f64_abs,
     un 0x9A ''f64.neg'' F64 F64 f64_neg,
     un 0x9B ''f64.ceil'' F64 F64 (f64_ceil pn),
     un 0x9C ''f64.floor'' F64 F64 (f64_floor pn),
     un 0x9F ''f64.sqrt'' F64 F64 (f64_sqrt pn),
     bin 0xA0 ''f64.add'' F64 F64 (f64_add pn),
     bin 0xA1 ''f64.sub'' F64 F64 (f64_sub pn),
     bin 0xA2 ''f64.mul'' F64 F64 (f64_mul pn),
     bin 0xA3 ''f64.div'' F64 F64 (f64_div pn),
     bin 0xA6 ''f64.copysign'' F64 F64 f64_copysign,
     un 0xA7 ''i32.wrap_i64'' I64 I32 i32_wrap_i64,
     un 0xAC ''i64.extend_i32_s'' I32 I64 i64_extend_i32_s,
     un 0xAD ''i64.extend_i32_u'' I32 I64 i64_extend_i32_u,
     un 0xB4 ''f32.convert_i64_s'' I64 F32 f32_convert_i64_s,
     un 0xB6 ''f32.demote_f64'' F64 F32 (f32_demote_f64 pn),
     un 0xB9 ''f64.convert_i64_s'' I64 F64 f64_convert_i64_s,
     un 0xBA ''f64.convert_i64_u'' I64 F64 f64_convert_i64_u,
     un 0xBB ''f64.promote_f32'' F32 F64 (f64_promote_f32 pn),
     un 0xBC ''i32.reinterpret_f32'' F32 I32 reinterpret,
     un 0xBD ''i64.reinterpret_f64'' F64 I64 reinterpret,
     un 0xBE ''f32.reinterpret_i32'' I32 F32 reinterpret,
     un 0xBF ''f64.reinterpret_i64'' I64 F64 reinterpret,
     un 0xC2 ''i64.extend8_s'' I64 I64 i64_extend8_s,
     un 0xC3 ''i64.extend16_s'' I64 I64 i64_extend16_s,
     un 0xC4 ''i64.extend32_s'' I64 I64 i64_extend32_s,
     un 0xFC06 ''i64.trunc_sat_f64_s'' F64 I64 i64_trunc_sat_f64_s]"

definition lookup :: "nan_choice \<Rightarrow> nat \<Rightarrow> numeric_op option" where
  "lookup pn code = find (\<lambda>x. n_code x = code) (NUMERIC pn)"

end
