(* ===== verification/Vm_Reader.thy ===== *)
theory Vm_Reader
  imports Vm_Types Std_Text
begin

text \<open>
  The bounds-checked cursor over module bytes, \<open>crates/almide-wasm-vm/src/reader.rs\<close>. A decoder is
  a function from a cursor to a load error or a value with the advanced cursor; \<open>rbind\<close> is the
  early return of \<open>?\<close>.
\<close>

unbundle bit_operations_syntax

record rdr =
  r_bytes :: bytes
  r_pos :: nat
  r_base :: nat

type_synonym 'a rd = "rdr \<Rightarrow> load_error + ('a \<times> rdr)"

definition rbind :: "'a rd \<Rightarrow> ('a \<Rightarrow> 'b rd) \<Rightarrow> 'b rd" where
  "rbind p f r = (case p r of Inl e \<Rightarrow> Inl e | Inr (x, r1) \<Rightarrow> f x r1)"

definition rret :: "'a \<Rightarrow> 'a rd" where
  "rret x r = Inr (x, r)"

lemma rbindE:
  assumes "rbind p f r = Inr (x, r1)"
  obtains y r2 where "p r = Inr (y, r2)" and "f y r2 = Inr (x, r1)"
  using assms by (auto simp: rbind_def split: sum.splits)

definition r_offset :: "rdr \<Rightarrow> nat" where
  "r_offset r = r_base r + r_pos r"

definition at_rend :: "rdr \<Rightarrow> bool" where
  "at_rend r \<longleftrightarrow> r_pos r = length (r_bytes r)"

definition rfail :: "bytes \<Rightarrow> 'a rd" where
  "rfail why r = Inl (LoadError (Some (r_offset r)) why)"

definition new_rdr :: "bytes \<Rightarrow> rdr" where
  "new_rdr bs = \<lparr>r_bytes = bs, r_pos = 0, r_base = 0\<rparr>"

definition rbyte :: "byte rd" where
  "rbyte r =
     (case sget (r_bytes r) (r_pos r) of
        Some b \<Rightarrow> Inr (b, r\<lparr>r_pos := r_pos r + 1\<rparr>)
      | None \<Rightarrow> rfail ''unexpected end of input'' r)"

definition rtake :: "nat \<Rightarrow> bytes rd" where
  "rtake n r =
     (case checked_add_usize (r_pos r) n of
        None \<Rightarrow> rfail ''a length runs past the end of its section'' r
      | Some e \<Rightarrow>
          if e \<le> length (r_bytes r) then Inr (subslice (r_bytes r) (r_pos r) e, r\<lparr>r_pos := e\<rparr>)
          else rfail ''a length runs past the end of its section'' r)"

definition rsub :: "nat \<Rightarrow> rdr rd" where
  "rsub n r =
     rbind (rtake n) (\<lambda>bs. rret \<lparr>r_bytes = bs, r_pos = 0, r_base = r_offset r\<rparr>) r"

subsection \<open>LEB128\<close>

text \<open>
  The loop runs for \<open>i\<close> below \<open>bits.div_ceil(7)\<close>; \<open>k\<close> counts the turns that are left. The result is
  a \<open>u64\<close>; the shifts stay below 64 for widths up to 64.
\<close>

definition div_ceil :: "nat \<Rightarrow> nat \<Rightarrow> nat" where
  "div_ceil a b = (a + b - 1) div b"

fun uleb_loop :: "nat \<Rightarrow> nat \<Rightarrow> nat \<Rightarrow> cell \<Rightarrow> cell rd" where
  "uleb_loop nbits i 0 acc = rfail ''an integer encoding is longer than its width allows''"
| "uleb_loop nbits i (Suc k) acc =
     rbind rbyte (\<lambda>b.
       let shift = 7 * i; payload = (of_char b AND 0x7f :: cell); used = nbits - shift
       in if k = 0 \<and> used < 7 \<and> drop_bit used payload \<noteq> 0
          then rfail ''an integer encoding overflows its width''
          else let acc2 = acc OR push_bit shift payload
               in if (of_char b AND 0x80 :: cell) = 0 then rret acc2 else uleb_loop nbits (i + 1) k acc2)"

definition uleb :: "nat \<Rightarrow> cell rd" where
  "uleb nbits = uleb_loop nbits 0 (div_ceil nbits 7) 0"

text \<open>
  The test of the last byte shifts an \<open>i8\<close> left by one, which drops its top bit, and then right
  by \<open>7 - unused\<close>, arithmetically.
\<close>

fun sleb_loop :: "nat \<Rightarrow> nat \<Rightarrow> nat \<Rightarrow> cell \<Rightarrow> cell rd" where
  "sleb_loop nbits i 0 acc = rfail ''a signed integer encoding is longer than its width allows''"
| "sleb_loop nbits i (Suc k) acc =
     rbind rbyte (\<lambda>b.
       let shift = 7 * i; acc2 = acc OR push_bit shift (of_char b AND 0x7f :: cell); total = shift + 7
       in if (of_char b AND 0x80 :: cell) = 0 then
            (let rest = signed_drop_bit (7 - (total - nbits)) (push_bit 1 (of_char b :: 8 word))
             in if k = 0 \<and> nbits < total \<and> rest \<noteq> 0 \<and> rest \<noteq> - 1
                then rfail ''a signed integer encoding overflows its width''
                else rret (if total < 64 \<and> (of_char b AND 0x40 :: cell) \<noteq> 0
                           then acc2 OR push_bit total (- 1) else acc2))
          else sleb_loop nbits (i + 1) k acc2)"

definition sleb :: "nat \<Rightarrow> cell rd" where
  "sleb nbits = sleb_loop nbits 0 (div_ceil nbits 7) 0"

text \<open>A \<open>u32\<close> is used as an index or a count; its value is a natural number.\<close>

definition ru32 :: "nat rd" where
  "ru32 = rbind (uleb 32) (\<lambda>v. rret (unat (ucast v :: 32 word)))"

definition ri32 :: "32 word rd" where
  "ri32 = rbind (sleb 32) (\<lambda>v. rret (ucast v))"

definition ri64 :: "cell rd" where
  "ri64 = sleb 64"

definition f64_bits :: "cell rd" where
  "f64_bits = rbind (rtake 8) (\<lambda>b. rret (le_val b))"

definition vec_len :: "nat rd" where
  "vec_len = rbind ru32 (\<lambda>n r.
     if length (r_bytes r) - r_pos r < n then rfail ''a vector length exceeds the bytes that remain'' r
     else Inr (n, r))"

definition skip_rest :: "rdr \<Rightarrow> rdr" where
  "skip_rest r = r\<lparr>r_pos := length (r_bytes r)\<rparr>"

definition rname :: "bytes rd" where
  "rname = rbind vec_len (\<lambda>n r.
     rbind (rtake n) (\<lambda>b r1.
       if utf8_ok b then Inr (b, r1) else Inl (LoadError (Some (r_offset r)) ''a name is not valid UTF-8'')) r)"

text \<open>A loop \<open>for _ in 0..n\<close> that collects what its body reads.\<close>

fun rmany :: "nat \<Rightarrow> 'a rd \<Rightarrow> 'a list rd" where
  "rmany 0 p = rret []"
| "rmany (Suc n) p = rbind p (\<lambda>x. rbind (rmany n p) (\<lambda>xs. rret (x # xs)))"

end
