(* ===== verification/Vm_Validate.thy ===== *)
theory Vm_Validate
  imports Vm_Numeric Vm_Reader
begin

text \<open>
  The one-pass validator and translator, \<open>crates/almide-wasm-vm/src/validate.rs\<close>: it reads a function
  body, checks every instruction against an operand stack of types and a stack of control frames,
  and emits the flat code with every branch resolved. The operand stack and the control stack are
  lists with their tops first, so the frame \<open>depth\<close> levels out is \<open>ctrls ! depth\<close>.
\<close>

subsection \<open>State\<close>

record body =
  b_locals :: nat
  b_params :: nat
  b_code :: "instr list"
  b_max :: nat

record ctx =
  c_types :: "func_type list"
  c_funcs :: "nat list"
  c_globals :: "(val_type \<times> bool) list"
  c_table :: bool
  c_memory :: bool

definition MAX_LOCALS :: nat where
  "MAX_LOCALS = 50000"

datatype block_kind = KFunc | KBlock | KLoop | KIf | KElse

record ctrl =
  ckind :: block_kind
  cres :: "val_type option"
  cheight :: nat
  cunreach :: bool
  cstart :: nat
  pending :: "nat list"
  if_jump :: "nat option"

text \<open>The runs of the locals, with exclusive ends.\<close>

type_synonym locals = "(nat \<times> val_type) list"

record tr =
  t_ctx :: ctx
  t_locals :: locals
  t_result :: "val_type option"
  stack :: "val_type option list"
  ctrls :: "ctrl list"
  code :: "instr list"
  maxh :: nat

text \<open>\<open>as u32\<close> of a \<open>usize\<close>.\<close>

definition as_u32 :: "nat \<Rightarrow> nat" where
  "as_u32 n = n mod 2 ^ 32"

subsection \<open>The translator's steps\<close>

text \<open>
  A step may refuse the module, or panic (an \<open>expect\<close> or \<open>unreachable!\<close> that fails, an index out of
  range); \<open>tbind\<close> is sequencing with early return.
\<close>

datatype 'a tres = TPanic | TErr load_error | TOk 'a tr rdr

type_synonym 'a tm = "tr \<Rightarrow> rdr \<Rightarrow> 'a tres"

definition tbind :: "'a tm \<Rightarrow> ('a \<Rightarrow> 'b tm) \<Rightarrow> 'b tm" where
  "tbind m f t r = (case m t r of TPanic \<Rightarrow> TPanic | TErr e \<Rightarrow> TErr e | TOk x t1 r1 \<Rightarrow> f x t1 r1)"

definition tret :: "'a \<Rightarrow> 'a tm" where
  "tret x t r = TOk x t r"

definition tseq :: "unit tm \<Rightarrow> 'b tm \<Rightarrow> 'b tm" where
  "tseq m k = tbind m (\<lambda>_. k)"

definition tfail :: "bytes \<Rightarrow> 'a tm" where
  "tfail why t r = TErr (LoadError (Some (r_offset r)) why)"

definition tread :: "'a rd \<Rightarrow> 'a tm" where
  "tread p t r = (case p r of Inl e \<Rightarrow> TErr e | Inr (x, r1) \<Rightarrow> TOk x t r1)"

definition tget :: "(tr \<Rightarrow> 'a) \<Rightarrow> 'a tm" where
  "tget f t r = TOk (f t) t r"

definition tmod :: "(tr \<Rightarrow> tr) \<Rightarrow> unit tm" where
  "tmod f t r = TOk () (f t) r"

definition tpanic :: "'a tm" where
  "tpanic t r = TPanic"

subsection \<open>Locals\<close>

text \<open>Their runs are read before the translation starts.\<close>

definition param_runs :: "val_type list \<Rightarrow> locals" where
  "param_runs ps = zip [1..<length ps + 1] ps"

definition run_end :: "locals \<Rightarrow> nat" where
  "run_end ls = (if ls = [] then 0 else fst (last ls))"

definition local_run :: "nat \<Rightarrow> locals \<Rightarrow> (nat \<times> locals) rd" where
  "local_run e ls =
     rbind ru32 (\<lambda>n r. rbind rbyte (\<lambda>b.
       case declared_type b of
         None \<Rightarrow> (\<lambda>_. Inl (LoadError (Some (r_offset r)) ''a local's type is outside i32/i64/f64''))
       | Some t \<Rightarrow>
           if e + n < 2 ^ 32 \<and> e + n \<le> MAX_LOCALS then rret (e + n, if 0 < n then ls @ [(e + n, t)] else ls)
           else rfail ''a body declares more than 50000 locals'') r)"

fun local_runs :: "nat \<Rightarrow> nat \<Rightarrow> locals \<Rightarrow> locals rd" where
  "local_runs 0 e ls = rret ls"
| "local_runs (Suc n) e ls = rbind (local_run e ls) (\<lambda>(e2, ls2). local_runs n e2 ls2)"

definition read_locals :: "func_type \<Rightarrow> locals rd" where
  "read_locals ty =
     rbind vec_len (\<lambda>n. local_runs n (length (params ty)) (param_runs (params ty)))"

text \<open>\<open>partition_point\<close> finds the first run that ends past the index.\<close>

definition local_get :: "locals \<Rightarrow> nat \<Rightarrow> val_type option" where
  "local_get ls i = map_option snd (find (\<lambda>(e, t). i < e) ls)"

subsection \<open>Operands\<close>

definition new_ctrl :: "block_kind \<Rightarrow> val_type option \<Rightarrow> nat \<Rightarrow> nat \<Rightarrow> ctrl" where
  "new_ctrl k res h s = \<lparr>ckind = k, cres = res, cheight = h, cunreach = False, cstart = s, pending = [], if_jump = None\<rparr>"

definition label_value :: "ctrl \<Rightarrow> val_type option" where
  "label_value c = (if ckind c = KLoop then None else cres c)"

definition top :: "ctrl tm" where
  "top t r = (case ctrls t of [] \<Rightarrow> TPanic | c # _ \<Rightarrow> TOk c t r)"

definition push :: "val_type option \<Rightarrow> unit tm" where
  "push v = tmod (\<lambda>t. t\<lparr>stack := v # stack t, maxh := max (maxh t) (length (stack t) + 1)\<rparr>)"

definition pop :: "val_type option tm" where
  "pop = tbind top (\<lambda>c. tbind (tget stack) (\<lambda>s.
     if length s = cheight c then
       (if cunreach c then tret None else tfail ''an instruction pops an empty operand stack'')
     else case s of
            [] \<Rightarrow> tret None
          | v # s2 \<Rightarrow> tseq (tmod (\<lambda>t. t\<lparr>stack := s2\<rparr>)) (tret v)))"

fun type_text :: "val_type \<Rightarrow> bytes" where
  "type_text I32 = ''I32''" | "type_text I64 = ''I64''" | "type_text F32 = ''F32''" | "type_text F64 = ''F64''"

definition pop_expect :: "val_type \<Rightarrow> unit tm" where
  "pop_expect want = tbind pop (\<lambda>v. case v of
     Some got \<Rightarrow>
       if got \<noteq> want then tfail (''an operand is '' @ type_text got @ '' where '' @ type_text want @ '' is required'')
       else tret ()
   | None \<Rightarrow> tret ())"

fun pop_all :: "val_type list \<Rightarrow> unit tm" where
  "pop_all [] = tret ()"
| "pop_all (p # ps) = tseq (pop_expect p) (pop_all ps)"

definition pop_params :: "func_type \<Rightarrow> unit tm" where
  "pop_params ty = pop_all (rev (params ty))"

text \<open>\<open>truncate\<close>: the \<open>h\<close> values at the bottom stay.\<close>

definition cut_to :: "nat \<Rightarrow> 'a list \<Rightarrow> 'a list" where
  "cut_to h s = drop (length s - h) s"

definition set_unreachable :: "unit tm" where
  "set_unreachable = tbind top (\<lambda>c. tmod (\<lambda>t.
     t\<lparr>stack := cut_to (cheight c) (stack t), ctrls := c\<lparr>cunreach := True\<rparr> # tl (ctrls t)\<rparr>))"

definition emit :: "instr \<Rightarrow> nat tm" where
  "emit i = tbind (tget (\<lambda>t. length (code t))) (\<lambda>n. tseq (tmod (\<lambda>t. t\<lparr>code := code t @ [i]\<rparr>)) (tret n))"

definition put_instr :: "instr \<Rightarrow> unit tm" where
  "put_instr i = tbind (emit i) (\<lambda>_. tret ())"

definition here :: "nat tm" where
  "here = tget (\<lambda>t. as_u32 (length (code t)))"

definition label :: "nat \<Rightarrow> ctrl tm" where
  "label depth = tbind (tget ctrls) (\<lambda>cs.
     if length cs \<le> depth then tfail ''a branch names a label that does not enclose it''
     else tret (cs ! depth))"

definition branch :: "nat \<Rightarrow> bool \<Rightarrow> unit tm" where
  "branch depth conditional = tbind (label depth) (\<lambda>c.
     let target = (if ckind c = KLoop then cstart c else 0);
         height = as_u32 (cheight c);
         keep = (label_value c \<noteq> None)
     in tbind (emit (if conditional then BrIf target height keep else Br target height keep)) (\<lambda>idx.
          if ckind c \<noteq> KLoop
          then tmod (\<lambda>t. t\<lparr>ctrls := (ctrls t)[depth := c\<lparr>pending := pending c @ [idx]\<rparr>]\<rparr>)
          else tret ()))"

definition block_type :: "val_type option rd" where
  "block_type r = rbind rbyte (\<lambda>b.
     if b = CHR 0x40 then rret None
     else case declared_type b of
            Some t \<Rightarrow> rret (Some t)
          | None \<Rightarrow> (\<lambda>_. Inl (LoadError (Some (r_offset r))
              ''a block type outside empty/i32/i64/f64 (multi-value or f32) is not accepted''))) r"

definition expect_value :: "val_type option \<Rightarrow> unit tm" where
  "expect_value v = (case v of None \<Rightarrow> tret () | Some t \<Rightarrow> pop_expect t)"

definition push_value :: "val_type option \<Rightarrow> unit tm" where
  "push_value v = (case v of None \<Rightarrow> tret () | Some t \<Rightarrow> push (Some t))"

definition check_block_end :: "unit tm" where
  "check_block_end = tbind top (\<lambda>c. tseq (expect_value (cres c)) (tbind top (\<lambda>c. tbind (tget stack) (\<lambda>s.
     if length s \<noteq> cheight c then tfail ''values remain on the operand stack at the end of a block''
     else tret ()))))"

fun retarget :: "instr \<Rightarrow> nat \<Rightarrow> instr option" where
  "retarget (Br t h k) to = Some (Br to h k)"
| "retarget (BrIf t h k) to = Some (BrIf to h k)"
| "retarget (BrUnless t) to = Some (BrUnless to)"
| "retarget _ to = None"

definition patch :: "nat \<Rightarrow> nat \<Rightarrow> unit tm" where
  "patch at to = tbind (tget code) (\<lambda>c.
     if length c \<le> at then tpanic
     else case retarget (c ! at) to of
            None \<Rightarrow> tpanic
          | Some i \<Rightarrow> tmod (\<lambda>t. t\<lparr>code := (code t)[at := i]\<rparr>))"

fun patch_all :: "nat list \<Rightarrow> nat \<Rightarrow> unit tm" where
  "patch_all [] to = tret ()"
| "patch_all (a # as) to = tseq (patch a to) (patch_all as to)"

definition pop_ctrl :: "ctrl tm" where
  "pop_ctrl = tbind top (\<lambda>c. tseq (tmod (\<lambda>t. t\<lparr>ctrls := tl (ctrls t)\<rparr>)) (tret c))"

definition push_ctrl :: "ctrl \<Rightarrow> unit tm" where
  "push_ctrl c = tmod (\<lambda>t. t\<lparr>ctrls := c # ctrls t\<rparr>)"

subsection \<open>Text of the refusals\<close>

text \<open>\<open>{:#x}\<close> of an unsigned number.\<close>

function hex_text :: "nat \<Rightarrow> bytes" where
  "hex_text n = (if n < 16 then [] else hex_text (n div 16)) @ [''0123456789abcdef'' ! (n mod 16)]"
  by pat_completeness auto
termination hex_text
  by (relation "measure id") auto

declare hex_text.simps [simp del]

definition outside_set :: "nat \<Rightarrow> 'a tm" where
  "outside_set n = tfail (''opcode 0x'' @ hex_text n @ '' is outside the instruction set this VM accepts'')"

subsection \<open>Instructions\<close>

text \<open>An opcode is the number of its byte.\<close>

definition need_memory :: "unit tm" where
  "need_memory = tbind (tget (\<lambda>t. c_memory (t_ctx t))) (\<lambda>b.
     if b then tret () else tfail ''a memory instruction in a module without a memory'')"

definition zero_index :: "unit tm" where
  "zero_index = tbind (tread ru32) (\<lambda>n.
     if n \<noteq> 0 then tfail ''a memory or table index is not 0'' else tret ())"

function trailing_zeros :: "nat \<Rightarrow> nat" where
  "trailing_zeros n = (if n = 0 then 8 else if even n then Suc (trailing_zeros (n div 2)) else 0)"
  by pat_completeness auto
termination trailing_zeros
  by (relation "measure id") auto

declare trailing_zeros.simps [simp del]

definition memarg :: "nat \<Rightarrow> nat tm" where
  "memarg n = tbind (tread ru32) (\<lambda>al. tbind (tread ru32) (\<lambda>offset. tseq need_memory (
     if trailing_zeros n < al then tfail ''a memory access claims more alignment than its width''
     else tret offset)))"

definition v_numeric :: "nan_choice \<Rightarrow> nat \<Rightarrow> unit tm" where
  "v_numeric pn c = (case lookup pn c of
     None \<Rightarrow> outside_set c
   | Some row \<Rightarrow>
       tseq (case n_semantics row of
               SUnary f \<Rightarrow> tseq (pop_expect (n_operand row)) (put_instr (Unary f))
             | SBinary f \<Rightarrow> tseq (pop_expect (n_operand row)) (tseq (pop_expect (n_operand row)) (put_instr (Binary f))))
            (push (Some (n_result row))))"

text \<open>\<open>iter().position\<close>.\<close>

definition position :: "('a \<Rightarrow> bool) \<Rightarrow> 'a list \<Rightarrow> nat option" where
  "position p xs = (let n = length (takeWhile (\<lambda>x. \<not> p x) xs) in if n < length xs then Some n else None)"

definition v_memory_or_numeric :: "nan_choice \<Rightarrow> nat \<Rightarrow> unit tm" where
  "v_memory_or_numeric pn op =
     (case position (\<lambda>l. l_code l = op) LOADS of
        Some i \<Rightarrow>
          tbind (memarg (l_bytes (LOADS ! i))) (\<lambda>offset.
            tseq (pop_expect I32) (tseq (push (Some (l_result (LOADS ! i)))) (put_instr (Load i offset))))
      | None \<Rightarrow>
          (case position (\<lambda>s. s_code s = op) STORES of
            Some i \<Rightarrow>
              tbind (memarg (s_bytes (STORES ! i))) (\<lambda>offset.
                tseq (pop_expect (s_value (STORES ! i))) (tseq (pop_expect I32) (put_instr (Store i offset))))
          | None \<Rightarrow> v_numeric pn op))"

definition v_prefixed :: "nan_choice \<Rightarrow> unit tm" where
  "v_prefixed pn = tbind (tread ru32) (\<lambda>s.
     if s = 10 \<or> s = 11 then
       tseq zero_index (tseq (if s = 10 then zero_index else tret ()) (tseq need_memory (
         tseq (pop_expect I32) (tseq (pop_expect I32) (tseq (pop_expect I32) (
           put_instr (if s = 10 then MemoryCopy else MemoryFill)))))))
     else if s \<le> 0xFF then v_numeric pn (0xFC00 + s)
     else tfail (''opcode 0xfc '' @ dec_string s @ '' is outside the instruction set this VM accepts''))"

definition v_variable :: "nat \<Rightarrow> unit tm" where
  "v_variable op = tbind (tread ru32) (\<lambda>i.
     if op \<le> 0x22 then
       tbind (tget (\<lambda>t. local_get (t_locals t) i)) (\<lambda>l. case l of
         None \<Rightarrow> tfail ''a local index is out of range''
       | Some ty \<Rightarrow>
           tseq (if op = 0x20 then push (Some ty)
                 else if op = 0x21 then pop_expect ty
                 else tseq (pop_expect ty) (push (Some ty)))
                (put_instr (if op = 0x20 then LocalGet i else if op = 0x21 then LocalSet i else LocalTee i)))
     else
       tbind (tget (\<lambda>t. sget (c_globals (t_ctx t)) i)) (\<lambda>g. case g of
         None \<Rightarrow> tfail ''a global index is out of range''
       | Some (ty, mut) \<Rightarrow>
           if op = 0x23 then tseq (push (Some ty)) (put_instr (GlobalGet i))
           else if \<not> mut then tfail ''global.set on an immutable global''
           else tseq (pop_expect ty) (put_instr (GlobalSet i))))"

definition first_result :: "func_type \<Rightarrow> val_type option" where
  "first_result ty = (case results ty of [] \<Rightarrow> None | t # _ \<Rightarrow> Some t)"

definition v_func_type :: "nat \<Rightarrow> func_type tm" where
  "v_func_type i =
     tbind (tget (\<lambda>t. Option.bind (sget (c_funcs (t_ctx t)) i) (sget (c_types (t_ctx t))))) (\<lambda>ty.
       case ty of Some f \<Rightarrow> tret f | None \<Rightarrow> tfail ''a call names a function that does not exist'')"

definition v_callee :: "bool \<Rightarrow> nat \<Rightarrow> func_type tm" where
  "v_callee indirect i =
     (if indirect then
        tseq zero_index (tbind (tget (\<lambda>t. c_table (t_ctx t))) (\<lambda>b.
          if \<not> b then tfail ''call_indirect in a module without a table''
          else tseq (pop_expect I32) (tbind (tget (\<lambda>t. sget (c_types (t_ctx t)) i)) (\<lambda>ty.
            case ty of Some f \<Rightarrow> tret f | None \<Rightarrow> tfail ''call_indirect names a type that does not exist''))))
      else v_func_type i)"

text \<open>The rest of a call once the callee's type is known.\<close>

definition v_call_rest :: "bool \<Rightarrow> bool \<Rightarrow> nat \<Rightarrow> func_type \<Rightarrow> unit tm" where
  "v_call_rest indirect tail i ty = tseq (pop_params ty) (
     if tail then
       tbind (tget t_result) (\<lambda>res.
         if first_result ty \<noteq> res then tfail ''a tail call's result differs from the caller's''
         else tseq (put_instr (ICall (if indirect then ReturnCallIndirect i else ReturnCall i))) set_unreachable)
     else
       tseq (push_value (first_result ty))
            (put_instr (ICall (if indirect then CallIndirect i else Call i))))"

definition v_call :: "nat \<Rightarrow> unit tm" where
  "v_call op =
     (let indirect = (op = 0x11 \<or> op = 0x13); tail = (op = 0x12 \<or> op = 0x13)
      in tbind (tread ru32) (\<lambda>i. tbind (v_callee indirect i) (v_call_rest indirect tail i)))"

definition v_else_of :: "ctrl \<Rightarrow> unit tm" where
  "v_else_of c =
     (let height = as_u32 (cheight c)
      in tbind (emit (Br 0 height (cres c \<noteq> None))) (\<lambda>jump. tbind here (\<lambda>h. tbind pop_ctrl (\<lambda>c.
           case if_jump c of
             None \<Rightarrow> tpanic
           | Some ij \<Rightarrow>
               tseq (push_ctrl (c\<lparr>pending := pending c @ [jump], if_jump := None, ckind := KElse, cunreach := False\<rparr>))
                 (tseq (patch ij h) (tmod (\<lambda>t. t\<lparr>stack := cut_to height (stack t)\<rparr>)))))))"

definition v_else :: "unit tm" where
  "v_else = tbind top (\<lambda>c.
     if ckind c \<noteq> KIf then tfail ''`else` without an enclosing `if`''
     else tseq check_block_end (tbind top v_else_of))"

definition v_end_of :: "ctrl \<Rightarrow> unit tm" where
  "v_end_of c =
     (if ckind c = KIf \<and> cres c \<noteq> None then tfail ''an `if` without `else` cannot produce a value''
      else if ckind c = KFunc then
        tbind here (\<lambda>h. tbind pop_ctrl (\<lambda>c. tseq (patch_all (pending c) h) (
          tseq (push_value (cres c)) (put_instr (ICall Return)))))
      else
        tbind here (\<lambda>h. tbind pop_ctrl (\<lambda>c.
          tseq (case if_jump c of Some a \<Rightarrow> patch a h | None \<Rightarrow> tret ()) (
            tseq (patch_all (pending c) h) (push_value (cres c))))))"

definition v_end :: "unit tm" where
  "v_end = tseq check_block_end (tbind top v_end_of)"

definition label_type :: "nat \<Rightarrow> val_type option tm" where
  "label_type depth = tbind (label depth) (\<lambda>c. tret (label_value c))"

definition v_br_if :: "unit tm" where
  "v_br_if = tbind (tread ru32) (\<lambda>depth. tseq (pop_expect I32) (tbind (label_type depth) (\<lambda>v.
     tseq (expect_value v) (tseq (push_value v) (branch depth True)))))"

definition branch_value :: "nat \<Rightarrow> unit tm" where
  "branch_value depth = tbind (label_type depth) expect_value"

definition v_block :: "block_kind \<Rightarrow> unit tm" where
  "v_block k = tbind (tread block_type) (\<lambda>bt. tbind (tget (\<lambda>t. length (stack t))) (\<lambda>height. tbind here (\<lambda>start.
     push_ctrl (new_ctrl k bt height start))))"

definition v_if :: "unit tm" where
  "v_if = tbind (tread block_type) (\<lambda>bt. tseq (pop_expect I32) (tbind (emit (BrUnless 0)) (\<lambda>jump.
     tbind (tget (\<lambda>t. length (stack t))) (\<lambda>height.
       push_ctrl ((new_ctrl KIf bt height 0)\<lparr>if_jump := Some jump\<rparr>)))))"

definition v_control :: "nat \<Rightarrow> unit tm" where
  "v_control op =
     (if op = 0x00 then tseq (put_instr Unreachable) set_unreachable
      else if op = 0x02 then v_block KBlock
      else if op = 0x03 then v_block KLoop
      else if op = 0x04 then v_if
      else if op = 0x05 then v_else
      else if op = 0x0B then v_end
      else if op = 0x0C then
        tbind (tread ru32) (\<lambda>depth. tseq (branch_value depth) (tseq (branch depth False) set_unreachable))
      else if op = 0x0D then v_br_if
      else if op = 0x0F then
        tbind (tget t_result) (\<lambda>res. tseq (expect_value res) (tseq (put_instr (ICall Return)) set_unreachable))
      else if op = 0x10 \<or> op = 0x11 \<or> op = 0x12 \<or> op = 0x13 then v_call op
      else outside_set op)"

definition v_select :: "unit tm" where
  "v_select = tseq (pop_expect I32) (tbind pop (\<lambda>a. tbind pop (\<lambda>b.
     if a \<noteq> None \<and> b \<noteq> None \<and> a \<noteq> b then tfail ''select's operands differ in type''
     else tseq (push (case a of None \<Rightarrow> b | Some _ \<Rightarrow> a)) (put_instr Select))))"

definition v_memory_size_or_grow :: "nat \<Rightarrow> unit tm" where
  "v_memory_size_or_grow op = tseq zero_index (tseq need_memory (
     tseq (if op = 0x40 then pop_expect I32 else tret ()) (
       tseq (push (Some I32)) (put_instr (if op = 0x3F then MemorySize else MemoryGrow)))))"

definition v_constant :: "nat \<Rightarrow> unit tm" where
  "v_constant op =
     tbind (if op = 0x41 then tbind (tread ri32) (\<lambda>v. tret (I32, c32 v))
            else if op = 0x42 then tbind (tread ri64) (\<lambda>v. tret (I64, v))
            else tbind (tread f64_bits) (\<lambda>v. tret (F64, v)))
       (\<lambda>(ty, v). tseq (push (Some ty)) (put_instr (Const v)))"

definition v_op :: "nan_choice \<Rightarrow> nat \<Rightarrow> unit tm" where
  "v_op pn op =
     (if op \<le> 0x13 then v_control op
      else if op = 0x1A then tbind pop (\<lambda>_. put_instr Drop)
      else if op = 0x1B then v_select
      else if 0x20 \<le> op \<and> op \<le> 0x24 then v_variable op
      else if op = 0x3F \<or> op = 0x40 then v_memory_size_or_grow op
      else if op = 0x41 \<or> op = 0x42 \<or> op = 0x44 then v_constant op
      else if op = 0xFC then v_prefixed pn
      else v_memory_or_numeric pn op)"

end
