(* ===== verification/Vm_Translate.thy ===== *)
theory Vm_Translate
  imports Vm_Validate
begin

text \<open>
  The translator's loop, \<open>translate\<close> of \<open>crates/almide-wasm-vm/src/validate.rs\<close>, and the graded
  relations every step of it keeps. The locale \<open>graded_steps\<close> follows the source's operations once,
  adding up what the primitive steps cost; its interpretations show that an operation only moves
  the cursor forward and leaves the context alone, and that it emits at most one instruction and
  pushes at most one operand. The loop ends because each turn reads an opcode byte.
\<close>

subsection \<open>Decoders move forward\<close>

definition ahead :: "rdr \<Rightarrow> rdr \<Rightarrow> bool" where
  "ahead r r1 \<longleftrightarrow> r_bytes r1 = r_bytes r \<and> r_base r1 = r_base r \<and> r_pos r \<le> r_pos r1 \<and>
     (r_pos r \<le> length (r_bytes r) \<longrightarrow> r_pos r1 \<le> length (r_bytes r1))"

definition reads :: "'a rd \<Rightarrow> bool" where
  "reads p \<longleftrightarrow> (\<forall>r x r1. p r = Inr (x, r1) \<longrightarrow> ahead r r1)"

named_theorems reading

lemma ahead_refl: "ahead r r"
  by (simp add: ahead_def)

lemma ahead_trans: "ahead r r1 \<Longrightarrow> ahead r1 r2 \<Longrightarrow> ahead r r2"
  by (auto simp: ahead_def)

lemma reads_bind [reading]:
  assumes "reads p" and "\<And>x. reads (f x)"
  shows "reads (rbind p f)"
  unfolding reads_def
proof (intro allI impI)
  fix r x r1
  assume "rbind p f r = Inr (x, r1)"
  then obtain y r2 where "p r = Inr (y, r2)" and "f y r2 = Inr (x, r1)"
    by (auto simp: rbind_def split: sum.splits)
  then show "ahead r r1"
    using assms ahead_trans[of r r2 r1] by (auto simp: reads_def)
qed

lemma reads_ret [reading]: "reads (rret x)"
  by (simp add: reads_def rret_def ahead_refl)

lemma reads_fail [reading]: "reads (rfail w)" "reads (\<lambda>_. Inl e)"
  by (simp_all add: reads_def rfail_def)

lemma reads_if [reading]: "reads p \<Longrightarrow> reads q \<Longrightarrow> reads (if b then p else q)"
  by simp

lemma reads_option [reading]:
  "reads p \<Longrightarrow> (\<And>x. reads (f x)) \<Longrightarrow> reads (case v of None \<Rightarrow> p | Some x \<Rightarrow> f x)"
  by (cases v) simp_all

lemma reads_prod [reading]: "(\<And>x y. reads (f x y)) \<Longrightarrow> reads (case v of (x, y) \<Rightarrow> f x y)"
  by (cases v) simp

lemma reads_let [reading]: "(\<And>x. reads (f x)) \<Longrightarrow> reads (let x = v in f x)"
  by simp

text \<open>A decoder that looks at the cursor itself.\<close>

lemma reads_self:
  assumes "\<And>s. reads (\<lambda>r. f s r)"
  shows "reads (\<lambda>r. f r r)"
  using assms by (auto simp: reads_def)

lemma rbyte_next: "rbyte r = Inr (b, r1) \<Longrightarrow> ahead r r1 \<and> r_pos r < r_pos r1 \<and> r_pos r < length (r_bytes r)"
  by (auto simp: rbyte_def rfail_def ahead_def sget_def split: option.splits if_splits)

lemma reads_byte [reading]: "reads rbyte"
  using rbyte_next by (auto simp: reads_def)

lemma reads_take [reading]: "reads (rtake n)"
  by (auto simp: reads_def rtake_def rfail_def ahead_def checked_add_usize_def split: option.splits if_splits)

lemma reads_sub [reading]: "reads (rsub n)"
  unfolding rsub_def [abs_def] by (rule reads_self) (intro reading)

lemma reads_uleb [reading]: "reads (uleb n)"
proof -
  have "reads (uleb_loop n i k acc)" for i k acc
    by (induction k arbitrary: i acc) (simp_all add: reading Let_def)
  then show ?thesis by (simp add: uleb_def)
qed

lemma reads_sleb [reading]: "reads (sleb n)"
proof -
  have "reads (sleb_loop n i k acc)" for i k acc
    by (induction k arbitrary: i acc) (simp_all add: reading Let_def)
  then show ?thesis by (simp add: sleb_def)
qed

lemma reads_numbers [reading]: "reads ru32" "reads ri32" "reads ri64" "reads f64_bits"
  unfolding ru32_def ri32_def ri64_def f64_bits_def by (intro reading)+

lemma reads_vec_len [reading]: "reads vec_len"
  unfolding vec_len_def
  by (intro reading) (auto simp: reads_def rfail_def ahead_refl split: if_splits)

lemma reads_name [reading]: "reads rname"
proof -
  have cut: "reads (\<lambda>r. rbind (rtake n) (\<lambda>b r1. if utf8_ok b then Inr (b, r1)
      else Inl (LoadError (Some (r_offset s)) ''a name is not valid UTF-8'')) r)" for n s
    by (intro reading) (auto simp: reads_def ahead_refl split: if_splits)
  show ?thesis
    unfolding rname_def by (rule reads_bind [OF reads_vec_len]) (use cut in \<open>simp add: reads_def\<close>)
qed

lemma reads_many [reading]: "reads p \<Longrightarrow> reads (rmany n p)"
  by (induction n) (simp_all add: reading)

lemma reads_block_type [reading]: "reads block_type"
  unfolding block_type_def [abs_def] by (rule reads_self) (intro reading)

lemma reads_locals [reading]: "reads (read_locals ty)"
proof -
  have run: "reads (local_run e ls)" for e ls
  proof -
    have cut: "reads (\<lambda>r. rbind rbyte (\<lambda>b. case declared_type b of
         None \<Rightarrow> (\<lambda>_. Inl (LoadError (Some (r_offset s)) ''a local's type is outside i32/i64/f64''))
       | Some t \<Rightarrow>
           if e + n < 2 ^ 32 \<and> e + n \<le> MAX_LOCALS then rret (e + n, if 0 < n then ls @ [(e + n, t)] else ls)
           else rfail ''a body declares more than 50000 locals'') r)" for n s
      by (intro reading)
    show ?thesis
      unfolding local_run_def by (rule reads_bind [OF reads_numbers(1)]) (use cut in \<open>simp add: reads_def\<close>)
  qed
  have "reads (local_runs n e ls)" for n e ls
    by (induction n e ls rule: local_runs.induct) (auto intro!: reading run)
  then show ?thesis
    unfolding read_locals_def by (intro reading)
qed

subsection \<open>Graded relations that steps keep\<close>

definition stepped :: "(nat \<Rightarrow> tr \<times> rdr \<Rightarrow> tr \<times> rdr \<Rightarrow> bool) \<Rightarrow> nat \<Rightarrow> 'a tm \<Rightarrow> bool" where
  "stepped R n m \<longleftrightarrow> (\<forall>t r x t1 r1. m t r = TOk x t1 r1 \<longrightarrow> R n (t, r) (t1, r1))"

text \<open>
  A family of relations that adds its grades along a sequence of steps; \<open>ce\<close> and \<open>cp\<close> are what
  emitting an instruction and pushing an operand cost, and the other primitive steps cost nothing.
\<close>

locale graded_steps =
  fixes R :: "nat \<Rightarrow> tr \<times> rdr \<Rightarrow> tr \<times> rdr \<Rightarrow> bool"
    and ce cp :: nat
  assumes stays: "R 0 s s"
    and chains: "R a s1 s2 \<Longrightarrow> R b s2 s3 \<Longrightarrow> R (a + b) s1 s3"
    and weakens: "R a s1 s2 \<Longrightarrow> a \<le> b \<Longrightarrow> R b s1 s2"
    and moves: "ahead r r1 \<Longrightarrow> R 0 (t, r) (t, r1)"
    and emits: "R ce (t, r) (t\<lparr>code := code t @ [i]\<rparr>, r)"
    and pushes: "R cp (t, r) (t\<lparr>stack := v # stack t, maxh := max (maxh t) (Suc (length (stack t)))\<rparr>, r)"
    and pops: "length vs \<le> length (stack t) \<Longrightarrow> R 0 (t, r) (t\<lparr>stack := vs\<rparr>, r)"
    and patches: "length c = length (code t) \<Longrightarrow> R 0 (t, r) (t\<lparr>code := c\<rparr>, r)"
    and frames: "R 0 (t, r) (t\<lparr>ctrls := cs\<rparr>, r)"
begin

lemma st_bind:
  assumes "stepped R a m" and "\<And>x. stepped R b (f x)"
  shows "stepped R (a + b) (tbind m f)"
  unfolding stepped_def
proof (intro allI impI)
  fix t r x t1 r1
  assume "tbind m f t r = TOk x t1 r1"
  then obtain y t2 r2 where "m t r = TOk y t2 r2" and "f y t2 r2 = TOk x t1 r1"
    by (auto simp: tbind_def split: tres.splits)
  then show "R (a + b) (t, r) (t1, r1)"
    using assms chains[of a "(t, r)" "(t2, r2)" b "(t1, r1)"] by (auto simp: stepped_def)
qed

lemma st_seq: "stepped R a m \<Longrightarrow> stepped R b k \<Longrightarrow> stepped R (a + b) (tseq m k)"
  by (simp add: tseq_def st_bind)

lemma st_weaken: "stepped R a m \<Longrightarrow> a \<le> b \<Longrightarrow> stepped R b m"
  unfolding stepped_def by (blast intro: weakens)

lemma st_if: "stepped R a m \<Longrightarrow> stepped R b k \<Longrightarrow> stepped R (max a b) (if c then m else k)"
  by (auto intro: st_weaken)

lemma st_option:
  assumes "stepped R a m" and "\<And>x. stepped R b (f x)"
  shows "stepped R (max a b) (case v of None \<Rightarrow> m | Some x \<Rightarrow> f x)"
  using assms by (cases v) (auto intro: st_weaken [where a = a] st_weaken [where a = b])

lemma st_prod: "(\<And>x y. stepped R a (f x y)) \<Longrightarrow> stepped R a (case v of (x, y) \<Rightarrow> f x y)"
  by (cases v) simp

lemma st_let: "(\<And>x. stepped R a (f x)) \<Longrightarrow> stepped R a (let x = v in f x)"
  by simp

lemma st_semantics:
  assumes "\<And>f. stepped R a (g f)" and "\<And>f. stepped R b (h f)"
  shows "stepped R (max a b) (case v of SUnary f \<Rightarrow> g f | SBinary f \<Rightarrow> h f)"
  using assms by (cases v) (auto intro: st_weaken [where a = a] st_weaken [where a = b])

lemma st_still:
  "stepped R 0 (tret x)" "stepped R 0 (tfail w)" "stepped R 0 (tget g)" "stepped R 0 tpanic" "stepped R 0 top"
  "stepped R 0 (outside_set n)" "stepped R 0 here"
  by (auto simp: stepped_def tret_def tfail_def tget_def tpanic_def top_def outside_set_def here_def stays
      split: list.splits)

lemma st_read: "reads p \<Longrightarrow> stepped R 0 (tread p)"
  by (auto simp: stepped_def tread_def reads_def moves split: sum.splits)

lemma st_emit: "stepped R ce (emit i)"
  by (auto simp: stepped_def emit_def tbind_def tseq_def tget_def tmod_def tret_def emits)

lemma st_push: "stepped R cp (push v)"
  by (auto simp: stepped_def push_def tmod_def pushes)

lemma st_frame: "stepped R 0 (push_ctrl c)" "stepped R 0 pop_ctrl"
  by (auto simp: stepped_def push_ctrl_def pop_ctrl_def top_def tbind_def tseq_def tmod_def tret_def frames
      split: list.splits)

lemma st_trunc: "stepped R 0 (tmod (\<lambda>t. t\<lparr>stack := cut_to h (stack t)\<rparr>))"
  by (auto simp: stepped_def tmod_def cut_to_def pops)

lemma st_unreach: "stepped R 0 set_unreachable"
  unfolding stepped_def
proof (intro allI impI)
  fix t r x t1 r1
  assume "set_unreachable t r = TOk x t1 r1"
  then obtain c where t1: "t1 = (t\<lparr>stack := cut_to (cheight c) (stack t)\<rparr>)\<lparr>ctrls := c\<lparr>cunreach := True\<rparr> # tl (ctrls t)\<rparr>"
    and r1: "r1 = r"
    by (auto simp: set_unreachable_def tbind_def top_def tmod_def split: list.splits)
  have "R (0 + 0) (t, r) (t1, r1)"
    unfolding t1 r1 by (rule chains [OF pops frames]) (simp add: cut_to_def)
  then show "R 0 (t, r) (t1, r1)" by simp
qed

lemma st_pop: "stepped R 0 pop"
proof -
  have "stepped R 0 (\<lambda>t r. (case stack t of [] \<Rightarrow> tret None
          | v # s2 \<Rightarrow> tseq (tmod (\<lambda>t. t\<lparr>stack := s2\<rparr>)) (tret v)) t r)"
    by (auto simp: stepped_def tseq_def tbind_def tmod_def tret_def stays pops split: list.splits)
  then show ?thesis
    by (auto simp: stepped_def pop_def tbind_def tget_def top_def tret_def tfail_def tseq_def tmod_def stays
        split: list.splits if_splits)
qed

lemma st_patch: "stepped R 0 (patch a b)"
  by (auto simp: stepped_def patch_def tbind_def tget_def tpanic_def tmod_def patches split: option.splits if_splits)

lemmas st_rules = st_bind st_seq st_if st_option st_prod st_let st_semantics st_still st_read reading
  st_emit st_push st_frame st_trunc st_unreach st_pop st_patch

lemma st_expect: "stepped R 0 (pop_expect w)"
  unfolding pop_expect_def by (rule st_weaken, (rule st_rules)+) simp

lemma st_params: "stepped R 0 (pop_params ty)"
proof -
  have "stepped R 0 (pop_all ps)" for ps
    by (induction ps) (auto intro: st_still st_expect st_weaken [OF st_seq])
  then show ?thesis by (simp add: pop_params_def)
qed

lemma st_patch_all: "stepped R 0 (patch_all ps h)"
  by (induction ps) (auto intro: st_still st_patch st_weaken [OF st_seq])

lemma st_put: "stepped R ce (put_instr i)"
  unfolding put_instr_def by (rule st_weaken, (rule st_rules)+) simp

lemma st_values: "stepped R 0 (expect_value v)" "stepped R cp (push_value v)"
  unfolding expect_value_def push_value_def by (rule st_weaken, (rule st_rules st_expect)+, simp)+

lemma st_label: "stepped R 0 (label d)"
  unfolding label_def by (rule st_weaken, (rule st_rules)+) simp

lemma st_branch: "stepped R ce (branch d b)"
proof -
  have put: "stepped R 0 (tmod (\<lambda>t. t\<lparr>ctrls := (ctrls t)[d := c]\<rparr>))" for c
    by (auto simp: stepped_def tmod_def frames)
  show ?thesis
    unfolding branch_def by (rule st_weaken, (rule st_rules put st_label)+) simp
qed

lemmas st_helpers = st_expect st_params st_patch_all st_put st_values st_label st_branch

lemma st_indices: "stepped R 0 need_memory" "stepped R 0 zero_index"
  unfolding need_memory_def zero_index_def by (rule st_weaken, (rule st_rules)+, simp)+

lemma st_memarg: "stepped R 0 (memarg n)"
  unfolding memarg_def by (rule st_weaken, (rule st_rules st_indices)+) simp

lemma st_numeric: "stepped R (ce + cp) (v_numeric pn n)"
  unfolding v_numeric_def by (rule st_weaken, (rule st_rules st_helpers)+) simp

lemma st_memory_or_numeric: "stepped R (ce + cp) (v_memory_or_numeric pn n)"
  unfolding v_memory_or_numeric_def by (rule st_weaken, (rule st_rules st_helpers st_memarg st_numeric)+) simp

lemma st_prefixed: "stepped R (ce + cp) (v_prefixed pn)"
  unfolding v_prefixed_def by (rule st_weaken, (rule st_rules st_helpers st_indices st_numeric)+) simp

lemma st_variable: "stepped R (ce + cp) (v_variable n)"
  unfolding v_variable_def by (rule st_weaken, (rule st_rules st_helpers)+) simp

lemma st_callee: "stepped R 0 (v_callee b i)"
  unfolding v_callee_def v_func_type_def by (rule st_weaken, (rule st_rules st_helpers st_indices)+) simp

lemma st_call: "stepped R (ce + cp) (v_call n)"
  unfolding v_call_def v_call_rest_def by (rule st_weaken, (rule st_rules st_helpers st_callee)+) simp

lemma st_else: "stepped R (ce + cp) v_else"
proof -
  have chk: "stepped R 0 check_block_end"
    unfolding check_block_end_def by (rule st_weaken, (rule st_rules st_helpers)+) simp
  show ?thesis
    unfolding v_else_def v_else_of_def by (rule st_weaken, (rule chk st_rules st_helpers)+) simp
qed

lemma st_end: "stepped R (ce + cp) v_end"
proof -
  have chk: "stepped R 0 check_block_end"
    unfolding check_block_end_def by (rule st_weaken, (rule st_rules st_helpers)+) simp
  show ?thesis
    unfolding v_end_def v_end_of_def by (rule st_weaken, (rule chk st_rules st_helpers)+) simp
qed

lemma st_branches: "stepped R (ce + cp) v_br_if" "stepped R 0 (branch_value n)"
  unfolding v_br_if_def branch_value_def label_type_def by (rule st_weaken, (rule st_rules st_helpers)+, simp)+

lemma st_blocks: "stepped R (ce + cp) (v_block k)" "stepped R (ce + cp) v_if"
  unfolding v_block_def v_if_def by (rule st_weaken, (rule st_rules st_helpers)+, simp)+

lemma st_control: "stepped R (ce + cp) (v_control n)"
  unfolding v_control_def
  by (rule st_weaken, (rule st_branches st_blocks st_else st_end st_call st_rules st_helpers)+) simp

lemma st_select: "stepped R (ce + cp) v_select"
  unfolding v_select_def by (rule st_weaken, (rule st_rules st_helpers)+) simp

lemma st_memory_size: "stepped R (ce + cp) (v_memory_size_or_grow n)"
  unfolding v_memory_size_or_grow_def by (rule st_weaken, (rule st_indices st_rules st_helpers)+) simp

lemma st_constant: "stepped R (ce + cp) (v_constant n)"
  unfolding v_constant_def by (rule st_weaken, (rule st_rules st_helpers)+) simp

lemma st_op: "stepped R (ce + cp) (v_op pn n)"
  unfolding v_op_def
  by (rule st_weaken, (rule st_control st_select st_variable st_memory_size st_constant st_prefixed
        st_memory_or_numeric st_put st_rules)+) simp

end

subsection \<open>What an operation does to the cursor, the context and the sizes\<close>

definition onward :: "nat \<Rightarrow> tr \<times> rdr \<Rightarrow> tr \<times> rdr \<Rightarrow> bool" where
  "onward n s s1 \<longleftrightarrow> ahead (snd s) (snd s1) \<and> t_ctx (fst s1) = t_ctx (fst s) \<and>
     t_locals (fst s1) = t_locals (fst s) \<and> t_result (fst s1) = t_result (fst s)"

definition emitted :: "nat \<Rightarrow> tr \<times> rdr \<Rightarrow> tr \<times> rdr \<Rightarrow> bool" where
  "emitted n s s1 \<longleftrightarrow> length (code (fst s)) \<le> length (code (fst s1)) \<and>
     length (code (fst s1)) \<le> length (code (fst s)) + n"

definition peak :: "tr \<Rightarrow> nat" where
  "peak t = max (maxh t) (length (stack t))"

definition grown :: "nat \<Rightarrow> tr \<times> rdr \<Rightarrow> tr \<times> rdr \<Rightarrow> bool" where
  "grown n s s1 \<longleftrightarrow> peak (fst s1) \<le> peak (fst s) + n"

interpretation cursor: graded_steps onward 0 0
  by unfold_locales (auto simp: onward_def ahead_refl intro: ahead_trans)

interpretation code_size: graded_steps emitted 1 0
  by unfold_locales (auto simp: emitted_def)

interpretation stack_size: graded_steps grown 0 1
  by unfold_locales (auto simp: grown_def peak_def)

lemma op_onward: "v_op pn n t r = TOk x t1 r1 \<Longrightarrow> onward 0 (t, r) (t1, r1)"
  using cursor.st_op[of pn n] by (simp add: stepped_def)

lemma op_emits_one: "v_op pn n t r = TOk x t1 r1 \<Longrightarrow> length (code t1) \<le> length (code t) + 1"
  using code_size.st_op[of pn n] by (fastforce simp: stepped_def emitted_def)

lemma op_pushes_one: "v_op pn n t r = TOk x t1 r1 \<Longrightarrow> peak t1 \<le> peak t + 1"
  using stack_size.st_op[of pn n] by (fastforce simp: stepped_def grown_def)

subsection \<open>The loop\<close>

function translate_loop :: "nan_choice \<Rightarrow> tr \<Rightarrow> rdr \<Rightarrow> unit tres" where
  "translate_loop pn t r =
     (if ctrls t = [] then TOk () t r
      else case rbyte r of
             Inl e \<Rightarrow> TErr e
           | Inr (b, r1) \<Rightarrow>
               (case v_op pn (of_char b) t r1 of
                  TOk _ t2 r2 \<Rightarrow> translate_loop pn t2 r2
                | TErr e \<Rightarrow> TErr e
                | TPanic \<Rightarrow> TPanic))"
  by pat_completeness auto
termination translate_loop
proof (relation "measure (\<lambda>(pn, t, r). length (r_bytes r) - r_pos r)", goal_cases)
  case 1
  show ?case by simp
next
  case (2 pn t r a b r1 u t2 r2)
  have "ahead r r1" and "r_pos r < r_pos r1" and "r_pos r < length (r_bytes r)"
    using rbyte_next[of r b r1] 2 by auto
  moreover have "ahead r1 r2"
    using op_onward[of pn "of_char b" t r1 u t2 r2] 2 by (simp add: onward_def)
  ultimately show ?case
    by (auto simp: ahead_def)
qed

declare translate_loop.simps [simp del]

definition start_tr :: "ctx \<Rightarrow> func_type \<Rightarrow> locals \<Rightarrow> tr" where
  "start_tr c ty ls =
     \<lparr>t_ctx = c, t_locals = ls, t_result = first_result ty, stack = [],
      ctrls = [new_ctrl KFunc (first_result ty) 0 0], code = [], maxh = 0\<rparr>"

text \<open>\<open>None\<close> is a panic.\<close>

definition translate :: "nan_choice \<Rightarrow> ctx \<Rightarrow> func_type \<Rightarrow> rdr \<Rightarrow> (load_error + body) option" where
  "translate pn c ty r =
     (case read_locals ty r of
        Inl e \<Rightarrow> Some (Inl e)
      | Inr (ls, r1) \<Rightarrow>
          (case translate_loop pn (start_tr c ty ls) r1 of
             TPanic \<Rightarrow> None
           | TErr e \<Rightarrow> Some (Inl e)
           | TOk _ t r2 \<Rightarrow>
               if \<not> at_rend r2
               then Some (Inl (LoadError (Some (r_offset r2)) ''bytes follow the function's final `end`''))
               else Some (Inr \<lparr>b_locals = run_end ls, b_params = length (params ty), b_code = code t,
                               b_max = as_u32 (maxh t)\<rparr>)))"

end
