(* ===== verification/Vm_Module.thy ===== *)
theory Vm_Module
  imports Vm_Translate
begin

text \<open>
  Decoding a module, \<open>crates/almide-wasm-vm/src/module.rs\<close>: the sections in their order, each
  decoded into a draft, and the checks across sections. Every refusal is a load error with its
  offset and text; \<open>None\<close> stands for a panic, of an index out of range or of a subtraction.
\<close>

subsection \<open>Host functions\<close>

datatype host_fn = FdWrite | ProcExit | RandomGet | ClockTimeGet | FdRead

definition host_module :: bytes where
  "host_module = ''wasi_snapshot_preview1''"

definition by_name :: "bytes \<Rightarrow> host_fn option" where
  "by_name name =
     (if name = ''fd_write'' then Some FdWrite
      else if name = ''proc_exit'' then Some ProcExit
      else if name = ''random_get'' then Some RandomGet
      else if name = ''clock_time_get'' then Some ClockTimeGet
      else if name = ''fd_read'' then Some FdRead
      else None)"

fun host_name :: "host_fn \<Rightarrow> bytes" where
  "host_name FdWrite = ''fd_write''"
| "host_name ProcExit = ''proc_exit''"
| "host_name RandomGet = ''random_get''"
| "host_name ClockTimeGet = ''clock_time_get''"
| "host_name FdRead = ''fd_read''"

definition fn_type :: "val_type list \<Rightarrow> val_type list \<Rightarrow> func_type" where
  "fn_type ps rs = \<lparr>params = ps, results = rs\<rparr>"

fun signature :: "host_fn \<Rightarrow> func_type" where
  "signature FdWrite = fn_type [I32, I32, I32, I32] [I32]"
| "signature FdRead = fn_type [I32, I32, I32, I32] [I32]"
| "signature ProcExit = fn_type [I32] []"
| "signature RandomGet = fn_type [I32, I32] [I32]"
| "signature ClockTimeGet = fn_type [I32, I64, I32] [I32]"

subsection \<open>Modules\<close>

record global =
  g_ty :: val_type
  g_mut :: bool
  g_init :: cell

record 'a segment =
  seg_offset :: nat
  seg_items :: "'a list"

record module =
  m_types :: "func_type list"
  m_imports :: "host_fn list"
  m_funcs :: "nat list"
  m_table :: "nat option"
  m_memory :: "(nat \<times> nat option) option"
  m_globals :: "global list"
  m_elements :: "nat segment list"
  m_data :: "byte segment list"
  m_bodies :: "body list"
  m_entry :: nat

definition PAGE :: nat where "PAGE = 65536"
definition MAX_PAGES :: nat where "MAX_PAGES = 65536"
definition MAX_PARAMS :: nat where "MAX_PARAMS = 1000"
definition MAX_TABLE :: nat where "MAX_TABLE = 2 ^ 20"

record draft =
  d_types :: "func_type list"
  d_imports :: "host_fn list"
  d_funcs :: "nat list"
  d_table :: "nat option"
  d_memory :: "(nat \<times> nat option) option"
  d_globals :: "global list"
  d_entry :: "nat option"
  d_exported :: bool
  d_names :: "bytes list"
  d_elements :: "nat segment list"
  d_data :: "byte segment list"
  d_count :: "nat option"
  d_bodies :: "body list"
  d_code_seen :: bool

definition new_draft :: draft where
  "new_draft =
     \<lparr>d_types = [], d_imports = [], d_funcs = [], d_table = None, d_memory = None, d_globals = [],
      d_entry = None, d_exported = False, d_names = [], d_elements = [], d_data = [], d_count = None,
      d_bodies = [], d_code_seen = False\<rparr>"

subsection \<open>Parts of sections\<close>

text \<open>A loop \<open>for _ in 0..n\<close> whose body updates a state.\<close>

fun rfor :: "nat \<Rightarrow> ('s \<Rightarrow> 's rd) \<Rightarrow> 's \<Rightarrow> 's rd" where
  "rfor 0 f d = rret d"
| "rfor (Suc n) f d = rbind (f d) (rfor n f)"

definition value_type :: "val_type rd" where
  "value_type r = rbind rbyte (\<lambda>b. case declared_type b of
       Some t \<Rightarrow> rret t
     | None \<Rightarrow> (\<lambda>_. Inl (LoadError (Some (r_offset r)) ''a type is outside i32/i64/f64''))) r"

definition value_types :: "val_type list rd" where
  "value_types = rbind vec_len (\<lambda>n. rmany n value_type)"

definition limits :: "(nat \<times> nat option) rd" where
  "limits = rbind rbyte (\<lambda>b.
     if b = CHR 0x00 then rbind ru32 (\<lambda>lo. rret (lo, None))
     else if b = CHR 0x01 then rbind ru32 (\<lambda>lo. rbind ru32 (\<lambda>hi. rret (lo, Some hi)))
     else rfail ''shared, 64-bit and custom-page memories are not accepted'')"

definition const_expr :: "val_type \<Rightarrow> cell rd" where
  "const_expr ty = rbind rbyte (\<lambda>b.
     rbind (if b = CHR 0x41 \<and> ty = I32 then rbind ri32 (\<lambda>v. rret (c32 v))
            else if b = CHR 0x42 \<and> ty = I64 then ri64
            else if b = CHR 0x44 \<and> ty = F64 then f64_bits
            else rfail ''a constant expression is not a single constant of the expected type'') (\<lambda>v.
       rbind rbyte (\<lambda>e.
         if e \<noteq> CHR 0x0B then rfail ''a constant expression does not end after its constant'' else rret v)))"

subsection \<open>Sections\<close>

definition one_type :: "draft \<Rightarrow> draft rd" where
  "one_type d = rbind rbyte (\<lambda>b.
     if b \<noteq> CHR 0x60 then rfail ''a type is not a function type''
     else rbind value_types (\<lambda>ps.
       if MAX_PARAMS < length ps then rfail ''a function type has more than 1000 params''
       else rbind value_types (\<lambda>rs.
         if 1 < length rs
         then rfail ''a function type returns more than one value (multi-value is not accepted)''
         else rret (d\<lparr>d_types := d_types d @ [fn_type ps rs]\<rparr>))))"

definition type_section :: "draft \<Rightarrow> draft rd" where
  "type_section d = rbind vec_len (\<lambda>n. rfor n one_type d)"

definition one_import :: "draft \<Rightarrow> draft rd" where
  "one_import d = rbind rname (\<lambda>md. rbind rname (\<lambda>name. rbind rbyte (\<lambda>k.
     if k \<noteq> CHR 0x00 then rfail (''import `'' @ md @ ''.'' @ name @ ''` is not a function'')
     else rbind ru32 (\<lambda>ty.
       case by_name name of
         Some h \<Rightarrow>
           if md = host_module then
             (if sget (d_types d) ty \<noteq> Some (signature h)
              then rfail (''import `'' @ name @ ''` does not have its WASI signature'')
              else rret (d\<lparr>d_imports := d_imports d @ [h], d_funcs := d_funcs d @ [ty]\<rparr>))
           else rfail (''import `'' @ md @ ''.'' @ name @ ''` is not served by this VM'')
       | None \<Rightarrow> rfail (''import `'' @ md @ ''.'' @ name @ ''` is not served by this VM'')))))"

definition import_section :: "draft \<Rightarrow> draft rd" where
  "import_section d = rbind vec_len (\<lambda>n. rfor n one_import d)"

definition one_function :: "draft \<Rightarrow> draft rd" where
  "one_function d = rbind ru32 (\<lambda>ty.
     if length (d_types d) \<le> ty then rfail ''a function names a type that does not exist''
     else rret (d\<lparr>d_funcs := d_funcs d @ [ty]\<rparr>))"

definition function_section :: "draft \<Rightarrow> draft rd" where
  "function_section d = rbind vec_len (\<lambda>n. rfor n one_function d)"

definition table_section :: "draft \<Rightarrow> draft rd" where
  "table_section d = rbind vec_len (\<lambda>n.
     rbind (if n \<noteq> 1 then rret True else rbind rbyte (\<lambda>b. rret (b \<noteq> CHR 0x70))) (\<lambda>bad.
       if bad then rfail ''only one funcref table is accepted''
       else rbind limits (\<lambda>(lo, hi).
         if (case hi of Some m \<Rightarrow> m < lo | None \<Rightarrow> False)
         then rfail ''the table's maximum is below its minimum''
         else if MAX_TABLE < lo then rfail ''a table of more than 1048576 entries is not accepted''
         else rret (d\<lparr>d_table := Some lo\<rparr>))))"

definition memory_section :: "draft \<Rightarrow> draft rd" where
  "memory_section d = rbind vec_len (\<lambda>n.
     if n \<noteq> 1 then rfail ''exactly one memory is accepted''
     else rbind limits (\<lambda>(lo, hi).
       if MAX_PAGES < lo \<or> (case hi of Some m \<Rightarrow> MAX_PAGES < m \<or> m < lo | None \<Rightarrow> False)
       then rfail ''memory limits are out of range''
       else rret (d\<lparr>d_memory := Some (lo, hi)\<rparr>)))"

definition global_type :: "val_type rd" where
  "global_type r = rbind rbyte (\<lambda>b. case declared_type b of
       Some t \<Rightarrow> rret t
     | None \<Rightarrow> (\<lambda>_. Inl (LoadError (Some (r_offset r)) ''a global's type is outside i32/i64/f64''))) r"

definition one_global :: "draft \<Rightarrow> draft rd" where
  "one_global d = rbind global_type (\<lambda>ty. rbind rbyte (\<lambda>b.
     rbind (if b = CHR 0x00 then rret False else if b = CHR 0x01 then rret True
            else rfail ''a global's mutability flag is invalid'') (\<lambda>mut.
       rbind (const_expr ty) (\<lambda>v.
         rret (d\<lparr>d_globals := d_globals d @ [\<lparr>g_ty = ty, g_mut = mut, g_init = v\<rparr>]\<rparr>)))))"

definition global_section :: "draft \<Rightarrow> draft rd" where
  "global_section d = rbind vec_len (\<lambda>n. rfor n one_global d)"

text \<open>How many things of a kind there are to export.\<close>

definition export_count :: "draft \<Rightarrow> byte \<Rightarrow> nat option" where
  "export_count d k =
     (if k = CHR 0x00 then Some (length (d_funcs d))
      else if k = CHR 0x01 then Some (of_bool (d_table d \<noteq> None))
      else if k = CHR 0x02 then Some (of_bool (d_memory d \<noteq> None))
      else if k = CHR 0x03 then Some (length (d_globals d))
      else None)"

definition one_export :: "draft \<Rightarrow> draft rd" where
  "one_export d = rbind rname (\<lambda>name. rbind rbyte (\<lambda>k. rbind ru32 (\<lambda>index.
     case export_count d k of
       None \<Rightarrow> rfail ''an export's kind is invalid''
     | Some n \<Rightarrow>
         if n \<le> index then rfail (''export `'' @ name @ ''` names an index that does not exist'')
         else if name \<in> set (d_names d) then rfail (''export `'' @ name @ ''` appears twice'')
         else let d2 = d\<lparr>d_names := d_names d @ [name]\<rparr>
              in if name = ''_start'' then
                   (if k = CHR 0x00 then rret (d2\<lparr>d_entry := Some index\<rparr>)
                    else rfail ''`_start` is not a function'')
                 else if name = ''memory'' \<and> k = CHR 0x02 then rret (d2\<lparr>d_exported := True\<rparr>)
                 else rret d2)))"

definition export_section :: "draft \<Rightarrow> draft rd" where
  "export_section d = rbind vec_len (\<lambda>n. rfor n one_export d)"

definition one_element :: "draft \<Rightarrow> draft rd" where
  "one_element d = rbind ru32 (\<lambda>flag.
     rbind (if flag = 0 then rret False else if flag = 2 then rret True
            else rfail ''only active function-index element segments on table 0 are accepted'') (\<lambda>explicit.
       rbind (if explicit then rbind ru32 (\<lambda>t. rret (t \<noteq> 0)) else rret False) (\<lambda>other.
         if other then rfail ''an element segment names a table other than 0''
         else rbind (const_expr I32) (\<lambda>off.
           rbind (if explicit then rbind rbyte (\<lambda>b. rret (b \<noteq> CHR 0x00)) else rret False) (\<lambda>wrong.
             if wrong then rfail ''an element segment's kind is not funcref''
             else rbind vec_len (\<lambda>n. rbind (rmany n ru32) (\<lambda>fs.
               rret (d\<lparr>d_elements := d_elements d @ [\<lparr>seg_offset = unat (w32 off), seg_items = fs\<rparr>]\<rparr>))))))))"

definition element_section :: "draft \<Rightarrow> draft rd" where
  "element_section d = rbind vec_len (\<lambda>n. rfor n one_element d)"

definition one_data :: "draft \<Rightarrow> draft rd" where
  "one_data d = rbind ru32 (\<lambda>flag.
     rbind (if flag = 0 then rret True else if flag = 2 then rbind ru32 (\<lambda>m. rret (m = 0)) else rret False) (\<lambda>ok.
       if \<not> ok then rfail ''only active data segments on memory 0 are accepted''
       else rbind (const_expr I32) (\<lambda>off. rbind vec_len (\<lambda>n. rbind (rtake n) (\<lambda>bs.
         rret (d\<lparr>d_data := d_data d @ [\<lparr>seg_offset = unat (w32 off), seg_items = bs\<rparr>]\<rparr>))))))"

definition data_section :: "draft \<Rightarrow> draft rd" where
  "data_section d = rbind vec_len (\<lambda>n. rfor n one_data d)"

subsection \<open>The code section\<close>

definition draft_ctx :: "draft \<Rightarrow> ctx" where
  "draft_ctx d =
     \<lparr>c_types = d_types d, c_funcs = d_funcs d, c_globals = map (\<lambda>g. (g_ty g, g_mut g)) (d_globals d),
      c_table = (d_table d \<noteq> None), c_memory = (d_memory d \<noteq> None)\<rparr>"

text \<open>
  The bodies from the \<open>i\<close>th on. Translating one runs in a cursor of its own; its function's type is
  looked up by two indexings.
\<close>

fun code_bodies :: "nan_choice \<Rightarrow> draft \<Rightarrow> nat \<Rightarrow> nat \<Rightarrow> rdr \<Rightarrow> (load_error + (body list \<times> rdr)) option" where
  "code_bodies pn d i 0 r = Some (Inr ([], r))"
| "code_bodies pn d i (Suc n) r =
     (case rbind ru32 rsub r of
        Inl e \<Rightarrow> Some (Inl e)
      | Inr (b, r1) \<Rightarrow>
          case Option.bind (sget (d_funcs d) (length (d_imports d) + i)) (sget (d_types d)) of
            None \<Rightarrow> None
          | Some ty \<Rightarrow>
              case translate pn (draft_ctx d) ty b of
                None \<Rightarrow> None
              | Some (Inl e) \<Rightarrow> Some (Inl e)
              | Some (Inr body) \<Rightarrow>
                  case code_bodies pn d (i + 1) n r1 of
                    None \<Rightarrow> None
                  | Some (Inl e) \<Rightarrow> Some (Inl e)
                  | Some (Inr (bodies, r2)) \<Rightarrow> Some (Inr (body # bodies, r2)))"

definition code_section :: "nan_choice \<Rightarrow> draft \<Rightarrow> rdr \<Rightarrow> (load_error + (draft \<times> rdr)) option" where
  "code_section pn d r =
     (case vec_len r of
        Inl e \<Rightarrow> Some (Inl e)
      | Inr (n, r1) \<Rightarrow>
          if length (d_funcs d) < length (d_imports d) then None
          else if n \<noteq> length (d_funcs d) - length (d_imports d)
          then Some (rfail ''the code section's count differs from the function section's'' r1)
          else case code_bodies pn d 0 n r1 of
                 None \<Rightarrow> None
               | Some (Inl e) \<Rightarrow> Some (Inl e)
               | Some (Inr (bodies, r2)) \<Rightarrow>
                   Some (Inr (d\<lparr>d_bodies := d_bodies d @ bodies, d_code_seen := True\<rparr>, r2)))"

subsection \<open>A section\<close>

text \<open>A section's identifier is the number of its byte.\<close>

definition section_rank :: "nat \<Rightarrow> nat option" where
  "section_rank i =
     (if 1 \<le> i \<and> i \<le> 7 then Some i
      else if i = 9 then Some 9
      else if i = 12 then Some 10
      else if i = 10 then Some 11
      else if i = 11 then Some 12
      else None)"

definition not_accepted :: "nat \<Rightarrow> bytes" where
  "not_accepted i = ''section '' @ dec_string i @ '' is not accepted''"

definition custom_section :: "draft \<Rightarrow> draft rd" where
  "custom_section d = rbind rname (\<lambda>_ s. Inr (d, skip_rest s))"

definition count_section :: "draft \<Rightarrow> draft rd" where
  "count_section d = rbind ru32 (\<lambda>n. rret (d\<lparr>d_count := Some n\<rparr>))"

definition section_plain :: "nat \<Rightarrow> draft \<Rightarrow> draft rd" where
  "section_plain i d =
     (if i = 0 then custom_section d
      else if i = 1 then type_section d
      else if i = 2 then import_section d
      else if i = 3 then function_section d
      else if i = 4 then table_section d
      else if i = 5 then memory_section d
      else if i = 6 then global_section d
      else if i = 7 then export_section d
      else if i = 9 then element_section d
      else if i = 12 then count_section d
      else if i = 11 then data_section d
      else rfail (not_accepted i))"

definition section_at :: "nan_choice \<Rightarrow> nat \<Rightarrow> draft \<Rightarrow> rdr \<Rightarrow> (load_error + (draft \<times> rdr)) option" where
  "section_at pn i d s = (if i = 10 then code_section pn d s else Some (section_plain i d s))"

subsection \<open>Cross-section checks\<close>

text \<open>
  \<open>Err\<close> of a text, or the text of no refusal; the entry's type is looked up in the types by an
  indexing that could panic.
\<close>

definition entry_type :: "draft \<Rightarrow> nat \<Rightarrow> func_type option option" where
  "entry_type d e =
     (case sget (d_funcs d) e of
        None \<Rightarrow> Some None
      | Some t \<Rightarrow> (case sget (d_types d) t of None \<Rightarrow> None | Some ty \<Rightarrow> Some (Some ty)))"

definition element_bad :: "draft \<Rightarrow> nat segment \<Rightarrow> bytes option" where
  "element_bad d seg =
     (if (case d_table d of Some n \<Rightarrow> n | None \<Rightarrow> 0) < seg_offset seg + length (seg_items seg)
      then Some ''an element segment does not fit the table''
      else if list_ex (\<lambda>f. length (d_funcs d) \<le> f) (seg_items seg)
      then Some ''an element segment names a function that does not exist''
      else None)"

definition data_bad :: "draft \<Rightarrow> byte segment \<Rightarrow> bytes option" where
  "data_bad d seg =
     (if (case d_memory d of Some (lo, _) \<Rightarrow> lo * PAGE | None \<Rightarrow> 0) < seg_offset seg + length (seg_items seg)
      then Some ''a data segment does not fit the initial memory''
      else None)"

text \<open>The first refusal of a loop over segments.\<close>

fun first_bad :: "('a \<Rightarrow> bytes option) \<Rightarrow> 'a list \<Rightarrow> bytes option" where
  "first_bad f [] = None"
| "first_bad f (x # xs) = (case f x of None \<Rightarrow> first_bad f xs | Some w \<Rightarrow> Some w)"

definition draft_module :: "draft \<Rightarrow> nat \<Rightarrow> module" where
  "draft_module d e =
     \<lparr>m_types = d_types d, m_imports = d_imports d, m_funcs = d_funcs d, m_table = d_table d,
      m_memory = d_memory d, m_globals = d_globals d, m_elements = d_elements d, m_data = d_data d,
      m_bodies = d_bodies d, m_entry = e\<rparr>"

definition finish :: "draft \<Rightarrow> (load_error + module) option" where
  "finish d =
     (if length (d_imports d) < length (d_funcs d) \<and> \<not> d_code_seen d
      then Some (Inl (whole ''functions are declared but the code section is missing''))
      else case d_entry d of
        None \<Rightarrow> Some (Inl (whole ''the module exports no `_start`''))
      | Some e \<Rightarrow>
          if (case d_count d of Some c \<Rightarrow> c \<noteq> length (d_data d) | None \<Rightarrow> False)
          then Some (Inl (whole ''the data count section differs from the number of data segments''))
          else if d_elements d \<noteq> [] \<and> d_table d = None
          then Some (Inl (whole ''an element segment needs a table''))
          else case entry_type d e of
            None \<Rightarrow> None
          | Some ety \<Rightarrow>
              if (case ety of Some ty \<Rightarrow> params ty \<noteq> [] \<or> results ty \<noteq> [] | None \<Rightarrow> True)
              then Some (Inl (whole ''`_start` must be a function taking and returning nothing''))
              else if d_memory d = None \<or> \<not> d_exported d
              then Some (Inl (whole ''a WASI command defines one memory and exports it as `memory`''))
              else case first_bad (element_bad d) (d_elements d) of
                Some w \<Rightarrow> Some (Inl (whole w))
              | None \<Rightarrow>
                  case first_bad (data_bad d) (d_data d) of
                    Some w \<Rightarrow> Some (Inl (whole w))
                  | None \<Rightarrow> Some (Inr (draft_module d e)))"

subsection \<open>Decoding\<close>

definition section_head :: "(nat \<times> rdr) rd" where
  "section_head = rbind rbyte (\<lambda>b. rbind ru32 (\<lambda>size. rbind (rsub size) (\<lambda>s. rret (of_char b, s))))"

text \<open>The order of the sections: a custom section may stand anywhere.\<close>

definition order_check :: "nat \<Rightarrow> nat \<Rightarrow> rdr \<Rightarrow> load_error + nat" where
  "order_check i prev s =
     (if i = 0 then Inr prev
      else case section_rank i of
             None \<Rightarrow> Inl (LoadError (Some (r_offset s)) (not_accepted i))
           | Some k \<Rightarrow>
               if k \<le> prev
               then Inl (LoadError (Some (r_offset s)) (''section '' @ dec_string i @ '' is out of order or repeated''))
               else Inr k)"

lemma reads_header: "reads section_head"
  unfolding section_head_def by (intro reading)

lemma header_next: "section_head r = Inr (h, r1) \<Longrightarrow> ahead r r1 \<and> r_pos r < r_pos r1 \<and> r_pos r < length (r_bytes r)"
  unfolding section_head_def
proof (elim rbindE)
  fix b r2 n r3 s r4
  assume "rbyte r = Inr (b, r2)" and "ru32 r2 = Inr (n, r3)" and "rsub n r3 = Inr (s, r4)"
    and "rret (of_char b, s) r4 = Inr (h, r1)"
  then have "ahead r r2 \<and> r_pos r < r_pos r2 \<and> r_pos r < length (r_bytes r)" and "ahead r2 r3" and "ahead r3 r1"
    using rbyte_next reads_numbers(1) reads_sub by (auto simp: reads_def rret_def)
  then show ?thesis
    using ahead_trans ahead_def by (metis order_less_le_trans)
qed

function sections :: "nan_choice \<Rightarrow> draft \<Rightarrow> nat \<Rightarrow> rdr \<Rightarrow> (load_error + draft) option" where
  "sections pn d prev r =
     (if at_rend r then Some (Inr d)
      else case section_head r of
             Inl e \<Rightarrow> Some (Inl e)
           | Inr ((i, s), r1) \<Rightarrow>
               case order_check i prev s of
                 Inl e \<Rightarrow> Some (Inl e)
               | Inr k \<Rightarrow>
                   case section_at pn i d s of
                     None \<Rightarrow> None
                   | Some (Inl e) \<Rightarrow> Some (Inl e)
                   | Some (Inr (d2, s2)) \<Rightarrow>
                       if \<not> at_rend s2
                       then Some (Inl (LoadError (Some (r_offset s2))
                              (''section '' @ dec_string i @ '' has bytes past its contents'')))
                       else sections pn d2 k r1)"
  by pat_completeness auto
termination sections
proof (relation "measure (\<lambda>(pn, d, prev, r). length (r_bytes r) - r_pos r)", goal_cases)
  case 1
  show ?case by simp
next
  case (2 pn d prev r)
  then show ?case
    using header_next[of r] by (fastforce simp: ahead_def)
qed

declare sections.simps [simp del]

definition decode :: "nan_choice \<Rightarrow> bytes \<Rightarrow> (load_error + module) option" where
  "decode pn bs =
     (case rtake 4 (new_rdr bs) of
        Inl e \<Rightarrow> Some (Inl e)
      | Inr (magic, r1) \<Rightarrow>
          if magic \<noteq> [CHR 0x00, CHR ''a'', CHR ''s'', CHR ''m'']
          then Some (Inl (LoadError (Some 0) ''not a wasm binary (bad magic)''))
          else case rtake 4 r1 of
            Inl e \<Rightarrow> Some (Inl e)
          | Inr (version, r2) \<Rightarrow>
              if version \<noteq> [CHR 0x01, CHR 0x00, CHR 0x00, CHR 0x00]
              then Some (Inl (LoadError (Some 4) ''not a version-1 wasm binary''))
              else case sections pn new_draft 0 r2 of
                None \<Rightarrow> None
              | Some (Inl e) \<Rightarrow> Some (Inl e)
              | Some (Inr d) \<Rightarrow> finish d)"

end
