(* ===== verification/Vm_Heights.thy ===== *)
theory Vm_Heights
  imports Vm_Translate
begin

text \<open>
  What the validator guarantees of the code it emits: every point of a body that can be reached has
  one operand height, and the instruction there finds the operands it pops, names what exists, and
  goes on to points of the right height. The annotation \<open>H\<close> gives the height of a point, and is
  undefined at points the validator has marked unreachable.
\<close>

subsection \<open>What an instruction does to the height\<close>

text \<open>A body's surroundings: the context, its number of locals, and whether it returns a value.\<close>

record scope =
  sc_ctx :: ctx
  sc_locals :: nat
  sc_result :: bool

definition type_at :: "ctx \<Rightarrow> nat \<Rightarrow> func_type" where
  "type_at c t = c_types c ! t"

definition func_at :: "ctx \<Rightarrow> nat \<Rightarrow> func_type" where
  "func_at c f = type_at c (c_funcs c ! f)"

definition func_exists :: "ctx \<Rightarrow> nat \<Rightarrow> bool" where
  "func_exists c f \<longleftrightarrow> f < length (c_funcs c) \<and> c_funcs c ! f < length (c_types c)"

text \<open>The operands an instruction pops.\<close>

fun pops :: "scope \<Rightarrow> instr \<Rightarrow> nat" where
  "pops C (LocalSet i) = 1"
| "pops C (LocalTee i) = 1"
| "pops C (GlobalSet i) = 1"
| "pops C (Binary f) = 2"
| "pops C (Unary f) = 1"
| "pops C (Load op a) = 1"
| "pops C (Store op a) = 2"
| "pops C Drop = 1"
| "pops C Select = 3"
| "pops C MemoryGrow = 1"
| "pops C MemoryCopy = 3"
| "pops C MemoryFill = 3"
| "pops C (Br t h k) = of_bool k"
| "pops C (BrIf t h k) = 1 + of_bool k"
| "pops C (BrUnless t) = 1"
| "pops C (ICall Return) = of_bool (sc_result C)"
| "pops C (ICall (Call f)) = length (params (func_at (sc_ctx C) f))"
| "pops C (ICall (CallIndirect t)) = 1 + length (params (type_at (sc_ctx C) t))"
| "pops C (ICall (ReturnCall f)) = length (params (func_at (sc_ctx C) f))"
| "pops C (ICall (ReturnCallIndirect t)) = 1 + length (params (type_at (sc_ctx C) t))"
| "pops C _ = 0"

text \<open>The values it leaves when it goes on to the next point; \<open>None\<close> when it never does.\<close>

fun leaves :: "scope \<Rightarrow> instr \<Rightarrow> nat option" where
  "leaves C Unreachable = None"
| "leaves C (Br t h k) = None"
| "leaves C (BrIf t h k) = Some (of_bool k)"
| "leaves C (BrUnless t) = Some 0"
| "leaves C (ICall Return) = None"
| "leaves C (ICall (Call f)) = Some (length (results (func_at (sc_ctx C) f)))"
| "leaves C (ICall (CallIndirect t)) = Some (length (results (type_at (sc_ctx C) t)))"
| "leaves C (ICall (ReturnCall f)) = None"
| "leaves C (ICall (ReturnCallIndirect t)) = None"
| "leaves C (LocalSet i) = Some 0"
| "leaves C (GlobalSet i) = Some 0"
| "leaves C (Store op a) = Some 0"
| "leaves C Drop = Some 0"
| "leaves C MemoryCopy = Some 0"
| "leaves C MemoryFill = Some 0"
| "leaves C _ = Some 1"

text \<open>Where a branch goes from a point of height \<open>k\<close>, and with which height.\<close>

fun lands :: "instr \<Rightarrow> nat \<Rightarrow> (nat \<times> nat) option" where
  "lands (Br t h k) n = Some (t, h + of_bool k)"
| "lands (BrIf t h k) n = Some (t, h + of_bool k)"
| "lands (BrUnless t) n = Some (t, n - 1)"
| "lands _ n = None"

text \<open>The indices an instruction names.\<close>

fun names_exist :: "scope \<Rightarrow> instr \<Rightarrow> bool" where
  "names_exist C (LocalGet i) \<longleftrightarrow> i < sc_locals C"
| "names_exist C (LocalSet i) \<longleftrightarrow> i < sc_locals C"
| "names_exist C (LocalTee i) \<longleftrightarrow> i < sc_locals C"
| "names_exist C (GlobalGet i) \<longleftrightarrow> i < length (c_globals (sc_ctx C))"
| "names_exist C (GlobalSet i) \<longleftrightarrow> i < length (c_globals (sc_ctx C))"
| "names_exist C (Load op a) \<longleftrightarrow> op < length LOADS"
| "names_exist C (Store op a) \<longleftrightarrow> op < length STORES"
| "names_exist C (ICall Return) \<longleftrightarrow> True"
| "names_exist C (ICall (Call f)) \<longleftrightarrow> func_exists (sc_ctx C) f"
| "names_exist C (ICall (CallIndirect t)) \<longleftrightarrow> t < length (c_types (sc_ctx C))"
| "names_exist C (ICall (ReturnCall f)) \<longleftrightarrow>
     func_exists (sc_ctx C) f \<and> (results (func_at (sc_ctx C) f) \<noteq> []) = sc_result C"
| "names_exist C (ICall (ReturnCallIndirect t)) \<longleftrightarrow>
     t < length (c_types (sc_ctx C)) \<and> (results (type_at (sc_ctx C) t) \<noteq> []) = sc_result C"
| "names_exist C _ \<longleftrightarrow> True"

type_synonym heights = "nat \<Rightarrow> nat option"

text \<open>The instruction at \<open>p\<close>; the branches in \<open>U\<close> have no target yet.\<close>

definition instr_ok :: "scope \<Rightarrow> nat set \<Rightarrow> heights \<Rightarrow> nat \<Rightarrow> nat \<Rightarrow> instr \<Rightarrow> bool" where
  "instr_ok C U H p k i \<longleftrightarrow>
     names_exist C i \<and> pops C i \<le> k \<and>
     (\<forall>b. leaves C i = Some b \<longrightarrow> H (p + 1) = Some (k - pops C i + b)) \<and>
     (p \<notin> U \<longrightarrow> (\<forall>q h. lands i k = Some (q, h) \<longrightarrow> H q = Some h))"

definition code_ok :: "scope \<Rightarrow> nat set \<Rightarrow> heights \<Rightarrow> instr list \<Rightarrow> bool" where
  "code_ok C U H c \<longleftrightarrow> (\<forall>p < length c. \<forall>k. H p = Some k \<longrightarrow> instr_ok C U H p k (c ! p))"

text \<open>A body with an annotation of its reachable points.\<close>

definition body_ok :: "ctx \<Rightarrow> func_type \<Rightarrow> body \<Rightarrow> bool" where
  "body_ok c ty b \<longleftrightarrow>
     b_params b = length (params ty) \<and> b_params b \<le> b_locals b \<and> length (b_code b) < 2 ^ 32 \<and>
     (\<exists>H. H 0 = Some 0 \<and> (\<forall>p k. H p = Some k \<longrightarrow> p < length (b_code b) \<and> k \<le> b_max b) \<and>
          code_ok \<lparr>sc_ctx = c, sc_locals = b_locals b, sc_result = (results ty \<noteq> [])\<rparr> {} H (b_code b))"

subsection \<open>The invariant of the translation\<close>

definition waits_for :: "nat \<Rightarrow> bool \<Rightarrow> instr \<Rightarrow> bool" where
  "waits_for h k i \<longleftrightarrow> (\<exists>q. i = Br q h k \<or> i = BrIf q h k)"

definition frame_jumps :: "ctrl \<Rightarrow> nat set" where
  "frame_jumps c = set (pending c) \<union> set_option (if_jump c)"

text \<open>
  A control frame over the code so far; \<open>lv\<close> says that the code around it is reachable. A jump that
  waits for the frame's end and can be reached makes it so.
\<close>

definition frame_ok :: "heights \<Rightarrow> instr list \<Rightarrow> bool \<Rightarrow> ctrl \<Rightarrow> bool" where
  "frame_ok H c lv f \<longleftrightarrow>
     cheight f < 2 ^ 32 \<and>
     (\<forall>a \<in> set (pending f). a < length c \<and> waits_for (cheight f) (cres f \<noteq> None) (c ! a)) \<and>
     (\<forall>a \<in> frame_jumps f. H a \<noteq> None \<longrightarrow> lv) \<and>
     (ckind f = KIf \<longleftrightarrow> if_jump f \<noteq> None) \<and>
     (\<forall>a. if_jump f = Some a \<longrightarrow> a < length c \<and> (\<exists>q. c ! a = BrUnless q) \<and> (\<forall>k. H a = Some k \<longrightarrow> k = cheight f + 1)) \<and>
     (ckind f = KLoop \<longrightarrow> pending f = [] \<and> cstart f \<le> length c \<and> (lv \<longrightarrow> H (cstart f) = Some (cheight f)))"

definition alive :: "ctrl list \<Rightarrow> bool" where
  "alive cs \<longleftrightarrow> (\<forall>f \<in> set cs. \<not> cunreach f)"

fun frames_ok :: "val_type option \<Rightarrow> heights \<Rightarrow> instr list \<Rightarrow> nat \<Rightarrow> ctrl list \<Rightarrow> bool" where
  "frames_ok res H c h [] \<longleftrightarrow> False"
| "frames_ok res H c h (f # fs) \<longleftrightarrow>
     cheight f \<le> h \<and> frame_ok H c (alive fs) f \<and>
     (if fs = [] then ckind f = KFunc \<and> cheight f = 0 \<and> cres f = res
      else ckind f \<noteq> KFunc \<and> frames_ok res H c (cheight f) fs)"

definition jumps :: "ctrl list \<Rightarrow> nat set" where
  "jumps cs = (\<Union>f \<in> set cs. frame_jumps f)"

definition scope_of :: "tr \<Rightarrow> scope" where
  "scope_of t = \<lparr>sc_ctx = t_ctx t, sc_locals = run_end (t_locals t), sc_result = (t_result t \<noteq> None)\<rparr>"

text \<open>The heights of the code so far are those of points up to the current one.\<close>

definition covers :: "heights \<Rightarrow> nat \<Rightarrow> nat \<Rightarrow> bool" where
  "covers H n m \<longleftrightarrow> H 0 = Some 0 \<and> (\<forall>p k. H p = Some k \<longrightarrow> p \<le> n \<and> k \<le> m)"

text \<open>\<open>b\<close> says whether the current point can be reached from the instruction before it or by a jump.\<close>

definition core :: "bool \<Rightarrow> heights \<Rightarrow> tr \<Rightarrow> bool" where
  "core b H t \<longleftrightarrow>
     covers H (length (code t)) (maxh t) \<and> code_ok (scope_of t) (jumps (ctrls t)) H (code t) \<and>
     frames_ok (t_result t) H (code t) (length (stack t)) (ctrls t) \<and>
     H (length (code t)) = (if b then Some (length (stack t)) else None) \<and>
     length (stack t) \<le> maxh t"

definition good :: "tr \<Rightarrow> bool" where
  "good t \<longleftrightarrow> (\<exists>H. core (alive (ctrls t)) H t)"

subsection \<open>Growing the code\<close>

lemma covers_le: "covers H n m \<Longrightarrow> H p = Some k \<Longrightarrow> p \<le> n"
  by (auto simp: covers_def)

lemma covers_next:
  assumes "covers H n m" and "m \<le> m2" and "\<And>k. v = Some k \<Longrightarrow> k \<le> m2"
  shows "covers (H(Suc n := v)) (Suc n) m2"
  using assms by (auto simp: covers_def le_Suc_eq) (meson le_trans)+

lemma instr_ok_next:
  assumes "instr_ok C U H p k i" and "p < n" and "covers H n m" and "U \<subseteq> U2"
  shows "instr_ok C U2 (H(Suc n := v)) p k i"
  using assms covers_le [OF assms(3)] by (fastforce simp: instr_ok_def)

lemma code_ok_next:
  assumes "code_ok C U H c" and "covers H (length c) m" and "U \<subseteq> U2"
    and "\<And>k. H (length c) = Some k \<Longrightarrow> instr_ok C U2 (H(Suc (length c) := v)) (length c) k i"
  shows "code_ok C U2 (H(Suc (length c) := v)) (c @ [i])"
  unfolding code_ok_def
proof (intro allI impI)
  fix p k
  assume p: "p < length (c @ [i])" and k: "(H(Suc (length c) := v)) p = Some k"
  show "instr_ok C U2 (H(Suc (length c) := v)) p k ((c @ [i]) ! p)"
  proof (cases "p = length c")
    case True
    then show ?thesis using k assms(4) by simp
  next
    case False
    then have "p < length c" using p by simp
    then show ?thesis
      using k assms(1) instr_ok_next [OF _ _ assms(2,3)] by (simp add: code_ok_def nth_append)
  qed
qed

lemma frame_ok_next:
  assumes "frame_ok H c lv f" and "covers H (length c) m"
  shows "frame_ok (H(Suc (length c) := v)) (c @ [i]) lv f"
  using assms by (auto simp: frame_ok_def frame_jumps_def nth_append)

lemma frames_ok_next:
  assumes "frames_ok res H c h fs" and "covers H (length c) m"
  shows "frames_ok res (H(Suc (length c) := v)) (c @ [i]) h fs"
  using assms
proof (induction fs arbitrary: h)
  case (Cons f fs)
  then show ?case
    using frame_ok_next [where v = v and i = i, OF _ Cons.prems(2)] by (auto simp del: fun_upd_apply split: if_splits)
qed simp

lemma frames_ok_height:
  "frames_ok res H c h fs \<Longrightarrow> cheight (hd fs) \<le> h2 \<Longrightarrow> frames_ok res H c h2 fs"
  by (cases fs) auto

lemma frames_ok_nth:
  "frames_ok res H c h fs \<Longrightarrow> d < length fs \<Longrightarrow> frame_ok H c (alive (drop (Suc d) fs)) (fs ! d) \<and> cheight (fs ! d) \<le> h"
proof (induction fs arbitrary: h d)
  case (Cons f fs)
  show ?case
  proof (cases d)
    case 0
    then show ?thesis using Cons.prems by auto
  next
    case (Suc e)
    then have "fs \<noteq> []" and "frames_ok res H c (cheight f) fs" and "cheight f \<le> h"
      using Cons.prems by (auto split: if_splits)
    then show ?thesis
      using Cons.IH [of "cheight f" e] Cons.prems Suc by auto
  qed
qed simp

lemma alive_update: "d < length fs \<Longrightarrow> cunreach g = cunreach (fs ! d) \<Longrightarrow> alive (fs[d := g]) = alive fs"
  by (auto simp: alive_def set_conv_nth nth_list_update)

lemma frames_ok_update:
  assumes "frames_ok res H c h fs" and "d < length fs" and "frame_ok H c (alive (drop (Suc d) fs)) g"
    and "ckind g = ckind (fs ! d)" and "cheight g = cheight (fs ! d)" and "cres g = cres (fs ! d)"
    and "cunreach g = cunreach (fs ! d)"
  shows "frames_ok res H c h (fs[d := g])"
  using assms
proof (induction fs arbitrary: h d)
  case (Cons f fs)
  show ?case
  proof (cases d)
    case 0
    then show ?thesis using Cons.prems by (auto split: if_splits)
  next
    case (Suc e)
    then have e: "e < length fs" and "fs \<noteq> []" and fs: "frames_ok res H c (cheight f) fs"
      using Cons.prems by (auto split: if_splits)
    have "frames_ok res H c (cheight f) (fs[e := g])"
      using Cons.IH [OF fs e] Cons.prems Suc by simp
    moreover have "alive (fs[e := g]) = alive fs"
      using alive_update [OF e] Cons.prems Suc by simp
    ultimately show ?thesis
      using Cons.prems Suc \<open>fs \<noteq> []\<close> by (auto split: if_splits)
  qed
qed simp

lemma jumps_nth: "x \<in> jumps fs \<longleftrightarrow> (\<exists>i < length fs. x \<in> frame_jumps (fs ! i))"
  by (simp add: jumps_def) (metis in_set_conv_nth)

lemma jumps_update:
  assumes "d < length fs" and "frame_jumps (fs ! d) \<subseteq> frame_jumps g"
  shows "jumps fs \<subseteq> jumps (fs[d := g])" and "frame_jumps g \<subseteq> jumps (fs[d := g])"
proof -
  show "jumps fs \<subseteq> jumps (fs[d := g])"
  proof
    fix x
    assume "x \<in> jumps fs"
    then obtain i where "i < length fs" and "x \<in> frame_jumps (fs ! i)"
      by (auto simp: jumps_nth)
    then show "x \<in> jumps (fs[d := g])"
      using assms by (cases "i = d") (auto simp: jumps_nth intro!: exI [of _ i])
  qed
  show "frame_jumps g \<subseteq> jumps (fs[d := g])"
    using assms(1) by (auto simp: jumps_nth intro!: exI [of _ d])
qed

end
