(* ===== verification/Vm_Annotate.thy ===== *)
theory Vm_Annotate
  imports Vm_Heights
begin

text \<open>
  The validator keeps its invariant and never panics: \<open>wp\<close> is the weakest precondition of a step,
  and each operation of \<open>crates/almide-wasm-vm/src/validate.rs\<close> takes a good state to a good one.
\<close>

subsection \<open>Weakest preconditions\<close>

definition wp :: "'a tm \<Rightarrow> ('a \<Rightarrow> tr \<Rightarrow> rdr \<Rightarrow> bool) \<Rightarrow> tr \<Rightarrow> rdr \<Rightarrow> bool" where
  "wp m Q t r \<longleftrightarrow> (case m t r of TPanic \<Rightarrow> False | TErr e \<Rightarrow> True | TOk x t1 r1 \<Rightarrow> Q x t1 r1)"

named_theorems wps

lemma wp_bind [wps]: "wp (tbind m f) Q = wp m (\<lambda>x. wp (f x) Q)"
  by (auto simp: wp_def tbind_def fun_eq_iff split: tres.splits)

lemma wp_seq [wps]: "wp (tseq m k) Q = wp m (\<lambda>_. wp k Q)"
  by (simp add: tseq_def wp_bind)

lemma wp_ret [wps]: "wp (tret x) Q = Q x"
  by (auto simp: wp_def tret_def fun_eq_iff)

lemma wp_fail [wps]: "wp (tfail w) Q = (\<lambda>t r. True)"
  by (auto simp: wp_def tfail_def fun_eq_iff)

lemma wp_get [wps]: "wp (tget g) Q = (\<lambda>t. Q (g t) t)"
  by (auto simp: wp_def tget_def fun_eq_iff)

lemma wp_mod [wps]: "wp (tmod f) Q = (\<lambda>t. Q () (f t))"
  by (auto simp: wp_def tmod_def fun_eq_iff)

lemma wp_panic [wps]: "wp tpanic Q = (\<lambda>t r. False)"
  by (auto simp: wp_def tpanic_def fun_eq_iff)

lemma wp_outside [wps]: "wp (outside_set n) Q = (\<lambda>t r. True)"
  by (simp add: outside_set_def wps)

lemma wp_read [wps]: "wp (tread p) Q = (\<lambda>t r. \<forall>x r1. p r = Inr (x, r1) \<longrightarrow> Q x t r1)"
  by (auto simp: wp_def tread_def fun_eq_iff split: sum.splits)

lemma wp_if [wps]: "wp (if b then m else k) Q = (if b then wp m Q else wp k Q)"
  by simp

lemma wp_option [wps]:
  "wp (case v of None \<Rightarrow> m | Some x \<Rightarrow> f x) Q = (case v of None \<Rightarrow> wp m Q | Some x \<Rightarrow> wp (f x) Q)"
  by (cases v) simp_all

lemma wp_prod [wps]: "wp (case v of (x, y) \<Rightarrow> f x y) Q = (case v of (x, y) \<Rightarrow> wp (f x y) Q)"
  by (cases v) simp

lemma wp_let [wps]: "wp (let x = v in f x) Q = (let x = v in wp (f x) Q)"
  by simp

lemma wp_here [wps]: "wp here Q = (\<lambda>t. Q (as_u32 (length (code t))) t)"
  by (simp add: here_def wps)

lemma wp_emit [wps]: "wp (emit i) Q = (\<lambda>t. Q (length (code t)) (t\<lparr>code := code t @ [i]\<rparr>))"
  by (simp add: emit_def wps)

lemma wp_put [wps]: "wp (put_instr i) Q = (\<lambda>t. Q () (t\<lparr>code := code t @ [i]\<rparr>))"
  by (simp add: put_instr_def wps)

lemma wp_push [wps]:
  "wp (push v) Q = (\<lambda>t. Q () (t\<lparr>stack := v # stack t, maxh := max (maxh t) (length (stack t) + 1)\<rparr>))"
  by (simp add: push_def wps)

lemma wp_push_ctrl [wps]: "wp (push_ctrl f) Q = (\<lambda>t. Q () (t\<lparr>ctrls := f # ctrls t\<rparr>))"
  by (simp add: push_ctrl_def wps)

lemma wp_mono:
  assumes "wp m Q t r" and "\<And>x t1 r1. Q x t1 r1 \<Longrightarrow> Q' x t1 r1"
  shows "wp m Q' t r"
  using assms by (auto simp: wp_def split: tres.splits)

lemma wp_top: "ctrls t \<noteq> [] \<Longrightarrow> wp top Q t r = Q (hd (ctrls t)) t r"
  by (cases "ctrls t") (simp_all add: wp_def top_def)

lemma wp_pop_ctrl: "ctrls t \<noteq> [] \<Longrightarrow> wp pop_ctrl Q t r = Q (hd (ctrls t)) (t\<lparr>ctrls := tl (ctrls t)\<rparr>) r"
  by (simp add: pop_ctrl_def wps wp_top)

subsection \<open>Popping operands\<close>

text \<open>
  \<open>s\<close> is what is left of the operand stack after popping \<open>n\<close> operands: exactly that many fewer
  where the code is reachable, and never less than the frame's height.
\<close>

definition popped :: "nat \<Rightarrow> tr \<Rightarrow> val_type option list \<Rightarrow> bool" where
  "popped n t s \<longleftrightarrow>
     (case ctrls t of
        [] \<Rightarrow> False
      | c # _ \<Rightarrow>
          cheight c \<le> length s \<and> length s \<le> length (stack t) \<and>
          (\<not> cunreach c \<longrightarrow> length s + n = length (stack t)))"

lemma popped_zero: "ctrls t = c # cs \<Longrightarrow> cheight c \<le> length (stack t) \<Longrightarrow> popped 0 t (stack t)"
  by (simp add: popped_def)

lemma popped_trans:
  assumes "popped n t s" and "popped m (t\<lparr>stack := s\<rparr>) s2"
  shows "popped (n + m) t s2"
  using assms by (auto simp: popped_def split: list.splits)

lemma wp_pop:
  assumes "popped n t s" and "\<And>v s2. popped (n + 1) t s2 \<Longrightarrow> Q v (t\<lparr>stack := s2\<rparr>) r"
  shows "wp pop Q (t\<lparr>stack := s\<rparr>) r"
proof -
  obtain c cs where c: "ctrls t = c # cs"
    using assms(1) by (auto simp: popped_def split: list.splits)
  have h: "cheight c \<le> length s" "length s \<le> length (stack t)" "\<not> cunreach c \<longrightarrow> length s + n = length (stack t)"
    using assms(1) c by (auto simp: popped_def)
  show ?thesis
  proof (cases s)
    case Nil
    then show ?thesis
      using c h assms(2)[of s] by (auto simp: pop_def wps wp_top popped_def)
  next
    case (Cons v s2)
    then show ?thesis
      using c h assms(2)[of s] assms(2)[of s2] by (auto simp: pop_def wps wp_top popped_def)
  qed
qed

lemma wp_expect:
  assumes "popped n t s" and "\<And>s2. popped (n + 1) t s2 \<Longrightarrow> Q () (t\<lparr>stack := s2\<rparr>) r"
  shows "wp (pop_expect w) Q (t\<lparr>stack := s\<rparr>) r"
  unfolding pop_expect_def wp_bind
  by (rule wp_pop [OF assms(1)]) (auto simp: wps assms(2) split: option.splits)

lemma wp_pop_all:
  assumes "popped n t s" and "\<And>s2. popped (n + length ps) t s2 \<Longrightarrow> Q () (t\<lparr>stack := s2\<rparr>) r"
  shows "wp (pop_all ps) Q (t\<lparr>stack := s\<rparr>) r"
  using assms
proof (induction ps arbitrary: n s)
  case Nil
  then show ?case by (simp add: wps)
next
  case (Cons p ps)
  show ?case
    unfolding pop_all.simps wp_seq
    by (rule wp_expect [OF Cons.prems(1)], rule Cons.IH) (auto intro: Cons.prems(2) simp: add_ac)
qed

lemma wp_params:
  assumes "popped n t s" and "\<And>s2. popped (n + length (params ty)) t s2 \<Longrightarrow> Q () (t\<lparr>stack := s2\<rparr>) r"
  shows "wp (pop_params ty) Q (t\<lparr>stack := s\<rparr>) r"
  unfolding pop_params_def by (rule wp_pop_all [OF assms(1)]) (use assms(2) in simp)

lemma wp_value:
  assumes "popped n t s" and "\<And>s2. popped (n + of_bool (v \<noteq> None)) t s2 \<Longrightarrow> Q () (t\<lparr>stack := s2\<rparr>) r"
  shows "wp (expect_value v) Q (t\<lparr>stack := s\<rparr>) r"
proof (cases v)
  case None
  then show ?thesis using assms by (simp add: expect_value_def wps)
next
  case (Some w)
  then show ?thesis
    unfolding expect_value_def by (simp, intro wp_expect [OF assms(1)]) (use assms(2) in simp)
qed

subsection \<open>One emitted instruction\<close>

text \<open>The parts of the state that no operation changes.\<close>

definition same_env :: "tr \<Rightarrow> tr \<Rightarrow> bool" where
  "same_env t t2 \<longleftrightarrow> t_ctx t2 = t_ctx t \<and> t_locals t2 = t_locals t \<and> t_result t2 = t_result t"

lemma same_scope: "same_env t t2 \<Longrightarrow> scope_of t2 = scope_of t"
  by (simp add: same_env_def scope_of_def)

lemma coreD:
  assumes "core b H t"
  shows "covers H (length (code t)) (maxh t)" and "code_ok (scope_of t) (jumps (ctrls t)) H (code t)"
    and "frames_ok (t_result t) H (code t) (length (stack t)) (ctrls t)"
    and "H (length (code t)) = (if b then Some (length (stack t)) else None)" and "length (stack t) \<le> maxh t"
  using assms by (simp_all add: core_def)

lemma core_frames: "core b H t \<Longrightarrow> ctrls t \<noteq> []"
  by (auto simp: core_def)

lemma popped_length: "popped n t s \<Longrightarrow> alive (ctrls t) \<Longrightarrow> length s + n = length (stack t)"
  by (auto simp: popped_def alive_def split: list.splits)

lemma popped_frames:
  assumes "popped n t s" and "frames_ok res H c h (ctrls t)" and "length s \<le> h2"
  shows "frames_ok res H c h2 (ctrls t)"
  by (rule frames_ok_height [OF assms(2)]) (use assms in \<open>auto simp: popped_def split: list.splits\<close>)

text \<open>
  An instruction \<open>i\<close> is emitted after \<open>n\<close> operands were popped and \<open>us\<close> pushed; the frames may have
  been given more waiting jumps.
\<close>

lemma core_emit:
  assumes good: "core (alive (ctrls t)) H t" and popped: "popped n t s" and env: "same_env t t2"
    and code: "code t2 = code t @ [i]" and stack: "stack t2 = us @ s"
    and max: "maxh t \<le> maxh t2" "length us + length s \<le> maxh t2"
    and ins: "alive (ctrls t) \<Longrightarrow> names_exist (scope_of t) i \<and> pops (scope_of t) i = n \<and>
                (\<forall>x. leaves (scope_of t) i = Some x \<longrightarrow> b \<and> x = length us)"
    and target: "alive (ctrls t) \<Longrightarrow> length (code t) \<notin> jumps (ctrls t2) \<Longrightarrow>
                   \<forall>q h. lands i (length (stack t)) = Some (q, h) \<longrightarrow> H q = Some h \<and> q \<le> length (code t)"
    and more: "jumps (ctrls t) \<subseteq> jumps (ctrls t2)"
    and frames: "frames_ok (t_result t) (H(Suc (length (code t)) := v)) (code t @ [i]) (length us + length s) (ctrls t2)"
    and v: "v = (if b then Some (length us + length s) else None)"
  shows "core b (H(Suc (length (code t)) := v)) t2"
proof -
  have cov: "covers H (length (code t)) (maxh t)" and cok: "code_ok (scope_of t) (jumps (ctrls t)) H (code t)"
    and now: "H (length (code t)) = (if alive (ctrls t) then Some (length (stack t)) else None)"
    using good by (simp_all add: core_def)
  have "instr_ok (scope_of t) (jumps (ctrls t2)) (H(Suc (length (code t)) := v)) (length (code t)) k i"
    if "H (length (code t)) = Some k" for k
  proof -
    have al: "alive (ctrls t)" and k: "k = length (stack t)"
      using that now by (auto split: if_splits)
    have "length s + n = k"
      using popped_length [OF popped al] k by simp
    then show ?thesis
      using ins [OF al] target [OF al] k v by (auto simp: instr_ok_def)
  qed
  then have "code_ok (scope_of t) (jumps (ctrls t2)) (H(Suc (length (code t)) := v)) (code t @ [i])"
    by (rule code_ok_next [OF cok cov more])
  moreover have "covers (H(Suc (length (code t)) := v)) (Suc (length (code t))) (maxh t2)"
    by (rule covers_next [OF cov max(1)]) (use max v in \<open>auto split: if_splits\<close>)
  moreover have "scope_of t2 = scope_of t" and "t_result t2 = t_result t"
    using env by (simp_all add: same_scope) (simp add: same_env_def)
  ultimately show ?thesis
    using frames max v code stack unfolding core_def by (simp del: fun_upd_apply) (simp add: fun_upd_apply)
qed

lemma good_straight:
  assumes good: "good t" and popped: "popped n t s" and env: "same_env t t2" and ctrls: "ctrls t2 = ctrls t"
    and code: "code t2 = code t @ [i]" and stack: "stack t2 = us @ s"
    and max: "maxh t \<le> maxh t2" "length us + length s \<le> maxh t2"
    and ins: "alive (ctrls t) \<Longrightarrow> names_exist (scope_of t) i \<and> pops (scope_of t) i = n \<and>
                leaves (scope_of t) i = Some (length us)"
    and land: "\<And>k. lands i k = None"
  shows "good t2"
proof -
  obtain H where H: "core (alive (ctrls t)) H t"
    using good by (auto simp: good_def)
  define v where "v = (if alive (ctrls t) then Some (length us + length s) else None)"
  have "frames_ok (t_result t) H (code t) (length us + length s) (ctrls t)"
    by (rule popped_frames [OF popped coreD(3) [OF H]]) simp
  then have fr: "frames_ok (t_result t) (H(Suc (length (code t)) := v)) (code t @ [i]) (length us + length s) (ctrls t2)"
    unfolding ctrls by (rule frames_ok_next [OF _ coreD(1) [OF H]])
  have "core (alive (ctrls t)) (H(Suc (length (code t)) := v)) t2"
  proof (rule core_emit [OF H popped env code stack max _ _ _ fr v_def])
    assume al: "alive (ctrls t)"
    show "names_exist (scope_of t) i \<and> pops (scope_of t) i = n \<and>
        (\<forall>x. leaves (scope_of t) i = Some x \<longrightarrow> alive (ctrls t) \<and> x = length us)"
      using ins [OF al] al by simp
  qed (simp_all add: land ctrls)
  then show ?thesis
    unfolding good_def using ctrls by metis
qed

text \<open>After an instruction that never goes on, the frame's operands are cut back.\<close>

definition cut_off :: "tr \<Rightarrow> tr" where
  "cut_off t = t\<lparr>stack := cut_to (cheight (hd (ctrls t))) (stack t),
                 ctrls := (hd (ctrls t))\<lparr>cunreach := True\<rparr> # tl (ctrls t)\<rparr>"

lemma wp_unreachable: "ctrls t \<noteq> [] \<Longrightarrow> wp set_unreachable Q t r = Q () (cut_off t) r"
  by (simp add: set_unreachable_def wps wp_top cut_off_def)

lemma length_cut_to: "length (cut_to h s) = min h (length s)"
  by (simp add: cut_to_def)

lemma good_cut_off:
  assumes "core False H t"
  shows "good (cut_off t)"
proof -
  obtain f fs where fs: "ctrls t = f # fs"
    using core_frames [OF assms] by (cases "ctrls t") auto
  have fr: "frame_ok H (code t) (alive fs) f \<and> cheight f \<le> length (stack t)"
    using assms fs by (simp add: core_def)
  then have "frame_ok H (code t) (alive fs) (f\<lparr>cunreach := True\<rparr>)"
    by (simp add: frame_ok_def frame_jumps_def)
  moreover have "jumps (f\<lparr>cunreach := True\<rparr> # fs) = jumps (ctrls t)"
    using fs by (simp add: jumps_def frame_jumps_def)
  moreover have "\<not> alive (f\<lparr>cunreach := True\<rparr> # fs)"
    by (simp add: alive_def)
  ultimately have "core False H (cut_off t)"
    using assms fs fr by (auto simp: core_def cut_off_def length_cut_to scope_of_def split: if_splits)
  then show ?thesis
    using fs by (auto simp: good_def cut_off_def alive_def)
qed

subsection \<open>Operations that emit one instruction and go on\<close>

lemma good_popped: "good t \<Longrightarrow> popped 0 t (stack t)"
  by (cases "ctrls t") (auto simp: good_def core_def popped_def)

lemma wp_expect_first:
  assumes "good t" and "\<And>s2. popped 1 t s2 \<Longrightarrow> Q () (t\<lparr>stack := s2\<rparr>) r"
  shows "wp (pop_expect w) Q t r"
  using wp_expect [OF good_popped [OF assms(1)], of Q r w] assms(2) by simp

lemma wp_pop_first:
  assumes "good t" and "\<And>v s2. popped 1 t s2 \<Longrightarrow> Q v (t\<lparr>stack := s2\<rparr>) r"
  shows "wp pop Q t r"
  using wp_pop [OF good_popped [OF assms(1)], of Q r] assms(2) by simp

lemma wp_value_first:
  assumes "good t" and "\<And>s2. popped (of_bool (v \<noteq> None)) t s2 \<Longrightarrow> Q () (t\<lparr>stack := s2\<rparr>) r"
  shows "wp (expect_value v) Q t r"
  using wp_value [OF good_popped [OF assms(1)], of v Q r] assms(2) by simp

lemma wp_params_first:
  assumes "good t" and "\<And>s2. popped (length (params ty)) t s2 \<Longrightarrow> Q () (t\<lparr>stack := s2\<rparr>) r"
  shows "wp (pop_params ty) Q t r"
  using wp_params [OF good_popped [OF assms(1)], of ty Q r] assms(2) by simp

text \<open>Nothing pushed, or one value.\<close>

lemma good_none:
  assumes "good t" and "popped n t s" and "same_env t t2" and "ctrls t2 = ctrls t"
    and "code t2 = code t @ [i]" and "stack t2 = s" and "maxh t2 = maxh t"
    and "names_exist (scope_of t) i \<and> pops (scope_of t) i = n \<and> leaves (scope_of t) i = Some 0"
    and "\<And>k. lands i k = None"
  shows "good t2"
proof -
  have "length s \<le> length (stack t)" and "length (stack t) \<le> maxh t"
    using assms(1,2) by (auto simp: popped_def good_def core_def split: list.splits)
  then show ?thesis
    by (intro good_straight [where us = "[]", OF assms(1,2,3,4,5)]) (use assms in auto)
qed

lemma good_one:
  assumes "good t" and "popped n t s" and "same_env t t2" and "ctrls t2 = ctrls t"
    and "code t2 = code t @ [i]" and "stack t2 = v # s" and "maxh t2 = max (maxh t) (length s + 1)"
    and "names_exist (scope_of t) i \<and> pops (scope_of t) i = n \<and> leaves (scope_of t) i = Some 1"
    and "\<And>k. lands i k = None"
  shows "good t2"
  by (rule good_straight [where us = "[v]", OF assms(1,2,3,4,5)]) (use assms(6-) in auto)

abbreviation keeps_good :: "unit tm \<Rightarrow> tr \<Rightarrow> rdr \<Rightarrow> bool" where
  "keeps_good m \<equiv> wp m (\<lambda>_ t1 _. good t1)"

lemma numeric_good:
  assumes "good t"
  shows "keeps_good (v_numeric pn n) t r"
proof (cases "lookup pn n")
  case None
  then show ?thesis by (simp add: v_numeric_def wps)
next
  case (Some row)
  show ?thesis
  proof (cases "n_semantics row")
    case (SUnary f)
    then show ?thesis
      using Some by (simp add: v_numeric_def wps)
        (rule wp_expect_first [OF assms], rule good_one [OF assms], assumption, auto simp: same_env_def)
  next
    case (SBinary f)
    then show ?thesis
      using Some by (simp add: v_numeric_def wps)
        (rule wp_expect_first [OF assms], rule wp_expect, assumption, rule good_one [OF assms], assumption,
          auto simp: same_env_def)
  qed
qed

lemma wp_need_memory [wps]: "wp need_memory Q = (\<lambda>t r. c_memory (t_ctx t) \<longrightarrow> Q () t r)"
  by (auto simp: need_memory_def wps fun_eq_iff)

lemma wp_zero_index:
  assumes "\<And>r1. Q () t r1"
  shows "wp zero_index Q t r"
  using assms by (simp add: zero_index_def wps)

lemma wp_memarg:
  assumes "\<And>offset r1. Q offset t r1"
  shows "wp (memarg n) Q t r"
  using assms by (auto simp: memarg_def wps)

lemma position_less: "position p xs = Some i \<Longrightarrow> i < length xs"
  by (auto simp: position_def Let_def split: if_splits)

lemma memory_good:
  assumes "good t"
  shows "keeps_good (v_memory_or_numeric pn n) t r"
proof (cases "position (\<lambda>l. l_code l = n) LOADS")
  case None
  note loads = this
  show ?thesis
  proof (cases "position (\<lambda>s. s_code s = n) STORES")
    case None
    then show ?thesis
      using loads numeric_good [OF assms] by (simp add: v_memory_or_numeric_def)
  next
    case (Some i)
    then have "i < length STORES" by (rule position_less)
    then show ?thesis
      using loads Some by (simp add: v_memory_or_numeric_def wps)
        (rule wp_memarg, rule wp_expect_first [OF assms], rule wp_expect, assumption, rule good_none [OF assms],
          assumption, auto simp: same_env_def)
  qed
next
  case (Some i)
  then have "i < length LOADS" by (rule position_less)
  then show ?thesis
    using Some by (simp add: v_memory_or_numeric_def wps)
      (rule wp_memarg, rule wp_expect_first [OF assms], rule good_one [OF assms], assumption, auto simp: same_env_def)
qed

lemma prefixed_good:
  assumes "good t"
  shows "keeps_good (v_prefixed pn) t r"
proof -
  have three: "wp (pop_expect I32) (\<lambda>_. wp (pop_expect I32) (\<lambda>_. wp (pop_expect I32)
      (\<lambda>_ t r1. good (t\<lparr>code := code t @ [i]\<rparr>)))) t r2"
    if "i = MemoryCopy \<or> i = MemoryFill" for i r2
    by (rule wp_expect_first [OF assms], rule wp_expect, assumption, rule wp_expect, assumption,
        rule good_none [OF assms], assumption) (use that in \<open>auto simp: same_env_def\<close>)
  show ?thesis
    by (auto simp: v_prefixed_def wps numeric_good [OF assms] intro!: wp_zero_index three)
qed

text \<open>What the loop's surroundings guarantee: runs that ascend, and at most one result a type.\<close>

definition env_ok :: "tr \<Rightarrow> bool" where
  "env_ok t \<longleftrightarrow> sorted (map fst (t_locals t)) \<and> (\<forall>ty \<in> set (c_types (t_ctx t)). length (results ty) \<le> 1)"

lemma local_get_less:
  assumes "local_get ls i = Some ty" and "sorted (map fst ls)"
  shows "i < run_end ls"
proof -
  obtain e k where k: "k < length ls" "ls ! k = (e, ty)" "i < e"
    using assms(1) by (auto simp: local_get_def find_Some_iff)
  then have "e \<le> fst (ls ! (length ls - 1))"
    using sorted_nth_mono [OF assms(2), of k "length ls - 1"] by simp
  then show ?thesis
    using k by (cases ls) (auto simp: run_end_def last_conv_nth)
qed

text \<open>The three shapes of an operation with at most one operand and one value.\<close>

lemma push_put_good:
  assumes "good t" and "names_exist (scope_of t) i \<and> pops (scope_of t) i = 0 \<and> leaves (scope_of t) i = Some 1"
    and "\<And>k. lands i k = None"
  shows "keeps_good (tseq (push v) (put_instr i)) t r"
  by (simp add: wps) (rule good_one [OF assms(1) good_popped [OF assms(1)]], use assms in \<open>auto simp: same_env_def\<close>)

lemma pop_put_good:
  assumes "good t" and "names_exist (scope_of t) i \<and> pops (scope_of t) i = 1 \<and> leaves (scope_of t) i = Some 0"
    and "\<And>k. lands i k = None"
  shows "keeps_good (tseq (pop_expect v) (put_instr i)) t r"
  by (simp add: wps) (rule wp_expect_first [OF assms(1)], rule good_none [OF assms(1)], assumption,
      use assms in \<open>auto simp: same_env_def\<close>)

lemma pop_push_put_good:
  assumes "good t" and "names_exist (scope_of t) i \<and> pops (scope_of t) i = 1 \<and> leaves (scope_of t) i = Some 1"
    and "\<And>k. lands i k = None"
  shows "keeps_good (tseq (pop_expect v) (tseq (push w) (put_instr i))) t r"
  by (simp add: wps) (rule wp_expect_first [OF assms(1)], rule good_one [OF assms(1)], assumption,
      use assms in \<open>auto simp: same_env_def\<close>)

lemmas put_good = push_put_good [simplified wps, simplified] pop_put_good [simplified wps, simplified]
  pop_push_put_good [simplified wps, simplified]

lemma variable_good:
  assumes "good t" and "env_ok t"
  shows "keeps_good (v_variable n) t r"
proof -
  have "i < sc_locals (scope_of t)" if "local_get (t_locals t) i = Some ty" for i ty
    using local_get_less [OF that] assms(2) by (simp add: env_ok_def scope_of_def)
  moreover have "i < length (c_globals (sc_ctx (scope_of t)))" if "sget (c_globals (t_ctx t)) i = Some g" for i g
    using that by (simp add: scope_of_def sget_Some)
  ultimately show ?thesis
    by (auto simp: v_variable_def wps intro!: put_good [OF assms(1)] split: option.splits prod.splits)
qed

lemma select_good:
  assumes "good t"
  shows "keeps_good v_select t r"
  unfolding v_select_def wps
proof (rule wp_expect_first [OF assms], rule wp_pop, assumption, rule wp_pop, assumption, goal_cases)
  case (1 s a s2 b s3)
  then have p: "popped 3 t s3" by (simp add: numeral_3_eq_3)
  have "good (t\<lparr>stack := v # s3, maxh := max (maxh t) (length s3 + 1), code := code t @ [Select]\<rparr>)" for v
    by (rule good_one [OF assms p]) (auto simp: same_env_def)
  then show ?case
    by (auto simp: wps)
qed

lemma memory_size_good:
  assumes "good t" and "n = 0x3F \<or> n = 0x40"
  shows "keeps_good (v_memory_size_or_grow n) t r"
  using assms(2) by (auto simp: v_memory_size_or_grow_def wps intro!: wp_zero_index put_good [OF assms(1)])

lemma constant_good:
  assumes "good t"
  shows "keeps_good (v_constant n) t r"
  by (auto simp: v_constant_def wps intro!: put_good [OF assms])

lemma drop_good:
  assumes "good t"
  shows "keeps_good (tbind pop (\<lambda>_. put_instr Drop)) t r"
  unfolding wps by (rule wp_pop_first [OF assms], rule good_none [OF assms], assumption) (auto simp: same_env_def)

subsection \<open>Calls\<close>

lemma wp_func_type:
  assumes "\<And>f. func_exists (t_ctx t) i \<Longrightarrow> f = func_at (t_ctx t) i \<Longrightarrow> f \<in> set (c_types (t_ctx t)) \<Longrightarrow> Q f t r"
  shows "wp (v_func_type i) Q t r"
  using assms
  by (auto simp: v_func_type_def wps sget_Some bind_Some_iff func_exists_def func_at_def type_at_def split: option.splits)

text \<open>The type a call names: after its own operand, in an indirect call, has been popped.\<close>

lemma wp_callee:
  assumes "good t"
    and "\<And>f r1. func_exists (t_ctx t) i \<Longrightarrow> f = func_at (t_ctx t) i \<Longrightarrow> f \<in> set (c_types (t_ctx t)) \<Longrightarrow>
           \<not> indirect \<Longrightarrow> Q f t r1"
    and "\<And>f s r1. i < length (c_types (t_ctx t)) \<Longrightarrow> f = type_at (t_ctx t) i \<Longrightarrow> f \<in> set (c_types (t_ctx t)) \<Longrightarrow>
           indirect \<Longrightarrow> popped 1 t s \<Longrightarrow> Q f (t\<lparr>stack := s\<rparr>) r1"
  shows "wp (v_callee indirect i) Q t r"
proof (cases indirect)
  case True
  show ?thesis
    unfolding v_callee_def wps if_P [OF True]
    by (rule wp_zero_index, simp add: wps) (intro impI wp_expect_first [OF assms(1)],
        use True assms(3) in \<open>auto simp: wps sget_Some type_at_def split: option.splits\<close>)
next
  case False
  then show ?thesis
    using assms(2) by (auto simp: v_callee_def intro: wp_func_type)
qed

lemma good_stop:
  assumes good: "good t" and popped: "popped n t s" and env: "same_env t t2" and ctrls: "ctrls t2 = ctrls t"
    and code: "code t2 = code t @ [i]" and stack: "stack t2 = s" and max: "maxh t2 = maxh t"
    and ins: "names_exist (scope_of t) i \<and> pops (scope_of t) i = n \<and> leaves (scope_of t) i = None"
    and land: "\<And>k. lands i k = None"
  shows "good (cut_off t2)"
proof -
  obtain H where H: "core (alive (ctrls t)) H t"
    using good by (auto simp: good_def)
  have len: "length s \<le> maxh t"
    using popped coreD(5) [OF H] by (auto simp: popped_def split: list.splits)
  have "frames_ok (t_result t) H (code t) (length s) (ctrls t)"
    by (rule popped_frames [OF popped coreD(3) [OF H]]) simp
  then have fr: "frames_ok (t_result t) (H(Suc (length (code t)) := None)) (code t @ [i]) (length [] + length s) (ctrls t2)"
    unfolding ctrls using frames_ok_next [OF _ coreD(1) [OF H]] by simp
  have "core False (H(Suc (length (code t)) := None)) t2"
    by (rule core_emit [OF H popped env code, where us = "[]"]) (use stack max len ins land ctrls fr in simp_all)
  then show ?thesis
    by (rule good_cut_off)
qed

lemma results_first: "length (results ty) \<le> 1 \<Longrightarrow> first_result ty = (if results ty = [] then None else Some (results ty ! 0))"
  by (auto simp: first_result_def split: list.splits)

lemma call_end:
  assumes good: "good t" and env: "env_ok t" and popped: "popped n t s"
    and ty: "ty \<in> set (c_types (t_ctx t))"
    and go: "names_exist (scope_of t) i \<and> pops (scope_of t) i = n \<and> leaves (scope_of t) i = Some (length (results ty))"
    and land: "\<And>k. lands i k = None"
  shows "keeps_good (tseq (push_value (first_result ty)) (put_instr i)) (t\<lparr>stack := s\<rparr>) r"
proof -
  have one: "length (results ty) \<le> 1"
    using env ty by (simp add: env_ok_def)
  show ?thesis
  proof (cases "results ty")
    case Nil
    then have "good (t\<lparr>stack := s, code := code t @ [i]\<rparr>)"
      by (intro good_none [OF good popped]) (use go land in \<open>auto simp: same_env_def\<close>)
    then show ?thesis
      using Nil by (simp add: push_value_def first_result_def wps)
  next
    case (Cons a as)
    then have "good (t\<lparr>stack := Some a # s, maxh := max (maxh t) (length s + 1), code := code t @ [i]\<rparr>)"
      by (intro good_one [OF good popped]) (use go land one in \<open>auto simp: same_env_def\<close>)
    then show ?thesis
      using Cons by (simp add: push_value_def first_result_def wps)
  qed
qed

lemma tail_end:
  assumes good: "good t" and popped: "popped n t s"
    and ty: "first_result ty = t_result t"
    and go: "(results ty \<noteq> []) = (t_result t \<noteq> None) \<longrightarrow>
       names_exist (scope_of t) i \<and> pops (scope_of t) i = n \<and> leaves (scope_of t) i = None"
    and land: "\<And>k. lands i k = None"
  shows "keeps_good (tseq (put_instr i) set_unreachable) (t\<lparr>stack := s\<rparr>) r"
proof -
  have "(results ty \<noteq> []) = (t_result t \<noteq> None)"
    using ty [symmetric] by (auto simp: first_result_def split: list.splits)
  then have "good (cut_off (t\<lparr>stack := s, code := code t @ [i]\<rparr>))"
    by (intro good_stop [OF good popped]) (use go land in \<open>auto simp: same_env_def\<close>)
  moreover have "ctrls t \<noteq> []"
    using good core_frames by (auto simp: good_def)
  ultimately show ?thesis
    by (simp add: wps wp_unreachable)
qed

lemma call_rest_good:
  assumes good: "good t" and env: "env_ok t"
    and p: "popped (of_bool indirect) t s" and ty: "ty \<in> set (c_types (t_ctx t))"
    and at: "if indirect then i < length (c_types (t_ctx t)) \<and> ty = type_at (t_ctx t) i
             else func_exists (t_ctx t) i \<and> ty = func_at (t_ctx t) i"
  shows "keeps_good (v_call_rest indirect tail i ty) (t\<lparr>stack := s\<rparr>) r"
proof -
  have plain: "names_exist (scope_of t) (ICall (if indirect then CallIndirect i else Call i)) \<and>
      pops (scope_of t) (ICall (if indirect then CallIndirect i else Call i)) = of_bool indirect + length (params ty) \<and>
      leaves (scope_of t) (ICall (if indirect then CallIndirect i else Call i)) = Some (length (results ty))"
    using at by (auto simp: scope_of_def split: if_splits)
  have ret: "(results ty \<noteq> []) = (t_result t \<noteq> None) \<longrightarrow>
      names_exist (scope_of t) (ICall (if indirect then ReturnCallIndirect i else ReturnCall i)) \<and>
      pops (scope_of t) (ICall (if indirect then ReturnCallIndirect i else ReturnCall i)) = of_bool indirect + length (params ty) \<and>
      leaves (scope_of t) (ICall (if indirect then ReturnCallIndirect i else ReturnCall i)) = None"
    using at by (auto simp: scope_of_def split: if_splits)
  show ?thesis
    unfolding v_call_rest_def wp_seq [of "pop_params ty"]
  proof (rule wp_params [OF p], goal_cases)
    case (1 s2)
    have "keeps_good (tseq (push_value (first_result ty))
        (put_instr (ICall (if indirect then CallIndirect i else Call i)))) (t\<lparr>stack := s2\<rparr>) r"
      by (rule call_end [OF good env 1 ty plain]) simp
    moreover have "keeps_good (tseq (put_instr (ICall (if indirect then ReturnCallIndirect i else ReturnCall i)))
        set_unreachable) (t\<lparr>stack := s2\<rparr>) r" if "first_result ty = t_result t"
      by (rule tail_end [OF good 1 that ret]) simp
    ultimately show ?case
      by (cases indirect; simp add: wp_if wp_bind wp_get wp_fail)
  qed
qed

lemma call_good:
  assumes good: "good t" and env: "env_ok t"
  shows "keeps_good (v_call n) t r"
  unfolding v_call_def Let_def wp_bind wp_read
proof (intro allI impI wp_callee [OF good], goal_cases)
  case (1 i r1 f r2)
  then show ?case
    using call_rest_good [OF good env, of False "stack t" f i] good_popped [OF good] by simp
next
  case (2 i r1 f s r2)
  then show ?case
    using call_rest_good [OF good env, of True s f i] by simp
qed

subsection \<open>Branches\<close>

lemma stop_good:
  assumes "good t" and "popped n t s"
    and "names_exist (scope_of t) i \<and> pops (scope_of t) i = n \<and> leaves (scope_of t) i = None"
    and "\<And>k. lands i k = None"
  shows "keeps_good (tseq (put_instr i) set_unreachable) (t\<lparr>stack := s\<rparr>) r"
proof -
  have "good (cut_off (t\<lparr>stack := s, code := code t @ [i]\<rparr>))"
    by (rule good_stop [OF assms(1,2)]) (use assms in \<open>auto simp: same_env_def\<close>)
  moreover have "ctrls t \<noteq> []"
    using assms(1) core_frames by (auto simp: good_def)
  ultimately show ?thesis
    by (simp add: wps wp_unreachable)
qed

lemma unreachable_good: "good t \<Longrightarrow> keeps_good (tseq (put_instr Unreachable) set_unreachable) t r"
  using stop_good [of t 0 "stack t" Unreachable r] good_popped by simp

lemma return_good:
  assumes "good t"
  shows "keeps_good (tbind (tget t_result) (\<lambda>res. tseq (expect_value res) (tseq (put_instr (ICall Return)) set_unreachable))) t r"
  unfolding wp_bind wp_get wp_seq [of "expect_value _"]
  by (rule wp_value_first [OF assms], rule stop_good [OF assms], assumption) (simp_all add: scope_of_def)

definition branch_instr :: "bool \<Rightarrow> ctrl \<Rightarrow> instr" where
  "branch_instr b c =
     (if b then BrIf (if ckind c = KLoop then cstart c else 0) (as_u32 (cheight c)) (label_value c \<noteq> None)
      else Br (if ckind c = KLoop then cstart c else 0) (as_u32 (cheight c)) (label_value c \<noteq> None))"

definition after_branch :: "nat \<Rightarrow> bool \<Rightarrow> tr \<Rightarrow> tr" where
  "after_branch d b t =
     (let c = ctrls t ! d; t1 = t\<lparr>code := code t @ [branch_instr b c]\<rparr>
      in if ckind c = KLoop then t1
         else t1\<lparr>ctrls := (ctrls t)[d := c\<lparr>pending := pending c @ [length (code t)]\<rparr>]\<rparr>)"

lemma wp_label: "wp (label d) Q = (\<lambda>t r. d < length (ctrls t) \<longrightarrow> Q (ctrls t ! d) t r)"
  by (auto simp: label_def wps fun_eq_iff)

lemma wp_branch: "wp (branch d b) Q t r = (d < length (ctrls t) \<longrightarrow> Q () (after_branch d b t) r)"
  by (auto simp: branch_def wps wp_label after_branch_def branch_instr_def Let_def)

lemma alive_drop: "alive fs \<Longrightarrow> alive (drop n fs)"
  using set_drop_subset by (fastforce simp: alive_def)

lemma core_branch:
  assumes H: "core (alive (ctrls t)) H t" and popped: "popped n t s" and d: "d < length (ctrls t)"
    and env: "same_env t t0" and ctrls: "ctrls t0 = ctrls t" and code: "code t0 = code t" and stack: "stack t0 = us @ s"
    and max: "maxh t \<le> maxh t0" "length us + length s \<le> maxh t0"
    and n: "n = of_bool b + of_bool (label_value (ctrls t ! d) \<noteq> None)"
    and us: "b \<Longrightarrow> length us = of_bool (label_value (ctrls t ! d) \<noteq> None)"
  shows "\<exists>H2. core (b \<and> alive (ctrls t)) H2 (after_branch d b t0)" and "alive (ctrls (after_branch d b t0)) = alive (ctrls t)"
proof -
  define c where "c = ctrls t ! d"
  define g where "g = c\<lparr>pending := pending c @ [length (code t)]\<rparr>"
  define i where "i = branch_instr b c"
  define v where "v = (if b \<and> alive (ctrls t) then Some (length us + length s) else None)"
  note fr = coreD(3) [OF H]
  have cok: "frame_ok H (code t) (alive (drop (Suc d) (ctrls t))) c"
    using frames_ok_nth [OF fr d] by (simp add: c_def)
  have small: "as_u32 (cheight c) = cheight c"
    using cok by (simp add: frame_ok_def as_u32_def)
  have ctrls2: "ctrls (after_branch d b t0) = (if ckind c = KLoop then ctrls t else (ctrls t)[d := g])"
    using ctrls code by (simp add: after_branch_def Let_def c_def g_def)
  have others: "code (after_branch d b t0) = code t @ [i]" "stack (after_branch d b t0) = us @ s"
    "maxh (after_branch d b t0) = maxh t0" "same_env t (after_branch d b t0)"
    using ctrls code stack env by (simp_all add: after_branch_def Let_def c_def i_def same_env_def)
  show al: "alive (ctrls (after_branch d b t0)) = alive (ctrls t)"
    unfolding ctrls2 using alive_update [OF d, of g] by (simp add: g_def c_def)
  have more: "jumps (ctrls t) \<subseteq> jumps (ctrls (after_branch d b t0))"
    unfolding ctrls2 using jumps_update(1) [OF d, of g] by (simp add: g_def c_def frame_jumps_def subset_iff)
  have new: "length (code t) \<in> jumps (ctrls (after_branch d b t0))" if "ckind c \<noteq> KLoop"
    unfolding ctrls2 using that jumps_update(2) [OF d, of g] by (auto simp: g_def c_def frame_jumps_def subset_iff)
  have "frames_ok (t_result t) H (code t) (length us + length s) (ctrls t)"
    by (rule popped_frames [OF popped fr]) simp
  then have next_ok: "frames_ok (t_result t) (H(Suc (length (code t)) := v)) (code t @ [i]) (length us + length s) (ctrls t)"
    by (rule frames_ok_next [OF _ coreD(1) [OF H]])
  have now: "H (length (code t)) \<noteq> None \<longrightarrow> alive (drop (Suc d) (ctrls t))"
    using coreD(4) [OF H] alive_drop by auto
  have frames: "frames_ok (t_result t) (H(Suc (length (code t)) := v)) (code t @ [i]) (length us + length s)
      (ctrls (after_branch d b t0))"
  proof (cases "ckind c = KLoop")
    case True
    then show ?thesis using next_ok by (simp add: ctrls2)
  next
    case False
    have "frame_ok (H(Suc (length (code t)) := v)) (code t @ [i]) (alive (drop (Suc d) (ctrls t))) c"
      using frames_ok_nth [OF next_ok d] by (simp add: c_def)
    moreover have "waits_for (cheight c) (cres c \<noteq> None) i"
      using False small by (simp add: i_def branch_instr_def waits_for_def label_value_def)
    ultimately have "frame_ok (H(Suc (length (code t)) := v)) (code t @ [i]) (alive (drop (Suc d) (ctrls t))) g"
      using now False by (auto simp: frame_ok_def frame_jumps_def g_def nth_append)
    then show ?thesis
      using frames_ok_update [OF next_ok d, of g] False by (simp add: ctrls2 g_def c_def)
  qed
  have ins: "names_exist (scope_of t) i \<and> pops (scope_of t) i = n \<and>
      (\<forall>x. leaves (scope_of t) i = Some x \<longrightarrow> (b \<and> alive (ctrls t)) \<and> x = length us)" if "alive (ctrls t)"
    using n us that by (auto simp: i_def branch_instr_def c_def)
  have target: "\<forall>q h. lands i (length (stack t)) = Some (q, h) \<longrightarrow> H q = Some h \<and> q \<le> length (code t)"
    if "alive (ctrls t)" "length (code t) \<notin> jumps (ctrls (after_branch d b t0))"
  proof -
    have "ckind c = KLoop" using new that by auto
    then show ?thesis
      using cok small alive_drop [OF that(1)] by (auto simp: i_def branch_instr_def frame_ok_def label_value_def)
  qed
  have "core (b \<and> alive (ctrls t)) (H(Suc (length (code t)) := v)) (after_branch d b t0)"
    by (rule core_emit [OF H popped others(4,1,2) _ _ ins target more frames v_def]) (use max others in simp_all)
  then show "\<exists>H2. core (b \<and> alive (ctrls t)) H2 (after_branch d b t0)"
    by blast
qed

lemma br_good:
  assumes "good t"
  shows "keeps_good (tseq (branch_value d) (tseq (branch d False) set_unreachable)) t r"
proof -
  obtain H where H: "core (alive (ctrls t)) H t"
    using assms by (auto simp: good_def)
  have "good (cut_off (after_branch d False (t\<lparr>stack := s\<rparr>)))"
    "ctrls (after_branch d False (t\<lparr>stack := s\<rparr>)) \<noteq> []"
    if d: "d < length (ctrls t)" and p: "popped (of_bool (label_value (ctrls t ! d) \<noteq> None)) t s" for s
  proof -
    have "length s \<le> maxh t"
      using p coreD(5) [OF H] by (auto simp: popped_def split: list.splits)
    then obtain H2 where "core False H2 (after_branch d False (t\<lparr>stack := s\<rparr>))"
      using core_branch(1) [OF H p d, of "t\<lparr>stack := s\<rparr>" "[]" False] by (auto simp: same_env_def)
    then show "good (cut_off (after_branch d False (t\<lparr>stack := s\<rparr>)))"
      "ctrls (after_branch d False (t\<lparr>stack := s\<rparr>)) \<noteq> []"
      using good_cut_off core_frames by blast+
  qed
  then show ?thesis
    by (auto simp: branch_value_def label_type_def wps wp_label wp_branch wp_unreachable intro!: wp_value_first [OF assms])
qed

lemma br_if_good:
  assumes "good t"
  shows "keeps_good v_br_if t r"
proof -
  obtain H where H: "core (alive (ctrls t)) H t"
    using assms by (auto simp: good_def)
  have step: "good (after_branch d True (t\<lparr>stack := us @ s, maxh := m\<rparr>))"
    if d: "d < length (ctrls t)" and p: "popped (1 + of_bool (label_value (ctrls t ! d) \<noteq> None)) t s"
      and us: "length us = of_bool (label_value (ctrls t ! d) \<noteq> None)"
      and m: "m = (if us = [] then maxh t else max (maxh t) (length s + 1))" for s us m d
  proof -
    have "length s \<le> maxh t"
      using p coreD(5) [OF H] by (auto simp: popped_def split: list.splits)
    then have "maxh t \<le> m" and "length us + length s \<le> m"
      using us m by (auto split: if_splits)
    then have "\<exists>H2. core (True \<and> alive (ctrls t)) H2 (after_branch d True (t\<lparr>stack := us @ s, maxh := m\<rparr>))"
      and "alive (ctrls (after_branch d True (t\<lparr>stack := us @ s, maxh := m\<rparr>))) = alive (ctrls t)"
      using core_branch [OF H p d, of "t\<lparr>stack := us @ s, maxh := m\<rparr>" us True] us by (simp_all add: same_env_def)
    then show ?thesis by (auto simp: good_def)
  qed
  have rest: "wp (push_value (label_value (ctrls t ! d))) (\<lambda>_. keeps_good (branch d True)) (t\<lparr>stack := s\<rparr>) r1"
    if d: "d < length (ctrls t)" and p: "popped (1 + of_bool (label_value (ctrls t ! d) \<noteq> None)) t s" for d s r1
  proof (cases "label_value (ctrls t ! d)")
    case None
    have "t\<lparr>stack := s\<rparr> = t\<lparr>stack := [] @ s, maxh := maxh t\<rparr>" by simp
    then show ?thesis
      using step [OF d p, of "[]" "maxh t"] None by (simp add: push_value_def wps wp_branch)
  next
    case (Some ty)
    then show ?thesis
      using step [OF d p, of "[Some ty]" "max (maxh t) (length s + 1)"] by (simp add: push_value_def wps wp_branch)
  qed
  show ?thesis
    unfolding v_br_if_def label_type_def wps wp_label
  proof (intro allI impI wp_expect_first [OF assms], goal_cases)
    case (1 d r1 s)
    show ?case
      by (rule wp_value [OF 1(2)]) (use rest [of d] 1 in simp)
  qed
qed

subsection \<open>Blocks\<close>

definition small :: "tr \<Rightarrow> bool" where
  "small t \<longleftrightarrow> length (stack t) < 2 ^ 32 \<and> length (code t) + 1 < 2 ^ 32"

lemma block_good:
  assumes "good t" and "small t" and "k = KBlock \<or> k = KLoop"
  shows "keeps_good (v_block k) t r"
proof -
  obtain H where H: "core (alive (ctrls t)) H t"
    using assms(1) by (auto simp: good_def)
  have "good (t\<lparr>ctrls := new_ctrl k bt (length (stack t)) (as_u32 (length (code t))) # ctrls t\<rparr>)" for bt
  proof -
    define f where "f = new_ctrl k bt (length (stack t)) (as_u32 (length (code t)))"
    have f: "ckind f = k" "cheight f = length (stack t)" "cstart f = length (code t)" "pending f = []" "if_jump f = None"
      "\<not> cunreach f"
      using assms(2) by (simp_all add: f_def new_ctrl_def as_u32_def small_def)
    have "frame_ok H (code t) (alive (ctrls t)) f"
      using assms(2,3) coreD(4) [OF H] f by (auto simp: frame_ok_def frame_jumps_def small_def)
    moreover have "alive (f # ctrls t) = alive (ctrls t)" and "jumps (f # ctrls t) = jumps (ctrls t)"
      using f by (auto simp: alive_def jumps_def frame_jumps_def)
    ultimately have "core (alive (f # ctrls t)) H (t\<lparr>ctrls := f # ctrls t\<rparr>)"
      using H f assms(3) core_frames [OF H] by (auto simp: core_def scope_of_def)
    then show ?thesis
      unfolding good_def f_def [symmetric] by auto
  qed
  then show ?thesis
    by (simp add: v_block_def wps)
qed

lemma if_good:
  assumes "good t" and "small t"
  shows "keeps_good v_if t r"
proof -
  obtain H where H: "core (alive (ctrls t)) H t"
    using assms(1) by (auto simp: good_def)
  have "good (t\<lparr>stack := s, code := code t @ [BrUnless 0],
      ctrls := (new_ctrl KIf bt (length s) 0)\<lparr>if_jump := Some (length (code t))\<rparr> # ctrls t\<rparr>)"
    if p: "popped 1 t s" for bt s
  proof -
    define f where "f = (new_ctrl KIf bt (length s) 0)\<lparr>if_jump := Some (length (code t))\<rparr>"
    define v where "v = (if alive (ctrls t) then Some (length ([] :: val_type option list) + length s) else None)"
    let ?t2 = "t\<lparr>stack := s, code := code t @ [BrUnless 0], ctrls := f # ctrls t\<rparr>"
    have f: "ckind f = KIf" "cheight f = length s" "pending f = []" "if_jump f = Some (length (code t))" "\<not> cunreach f"
      by (simp_all add: f_def new_ctrl_def)
    have len: "length s \<le> length (stack t)" and lt: "length s < 2 ^ 32"
      using p assms(2) by (auto simp: popped_def small_def split: list.splits)
    have al: "alive (f # ctrls t) = alive (ctrls t)"
      using f by (simp add: alive_def)
    have "frames_ok (t_result t) H (code t) (length s) (ctrls t)"
      by (rule popped_frames [OF p coreD(3) [OF H]]) simp
    then have "frames_ok (t_result t) (H(Suc (length (code t)) := v)) (code t @ [BrUnless 0]) (length s) (ctrls t)"
      by (rule frames_ok_next [OF _ coreD(1) [OF H]])
    moreover have "frame_ok (H(Suc (length (code t)) := v)) (code t @ [BrUnless 0]) (alive (ctrls t)) f"
      using f lt coreD(4) [OF H] popped_length [OF p] by (auto simp: frame_ok_def frame_jumps_def split: if_splits)
    ultimately have fr: "frames_ok (t_result t) (H(Suc (length (code t)) := v)) (code t @ [BrUnless 0])
        (length ([] :: val_type option list) + length s) (ctrls ?t2)"
      using f core_frames [OF H] by simp
    have "core (alive (ctrls t)) (H(Suc (length (code t)) := v)) ?t2"
      by (rule core_emit [OF H p, where us = "[]" and i = "BrUnless 0", OF _ _ _ _ _ _ _ _ fr v_def])
        (use len coreD(5) [OF H] f in \<open>auto simp: same_env_def jumps_def frame_jumps_def\<close>)
    then show ?thesis
      unfolding good_def f_def [symmetric] using al by auto
  qed
  then show ?thesis
    unfolding v_if_def wps by (intro allI impI wp_expect_first [OF assms(1)]) simp
qed

subsection \<open>Giving jumps their target\<close>

definition repoint :: "nat set \<Rightarrow> nat \<Rightarrow> instr list \<Rightarrow> instr list" where
  "repoint A q c = map (\<lambda>p. if p \<in> A then (case retarget (c ! p) q of Some i \<Rightarrow> i | None \<Rightarrow> c ! p) else c ! p) [0..<length c]"

definition is_jump :: "instr \<Rightarrow> bool" where
  "is_jump i \<longleftrightarrow> (\<exists>q h k. i = Br q h k \<or> i = BrIf q h k \<or> i = BrUnless q)"

lemma length_repoint [simp]: "length (repoint A q c) = length c"
  by (simp add: repoint_def)

lemma nth_repoint: "p < length c \<Longrightarrow> repoint A q c ! p =
    (if p \<in> A then (case retarget (c ! p) q of Some i \<Rightarrow> i | None \<Rightarrow> c ! p) else c ! p)"
  by (simp add: repoint_def split: option.split)

lemma retarget_jump: "is_jump i \<Longrightarrow> \<exists>j. retarget i q = Some j \<and> is_jump j \<and> retarget j q = Some j"
  by (auto simp: is_jump_def)

lemma wp_patch:
  assumes "a < length (code t)" and "is_jump (code t ! a)"
  shows "wp (patch a q) Q t r = Q () (t\<lparr>code := repoint {a} q (code t)\<rparr>) r"
proof -
  obtain j where j: "retarget (code t ! a) q = Some j"
    using retarget_jump [OF assms(2)] by blast
  have "(code t)[a := j] = repoint {a} q (code t)"
    by (rule nth_equalityI) (use j in \<open>auto simp: nth_repoint nth_list_update\<close>)
  then show ?thesis
    using assms j by (simp add: patch_def wps)
qed

lemma repoint_twice:
  "repoint A q (repoint B q c) = repoint (A \<union> B) q c" if "\<And>a. a \<in> B \<Longrightarrow> a < length c \<Longrightarrow> is_jump (c ! a)"
proof (rule nth_equalityI)
  fix p
  assume "p < length (repoint A q (repoint B q c))"
  then have p: "p < length c" by simp
  show "repoint A q (repoint B q c) ! p = repoint (A \<union> B) q c ! p"
  proof (cases "p \<in> B")
    case True
    then show ?thesis using that [OF True p] retarget_jump [of "c ! p" q] p by (auto simp: nth_repoint)
  qed (use p in \<open>simp add: nth_repoint split: option.split\<close>)
qed simp

lemma repoint_none [simp]: "repoint {} q c = c"
  by (rule nth_equalityI) (simp_all add: nth_repoint)

lemma repoint_is_jump: "p < length c \<Longrightarrow> is_jump (c ! p) \<Longrightarrow> is_jump (repoint A q c ! p)"
  using retarget_jump [of "c ! p" q] by (auto simp: nth_repoint)

lemma wp_patch_all:
  assumes "\<And>a. a \<in> set as \<Longrightarrow> a < length (code t) \<and> is_jump (code t ! a)"
  shows "wp (patch_all as q) Q t r = Q () (t\<lparr>code := repoint (set as) q (code t)\<rparr>) r"
  using assms
proof (induction as arbitrary: t)
  case Nil
  then show ?case by (simp add: wps)
next
  case (Cons a as)
  have "wp (patch_all as q) Q (t\<lparr>code := repoint {a} q (code t)\<rparr>) r =
      Q () (t\<lparr>code := repoint (set as) q (repoint {a} q (code t))\<rparr>) r"
    using Cons.IH [of "t\<lparr>code := repoint {a} q (code t)\<rparr>"] Cons.prems repoint_is_jump by simp
  moreover have "repoint (set as) q (repoint {a} q (code t)) = repoint (set (a # as)) q (code t)"
    using repoint_twice [of "{a}" "code t" "set as" q] Cons.prems by simp
  ultimately show ?case
    using Cons.prems by (simp add: wps wp_patch)
qed

lemma retarget_same:
  "retarget i q = Some j \<Longrightarrow> names_exist C j = names_exist C i \<and> pops C j = pops C i \<and> leaves C j = leaves C i"
  by (cases i) auto

lemma retarget_lands: "retarget i q = Some j \<Longrightarrow> lands j k = Some (p, h) \<Longrightarrow> p = q"
  by (cases i) auto

lemma code_ok_repoint:
  assumes "code_ok C U H c"
    and "\<And>a k j h. a \<in> A \<Longrightarrow> a < length c \<Longrightarrow> H a = Some k \<Longrightarrow> retarget (c ! a) q = Some j \<Longrightarrow> lands j k = Some (q, h) \<Longrightarrow> H q = Some h"
    and "\<And>a. a \<in> A \<Longrightarrow> a < length c \<Longrightarrow> is_jump (c ! a)" and "U \<subseteq> U2 \<union> A"
  shows "code_ok C U2 H (repoint A q c)"
  unfolding code_ok_def
proof (intro allI impI)
  fix p k
  assume p: "p < length (repoint A q c)" and k: "H p = Some k"
  have old: "instr_ok C U H p k (c ! p)"
    using assms(1) p k by (simp add: code_ok_def)
  show "instr_ok C U2 H p k (repoint A q c ! p)"
  proof (cases "p \<in> A")
    case True
    then obtain j where j: "retarget (c ! p) q = Some j"
      using retarget_jump assms(3) p by fastforce
    have "H x = Some h" if "lands j k = Some (x, h)" for x h
      using retarget_lands [OF j that] assms(2) [OF True _ k j, of h] that p by auto
    then show ?thesis
      using True j old retarget_same [OF j, of C] p by (simp add: nth_repoint instr_ok_def)
  next
    case False
    then show ?thesis
      using old assms(4) p by (auto simp: nth_repoint instr_ok_def)
  qed
qed

lemma frame_ok_repoint:
  assumes "frame_ok H c lv f"
  shows "frame_ok H (repoint A q c) lv f"
proof -
  have "waits_for h k (repoint A q c ! a)" if "waits_for h k (c ! a)" "a < length c" for h k a
    using that by (auto simp: nth_repoint waits_for_def)
  moreover have "\<exists>x. repoint A q c ! a = BrUnless x" if "c ! a = BrUnless y" "a < length c" for a y
    using that by (auto simp: nth_repoint)
  ultimately show ?thesis
    using assms unfolding frame_ok_def by (auto simp: frame_jumps_def)
qed

lemma frames_ok_repoint: "frames_ok res H c h fs \<Longrightarrow> frames_ok res H (repoint A q c) h fs"
  by (induction fs arbitrary: h) (auto simp: frame_ok_repoint split: if_splits)

lemma frame_jumps_jump: "frame_ok H c lv f \<Longrightarrow> a \<in> frame_jumps f \<Longrightarrow> a < length c \<and> is_jump (c ! a)"
  by (auto simp: frame_ok_def frame_jumps_def waits_for_def is_jump_def)

end
