(* ===== verification/Vm_Ends.thy ===== *)
theory Vm_Ends
  imports Vm_Annotate
begin

text \<open>
  The ends of blocks: \<open>else_arm\<close> and \<open>end\<close> of \<open>crates/almide-wasm-vm/src/validate.rs\<close>, where the jumps
  that wait for a frame get their target and the point behind it becomes reachable again. With them
  every operation keeps the invariant, so the translation of a body never panics and yields
  annotated code.
\<close>

subsection \<open>Reaching a point again\<close>

lemma revive:
  assumes "covers H (length c) m" and "code_ok C U H c" and "frames_ok res H c h fs"
    and "H (length c) = None \<or> H (length c) = v" and "\<And>k. v = Some k \<Longrightarrow> k \<le> m"
  shows "covers (H(length c := v)) (length c) m" and "code_ok C U (H(length c := v)) c"
    and "frames_ok res (H(length c := v)) c h fs"
proof -
  have old: "(H(length c := v)) x = Some k" if "H x = Some k" for x k
    using that assms(4) by auto
  show "covers (H(length c := v)) (length c) m"
    unfolding covers_def
  proof (intro conjI allI impI)
    show "(H(length c := v)) 0 = Some 0"
      using assms(1) by (intro old) (simp add: covers_def)
    show "p \<le> length c" and "k \<le> m" if "(H(length c := v)) p = Some k" for p k
      using that assms(1,5) by (auto simp: covers_def split: if_splits)
  qed
  have "instr_ok C U (H(length c := v)) p k i" if "instr_ok C U H p k i" for p k i
    using that old by (auto simp: instr_ok_def simp del: fun_upd_apply)
  then show "code_ok C U (H(length c := v)) c"
    using assms(2) by (auto simp: code_ok_def)
  have "frame_ok (H(length c := v)) c lv f" if "frame_ok H c lv f" for lv f
    using that old [of "cstart f"] by (auto simp: frame_ok_def frame_jumps_def)
  then show "frames_ok res (H(length c := v)) c h fs"
    using assms(3) by (induction fs arbitrary: h) (auto simp del: fun_upd_apply split: if_splits)
qed

lemma wp_block_end:
  assumes good: "good t"
    and Q: "\<And>s. popped (of_bool (cres (hd (ctrls t)) \<noteq> None)) t s \<Longrightarrow> length s = cheight (hd (ctrls t)) \<Longrightarrow>
              Q () (t\<lparr>stack := s\<rparr>) r"
  shows "wp check_block_end Q t r"
proof -
  have ne: "ctrls t \<noteq> []"
    using good core_frames by (auto simp: good_def)
  show ?thesis
    unfolding check_block_end_def wps by (simp add: wp_top ne) (rule wp_value_first [OF good], simp add: wps wp_top ne Q)
qed

text \<open>
  The state behind a frame's end: the frame's jumps lead here, and here is reachable when the code
  around the frame is.
\<close>

lemma frame_end:
  assumes H: "core (alive (ctrls t)) H t" and fs: "ctrls t = f # fs"
    and p: "popped (of_bool (cres f \<noteq> None)) t s" and s: "length s = cheight f"
    and x: "x = cheight f + of_bool (cres f \<noteq> None)" and m: "maxh t \<le> m" "x \<le> m"
    and no_if: "ckind f = KIf \<longrightarrow> cres f = None"
  defines "v \<equiv> (if alive fs then Some x else None)"
  shows "covers (H(length (code t) := v)) (length (code t)) m"
    and "jumps fs \<subseteq> U \<Longrightarrow> code_ok (scope_of t) U (H(length (code t) := v)) (repoint (frame_jumps f) (length (code t)) (code t))"
    and "fs \<noteq> [] \<Longrightarrow> frames_ok (t_result t) (H(length (code t) := v)) (repoint (frame_jumps f) (length (code t)) (code t)) x fs"
proof -
  let ?n = "length (code t)" and ?H = "H(length (code t) := v)"
  have fok: "frame_ok H (code t) (alive fs) f" and rest: "fs \<noteq> [] \<longrightarrow> frames_ok (t_result t) H (code t) (cheight f) fs"
    using coreD(3) [OF H] fs by (auto split: if_splits)
  have now: "H ?n = None \<or> H ?n = v"
  proof (cases "alive (ctrls t)")
    case True
    then have "alive fs" using fs by (simp add: alive_def)
    then show ?thesis
      using coreD(4) [OF H] True popped_length [OF p True] s x by (simp add: v_def)
  qed (use coreD(4) [OF H] in simp)
  have cov: "covers H ?n m"
    using coreD(1) [OF H] m by (fastforce simp: covers_def)
  have vm: "k \<le> m" if "v = Some k" for k
    using that m by (simp add: v_def split: if_splits)
  note new = revive [OF cov coreD(2,3) [OF H] now vm]
  show "covers ?H ?n m"
    by (rule new(1))
  have fok2: "frame_ok ?H (code t) (alive fs) f"
    using new(3) fs by simp
  show "code_ok (scope_of t) U ?H (repoint (frame_jumps f) ?n (code t))" if U: "jumps fs \<subseteq> U"
  proof (rule code_ok_repoint [OF new(2)])
    fix a k j h
    assume a: "a \<in> frame_jumps f" "a < length (code t)" and k: "?H a = Some k"
      and j: "retarget (code t ! a) ?n = Some j" "lands j k = Some (?n, h)"
    have "alive fs"
      using fok2 a(1) k unfolding frame_ok_def by (metis option.distinct(1))
    moreover have "h = x"
    proof (cases "a \<in> set (pending f)")
      case True
      then have "waits_for (cheight f) (cres f \<noteq> None) (code t ! a)"
        using fok2 unfolding frame_ok_def by blast
      then show ?thesis
        using j x by (auto simp: waits_for_def)
    next
      case False
      then have a': "if_jump f = Some a"
        using a by (auto simp: frame_jumps_def)
      then have "ckind f = KIf" and un: "\<exists>q. code t ! a = BrUnless q" and h: "k = cheight f + 1"
        using fok2 k unfolding frame_ok_def by auto
      then show ?thesis
        using no_if j x by auto
    qed
    ultimately show "?H ?n = Some h"
      by (simp add: v_def)
  next
    fix a
    assume "a \<in> frame_jumps f"
    then show "is_jump (code t ! a)"
      using frame_jumps_jump [OF fok] by blast
  next
    show "jumps (ctrls t) \<subseteq> U \<union> frame_jumps f"
      using U fs by (auto simp: jumps_def)
  qed
  assume "fs \<noteq> []"
  then have "frames_ok (t_result t) ?H (code t) (cheight f) fs"
    using new(3) fs by simp
  then have "frames_ok (t_result t) ?H (code t) x fs"
    by (cases fs) (auto simp: x)
  then show "frames_ok (t_result t) ?H (repoint (frame_jumps f) ?n (code t)) x fs"
    by (rule frames_ok_repoint)
qed

subsection \<open>The end of a block\<close>

definition done_ok :: "tr \<Rightarrow> bool" where
  "done_ok t \<longleftrightarrow> (\<exists>H. H 0 = Some 0 \<and> (\<forall>p k. H p = Some k \<longrightarrow> p < length (code t) \<and> k \<le> maxh t) \<and>
     code_ok (scope_of t) {} H (code t))"

definition checked :: "tr \<Rightarrow> bool" where
  "checked t \<longleftrightarrow> (if ctrls t = [] then done_ok t else good t)"

lemma good_checked: "good t \<Longrightarrow> checked t"
  using core_frames by (auto simp: checked_def good_def)

text \<open>Both loops over the jumps of a frame, on a state whose code is still the one the jumps are in.\<close>

lemma wp_frame_jumps:
  assumes "frame_ok H (code t) lv f"
  shows "wp (case if_jump f of Some a \<Rightarrow> patch a q | None \<Rightarrow> tret ()) (\<lambda>_. wp (patch_all (pending f) q) Q) t r =
    Q () (t\<lparr>code := repoint (frame_jumps f) q (code t)\<rparr>) r"
proof -
  have jump: "a < length (code t) \<and> is_jump (code t ! a)" if "a \<in> frame_jumps f" for a
    using frame_jumps_jump [OF assms that] .
  have pend: "a < length (code t) \<and> is_jump (code t ! a)" if "a \<in> set (pending f)" for a
    using jump that by (simp add: frame_jumps_def)
  show ?thesis
  proof (cases "if_jump f")
    case None
    then show ?thesis
      using wp_patch_all [OF pend, where Q = Q] by (simp add: wps frame_jumps_def)
  next
    case (Some a)
    have a: "a < length (code t)" "is_jump (code t ! a)"
      using jump Some by (simp_all add: frame_jumps_def)
    have "wp (patch_all (pending f) q) Q (t\<lparr>code := repoint {a} q (code t)\<rparr>) r =
        Q () (t\<lparr>code := repoint (set (pending f)) q (repoint {a} q (code t))\<rparr>) r"
      using wp_patch_all [of "pending f" "t\<lparr>code := repoint {a} q (code t)\<rparr>"] pend repoint_is_jump by simp
    moreover have "repoint (set (pending f)) q (repoint {a} q (code t)) = repoint (frame_jumps f) q (code t)"
      using repoint_twice [of "{a}" "code t" "set (pending f)" q] a Some by (simp add: frame_jumps_def)
    ultimately show ?thesis
      using Some a by (simp add: wp_patch)
  qed
qed

lemma end_good:
  assumes good: "good t" and small: "small t"
  shows "wp v_end (\<lambda>_ t1 _. checked t1) t r"
proof -
  obtain H where H: "core (alive (ctrls t)) H t"
    using good by (auto simp: good_def)
  obtain f fs where fs: "ctrls t = f # fs"
    using core_frames [OF H] by (cases "ctrls t") auto
  have n: "as_u32 (length (code t)) = length (code t)"
    using small by (simp add: as_u32_def small_def)
  have fok: "frame_ok H (code t) (alive fs) f"
    and bottom: "if fs = [] then ckind f = KFunc \<and> cheight f = 0 \<and> cres f = t_result t else ckind f \<noteq> KFunc"
    using coreD(3) [OF H] fs by (auto split: if_splits)
  have step: "wp (v_end_of f) (\<lambda>_ t1 _. checked t1) (t\<lparr>stack := s\<rparr>) r"
    if p: "popped (of_bool (cres f \<noteq> None)) t s" and s: "length s = cheight f" for s
  proof (cases "ckind f = KIf \<and> cres f \<noteq> None")
    case True
    then show ?thesis by (simp add: v_end_of_def wps)
  next
    case False
    define us :: "val_type option list" where "us = (case cres f of None \<Rightarrow> [] | Some ty \<Rightarrow> [Some ty])"
    define m where "m = (case cres f of None \<Rightarrow> maxh t | Some _ \<Rightarrow> max (maxh t) (length s + 1))"
    define x where "x = cheight f + of_bool (cres f \<noteq> None)"
    define c2 where "c2 = repoint (frame_jumps f) (length (code t)) (code t)"
    define v where "v = (if alive fs then Some x else None)"
    have len: "length us + length s = x"
      using s by (auto simp: us_def x_def split: option.split)
    have m: "maxh t \<le> m" "x \<le> m"
      using p s coreD(5) [OF H] by (auto simp: m_def x_def popped_def split: option.split list.splits)
    have no_if: "ckind f = KIf \<longrightarrow> cres f = None"
      using False by auto
    have push: "wp (push_value (cres f)) Q (t\<lparr>stack := s, ctrls := fs, code := c2\<rparr>) r =
        Q () (t\<lparr>stack := s, ctrls := fs, code := c2, stack := us @ s, maxh := m\<rparr>) r" for Q
    proof (cases "cres f")
      case None
      have "t\<lparr>stack := s, ctrls := fs, code := c2\<rparr> = t\<lparr>stack := s, ctrls := fs, code := c2, stack := us @ s, maxh := m\<rparr>"
        by (rule tr.equality) (simp_all add: None us_def m_def)
      then have "Q () (t\<lparr>stack := s, ctrls := fs, code := c2\<rparr>) r =
          Q () (t\<lparr>stack := s, ctrls := fs, code := c2, stack := us @ s, maxh := m\<rparr>) r"
        by (rule arg_cong)
      then show ?thesis
        unfolding None push_value_def by (simp only: wps option.case)
    qed (simp add: push_value_def wps us_def m_def)
    note fe = frame_end [OF H fs p s x_def m no_if, folded v_def c2_def]
    show ?thesis
    proof (cases "fs = []")
      case True
      have kf: "ckind f = KFunc" and h0: "cheight f = 0" and res: "cres f = t_result t"
        using bottom True by auto
      have ij: "if_jump f = None"
        using fok kf by (auto simp: frame_ok_def)
      have "alive fs" using True by (simp add: alive_def)
      then have vx: "v = Some x" by (simp add: v_def)
      let ?H = "(H(length (code t) := v))(Suc (length c2) := None)"
      let ?t2 = "t\<lparr>stack := s, ctrls := fs, code := c2, stack := us @ s, maxh := m, code := c2 @ [ICall Return]\<rparr>"
      have c2n: "length c2 = length (code t)"
        by (simp add: c2_def)
      have cov: "covers (H(length (code t) := v)) (length c2) m"
        using fe(1) by (simp add: c2n)
      have ret: "instr_ok (scope_of t) {} ?H (length c2) k (ICall Return)"
        if "(H(length (code t) := v)) (length c2) = Some k" for k
        using that vx c2n res by (auto simp: instr_ok_def scope_of_def x_def)
      have "code_ok (scope_of t) {} ?H (c2 @ [ICall Return])"
        by (rule code_ok_next [OF fe(2) cov _ ret, of "{}"]) (simp_all add: True jumps_def)
      moreover have "?H 0 = Some 0"
        using cov by (simp add: covers_def)
      moreover have "p < length (c2 @ [ICall Return]) \<and> k \<le> m" if "?H p = Some k" for p k
        using cov that by (auto simp: covers_def less_Suc_eq_le simp del: fun_upd_apply(1) split: if_splits)
          (auto simp: fun_upd_apply split: if_splits)
      ultimately have "done_ok ?t2"
        unfolding done_ok_def by (intro exI [of _ ?H]) (simp add: scope_of_def)
      then have "checked ?t2"
        using True by (simp add: checked_def)
      moreover have "wp (patch_all (pending f) (length (code t))) Q (t\<lparr>stack := s, ctrls := fs\<rparr>) r =
          Q () (t\<lparr>stack := s, ctrls := fs, code := c2\<rparr>) r" for Q
        using wp_frame_jumps [of H "t\<lparr>stack := s, ctrls := fs\<rparr>" "alive fs" f "length (code t)" Q] fok ij
        by (simp add: wps c2_def)
      ultimately show ?thesis
        using kf fs push n by (simp add: v_end_of_def wps wp_pop_ctrl)
    next
      case False
      then have kf: "ckind f \<noteq> KFunc"
        using bottom by simp
      let ?t2 = "t\<lparr>stack := s, ctrls := fs, code := c2, stack := us @ s, maxh := m\<rparr>"
      have "core (alive fs) (H(length (code t) := v)) ?t2"
        using fe(1) fe(2) [of "jumps fs"] fe(3) False m len unfolding core_def
        by (simp add: c2_def scope_of_def v_def)
      then have "checked ?t2"
        using False by (auto simp: checked_def good_def)
      then show ?thesis
        using kf fs push n \<open>\<not> (ckind f = KIf \<and> cres f \<noteq> None)\<close> fok
          wp_frame_jumps [of H "t\<lparr>stack := s, ctrls := fs\<rparr>" "alive fs" f "length (code t)"]
        by (simp add: v_end_of_def wps wp_pop_ctrl c2_def cong: option.case_cong)
    qed
  qed
  show ?thesis
    unfolding v_end_def wp_seq [of check_block_end]
  proof (rule wp_block_end [OF good], goal_cases)
    case (1 s)
    then show ?case
      using step [of s] fs by (simp add: wp_bind [of top] wp_top)
  qed
qed

subsection \<open>The else arm\<close>

lemma else_core:
  assumes H: "core (alive (ctrls t)) H t" and fs: "ctrls t = f # fs" and ckind: "ckind f = KIf"
    and p: "popped (of_bool (cres f \<noteq> None)) t s" and s: "length s = cheight f"
    and ij: "if_jump f = Some ij"
    and t2: "same_env t t2" "stack t2 = s" "maxh t2 = maxh t"
      "code t2 = repoint {ij} (Suc (length (code t))) (code t @ [Br 0 (cheight f) (cres f \<noteq> None)])"
      "ctrls t2 = f\<lparr>pending := pending f @ [length (code t)], if_jump := None, ckind := KElse, cunreach := False\<rparr> # fs"
  shows "good t2"
proof -
  let ?n = "length (code t)" and ?i = "Br 0 (cheight f) (cres f \<noteq> None)"
  define g where "g = f\<lparr>pending := pending f @ [?n]\<rparr>"
  define g2 where "g2 = f\<lparr>pending := pending f @ [?n], if_jump := None, ckind := KElse, cunreach := False\<rparr>"
  define v where "v = (if alive fs then Some (length ([] :: val_type option list) + length s) else None)"
  define t1 where "t1 = t\<lparr>stack := s, code := code t @ [?i], ctrls := g # fs\<rparr>"
  let ?H = "H(Suc ?n := v)" and ?c = "code t @ [?i]"
  have len: "length s \<le> maxh t"
    using p coreD(5) [OF H] by (auto simp: popped_def split: list.splits)
  have ne: "fs \<noteq> []"
    using coreD(3) [OF H] fs ckind by auto
  have "frames_ok (t_result t) H (code t) (length s) (ctrls t)"
    by (rule popped_frames [OF p coreD(3) [OF H]]) simp
  then have frs: "frames_ok (t_result t) ?H ?c (length s) (f # fs)"
    unfolding fs by (rule frames_ok_next [OF _ coreD(1) [OF H]])
  have now: "H ?n \<noteq> None \<longrightarrow> alive fs"
    using coreD(4) [OF H] fs by (auto simp: alive_def)
  have gok: "frame_ok ?H ?c (alive fs) g"
  proof -
    have fok: "frame_ok ?H ?c (alive fs) f"
      using frs by simp
    have "waits_for (cheight f) (cres f \<noteq> None) (?c ! ?n)"
      by (simp add: waits_for_def)
    moreover have "?H ?n \<noteq> None \<longrightarrow> alive fs"
      using now by simp
    ultimately have "\<forall>a \<in> frame_jumps g. ?H a \<noteq> None \<longrightarrow> alive fs"
      using fok by (auto simp: frame_ok_def frame_jumps_def g_def simp del: fun_upd_apply)
    then show ?thesis
      using fok ckind by (simp add: frame_ok_def g_def waits_for_def nth_append del: fun_upd_apply)
  qed
  have fr1: "frames_ok (t_result t) ?H ?c (length ([] :: val_type option list) + length s) (ctrls t1)"
    using frs gok ne by (simp add: t1_def g_def)
  have c1: "core (alive fs) ?H t1"
    by (rule core_emit [OF H p, where us = "[]" and i = ?i, OF _ _ _ _ _ _ _ _ fr1 v_def])
      (use len fs in \<open>auto simp: t1_def same_env_def jumps_def frame_jumps_def g_def\<close>)
  have ijn: "ij < length ?c" "\<exists>q. ?c ! ij = BrUnless q" and ijh: "\<And>k. ?H ij = Some k \<Longrightarrow> k = cheight f + 1"
    using gok ij by (auto simp: frame_ok_def g_def simp del: fun_upd_apply)
  have lv: "?H ij \<noteq> None \<Longrightarrow> alive fs"
    using gok ij by (simp add: frame_ok_def frame_jumps_def g_def del: fun_upd_apply)
  have code2: "code_ok (scope_of t) (jumps (g2 # fs)) ?H (repoint {ij} (Suc ?n) ?c)"
  proof (rule code_ok_repoint)
    show "code_ok (scope_of t) (jumps (g # fs)) ?H ?c"
      using coreD(2) [OF c1] by (simp add: t1_def scope_of_def del: fun_upd_apply)
    show "jumps (g # fs) \<subseteq> jumps (g2 # fs) \<union> {ij}"
      using ij by (auto simp: jumps_def frame_jumps_def g_def g2_def)
    show "is_jump (?c ! a)" if "a \<in> {ij}" for a
      using that ijn by (auto simp: is_jump_def)
    show "?H (Suc ?n) = Some h"
      if "a \<in> {ij}" "?H a = Some k" "retarget (?c ! a) (Suc ?n) = Some j" "lands j k = Some (Suc ?n, h)" for a k j h
    proof -
      have "alive fs" and "k = cheight f + 1"
        using that(1,2) lv ijh by auto
      moreover have "h = k - 1"
        using that ijn by auto
      ultimately show ?thesis
        using s by (simp add: v_def)
    qed
  qed
  have "\<forall>a \<in> frame_jumps g2. ?H a \<noteq> None \<longrightarrow> alive fs"
    using gok by (auto simp: frame_ok_def frame_jumps_def g_def g2_def simp del: fun_upd_apply)
  then have "frame_ok ?H ?c (alive fs) g2"
    using gok ckind by (simp add: frame_ok_def g_def g2_def del: fun_upd_apply)
  then have "frames_ok (t_result t) ?H (repoint {ij} (Suc ?n) ?c) (length s) (g2 # fs)"
    using frs ne by (intro frames_ok_repoint) (simp add: g2_def)
  moreover have "covers ?H (Suc ?n) (maxh t)"
    using coreD(1) [OF c1] by (simp add: t1_def)
  moreover have "?H (Suc ?n) = (if alive fs then Some (length s) else None)"
    by (simp add: v_def)
  moreover have "scope_of t2 = scope_of t" and "t_result t2 = t_result t"
    using t2(1) by (simp_all add: same_scope) (simp add: same_env_def)
  moreover have ctrls2: "ctrls t2 = g2 # fs"
    by (simp add: t2(5) g2_def)
  ultimately have "core (alive fs) ?H t2"
    using t2(2-4) code2 len ctrls2 unfolding core_def by (simp del: fun_upd_apply frames_ok.simps)
  moreover have "alive (ctrls t2) = alive fs"
    using t2 by (simp add: alive_def)
  ultimately show ?thesis
    by (auto simp: good_def)
qed

lemma else_good:
  assumes good: "good t" and small: "small t"
  shows "keeps_good v_else t r"
proof -
  obtain H where H: "core (alive (ctrls t)) H t"
    using good by (auto simp: good_def)
  obtain f fs where fs: "ctrls t = f # fs"
    using core_frames [OF H] by (cases "ctrls t") auto
  have n: "as_u32 (Suc (length (code t))) = Suc (length (code t))"
    using small by (simp add: as_u32_def small_def)
  have fok: "frame_ok H (code t) (alive fs) f"
    using coreD(3) [OF H] fs by (auto split: if_splits)
  then have h: "as_u32 (cheight f) = cheight f"
    by (simp add: frame_ok_def as_u32_def)
  have step: "keeps_good (v_else_of f) (t\<lparr>stack := s\<rparr>) r"
    if ckind: "ckind f = KIf" and p: "popped (of_bool (cres f \<noteq> None)) t s" and s: "length s = cheight f" for s
  proof -
    obtain ij where ij: "if_jump f = Some ij"
      using fok ckind by (auto simp: frame_ok_def)
    have jump: "ij < length (code t)" "is_jump (code t ! ij)"
      using frame_jumps_jump [OF fok] ij by (auto simp: frame_jumps_def)
    have cut: "cut_to (cheight f) s = s"
      by (simp add: cut_to_def s)
    note else_core [OF H fs ckind p s ij]
    then show ?thesis
      using jump ij fs
      by (simp add: v_else_of_def wps wp_pop_ctrl n h wp_patch nth_append cut same_env_def Let_def del: fun_upd_apply cong: option.case_cong)
  qed
  show ?thesis
    unfolding v_else_def wp_bind [of top] using fs
    by (auto simp: wp_top wp_if wp_fail wp_seq wp_bind fs intro!: wp_block_end [OF good] step)
qed

end
