(* ===== verification/Vm_Body.thy ===== *)
theory Vm_Body
  imports Vm_Ends
begin

text \<open>
  The translation of a body, \<open>translate\<close> of \<open>crates/almide-wasm-vm/src/validate.rs\<close>, never panics, and the
  body it yields carries an annotation of its reachable points. Every opcode takes at least a byte,
  so the sizes of the code and of the operand stack stay within the body's bytes and no \<open>as u32\<close> cuts.
\<close>

subsection \<open>Every operation\<close>

abbreviation keeps_checked :: "unit tm \<Rightarrow> tr \<Rightarrow> rdr \<Rightarrow> bool" where
  "keeps_checked m \<equiv> wp m (\<lambda>_ t1 _. checked t1)"

lemma keeps_good_checked: "keeps_good m t r \<Longrightarrow> keeps_checked m t r"
  by (erule wp_mono) (rule good_checked)

lemma control_checked:
  assumes "good t" and "env_ok t" and "small t"
  shows "keeps_checked (v_control n) t r"
proof -
  have "wp (tbind (tread ru32) (\<lambda>d. tseq (branch_value d) (tseq (branch d False) set_unreachable)))
      (\<lambda>_ t1 _. good t1) t r"
    using br_good [OF assms(1)] unfolding wp_bind wp_read by blast
  moreover have "keeps_checked (outside_set n) t r"
    by (simp add: wps)
  ultimately show ?thesis
    unfolding v_control_def
    using end_good [OF assms(1,3), of r] unreachable_good [OF assms(1), of r] return_good [OF assms(1), of r]
      block_good [OF assms(1,3), of _ r] if_good [OF assms(1,3), of r] else_good [OF assms(1,3), of r]
      br_if_good [OF assms(1), of r] call_good [OF assms(1,2), of _ r]
    by (simp add: keeps_good_checked)
qed

lemma op_checked:
  assumes "good t" and "env_ok t" and "small t"
  shows "keeps_checked (v_op pn n) t r"
  unfolding v_op_def
  using control_checked [OF assms, of n r] drop_good [OF assms(1), of r] select_good [OF assms(1), of r]
    variable_good [OF assms(1,2), of n r] memory_size_good [OF assms(1), of n r] constant_good [OF assms(1), of n r]
    prefixed_good [OF assms(1), of pn r] memory_good [OF assms(1), of pn n r]
  by (simp add: keeps_good_checked)

subsection \<open>The loop\<close>

definition loop_ok :: "tr \<Rightarrow> rdr \<Rightarrow> bool" where
  "loop_ok t r \<longleftrightarrow> checked t \<and> env_ok t \<and> length (code t) \<le> r_pos r \<and> peak t \<le> r_pos r \<and>
     r_pos r \<le> length (r_bytes r) \<and> length (r_bytes r) < 2 ^ 32"

lemma loop_step:
  assumes inv: "loop_ok t r" and blocks: "ctrls t \<noteq> []" and byte: "rbyte r = Inr (b, r1)"
  shows "wp (v_op pn (of_char b)) (\<lambda>_ t2 r2. loop_ok t2 r2 \<and> same_env t t2) t r1"
proof -
  have r1: "ahead r r1" "r_pos r < r_pos r1"
    using rbyte_next [OF byte] by auto
  have good: "good t"
    using inv blocks by (simp add: loop_ok_def checked_def)
  have small: "small t"
    using inv r1 by (auto simp: loop_ok_def small_def ahead_def peak_def)
  have env: "env_ok t"
    using inv by (simp add: loop_ok_def)
  have "loop_ok t2 r2 \<and> same_env t t2" if ok: "v_op pn (of_char b) t r1 = TOk x t2 r2" and chk: "checked t2" for x t2 r2
  proof -
    have on: "ahead r1 r2" "same_env t t2"
      using op_onward [OF ok] by (auto simp: onward_def same_env_def)
    then have "env_ok t2"
      using env by (simp add: env_ok_def same_env_def)
    then show ?thesis
      using inv r1 on chk op_emits_one [OF ok] op_pushes_one [OF ok] by (auto simp: loop_ok_def ahead_def)
  qed
  then show ?thesis
    using op_checked [OF good env small, of pn "of_char b" r1] by (auto simp: wp_def split: tres.splits)
qed

lemma loop_done:
  "loop_ok t r \<Longrightarrow> wp (translate_loop pn) (\<lambda>_ t2 r2. loop_ok t2 r2 \<and> ctrls t2 = [] \<and> same_env t t2) t r"
proof (induction pn t r rule: translate_loop.induct)
  case (1 pn t r)
  show ?case
  proof (cases "ctrls t = []")
    case True
    then show ?thesis
      using 1(2) by (simp add: wp_def translate_loop.simps [of pn t r] same_env_def)
  next
    case False
    show ?thesis
    proof (cases "rbyte r")
      case (Inl e)
      then show ?thesis
        using False by (simp add: wp_def translate_loop.simps [of pn t r])
    next
      case (Inr br)
      obtain b r1 where br: "br = (b, r1)" by (cases br)
      have step: "wp (v_op pn (of_char b)) (\<lambda>_ t2 r2. loop_ok t2 r2 \<and> same_env t t2) t r1"
        using loop_step [OF 1(2) False] Inr br by simp
      show ?thesis
      proof (cases "v_op pn (of_char b) t r1")
        case TPanic
        then show ?thesis using step by (simp add: wp_def)
      next
        case (TErr e)
        then show ?thesis
          using False Inr br by (simp add: wp_def translate_loop.simps [of pn t r])
      next
        case (TOk u t2 r2)
        then have mid: "loop_ok t2 r2" "same_env t t2"
          using step by (simp_all add: wp_def)
        have "wp (translate_loop pn) (\<lambda>_ t3 r3. loop_ok t3 r3 \<and> ctrls t3 = [] \<and> same_env t2 t3) t2 r2"
          by (rule 1(1) [OF False Inr br [symmetric] TOk mid(1)])
        then show ?thesis
          using False Inr br TOk mid(2) by (auto simp: wp_def translate_loop.simps [of pn t r] same_env_def split: tres.splits)
      qed
    qed
  qed
qed

subsection \<open>The whole body\<close>

text \<open>Runs of locals, the last ending at \<open>e\<close>.\<close>

definition runs_ok :: "nat \<Rightarrow> nat \<Rightarrow> locals \<Rightarrow> bool" where
  "runs_ok n e ls \<longleftrightarrow> sorted (map fst ls) \<and> run_end ls = e \<and> n \<le> e"

lemma run_ends_below: "sorted (map fst ls) \<Longrightarrow> x \<in> set ls \<Longrightarrow> fst x \<le> run_end ls"
  by (induction ls) (auto simp: run_end_def split: if_splits)

lemma param_runs_ok: "runs_ok (length ps) (length ps) (param_runs ps)"
proof -
  have "map fst (param_runs ps) = [1..<length ps + 1]"
    by (simp add: param_runs_def)
  moreover have "run_end (param_runs ps) = length ps"
    by (cases ps rule: rev_cases) (auto simp: run_end_def param_runs_def last_zip zip_eq_Nil_iff Suc_le_eq)
  ultimately show ?thesis
    by (simp add: runs_ok_def del: upt_Suc)
qed

lemma local_run_ok:
  assumes "local_run e ls r = Inr ((e2, ls2), r2)" and "runs_ok n e ls"
  shows "runs_ok n e2 ls2"
proof -
  obtain k t where *: "e2 = e + k" "ls2 = (if 0 < k then ls @ [(e + k, t)] else ls)"
    using assms(1) by (auto simp: local_run_def rret_def rfail_def elim!: rbindE split: option.splits if_splits)
  have "fst x \<le> e + k" if "x \<in> set ls" for x
    using run_ends_below [OF _ that] assms(2) by (simp add: runs_ok_def)
  then show ?thesis
    using assms(2) * by (auto simp: runs_ok_def sorted_append run_end_def)
qed

lemma local_runs_ok:
  "local_runs k e ls r = Inr (ls2, r2) \<Longrightarrow> runs_ok n e ls \<Longrightarrow> \<exists>e2. runs_ok n e2 ls2"
proof (induction k e ls arbitrary: r rule: local_runs.induct)
  case (2 k e ls)
  then obtain e1 ls1 r1 where "local_run e ls r = Inr ((e1, ls1), r1)" and "local_runs k e1 ls1 r1 = Inr (ls2, r2)"
    by (auto elim!: rbindE)
  then show ?case
    using 2 local_run_ok by blast
qed (auto simp: rret_def)

lemma locals_ok:
  assumes "read_locals ty r = Inr (ls, r1)"
  shows "sorted (map fst ls)" and "length (params ty) \<le> run_end ls"
proof -
  obtain k r2 where "local_runs k (length (params ty)) (param_runs (params ty)) r2 = Inr (ls, r1)"
    using assms by (auto simp: read_locals_def elim!: rbindE)
  then obtain e where "runs_ok (length (params ty)) e ls"
    using local_runs_ok param_runs_ok by blast
  then show "sorted (map fst ls)" and "length (params ty) \<le> run_end ls"
    by (auto simp: runs_ok_def)
qed

lemma start_good: "good (start_tr c ty ls)"
proof -
  let ?t = "start_tr c ty ls" and ?H = "(\<lambda>_. None)(0 := Some 0) :: heights"
  have "core True ?H ?t"
    by (auto simp: core_def start_tr_def covers_def code_ok_def new_ctrl_def frame_ok_def frame_jumps_def)
  moreover have "alive (ctrls ?t)"
    by (simp add: alive_def start_tr_def new_ctrl_def)
  ultimately show ?thesis
    by (auto simp: good_def)
qed

theorem translate_body:
  assumes "\<forall>ty \<in> set (c_types c). length (results ty) \<le> 1"
    and "r_pos r \<le> length (r_bytes r)" and "length (r_bytes r) < 2 ^ 32"
  shows "translate pn c ty r \<noteq> None"
    and "translate pn c ty r = Some (Inr b) \<Longrightarrow> body_ok c ty b"
proof -
  have "case translate pn c ty r of None \<Rightarrow> False | Some (Inl e) \<Rightarrow> True | Some (Inr b) \<Rightarrow> body_ok c ty b"
  proof (cases "read_locals ty r")
    case (Inl e)
    then show ?thesis by (simp add: translate_def)
  next
    case (Inr lr)
    obtain ls r1 where lr: "lr = (ls, r1)" by (cases lr)
    have r1: "ahead r r1"
      using reads_locals [of ty] Inr lr by (simp add: reads_def)
    then have "r_bytes r1 = r_bytes r" and "r_pos r1 \<le> length (r_bytes r)"
      using assms(2) by (auto simp: ahead_def)
    then have "loop_ok (start_tr c ty ls) r1"
      using good_checked [OF start_good, of c ty ls] assms(1,3) locals_ok [of ty r ls r1] Inr lr
      by (simp add: loop_ok_def env_ok_def start_tr_def peak_def)
    then have w: "wp (translate_loop pn) (\<lambda>_ t2 r2. loop_ok t2 r2 \<and> ctrls t2 = [] \<and> same_env (start_tr c ty ls) t2)
        (start_tr c ty ls) r1"
      by (rule loop_done)
    have "body_ok c ty \<lparr>b_locals = run_end ls, b_params = length (params ty), b_code = code t2, b_max = as_u32 (maxh t2)\<rparr>"
      if fin: "loop_ok t2 r2" "ctrls t2 = []" "same_env (start_tr c ty ls) t2" for t2 r2
    proof -
      have max: "as_u32 (maxh t2) = maxh t2" and small: "length (code t2) < 2 ^ 32"
        using fin(1) by (auto simp: loop_ok_def as_u32_def peak_def)
      have scope: "scope_of t2 = \<lparr>sc_ctx = c, sc_locals = run_end ls, sc_result = (results ty \<noteq> [])\<rparr>"
        using fin(3) by (auto simp: same_env_def scope_of_def start_tr_def first_result_def split: list.splits)
      have "done_ok t2"
        using fin by (simp add: loop_ok_def checked_def)
      then show ?thesis
        using max small scope locals_ok(2) [of ty r ls r1] Inr lr by (simp add: body_ok_def done_ok_def)
    qed
    then show ?thesis
      using Inr lr w by (auto simp: translate_def wp_def split: tres.splits)
  qed
  then show "translate pn c ty r \<noteq> None" and "translate pn c ty r = Some (Inr b) \<Longrightarrow> body_ok c ty b"
    by (auto split: option.splits)
qed

end
