(* ===== verification/Vm_Valid.thy ===== *)
theory Vm_Valid
  imports Vm_Module Vm_Body
begin

text \<open>
  Decoding never panics, and the module it yields is valid: its indices exist, its imports have their
  signatures, its bodies are annotated, its segments fit (\<open>decode\<close> of
  \<open>crates/almide-wasm-vm/src/module.rs\<close>). The invariant follows the draft through the sections; their
  order matters, because a body is checked against the types, functions and globals before it.
\<close>

subsection \<open>Valid modules\<close>

definition module_ctx :: "module \<Rightarrow> ctx" where
  "module_ctx m =
     \<lparr>c_types = m_types m, c_funcs = m_funcs m, c_globals = map (\<lambda>g. (g_ty g, g_mut g)) (m_globals m),
      c_table = (m_table m \<noteq> None), c_memory = (m_memory m \<noteq> None)\<rparr>"

text \<open>The type of the function \<open>f\<close>, an import or a defined one.\<close>

definition ftype :: "module \<Rightarrow> nat \<Rightarrow> func_type" where
  "ftype m f = m_types m ! (m_funcs m ! f)"

definition limits_fit :: "(nat \<times> nat option) option \<Rightarrow> bool" where
  "limits_fit l \<longleftrightarrow> (\<forall>lo hi. l = Some (lo, hi) \<longrightarrow> lo \<le> MAX_PAGES \<and> (\<forall>h. hi = Some h \<longrightarrow> lo \<le> h \<and> h \<le> MAX_PAGES))"

definition module_ok :: "module \<Rightarrow> bool" where
  "module_ok m \<longleftrightarrow>
     (\<forall>ty \<in> set (m_types m). length (results ty) \<le> 1 \<and> length (params ty) \<le> MAX_PARAMS) \<and>
     (\<forall>t \<in> set (m_funcs m). t < length (m_types m)) \<and>
     length (m_funcs m) = length (m_imports m) + length (m_bodies m) \<and>
     (\<forall>f < length (m_imports m). ftype m f = signature (m_imports m ! f)) \<and>
     (\<forall>k < length (m_bodies m). body_ok (module_ctx m) (ftype m (length (m_imports m) + k)) (m_bodies m ! k)) \<and>
     m_entry m < length (m_funcs m) \<and> ftype m (m_entry m) = fn_type [] [] \<and>
     limits_fit (m_memory m) \<and> m_memory m \<noteq> None \<and>
     (\<forall>seg \<in> set (m_elements m).
        seg_offset seg + length (seg_items seg) \<le> (case m_table m of None \<Rightarrow> 0 | Some n \<Rightarrow> n) \<and>
        (\<forall>f \<in> set (seg_items seg). f < length (m_funcs m))) \<and>
     (\<forall>seg \<in> set (m_data m).
        seg_offset seg + length (seg_items seg) \<le> (case m_memory m of None \<Rightarrow> 0 | Some (lo, _) \<Rightarrow> lo * PAGE))"

subsection \<open>Valid drafts\<close>

definition draft_fn :: "draft \<Rightarrow> nat \<Rightarrow> func_type" where
  "draft_fn d f = d_types d ! (d_funcs d ! f)"

definition draft_wf :: "draft \<Rightarrow> bool" where
  "draft_wf d \<longleftrightarrow>
     (\<forall>ty \<in> set (d_types d). length (results ty) \<le> 1 \<and> length (params ty) \<le> MAX_PARAMS) \<and>
     (\<forall>t \<in> set (d_funcs d). t < length (d_types d)) \<and>
     length (d_imports d) \<le> length (d_funcs d) \<and>
     (\<forall>f < length (d_imports d). draft_fn d f = signature (d_imports d ! f)) \<and>
     (\<forall>e. d_entry d = Some e \<longrightarrow> e < length (d_funcs d)) \<and> limits_fit (d_memory d)"

text \<open>Before the code section, and before the function section.\<close>

definition early :: "draft \<Rightarrow> bool" where
  "early d \<longleftrightarrow> draft_wf d \<and> d_bodies d = [] \<and> \<not> d_code_seen d"

definition paired :: "draft \<Rightarrow> bool" where
  "paired d \<longleftrightarrow> early d \<and> length (d_funcs d) = length (d_imports d)"

definition bodies_ok :: "draft \<Rightarrow> bool" where
  "bodies_ok d \<longleftrightarrow> length (d_funcs d) = length (d_imports d) + length (d_bodies d) \<and>
     (\<forall>k < length (d_bodies d). body_ok (draft_ctx d) (draft_fn d (length (d_imports d) + k)) (d_bodies d ! k))"

definition draft_ok :: "nat \<Rightarrow> draft \<Rightarrow> bool" where
  "draft_ok prev d \<longleftrightarrow> draft_wf d \<and>
     (prev < 3 \<longrightarrow> paired d) \<and> (prev < 11 \<longrightarrow> early d) \<and>
     (if d_code_seen d then bodies_ok d else d_bodies d = [])"

lemma new_draft_ok: "draft_ok 0 new_draft"
  by (simp add: draft_ok_def draft_wf_def paired_def early_def new_draft_def limits_fit_def)

text \<open>What a decoder yields, whatever it reads.\<close>

definition yields :: "'a rd \<Rightarrow> ('a \<Rightarrow> bool) \<Rightarrow> bool" where
  "yields p P \<longleftrightarrow> (\<forall>r x r1. p r = Inr (x, r1) \<longrightarrow> P x)"

named_theorems yielding

lemma yieldsD: "yields p P \<Longrightarrow> p r = Inr (x, r1) \<Longrightarrow> P x"
  unfolding yields_def by blast

lemma yields_bind [yielding]: "(\<And>x. yields (f x) P) \<Longrightarrow> yields (rbind p f) P"
  by (fastforce simp: yields_def elim!: rbindE)

lemma yields_ret [yielding]: "P x \<Longrightarrow> yields (rret x) P"
  by (simp add: yields_def rret_def)

lemma yields_fail [yielding]: "yields (rfail w) P"
  by (simp add: yields_def rfail_def)

lemma yields_if [yielding]: "(b \<Longrightarrow> yields p P) \<Longrightarrow> (\<not> b \<Longrightarrow> yields q P) \<Longrightarrow> yields (if b then p else q) P"
  by simp

lemma yields_option [yielding]:
  "(v = None \<Longrightarrow> yields p P) \<Longrightarrow> (\<And>x. v = Some x \<Longrightarrow> yields (f x) P) \<Longrightarrow>
     yields (case v of None \<Rightarrow> p | Some x \<Rightarrow> f x) P"
  by (cases v) simp_all

lemma yields_prod [yielding]: "(\<And>x y. v = (x, y) \<Longrightarrow> yields (f x y) P) \<Longrightarrow> yields (case v of (x, y) \<Rightarrow> f x y) P"
  by (cases v) simp

lemma yields_let [yielding]: "(\<And>x. x = v \<Longrightarrow> yields (f x) P) \<Longrightarrow> yields (let x = v in f x) P"
  by simp

lemma yields_for [yielding]:
  assumes "P d" and "\<And>d. P d \<Longrightarrow> yields (f d) P"
  shows "yields (rfor n f d) P"
proof -
  have "rfor n f d r = Inr (d2, r2) \<Longrightarrow> P d \<Longrightarrow> P d2" for r d2 r2
    by (induction n arbitrary: d r) (auto simp: rret_def elim!: rbindE dest: yieldsD [OF assms(2)])
  then show ?thesis using assms(1) by (simp add: yields_def)
qed

lemmas early_unfold = early_def draft_wf_def draft_fn_def

lemma one_type_early: "early d \<Longrightarrow> yields (one_type d) early"
  unfolding one_type_def
  by (intro yielding) (auto simp: early_unfold fn_type_def nth_append less_Suc_eq)

lemma one_type_paired: "paired d \<Longrightarrow> yields (one_type d) paired"
  unfolding one_type_def
  by (intro yielding) (auto simp: paired_def early_unfold fn_type_def nth_append less_Suc_eq)

lemma one_import_paired: "paired d \<Longrightarrow> yields (one_import d) paired"
  unfolding one_import_def
  by (intro yielding) (auto simp: paired_def early_unfold nth_append sget_Some less_Suc_eq)

lemma one_function_early: "early d \<Longrightarrow> yields (one_function d) early"
  unfolding one_function_def by (intro yielding) (auto simp: early_unfold nth_append)

lemma one_export_early: "early d \<Longrightarrow> yields (one_export d) early"
  unfolding one_export_def by (intro yielding) (auto simp: early_unfold export_count_def)

lemma other_early:
  assumes "early d"
  shows "yields (one_global d) early" "yields (one_element d) early" "yields (table_section d) early"
    "yields (count_section d) early"
  unfolding one_global_def one_element_def table_section_def count_section_def
  by (intro yielding; use assms in \<open>simp add: early_unfold\<close>)+

lemma memory_early: "early d \<Longrightarrow> yields (memory_section d) early"
  unfolding memory_section_def
  by (intro yielding) (auto simp: early_unfold limits_fit_def split: option.splits)

text \<open>A section before the code section.\<close>

lemma section_early:
  assumes "i \<notin> {0, 1, 2, 11}" and "early d"
  shows "yields (section_plain i d) early"
  unfolding section_plain_def function_section_def global_section_def export_section_def element_section_def
  using assms
  by (intro yielding) (auto intro: one_function_early one_export_early other_early memory_early)

lemma section_paired:
  assumes "i \<in> {1, 2}" and "paired d"
  shows "yields (section_plain i d) paired"
  unfolding section_plain_def type_section_def import_section_def
  using assms by (intro yielding) (auto intro: one_type_paired one_import_paired)

lemma section_data: "yields (section_plain 11 d) (\<lambda>d2. \<exists>x. d2 = d\<lparr>d_data := x\<rparr>)"
proof -
  have one: "yields (one_data d1) (\<lambda>d2. \<exists>x. d2 = d\<lparr>d_data := x\<rparr>)" if "\<exists>x. d1 = d\<lparr>d_data := x\<rparr>" for d1
    unfolding one_data_def by (intro yielding) (use that in auto)
  have start: "\<exists>x. d = d\<lparr>d_data := x\<rparr>"
    by (rule exI [of _ "d_data d"]) simp
  have "yields (data_section d) (\<lambda>d2. \<exists>x. d2 = d\<lparr>d_data := x\<rparr>)"
    unfolding data_section_def by (intro yielding one start)
  then show ?thesis
    by (simp add: section_plain_def)
qed

subsection \<open>The code section\<close>

lemma sub_small: "rbind ru32 rsub r = Inr (b, r1) \<Longrightarrow> r_pos b = 0 \<and> length (r_bytes b) < 2 ^ 32"
proof (elim rbindE)
  fix n r2
  assume n: "ru32 r = Inr (n, r2)" and b: "rsub n r2 = Inr (b, r1)"
  obtain v :: "32 word" where "n = unat v"
    using n by (auto simp: ru32_def rret_def elim!: rbindE)
  then have "n < 2 ^ 32"
    using unsigned_less [of v] by simp
  then show ?thesis
    using b by (auto simp: rsub_def rtake_def rret_def rfail_def checked_add_usize_def subslice_def
        elim!: rbindE split: option.splits if_splits)
qed

lemma code_bodies_ok:
  assumes "draft_wf d" and "length (d_imports d) + i + n \<le> length (d_funcs d)"
  shows "case code_bodies pn d i n r of None \<Rightarrow> False | Some (Inl e) \<Rightarrow> True
    | Some (Inr (bs, r2)) \<Rightarrow> length bs = n \<and>
        (\<forall>k < n. body_ok (draft_ctx d) (draft_fn d (length (d_imports d) + i + k)) (bs ! k))"
  using assms(2)
proof (induction n arbitrary: i r)
  case (Suc n)
  let ?f = "length (d_imports d) + i"
  have f: "?f < length (d_funcs d)"
    using Suc.prems by simp
  then have t: "d_funcs d ! ?f < length (d_types d)"
    using assms(1) by (simp add: draft_wf_def)
  have look: "Option.bind (sget (d_funcs d) ?f) (sget (d_types d)) = Some (draft_fn d ?f)"
    using f t by (simp add: sget_def draft_fn_def)
  have one: "\<forall>ty \<in> set (c_types (draft_ctx d)). length (results ty) \<le> 1"
    using assms(1) by (simp add: draft_wf_def draft_ctx_def)
  show ?case
  proof (cases "rbind ru32 rsub r")
    case (Inl e)
    then show ?thesis by simp
  next
    case (Inr br)
    obtain b r1 where br: "br = (b, r1)" by (cases br)
    have small: "r_pos b \<le> length (r_bytes b)" "length (r_bytes b) < 2 ^ 32"
      using sub_small [of r b r1] Inr br by simp_all
    obtain x where x: "translate pn (draft_ctx d) (draft_fn d ?f) b = Some x"
      using translate_body(1) [OF one small] by blast
    show ?thesis
    proof (cases x)
      case (Inl e)
      then show ?thesis using \<open>rbind ru32 rsub r = Inr br\<close> br look x by simp
    next
      case (Inr body)
      have body: "body_ok (draft_ctx d) (draft_fn d ?f) body"
        using translate_body(2) [OF one small] x Inr by blast
      have rest: "case code_bodies pn d (i + 1) n r1 of None \<Rightarrow> False | Some (Inl e) \<Rightarrow> True
        | Some (Inr (bs, r2)) \<Rightarrow> length bs = n \<and>
            (\<forall>k < n. body_ok (draft_ctx d) (draft_fn d (length (d_imports d) + (i + 1) + k)) (bs ! k))"
        by (rule Suc.IH) (use Suc.prems in simp)
      then show ?thesis
        using \<open>rbind ru32 rsub r = Inr br\<close> br look x Inr body
        by (auto simp: nth_Cons less_Suc_eq_0_disj split: option.splits sum.splits)
    qed
  qed
qed simp

lemma code_section_ok:
  assumes "early d"
  shows "case code_section pn d r of None \<Rightarrow> False | Some (Inl e) \<Rightarrow> True | Some (Inr (d2, r2)) \<Rightarrow> draft_ok 11 d2"
proof (cases "vec_len r")
  case (Inl e)
  then show ?thesis by (simp add: code_section_def)
next
  case (Inr nr)
  obtain n r1 where nr: "nr = (n, r1)" by (cases nr)
  have wf: "draft_wf d" and none: "d_bodies d = []"
    using assms by (simp_all add: early_def)
  show ?thesis
  proof (cases "n = length (d_funcs d) - length (d_imports d)")
    case True
    have le: "length (d_imports d) \<le> length (d_funcs d)"
      using wf by (simp add: draft_wf_def)
    have "draft_ok 11 (d\<lparr>d_bodies := d_bodies d @ bs, d_code_seen := True\<rparr>)"
      if "length bs = n" "\<forall>k < n. body_ok (draft_ctx d) (draft_fn d (length (d_imports d) + k)) (bs ! k)" for bs
      using that wf none le True
      by (auto simp: draft_ok_def bodies_ok_def draft_wf_def draft_fn_def draft_ctx_def)
    then show ?thesis
      using code_bodies_ok [OF wf, of 0 n pn r1] Inr nr le True
      by (auto simp: code_section_def split: option.splits sum.splits)
  next
    case False
    then show ?thesis
      using Inr nr wf by (auto simp: code_section_def rfail_def draft_wf_def)
  qed
qed

subsection \<open>All sections\<close>

lemma section_ok:
  assumes d: "draft_ok prev d" and k: "order_check i prev s = Inr k"
  shows "case section_at pn i d r of None \<Rightarrow> False | Some (Inl e) \<Rightarrow> True | Some (Inr (d2, r2)) \<Rightarrow> draft_ok k d2"
proof -
  have rank: "i \<noteq> 0 \<longrightarrow> section_rank i = Some k \<and> prev < k" and same: "i = 0 \<longrightarrow> k = prev"
    using k by (auto simp: order_check_def split: if_splits option.splits)
  show ?thesis
  proof (cases "i = 10")
    case True
    then have "early d" and "k = 11"
      using d rank by (auto simp: draft_ok_def section_rank_def)
    then show ?thesis
      using code_section_ok [of d pn r] True by (simp add: section_at_def cong: option.case_cong sum.case_cong)
  next
    case False
    have "draft_ok k d2" if sec: "section_plain i d r = Inr (d2, r2)" for d2 r2
    proof -
      consider "i = 0" | "i \<in> {1, 2}" | "i = 11" | "i \<notin> {0, 1, 2, 11}"
        by blast
      then show ?thesis
      proof cases
        case 1
        then have "d2 = d"
          using sec by (auto simp: section_plain_def custom_section_def elim!: rbindE)
        then show ?thesis using d same 1 by simp
      next
        case 2
        then have "k = i" and "prev < 3"
          using rank by (auto simp: section_rank_def)
        then have "paired d2"
          using yieldsD [OF section_paired [OF 2] sec] d by (simp add: draft_ok_def)
        then show ?thesis
          by (simp add: draft_ok_def paired_def early_def)
      next
        case 3
        then have "k = 12"
          using rank by (simp add: section_rank_def)
        moreover obtain x where "d2 = d\<lparr>d_data := x\<rparr>"
          using yieldsD [OF section_data] sec 3 by blast
        ultimately show ?thesis
          using d by (auto simp: draft_ok_def draft_wf_def draft_fn_def bodies_ok_def draft_ctx_def split: if_splits)
      next
        case 4
        then have "prev < 11" and "3 \<le> k"
          using rank False by (auto simp: section_rank_def split: if_splits)
        then have "early d2"
          using yieldsD [OF section_early [OF 4] sec] d by (simp add: draft_ok_def)
        then show ?thesis
          using \<open>3 \<le> k\<close> by (simp add: draft_ok_def early_def)
      qed
    qed
    then show ?thesis
      using False by (auto simp: section_at_def split: sum.split)
  qed
qed

lemma sections_ok:
  "draft_ok prev d \<Longrightarrow>
     (case sections pn d prev r of None \<Rightarrow> False | Some (Inl e) \<Rightarrow> True | Some (Inr d2) \<Rightarrow> draft_ok 12 d2)"
proof (induction pn d prev r rule: sections.induct)
  case (1 pn d prev r)
  note unfold = sections.simps [of pn d prev r]
  show ?case
  proof (cases "at_rend r")
    case True
    then show ?thesis
      using 1(2) unfold by (auto simp: draft_ok_def)
  next
    case False
    show ?thesis
    proof (cases "section_head r")
      case (Inl e)
      then show ?thesis using False unfold by simp
    next
      case (Inr h)
      obtain i s r1 where h: "h = ((i, s), r1)" by (cases h) auto
      show ?thesis
      proof (cases "order_check i prev s")
        case (Inl e)
        then show ?thesis using False Inr h unfold by simp
      next
        case (Inr k)
        note ok = section_ok [OF 1(2) Inr, of pn s]
        obtain x where x: "section_at pn i d s = Some x"
          using ok by (auto split: option.splits)
        show ?thesis
        proof (cases x)
          case (Inl e)
          then show ?thesis
            using False \<open>section_head r = Inr h\<close> h Inr x unfold by simp
        next
          case (Inr ds)
          obtain d2 s2 where ds: "ds = (d2, s2)" by (cases ds)
          have d2: "draft_ok k d2"
            using ok x Inr ds by simp
          show ?thesis
          proof (cases "at_rend s2")
            case True
            then have "case sections pn d2 k r1 of None \<Rightarrow> False | Some (Inl e) \<Rightarrow> True | Some (Inr d2) \<Rightarrow> draft_ok 12 d2"
              using 1(1) False \<open>section_head r = Inr h\<close> h \<open>order_check i prev s = Inr k\<close> x Inr ds d2 by blast
            then show ?thesis
              using False \<open>section_head r = Inr h\<close> h \<open>order_check i prev s = Inr k\<close> x Inr ds True unfold by simp
          next
            case False
            then show ?thesis
              using \<open>\<not> at_rend r\<close> \<open>section_head r = Inr h\<close> h \<open>order_check i prev s = Inr k\<close> x Inr ds unfold by simp
          qed
        qed
      qed
    qed
  qed
qed

subsection \<open>The module\<close>

lemma first_bad_None: "first_bad f xs = None \<longleftrightarrow> (\<forall>x \<in> set xs. f x = None)"
  by (induction xs) (auto split: option.split)

lemma finish_ok:
  assumes "draft_ok prev d"
  shows "case finish d of None \<Rightarrow> False | Some (Inl e) \<Rightarrow> True | Some (Inr m) \<Rightarrow> module_ok m"
proof -
  have wf: "draft_wf d"
    using assms by (simp add: draft_ok_def)
  have entry: "entry_type d e = Some (Some (draft_fn d e))" if "d_entry d = Some e" for e
    using wf that by (simp add: draft_wf_def entry_type_def sget_def draft_fn_def)
  have "module_ok (draft_module d e)"
    if e: "d_entry d = Some e" "params (draft_fn d e) = []" "results (draft_fn d e) = []"
      and seen: "d_code_seen d \<or> \<not> length (d_imports d) < length (d_funcs d)" and mem: "d_memory d \<noteq> None"
      and els: "\<forall>seg \<in> set (d_elements d). element_bad d seg = None"
      and dat: "\<forall>seg \<in> set (d_data d). data_bad d seg = None" for e
  proof -
    have bodies: "bodies_ok d"
      using assms seen wf by (auto simp: draft_ok_def bodies_ok_def draft_wf_def split: if_splits)
    have "draft_fn d e = fn_type [] []"
      using e by (simp add: fn_type_def)
    moreover have "module_ctx (draft_module d e) = draft_ctx d" and "ftype (draft_module d e) = draft_fn d"
      by (simp_all add: module_ctx_def draft_ctx_def draft_module_def ftype_def draft_fn_def fun_eq_iff)
    ultimately show ?thesis
      using wf bodies e mem els dat unfolding module_ok_def
      by (auto simp: draft_module_def draft_wf_def bodies_ok_def element_bad_def data_bad_def list_ex_iff
          not_less not_le split: if_splits)
  qed
  then show ?thesis
    using entry by (auto simp: finish_def first_bad_None split: option.split)
qed

theorem decode_ok: "case decode pn bs of None \<Rightarrow> False | Some (Inl e) \<Rightarrow> True | Some (Inr m) \<Rightarrow> module_ok m"
proof -
  note start = sections_ok [OF new_draft_ok, of pn]
  have some: "sections pn new_draft 0 r \<noteq> None" for r
    using start [of r] by (auto split: option.splits)
  have draft: "draft_ok 12 d" if "sections pn new_draft 0 r = Some (Inr d)" for r d
    using start [of r] that by simp
  have fin: "finish d \<noteq> None" "finish d = Some (Inr m) \<Longrightarrow> module_ok m"
    if "sections pn new_draft 0 r = Some (Inr d)" for r d m
    using finish_ok [OF draft [OF that]] by (auto split: option.splits)
  show ?thesis
    by (auto simp: decode_def some fin split: sum.split option.split prod.split)
qed

end
