(* ===== verification/Vm_Wasi.thy ===== *)
theory Vm_Wasi
  imports Vm_Module
begin

text \<open>
  The host side of the interpreter, \<open>crates/almide-wasm-vm/src/wasi.rs\<close>: writing to the standard
  streams, reading from standard input, and leaving the process. The streams are the program's
  environment: a device gives what a read of at most \<open>n\<close> bytes returns and whether a write succeeds.
\<close>

definition ESUCCESS :: nat where "ESUCCESS = 0"
definition EBADF :: nat where "EBADF = 8"
definition EINVAL :: nat where "EINVAL = 28"
definition EIO :: nat where "EIO = 29"

datatype stop = STrap trap | SExit int

subsection \<open>Streams\<close>

datatype read_event = ReadOk bytes | ReadInterrupted | ReadFailed

record ('i, 'o) device =
  dev_read :: "'i \<Rightarrow> nat \<Rightarrow> read_event \<times> 'i"
  dev_write :: "'o \<Rightarrow> bytes \<Rightarrow> bool \<times> 'o"
  dev_flush :: "'o \<Rightarrow> 'o"

text \<open>A read returns at most as many bytes as its buffer holds.\<close>

definition fair_reads :: "('i, 'o) device \<Rightarrow> bool" where
  "fair_reads dev \<longleftrightarrow> (\<forall>i n bs j. dev_read dev i n = (ReadOk bs, j) \<longrightarrow> length bs \<le> n)"

record line_tail =
  lt_head :: bytes
  lt_len :: nat
  lt_done :: bool

record ('i, 'o) io =
  io_in :: 'i
  io_out :: 'o
  io_err :: 'o
  io_tail :: line_tail

subsection \<open>The last line of standard error\<close>

definition new_tail :: line_tail where
  "new_tail = \<lparr>lt_head = replicate 7 (CHR 0x00), lt_len = 0, lt_done = False\<rparr>"

definition head_is_error :: "line_tail \<Rightarrow> bool" where
  "head_is_error t \<longleftrightarrow> length (lt_head t) \<le> lt_len t \<and> lt_head t = ''Error: ''"

definition feed_byte :: "byte \<Rightarrow> line_tail \<Rightarrow> line_tail" where
  "feed_byte b t =
     (if b = newline then t\<lparr>lt_done := head_is_error t, lt_len := 0\<rparr>
      else (if lt_len t < length (lt_head t) then t\<lparr>lt_head := (lt_head t)[lt_len t := b]\<rparr> else t)
             \<lparr>lt_len := lt_len t + 1\<rparr>)"

definition feed :: "bytes \<Rightarrow> line_tail \<Rightarrow> line_tail" where
  "feed bs t = fold feed_byte bs t"

definition last_line_is_error :: "line_tail \<Rightarrow> bool" where
  "last_line_is_error t = (if 0 < lt_len t then head_is_error t else lt_done t)"

subsection \<open>Pointers\<close>

text \<open>Pointers and lengths are \<open>u64\<close> values, as natural numbers.\<close>

definition mrange :: "bytes \<Rightarrow> nat \<Rightarrow> nat \<Rightarrow> trap + (nat \<times> nat)" where
  "mrange mem a n =
     (if a + n < 2 ^ 64 \<and> a + n \<le> length mem then Inr (a, a + n) else Inl THostOutOfBounds)"

definition word_at :: "bytes \<Rightarrow> nat \<Rightarrow> trap + nat" where
  "word_at mem a =
     (if a mod 4 \<noteq> 0 then Inl THostMisaligned
      else case mrange mem a 4 of Inl t \<Rightarrow> Inl t | Inr (start, _) \<Rightarrow> Inr start)"

text \<open>Four bytes of memory; every caller has checked the position with \<open>word_at\<close>.\<close>

definition read_u32 :: "bytes \<Rightarrow> nat \<Rightarrow> nat" where
  "read_u32 mem a = unat (le_val [mem ! a, mem ! (a + 1), mem ! (a + 2), mem ! (a + 3)] :: 32 word)"

definition iovec :: "bytes \<Rightarrow> nat \<Rightarrow> nat \<Rightarrow> trap + (nat \<times> nat)" where
  "iovec mem iovs k =
     (let a = iovs + 8 * k
      in case word_at mem a of
           Inl t \<Rightarrow> Inl t
         | Inr p \<Rightarrow>
             (let ptr = read_u32 mem p
              in case word_at mem (a + 4) of
                   Inl t \<Rightarrow> Inl t
                 | Inr q \<Rightarrow> mrange mem ptr (read_u32 mem q)))"

text \<open>The loop \<open>for k in 0..count\<close> over the array, from \<open>k\<close> on with \<open>n\<close> turns left.\<close>

fun iovecs :: "bytes \<Rightarrow> nat \<Rightarrow> nat \<Rightarrow> nat \<Rightarrow> trap + (nat \<times> nat) list" where
  "iovecs mem iovs k 0 = Inr []"
| "iovecs mem iovs k (Suc n) =
     (case iovec mem iovs k of
        Inl t \<Rightarrow> Inl t
      | Inr p \<Rightarrow> (case iovecs mem iovs (k + 1) n of Inl t \<Rightarrow> Inl t | Inr ps \<Rightarrow> Inr (p # ps)))"

subsection \<open>Host calls\<close>

text \<open>
  A call panics when an operand is missing, and never returns when the device keeps answering that
  a read was interrupted. It stops with a trap or an exit, or returns its result; memory and streams
  are those it leaves behind.
\<close>

datatype ('a, 'i, 'o) hres =
    HPanic
  | HHang
  | HStop stop bytes "('i, 'o) io"
  | HDone 'a bytes "('i, 'o) io"

definition u32_of :: "cell \<Rightarrow> nat" where
  "u32_of c = unat (w32 c)"

text \<open>The second loop of \<open>fd_write\<close>: \<open>False\<close> when a write fails.\<close>

fun write_all :: "('i, 'o) device \<Rightarrow> nat \<Rightarrow> bytes \<Rightarrow> (nat \<times> nat) list \<Rightarrow> ('i, 'o) io \<Rightarrow> bool \<times> ('i, 'o) io" where
  "write_all dev fd mem [] s = (True, s)"
| "write_all dev fd mem ((p, e) # ps) s =
     (let bs = subslice mem p e
      in if fd = 1 then
           (case dev_write dev (io_out s) bs of
              (False, o2) \<Rightarrow> (False, s\<lparr>io_out := o2\<rparr>)
            | (True, o2) \<Rightarrow> write_all dev fd mem ps (s\<lparr>io_out := o2\<rparr>))
         else
           (case dev_write dev (io_err s) bs of
              (False, o2) \<Rightarrow> (False, s\<lparr>io_err := o2\<rparr>)
            | (True, o2) \<Rightarrow>
                write_all dev fd mem ps
                  (if fd = 2 then s\<lparr>io_err := o2, io_tail := feed bs (io_tail s)\<rparr> else s\<lparr>io_err := o2\<rparr>)))"

definition iovecs_total :: "(nat \<times> nat) list \<Rightarrow> nat" where
  "iovecs_total ps = sum_list (map (\<lambda>(p, e). e - p) ps)"

definition fd_write :: "('i, 'o) device \<Rightarrow> cell list \<Rightarrow> bytes \<Rightarrow> ('i, 'o) io \<Rightarrow> (nat, 'i, 'o) hres" where
  "fd_write dev args mem s =
     (case args of
        a0 # a1 # a2 # a3 # _ \<Rightarrow>
          (let fd = u32_of a0; iovs = u32_of a1; count = u32_of a2; nwritten = u32_of a3
           in if fd \<noteq> 1 \<and> fd \<noteq> 2 then HDone EBADF mem s
              else case iovecs mem iovs 0 count of
                Inl t \<Rightarrow> HStop (STrap t) mem s
              | Inr ps \<Rightarrow>
                  case word_at mem nwritten of
                    Inl t \<Rightarrow> HStop (STrap t) mem s
                  | Inr a \<Rightarrow>
                      if 2 ^ 32 \<le> iovecs_total ps then HDone EINVAL mem s
                      else case write_all dev fd mem ps s of
                        (False, s2) \<Rightarrow> HDone EIO mem s2
                      | (True, s2) \<Rightarrow>
                          HDone ESUCCESS (put mem a (le_bytes 4 (of_nat (iovecs_total ps) :: 32 word))) s2)
      | _ \<Rightarrow> HPanic)"

partial_function (option) read_retry ::
    "('i \<Rightarrow> nat \<Rightarrow> read_event \<times> 'i) \<Rightarrow> 'i \<Rightarrow> nat \<Rightarrow> (bytes option \<times> 'i) option" where
  [code]: "read_retry rd i n =
     (case rd i n of
        (ReadOk bs, j) \<Rightarrow> Some (Some bs, j)
      | (ReadInterrupted, j) \<Rightarrow> read_retry rd j n
      | (ReadFailed, j) \<Rightarrow> Some (None, j))"

definition put_count :: "bytes \<Rightarrow> nat \<Rightarrow> nat \<Rightarrow> bytes" where
  "put_count mem a n = put mem a (le_bytes 4 (of_nat n :: 32 word))"

definition fd_read :: "('i, 'o) device \<Rightarrow> cell list \<Rightarrow> bytes \<Rightarrow> ('i, 'o) io \<Rightarrow> (nat, 'i, 'o) hres" where
  "fd_read dev args mem s =
     (case args of
        a0 # a1 # a2 # a3 # _ \<Rightarrow>
          (let fd = u32_of a0; iovs = u32_of a1; count = u32_of a2; nread = u32_of a3
           in if fd \<noteq> 0 then HDone EBADF mem s
              else case iovecs mem iovs 0 count of
                Inl t \<Rightarrow> HStop (STrap t) mem s
              | Inr ps \<Rightarrow>
                  case word_at mem nread of
                    Inl t \<Rightarrow> HStop (STrap t) mem s
                  | Inr a \<Rightarrow>
                      case find (\<lambda>(p, e). p < e) ps of
                        None \<Rightarrow> HDone ESUCCESS (put_count mem a 0) s
                      | Some (p, e) \<Rightarrow>
                          case read_retry (dev_read dev) (io_in s) (e - p) of
                            None \<Rightarrow> HHang
                          | Some (None, i2) \<Rightarrow> HDone EIO mem (s\<lparr>io_in := i2\<rparr>)
                          | Some (Some bs, i2) \<Rightarrow>
                              HDone ESUCCESS (put_count (put mem p bs) a (length bs)) (s\<lparr>io_in := i2\<rparr>))
      | _ \<Rightarrow> HPanic)"

fun hmap :: "('a \<Rightarrow> 'b) \<Rightarrow> ('a, 'i, 'o) hres \<Rightarrow> ('b, 'i, 'o) hres" where
  "hmap f HPanic = HPanic"
| "hmap f HHang = HHang"
| "hmap f (HStop st m s) = HStop st m s"
| "hmap f (HDone x m s) = HDone (f x) m s"

definition host_call ::
    "('i, 'o) device \<Rightarrow> host_fn \<Rightarrow> cell list \<Rightarrow> bytes \<Rightarrow> ('i, 'o) io \<Rightarrow> (cell option, 'i, 'o) hres" where
  "host_call dev h args mem s =
     (case h of
        FdWrite \<Rightarrow> hmap (\<lambda>n. Some (of_nat n)) (fd_write dev args mem s)
      | FdRead \<Rightarrow> hmap (\<lambda>n. Some (of_nat n)) (fd_read dev args mem s)
      | ProcExit \<Rightarrow> (case args of [] \<Rightarrow> HPanic | a # _ \<Rightarrow> HStop (SExit (sint (w32 a))) mem s)
      | RandomGet \<Rightarrow> HStop (STrap (THostNotServed (host_name h))) mem s
      | ClockTimeGet \<Rightarrow> HStop (STrap (THostNotServed (host_name h))) mem s)"

end
