(* ===== verification/Vm_Exec.thy ===== *)
theory Vm_Exec
  imports Vm_Wasi
begin

text \<open>
  The interpreter, \<open>crates/almide-wasm-vm/src/exec.rs\<close>: building an instance of a module, and the
  steps that run its flat code. A step is a function of the instance and the streams; an index out of
  range or a subtraction below zero is the value \<open>XPanic\<close>. The frame stack has its top first.
\<close>

unbundle bit_operations_syntax

subsection \<open>State\<close>

record limits_of =
  lim_fuel :: nat
  lim_pages :: nat
  lim_cells :: nat
  lim_depth :: nat

definition default_limits :: limits_of where
  "default_limits = \<lparr>lim_fuel = 2 ^ 64 - 1, lim_pages = MAX_PAGES, lim_cells = 2 ^ 22, lim_depth = 2 ^ 18\<rparr>"

datatype vm_outcome = Finished | Exited int | Trapped trap

record fshape =
  sh_params :: nat
  sh_locals :: nat
  sh_result :: bool
  sh_max :: nat

record saved_frame =
  f_func :: nat
  f_pc :: nat
  f_fp :: nat
  f_ob :: nat

record machine_regs =
  r_func :: nat
  r_pc :: nat
  r_fp :: nat
  r_ob :: nat
  r_sp :: nat

record inst =
  i_module :: module
  i_shapes :: "fshape list"
  i_canon :: "nat list"
  i_memory :: bytes
  i_pages :: nat
  i_max_pages :: nat
  i_globals :: "cell list"
  i_table :: "nat option list"
  i_stack :: "cell list"
  i_frames :: "saved_frame list"
  i_depth :: nat
  i_fuel :: nat

subsection \<open>Building an instance\<close>

text \<open>A list of results that may panic.\<close>

fun collect :: "('a \<Rightarrow> 'b option) \<Rightarrow> 'a list \<Rightarrow> 'b list option" where
  "collect f [] = Some []"
| "collect f (x # xs) = (case f x of None \<Rightarrow> None | Some y \<Rightarrow> map_option ((#) y) (collect f xs))"

definition shape_of :: "module \<Rightarrow> nat \<times> nat \<Rightarrow> fshape option" where
  "shape_of m = (\<lambda>(f, t).
     case sget (m_types m) t of
       None \<Rightarrow> None
     | Some ty \<Rightarrow>
         if length (m_imports m) \<le> f then
           (case sget (m_bodies m) (f - length (m_imports m)) of
              None \<Rightarrow> None
            | Some b \<Rightarrow> Some \<lparr>sh_params = length (params ty), sh_locals = b_locals b,
                              sh_result = (results ty \<noteq> []), sh_max = b_max b\<rparr>)
         else Some \<lparr>sh_params = length (params ty), sh_locals = length (params ty),
                    sh_result = (results ty \<noteq> []), sh_max = 0\<rparr>)"

definition canon_of :: "func_type list \<Rightarrow> nat list" where
  "canon_of ts = map (\<lambda>t. length (takeWhile (\<lambda>u. u \<noteq> t) ts)) ts"

text \<open>The data segments copied into memory, and the element segments into the table.\<close>

fun fill_memory :: "byte segment list \<Rightarrow> bytes \<Rightarrow> bytes option" where
  "fill_memory [] mem = Some mem"
| "fill_memory (g # gs) mem =
     (if seg_offset g + length (seg_items g) \<le> length mem
      then fill_memory gs (put mem (seg_offset g) (seg_items g)) else None)"

fun fill_entries :: "nat \<Rightarrow> nat list \<Rightarrow> nat option list \<Rightarrow> nat option list option" where
  "fill_entries k [] tb = Some tb"
| "fill_entries k (f # fs) tb = (if k < length tb then fill_entries (k + 1) fs (tb[k := Some f]) else None)"

fun fill_table :: "nat segment list \<Rightarrow> nat option list \<Rightarrow> nat option list option" where
  "fill_table [] tb = Some tb"
| "fill_table (g # gs) tb =
     (case fill_entries (seg_offset g) (seg_items g) tb of None \<Rightarrow> None | Some tb2 \<Rightarrow> fill_table gs tb2)"

definition memory_limit_text :: "nat \<Rightarrow> nat \<Rightarrow> bytes" where
  "memory_limit_text lo hi =
     ''the initial memory ('' @ dec_string lo @ '' pages) exceeds the memory limit ('' @ dec_string hi @ '' pages)''"

definition new_instance :: "module \<Rightarrow> limits_of \<Rightarrow> (load_error + inst) option" where
  "new_instance m lim =
     (case collect (shape_of m) (zip [0..<length (m_funcs m)] (m_funcs m)) of
        None \<Rightarrow> None
      | Some shapes \<Rightarrow>
          (let (lo, declared_max) = (case m_memory m of Some p \<Rightarrow> p | None \<Rightarrow> (0, Some 0));
               max_pages = min (case declared_max of Some h \<Rightarrow> h | None \<Rightarrow> MAX_PAGES) (lim_pages lim)
           in if max_pages < lo then Some (Inl (whole (memory_limit_text lo max_pages)))
              else case fill_memory (m_data m) (replicate (max_pages * PAGE) (CHR 0x00)) of
                None \<Rightarrow> None
              | Some mem \<Rightarrow>
                  case fill_table (m_elements m) (replicate (case m_table m of Some n \<Rightarrow> n | None \<Rightarrow> 0) None) of
                    None \<Rightarrow> None
                  | Some tb \<Rightarrow>
                      Some (Inr \<lparr>i_module = m, i_shapes = shapes, i_canon = canon_of (m_types m), i_memory = mem,
                                 i_pages = lo, i_max_pages = max_pages, i_globals = map g_init (m_globals m),
                                 i_table = tb, i_stack = replicate (lim_cells lim) 0, i_frames = [],
                                 i_depth = lim_depth lim, i_fuel = lim_fuel lim\<rparr>)))"

subsection \<open>Steps\<close>

datatype ('a, 'i, 'o) xres =
    XPanic
  | XHang
  | XStop stop inst "('i, 'o) io"
  | XOk 'a inst "('i, 'o) io"

type_synonym ('a, 'i, 'o) xm = "inst \<Rightarrow> ('i, 'o) io \<Rightarrow> ('a, 'i, 'o) xres"

definition xbind :: "('a, 'i, 'o) xm \<Rightarrow> ('a \<Rightarrow> ('b, 'i, 'o) xm) \<Rightarrow> ('b, 'i, 'o) xm" where
  "xbind m f s w =
     (case m s w of
        XPanic \<Rightarrow> XPanic
      | XHang \<Rightarrow> XHang
      | XStop st s1 w1 \<Rightarrow> XStop st s1 w1
      | XOk x s1 w1 \<Rightarrow> f x s1 w1)"

definition xret :: "'a \<Rightarrow> ('a, 'i, 'o) xm" where
  "xret x s w = XOk x s w"

definition xseq :: "(unit, 'i, 'o) xm \<Rightarrow> ('b, 'i, 'o) xm \<Rightarrow> ('b, 'i, 'o) xm" where
  "xseq m k = xbind m (\<lambda>_. k)"

definition xget :: "(inst \<Rightarrow> 'a) \<Rightarrow> ('a, 'i, 'o) xm" where
  "xget f s w = XOk (f s) s w"

definition xtrap :: "trap \<Rightarrow> ('a, 'i, 'o) xm" where
  "xtrap t s w = XStop (STrap t) s w"

definition xpanic :: "('a, 'i, 'o) xm" where
  "xpanic s w = XPanic"

text \<open>A value that a panic may be in the place of, and one that a trap may.\<close>

definition xsome :: "'a option \<Rightarrow> ('a, 'i, 'o) xm" where
  "xsome v = (case v of None \<Rightarrow> xpanic | Some x \<Rightarrow> xret x)"

definition xsum :: "trap + 'a \<Rightarrow> ('a, 'i, 'o) xm" where
  "xsum v = (case v of Inl t \<Rightarrow> xtrap t | Inr x \<Rightarrow> xret x)"

definition minus_usize :: "nat \<Rightarrow> nat \<Rightarrow> (nat, 'i, 'o) xm" where
  "minus_usize n k = (if k \<le> n then xret (n - k) else xpanic)"

definition cell_at :: "nat \<Rightarrow> (cell, 'i, 'o) xm" where
  "cell_at i = xbind (xget (\<lambda>s. sget (i_stack s) i)) xsome"

definition set_cell :: "nat \<Rightarrow> cell \<Rightarrow> (unit, 'i, 'o) xm" where
  "set_cell i v s w =
     (if i < length (i_stack s) then XOk () (s\<lparr>i_stack := (i_stack s)[i := v]\<rparr>) w else XPanic)"

text \<open>\<open>stack[i..j].fill(0)\<close>, and \<open>stack.copy_within(i..j, d)\<close>.\<close>

definition clear_cells :: "nat \<Rightarrow> nat \<Rightarrow> (unit, 'i, 'o) xm" where
  "clear_cells i j s w =
     (if i \<le> j \<and> j \<le> length (i_stack s) then XOk () (s\<lparr>i_stack := put (i_stack s) i (replicate (j - i) 0)\<rparr>) w
      else XPanic)"

definition move_cells :: "nat \<Rightarrow> nat \<Rightarrow> nat \<Rightarrow> (unit, 'i, 'o) xm" where
  "move_cells i j d s w =
     (if i \<le> j \<and> j \<le> length (i_stack s) \<and> d + (j - i) \<le> length (i_stack s)
      then XOk () (s\<lparr>i_stack := put (i_stack s) d (subslice (i_stack s) i j)\<rparr>) w
      else XPanic)"

definition cells_between :: "nat \<Rightarrow> nat \<Rightarrow> (cell list, 'i, 'o) xm" where
  "cells_between i j = xbind (xget i_stack) (\<lambda>st.
     if i \<le> j \<and> j \<le> length st then xret (subslice st i j) else xpanic)"

definition bytes_between :: "nat \<Rightarrow> nat \<Rightarrow> (bytes, 'i, 'o) xm" where
  "bytes_between i j = xbind (xget i_memory) (\<lambda>mem.
     if i \<le> j \<and> j \<le> length mem then xret (subslice mem i j) else xpanic)"

definition set_bytes :: "nat \<Rightarrow> bytes \<Rightarrow> (unit, 'i, 'o) xm" where
  "set_bytes i bs s w =
     (if i + length bs \<le> length (i_memory s) then XOk () (s\<lparr>i_memory := put (i_memory s) i bs\<rparr>) w else XPanic)"

definition shape_at :: "nat \<Rightarrow> (fshape, 'i, 'o) xm" where
  "shape_at f = xbind (xget (\<lambda>s. sget (i_shapes s) f)) xsome"

definition nimports :: "(nat, 'i, 'o) xm" where
  "nimports = xget (\<lambda>s. length (m_imports (i_module s)))"

definition code_of :: "nat \<Rightarrow> (instr list, 'i, 'o) xm" where
  "code_of f = xbind nimports (\<lambda>n. xbind (minus_usize f n) (\<lambda>k.
     xbind (xget (\<lambda>s. sget (m_bodies (i_module s)) k)) (\<lambda>b. xsome (map_option b_code b))))"

definition set_frames :: "saved_frame list \<Rightarrow> (unit, 'i, 'o) xm" where
  "set_frames fs s w = XOk () (s\<lparr>i_frames := fs\<rparr>) w"

definition set_pages :: "nat \<Rightarrow> (unit, 'i, 'o) xm" where
  "set_pages n s w = XOk () (s\<lparr>i_pages := n\<rparr>) w"

definition set_global :: "nat \<Rightarrow> cell \<Rightarrow> (unit, 'i, 'o) xm" where
  "set_global i v s w =
     (if i < length (i_globals s) then XOk () (s\<lparr>i_globals := (i_globals s)[i := v]\<rparr>) w else XPanic)"

definition spend :: "(unit, 'i, 'o) xm" where
  "spend s w = (if i_fuel s = 0 then XStop (STrap TOutOfFuel) s w else XOk () (s\<lparr>i_fuel := i_fuel s - 1\<rparr>) w)"

subsection \<open>Calls\<close>

definition enter :: "nat \<Rightarrow> nat \<Rightarrow> (nat \<times> nat, 'i, 'o) xm" where
  "enter f sp = xbind (shape_at f) (\<lambda>sh. xbind (minus_usize sp (sh_params sh)) (\<lambda>fp.
     let ob = fp + sh_locals sh
     in xbind (xget (\<lambda>s. length (i_stack s))) (\<lambda>n.
          if n < ob + sh_max sh then xtrap TStackExhausted
          else xseq (clear_cells sp ob) (xret (fp, ob)))))"

definition resolve :: "cell \<Rightarrow> nat \<Rightarrow> (nat, 'i, 'o) xm" where
  "resolve index ty = xbind (xget (\<lambda>s. sget (i_table s) (u32_of index))) (\<lambda>e.
     case e of
       None \<Rightarrow> xtrap TCallOutOfTable
     | Some None \<Rightarrow> xtrap TCallToNull
     | Some (Some f) \<Rightarrow>
         xbind (xget (\<lambda>s. Option.bind (sget (m_funcs (i_module s)) f) (sget (i_canon s)))) (\<lambda>c.
           xbind (xsome c) (\<lambda>got. xbind (xget (\<lambda>s. sget (i_canon s) ty)) (\<lambda>c.
             xbind (xsome c) (\<lambda>want.
               if got \<noteq> want then xtrap TCallTypeMismatch else xret f)))))"

text \<open>A host call sees the memory at its current size.\<close>

definition serve :: "('i, 'o) device \<Rightarrow> host_fn \<Rightarrow> cell list \<Rightarrow> (cell option, 'i, 'o) xm" where
  "serve dev h args s w =
     (let size = i_pages s * PAGE
      in if length (i_memory s) < size then XPanic
         else let back = (\<lambda>mem. s\<lparr>i_memory := mem @ drop size (i_memory s)\<rparr>)
              in case host_call dev h args (take size (i_memory s)) w of
                   HPanic \<Rightarrow> XPanic
                 | HHang \<Rightarrow> XHang
                 | HStop st mem w1 \<Rightarrow> XStop st (back mem) w1
                 | HDone v mem w1 \<Rightarrow> XOk v (back mem) w1)"

definition x_host :: "('i, 'o) device \<Rightarrow> nat \<Rightarrow> nat \<Rightarrow> (nat, 'i, 'o) xm" where
  "x_host dev f sp = xbind (shape_at f) (\<lambda>sh. xbind (minus_usize sp (sh_params sh)) (\<lambda>base.
     xbind (xget (\<lambda>s. sget (m_imports (i_module s)) f)) (\<lambda>h. xbind (xsome h) (\<lambda>h.
       xbind (cells_between base sp) (\<lambda>args. xbind (serve dev h args) (\<lambda>v.
         case v of
           None \<Rightarrow> xret base
         | Some c \<Rightarrow> xseq (set_cell base c) (xret (base + 1))))))))"

definition resume_caller :: "machine_regs \<Rightarrow> (machine_regs option, 'i, 'o) xm" where
  "resume_caller r = xbind (xget i_frames) (\<lambda>fs.
     case fs of
       [] \<Rightarrow> xret None
     | c # cs \<Rightarrow>
         xseq (set_frames cs)
           (xret (Some (r\<lparr>r_func := f_func c, r_pc := f_pc c, r_fp := f_fp c, r_ob := f_ob c\<rparr>))))"

definition x_call :: "('i, 'o) device \<Rightarrow> nat \<Rightarrow> machine_regs \<Rightarrow> (machine_regs, 'i, 'o) xm" where
  "x_call dev callee r = xbind nimports (\<lambda>n.
     if callee < n then xbind (x_host dev callee (r_sp r)) (\<lambda>sp. xret (r\<lparr>r_sp := sp\<rparr>))
     else xbind (xget i_frames) (\<lambda>fs. xbind (xget i_depth) (\<lambda>limit.
       if limit \<le> length fs + 1 then xtrap TStackExhausted
       else xseq (set_frames
              (\<lparr>f_func = r_func r, f_pc = as_u32 (r_pc r), f_fp = as_u32 (r_fp r), f_ob = as_u32 (r_ob r)\<rparr> # fs))
            (xbind (enter callee (r_sp r)) (\<lambda>(fp, ob).
              xret \<lparr>r_func = callee, r_pc = 0, r_fp = fp, r_ob = ob, r_sp = ob\<rparr>)))))"

definition x_tail_call :: "('i, 'o) device \<Rightarrow> nat \<Rightarrow> machine_regs \<Rightarrow> (machine_regs option, 'i, 'o) xm" where
  "x_tail_call dev callee r = xbind (shape_at callee) (\<lambda>sh.
     let n = sh_params sh
     in xbind (minus_usize (r_sp r) n) (\<lambda>from. xseq (move_cells from (r_sp r) (r_fp r)) (
          let sp = r_fp r + n
          in xbind nimports (\<lambda>ni.
               if callee < ni then xbind (x_host dev callee sp) (\<lambda>sp2. resume_caller (r\<lparr>r_sp := sp2\<rparr>))
               else xbind (enter callee sp) (\<lambda>(fp, ob).
                 xret (Some \<lparr>r_func = callee, r_pc = 0, r_fp = fp, r_ob = ob, r_sp = ob\<rparr>))))))"

definition leave :: "nat \<Rightarrow> nat \<Rightarrow> nat \<Rightarrow> (nat, 'i, 'o) xm" where
  "leave f sp fp = xbind (shape_at f) (\<lambda>sh.
     if sh_result sh then
       xbind (minus_usize sp 1) (\<lambda>i. xbind (cell_at i) (\<lambda>v. xseq (set_cell fp v) (xret (fp + 1))))
     else xret fp)"

definition pop_callee :: "nat \<Rightarrow> machine_regs \<Rightarrow> (nat \<times> machine_regs, 'i, 'o) xm" where
  "pop_callee ty r = xbind (minus_usize (r_sp r) 1) (\<lambda>sp. xbind (cell_at sp) (\<lambda>v.
     xbind (resolve v ty) (\<lambda>f. xret (f, r\<lparr>r_sp := sp\<rparr>))))"

text \<open>\<open>None\<close> when the entry frame has returned.\<close>

fun transfer :: "('i, 'o) device \<Rightarrow> call \<Rightarrow> machine_regs \<Rightarrow> (machine_regs option, 'i, 'o) xm" where
  "transfer dev Return r =
     xbind (leave (r_func r) (r_sp r) (r_fp r)) (\<lambda>sp. resume_caller (r\<lparr>r_sp := sp\<rparr>))"
| "transfer dev (Call f) r = xbind (x_call dev f r) (\<lambda>r2. xret (Some r2))"
| "transfer dev (CallIndirect ty) r =
     xbind (pop_callee ty r) (\<lambda>(f, r1). xbind (x_call dev f r1) (\<lambda>r2. xret (Some r2)))"
| "transfer dev (ReturnCall f) r = x_tail_call dev f r"
| "transfer dev (ReturnCallIndirect ty) r =
     xbind (pop_callee ty r) (\<lambda>(f, r1). x_tail_call dev f r1)"

end
