(* ===== verification/Vm_Step.thy ===== *)
theory Vm_Step
  imports Vm_Exec
begin

text \<open>
  The memory instructions and the loop of the interpreter, \<open>execute\<close> and \<open>run\<close> of
  \<open>crates/almide-wasm-vm/src/exec.rs\<close>. The loop spends one unit of fuel for an instruction, which is
  why it ends.
\<close>

unbundle bit_operations_syntax

subsection \<open>Memory\<close>

text \<open>\<open>addr as u32 as u64\<close> plus the offset; the sum of two \<open>u32\<close> values and a length does not wrap.\<close>

definition memory_range :: "cell \<Rightarrow> nat \<Rightarrow> nat \<Rightarrow> (nat, 'i, 'o) xm" where
  "memory_range addr offset n = xbind (xget i_pages) (\<lambda>pages.
     let start = u32_of addr + offset
     in if pages * PAGE < start + n then xtrap TMemoryOutOfBounds else xret start)"

definition x_load :: "nat \<Rightarrow> nat \<Rightarrow> nat \<Rightarrow> (unit, 'i, 'o) xm" where
  "x_load op offset sp = xbind (xsome (sget LOADS op)) (\<lambda>l.
     xbind (minus_usize sp 1) (\<lambda>i. xbind (cell_at i) (\<lambda>addr.
       xbind (memory_range addr offset (l_bytes l)) (\<lambda>a.
         xbind (bytes_between a (a + l_bytes l)) (\<lambda>bs.
           set_cell i (widen l (le_val bs)))))))"

definition x_store :: "nat \<Rightarrow> nat \<Rightarrow> nat \<Rightarrow> (unit, 'i, 'o) xm" where
  "x_store op offset sp = xbind (xsome (sget STORES op)) (\<lambda>st.
     xbind (cell_at sp) (\<lambda>addr. xbind (cell_at (sp + 1)) (\<lambda>v.
       xbind (memory_range addr offset (s_bytes st)) (\<lambda>a.
         set_bytes a (le_bytes (s_bytes st) v)))))"

definition x_copy :: "nat \<Rightarrow> (unit, 'i, 'o) xm" where
  "x_copy sp = xbind (cell_at sp) (\<lambda>dst. xbind (cell_at (sp + 1)) (\<lambda>src. xbind (cell_at (sp + 2)) (\<lambda>n.
     xbind (memory_range dst 0 (u32_of n)) (\<lambda>d. xbind (memory_range src 0 (u32_of n)) (\<lambda>a.
       xbind (bytes_between a (a + u32_of n)) (\<lambda>bs. set_bytes d bs))))))"

definition x_fill :: "nat \<Rightarrow> (unit, 'i, 'o) xm" where
  "x_fill sp = xbind (cell_at sp) (\<lambda>dst. xbind (cell_at (sp + 1)) (\<lambda>v. xbind (cell_at (sp + 2)) (\<lambda>n.
     xbind (memory_range dst 0 (u32_of n)) (\<lambda>d. set_bytes d (replicate (u32_of n) (char_of (uint v)))))))"

definition x_grow :: "nat \<Rightarrow> (cell, 'i, 'o) xm" where
  "x_grow delta = xbind (xget i_pages) (\<lambda>old. xbind (xget i_max_pages) (\<lambda>cap.
     if cap < old + delta then xret 0xffffffff
     else xseq (set_pages (as_u32 (old + delta))) (xret (of_nat old))))"

subsection \<open>Instructions\<close>

text \<open>The registers after an instruction that does not leave the frame.\<close>

definition at_sp :: "machine_regs \<Rightarrow> nat \<Rightarrow> (machine_regs option, 'i, 'o) xm" where
  "at_sp r sp = xret (Some (r\<lparr>r_sp := sp\<rparr>))"

definition push_cell :: "machine_regs \<Rightarrow> cell \<Rightarrow> (machine_regs option, 'i, 'o) xm" where
  "push_cell r v = xseq (set_cell (r_sp r) v) (at_sp r (r_sp r + 1))"

definition cut :: "nat \<Rightarrow> nat \<Rightarrow> bool \<Rightarrow> (nat, 'i, 'o) xm" where
  "cut sp to keep =
     (if keep then xbind (minus_usize sp 1) (\<lambda>i. xbind (cell_at i) (\<lambda>v. xseq (set_cell to v) (xret (to + 1))))
      else xret to)"

definition jump :: "machine_regs \<Rightarrow> nat \<Rightarrow> nat \<Rightarrow> nat \<Rightarrow> bool \<Rightarrow> (machine_regs option, 'i, 'o) xm" where
  "jump r sp target height keep =
     xbind (cut sp (r_ob r + height) keep) (\<lambda>sp2. xret (Some (r\<lparr>r_sp := sp2, r_pc := target\<rparr>)))"

fun perform :: "('i, 'o) device \<Rightarrow> instr \<Rightarrow> machine_regs \<Rightarrow> (machine_regs option, 'i, 'o) xm" where
  "perform dev (LocalGet i) r = xbind (cell_at (r_fp r + i)) (push_cell r)"
| "perform dev (LocalSet i) r =
     xbind (minus_usize (r_sp r) 1) (\<lambda>sp. xbind (cell_at sp) (\<lambda>v. xseq (set_cell (r_fp r + i) v) (at_sp r sp)))"
| "perform dev (LocalTee i) r =
     xbind (minus_usize (r_sp r) 1) (\<lambda>k. xbind (cell_at k) (\<lambda>v. xseq (set_cell (r_fp r + i) v) (at_sp r (r_sp r))))"
| "perform dev (Const v) r = push_cell r v"
| "perform dev (Binary f) r =
     xbind (minus_usize (r_sp r) 2) (\<lambda>i. xbind (cell_at i) (\<lambda>a.
       xbind (minus_usize (r_sp r) 1) (\<lambda>k. xbind (cell_at k) (\<lambda>b.
         xbind (xsum (f a b)) (\<lambda>v. xseq (set_cell i v) (at_sp r k))))))"
| "perform dev (Unary f) r =
     xbind (minus_usize (r_sp r) 1) (\<lambda>k. xbind (cell_at k) (\<lambda>a. xseq (set_cell k (f a)) (at_sp r (r_sp r))))"
| "perform dev (Br target height keep) r = jump r (r_sp r) target height keep"
| "perform dev (BrIf target height keep) r =
     xbind (minus_usize (r_sp r) 1) (\<lambda>sp. xbind (cell_at sp) (\<lambda>v.
       if w32 v \<noteq> 0 then jump r sp target height keep else at_sp r sp))"
| "perform dev (BrUnless target) r =
     xbind (minus_usize (r_sp r) 1) (\<lambda>sp. xbind (cell_at sp) (\<lambda>v.
       if w32 v = 0 then xret (Some (r\<lparr>r_sp := sp, r_pc := target\<rparr>)) else at_sp r sp))"
| "perform dev (Load op offset) r = xseq (x_load op offset (r_sp r)) (at_sp r (r_sp r))"
| "perform dev (Store op offset) r =
     xbind (minus_usize (r_sp r) 2) (\<lambda>sp. xseq (x_store op offset sp) (at_sp r sp))"
| "perform dev (GlobalGet i) r = xbind (xget (\<lambda>s. sget (i_globals s) i)) (\<lambda>g. xbind (xsome g) (push_cell r))"
| "perform dev (GlobalSet i) r =
     xbind (minus_usize (r_sp r) 1) (\<lambda>sp. xbind (cell_at sp) (\<lambda>v. xseq (set_global i v) (at_sp r sp)))"
| "perform dev Drop r = xbind (minus_usize (r_sp r) 1) (at_sp r)"
| "perform dev Select r =
     xbind (minus_usize (r_sp r) 1) (\<lambda>k. xbind (cell_at k) (\<lambda>c.
       xbind (if w32 c = 0
              then xbind (minus_usize (r_sp r) 2) (\<lambda>j. xbind (cell_at j) (\<lambda>v.
                     xbind (minus_usize (r_sp r) 3) (\<lambda>i. set_cell i v)))
              else xret ()) (\<lambda>_.
         xbind (minus_usize (r_sp r) 2) (at_sp r))))"
| "perform dev (ICall op) r =
     xbind (transfer dev op r) (\<lambda>r2. case r2 of
       None \<Rightarrow> xret None
     | Some r3 \<Rightarrow> xbind (code_of (r_func r3)) (\<lambda>_. xret (Some r3)))"
| "perform dev MemorySize r = xbind (xget i_pages) (\<lambda>n. push_cell r (of_nat n))"
| "perform dev MemoryGrow r =
     xbind (minus_usize (r_sp r) 1) (\<lambda>k. xbind (cell_at k) (\<lambda>v. xbind (x_grow (u32_of v)) (\<lambda>old.
       xseq (set_cell k old) (at_sp r (r_sp r)))))"
| "perform dev MemoryCopy r = xbind (minus_usize (r_sp r) 3) (\<lambda>sp. xseq (x_copy sp) (at_sp r sp))"
| "perform dev MemoryFill r = xbind (minus_usize (r_sp r) 3) (\<lambda>sp. xseq (x_fill sp) (at_sp r sp))"
| "perform dev Unreachable r = xtrap TUnreachable"

text \<open>One turn of the loop: fetch, advance, perform.\<close>

definition one_step :: "('i, 'o) device \<Rightarrow> machine_regs \<Rightarrow> (machine_regs option, 'i, 'o) xm" where
  "one_step dev r = xbind (code_of (r_func r)) (\<lambda>c.
     xbind (xsome (sget c (r_pc r))) (\<lambda>i. perform dev i (r\<lparr>r_pc := r_pc r + 1\<rparr>)))"

subsection \<open>Relations that steps keep\<close>

text \<open>Between the instance and the streams before and after, whether the step goes on or stops.\<close>

type_synonym ('i, 'o) xrel = "inst \<Rightarrow> ('i, 'o) io \<Rightarrow> inst \<Rightarrow> ('i, 'o) io \<Rightarrow> bool"

definition keeps :: "('i, 'o) xrel \<Rightarrow> ('a, 'i, 'o) xm \<Rightarrow> bool" where
  "keeps R m \<longleftrightarrow> (\<forall>s w. (\<forall>x s1 w1. m s w = XOk x s1 w1 \<longrightarrow> R s w s1 w1) \<and>
     (\<forall>st s1 w1. m s w = XStop st s1 w1 \<longrightarrow> R s w s1 w1))"

abbreviation on_inst :: "(inst \<Rightarrow> inst \<Rightarrow> bool) \<Rightarrow> ('i, 'o) xrel" where
  "on_inst R \<equiv> \<lambda>s w s1 w1. R s s1"

lemma keepsI:
  assumes "\<And>s w x s1 w1. m s w = XOk x s1 w1 \<Longrightarrow> R s w s1 w1"
    and "\<And>s w st s1 w1. m s w = XStop st s1 w1 \<Longrightarrow> R s w s1 w1"
  shows "keeps R m"
  using assms by (auto simp: keeps_def)

lemma keeps_Ok: "keeps R m \<Longrightarrow> m s w = XOk x s1 w1 \<Longrightarrow> R s w s1 w1"
  unfolding keeps_def by blast

lemma keeps_Stop: "keeps R m \<Longrightarrow> m s w = XStop st s1 w1 \<Longrightarrow> R s w s1 w1"
  unfolding keeps_def by blast

locale kept_plain =
  fixes R :: "('i, 'o) xrel"
  assumes stays: "R s w s w"
    and chains: "R s1 w1 s2 w2 \<Longrightarrow> R s2 w2 s3 w3 \<Longrightarrow> R s1 w1 s3 w3"
    and cells: "length st = length (i_stack s) \<Longrightarrow> R s w (s\<lparr>i_stack := st\<rparr>) w"
    and frames: "R s w (s\<lparr>i_frames := fs\<rparr>) w"
    and globals: "length gs = length (i_globals s) \<Longrightarrow> R s w (s\<lparr>i_globals := gs\<rparr>) w"
begin

lemma k_bind:
  fixes m :: "('a, 'i, 'o) xm" and f :: "'a \<Rightarrow> ('b, 'i, 'o) xm"
  assumes "keeps R m" and "\<And>x. keeps R (f x)"
  shows "keeps R (xbind m f)"
proof (rule keepsI)
  fix s w x s1 w1
  assume "xbind m f s w = XOk x s1 w1"
  then obtain y s2 w2 where "m s w = XOk y s2 w2" and "f y s2 w2 = XOk x s1 w1"
    by (auto simp: xbind_def split: xres.splits)
  then show "R s w s1 w1"
    using keeps_Ok [OF assms(1)] keeps_Ok [OF assms(2)] chains by blast
next
  fix s w st s1 w1
  assume "xbind m f s w = XStop st s1 w1"
  then consider "m s w = XStop st s1 w1" | y s2 w2 where "m s w = XOk y s2 w2" and "f y s2 w2 = XStop st s1 w1"
    by (auto simp: xbind_def split: xres.splits)
  then show "R s w s1 w1"
  proof cases
    case 1
    then show ?thesis by (rule keeps_Stop [OF assms(1)])
  next
    case (2 y s2 w2)
    then show ?thesis by (intro chains [OF keeps_Ok [OF assms(1)] keeps_Stop [OF assms(2)]])
  qed
qed

lemma k_seq:
  fixes m :: "(unit, 'i, 'o) xm" and k :: "('b, 'i, 'o) xm"
  shows "keeps R m \<Longrightarrow> keeps R k \<Longrightarrow> keeps R (xseq m k)"
  by (simp add: xseq_def k_bind)

lemma k_option:
  fixes m :: "('a, 'i, 'o) xm"
  shows "keeps R m \<Longrightarrow> (\<And>x. keeps R (f x)) \<Longrightarrow> keeps R (case v of None \<Rightarrow> m | Some x \<Rightarrow> f x)"
  by (cases v) simp_all

lemma k_sum:
  fixes g :: "'b \<Rightarrow> ('a, 'i, 'o) xm"
  shows "(\<And>x. keeps R (g x)) \<Longrightarrow> (\<And>x. keeps R (f x)) \<Longrightarrow> keeps R (case v of Inl x \<Rightarrow> g x | Inr x \<Rightarrow> f x)"
  by (cases v) simp_all

lemma k_list:
  fixes m :: "('a, 'i, 'o) xm"
  shows "keeps R m \<Longrightarrow> (\<And>x xs. keeps R (f x xs)) \<Longrightarrow> keeps R (case v of [] \<Rightarrow> m | x # xs \<Rightarrow> f x xs)"
  by (cases v) simp_all

lemma k_prod:
  fixes f :: "'b \<Rightarrow> 'c \<Rightarrow> ('a, 'i, 'o) xm"
  shows "(\<And>x y. keeps R (f x y)) \<Longrightarrow> keeps R (case v of (x, y) \<Rightarrow> f x y)"
  by (cases v) simp

lemma k_let:
  fixes f :: "'b \<Rightarrow> ('a, 'i, 'o) xm"
  shows "(\<And>x. keeps R (f x)) \<Longrightarrow> keeps R (let x = v in f x)"
  by simp

lemma k_if:
  fixes m k :: "('a, 'i, 'o) xm"
  shows "keeps R m \<Longrightarrow> keeps R k \<Longrightarrow> keeps R (if b then m else k)"
  by simp

lemma k_ret: "keeps R (xret x :: ('a, 'i, 'o) xm)"
  by (simp add: keeps_def xret_def stays)

lemma k_get: "keeps R (xget g :: ('a, 'i, 'o) xm)"
  by (simp add: keeps_def xget_def stays)

lemma k_trap: "keeps R (xtrap t :: ('a, 'i, 'o) xm)"
  by (simp add: keeps_def xtrap_def stays)

lemma k_panic: "keeps R (xpanic :: ('a, 'i, 'o) xm)"
  by (simp add: keeps_def xpanic_def)

lemma k_some: "keeps R (xsome v :: ('a, 'i, 'o) xm)"
  unfolding xsome_def by (intro k_option k_panic k_ret)

lemma k_of_sum: "keeps R (xsum v :: ('a, 'i, 'o) xm)"
  unfolding xsum_def by (intro k_sum k_trap k_ret)

lemma k_minus: "keeps R (minus_usize n k :: (nat, 'i, 'o) xm)"
  unfolding minus_usize_def by (intro k_if k_panic k_ret)

lemma k_set_cell: "keeps R (set_cell i v :: (unit, 'i, 'o) xm)"
  by (rule keepsI) (auto simp: set_cell_def intro!: cells split: if_splits)

lemma k_clear: "keeps R (clear_cells i j :: (unit, 'i, 'o) xm)"
  by (rule keepsI) (auto simp: clear_cells_def intro!: cells split: if_splits)

lemma k_move: "keeps R (move_cells i j d :: (unit, 'i, 'o) xm)"
  by (rule keepsI) (auto simp: move_cells_def subslice_def intro!: cells split: if_splits)

lemma k_frames: "keeps R (set_frames fs :: (unit, 'i, 'o) xm)"
  by (rule keepsI) (auto simp: set_frames_def frames)

lemma k_global: "keeps R (set_global i v :: (unit, 'i, 'o) xm)"
  by (rule keepsI) (auto simp: set_global_def intro!: globals split: if_splits)

lemmas k_plain = k_bind k_seq k_option k_sum k_list k_prod k_let k_if k_ret k_get k_trap k_panic k_some k_of_sum
  k_minus k_set_cell k_clear k_move k_frames k_global

lemma k_reads:
  "keeps R (cell_at i :: (cell, 'i, 'o) xm)" "keeps R (cells_between i j :: (cell list, 'i, 'o) xm)"
  "keeps R (bytes_between i j :: (bytes, 'i, 'o) xm)" "keeps R (shape_at f :: (fshape, 'i, 'o) xm)"
  "keeps R (nimports :: (nat, 'i, 'o) xm)" "keeps R (memory_range a b c :: (nat, 'i, 'o) xm)"
  unfolding cell_at_def cells_between_def bytes_between_def shape_at_def nimports_def memory_range_def
  by (intro k_plain)+

lemma k_code: "keeps R (code_of f :: (instr list, 'i, 'o) xm)"
  unfolding code_of_def by (intro k_plain k_reads)

lemma k_enter: "keeps R (enter f sp :: (nat \<times> nat, 'i, 'o) xm)"
  unfolding enter_def by (intro k_plain k_reads)

lemma k_resolve: "keeps R (resolve v ty :: (nat, 'i, 'o) xm)"
  unfolding resolve_def by (intro k_plain k_reads)

lemma k_resume: "keeps R (resume_caller r :: (machine_regs option, 'i, 'o) xm)"
  unfolding resume_caller_def by (intro k_plain)

lemma k_leave: "keeps R (leave f sp fp :: (nat, 'i, 'o) xm)"
  unfolding leave_def by (intro k_plain k_reads)

lemma k_pop_callee: "keeps R (pop_callee ty r :: (nat \<times> machine_regs, 'i, 'o) xm)"
  unfolding pop_callee_def by (intro k_plain k_reads k_resolve)

lemma k_load: "keeps R (x_load op offset sp :: (unit, 'i, 'o) xm)"
  unfolding x_load_def by (intro k_plain k_reads)

lemma k_push: "keeps R (push_cell r v :: (machine_regs option, 'i, 'o) xm)" "keeps R (at_sp r n :: (machine_regs option, 'i, 'o) xm)"
  unfolding push_cell_def at_sp_def by (intro k_plain)+

lemma k_jump: "keeps R (jump r sp a b c :: (machine_regs option, 'i, 'o) xm)"
  unfolding jump_def cut_def by (intro k_plain k_reads)

end

text \<open>With the instructions that write memory, and the host calls of a device.\<close>

locale kept_rel = kept_plain R for R :: "('i, 'o) xrel" +
  fixes dev :: "('i, 'o) device"
  assumes storing: "keeps R (x_store op offset sp :: (unit, 'i, 'o) xm)"
    and copying: "keeps R (x_copy sp :: (unit, 'i, 'o) xm)"
    and filling: "keeps R (x_fill sp :: (unit, 'i, 'o) xm)"
    and growing: "keeps R (x_grow n :: (cell, 'i, 'o) xm)"
    and serving: "keeps R (serve dev h args)"
begin

lemma k_host: "keeps R (x_host dev f sp)"
  unfolding x_host_def by (intro k_plain k_reads serving)

lemma k_call: "keeps R (x_call dev f r)"
  unfolding x_call_def by (intro k_plain k_reads k_host k_enter)

lemma k_tail_call: "keeps R (x_tail_call dev f r)"
  unfolding x_tail_call_def by (intro k_plain k_reads k_host k_enter k_resume)

lemma k_transfer: "keeps R (transfer dev c r)"
  by (cases c; simp only: transfer.simps) (intro k_plain k_leave k_resume k_call k_pop_callee k_tail_call)+

lemma k_perform: "keeps R (perform dev i r)"
  by (cases i; simp only: perform.simps)
    (intro k_plain k_reads k_push k_jump k_load k_transfer k_code storing copying filling growing)+

lemma k_step: "keeps R (one_step dev r)"
  unfolding one_step_def by (intro k_plain k_code k_perform)

end

subsection \<open>What stays fixed in a run\<close>

definition steady :: "inst \<Rightarrow> inst \<Rightarrow> bool" where
  "steady s s1 \<longleftrightarrow>
     i_module s1 = i_module s \<and> i_shapes s1 = i_shapes s \<and> i_canon s1 = i_canon s \<and>
     i_max_pages s1 = i_max_pages s \<and> i_table s1 = i_table s \<and> i_depth s1 = i_depth s \<and>
     i_fuel s1 = i_fuel s \<and> length (i_stack s1) = length (i_stack s) \<and>
     length (i_globals s1) = length (i_globals s)"

lemma steady_simps [simp]:
  "steady s s" "steady s (s\<lparr>i_memory := mem\<rparr>)" "steady s (s\<lparr>i_pages := n\<rparr>)" "steady s (s\<lparr>i_frames := fs\<rparr>)"
  by (simp_all add: steady_def)

lemmas x_unfold = xbind_def xseq_def xret_def xget_def xsome_def xsum_def xtrap_def xpanic_def minus_usize_def
  cell_at_def bytes_between_def memory_range_def

interpretation steadily: kept_plain "on_inst steady"
  by unfold_locales (auto simp: steady_def)

lemma steady_writes: "keeps (on_inst steady) (set_bytes a bs)" "keeps (on_inst steady) (set_pages n)"
  by (rule keepsI; auto simp: set_bytes_def set_pages_def split: if_splits)+

lemma steady_memory:
  "keeps (on_inst steady) (x_store op offset sp)" "keeps (on_inst steady) (x_copy sp)" "keeps (on_inst steady) (x_fill sp)" "keeps (on_inst steady) (x_grow n)"
  unfolding x_store_def x_copy_def x_fill_def x_grow_def
  by (intro steadily.k_plain steadily.k_reads steady_writes)+

lemma steady_serve: "keeps (on_inst steady) (serve dev h args)"
proof (rule keepsI)
  fix s w x s1 w1
  assume "serve dev h args s w = XOk x s1 w1"
  then show "steady s s1"
    by (cases "host_call dev h args (take (i_pages s * PAGE) (i_memory s)) w")
      (auto simp: serve_def Let_def split: if_splits)
next
  fix s w st s1 w1
  assume "serve dev h args s w = XStop st s1 w1"
  then show "steady s s1"
    by (cases "host_call dev h args (take (i_pages s * PAGE) (i_memory s)) w")
      (auto simp: serve_def Let_def split: if_splits)
qed

interpretation unchanged: kept_rel "on_inst steady" dev for dev
  by unfold_locales
    (rule steady_memory steady_serve)+

lemma step_steady: "one_step dev r s w = XOk x s1 w1 \<Longrightarrow> steady s s1"
  by (rule keeps_Ok [OF unchanged.k_step])

subsection \<open>The loop\<close>

function execute_loop :: "('i, 'o) device \<Rightarrow> machine_regs \<Rightarrow> (unit, 'i, 'o) xm" where
  "execute_loop dev r s w =
     (case spend s w of
        XOk _ s1 w1 \<Rightarrow>
          (case one_step dev r s1 w1 of
             XOk None s2 w2 \<Rightarrow> XOk () s2 w2
           | XOk (Some r2) s2 w2 \<Rightarrow> execute_loop dev r2 s2 w2
           | XPanic \<Rightarrow> XPanic
           | XHang \<Rightarrow> XHang
           | XStop st s2 w2 \<Rightarrow> XStop st s2 w2)
      | XPanic \<Rightarrow> XPanic
      | XHang \<Rightarrow> XHang
      | XStop st s1 w1 \<Rightarrow> XStop st s1 w1)"
  by pat_completeness auto
termination execute_loop
proof (relation "measure (\<lambda>(dev, r, s, w). i_fuel s)", goal_cases)
  case 1
  show ?case by simp
next
  case (2 dev r s w u s1 w1 o2 s2 w2 r2)
  then have "i_fuel s1 = i_fuel s - 1" and "0 < i_fuel s"
    by (auto simp: spend_def split: if_splits)
  moreover have "i_fuel s2 = i_fuel s1"
    using step_steady [of dev r s1 w1 "Some r2" s2 w2] 2 by (simp add: steady_def)
  ultimately show ?case by simp
qed

declare execute_loop.simps [simp del]

definition execute :: "('i, 'o) device \<Rightarrow> (unit, 'i, 'o) xm" where
  "execute dev = xbind (xget i_module) (\<lambda>m.
     if m_entry m < length (m_imports m) then xbind (x_host dev (m_entry m) 0) (\<lambda>_. xret ())
     else xbind (enter (m_entry m) 0) (\<lambda>(fp, ob). xbind (code_of (m_entry m)) (\<lambda>_.
       execute_loop dev \<lparr>r_func = m_entry m, r_pc = 0, r_fp = fp, r_ob = ob, r_sp = ob\<rparr>)))"

text \<open>How a run ends: in a panic or not at all, or with an outcome.\<close>

datatype ('i, 'o) run_finish = Panicked | Hung | Ended vm_outcome inst "('i, 'o) io"

definition run_instance :: "('i, 'o) device \<Rightarrow> inst \<Rightarrow> ('i, 'o) io \<Rightarrow> ('i, 'o) run_finish" where
  "run_instance dev s w =
     (case execute dev s w of
        XPanic \<Rightarrow> Panicked
      | XHang \<Rightarrow> Hung
      | XOk _ s1 w1 \<Rightarrow> Ended Finished s1 w1
      | XStop (SExit n) s1 w1 \<Rightarrow> Ended (Exited n) s1 w1
      | XStop (STrap t) s1 w1 \<Rightarrow> Ended (Trapped t) s1 w1)"

end
