(* ===== verification/Vm_Instance.thy ===== *)
theory Vm_Instance
  imports Vm_Valid Vm_Step
begin

text \<open>
  Instances of valid modules: building one never panics (\<open>Instance::new\<close> of
  \<open>crates/almide-wasm-vm/src/exec.rs\<close>), what holds of it holds after every step, and the host calls
  (\<open>crates/almide-wasm-vm/src/wasi.rs\<close>) keep the size of the memory they are given.
\<close>

subsection \<open>Shapes\<close>

definition fbody :: "module \<Rightarrow> nat \<Rightarrow> body" where
  "fbody m f = m_bodies m ! (f - length (m_imports m))"

definition is_host :: "module \<Rightarrow> nat \<Rightarrow> bool" where
  "is_host m f \<longleftrightarrow> f < length (m_imports m)"

definition fshape_of :: "module \<Rightarrow> nat \<Rightarrow> fshape" where
  "fshape_of m f =
     \<lparr>sh_params = length (params (ftype m f)),
      sh_locals = (if is_host m f then length (params (ftype m f)) else b_locals (fbody m f)),
      sh_result = (results (ftype m f) \<noteq> []), sh_max = (if is_host m f then 0 else b_max (fbody m f))\<rparr>"

lemma collect_map: "(\<And>x. x \<in> set xs \<Longrightarrow> f x = Some (g x)) \<Longrightarrow> collect f xs = Some (map g xs)"
  by (induction xs) simp_all

lemma collect_shapes:
  assumes "module_ok m"
  shows "collect (shape_of m) (zip [0..<length (m_funcs m)] (m_funcs m)) = Some (map (fshape_of m) [0..<length (m_funcs m)])"
proof -
  have "shape_of m (f, t) = Some (fshape_of m f)" if "(f, t) \<in> set (zip [0..<length (m_funcs m)] (m_funcs m))" for f t
  proof -
    have f: "f < length (m_funcs m)" "t = m_funcs m ! f"
      using that by (auto simp: set_zip)
    then have "t < length (m_types m)"
      using assms by (simp add: module_ok_def)
    moreover have "\<not> is_host m f \<Longrightarrow> f - length (m_imports m) < length (m_bodies m)"
      using assms f by (auto simp: module_ok_def is_host_def)
    ultimately show ?thesis
      using f by (simp add: shape_of_def sget_def fshape_of_def ftype_def fbody_def is_host_def)
  qed
  then have "collect (shape_of m) (zip [0..<length (m_funcs m)] (m_funcs m)) =
      Some (map (\<lambda>(f, t). fshape_of m f) (zip [0..<length (m_funcs m)] (m_funcs m)))"
    by (intro collect_map) auto
  moreover have "map (\<lambda>(f, t). fshape_of m f) (zip [0..<length (m_funcs m)] (m_funcs m)) =
      map (fshape_of m) (map fst (zip [0..<length (m_funcs m)] (m_funcs m)))"
    by (auto simp del: map_fst_zip)
  ultimately show ?thesis by simp
qed

lemma canon_eq:
  assumes "canon_of ts ! i = canon_of ts ! j" and "i < length ts" and "j < length ts"
  shows "ts ! i = ts ! j"
proof -
  have first: "ts ! (canon_of ts ! k) = ts ! k" if "k < length ts" for k
  proof -
    have "takeWhile (\<lambda>u. u \<noteq> ts ! k) ts \<noteq> ts"
      using nth_mem [OF that] by (metis (mono_tags, lifting) set_takeWhileD)
    then have "length (takeWhile (\<lambda>u. u \<noteq> ts ! k) ts) < length ts"
      by (metis length_takeWhile_le nat_less_le take_all takeWhile_eq_take order_refl)
    then show ?thesis
      using nth_length_takeWhile [of "\<lambda>u. u \<noteq> ts ! k" ts] that by (simp add: canon_of_def)
  qed
  show ?thesis
    using first [OF assms(2)] first [OF assms(3)] assms(1) by simp
qed

subsection \<open>Valid instances\<close>

definition mem_ok :: "inst \<Rightarrow> bool" where
  "mem_ok s \<longleftrightarrow> i_pages s \<le> i_max_pages s \<and> i_max_pages s \<le> MAX_PAGES \<and> length (i_memory s) = i_max_pages s * PAGE"

definition inst_ok :: "inst \<Rightarrow> bool" where
  "inst_ok s \<longleftrightarrow>
     module_ok (i_module s) \<and> i_shapes s = map (fshape_of (i_module s)) [0..<length (m_funcs (i_module s))] \<and>
     i_canon s = canon_of (m_types (i_module s)) \<and> length (i_globals s) = length (m_globals (i_module s)) \<and>
     (\<forall>e \<in> set (i_table s). \<forall>f. e = Some f \<longrightarrow> f < length (m_funcs (i_module s))) \<and>
     length (i_stack s) < 2 ^ 32 \<and> mem_ok s"

lemma fill_memory_fits:
  "\<forall>g \<in> set gs. seg_offset g + length (seg_items g) \<le> length mem \<Longrightarrow>
     \<exists>mem2. fill_memory gs mem = Some mem2 \<and> length mem2 = length mem"
proof (induction gs arbitrary: mem)
  case (Cons g gs)
  then show ?case using Cons.IH [of "put mem (seg_offset g) (seg_items g)"] by simp
qed simp

lemma fill_entries_fits:
  "k + length fs \<le> length tb \<Longrightarrow>
     \<exists>tb2. fill_entries k fs tb = Some tb2 \<and> length tb2 = length tb \<and> set tb2 \<subseteq> set tb \<union> Some ` set fs"
proof (induction fs arbitrary: k tb)
  case (Cons f fs)
  have "set (tb[k := Some f]) \<subseteq> insert (Some f) (set tb)"
    by (rule set_update_subset_insert)
  then show ?case
    using Cons.IH [of "k + 1" "tb[k := Some f]"] Cons.prems by auto
qed simp

lemma fill_table_fits:
  "\<forall>g \<in> set gs. seg_offset g + length (seg_items g) \<le> length tb \<and> (\<forall>f \<in> set (seg_items g). f < n) \<Longrightarrow>
   \<forall>e \<in> set tb. \<forall>f. e = Some f \<longrightarrow> f < n \<Longrightarrow>
     \<exists>tb2. fill_table gs tb = Some tb2 \<and> (\<forall>e \<in> set tb2. \<forall>f. e = Some f \<longrightarrow> f < n)"
proof (induction gs arbitrary: tb)
  case (Cons g gs)
  obtain tb2 where tb2: "fill_entries (seg_offset g) (seg_items g) tb = Some tb2" "length tb2 = length tb"
      "set tb2 \<subseteq> set tb \<union> Some ` set (seg_items g)"
    using fill_entries_fits [of "seg_offset g" "seg_items g" tb] Cons.prems(1) by auto
  have "\<forall>e \<in> set tb2. \<forall>f. e = Some f \<longrightarrow> f < n"
    using tb2(3) Cons.prems by auto
  then show ?case
    using Cons.IH [of tb2] Cons.prems(1) tb2 by simp
qed simp

lemma new_instance_ok:
  assumes m: "module_ok m" and cells: "lim_cells lim < 2 ^ 32"
  shows "case new_instance m lim of None \<Rightarrow> False | Some (Inl e) \<Rightarrow> True
    | Some (Inr s) \<Rightarrow> inst_ok s \<and> i_module s = m \<and> i_frames s = [] \<and> i_fuel s = lim_fuel lim \<and>
        length (i_stack s) = lim_cells lim"
proof -
  obtain lo hi where mem: "m_memory m = Some (lo, hi)"
    using m by (auto simp: module_ok_def)
  define top where "top = min (case hi of Some h \<Rightarrow> h | None \<Rightarrow> MAX_PAGES) (lim_pages lim)"
  have hi: "top \<le> MAX_PAGES"
    using m mem by (auto simp: module_ok_def limits_fit_def top_def min_def split: option.split)
  obtain tb where tb: "fill_table (m_elements m) (replicate (case m_table m of Some n \<Rightarrow> n | None \<Rightarrow> 0) None) = Some tb"
      "\<forall>e \<in> set tb. \<forall>f. e = Some f \<longrightarrow> f < length (m_funcs m)"
    using fill_table_fits [of "m_elements m" "replicate (case m_table m of Some n \<Rightarrow> n | None \<Rightarrow> 0) None" "length (m_funcs m)"] m
    by (auto simp: module_ok_def)
  show ?thesis
  proof (cases "top < lo")
    case True
    then show ?thesis
      using m mem by (simp add: new_instance_def collect_shapes top_def)
  next
    case False
    have "\<forall>g \<in> set (m_data m). seg_offset g + length (seg_items g) \<le> top * PAGE"
    proof
      fix g
      assume "g \<in> set (m_data m)"
      then have "seg_offset g + length (seg_items g) \<le> lo * PAGE"
        using m mem by (simp add: module_ok_def)
      also have "lo * PAGE \<le> top * PAGE"
        using False by simp
      finally show "seg_offset g + length (seg_items g) \<le> top * PAGE" .
    qed
    then obtain mem2 where "fill_memory (m_data m) (replicate (top * PAGE) (CHR 0x00)) = Some mem2"
        "length mem2 = top * PAGE"
      using fill_memory_fits [of "m_data m" "replicate (top * PAGE) (CHR 0x00)"] by auto
    then show ?thesis
      using m mem False hi tb cells
      by (simp add: new_instance_def collect_shapes top_def [symmetric] inst_ok_def mem_ok_def)
  qed
qed

subsection \<open>What a step keeps\<close>

definition like :: "inst \<Rightarrow> inst \<Rightarrow> bool" where
  "like s s1 \<longleftrightarrow> steady s s1 \<and> (mem_ok s \<longrightarrow> mem_ok s1)"

lemma like_refl [simp]: "like s s"
  by (simp add: like_def)

lemma like_trans: "like s1 s2 \<Longrightarrow> like s2 s3 \<Longrightarrow> like s1 s3"
  by (auto simp: like_def steady_def)

lemma like_inst_ok: "like s s1 \<Longrightarrow> inst_ok s \<Longrightarrow> inst_ok s1"
  by (simp add: like_def inst_ok_def steady_def)

lemma like_updates [simp]:
  "length st = length (i_stack s) \<Longrightarrow> like s (s\<lparr>i_stack := st\<rparr>)" "like s (s\<lparr>i_frames := fs\<rparr>)"
  "length gs = length (i_globals s) \<Longrightarrow> like s (s\<lparr>i_globals := gs\<rparr>)"
  "length mem = length (i_memory s) \<Longrightarrow> like s (s\<lparr>i_memory := mem\<rparr>)"
  by (auto simp: like_def steady_def mem_ok_def)

subsection \<open>Host calls\<close>

lemma mrange_ok: "mrange mem a n = Inr (p, e) \<Longrightarrow> p = a \<and> e = a + n \<and> e \<le> length mem"
  by (auto simp: mrange_def split: if_splits)

lemma word_at_ok: "word_at mem a = Inr p \<Longrightarrow> p = a \<and> a + 4 \<le> length mem"
  by (auto simp: word_at_def mrange_def split: if_splits)

lemma iovec_ok: "iovec mem iovs k = Inr (p, e) \<Longrightarrow> p \<le> e \<and> e \<le> length mem"
  by (auto simp: iovec_def Let_def split: sum.splits dest: mrange_ok)

lemma iovecs_ok: "iovecs mem iovs k n = Inr ps \<Longrightarrow> (p, e) \<in> set ps \<Longrightarrow> p \<le> e \<and> e \<le> length mem"
  by (induction mem iovs k n arbitrary: ps rule: iovecs.induct)
    (auto split: sum.splits dest: iovec_ok)

lemma length_le_bytes [simp]: "length (le_bytes n v) = n"
  by (simp add: le_bytes_def)

lemma read_retry_fits:
  assumes "fair_reads dev" and "read_retry (dev_read dev) i n = Some (Some bs, j)"
  shows "length bs \<le> n"
proof -
  let ?P = "\<lambda>rd i n x. rd = dev_read dev \<longrightarrow> (\<forall>bs. fst x = Some bs \<longrightarrow> length bs \<le> n)"
  have "?P rd i n x" if "read_retry rd i n = Some x" for rd i n x
    using that
  proof (rule read_retry.raw_induct [where P = ?P, rotated], goal_cases)
    case (1 f rd i n x)
    obtain ev j where ev: "rd i n = (ev, j)" by (cases "rd i n")
    show ?case
    proof (cases ev)
      case (ReadOk bs)
      then have "x = (Some bs, j)" and "rd = dev_read dev \<longrightarrow> length bs \<le> n"
        using 1(2) ev assms(1) by (auto simp: fair_reads_def)
      then show ?thesis by simp
    next
      case ReadInterrupted
      then show ?thesis using 1(1) [of rd j n x] 1(2) ev by simp
    next
      case ReadFailed
      then show ?thesis using 1(2) ev by auto
    qed
  qed
  from this [OF assms(2)] show ?thesis by simp
qed

definition host_fits :: "host_fn \<Rightarrow> bytes \<Rightarrow> (cell option, 'i, 'o) hres \<Rightarrow> bool" where
  "host_fits h mem v \<longleftrightarrow>
     (case v of
        HPanic \<Rightarrow> False
      | HHang \<Rightarrow> True
      | HStop st mem1 w1 \<Rightarrow> length mem1 = length mem
      | HDone x mem1 w1 \<Rightarrow> length mem1 = length mem \<and> (x \<noteq> None) = (results (signature h) \<noteq> []))"

lemma fd_write_fits:
  assumes "length args = 4"
  shows "host_fits FdWrite mem (hmap (\<lambda>n. Some (of_nat n)) (fd_write dev args mem w))"
proof -
  obtain a0 a1 a2 a3 where "args = [a0, a1, a2, a3]"
    using assms by (auto simp: length_Suc_conv numeral_eq_Suc)
  then show ?thesis
    by (auto simp: host_fits_def fd_write_def Let_def fn_type_def split: sum.split prod.split bool.split dest!: word_at_ok)
qed

lemma fd_read_put:
  assumes "fair_reads dev" and "iovecs mem i k n = Inr ps" and "find (\<lambda>(p, e). p < e) ps = Some (p, e)"
    and "read_retry (dev_read dev) j (e - p) = Some (Some bs, j2)" and "word_at mem q = Inr a"
  shows "p + length bs \<le> length mem" and "length (put (put mem p bs) a (le_bytes 4 v)) = length mem"
proof -
  have "(p, e) \<in> set ps"
    using assms(3) by (auto simp: find_Some_iff) (metis nth_mem)
  then show "p + length bs \<le> length mem" and "length (put (put mem p bs) a (le_bytes 4 v)) = length mem"
    using iovecs_ok [OF assms(2)] read_retry_fits [OF assms(1,4)] word_at_ok [OF assms(5)] by fastforce+
qed

lemma fd_read_fits:
  assumes "length args = 4" and "fair_reads dev"
  shows "host_fits FdRead mem (hmap (\<lambda>n. Some (of_nat n)) (fd_read dev args mem w))"
proof -
  obtain a0 a1 a2 a3 where args: "args = [a0, a1, a2, a3]"
    using assms(1) by (auto simp: length_Suc_conv numeral_eq_Suc)
  show ?thesis
    using args fd_read_put(2) [OF assms(2)]
    by (auto simp: host_fits_def fd_read_def Let_def put_count_def fn_type_def
        split: sum.split option.split prod.split dest: word_at_ok)
qed

lemma host_call_fits:
  assumes "length args = length (params (signature h))" and "fair_reads dev"
  shows "host_fits h mem (host_call dev h args mem w)"
proof (cases h)
  case FdWrite
  then show ?thesis using assms fd_write_fits [of args] by (simp add: host_call_def fn_type_def)
next
  case FdRead
  then show ?thesis using assms fd_read_fits [of args] by (simp add: host_call_def fn_type_def)
next
  case ProcExit
  then show ?thesis
    using assms by (cases args) (simp_all add: host_call_def fn_type_def host_fits_def)
qed (simp_all add: host_call_def host_fits_def)

end
