(* ===== verification/Vm_Safe.thy ===== *)
theory Vm_Safe
  imports Vm_Instance
begin

text \<open>
  Running a valid instance never panics (\<open>execute\<close> of \<open>crates/almide-wasm-vm/src/exec.rs\<close>): no index of
  the loop is out of range and no subtraction goes below zero. The registers always stand at an
  annotated point of their function, and every saved frame waits for its callee's result at one.
\<close>

subsection \<open>Heights at points\<close>

definition fscope :: "module \<Rightarrow> nat \<Rightarrow> scope" where
  "fscope m f = \<lparr>sc_ctx = module_ctx m, sc_locals = b_locals (fbody m f), sc_result = (results (ftype m f) \<noteq> [])\<rparr>"

definition height :: "module \<Rightarrow> nat \<Rightarrow> nat \<Rightarrow> nat \<Rightarrow> bool" where
  "height m f p k \<longleftrightarrow>
     (\<exists>H. (\<forall>p k. H p = Some k \<longrightarrow> p < length (b_code (fbody m f)) \<and> k \<le> b_max (fbody m f)) \<and>
          code_ok (fscope m f) {} H (b_code (fbody m f)) \<and> H p = Some k)"

definition defined :: "module \<Rightarrow> nat \<Rightarrow> bool" where
  "defined m f \<longleftrightarrow> \<not> is_host m f \<and> f < length (m_funcs m)"

definition nres :: "module \<Rightarrow> nat \<Rightarrow> nat" where
  "nres m f = of_bool (results (ftype m f) \<noteq> [])"

lemma defined_body:
  assumes "module_ok m" and "defined m f"
  shows "body_ok (module_ctx m) (ftype m f) (fbody m f)" and "f - length (m_imports m) < length (m_bodies m)"
proof -
  show lt: "f - length (m_imports m) < length (m_bodies m)"
    using assms by (auto simp: module_ok_def defined_def is_host_def)
  then have "body_ok (module_ctx m) (ftype m (length (m_imports m) + (f - length (m_imports m)))) (fbody m f)"
    using assms(1) by (simp add: module_ok_def fbody_def)
  then show "body_ok (module_ctx m) (ftype m f) (fbody m f)"
    using assms(2) by (simp add: defined_def is_host_def)
qed

lemma height_start: "module_ok m \<Longrightarrow> defined m f \<Longrightarrow> height m f 0 0"
  using defined_body(1) [of m f] by (auto simp: body_ok_def height_def fscope_def)

lemma heightD:
  assumes "height m f p k"
  shows "p < length (b_code (fbody m f))" and "k \<le> b_max (fbody m f)"
    and "names_exist (fscope m f) (b_code (fbody m f) ! p)" and "pops (fscope m f) (b_code (fbody m f) ! p) \<le> k"
    and "leaves (fscope m f) (b_code (fbody m f) ! p) = Some x \<Longrightarrow>
           height m f (p + 1) (k - pops (fscope m f) (b_code (fbody m f) ! p) + x)"
    and "lands (b_code (fbody m f) ! p) k = Some (q, h) \<Longrightarrow> height m f q h"
  using assms unfolding height_def code_ok_def instr_ok_def by blast+

lemma ftype_at: "module_ok m \<Longrightarrow> f < length (m_funcs m) \<Longrightarrow> func_at (module_ctx m) f = ftype m f"
  by (simp add: func_at_def type_at_def module_ctx_def ftype_def)

lemma ftype_mem: "module_ok m \<Longrightarrow> f < length (m_funcs m) \<Longrightarrow> ftype m f \<in> set (m_types m)"
  by (simp add: module_ok_def ftype_def)

lemma nres_length:
  assumes "module_ok m" and "f < length (m_funcs m)"
  shows "length (results (ftype m f)) = nres m f"
proof -
  have "length (results (ftype m f)) \<le> 1"
    using ftype_mem [OF assms] assms(1) unfolding module_ok_def by blast
  then show ?thesis
    by (cases "results (ftype m f)") (simp_all add: nres_def)
qed

subsection \<open>Frames\<close>

text \<open>A frame of \<open>f\<close> on a stack of \<open>n\<close> cells.\<close>

definition frame_in :: "module \<Rightarrow> nat \<Rightarrow> nat \<Rightarrow> nat \<Rightarrow> nat \<Rightarrow> bool" where
  "frame_in m n f fp ob \<longleftrightarrow> defined m f \<and> ob = fp + b_locals (fbody m f) \<and> ob + b_max (fbody m f) \<le> n"

definition at_point :: "module \<Rightarrow> nat \<Rightarrow> machine_regs \<Rightarrow> bool" where
  "at_point m n r \<longleftrightarrow> frame_in m n (r_func r) (r_fp r) (r_ob r) \<and>
     (\<exists>k. height m (r_func r) (r_pc r) k \<and> r_sp r = r_ob r + k)"

text \<open>The saved frames, once the stack top is \<open>x\<close> on return.\<close>

fun callers :: "module \<Rightarrow> nat \<Rightarrow> nat \<Rightarrow> saved_frame list \<Rightarrow> bool" where
  "callers m n x [] \<longleftrightarrow> True"
| "callers m n x (c # cs) \<longleftrightarrow>
     at_point m n \<lparr>r_func = f_func c, r_pc = f_pc c, r_fp = f_fp c, r_ob = f_ob c, r_sp = x\<rparr> \<and>
     callers m n (f_fp c + nres m (f_func c)) cs"

definition running :: "module \<Rightarrow> nat \<Rightarrow> saved_frame list \<Rightarrow> machine_regs \<Rightarrow> bool" where
  "running m n fs r \<longleftrightarrow> at_point m n r \<and> callers m n (r_fp r + nres m (r_func r)) fs"

definition live :: "inst \<Rightarrow> machine_regs \<Rightarrow> bool" where
  "live s r \<longleftrightarrow> inst_ok s \<and> running (i_module s) (length (i_stack s)) (i_frames s) r \<and> length (i_frames s) \<le> i_depth s"

definition live_on :: "machine_regs option \<Rightarrow> inst \<Rightarrow> ('i, 'o) io \<Rightarrow> bool" where
  "live_on o1 s w \<longleftrightarrow> (\<forall>r. o1 = Some r \<longrightarrow> live s r)"

lemma liveI:
  assumes "like s s1" and "inst_ok s" and "i_frames s1 = i_frames s"
    and "running (i_module s) (length (i_stack s)) (i_frames s) r" and "length (i_frames s) \<le> i_depth s"
  shows "live s1 r"
  using assms like_inst_ok [OF assms(1,2)] by (auto simp: live_def like_def steady_def)

subsection \<open>Weakest preconditions of steps\<close>

text \<open>
  \<open>hg\<close> says whether the step may fail to return, which only a read from a device that answers
  \<open>Interrupted\<close> for ever does.
\<close>

definition responsive :: "('i, 'o) device \<Rightarrow> bool" where
  "responsive dev \<longleftrightarrow> (\<forall>i n. read_retry (dev_read dev) i n \<noteq> None)"

definition fair :: "bool \<Rightarrow> ('i, 'o) device \<Rightarrow> bool" where
  "fair hg dev \<longleftrightarrow> fair_reads dev \<and> (hg \<or> responsive dev)"

definition xwp :: "bool \<Rightarrow> ('a, 'i, 'o) xm \<Rightarrow> ('a \<Rightarrow> inst \<Rightarrow> ('i, 'o) io \<Rightarrow> bool) \<Rightarrow> inst \<Rightarrow> ('i, 'o) io \<Rightarrow> bool" where
  "xwp hg m Q s w \<longleftrightarrow> (case m s w of XPanic \<Rightarrow> False | XHang \<Rightarrow> hg | XStop st s1 w1 \<Rightarrow> True | XOk x s1 w1 \<Rightarrow> Q x s1 w1)"

named_theorems xwps

lemma xwp_bind [xwps]: "xwp hg (xbind m f) Q = xwp hg m (\<lambda>x. xwp hg (f x) Q)"
  by (auto simp: xwp_def xbind_def fun_eq_iff split: xres.splits)

lemma xwp_seq [xwps]: "xwp hg (xseq m k) Q = xwp hg m (\<lambda>_. xwp hg k Q)"
  by (simp add: xseq_def xwp_bind)

lemma xwp_ret [xwps]: "xwp hg (xret x) Q = Q x"
  by (simp add: xwp_def xret_def fun_eq_iff)

lemma xwp_get [xwps]: "xwp hg (xget g) Q = (\<lambda>s. Q (g s) s)"
  by (simp add: xwp_def xget_def fun_eq_iff)

lemma xwp_trap [xwps]: "xwp hg (xtrap t) Q = (\<lambda>s w. True)"
  by (simp add: xwp_def xtrap_def fun_eq_iff)

lemma xwp_panic [xwps]: "xwp hg xpanic Q = (\<lambda>s w. False)"
  by (simp add: xwp_def xpanic_def fun_eq_iff)

lemma xwp_some [xwps]: "xwp hg (xsome v) Q = (case v of None \<Rightarrow> (\<lambda>s w. False) | Some x \<Rightarrow> Q x)"
  by (simp add: xsome_def xwps split: option.split)

lemma xwp_sum [xwps]: "xwp hg (xsum v) Q = (case v of Inl t \<Rightarrow> (\<lambda>s w. True) | Inr x \<Rightarrow> Q x)"
  by (simp add: xsum_def xwps split: sum.split)

lemma xwp_if [xwps]: "xwp hg (if b then m else k) Q = (if b then xwp hg m Q else xwp hg k Q)"
  by simp

lemma xwp_minus [xwps]: "xwp hg (minus_usize n k) Q = (\<lambda>s w. k \<le> n \<and> Q (n - k) s w)"
  by (simp add: minus_usize_def xwps fun_eq_iff)

lemma xwp_cell_at [xwps]: "xwp hg (cell_at i) Q = (\<lambda>s w. i < length (i_stack s) \<and> Q (i_stack s ! i) s w)"
  by (simp add: cell_at_def xwps sget_def fun_eq_iff)

lemma xwp_set_cell [xwps]:
  "xwp hg (set_cell i v) Q = (\<lambda>s w. i < length (i_stack s) \<and> Q () (s\<lparr>i_stack := (i_stack s)[i := v]\<rparr>) w)"
  by (simp add: xwp_def set_cell_def fun_eq_iff)

lemma xwp_clear [xwps]:
  "xwp hg (clear_cells i j) Q = (\<lambda>s w. i \<le> j \<and> j \<le> length (i_stack s) \<and>
     Q () (s\<lparr>i_stack := put (i_stack s) i (replicate (j - i) 0)\<rparr>) w)"
  by (auto simp: xwp_def clear_cells_def fun_eq_iff)

lemma xwp_move [xwps]:
  "xwp hg (move_cells i j d) Q = (\<lambda>s w. i \<le> j \<and> j \<le> length (i_stack s) \<and> d + (j - i) \<le> length (i_stack s) \<and>
     Q () (s\<lparr>i_stack := put (i_stack s) d (subslice (i_stack s) i j)\<rparr>) w)"
  by (auto simp: xwp_def move_cells_def fun_eq_iff)

lemma xwp_cells [xwps]:
  "xwp hg (cells_between i j) Q = (\<lambda>s w. i \<le> j \<and> j \<le> length (i_stack s) \<and> Q (subslice (i_stack s) i j) s w)"
  by (auto simp: cells_between_def xwps fun_eq_iff)

lemma xwp_bytes [xwps]:
  "xwp hg (bytes_between i j) Q = (\<lambda>s w. i \<le> j \<and> j \<le> length (i_memory s) \<and> Q (subslice (i_memory s) i j) s w)"
  by (auto simp: bytes_between_def xwps fun_eq_iff)

lemma xwp_set_bytes [xwps]:
  "xwp hg (set_bytes i bs) Q = (\<lambda>s w. i + length bs \<le> length (i_memory s) \<and> Q () (s\<lparr>i_memory := put (i_memory s) i bs\<rparr>) w)"
  by (simp add: xwp_def set_bytes_def fun_eq_iff)

lemma xwp_shape [xwps]: "xwp hg (shape_at f) Q = (\<lambda>s w. f < length (i_shapes s) \<and> Q (i_shapes s ! f) s w)"
  by (simp add: shape_at_def xwps sget_def fun_eq_iff)

lemma xwp_imports [xwps]: "xwp hg nimports Q = (\<lambda>s. Q (length (m_imports (i_module s))) s)"
  by (simp add: nimports_def xwps)

lemma xwp_code [xwps]:
  "xwp hg (code_of f) Q = (\<lambda>s w. length (m_imports (i_module s)) \<le> f \<and>
     f - length (m_imports (i_module s)) < length (m_bodies (i_module s)) \<and> Q (b_code (fbody (i_module s) f)) s w)"
  by (simp add: code_of_def xwps sget_def fun_eq_iff fbody_def)

lemma xwp_set_frames [xwps]: "xwp hg (set_frames fs) Q = (\<lambda>s. Q () (s\<lparr>i_frames := fs\<rparr>))"
  by (simp add: xwp_def set_frames_def fun_eq_iff)

lemma xwp_set_pages [xwps]: "xwp hg (set_pages n) Q = (\<lambda>s. Q () (s\<lparr>i_pages := n\<rparr>))"
  by (simp add: xwp_def set_pages_def fun_eq_iff)

lemma xwp_set_global [xwps]:
  "xwp hg (set_global i v) Q = (\<lambda>s w. i < length (i_globals s) \<and> Q () (s\<lparr>i_globals := (i_globals s)[i := v]\<rparr>) w)"
  by (simp add: xwp_def set_global_def fun_eq_iff)

lemma xwp_mono:
  assumes "xwp hg m Q s w" and "\<And>x s1 w1. Q x s1 w1 \<Longrightarrow> Q' x s1 w1"
  shows "xwp hg m Q' s w"
  using assms by (auto simp: xwp_def split: xres.splits)

subsection \<open>Memory\<close>

lemma xwp_range [xwps]:
  "xwp hg (memory_range addr off n) Q = (\<lambda>s w. u32_of addr + off + n \<le> i_pages s * PAGE \<longrightarrow> Q (u32_of addr + off) s w)"
  by (auto simp: memory_range_def xwps Let_def fun_eq_iff)

lemma pages_fit: "mem_ok s \<Longrightarrow> n \<le> i_pages s * PAGE \<Longrightarrow> n \<le> length (i_memory s)"
  unfolding mem_ok_def by (metis le_trans mult_le_mono1)

lemma xwp_load:
  assumes "op < length LOADS" and "1 \<le> sp" and "sp \<le> length (i_stack s)" and "mem_ok s"
    and "\<And>s1. like s s1 \<Longrightarrow> i_frames s1 = i_frames s \<Longrightarrow> Q () s1 w"
  shows "xwp hg (x_load op off sp) Q s w"
  using assms pages_fit [OF assms(4)] by (auto simp: x_load_def xwps sget_def)

lemma xwp_store:
  assumes "op < length STORES" and "sp + 2 \<le> length (i_stack s)" and "mem_ok s"
    and "\<And>s1. like s s1 \<Longrightarrow> i_frames s1 = i_frames s \<Longrightarrow> Q () s1 w"
  shows "xwp hg (x_store op off sp) Q s w"
  using assms pages_fit [OF assms(3)] by (auto simp: x_store_def xwps sget_def)

lemma xwp_copy:
  assumes "sp + 3 \<le> length (i_stack s)" and "mem_ok s"
    and "\<And>s1. like s s1 \<Longrightarrow> i_frames s1 = i_frames s \<Longrightarrow> Q () s1 w"
  shows "xwp hg (x_copy sp) Q s w"
  using assms pages_fit [OF assms(2)] by (auto simp: x_copy_def xwps subslice_def)

lemma xwp_fill:
  assumes "sp + 3 \<le> length (i_stack s)" and "mem_ok s"
    and "\<And>s1. like s s1 \<Longrightarrow> i_frames s1 = i_frames s \<Longrightarrow> Q () s1 w"
  shows "xwp hg (x_fill sp) Q s w"
  using assms pages_fit [OF assms(2)] by (auto simp: x_fill_def xwps)

lemma xwp_grow:
  assumes "mem_ok s" and "\<And>v s1. like s s1 \<Longrightarrow> i_frames s1 = i_frames s \<Longrightarrow> Q v s1 w"
  shows "xwp hg (x_grow n) Q s w"
proof -
  have "as_u32 (i_pages s + n) = i_pages s + n" if "i_pages s + n \<le> i_max_pages s"
    using assms(1) that by (simp add: as_u32_def mem_ok_def MAX_PAGES_def)
  then show ?thesis
    using assms by (auto simp: x_grow_def xwps like_def mem_ok_def)
qed

subsection \<open>Host calls\<close>

lemma signature_params: "1 \<le> length (params (signature h))"
  by (cases h) (simp_all add: fn_type_def)

lemma host_call_returns: "responsive dev \<Longrightarrow> host_call dev h args mem w \<noteq> HHang"
proof (cases h)
  case FdRead
  assume "responsive dev"
  then have no: "read_retry (dev_read dev) i n = None \<Longrightarrow> False" for i n
    unfolding responsive_def by blast
  have "fd_read dev args mem w \<noteq> HHang"
    by (auto dest: no simp: fd_read_def Let_def split: list.splits sum.splits option.splits prod.splits)
  then show ?thesis
    using FdRead by (cases "fd_read dev args mem w") (simp_all add: host_call_def)
next
  case FdWrite
  have "fd_write dev args mem w \<noteq> HHang"
    by (auto simp: fd_write_def Let_def split: list.splits sum.splits bool.splits prod.splits)
  then show ?thesis
    using FdWrite by (cases "fd_write dev args mem w") (simp_all add: host_call_def)
qed (auto simp: host_call_def split: list.splits)

lemma xwp_serve:
  assumes "mem_ok s" and "length args = length (params (signature h))" and "fair hg dev"
    and "\<And>v s1 w1. like s s1 \<Longrightarrow> i_frames s1 = i_frames s \<Longrightarrow> (v \<noteq> None) = (results (signature h) \<noteq> []) \<Longrightarrow> Q v s1 w1"
  shows "xwp hg (serve dev h args) Q s w"
proof -
  let ?n = "i_pages s * PAGE"
  have n: "?n \<le> length (i_memory s)"
    by (rule pages_fit [OF assms(1)]) simp
  have "like s (s\<lparr>i_memory := mem @ drop ?n (i_memory s)\<rparr>)" if "length mem = length (take ?n (i_memory s))" for mem
    using that n by simp
  moreover have "hg" if "host_call dev h args (take ?n (i_memory s)) w = HHang"
    using host_call_returns [of dev h args "take ?n (i_memory s)" w] that assms(3) by (auto simp: fair_def)
  ultimately show ?thesis
    using n host_call_fits [OF assms(2), of dev "take ?n (i_memory s)" w] assms(3,4)
    by (auto simp: xwp_def serve_def Let_def host_fits_def fair_def split: hres.splits)
qed

lemma shape_known:
  "inst_ok s \<Longrightarrow> f < length (m_funcs (i_module s)) \<Longrightarrow> f < length (i_shapes s) \<and> i_shapes s ! f = fshape_of (i_module s) f"
  by (simp add: inst_ok_def)

lemma host_known: "module_ok m \<Longrightarrow> is_host m f \<Longrightarrow> f < length (m_funcs m) \<and> ftype m f = signature (m_imports m ! f)"
  by (auto simp: module_ok_def is_host_def)

lemma xwp_host:
  fixes dev :: "('i, 'o) device"
  assumes ok: "inst_ok s" and host: "is_host (i_module s) f" and dev: "fair hg dev"
    and sp: "length (params (ftype (i_module s) f)) \<le> sp" "sp \<le> length (i_stack s)"
    and Q: "\<And>s1 w1. like s s1 \<Longrightarrow> i_frames s1 = i_frames s \<Longrightarrow>
              Q (sp - length (params (ftype (i_module s) f)) + nres (i_module s) f) s1 w1"
  shows "xwp hg (x_host dev f sp) Q s w"
proof -
  let ?m = "i_module s" and ?h = "m_imports (i_module s) ! f"
  have m: "module_ok ?m" and mem: "mem_ok s"
    using ok by (simp_all add: inst_ok_def)
  note f = host_known [OF m host]
  have sh: "f < length (i_shapes s)" "sh_params (i_shapes s ! f) = length (params (ftype ?m f))"
    using shape_known [OF ok] f by (simp_all add: fshape_of_def)
  let ?b = "sp - length (params (ftype ?m f))"
  have lt: "?b < length (i_stack s)"
    using sp signature_params [of ?h] f by auto
  have args: "length (subslice (i_stack s) ?b sp) = length (params (signature ?h))"
    using sp f by (auto simp: subslice_def)
  have "xwp hg (serve dev ?h (subslice (i_stack s) ?b sp))
      (\<lambda>v. xwp hg (case v of None \<Rightarrow> xret ?b | Some c \<Rightarrow> xseq (set_cell ?b c) (xret (?b + 1))) Q) s w"
  proof (rule xwp_serve [OF mem args dev])
    fix v :: "cell option" and s1 and w1 :: "('i, 'o) io"
    assume s1: "like s s1" "i_frames s1 = i_frames s" and v: "(v \<noteq> None) = (results (signature ?h) \<noteq> [])"
    show "xwp hg (case v of None \<Rightarrow> xret ?b | Some c \<Rightarrow> xseq (set_cell ?b c) (xret (?b + 1))) Q s1 w1"
    proof (cases v)
      case None
      then show ?thesis
        using Q [OF s1] v f by (simp add: xwps nres_def)
    next
      case (Some c)
      have len: "length (i_stack s1) = length (i_stack s)"
        using s1(1) by (simp add: like_def steady_def)
      have "like s (s1\<lparr>i_stack := (i_stack s1)[?b := c]\<rparr>)"
        by (rule like_trans [OF s1(1)]) simp
      then show ?thesis
        using Q [of "s1\<lparr>i_stack := (i_stack s1)[?b := c]\<rparr>"] s1(2) Some v f lt len by (simp add: xwps nres_def)
    qed
  qed
  then show ?thesis
    using host sh sp by (simp add: x_host_def xwps sget_def is_host_def cong: option.case_cong)
qed

subsection \<open>Calls\<close>

lemma xwp_enter:
  assumes ok: "inst_ok s" and f: "defined (i_module s) f"
    and sp: "length (params (ftype (i_module s) f)) \<le> sp"
    and Q: "\<And>s1 fp. like s s1 \<Longrightarrow> i_frames s1 = i_frames s \<Longrightarrow> fp = sp - length (params (ftype (i_module s) f)) \<Longrightarrow>
              frame_in (i_module s) (length (i_stack s)) f fp (fp + b_locals (fbody (i_module s) f)) \<Longrightarrow>
              Q (fp, fp + b_locals (fbody (i_module s) f)) s1 w"
  shows "xwp hg (enter f sp) Q s w"
proof -
  let ?m = "i_module s" and ?n = "length (params (ftype (i_module s) f))"
  have m: "module_ok ?m" and lt: "f < length (m_funcs ?m)"
    using ok f by (simp_all add: inst_ok_def defined_def)
  have sh: "f < length (i_shapes s)" "i_shapes s ! f = fshape_of ?m f"
    using shape_known [OF ok lt] by simp_all
  have le: "?n \<le> b_locals (fbody ?m f)"
    using defined_body(1) [OF m f] by (simp add: body_ok_def)
  have max: "sh_max (fshape_of ?m f) = b_max (fbody ?m f)" "sh_locals (fshape_of ?m f) = b_locals (fbody ?m f)"
    "sh_params (fshape_of ?m f) = ?n"
    using f by (simp_all add: fshape_of_def defined_def)
  show ?thesis
    using sh sp le max f Q by (auto simp: enter_def xwps Let_def frame_in_def)
qed

lemma xwp_resume:
  assumes "inst_ok s" and "callers (i_module s) (length (i_stack s)) (r_sp r) (i_frames s)"
    and "length (i_frames s) \<le> i_depth s"
  shows "xwp hg (resume_caller r) live_on s w"
proof (cases "i_frames s")
  case Nil
  then show ?thesis by (simp add: resume_caller_def xwps live_on_def)
next
  case (Cons c cs)
  have "like s (s\<lparr>i_frames := cs\<rparr>)" by simp
  then have "inst_ok (s\<lparr>i_frames := cs\<rparr>)"
    using like_inst_ok assms(1) by blast
  then show ?thesis
    using Cons assms(2,3)
    by (simp add: resume_caller_def xwps live_on_def live_def running_def at_point_def)
qed

lemma xwp_call:
  fixes dev :: "('i, 'o) device"
  assumes ok: "inst_ok s" and dev: "fair hg dev" and f: "f < length (m_funcs (i_module s))"
    and fr: "frame_in (i_module s) (length (i_stack s)) (r_func r) (r_fp r) (r_ob r)"
    and sp: "r_sp r = r_ob r + k" "length (params (ftype (i_module s) f)) \<le> k" "k \<le> b_max (fbody (i_module s) (r_func r))"
    and after: "height (i_module s) (r_func r) (r_pc r) (k - length (params (ftype (i_module s) f)) + nres (i_module s) f)"
    and cs: "callers (i_module s) (length (i_stack s)) (r_fp r + nres (i_module s) (r_func r)) (i_frames s)"
    and depth: "length (i_frames s) \<le> i_depth s"
  shows "xwp hg (x_call dev f r) (\<lambda>r2 s1 w1. live s1 r2) s w"
proof -
  let ?m = "i_module s" and ?n = "length (params (ftype (i_module s) f))"
  have m: "module_ok ?m" and small: "length (i_stack s) < 2 ^ 32"
    using ok by (simp_all add: inst_ok_def)
  have top: "r_sp r \<le> length (i_stack s)" "r_fp r \<le> r_ob r" "r_ob r \<le> length (i_stack s)"
    using fr sp by (auto simp: frame_in_def)
  show ?thesis
  proof (cases "is_host ?m f")
    case True
    have "live s1 (r\<lparr>r_sp := r_sp r - ?n + nres ?m f\<rparr>)" if "like s s1" "i_frames s1 = i_frames s" for s1
      using that fr after cs sp
      by (intro liveI [OF that(1) ok that(2)]) (auto simp: running_def at_point_def depth)
    then have "xwp hg (x_host dev f (r_sp r)) (\<lambda>sp. xwp hg (xret (r\<lparr>r_sp := sp\<rparr>)) (\<lambda>r2 s1 w1. live s1 r2)) s w"
      by (intro xwp_host [OF ok True dev]) (use sp top in \<open>auto simp: xwps\<close>)
    then show ?thesis
      using True by (simp add: x_call_def xwps is_host_def)
  next
    case False
    then have def: "defined ?m f"
      using f by (simp add: defined_def)
    define c where "c = \<lparr>f_func = r_func r, f_pc = as_u32 (r_pc r), f_fp = as_u32 (r_fp r), f_ob = as_u32 (r_ob r)\<rparr>"
    define s0 where "s0 = s\<lparr>i_frames := c # i_frames s\<rparr>"
    have "r_pc r < 2 ^ 32"
      using heightD(1) [OF after] defined_body(1) [OF m, of "r_func r"] fr by (simp add: frame_in_def body_ok_def)
    then have c: "c = \<lparr>f_func = r_func r, f_pc = r_pc r, f_fp = r_fp r, f_ob = r_ob r\<rparr>"
      using small top by (simp add: c_def as_u32_def)
    have "like s s0"
      by (simp add: s0_def)
    then have ok0: "inst_ok s0"
      using like_inst_ok ok by blast
    have waits: "callers ?m (length (i_stack s)) (r_sp r - ?n + nres ?m f) (c # i_frames s)"
      using fr after cs sp by (auto simp: c at_point_def)
    have "live s1 \<lparr>r_func = f, r_pc = 0, r_fp = fp, r_ob = fp + b_locals (fbody ?m f), r_sp = fp + b_locals (fbody ?m f)\<rparr>"
      if "like s0 s1" "i_frames s1 = i_frames s0" "fp = r_sp r - ?n"
        "frame_in ?m (length (i_stack s)) f fp (fp + b_locals (fbody ?m f))"
        "length (i_frames s) + 1 < i_depth s" for s1 fp
      using that waits height_start [OF m def]
      by (intro liveI [OF that(1) ok0 that(2)]) (auto simp: s0_def running_def at_point_def)
    then have "xwp hg (enter f (r_sp r)) (\<lambda>(fp, ob). xwp hg (xret \<lparr>r_func = f, r_pc = 0, r_fp = fp, r_ob = ob, r_sp = ob\<rparr>)
        (\<lambda>r2 s1 w1. live s1 r2)) s0 w" if "length (i_frames s) + 1 < i_depth s"
      by (intro xwp_enter [OF ok0]) (use def sp that in \<open>auto simp: xwps s0_def\<close>)
    then show ?thesis
      using False by (simp add: x_call_def xwps is_host_def c_def s0_def prod.case_distrib [of "\<lambda>m. xwp hg m _"] cong: prod.case_cong)
  qed
qed

lemma xwp_tail_call:
  fixes dev :: "('i, 'o) device"
  assumes ok: "inst_ok s" and dev: "fair hg dev" and f: "f < length (m_funcs (i_module s))"
    and fr: "frame_in (i_module s) (length (i_stack s)) (r_func r) (r_fp r) (r_ob r)"
    and sp: "r_sp r = r_ob r + k" "length (params (ftype (i_module s) f)) \<le> k" "k \<le> b_max (fbody (i_module s) (r_func r))"
    and same: "nres (i_module s) f = nres (i_module s) (r_func r)"
    and cs: "callers (i_module s) (length (i_stack s)) (r_fp r + nres (i_module s) (r_func r)) (i_frames s)"
    and depth: "length (i_frames s) \<le> i_depth s"
  shows "xwp hg (x_tail_call dev f r) live_on s w"
proof -
  let ?m = "i_module s" and ?n = "length (params (ftype (i_module s) f))"
  have m: "module_ok ?m"
    using ok by (simp add: inst_ok_def)
  have sh: "f < length (i_shapes s)" "sh_params (i_shapes s ! f) = ?n"
    using shape_known [OF ok f] by (simp_all add: fshape_of_def)
  have top: "r_sp r \<le> length (i_stack s)" "r_fp r + ?n \<le> r_sp r" "?n \<le> r_sp r"
    using fr sp by (auto simp: frame_in_def)
  define s0 where "s0 = s\<lparr>i_stack := put (i_stack s) (r_fp r) (subslice (i_stack s) (r_sp r - ?n) (r_sp r))\<rparr>"
  have "length (subslice (i_stack s) (r_sp r - ?n) (r_sp r)) = ?n"
    using top by (simp add: subslice_def)
  then have like0: "like s s0"
    using top by (simp add: s0_def)
  then have ok0: "inst_ok s0" and len0: "length (i_stack s0) = length (i_stack s)"
    using like_inst_ok ok by (blast, simp add: like_def steady_def)
  have mod0: "i_module s0 = ?m" "i_frames s0 = i_frames s" and depth0: "i_depth s0 = i_depth s"
    by (simp_all add: s0_def)
  let ?rest = "\<lambda>sp. if f < length (m_imports ?m) then xbind (x_host dev f sp) (\<lambda>sp2. resume_caller (r\<lparr>r_sp := sp2\<rparr>))
       else xbind (enter f sp) (\<lambda>(fp, ob). xret (Some \<lparr>r_func = f, r_pc = 0, r_fp = fp, r_ob = ob, r_sp = ob\<rparr>))"
  have "xwp hg (?rest (r_fp r + ?n)) live_on s0 w"
  proof (cases "is_host ?m f")
    case True
    have "xwp hg (resume_caller (r\<lparr>r_sp := r_fp r + ?n - ?n + nres ?m f\<rparr>)) live_on s1 w1"
      if "like s0 s1" "i_frames s1 = i_frames s0" for s1 w1
      using that like_inst_ok [OF that(1) ok0] cs same mod0 len0 depth depth0
      by (intro xwp_resume) (auto simp: like_def steady_def)
    then have "xwp hg (x_host dev f (r_fp r + ?n)) (\<lambda>sp2. xwp hg (resume_caller (r\<lparr>r_sp := sp2\<rparr>)) live_on) s0 w"
      by (intro xwp_host [OF ok0 _ dev]) (use True top mod0 len0 in auto)
    then show ?thesis
      using True by (simp add: xwps is_host_def)
  next
    case False
    then have def: "defined ?m f"
      using f by (simp add: defined_def)
    have "live s1 \<lparr>r_func = f, r_pc = 0, r_fp = fp, r_ob = fp + b_locals (fbody ?m f), r_sp = fp + b_locals (fbody ?m f)\<rparr>"
      if "like s0 s1" "i_frames s1 = i_frames s0" "fp = r_fp r + ?n - ?n"
        "frame_in ?m (length (i_stack s)) f fp (fp + b_locals (fbody ?m f))" for s1 fp
      using that cs same height_start [OF m def] mod0 len0 depth depth0
      by (intro liveI [OF that(1) ok0 that(2)]) (auto simp: running_def at_point_def)
    then have "xwp hg (enter f (r_fp r + ?n)) (\<lambda>(fp, ob). xwp hg (xret (Some \<lparr>r_func = f, r_pc = 0, r_fp = fp, r_ob = ob, r_sp = ob\<rparr>))
        live_on) s0 w"
      by (intro xwp_enter [OF ok0]) (use def mod0 len0 in \<open>auto simp: xwps live_on_def\<close>)
    then show ?thesis
      using False by (simp add: xwps is_host_def prod.case_distrib [of "\<lambda>m. xwp hg m _"])
  qed
  then show ?thesis
    using sh top by (cases "f < length (m_imports ?m)") (simp_all add: x_tail_call_def xwps Let_def s0_def)
qed

text \<open>The function an indirect call reaches has the type it names.\<close>

lemma xwp_resolve:
  assumes ok: "inst_ok s" and ty: "ty < length (m_types (i_module s))"
    and Q: "\<And>f. f < length (m_funcs (i_module s)) \<Longrightarrow> ftype (i_module s) f = m_types (i_module s) ! ty \<Longrightarrow> Q f s w"
  shows "xwp hg (resolve v ty) Q s w"
proof -
  let ?m = "i_module s"
  have canon: "i_canon s = canon_of (m_types ?m)"
    using ok by (simp add: inst_ok_def)
  have clen: "length (i_canon s) = length (m_types ?m)"
    by (simp add: canon canon_of_def)
  have step: "Q f s w" if f: "f < length (m_funcs ?m)" and eq: "i_canon s ! (m_funcs ?m ! f) = i_canon s ! ty" for f
  proof -
    have "m_funcs ?m ! f < length (m_types ?m)"
      using f ok by (simp add: inst_ok_def module_ok_def)
    then show ?thesis
      using Q [OF f] canon_eq [of "m_types ?m" "m_funcs ?m ! f" ty] ty canon eq by (simp add: ftype_def)
  qed
  have look: "f < length (m_funcs ?m) \<and> m_funcs ?m ! f < length (i_canon s)"
    if "sget (i_table s) (u32_of v) = Some (Some f)" for f
  proof -
    have "Some f \<in> set (i_table s)"
      using that by (metis nth_mem sget_Some)
    then have "f < length (m_funcs ?m)"
      using ok unfolding inst_ok_def by blast
    then show ?thesis
      using ok canon by (simp add: inst_ok_def module_ok_def canon_of_def)
  qed
  show ?thesis
    using step look ty clen by (auto simp: resolve_def xwps sget_def split: option.splits)
qed

subsection \<open>One instruction\<close>

lemma live_point:
  assumes "live s r"
  obtains k where "inst_ok s" and "frame_in (i_module s) (length (i_stack s)) (r_func r) (r_fp r) (r_ob r)"
    and "height (i_module s) (r_func r) (r_pc r) k" and "r_sp r = r_ob r + k"
    and "callers (i_module s) (length (i_stack s)) (r_fp r + nres (i_module s) (r_func r)) (i_frames s)"
    and "length (i_frames s) \<le> i_depth s"
  using assms by (auto simp: live_def running_def at_point_def)

text \<open>Going on in the same frame.\<close>

lemma live_same:
  assumes "live s r" and "like s s1" and "i_frames s1 = i_frames s"
    and "height (i_module s) (r_func r) q k"
  shows "live s1 (r\<lparr>r_pc := q, r_sp := r_ob r + k\<rparr>)"
proof (rule live_point [OF assms(1)])
  fix j
  assume *: "inst_ok s" "frame_in (i_module s) (length (i_stack s)) (r_func r) (r_fp r) (r_ob r)"
    "callers (i_module s) (length (i_stack s)) (r_fp r + nres (i_module s) (r_func r)) (i_frames s)"
    "length (i_frames s) \<le> i_depth s"
  then show ?thesis
    using assms(4) by (intro liveI [OF assms(2) _ assms(3)]) (auto simp: running_def at_point_def)
qed

lemma xwp_transfer:
  fixes dev :: "('i, 'o) device"
  assumes live: "live s r" and dev: "fair hg dev" and i: "b_code (fbody (i_module s) (r_func r)) ! r_pc r = ICall op"
  shows "xwp hg (transfer dev op (r\<lparr>r_pc := r_pc r + 1\<rparr>)) live_on s w"
proof (rule live_point [OF live])
  let ?m = "i_module s" and ?n = "length (i_stack s)" and ?r = "r\<lparr>r_pc := r_pc r + 1\<rparr>"
  fix k
  assume ok: "inst_ok s" and fr: "frame_in ?m ?n (r_func r) (r_fp r) (r_ob r)" and h: "height ?m (r_func r) (r_pc r) k"
    and sp: "r_sp r = r_ob r + k" and cs: "callers ?m ?n (r_fp r + nres ?m (r_func r)) (i_frames s)" and depth: "length (i_frames s) \<le> i_depth s"
  have m: "module_ok ?m"
    using ok by (simp add: inst_ok_def)
  have def: "defined ?m (r_func r)" and kn: "k \<le> b_max (fbody ?m (r_func r))" "r_ob r + k \<le> ?n" "r_fp r \<le> r_ob r"
    using fr heightD(2) [OF h] by (auto simp: frame_in_def)
  note D = heightD(3,4,5) [OF h, unfolded i]
  have one: "length (results (ftype ?m f)) = nres ?m f" if "f < length (m_funcs ?m)" for f
    using nres_length [OF m that] .
  have exists: "f < length (m_funcs ?m) \<and> func_at (module_ctx ?m) f = ftype ?m f" if "func_exists (module_ctx ?m) f" for f
    using that ftype_at [OF m] by (simp add: func_exists_def module_ctx_def)
  text \<open>An indirect call pops its operand and goes on as a call of the function it reaches.\<close>
  have indirect: "xwp hg (pop_callee ty ?r) (\<lambda>(f, r1). Q f r1) s w"
    if "ty < length (m_types ?m)" "1 \<le> k"
      "\<And>f. f < length (m_funcs ?m) \<Longrightarrow> ftype ?m f = m_types ?m ! ty \<Longrightarrow> Q f (?r\<lparr>r_sp := r_ob r + k - 1\<rparr>) s w" for ty Q
  proof -
    have "xwp hg (resolve v ty) (\<lambda>f. Q f (?r\<lparr>r_sp := r_ob r + k - 1\<rparr>)) s w" for v
      by (rule xwp_resolve [OF ok that(1)]) (rule that(3))
    then show ?thesis
      using that(2) sp kn by (simp add: pop_callee_def xwps)
  qed
  show ?thesis
  proof (cases op)
    case Return
    have "xwp hg (leave (r_func r) (r_sp r) (r_fp r)) (\<lambda>sp. xwp hg (resume_caller (?r\<lparr>r_sp := sp\<rparr>)) live_on) s w"
    proof (cases "results (ftype ?m (r_func r)) = []")
      case True
      then show ?thesis
        using shape_known [OF ok, of "r_func r"] def cs depth
        by (auto simp: leave_def xwps defined_def fshape_of_def nres_def intro!: xwp_resume [OF ok])
    next
      case False
      have "1 \<le> k"
        using D(2) Return False by (simp add: fscope_def)
      let ?s1 = "s\<lparr>i_stack := (i_stack s)[r_fp r := i_stack s ! (r_sp r - 1)]\<rparr>"
      have "like s ?s1" by simp
      then have "inst_ok ?s1"
        using like_inst_ok ok by blast
      then have "xwp hg (resume_caller (?r\<lparr>r_sp := r_fp r + 1\<rparr>)) live_on ?s1 w"
        by (rule xwp_resume) (use cs False depth in \<open>simp_all add: nres_def\<close>)
      then show ?thesis
        using shape_known [OF ok, of "r_func r"] def False \<open>1 \<le> k\<close> kn sp
        by (auto simp: leave_def xwps defined_def fshape_of_def)
    qed
    then show ?thesis
      using Return by (simp add: xwps)
  next
    case (Call f)
    then have f: "f < length (m_funcs ?m)" "func_at (module_ctx ?m) f = ftype ?m f"
      using D(1) exists by (auto simp: fscope_def)
    have "xwp hg (x_call dev f ?r) (\<lambda>r2 s1 w1. live s1 r2) s w"
      by (rule xwp_call [OF ok dev f(1), where k = k]) (use fr sp cs kn D f one Call depth in \<open>simp_all add: fscope_def\<close>)
    then show ?thesis
      using Call by (simp add: xwps live_on_def)
  next
    case (CallIndirect ty)
    then have ty: "ty < length (m_types ?m)" "1 \<le> k" and
      pop: "1 + length (params (m_types ?m ! ty)) \<le> k" and
      go: "height ?m (r_func r) (r_pc r + 1) (k - (1 + length (params (m_types ?m ! ty))) + length (results (m_types ?m ! ty)))"
      using D by (auto simp: fscope_def module_ctx_def type_at_def)
    have "xwp hg (x_call dev f (?r\<lparr>r_sp := r_ob r + k - 1\<rparr>)) (\<lambda>r2 s1 w1. live s1 r2) s w"
      if "f < length (m_funcs ?m)" "ftype ?m f = m_types ?m ! ty" for f
      by (rule xwp_call [OF ok dev that(1), where k = "k - 1"])
        (use fr cs kn go pop that one [OF that(1)] depth in auto)
    then show ?thesis
      using indirect [OF ty, of "\<lambda>f r1. xwp hg (x_call dev f r1) (\<lambda>r2 s1 w1. live s1 r2)"] CallIndirect
      by (simp add: xwps live_on_def prod.case_distrib [of "\<lambda>m. xwp hg m _"] cong: prod.case_cong)
  next
    case (ReturnCall f)
    then have f: "f < length (m_funcs ?m)" "func_at (module_ctx ?m) f = ftype ?m f"
      using D(1) exists by (auto simp: fscope_def)
    have "xwp hg (x_tail_call dev f ?r) live_on s w"
      by (rule xwp_tail_call [OF ok dev f(1), where k = k])
        (use fr sp cs kn D f one ReturnCall depth in \<open>simp_all add: fscope_def nres_def\<close>)
    then show ?thesis
      using ReturnCall by simp
  next
    case (ReturnCallIndirect ty)
    then have ty: "ty < length (m_types ?m)" "1 \<le> k" and pop: "1 + length (params (m_types ?m ! ty)) \<le> k"
      and same: "(results (m_types ?m ! ty) \<noteq> []) = (results (ftype ?m (r_func r)) \<noteq> [])"
      using D by (auto simp: fscope_def module_ctx_def type_at_def)
    have "xwp hg (x_tail_call dev f (?r\<lparr>r_sp := r_ob r + k - 1\<rparr>)) live_on s w"
      if "f < length (m_funcs ?m)" "ftype ?m f = m_types ?m ! ty" for f
      by (rule xwp_tail_call [OF ok dev that(1), where k = "k - 1"])
        (use fr cs kn pop that same depth in \<open>auto simp: nres_def\<close>)
    then show ?thesis
      using indirect [OF ty, of "\<lambda>f r1. xwp hg (x_tail_call dev f r1) live_on"] ReturnCallIndirect
      by (simp add: xwps prod.case_distrib [of "\<lambda>m. xwp hg m _"])
  qed
qed

lemmas run_unfold = xwps push_cell_def at_sp_def jump_def cut_def live_on_def fscope_def

lemma xwp_perform:
  fixes dev :: "('i, 'o) device"
  assumes live: "live s r" and dev: "fair hg dev"
  shows "xwp hg (perform dev (b_code (fbody (i_module s) (r_func r)) ! r_pc r) (r\<lparr>r_pc := r_pc r + 1\<rparr>)) live_on s w"
proof (rule live_point [OF live])
  let ?m = "i_module s" and ?n = "length (i_stack s)" and ?r = "r\<lparr>r_pc := r_pc r + 1\<rparr>"
  define i where "i = b_code (fbody (i_module s) (r_func r)) ! r_pc r"
  fix k
  assume ok: "inst_ok s" and fr: "frame_in ?m ?n (r_func r) (r_fp r) (r_ob r)" and h: "height ?m (r_func r) (r_pc r) k"
    and sp: "r_sp r = r_ob r + k"
  have mem: "mem_ok s"
    using ok by (simp add: inst_ok_def)
  have ob: "r_ob r = r_fp r + b_locals (fbody ?m (r_func r))" and max: "r_ob r + b_max (fbody ?m (r_func r)) \<le> ?n"
    using fr by (auto simp: frame_in_def)
  have below: "r_ob r + j \<le> ?n" if "height ?m (r_func r) q j" for q j
    using heightD(2) [OF that] max by simp
  note D = heightD(3,4,5,6) [OF h, folded i_def]
  have go: "live s1 (r\<lparr>r_pc := q, r_sp := r_ob r + j\<rparr>)"
    if "like s s1" "i_frames s1 = i_frames s" "height ?m (r_func r) q j" for s1 q j
    using live_same [OF live that] .
  have jumped: "live s1 (r\<lparr>r_sp := x, r_pc := q\<rparr>)"
    if "like s s1" "i_frames s1 = i_frames s" "height ?m (r_func r) q j" "x = r_ob r + j" for s1 q j x
  proof -
    have "r\<lparr>r_sp := x, r_pc := q\<rparr> = r\<lparr>r_pc := q, r_sp := r_ob r + j\<rparr>"
      by (rule machine_regs.equality) (simp_all add: that(4))
    then show ?thesis using go [OF that(1-3)] by simp
  qed
  have next_sp: "live s1 (r\<lparr>r_pc := Suc (r_pc r), r_sp := x\<rparr>)"
    if "like s s1" "i_frames s1 = i_frames s" "leaves (fscope ?m (r_func r)) i = Some b"
      "x = r_ob r + (k - pops (fscope ?m (r_func r)) i + b)" for s1 b x
    using go [OF that(1,2) D(3) [OF that(3)]] that(4) by simp
  have local: "r_fp r + j < r_ob r" if "j < b_locals (fbody ?m (r_func r))" for j
    using ob that by simp
  have room: "r_ob r + (k - pops (fscope ?m (r_func r)) i + b) \<le> ?n" if "leaves (fscope ?m (r_func r)) i = Some b" for b
    by (rule below [OF D(3) [OF that]])
  have globals: "length (i_globals s) = length (c_globals (module_ctx ?m))"
    using ok by (simp add: inst_ok_def module_ctx_def)
  have now: "r_ob r + k \<le> ?n"
    by (rule below [OF h])
  have under: "2 \<le> k \<Longrightarrow> Suc (r_ob r + k - 2) = r_ob r + k - Suc 0" "3 \<le> k \<Longrightarrow> Suc (r_ob r + k - 3) = r_ob r + k - 2"
    "2 \<le> k \<Longrightarrow> r_ob r + k - 2 < ?n" "2 \<le> k \<Longrightarrow> r_ob r + k - Suc 0 < ?n"
    using now by simp_all
  have taken: "Suc 0 \<le> k \<Longrightarrow> r_ob r + k - Suc 0 < ?n" "Suc (Suc 0) \<le> k \<Longrightarrow> r_ob r + k - Suc (Suc 0) < ?n"
    "Suc (Suc 0) \<le> k \<Longrightarrow> Suc 0 \<le> r_ob r + k - Suc 0"
    "Suc (Suc 0) \<le> k \<Longrightarrow> Suc (r_ob r + k - Suc (Suc 0)) = r_ob r + k - Suc 0"
    using now by simp_all
  have "xwp hg (perform dev i ?r) live_on s w"
  proof (cases i)
    case (LocalGet j)
    then show ?thesis
      using D(1) local [of j] room [of 1] now sp next_sp [of _ 1] by (simp add: run_unfold)
  next
    case (LocalSet j)
    then show ?thesis
      using D(1,2) local [of j] now sp next_sp [of _ 0] by (simp add: run_unfold)
  next
    case (LocalTee j)
    then show ?thesis
      using D(1,2) local [of j] now sp next_sp [of _ 1] by (simp add: run_unfold)
  next
    case (GlobalGet j)
    then show ?thesis
      using D(1) globals room [of 1] sp next_sp [of _ 1] by (simp add: run_unfold sget_def)
  next
    case (GlobalSet j)
    then show ?thesis
      using D(1,2) globals now sp next_sp [of _ 0] by (simp add: run_unfold)
  next
    case (Const v)
    then show ?thesis
      using room [of 1] sp next_sp [of _ 1] by (simp add: run_unfold)
  next
    case (Unary f)
    then show ?thesis
      using D(2) now sp next_sp [of _ 1] by (simp add: run_unfold)
  next
    case (Binary f)
    then show ?thesis
      using D(2) now sp next_sp [of _ 1] under by (simp add: run_unfold split: sum.split)
  next
    case Drop
    then show ?thesis
      using D(2) now sp next_sp [of _ 0] by (simp add: run_unfold)
  next
    case Select
    then show ?thesis
      using D(2) now sp next_sp [of _ 1] under by (simp add: run_unfold)
  next
    case MemorySize
    then show ?thesis
      using room [of 1] sp next_sp [of _ 1] by (simp add: run_unfold)
  next
    case MemoryGrow
    have k: "1 \<le> k"
      using D(2) MemoryGrow by simp
    have old: "live (s1\<lparr>i_stack := (i_stack s1)[j := v]\<rparr>) (r\<lparr>r_pc := Suc (r_pc r), r_sp := r_ob r + k\<rparr>)"
      if s1: "like s s1" "i_frames s1 = i_frames s" for s1 j v
    proof (rule next_sp [where b = 1])
      show "like s (s1\<lparr>i_stack := (i_stack s1)[j := v]\<rparr>)"
        by (rule like_trans [OF s1(1)]) simp
    qed (use s1 k MemoryGrow in simp_all)
    have len: "length (i_stack s1) = ?n" if "like s s1" for s1
      using that by (simp add: like_def steady_def)
    have "xwp hg (x_grow n) (\<lambda>v. xwp hg (xseq (set_cell (r_sp r - 1) v) (at_sp ?r (r_sp r))) live_on) s w" for n
    proof (rule xwp_grow [OF mem])
      fix v s1
      assume s1: "like s s1" "i_frames s1 = i_frames s"
      show "xwp hg (xseq (set_cell (r_sp r - 1) v) (at_sp ?r (r_sp r))) live_on s1 w"
        using old [OF s1] len [OF s1(1)] k now sp by (simp add: run_unfold)
    qed
    then show ?thesis
      using k now sp MemoryGrow by (simp add: xwps)
  next
    case MemoryCopy
    then show ?thesis
      using D(2) now sp next_sp [of _ 0] by (simp add: run_unfold) (rule xwp_copy [OF _ mem]; simp)
  next
    case MemoryFill
    then show ?thesis
      using D(2) now sp next_sp [of _ 0] by (simp add: run_unfold) (rule xwp_fill [OF _ mem]; simp)
  next
    case (Load op off)
    then show ?thesis
      using D(1,2) now sp next_sp [of _ 1] by (simp add: run_unfold) (rule xwp_load [OF _ _ _ mem]; simp)
  next
    case (Store op off)
    then show ?thesis
      using D(1,2) now sp next_sp [of _ 0] by (simp add: run_unfold) (rule xwp_store [OF _ _ mem]; simp)
  next
    case (Br q hh keep)
    then have "height ?m (r_func r) q (hh + of_bool keep)"
      using D(4) by simp
    then show ?thesis
      using Br D(2) now sp below [of q "hh + of_bool keep"] jumped [of _ q "hh + of_bool keep"]
      by (cases keep) (simp_all add: run_unfold)
  next
    case (BrIf q hh keep)
    then have "height ?m (r_func r) q (hh + of_bool keep)"
      using D(4) by simp
    then show ?thesis
      using BrIf D(2) now sp below [of q "hh + of_bool keep"] jumped [of _ q "hh + of_bool keep"] next_sp [of _ "of_bool keep"] taken
      by (cases keep) (simp_all add: run_unfold)
  next
    case (BrUnless q)
    then have "height ?m (r_func r) q (k - 1)"
      using D(4) by simp
    then show ?thesis
      using BrUnless D(2) now sp jumped [of _ q "k - 1"] next_sp [of _ 0] taken by (simp add: run_unfold)
  next
    case Unreachable
    then show ?thesis by (simp add: run_unfold)
  next
    case (ICall op)
    have "xwp hg (transfer dev op ?r) (\<lambda>r2. xwp hg (case r2 of None \<Rightarrow> xret None
        | Some r3 \<Rightarrow> xbind (code_of (r_func r3)) (\<lambda>_. xret (Some r3))) live_on) s w"
    proof (rule xwp_mono [OF xwp_transfer [OF live dev]])
      show "b_code (fbody ?m (r_func r)) ! r_pc r = ICall op"
        using ICall i_def by simp
      fix r2 s1 and w1 :: "('i, 'o) io"
      assume on: "live_on r2 s1 w1"
      show "xwp hg (case r2 of None \<Rightarrow> xret None | Some r3 \<Rightarrow> xbind (code_of (r_func r3)) (\<lambda>_. xret (Some r3))) live_on s1 w1"
      proof (cases r2)
        case (Some r3)
        then have "live s1 r3"
          using on by (simp add: live_on_def)
        then show ?thesis
          using Some defined_body(2) [of "i_module s1" "r_func r3"]
          by (auto simp: xwps live_on_def live_def running_def at_point_def frame_in_def inst_ok_def defined_def is_host_def)
      qed (simp add: xwps live_on_def)
    qed
    then show ?thesis
      using ICall by (simp add: xwps)
  qed
  then show "xwp hg (perform dev (b_code (fbody (i_module s) (r_func r)) ! r_pc r) ?r) live_on s w"
    by (simp add: i_def)
qed

subsection \<open>The loop\<close>

lemma xwp_step:
  fixes dev :: "('i, 'o) device"
  assumes "live s r" and "fair hg dev"
  shows "xwp hg (one_step dev r) live_on s w"
proof (rule live_point [OF assms(1)])
  fix k
  assume "inst_ok s" "frame_in (i_module s) (length (i_stack s)) (r_func r) (r_fp r) (r_ob r)"
    "height (i_module s) (r_func r) (r_pc r) k"
  then have "is_host (i_module s) (r_func r) = False" "r_func r - length (m_imports (i_module s)) < length (m_bodies (i_module s))"
    "r_pc r < length (b_code (fbody (i_module s) (r_func r)))"
    using defined_body(2) [of "i_module s" "r_func r"] heightD(1) by (auto simp: frame_in_def defined_def inst_ok_def)
  then show ?thesis
    using xwp_perform [OF assms, of w] by (simp add: one_step_def xwps sget_def is_host_def)
qed

lemma live_spend: "live s r \<Longrightarrow> live (s\<lparr>i_fuel := n\<rparr>) r"
  by (simp add: live_def inst_ok_def mem_ok_def)

lemma loop_ends: "live s r \<Longrightarrow> fair hg dev \<Longrightarrow> xwp hg (execute_loop dev r) (\<lambda>_ _ _. True) s w"
proof (induction dev r s w rule: execute_loop.induct)
  case (1 dev r s w)
  note unfold = execute_loop.simps [of dev r s w]
  show ?case
  proof (cases "i_fuel s = 0")
    case True
    then show ?thesis using unfold by (simp add: spend_def xwp_def)
  next
    case False
    let ?s1 = "s\<lparr>i_fuel := i_fuel s - 1\<rparr>"
    have sp: "spend s w = XOk () ?s1 w"
      using False by (simp add: spend_def)
    have step: "xwp hg (one_step dev r) live_on ?s1 w"
      by (rule xwp_step [OF live_spend [OF 1(2)] 1(3)])
    show ?thesis
    proof (cases "one_step dev r ?s1 w")
      case (XOk o2 s2 w2)
      have "xwp hg (execute_loop dev r2) (\<lambda>_ _ _. True) s2 w2" if "o2 = Some r2" for r2
        by (rule 1(1) [OF sp XOk that]) (use step XOk that 1(3) in \<open>simp_all add: xwp_def live_on_def\<close>)
      then show ?thesis
        using unfold sp XOk by (cases o2) (simp_all add: xwp_def)
    qed (use unfold sp step in \<open>simp_all add: xwp_def\<close>)
  qed
qed

subsection \<open>Where the loop starts\<close>

definition start_regs :: "nat \<Rightarrow> nat \<Rightarrow> nat \<Rightarrow> machine_regs" where
  "start_regs f fp ob = \<lparr>r_func = f, r_pc = 0, r_fp = fp, r_ob = ob, r_sp = ob\<rparr>"

lemma entry_defined:
  assumes m: "module_ok m"
  shows "defined m (m_entry m)"
proof -
  have e: "m_entry m < length (m_funcs m)" "ftype m (m_entry m) = fn_type [] []"
    using m by (simp_all add: module_ok_def)
  have "\<not> is_host m (m_entry m)"
  proof
    assume "is_host m (m_entry m)"
    then have "signature (m_imports m ! m_entry m) = fn_type [] []"
      using host_known [OF m, of "m_entry m"] e by simp
    then show False
      using signature_params [of "m_imports m ! m_entry m"] by (simp add: fn_type_def)
  qed
  then show ?thesis using e by (simp add: defined_def)
qed

lemma entry_enters:
  assumes ok: "inst_ok s" and none: "i_frames s = []"
  shows "xwp hg (enter (m_entry (i_module s)) 0)
    (\<lambda>(fp, ob) s1 w1. like s s1 \<and> live s1 (start_regs (m_entry (i_module s)) fp ob)) s w"
proof -
  let ?m = "i_module s" and ?e = "m_entry (i_module s)"
  have m: "module_ok ?m"
    using ok by (simp add: inst_ok_def)
  have e: "params (ftype ?m ?e) = []"
    using m by (simp add: module_ok_def fn_type_def)
  have def: "defined ?m ?e"
    by (rule entry_defined [OF m])
  have live: "live s1 (start_regs ?e 0 (b_locals (fbody ?m ?e)))"
    if "like s s1" "i_frames s1 = i_frames s" "frame_in ?m (length (i_stack s)) ?e 0 (b_locals (fbody ?m ?e))" for s1
    by (rule liveI [OF that(1) ok that(2)])
      (use that none height_start [OF m def] in \<open>simp_all add: running_def at_point_def start_regs_def\<close>)
  show ?thesis
    by (rule xwp_enter [OF ok def]) (use e live in simp_all)
qed

theorem run_ends:
  assumes ok: "inst_ok s" and none: "i_frames s = []" and dev: "fair hg dev"
  shows "run_instance dev s w \<noteq> Panicked" and "\<not> hg \<Longrightarrow> run_instance dev s w \<noteq> Hung"
proof -
  let ?m = "i_module s" and ?e = "m_entry (i_module s)"
  have m: "module_ok ?m"
    using ok by (simp add: inst_ok_def)
  have def: "defined ?m ?e"
    by (rule entry_defined [OF m])
  have body: "xwp hg (xbind (code_of ?e) (\<lambda>_. execute_loop dev (start_regs ?e fp ob))) (\<lambda>_ _ _. True) s1 w1"
    if "like s s1 \<and> live s1 (start_regs ?e fp ob)" for fp ob s1 w1
  proof -
    have "xwp hg (execute_loop dev (start_regs ?e fp ob)) (\<lambda>_ _ _. True) s1 w1"
      using that dev by (intro loop_ends) blast+
    moreover have "i_module s1 = ?m"
      using that by (simp add: like_def steady_def)
    ultimately show ?thesis
      using def defined_body(2) [OF m def] by (simp add: xwps defined_def is_host_def)
  qed
  have "xwp hg (enter ?e 0) (\<lambda>(fp, ob). xwp hg (xbind (code_of ?e) (\<lambda>_. execute_loop dev (start_regs ?e fp ob))) (\<lambda>_ _ _. True)) s w"
    by (rule xwp_mono [OF entry_enters [OF ok none]]) (use body in auto)
  then have "xwp hg (execute dev) (\<lambda>_ _ _. True) s w"
    using def by (simp add: execute_def start_regs_def [symmetric] xwp_bind xwp_get xwp_if defined_def is_host_def
        prod.case_distrib [of "\<lambda>m. xwp hg m _"])
  then show "run_instance dev s w \<noteq> Panicked" and "\<not> hg \<Longrightarrow> run_instance dev s w \<noteq> Hung"
    by (auto simp: run_instance_def xwp_def split: xres.splits stop.splits)
qed

end
