(* ===== verification/Vm_Run.thy ===== *)
theory Vm_Run
  imports Vm_Step
begin

text \<open>
  The runner: loading, running and reporting one program (\<open>run_program\<close> of
  \<open>crates/almide-wasm-vm/src/lib.rs\<close>), the text of a refusal (\<open>error.rs\<close>), and the command line
  (\<open>parse\<close> of \<open>main.rs\<close>).
\<close>

subsection \<open>Texts\<close>

fun load_error_text :: "load_error \<Rightarrow> bytes" where
  "load_error_text (LoadError (Some a) why) = ''module refused at byte 0x'' @ hex_text a @ '': '' @ why"
| "load_error_text (LoadError None why) = ''module refused: '' @ why"

definition trap_line :: "trap \<Rightarrow> bytes" where
  "trap_line t = ''Error: wasm trap: '' @ trap_text t @ [newline]"

subsection \<open>Running a program\<close>

record report =
  rep_exit :: int
  rep_trap :: "trap option"

datatype ('i, 'o) program_end =
    ProgramPanic
  | ProgramHang
  | Refused load_error
  | Reported report "('i, 'o) io"

definition new_io :: "'i \<Rightarrow> 'o \<Rightarrow> 'o \<Rightarrow> ('i, 'o) io" where
  "new_io i o1 o2 = \<lparr>io_in = i, io_out = o1, io_err = o2, io_tail = new_tail\<rparr>"

text \<open>The trap line is one write; what it returns is ignored.\<close>

definition report_of :: "('i, 'o) device \<Rightarrow> vm_outcome \<Rightarrow> ('i, 'o) io \<Rightarrow> report \<times> ('i, 'o) io" where
  "report_of dev oc w =
     (let w1 = w\<lparr>io_out := dev_flush dev (io_out w)\<rparr>
      in case oc of
           Finished \<Rightarrow> (\<lparr>rep_exit = 0, rep_trap = None\<rparr>, w1)
         | Exited n \<Rightarrow> (\<lparr>rep_exit = n, rep_trap = None\<rparr>, w1)
         | Trapped t \<Rightarrow>
             (let named_die = (t = TUnreachable \<and> last_line_is_error (io_tail w1));
                  w2 = (if named_die then w1 else w1\<lparr>io_err := snd (dev_write dev (io_err w1) (trap_line t))\<rparr>)
              in (\<lparr>rep_exit = 1, rep_trap = Some t\<rparr>, w2\<lparr>io_err := dev_flush dev (io_err w2)\<rparr>)))"

definition run_program ::
    "nan_choice \<Rightarrow> ('i, 'o) device \<Rightarrow> bytes \<Rightarrow> limits_of \<Rightarrow> 'i \<Rightarrow> 'o \<Rightarrow> 'o \<Rightarrow> ('i, 'o) program_end" where
  "run_program pn dev bs lim i o1 o2 =
     (case decode pn bs of
        None \<Rightarrow> ProgramPanic
      | Some (Inl e) \<Rightarrow> Refused e
      | Some (Inr m) \<Rightarrow>
          case new_instance m lim of
            None \<Rightarrow> ProgramPanic
          | Some (Inl e) \<Rightarrow> Refused e
          | Some (Inr s) \<Rightarrow>
              case run_instance dev s (new_io i o1 o2) of
                Panicked \<Rightarrow> ProgramPanic
              | Hung \<Rightarrow> ProgramHang
              | Ended oc _ w \<Rightarrow> (let (rep, w1) = report_of dev oc w in Reported rep w1))"

subsection \<open>The command line\<close>

definition option_number :: "bytes \<Rightarrow> bytes \<Rightarrow> bytes + nat" where
  "option_number name v =
     (case parse_usize v of
        Some n \<Rightarrow> Inr n
      | None \<Rightarrow> Inl (name @ '': `'' @ v @ ''` is not a number''))"

definition narrow :: "bytes \<Rightarrow> nat \<Rightarrow> bytes + nat" where
  "narrow name n = (if n < 2 ^ 32 then Inr n else Inl (name @ '': '' @ dec_string n @ '' is too large''))"

text \<open>The options with a value, and what each sets.\<close>

definition set_option :: "bytes \<Rightarrow> bytes \<Rightarrow> limits_of \<Rightarrow> bytes + limits_of" where
  "set_option name v lim =
     (case option_number name v of
        Inl e \<Rightarrow> Inl e
      | Inr n \<Rightarrow>
          if name = ''--fuel'' then Inr (lim\<lparr>lim_fuel := n\<rparr>)
          else case narrow name n of
            Inl e \<Rightarrow> Inl e
          | Inr k \<Rightarrow>
              if name = ''--memory-pages'' then Inr (lim\<lparr>lim_pages := k\<rparr>)
              else if name = ''--stack-cells'' then Inr (lim\<lparr>lim_cells := k\<rparr>)
              else Inr (lim\<lparr>lim_depth := k\<rparr>))"

definition option_names :: "bytes list" where
  "option_names = [''--fuel'', ''--memory-pages'', ''--stack-cells'', ''--call-depth'']"

fun parse_args :: "bytes list \<Rightarrow> limits_of \<Rightarrow> bytes option \<Rightarrow> bytes + (limits_of \<times> bytes)" where
  "parse_args [] lim path = (case path of Some p \<Rightarrow> Inr (lim, p) | None \<Rightarrow> Inl ''no program given'')"
| "parse_args (a # rest) lim path =
     (if a \<in> set option_names then
        (case rest of
           [] \<Rightarrow> Inl (a @ '' needs a value'')
         | v # rest2 \<Rightarrow> (case set_option a v lim of Inl e \<Rightarrow> Inl e | Inr lim2 \<Rightarrow> parse_args rest2 lim2 path))
      else if take 2 a = ''--'' then Inl (''unknown option `'' @ a @ ''`'')
      else if path = None then parse_args rest lim (Some a)
      else Inl ''more than one program given'')"

definition parse_command :: "bytes list \<Rightarrow> bytes + (limits_of \<times> bytes)" where
  "parse_command as = parse_args as default_limits None"

end
