(* ===== verification/Vm_Machine.thy ===== *)
theory Vm_Machine
  imports Vm_Safe Vm_Run
begin

text \<open>
  The interpreter as a state machine. A state is the registers, the instance and the streams; a step
  spends a unit of fuel and performs one instruction. The loop of \<open>execute\<close>
  (\<open>crates/almide-wasm-vm/src/exec.rs\<close>) runs the machine, and what holds of a state that its first
  one reaches holds all through a run.
\<close>

subsection \<open>Steps\<close>

type_synonym ('i, 'o) vm_state = "machine_regs \<times> inst \<times> ('i, 'o) io"

inductive vm_step :: "('i, 'o) device \<Rightarrow> ('i, 'o) vm_state \<Rightarrow> ('i, 'o) vm_state \<Rightarrow> bool" for dev where
  vm_step: "spend s w = XOk () s1 w1 \<Longrightarrow> one_step dev r s1 w1 = XOk (Some r2) s2 w2 \<Longrightarrow>
    vm_step dev (r, s, w) (r2, s2, w2)"

inductive_cases vm_stepE: "vm_step dev (r, s, w) c"

inductive vm_reach :: "('i, 'o) device \<Rightarrow> ('i, 'o) vm_state \<Rightarrow> nat \<Rightarrow> ('i, 'o) vm_state \<Rightarrow> bool" for dev where
  vm_start: "vm_reach dev c 0 c"
| vm_next: "vm_reach dev c n c1 \<Longrightarrow> vm_step dev c1 c2 \<Longrightarrow> vm_reach dev c (Suc n) c2"

lemma vm_reach_first: "vm_step dev c c1 \<Longrightarrow> vm_reach dev c1 n c2 \<Longrightarrow> vm_reach dev c (Suc n) c2"
  by (rotate_tac, induction rule: vm_reach.induct) (auto intro: vm_reach.intros)

text \<open>The loop's value is the outcome at the last state it reaches.\<close>

definition vm_last :: "('i, 'o) device \<Rightarrow> ('i, 'o) vm_state \<Rightarrow> (unit, 'i, 'o) xres" where
  "vm_last dev c = (case c of (r, s, w) \<Rightarrow>
     (case spend s w of
        XPanic \<Rightarrow> XPanic
      | XHang \<Rightarrow> XHang
      | XStop st s1 w1 \<Rightarrow> XStop st s1 w1
      | XOk _ s1 w1 \<Rightarrow>
          (case one_step dev r s1 w1 of
             XPanic \<Rightarrow> XPanic
           | XHang \<Rightarrow> XHang
           | XStop st s2 w2 \<Rightarrow> XStop st s2 w2
           | XOk _ s2 w2 \<Rightarrow> XOk () s2 w2)))"

lemma spend_cases:
  "spend s w = (if i_fuel s = 0 then XStop (STrap TOutOfFuel) s w else XOk () (s\<lparr>i_fuel := i_fuel s - 1\<rparr>) w)"
  by (simp add: spend_def)

lemma step_fuel: "vm_step dev (r, s, w) (r2, s2, w2) \<Longrightarrow> i_fuel s = Suc (i_fuel s2)"
proof (elim vm_stepE, clarsimp)
  fix s1 w1
  assume sp: "spend s w = XOk () s1 w1" and st: "one_step dev r s1 w1 = XOk (Some r2) s2 w2"
  have "i_fuel s2 = i_fuel s1"
    using step_steady [OF st] by (simp add: steady_def)
  then show "i_fuel s = Suc (i_fuel s2)"
    using sp by (auto simp: spend_cases split: if_splits)
qed

lemma reach_fuel: "vm_reach dev c n c2 \<Longrightarrow> i_fuel (fst (snd c)) = n + i_fuel (fst (snd c2))"
proof (induction rule: vm_reach.induct)
  case (vm_next c n c1 c2)
  then show ?case
    using step_fuel [of dev "fst c1" "fst (snd c1)" "snd (snd c1)" "fst c2" "fst (snd c2)" "snd (snd c2)"] by simp
qed simp

theorem loop_runs_machine:
  "\<exists>n c. vm_reach dev (r, s, w) n c \<and> execute_loop dev r s w = vm_last dev c \<and> \<not> (\<exists>c2. vm_step dev c c2)"
proof (induction dev r s w rule: execute_loop.induct)
  case (1 dev r s w)
  note unfold = execute_loop.simps [of dev r s w]
  show ?case
  proof (cases "\<exists>r2 s2 w2. vm_step dev (r, s, w) (r2, s2, w2)")
    case True
    then obtain s1 w1 r2 s2 w2 where st: "spend s w = XOk () s1 w1" "one_step dev r s1 w1 = XOk (Some r2) s2 w2"
      by (auto elim: vm_stepE)
    then obtain n c where c: "vm_reach dev (r2, s2, w2) n c" "execute_loop dev r2 s2 w2 = vm_last dev c"
        "\<not> (\<exists>c2. vm_step dev c c2)"
      using 1 [OF st refl] by blast
    have "vm_reach dev (r, s, w) (Suc n) c"
      by (rule vm_reach_first [OF vm_step [OF st] c(1)])
    moreover have "execute_loop dev r s w = vm_last dev c"
      using unfold st c(2) by simp
    ultimately show ?thesis using c(3) by blast
  next
    case False
    then have stuck: "\<not> (\<exists>c2. vm_step dev (r, s, w) c2)"
      by (metis prod_cases3)
    have none: "o2 = None" if "spend s w = XOk () s1 w1" "one_step dev r s1 w1 = XOk o2 s2 w2" for s1 w1 o2 s2 w2
      using that False vm_step [of s w s1 w1 dev r _ s2 w2] by (cases o2) auto
    then have "execute_loop dev r s w = vm_last dev (r, s, w)"
      using unfold by (auto simp: vm_last_def split: xres.split option.split dest: none)
    then show ?thesis
      using stuck vm_start by blast
  qed
qed

subsection \<open>Memory past its size\<close>

text \<open>The bytes that \<open>memory.grow\<close> adds are zero, because nothing writes past the current size.\<close>

definition fresh_zero :: "inst \<Rightarrow> bool" where
  "fresh_zero s \<longleftrightarrow> i_pages s * PAGE \<le> length (i_memory s) \<and>
     (\<forall>a. i_pages s * PAGE \<le> a \<longrightarrow> a < length (i_memory s) \<longrightarrow> i_memory s ! a = CHR 0x00)"

definition grows_zero :: "inst \<Rightarrow> inst \<Rightarrow> bool" where
  "grows_zero s s1 \<longleftrightarrow> (mem_ok s \<and> fresh_zero s \<longrightarrow> mem_ok s1 \<and> fresh_zero s1)"

lemma fresh_put:
  assumes "fresh_zero s" and "a + length bs \<le> i_pages s * PAGE"
  shows "fresh_zero (s\<lparr>i_memory := put (i_memory s) a bs\<rparr>)"
  using assms by (auto simp: fresh_zero_def put_after)

text \<open>What a step leaves behind, where it goes on and where it stops.\<close>

definition xpc :: "('a, 'i, 'o) xm \<Rightarrow> ('a \<Rightarrow> inst \<Rightarrow> ('i, 'o) io \<Rightarrow> bool) \<Rightarrow> (inst \<Rightarrow> bool) \<Rightarrow> inst \<Rightarrow> ('i, 'o) io \<Rightarrow> bool" where
  "xpc m Q R s w \<longleftrightarrow> (case m s w of XPanic \<Rightarrow> True | XHang \<Rightarrow> True | XStop st s1 w1 \<Rightarrow> R s1 | XOk x s1 w1 \<Rightarrow> Q x s1 w1)"

named_theorems xpcs

lemma xpc_bind [xpcs]: "xpc (xbind m f) Q R = xpc m (\<lambda>x. xpc (f x) Q R) R"
  by (auto simp: xpc_def xbind_def fun_eq_iff split: xres.splits)

lemma xpc_seq [xpcs]: "xpc (xseq m k) Q R = xpc m (\<lambda>_. xpc k Q R) R"
  by (simp add: xseq_def xpc_bind)

lemma xpc_ret [xpcs]: "xpc (xret x) Q R = Q x"
  by (simp add: xpc_def xret_def fun_eq_iff)

lemma xpc_get [xpcs]: "xpc (xget g) Q R = (\<lambda>s. Q (g s) s)"
  by (simp add: xpc_def xget_def fun_eq_iff)

lemma xpc_trap [xpcs]: "xpc (xtrap t) Q R = (\<lambda>s w. R s)"
  by (simp add: xpc_def xtrap_def fun_eq_iff)

lemma xpc_some [xpcs]: "xpc (xsome v) Q R = (\<lambda>s w. \<forall>x. v = Some x \<longrightarrow> Q x s w)"
  by (auto simp: xsome_def xpc_def xret_def xpanic_def fun_eq_iff split: option.split)

lemma xpc_if [xpcs]: "xpc (if b then m else k) Q R = (if b then xpc m Q R else xpc k Q R)"
  by simp

lemma xpc_minus [xpcs]: "xpc (minus_usize n k) Q R = (\<lambda>s w. k \<le> n \<longrightarrow> Q (n - k) s w)"
  by (auto simp: minus_usize_def xpc_def xret_def xpanic_def fun_eq_iff)

lemma xpc_cell_at [xpcs]: "xpc (cell_at i) Q R = (\<lambda>s w. i < length (i_stack s) \<longrightarrow> Q (i_stack s ! i) s w)"
  by (auto simp: cell_at_def xpcs sget_def fun_eq_iff)

lemma xpc_bytes [xpcs]:
  "xpc (bytes_between i j) Q R = (\<lambda>s w. i \<le> j \<longrightarrow> j \<le> length (i_memory s) \<longrightarrow> Q (subslice (i_memory s) i j) s w)"
  by (auto simp: bytes_between_def xpcs fun_eq_iff) (auto simp: xpc_def xpanic_def)

lemma xpc_set_bytes [xpcs]:
  "xpc (set_bytes i bs) Q R = (\<lambda>s w. i + length bs \<le> length (i_memory s) \<longrightarrow> Q () (s\<lparr>i_memory := put (i_memory s) i bs\<rparr>) w)"
  by (auto simp: xpc_def set_bytes_def fun_eq_iff)

lemma xpc_set_pages [xpcs]: "xpc (set_pages n) Q R = (\<lambda>s. Q () (s\<lparr>i_pages := n\<rparr>))"
  by (simp add: xpc_def set_pages_def fun_eq_iff)

lemma xpc_range [xpcs]:
  "xpc (memory_range addr off n) Q R = (\<lambda>s w.
     if u32_of addr + off + n \<le> i_pages s * PAGE then Q (u32_of addr + off) s w else R s)"
  by (auto simp: memory_range_def xpcs Let_def fun_eq_iff)

lemma keeps_xpc:
  assumes "\<And>s w. xpc m (\<lambda>_ s1 _. R s s1) (R s) s w"
  shows "keeps (on_inst R) m"
proof (rule keepsI)
  show "R s s1" if "m s w = XOk x s1 w1" for s w x s1 w1
    using assms [of s w] that by (simp add: xpc_def)
  show "R s s1" if "m s w = XStop st s1 w1" for s w st s1 w1
    using assms [of s w] that by (simp add: xpc_def)
qed

lemma grows_put:
  "a + length bs \<le> i_pages s * PAGE \<Longrightarrow> a + length bs \<le> length (i_memory s) \<Longrightarrow>
     grows_zero s (s\<lparr>i_memory := put (i_memory s) a bs\<rparr>)"
  by (simp add: grows_zero_def fresh_put) (simp add: mem_ok_def)

lemma grows_refl: "grows_zero s s"
  by (simp add: grows_zero_def)

lemma grows_memory:
  "keeps (on_inst grows_zero) (x_store op off sp)" "keeps (on_inst grows_zero) (x_copy sp)" "keeps (on_inst grows_zero) (x_fill sp)"
  by (rule keeps_xpc, auto simp: x_store_def x_copy_def x_fill_def xpcs subslice_def grows_refl intro!: grows_put)+

lemma grows_grow: "keeps (on_inst grows_zero) (x_grow n)"
proof (rule keeps_xpc)
  fix s and w :: "('a, 'b) io"
  have "grows_zero s (s\<lparr>i_pages := as_u32 (i_pages s + n)\<rparr>)" if cap: "i_pages s + n \<le> i_max_pages s"
  proof (cases "mem_ok s")
    case True
    then have "as_u32 (i_pages s + n) = i_pages s + n"
      using cap by (simp add: as_u32_def mem_ok_def MAX_PAGES_def)
    moreover have "(i_pages s + n) * PAGE \<le> i_max_pages s * PAGE"
      using cap by simp
    ultimately show ?thesis
      using cap by (auto simp: grows_zero_def mem_ok_def fresh_zero_def add_mult_distrib)
  next
    case False
    then show ?thesis by (simp add: grows_zero_def)
  qed
  then show "xpc (x_grow n) (\<lambda>_ s1 _. grows_zero s s1) (grows_zero s) s w"
    by (simp add: x_grow_def xpcs grows_refl)
qed

text \<open>Whatever its arguments, a host call keeps the size of the memory.\<close>

definition same_size :: "bytes \<Rightarrow> ('a, 'i, 'o) hres \<Rightarrow> bool" where
  "same_size mem v \<longleftrightarrow>
     (case v of HPanic \<Rightarrow> True | HHang \<Rightarrow> True | HStop st mem1 w1 \<Rightarrow> length mem1 = length mem
      | HDone x mem1 w1 \<Rightarrow> length mem1 = length mem)"

lemma same_size_map [simp]: "same_size mem (hmap f v) = same_size mem v"
  by (cases v) (simp_all add: same_size_def)

lemma fd_write_size: "same_size mem (fd_write dev args mem w)"
  by (auto simp: same_size_def fd_write_def Let_def split: list.split sum.split prod.split bool.split dest!: word_at_ok)

lemma fd_read_size:
  assumes "fair_reads dev"
  shows "same_size mem (fd_read dev args mem w)"
  using fd_read_put(2) [OF assms]
  by (auto simp: same_size_def fd_read_def Let_def put_count_def split: list.split sum.split option.split prod.split
      dest: word_at_ok)

lemma host_call_size: "fair_reads dev \<Longrightarrow> same_size mem (host_call dev h args mem w)"
  by (cases h) (auto simp: host_call_def fd_write_size fd_read_size, auto simp: same_size_def split: list.split)

lemma grows_serve:
  assumes "fair_reads dev"
  shows "keeps (on_inst grows_zero) (serve dev h args)"
proof (rule keeps_xpc)
  fix s :: inst and w
  let ?n = "i_pages s * PAGE"
  have kept: "grows_zero s (s\<lparr>i_memory := mem @ drop ?n (i_memory s)\<rparr>)"
    if "length mem = length (take ?n (i_memory s))" "?n \<le> length (i_memory s)" for mem
    using that by (auto simp: grows_zero_def fresh_zero_def mem_ok_def nth_append)
  show "xpc (serve dev h args) (\<lambda>_ s1 _. grows_zero s s1) (grows_zero s) s w"
    using kept host_call_size [OF assms, of "take ?n (i_memory s)" h args w]
    by (auto simp: xpc_def serve_def Let_def same_size_def split: hres.splits)
qed

lemma zero_kept: "fair_reads dev \<Longrightarrow> kept_rel (on_inst grows_zero) dev"
  by unfold_locales
    (auto simp: grows_refl grows_memory grows_grow grows_serve, auto simp: grows_zero_def mem_ok_def fresh_zero_def)

subsection \<open>What holds of every state of a run\<close>

definition sound_state :: "inst \<Rightarrow> machine_regs \<Rightarrow> bool" where
  "sound_state s r \<longleftrightarrow> live s r \<and> fresh_zero s"

lemma step_sound:
  assumes "vm_step dev (r, s, w) (r2, s2, w2)" and "sound_state s r" and dev: "fair_reads dev"
  shows "sound_state s2 r2"
proof -
  obtain s1 w1 where st: "spend s w = XOk () s1 w1" "one_step dev r s1 w1 = XOk (Some r2) s2 w2"
    using assms(1) by (auto elim: vm_stepE)
  have s1: "s1 = s\<lparr>i_fuel := i_fuel s - 1\<rparr>"
    using st(1) by (auto simp: spend_cases split: if_splits)
  then have live: "live s1 r" and zero: "mem_ok s1 \<and> fresh_zero s1"
    using assms(2) live_spend by (auto simp: sound_state_def fresh_zero_def live_def inst_ok_def mem_ok_def)
  have "fair True dev"
    using dev by (simp add: fair_def)
  then have "live s2 r2"
    using xwp_step [OF live, of True dev w1] st by (simp add: xwp_def live_on_def)
  moreover have "grows_zero s1 s2"
    by (rule keeps_Ok [OF kept_rel.k_step [OF zero_kept [OF dev]] st(2)])
  ultimately show ?thesis
    using zero by (simp add: sound_state_def grows_zero_def)
qed

lemma reach_sound:
  assumes "vm_reach dev c n c2" and "sound_state (fst (snd c)) (fst c)" and "fair_reads dev"
  shows "sound_state (fst (snd c2)) (fst c2)"
  using assms
proof (induction rule: vm_reach.induct)
  case (vm_next c n c1 c2)
  then show ?case
    using step_sound [of dev "fst c1" "fst (snd c1)" "snd (snd c1)" "fst c2" "fst (snd c2)" "snd (snd c2)"] by simp
qed simp

text \<open>Where the registers of a sound state are.\<close>

lemma sound_bounds:
  assumes "sound_state s r"
  shows "r_func r < length (m_funcs (i_module s)) \<and> length (m_imports (i_module s)) \<le> r_func r \<and>
     r_pc r < length (b_code (fbody (i_module s) (r_func r))) \<and> r_fp r \<le> r_ob r \<and> r_ob r \<le> r_sp r \<and>
     r_sp r \<le> length (i_stack s) \<and> length (i_frames s) \<le> i_depth s \<and> i_pages s \<le> i_max_pages s \<and>
     length (i_memory s) = i_max_pages s * PAGE \<and>
     (\<forall>a. i_pages s * PAGE \<le> a \<longrightarrow> a < length (i_memory s) \<longrightarrow> i_memory s ! a = CHR 0x00)"
proof -
  have live: "live s r" and zero: "fresh_zero s"
    using assms by (simp_all add: sound_state_def)
  obtain k where k: "inst_ok s" "frame_in (i_module s) (length (i_stack s)) (r_func r) (r_fp r) (r_ob r)"
    "height (i_module s) (r_func r) (r_pc r) k" "r_sp r = r_ob r + k" "length (i_frames s) \<le> i_depth s"
    using live_point [OF live] by blast
  then show ?thesis
    using heightD(1,2) [OF k(3)] zero
    by (auto simp: frame_in_def defined_def is_host_def inst_ok_def mem_ok_def fresh_zero_def)
qed

text \<open>Memory as an instance starts with it.\<close>

lemma fill_memory_after:
  "fill_memory gs mem = Some mem2 \<Longrightarrow> \<forall>g \<in> set gs. seg_offset g + length (seg_items g) \<le> n \<Longrightarrow> n \<le> a \<Longrightarrow>
     a < length mem \<Longrightarrow> mem2 ! a = mem ! a"
proof (induction gs arbitrary: mem)
  case (Cons g gs)
  then have fit: "seg_offset g + length (seg_items g) \<le> length mem"
    by (auto split: if_splits)
  then have "mem2 ! a = put mem (seg_offset g) (seg_items g) ! a"
    using Cons by (intro Cons.IH) simp_all
  also have "\<dots> = mem ! a"
    using Cons.prems fit by (intro put_after) auto
  finally show ?case .
qed simp

lemma new_instance_zero:
  assumes m: "module_ok m" and new: "new_instance m lim = Some (Inr s)"
  shows "fresh_zero s"
proof -
  obtain lo hi where mem: "m_memory m = Some (lo, hi)"
    using m by (auto simp: module_ok_def)
  define top where "top = min (case hi of Some h \<Rightarrow> h | None \<Rightarrow> MAX_PAGES) (lim_pages lim)"
  have lo: "lo \<le> top" and fill: "fill_memory (m_data m) (replicate (top * PAGE) (CHR 0x00)) = Some (i_memory s)"
    and pages: "i_pages s = lo"
    using new m mem by (auto simp: new_instance_def collect_shapes top_def [symmetric] split: if_splits option.splits)
  have data: "\<forall>g \<in> set (m_data m). seg_offset g + length (seg_items g) \<le> lo * PAGE"
    using m mem by (simp add: module_ok_def)
  have le: "lo * PAGE \<le> top * PAGE"
    using lo by simp
  then have "\<forall>g \<in> set (m_data m). seg_offset g + length (seg_items g) \<le> length (replicate (top * PAGE) (CHR 0x00))"
    using data by (auto intro: le_trans)
  then have len: "length (i_memory s) = top * PAGE"
    using fill_memory_fits [of "m_data m" "replicate (top * PAGE) (CHR 0x00)"] fill by auto
  show ?thesis
    using fill_memory_after [OF fill data] len le by (auto simp: fresh_zero_def pages)
qed

end
