(* ===== verification/Vm_Streams.thy ===== *)
theory Vm_Streams
  imports Vm_Machine
begin

text \<open>
  The program's streams: what \<open>fd_write\<close> and \<open>fd_read\<close> of \<open>crates/almide-wasm-vm/src/wasi.rs\<close> do to
  them and to memory, the watch on the last line of standard error (\<open>LineTail\<close>), and the runner's
  report (\<open>run_program\<close> of \<open>lib.rs\<close>). A recording device keeps what was written to it.
\<close>

subsection \<open>The last line of a text\<close>

text \<open>\<open>str::lines\<close>: the pieces between newlines, without a last empty one; a line that a newline ends
  loses a carriage return before it.\<close>

definition strip_cr :: "bytes \<Rightarrow> bytes" where
  "strip_cr l = (if l \<noteq> [] \<and> last l = CHR 0x0D then butlast l else l)"

definition str_lines :: "bytes \<Rightarrow> bytes list" where
  "str_lines s =
     (let ps = split_on (\<lambda>c. c = newline) s
      in map strip_cr (butlast ps) @ (if last ps = [] then [] else [last ps]))"

definition starts_error :: "bytes \<Rightarrow> bool" where
  "starts_error l \<longleftrightarrow> take 7 l = ''Error: ''"

definition ends_in_error :: "bytes \<Rightarrow> bool" where
  "ends_in_error s \<longleftrightarrow> str_lines s \<noteq> [] \<and> starts_error (last (str_lines s))"

lemma strip_cr_error: "starts_error (strip_cr l) = starts_error l"
proof (cases "l \<noteq> [] \<and> last l = CHR 0x0D")
  case True
  then obtain k where l: "l = k @ [CHR 0x0D]"
    by (metis append_butlast_last_id)
  have "starts_error k = starts_error l"
  proof (cases "7 \<le> length k")
    case True
    then show ?thesis by (simp add: starts_error_def l)
  next
    case False
    then have "take 7 k \<noteq> ''Error: ''" and "take 7 l \<noteq> ''Error: ''"
      by (auto simp: l dest: arg_cong [where f = length] arg_cong [where f = last])
    then show ?thesis by (simp add: starts_error_def)
  qed
  then show ?thesis
    using l by (simp add: strip_cr_def)
qed (auto simp: strip_cr_def)

lemma split_on_snoc:
  "split_on p (xs @ [x]) =
     (if p x then split_on p xs @ [[]] else butlast (split_on p xs) @ [last (split_on p xs) @ [x]])"
proof (induction xs)
  case (Cons a xs)
  obtain y ys where "split_on p xs = y # ys"
    by (cases "split_on p xs") auto
  then show ?case
    using Cons by (auto simp: butlast_append)
qed simp

text \<open>The state of the watch after a text: the line that is open, and the one before it.\<close>

definition watches :: "bytes \<Rightarrow> line_tail \<Rightarrow> bool" where
  "watches s t \<longleftrightarrow>
     (let ps = split_on (\<lambda>c. c = newline) s
      in length (lt_head t) = 7 \<and> lt_len t = length (last ps) \<and>
         take (length (last ps)) (lt_head t) = take 7 (last ps) \<and>
         lt_done t = (butlast ps \<noteq> [] \<and> starts_error (last (butlast ps))))"

lemma watches_head:
  assumes "watches s t"
  shows "head_is_error t = starts_error (last (split_on (\<lambda>c. c = newline) s))"
proof -
  define l where "l = last (split_on (\<lambda>c. c = newline) s)"
  have t: "length (lt_head t) = 7" "lt_len t = length l" "take (length l) (lt_head t) = take 7 l"
    using assms by (simp_all add: watches_def Let_def l_def)
  have "head_is_error t = starts_error l"
  proof (cases "7 \<le> length l")
    case True
    then have "lt_head t = take 7 l"
      using t(1,3) by simp
    then show ?thesis
      using True t(2) by (simp add: head_is_error_def starts_error_def)
  next
    case False
    then have "take 7 l \<noteq> ''Error: ''"
      by (auto dest: arg_cong [where f = length])
    then show ?thesis
      using False t(1,2) by (simp add: head_is_error_def starts_error_def)
  qed
  then show ?thesis by (simp add: l_def)
qed

lemma watches_feed:
  assumes "watches s t"
  shows "watches (s @ [b]) (feed_byte b t)"
proof -
  define l where "l = last (split_on (\<lambda>c. c = newline) s)"
  have t: "length (lt_head t) = 7" "lt_len t = length l" "take (length l) (lt_head t) = take 7 l"
    using assms by (simp_all add: watches_def Let_def l_def)
  show ?thesis
  proof (cases "b = newline")
    case True
    then show ?thesis
      using t watches_head [OF assms] by (simp add: watches_def feed_byte_def split_on_snoc l_def)
  next
    case False
    have "take (Suc (length l)) ((lt_head t)[length l := b]) = take 7 (l @ [b])" if "length l < 7"
    proof -
      have "take (length l) (lt_head t) = l"
        using t(3) that by simp
      then show ?thesis
        using that t(1) by (simp add: take_Suc_conv_app_nth)
    qed
    moreover have "take (Suc (length l)) (lt_head t) = take 7 (l @ [b])" if "\<not> length l < 7"
      using t(1,3) that by simp
    ultimately show ?thesis
      using False t assms by (simp add: watches_def feed_byte_def split_on_snoc l_def Let_def butlast_append)
  qed
qed

lemma feed_append: "feed (xs @ ys) t = feed ys (feed xs t)"
  by (simp add: feed_def)

lemma watches_all: "watches s (feed s new_tail)"
proof (induction s rule: rev_induct)
  case Nil
  then show ?case by (simp add: watches_def feed_def new_tail_def)
next
  case (snoc b s)
  then show ?case
    using watches_feed by (simp add: feed_append) (simp add: feed_def)
qed

theorem tail_is_last_line: "last_line_is_error (feed s new_tail) = ends_in_error s"
proof -
  let ?ps = "split_on (\<lambda>c. c = newline) s" and ?t = "feed s new_tail"
  have w: "watches s ?t"
    by (rule watches_all)
  show ?thesis
  proof (cases "last ?ps = []")
    case True
    have "last (map strip_cr (butlast ?ps)) = strip_cr (last (butlast ?ps))" if "butlast ?ps \<noteq> []"
      using that by (rule last_map)
    then show ?thesis
      using w True by (auto simp: last_line_is_error_def ends_in_error_def str_lines_def watches_def Let_def strip_cr_error)
  next
    case False
    then show ?thesis
      using w watches_head [OF w]
      by (simp add: last_line_is_error_def ends_in_error_def str_lines_def watches_def Let_def)
  qed
qed


subsection \<open>A device that keeps what it is given\<close>

definition rec_dev :: "('i \<Rightarrow> nat \<Rightarrow> read_event \<times> 'i) \<Rightarrow> ('i, bytes) device" where
  "rec_dev rd = \<lparr>dev_read = rd, dev_write = (\<lambda>o1 bs. (True, o1 @ bs)), dev_flush = (\<lambda>o1. o1)\<rparr>"

lemma rec_dev_simps [simp]:
  "dev_read (rec_dev rd) = rd" "dev_write (rec_dev rd) o1 bs = (True, o1 @ bs)" "dev_flush (rec_dev rd) o1 = o1"
  by (simp_all add: rec_dev_def)

text \<open>The bytes of a list of ranges, in order.\<close>

definition pieces :: "bytes \<Rightarrow> (nat \<times> nat) list \<Rightarrow> bytes" where
  "pieces mem ps = concat (map (\<lambda>(p, e). subslice mem p e) ps)"

definition wrote :: "nat \<Rightarrow> bytes \<Rightarrow> ('i, bytes) io \<Rightarrow> ('i, bytes) io" where
  "wrote fd bs w =
     (if fd = 1 then w\<lparr>io_out := io_out w @ bs\<rparr>
      else w\<lparr>io_err := io_err w @ bs, io_tail := feed bs (io_tail w)\<rparr>)"

lemma wrote_append: "wrote fd (xs @ ys) w = wrote fd ys (wrote fd xs w)"
  by (simp add: wrote_def feed_append)

lemma wrote_nil: "wrote fd [] w = w"
  by (simp add: wrote_def feed_def)

lemma write_all_rec:
  "fd = 1 \<or> fd = 2 \<Longrightarrow> write_all (rec_dev rd) fd mem ps w = (True, wrote fd (pieces mem ps) w)"
proof (induction ps arbitrary: w)
  case Nil
  then show ?case by (simp add: pieces_def wrote_nil)
next
  case (Cons q ps)
  obtain p e where q: "q = (p, e)" by (cases q)
  have "write_all (rec_dev rd) fd mem (q # ps) w =
      write_all (rec_dev rd) fd mem ps (wrote fd (subslice mem p e) w)"
    using Cons.prems by (auto simp: q wrote_def Let_def)
  also have "\<dots> = (True, wrote fd (pieces mem ps) (wrote fd (subslice mem p e) w))"
    using Cons.prems by (rule Cons.IH)
  finally show ?case
    by (simp add: q pieces_def wrote_append)
qed

text \<open>Standard error and the watch on it move together; standard output only grows.\<close>

definition follows :: "('i, bytes) io \<Rightarrow> ('i, bytes) io \<Rightarrow> bool" where
  "follows w w1 \<longleftrightarrow>
     (\<exists>es. io_err w1 = io_err w @ es \<and> io_tail w1 = feed es (io_tail w)) \<and> (\<exists>os. io_out w1 = io_out w @ os)"

lemma follows_refl [simp]: "follows w w"
  by (auto simp: follows_def feed_def)

lemma follows_trans: "follows w w1 \<Longrightarrow> follows w1 w2 \<Longrightarrow> follows w w2"
  by (auto simp: follows_def feed_append)

lemma follows_input [simp]: "follows w (w\<lparr>io_in := i\<rparr>)"
  by (auto simp: follows_def feed_def)

lemma follows_wrote [simp]: "follows w (wrote fd bs w)"
  by (auto simp: follows_def wrote_def feed_def)

abbreviation on_io :: "(('i, 'o) io \<Rightarrow> ('i, 'o) io \<Rightarrow> bool) \<Rightarrow> ('i, 'o) xrel" where
  "on_io R \<equiv> \<lambda>s w s1 w1. R w w1"

interpretation streamed: kept_plain "on_io follows"
  by unfold_locales (auto intro: follows_trans)

lemma streamed_writes: "keeps (on_io follows) (set_bytes a bs)" "keeps (on_io follows) (set_pages n)"
  by (rule keepsI; auto simp: set_bytes_def set_pages_def split: if_splits)+

lemma streamed_memory:
  "keeps (on_io follows) (x_store op offset sp)" "keeps (on_io follows) (x_copy sp)"
  "keeps (on_io follows) (x_fill sp)" "keeps (on_io follows) (x_grow n)"
  unfolding x_store_def x_copy_def x_fill_def x_grow_def
  by (intro streamed.k_plain streamed.k_reads streamed_writes)+

definition io_follows :: "('i, bytes) io \<Rightarrow> ('a, 'i, bytes) hres \<Rightarrow> bool" where
  "io_follows w v \<longleftrightarrow>
     (case v of HPanic \<Rightarrow> True | HHang \<Rightarrow> True | HStop st mem1 w1 \<Rightarrow> follows w w1 | HDone x mem1 w1 \<Rightarrow> follows w w1)"

lemma io_follows_map [simp]: "io_follows w (hmap f v) = io_follows w v"
  by (cases v) (simp_all add: io_follows_def)

lemma fd_write_follows: "io_follows w (fd_write (rec_dev rd) args mem w)"
  by (auto simp: io_follows_def fd_write_def Let_def write_all_rec split: list.split sum.split)

lemma fd_read_follows: "io_follows w (fd_read (rec_dev rd) args mem w)"
  by (auto simp: io_follows_def fd_read_def Let_def split: list.split sum.split option.split)

lemma host_call_follows: "io_follows w (host_call (rec_dev rd) h args mem w)"
  by (cases h) (auto simp: host_call_def fd_write_follows fd_read_follows, auto simp: io_follows_def split: list.split)

lemma streamed_serve: "keeps (on_io follows) (serve (rec_dev rd) h args)"
proof (rule keepsI)
  fix s w x s1 w1
  assume "serve (rec_dev rd) h args s w = XOk x s1 w1"
  then show "follows w w1"
    using host_call_follows [of w rd h args "take (i_pages s * PAGE) (i_memory s)"]
    by (auto simp: serve_def Let_def io_follows_def split: if_splits hres.splits)
next
  fix s w st s1 w1
  assume "serve (rec_dev rd) h args s w = XStop st s1 w1"
  then show "follows w w1"
    using host_call_follows [of w rd h args "take (i_pages s * PAGE) (i_memory s)"]
    by (auto simp: serve_def Let_def io_follows_def split: if_splits hres.splits)
qed

interpretation recorded: kept_rel "on_io follows" "rec_dev rd" for rd
  by unfold_locales (rule streamed_memory streamed_serve)+

subsection \<open>The loop and the run\<close>

text \<open>What every step keeps and spending fuel keeps, a run keeps.\<close>

locale kept_run = kept_rel R dev for R :: "('i, 'o) xrel" and dev :: "('i, 'o) device" +
  assumes spending: "R s w (s\<lparr>i_fuel := n\<rparr>) w"
begin

lemma k_spend: "keeps R (spend :: (unit, 'i, 'o) xm)"
  by (rule keepsI) (auto simp: spend_cases spending stays split: if_splits)

lemma k_vm_step: "vm_step dev (r, s, w) (r2, s2, w2) \<Longrightarrow> R s w s2 w2"
  by (elim vm_stepE, clarsimp) (rule chains [OF keeps_Ok [OF k_spend] keeps_Ok [OF k_step]])

lemma k_reach: "vm_reach dev c n c2 \<Longrightarrow> R (fst (snd c)) (snd (snd c)) (fst (snd c2)) (snd (snd c2))"
proof (induction rule: vm_reach.induct)
  case (vm_next c n c1 c2)
  then show ?case
    using k_vm_step [of "fst c1" "fst (snd c1)" "snd (snd c1)" "fst c2" "fst (snd c2)" "snd (snd c2)"]
    by (auto intro: chains)
qed (rule stays)

lemma k_last:
  "vm_last dev (r, s, w) = XOk x s1 w1 \<Longrightarrow> R s w s1 w1"
  "vm_last dev (r, s, w) = XStop st s1 w1 \<Longrightarrow> R s w s1 w1"
  by (auto simp: vm_last_def split: xres.splits
      intro: chains [OF keeps_Ok [OF k_spend] keeps_Ok [OF k_step]] keeps_Stop [OF k_spend]
        chains [OF keeps_Ok [OF k_spend] keeps_Stop [OF k_step]])

lemma k_loop: "keeps R (execute_loop dev r)"
proof (rule keepsI)
  fix s w x s1 w1
  assume x: "execute_loop dev r s w = XOk x s1 w1"
  obtain n r2 s2 w2 where c: "vm_reach dev (r, s, w) n (r2, s2, w2)" "execute_loop dev r s w = vm_last dev (r2, s2, w2)"
    using loop_runs_machine [of dev r s w] by auto
  show "R s w s1 w1"
    using chains [OF _ k_last(1)] k_reach [OF c(1)] x c(2) by fastforce
next
  fix s w st s1 w1
  assume x: "execute_loop dev r s w = XStop st s1 w1"
  obtain n r2 s2 w2 where c: "vm_reach dev (r, s, w) n (r2, s2, w2)" "execute_loop dev r s w = vm_last dev (r2, s2, w2)"
    using loop_runs_machine [of dev r s w] by auto
  show "R s w s1 w1"
    using chains [OF _ k_last(2)] k_reach [OF c(1)] x c(2) by fastforce
qed

lemma k_execute: "keeps R (execute dev)"
  unfolding execute_def by (intro k_plain k_host k_enter k_code k_loop)

lemma k_run: "run_instance dev s w = Ended oc s1 w1 \<Longrightarrow> R s w s1 w1"
  by (auto simp: run_instance_def split: xres.splits stop.splits
      intro: keeps_Ok [OF k_execute] keeps_Stop [OF k_execute])

end

interpretation recorded_run: kept_run "on_io follows" "rec_dev rd" for rd
  by unfold_locales simp

text \<open>The watch of a run that starts with empty streams has seen what the program wrote.\<close>

lemma run_tail:
  assumes "run_instance (rec_dev rd) s (new_io i [] []) = Ended oc s1 w1"
  shows "io_tail w1 = feed (io_err w1) new_tail"
  using recorded_run.k_run [OF assms] by (auto simp: follows_def new_io_def)

definition exit_of :: "vm_outcome \<Rightarrow> int" where
  "exit_of oc = (case oc of Finished \<Rightarrow> 0 | Exited n \<Rightarrow> n | Trapped t \<Rightarrow> 1)"

definition trap_of :: "vm_outcome \<Rightarrow> trap option" where
  "trap_of oc = (case oc of Trapped t \<Rightarrow> Some t | _ \<Rightarrow> None)"

text \<open>The line that the runner adds to what the program wrote.\<close>

definition trap_note :: "vm_outcome \<Rightarrow> bytes \<Rightarrow> bytes" where
  "trap_note oc err =
     (case oc of
        Trapped t \<Rightarrow> if t = TUnreachable \<and> ends_in_error err then [] else trap_line t
      | _ \<Rightarrow> [])"

lemma report_contract:
  assumes "run_instance (rec_dev rd) s (new_io i [] []) = Ended oc s1 w1"
  shows "report_of (rec_dev rd) oc w1 =
    (\<lparr>rep_exit = exit_of oc, rep_trap = trap_of oc\<rparr>, w1\<lparr>io_err := io_err w1 @ trap_note oc (io_err w1)\<rparr>)"
  using run_tail [OF assms] tail_is_last_line [of "io_err w1"]
  by (cases oc) (auto simp: report_of_def exit_of_def trap_of_def trap_note_def Let_def)

subsection \<open>What a write does\<close>

text \<open>
  By the code it returns: refused before a byte is written (a trap, or \<open>EBADF\<close>, or \<open>EINVAL\<close>), failed
  on the stream with memory as it was, or every piece written in order and their length stored.
\<close>

definition write_effect :: "cell list \<Rightarrow> bytes \<Rightarrow> ('i, bytes) io \<Rightarrow> (nat, 'i, bytes) hres \<Rightarrow> bool" where
  "write_effect args mem w v \<longleftrightarrow>
     (case v of
        HPanic \<Rightarrow> length args < 4
      | HHang \<Rightarrow> False
      | HStop st mem1 w1 \<Rightarrow> mem1 = mem \<and> w1 = w \<and> st \<in> {STrap THostOutOfBounds, STrap THostMisaligned}
      | HDone e mem1 w1 \<Rightarrow>
          (e = EBADF \<and> u32_of (args ! 0) \<notin> {1, 2} \<and> mem1 = mem \<and> w1 = w) \<or>
          (e = EINVAL \<and> mem1 = mem \<and> w1 = w) \<or>
          (e = ESUCCESS \<and>
             (\<exists>ps. iovecs mem (u32_of (args ! 1)) 0 (u32_of (args ! 2)) = Inr ps \<and>
                length ps = u32_of (args ! 2) \<and> (\<forall>(p, e) \<in> set ps. p \<le> e \<and> e \<le> length mem) \<and>
                w1 = wrote (u32_of (args ! 0)) (pieces mem ps) w \<and>
                u32_of (args ! 3) mod 4 = 0 \<and> u32_of (args ! 3) + 4 \<le> length mem \<and>
                mem1 = put mem (u32_of (args ! 3)) (le_bytes 4 (of_nat (length (pieces mem ps)) :: 32 word)) \<and>
                length (pieces mem ps) < 2 ^ 32)))"

lemma word_at_traps: "word_at mem a = Inl t \<Longrightarrow> t \<in> {THostOutOfBounds, THostMisaligned}"
  by (auto simp: word_at_def mrange_def split: if_splits)

lemma iovec_traps: "iovec mem a k = Inl t \<Longrightarrow> t \<in> {THostOutOfBounds, THostMisaligned}"
  by (auto simp: iovec_def Let_def mrange_def dest: word_at_traps split: sum.splits if_splits)

lemma iovecs_traps: "iovecs mem a k n = Inl t \<Longrightarrow> t \<in> {THostOutOfBounds, THostMisaligned}"
  by (induction n arbitrary: k) (auto dest: iovec_traps split: sum.splits)

lemma iovecs_length: "iovecs mem a k n = Inr ps \<Longrightarrow> length ps = n"
  by (induction n arbitrary: k ps) (auto split: sum.splits)

lemma pieces_total: "\<forall>(p, e) \<in> set ps. p \<le> e \<and> e \<le> length mem \<Longrightarrow> length (pieces mem ps) = iovecs_total ps"
  by (induction ps) (auto simp: pieces_def iovecs_total_def subslice_def)

lemma fd_write_effect: "write_effect args mem w (fd_write (rec_dev rd) args mem w)"
proof (cases "\<exists>a0 a1 a2 a3 rest. args = a0 # a1 # a2 # a3 # rest")
  case False
  then have "fd_write (rec_dev rd) args mem w = HPanic"
    by (auto simp: fd_write_def split: list.split)
  moreover have "length args < 4"
  proof (rule ccontr)
    assume "\<not> length args < 4"
    then have "Suc (Suc (Suc (Suc 0))) \<le> length args" by simp
    then show False using False by (auto simp: Suc_le_length_iff)
  qed
  ultimately show ?thesis by (simp add: write_effect_def)
next
  case True
  then obtain a0 a1 a2 a3 rest where args: "args = a0 # a1 # a2 # a3 # rest" by blast
  show ?thesis
  proof (cases "u32_of a0 = 1 \<or> u32_of a0 = 2")
    case False
    then show ?thesis
      by (simp add: args fd_write_def write_effect_def)
  next
    case fd: True
    show ?thesis
    proof (cases "iovecs mem (u32_of a1) 0 (u32_of a2)")
      case (Inl t)
      then show ?thesis
        using fd iovecs_traps [OF Inl] by (auto simp: args fd_write_def write_effect_def)
    next
      case (Inr ps)
      have ok: "\<forall>(p, e) \<in> set ps. p \<le> e \<and> e \<le> length mem"
        using iovecs_ok [OF Inr] by blast
      show ?thesis
      proof (cases "word_at mem (u32_of a3)")
        case bad: (Inl t)
        then show ?thesis
          using fd Inr word_at_traps [OF bad] by (auto simp: args fd_write_def write_effect_def)
      next
        case good: (Inr a)
        then have at: "a = u32_of a3" "u32_of a3 mod 4 = 0" "u32_of a3 + 4 \<le> length mem"
          using word_at_ok [OF good] by (auto simp: word_at_def split: if_splits)
        show ?thesis
        proof (cases "2 ^ 32 \<le> iovecs_total ps")
          case True
          then show ?thesis
            using fd Inr good by (auto simp: args fd_write_def write_effect_def)
        next
          case False
          have "fd_write (rec_dev rd) args mem w =
              HDone ESUCCESS (put mem a (le_bytes 4 (of_nat (iovecs_total ps) :: 32 word))) (wrote (u32_of a0) (pieces mem ps) w)"
            using fd Inr good False by (auto simp: args fd_write_def write_all_rec)
          moreover have "\<exists>ps. iovecs mem (u32_of a1) 0 (u32_of a2) = Inr ps \<and> length ps = u32_of a2 \<and>
                (\<forall>(p, e) \<in> set ps. p \<le> e \<and> e \<le> length mem) \<and>
                wrote (u32_of a0) (pieces mem ps') w = wrote (u32_of a0) (pieces mem ps) w \<and>
                put mem a (le_bytes 4 (of_nat (iovecs_total ps') :: 32 word)) =
                  put mem (u32_of a3) (le_bytes 4 (of_nat (length (pieces mem ps)) :: 32 word)) \<and>
                length (pieces mem ps) < 2 ^ 32" if "ps' = ps" for ps'
            using Inr ok False at(1) iovecs_length [OF Inr] pieces_total [OF ok] that by (intro exI [of _ ps]) simp
          ultimately show ?thesis
            using at by (simp add: args write_effect_def)
        qed
      qed
    qed
  qed
qed

text \<open>On any device, memory changes only when the call succeeds.\<close>

fun error_keeps :: "bytes \<Rightarrow> (nat, 'i, 'o) hres \<Rightarrow> bool" where
  "error_keeps mem (HDone e mem1 w1) = (e = ESUCCESS \<or> mem1 = mem)"
| "error_keeps mem (HStop st mem1 w1) = (mem1 = mem)"
| "error_keeps mem HPanic = True"
| "error_keeps mem HHang = True"

lemma fd_write_error_memory: "error_keeps mem (fd_write dev args mem w)"
  by (auto simp: fd_write_def Let_def split: list.split sum.split prod.split bool.split)

lemma fd_read_error_memory: "error_keeps mem (fd_read dev args mem w)"
  by (auto simp: fd_read_def Let_def split: list.split sum.split prod.split option.split)

end
