(* ===== verification/Vm_Fuel.thy ===== *)
theory Vm_Fuel
  imports Vm_Streams
begin

text \<open>
  Fuel only cuts a run short: no instruction of \<open>crates/almide-wasm-vm/src/exec.rs\<close> reads the fuel,
  so a run that ends for another reason ends in the same way with more of it.
\<close>

subsection \<open>Computations that do not see the fuel\<close>

fun fuel_set :: "nat \<Rightarrow> ('a, 'i, 'o) xres \<Rightarrow> ('a, 'i, 'o) xres" where
  "fuel_set n XPanic = XPanic"
| "fuel_set n XHang = XHang"
| "fuel_set n (XStop st s w) = XStop st (s\<lparr>i_fuel := n\<rparr>) w"
| "fuel_set n (XOk x s w) = XOk x (s\<lparr>i_fuel := n\<rparr>) w"

definition blind :: "('a, 'i, 'o) xm \<Rightarrow> bool" where
  "blind m \<longleftrightarrow> (\<forall>s w n. m (s\<lparr>i_fuel := n\<rparr>) w = fuel_set n (m s w))"

lemma blindD: "blind m \<Longrightarrow> m (s\<lparr>i_fuel := n\<rparr>) w = fuel_set n (m s w)"
  by (simp add: blind_def)

lemma b_bind:
  assumes "blind m" and "\<And>x. blind (f x)"
  shows "blind (xbind m f)"
  unfolding blind_def
proof (intro allI)
  fix s w n
  show "xbind m f (s\<lparr>i_fuel := n\<rparr>) w = fuel_set n (xbind m f s w)"
    using blindD [OF assms(1), of n s w] blindD [OF assms(2)] by (cases "m s w") (simp_all add: xbind_def)
qed

lemma b_seq: "blind m \<Longrightarrow> blind k \<Longrightarrow> blind (xseq m k)"
  by (simp add: xseq_def b_bind)

lemma b_option: "blind m \<Longrightarrow> (\<And>x. blind (f x)) \<Longrightarrow> blind (case v of None \<Rightarrow> m | Some x \<Rightarrow> f x)"
  by (cases v) simp_all

lemma b_sum: "(\<And>x. blind (g x)) \<Longrightarrow> (\<And>x. blind (f x)) \<Longrightarrow> blind (case v of Inl x \<Rightarrow> g x | Inr x \<Rightarrow> f x)"
  by (cases v) simp_all

lemma b_list: "blind m \<Longrightarrow> (\<And>x xs. blind (f x xs)) \<Longrightarrow> blind (case v of [] \<Rightarrow> m | x # xs \<Rightarrow> f x xs)"
  by (cases v) simp_all

lemma b_prod: "(\<And>x y. blind (f x y)) \<Longrightarrow> blind (case v of (x, y) \<Rightarrow> f x y)"
  by (cases v) simp

lemma b_let: "(\<And>x. blind (f x)) \<Longrightarrow> blind (let x = v in f x)"
  by simp

lemma b_if: "blind m \<Longrightarrow> blind k \<Longrightarrow> blind (if b then m else k)"
  by simp

lemma b_ret: "blind (xret x)"
  by (simp add: blind_def xret_def)

lemma b_get: "(\<And>s n. g (s\<lparr>i_fuel := n\<rparr>) = g s) \<Longrightarrow> blind (xget g)"
  by (simp add: blind_def xget_def)

lemma b_trap: "blind (xtrap t)"
  by (simp add: blind_def xtrap_def)

lemma b_panic: "blind xpanic"
  by (simp add: blind_def xpanic_def)

lemma b_some: "blind (xsome v)"
  unfolding xsome_def by (intro b_option b_panic b_ret)

lemma b_of_sum: "blind (xsum v)"
  unfolding xsum_def by (intro b_sum b_trap b_ret)

lemma b_minus: "blind (minus_usize n k)"
  unfolding minus_usize_def by (intro b_if b_panic b_ret)

lemma b_writes:
  "blind (set_cell i v)" "blind (clear_cells i j)" "blind (move_cells i j d)" "blind (set_frames fs)"
  "blind (set_global i v)" "blind (set_bytes a bs)" "blind (set_pages n)"
  unfolding blind_def
  by (auto simp: set_cell_def clear_cells_def move_cells_def set_frames_def set_global_def set_bytes_def set_pages_def)

lemmas b_plain = b_bind b_seq b_option b_sum b_list b_prod b_let b_if b_ret b_trap b_panic b_some b_of_sum
  b_minus b_writes

lemma b_reads:
  "blind (cell_at i)" "blind (cells_between i j)" "blind (bytes_between i j)" "blind (shape_at f)"
  "blind nimports" "blind (memory_range a b c)" "blind (code_of f)"
  unfolding cell_at_def cells_between_def bytes_between_def shape_at_def nimports_def memory_range_def code_of_def
  by (intro b_plain b_get; simp)+

lemma b_serve: "blind (serve dev h args)"
  unfolding blind_def by (auto simp: serve_def Let_def split: hres.split)

lemma b_calls:
  "blind (enter f sp)" "blind (resolve v ty)" "blind (x_host dev f sp)" "blind (resume_caller r)" "blind (leave f sp fp)"
  unfolding enter_def resolve_def x_host_def resume_caller_def leave_def
  by (intro b_plain b_reads b_serve b_get; simp)+

lemma b_transfers:
  "blind (x_call dev f r)" "blind (x_tail_call dev f r)" "blind (pop_callee ty r)"
  unfolding x_call_def x_tail_call_def pop_callee_def
  by (intro b_plain b_reads b_calls b_get; simp)+

lemma b_transfer: "blind (transfer dev c r)"
  by (cases c; simp only: transfer.simps) (intro b_plain b_calls b_transfers)+

lemma b_memory:
  "blind (x_load op offset sp)" "blind (x_store op offset sp)" "blind (x_copy sp)" "blind (x_fill sp)" "blind (x_grow n)"
  unfolding x_load_def x_store_def x_copy_def x_fill_def x_grow_def
  by (intro b_plain b_reads b_get; simp)+

lemma b_moves: "blind (push_cell r v)" "blind (at_sp r n)" "blind (jump r sp a b c)"
  unfolding push_cell_def at_sp_def jump_def cut_def by (intro b_plain b_reads)+

lemma b_perform: "blind (perform dev i r)"
  by (cases i; simp only: perform.simps; intro b_plain b_reads b_moves b_transfer b_memory b_get; simp)

lemma b_step: "blind (one_step dev r)"
  unfolding one_step_def by (intro b_plain b_reads b_perform)

subsection \<open>More fuel\<close>

fun fuel_more :: "nat \<Rightarrow> ('a, 'i, 'o) xres \<Rightarrow> ('a, 'i, 'o) xres" where
  "fuel_more k XPanic = XPanic"
| "fuel_more k XHang = XHang"
| "fuel_more k (XStop st s w) = XStop st (s\<lparr>i_fuel := i_fuel s + k\<rparr>) w"
| "fuel_more k (XOk x s w) = XOk x (s\<lparr>i_fuel := i_fuel s + k\<rparr>) w"

fun out_of_fuel :: "('a, 'i, 'o) xres \<Rightarrow> bool" where
  "out_of_fuel (XStop (STrap TOutOfFuel) s w) = True"
| "out_of_fuel v = False"

definition more :: "('a, 'i, 'o) xm \<Rightarrow> bool" where
  "more m \<longleftrightarrow> (\<forall>s w k. \<not> out_of_fuel (m s w) \<longrightarrow> m (s\<lparr>i_fuel := i_fuel s + k\<rparr>) w = fuel_more k (m s w))"

lemma moreD: "more m \<Longrightarrow> \<not> out_of_fuel (m s w) \<Longrightarrow> m (s\<lparr>i_fuel := i_fuel s + k\<rparr>) w = fuel_more k (m s w)"
  by (simp add: more_def)

lemma blind_more:
  assumes "blind m" and "keeps (on_inst steady) m"
  shows "m (s\<lparr>i_fuel := i_fuel s + k\<rparr>) w = fuel_more k (m s w)"
proof -
  have "i_fuel s1 = i_fuel s" if "m s w = XOk x s1 w1 \<or> m s w = XStop st s1 w1" for x st s1 w1
    using that keeps_Ok [OF assms(2)] keeps_Stop [OF assms(2)] by (fastforce simp: steady_def)
  then show ?thesis
    using blindD [OF assms(1), of "i_fuel s + k" s w] by (cases "m s w") auto
qed

lemma more_blind: "blind m \<Longrightarrow> keeps (on_inst steady) m \<Longrightarrow> more m"
  by (simp add: more_def blind_more)

lemma more_bind:
  assumes "more m" and "\<And>x. more (f x)"
  shows "more (xbind m f)"
  unfolding more_def
proof (intro allI impI)
  fix s w k
  assume ends: "\<not> out_of_fuel (xbind m f s w)"
  then have "\<not> out_of_fuel (m s w)"
    by (auto simp: xbind_def elim!: out_of_fuel.elims(2))
  with ends show "xbind m f (s\<lparr>i_fuel := i_fuel s + k\<rparr>) w = fuel_more k (xbind m f s w)"
    using moreD [OF assms(1), of s w k] moreD [OF assms(2)] by (cases "m s w") (auto simp: xbind_def)
qed

lemma step_more: "one_step dev r (s\<lparr>i_fuel := i_fuel s + k\<rparr>) w = fuel_more k (one_step dev r s w)"
  by (rule blind_more [OF b_step unchanged.k_step])

lemma loop_more:
  "\<not> out_of_fuel (execute_loop dev r s w) \<Longrightarrow>
     execute_loop dev r (s\<lparr>i_fuel := i_fuel s + k\<rparr>) w = fuel_more k (execute_loop dev r s w)"
proof (induction dev r s w rule: execute_loop.induct)
  case (1 dev r s w)
  note unfold = execute_loop.simps [of dev r s w] execute_loop.simps [of dev r "s\<lparr>i_fuel := i_fuel s + k\<rparr>" w]
  have some: "i_fuel s \<noteq> 0"
  proof
    assume "i_fuel s = 0"
    then show False
      using 1(2) by (simp add: unfold(1) spend_cases)
  qed
  define s0 where "s0 = s\<lparr>i_fuel := i_fuel s - 1\<rparr>"
  have sp: "spend s w = XOk () s0 w"
    using some by (simp add: spend_cases s0_def)
  have sp2: "spend (s\<lparr>i_fuel := i_fuel s + k\<rparr>) w = XOk () (s0\<lparr>i_fuel := i_fuel s0 + k\<rparr>) w"
    using some by (simp add: spend_cases s0_def)
  show ?case
  proof (cases "\<exists>r2 s2 w2. one_step dev r s0 w = XOk (Some r2) s2 w2")
    case True
    then obtain r2 s2 w2 where st: "one_step dev r s0 w = XOk (Some r2) s2 w2" by blast
    have run: "execute_loop dev r s w = execute_loop dev r2 s2 w2"
      using unfold(1) sp st by simp
    have "execute_loop dev r2 (s2\<lparr>i_fuel := i_fuel s2 + k\<rparr>) w2 = fuel_more k (execute_loop dev r2 s2 w2)"
      using 1(2) run by (intro 1(1) [OF sp st refl]) simp
    then show ?thesis
      using unfold(2) sp2 st run by (simp add: step_more)
  next
    case False
    then show ?thesis
      using sp sp2 by (cases "one_step dev r s0 w") (auto simp: unfold step_more split: option.split)
  qed
qed

lemma more_parts:
  "more (xget i_module)" "more (x_host dev f sp)" "more (enter f sp)" "more (code_of f)" "more (xret x)"
  by (rule more_blind; intro b_reads b_calls b_ret b_get steadily.k_ret steadily.k_get unchanged.k_host
      steadily.k_code steadily.k_enter; simp)+

lemma execute_more: "more (execute dev)"
proof -
  have loop: "more (execute_loop dev r)" for r
    by (simp add: more_def loop_more)
  have "more (case v of (a, b) \<Rightarrow> xbind (code_of f) (\<lambda>_. execute_loop dev (g a b)))" for v :: "nat \<times> nat" and f g
    by (cases v) (simp add: more_bind more_parts loop)
  then show ?thesis
    unfolding execute_def by (intro more_bind more_parts) (simp add: more_bind more_parts)
qed

text \<open>The same for a run from the bytes of a module on.\<close>

lemma run_more:
  assumes "run_instance dev s w = v" and "\<And>s1 w1. v \<noteq> Ended (Trapped TOutOfFuel) s1 w1"
  shows "run_instance dev (s\<lparr>i_fuel := i_fuel s + k\<rparr>) w =
    (case v of Ended oc s1 w1 \<Rightarrow> Ended oc (s1\<lparr>i_fuel := i_fuel s1 + k\<rparr>) w1 | _ \<Rightarrow> v)"
proof -
  have "\<not> out_of_fuel (execute dev s w)"
    using assms(2) unfolding assms(1) [symmetric] run_instance_def
    by (auto elim!: out_of_fuel.elims(2)) blast
  then have "execute dev (s\<lparr>i_fuel := i_fuel s + k\<rparr>) w = fuel_more k (execute dev s w)"
    by (rule moreD [OF execute_more])
  then show ?thesis
    using assms(1) by (auto simp: run_instance_def split: xres.split stop.split)
qed

lemma new_instance_fuel:
  "new_instance m (lim\<lparr>lim_fuel := n\<rparr>) =
     (case new_instance m lim of Some (Inr s) \<Rightarrow> Some (Inr (s\<lparr>i_fuel := n\<rparr>)) | v \<Rightarrow> v)"
  by (auto simp: new_instance_def Let_def split: option.split sum.split prod.split if_split)

lemma program_more:
  assumes "run_program pn dev bs lim i o1 o2 = v" and "\<And>rep w. v = Reported rep w \<Longrightarrow> rep_trap rep \<noteq> Some TOutOfFuel"
  shows "run_program pn dev bs (lim\<lparr>lim_fuel := lim_fuel lim + k\<rparr>) i o1 o2 = v"
proof -
  consider "decode pn bs = None" | e where "decode pn bs = Some (Inl e)" | m where "decode pn bs = Some (Inr m)"
    by (metis option.exhaust sum.exhaust)
  then show ?thesis
  proof cases
    case (3 m)
    show ?thesis
    proof (cases "\<exists>s. new_instance m lim = Some (Inr s)")
      case False
      then show ?thesis
        using assms 3 by (auto simp: run_program_def new_instance_fuel split: option.splits sum.splits)
    next
      case True
      then obtain s where new: "new_instance m lim = Some (Inr s)" by blast
      have fuel: "i_fuel s = lim_fuel lim"
        using new by (auto simp: new_instance_def Let_def split: option.splits prod.splits if_splits)
      have "run_instance dev s (new_io i o1 o2) \<noteq> Ended (Trapped TOutOfFuel) s1 w1" for s1 w1
        using assms 3 new by (auto simp: run_program_def report_of_def Let_def)
      from run_more [OF refl this, of k] show ?thesis
        using assms(1) 3 new fuel
        by (auto simp: run_program_def new_instance_fuel split: run_finish.splits)
    qed
  qed (use assms in \<open>auto simp: run_program_def\<close>)
qed

end
