(* ===== verification/Vm_Leb.thy ===== *)
theory Vm_Leb
  imports Vm_Reader
begin

text \<open>
  What the integer readers of \<open>crates/almide-wasm-vm/src/reader.rs\<close> accept: exactly the LEB128
  encodings of the binary format, at most \<open>ceil (n / 7)\<close> bytes long, of numbers of \<open>n\<close> bits.
\<close>

unbundle bit_operations_syntax

subsection \<open>Encodings\<close>

abbreviation octet :: "byte \<Rightarrow> nat" where
  "octet b \<equiv> of_char b"

fun leb_shape :: "bytes \<Rightarrow> bool" where
  "leb_shape [] = False"
| "leb_shape [b] = (octet b < 128)"
| "leb_shape (b # bs) = (128 \<le> octet b \<and> leb_shape bs)"

fun leb_value :: "bytes \<Rightarrow> nat" where
  "leb_value [] = 0"
| "leb_value (b # bs) = octet b mod 128 + 128 * leb_value bs"

lemma leb_shape_Cons: "leb_shape (b # bs) = (if octet b < 128 then bs = [] else leb_shape bs)"
  by (cases bs) auto

text \<open>An encoding at the cursor, and the cursor behind it.\<close>

definition leb_at :: "rdr \<Rightarrow> bytes \<Rightarrow> rdr \<Rightarrow> bool" where
  "leb_at r bs r2 \<longleftrightarrow> leb_shape bs \<and> take (length bs) (drop (r_pos r) (r_bytes r)) = bs \<and> r2 = r\<lparr>r_pos := r_pos r + length bs\<rparr>"

lemma leb_at_step:
  "leb_at r bs r2 \<longleftrightarrow>
     (case rbyte r of
        Inl e \<Rightarrow> False
      | Inr (b, r1) \<Rightarrow>
          if octet b < 128 then bs = [b] \<and> r2 = r1 else (\<exists>cs. bs = b # cs \<and> leb_at r1 cs r2))"
proof (cases "r_pos r < length (r_bytes r)")
  case False
  then show ?thesis
    by (cases bs) (simp_all add: leb_at_def rbyte_def sget_def rfail_def)
next
  case True
  then have d: "drop (r_pos r) (r_bytes r) = r_bytes r ! r_pos r # drop (r_pos r + 1) (r_bytes r)"
    by (simp add: Cons_nth_drop_Suc)
  show ?thesis
    using True by (cases bs) (auto simp: leb_at_def rbyte_def sget_def d leb_shape_Cons)
qed

subsection \<open>Words\<close>

lemma octet_less: "octet b < 256"
  using of_char_mod_256 [of b, where 'a = nat] by (metis mod_less_divisor zero_less_numeral)

lemma unat_octet: "unat (of_char b :: cell) = octet b"
proof -
  have "unat (of_char b :: cell) = unat (of_nat (octet b) :: cell)"
    by (simp add: of_nat_of_char)
  then show ?thesis
    using octet_less [of b] by (simp add: unat_of_nat)
qed

lemma payload_octet: "unat (of_char b AND 0x7f :: cell) = octet b mod 128"
proof -
  have "(of_char b AND 0x7f :: cell) = take_bit 7 (of_char b)"
    by (simp add: take_bit_eq_mask mask_eq_exp_minus_1)
  then have "unat (of_char b AND 0x7f :: cell) = take_bit 7 (octet b)"
    by (simp add: unsigned_take_bit_eq unat_octet)
  then show ?thesis
    by (simp add: take_bit_eq_mod)
qed

lemma octet_bit: "n < 8 \<Longrightarrow> bit (of_char b :: cell) n = odd (octet b div 2 ^ n)"
proof -
  assume "n < 8"
  have "bit (of_char b :: cell) n = bit (of_nat (octet b) :: cell) n"
    by (simp add: of_nat_of_char)
  also have "\<dots> = bit (octet b) n"
    using \<open>n < 8\<close> by (simp only: bit_of_nat_iff) simp
  finally have "bit (of_char b :: cell) n = bit (octet b) n" .
  then show ?thesis by (simp add: bit_iff_odd)
qed

lemma more_octet: "(of_char b AND 0x80 :: cell) = 0 \<longleftrightarrow> octet b < 128"
proof -
  have "(of_char b AND 0x80 :: cell) = 0 \<longleftrightarrow> \<not> bit (of_char b :: cell) 7"
    using and_exp_eq_0_iff_not_bit [of "of_char b :: cell" 7] by simp
  also have "\<dots> \<longleftrightarrow> even (octet b div 128)"
    by (simp add: octet_bit)
  also have "\<dots> \<longleftrightarrow> octet b < 128"
  proof (cases "octet b < 128")
    case False
    then have "octet b div 128 = 1"
      using octet_less [of b] by (intro div_nat_eqI) simp_all
    then show ?thesis using False by simp
  qed simp
  finally show ?thesis .
qed

lemma or_disjoint:
  fixes a p :: cell
  assumes "unat a < 2 ^ n" and "unat a + 2 ^ n * unat p < 2 ^ 64"
  shows "unat (a OR push_bit n p) = unat a + 2 ^ n * unat p"
proof -
  have "take_bit n (unat a) = unat a"
    using assms(1) by (simp add: take_bit_nat_eq_self)
  then have "take_bit n a = a"
    by (metis unsigned_take_bit_eq word_unat_eq_iff)
  then have "k < n" if "bit a k" for k
    using that by (metis bit_take_bit_iff)
  then have "a AND push_bit n p = 0"
    by (intro bit_word_eqI) (fastforce simp: bit_simps)
  then have "a OR push_bit n p = a + push_bit n p"
    by (simp add: disjunctive_add_eq_or)
  moreover have "unat (push_bit n p) = take_bit 64 (unat p * 2 ^ n)"
    by (simp only: unsigned_push_bit_eq push_bit_eq_mult [of n "unat p"]) simp
  then have "unat (push_bit n p) = 2 ^ n * unat p"
    using assms(2) by (simp add: take_bit_nat_eq_self mult.commute)
  ultimately show ?thesis
    using assms(2) by (simp add: unat_plus_if')
qed

subsection \<open>Unsigned integers\<close>

definition leb_total :: "nat \<Rightarrow> nat \<Rightarrow> cell \<Rightarrow> bytes \<Rightarrow> nat" where
  "leb_total nbits i acc bs = unat acc + 2 ^ (7 * i) * leb_value bs"

lemma total_last:
  assumes acc: "unat acc < 2 ^ (7 * i)" and i: "7 * i < nbits" "nbits \<le> 7 * i + 7"
  shows "leb_total nbits i acc [b] < 2 ^ nbits \<longleftrightarrow> octet b mod 128 < 2 ^ (nbits - 7 * i)"
proof -
  let ?p = "octet b mod 128" and ?d = "nbits - 7 * i"
  have split: "(2 :: nat) ^ nbits = 2 ^ (7 * i) * 2 ^ ?d"
    using i(1) by (simp add: power_add [symmetric])
  show ?thesis
  proof
    assume "?p < 2 ^ ?d"
    then have "2 ^ (7 * i) * (?p + 1) \<le> 2 ^ (7 * i) * 2 ^ ?d"
      by (intro mult_le_mono2) simp
    then show "leb_total nbits i acc [b] < 2 ^ nbits"
      using acc by (simp add: leb_total_def split)
  next
    assume "leb_total nbits i acc [b] < 2 ^ nbits"
    then have "unat acc + 2 ^ (7 * i) * ?p < 2 ^ (7 * i) * 2 ^ ?d"
      by (simp add: leb_total_def split)
    then have "2 ^ (7 * i) * ?p < 2 ^ (7 * i) * 2 ^ ?d"
      by (rule le_less_trans [OF le_add2])
    then show "?p < 2 ^ ?d" by simp
  qed
qed

lemma total_inner:
  assumes "unat acc < 2 ^ (7 * i)"
  shows "leb_total nbits i acc [b] < 2 ^ (7 * i + 7)"
proof -
  let ?p = "octet b mod 128"
  have "leb_total nbits i acc [b] < 2 ^ (7 * i) * (?p + 1)"
    using assms by (simp add: leb_total_def)
  also have "\<dots> \<le> 2 ^ (7 * i) * 128"
    by (intro mult_le_mono2) (simp add: Suc_leI)
  finally show ?thesis
    by (simp add: power_add)
qed

lemma drop_zero: "drop_bit n (p :: cell) = 0 \<longleftrightarrow> unat p < 2 ^ n"
proof -
  have "drop_bit n p = 0 \<longleftrightarrow> unat (drop_bit n p) = 0"
    by (simp add: unat_eq_0)
  also have "\<dots> \<longleftrightarrow> unat p div 2 ^ n = 0"
    by (simp only: unat_drop_bit_eq drop_bit_eq_div [of n "unat p"])
  finally show ?thesis
    by (simp add: div_eq_0_iff)
qed

lemma uleb_exact:
  assumes "i + k = div_ceil nbits 7" and "0 < nbits" and "nbits \<le> 64" and "unat acc < 2 ^ (7 * i)"
  shows "uleb_loop nbits i k acc r = Inr (v, r2) \<longleftrightarrow>
    (\<exists>bs. leb_at r bs r2 \<and> length bs \<le> k \<and> unat v = leb_total nbits i acc bs \<and> unat v < 2 ^ nbits)"
  using assms
proof (induction k arbitrary: i acc r)
  case 0
  then show ?case
    by (auto simp: rfail_def leb_at_def)
next
  case (Suc k)
  note uleb_loop.simps(2) [simp del]
  show ?case
  proof (cases "rbyte r")
    case (Inl e)
    then show ?thesis
      by (simp add: uleb_loop.simps(2) rbind_def leb_at_step [of r])
  next
    case (Inr q)
    obtain b r1 where b: "rbyte r = Inr (b, r1)"
      using Inr by (cases q) simp
    define p where "p = (of_char b AND 0x7f :: cell)"
    let ?used = "nbits - 7 * i"
    let ?over = "k = 0 \<and> ?used < 7 \<and> drop_bit ?used p \<noteq> 0"
    let ?acc2 = "acc OR push_bit (7 * i) p"
    have i: "7 * i < nbits" "k = 0 \<Longrightarrow> nbits \<le> 7 * i + 7" "k \<noteq> 0 \<Longrightarrow> 7 * i + 7 < nbits"
      using Suc.prems(1) by (auto simp: div_ceil_def)
    have p: "unat p = octet b mod 128"
      unfolding p_def by (rule payload_octet)
    have over: "?over \<longleftrightarrow> k = 0 \<and> \<not> octet b mod 128 < 2 ^ ?used"
    proof (cases "k = 0 \<and> \<not> ?used < 7")
      case True
      then have "?used = 7"
        using i(1,2) by linarith
      then show ?thesis by simp
    next
      case False
      then show ?thesis by (simp only: drop_zero p) blast
    qed
    have fits: "\<not> ?over \<longleftrightarrow> leb_total nbits i acc [b] < 2 ^ nbits"
    proof (cases "k = 0")
      case True
      then show ?thesis
        using over total_last [OF Suc.prems(4) i(1) i(2)] by simp
    next
      case False
      have "leb_total nbits i acc [b] < 2 ^ (7 * i + 7)"
        using Suc.prems(4) by (rule total_inner)
      also have "\<dots> \<le> 2 ^ nbits"
        using i(3) [OF False] by (intro power_increasing) simp_all
      finally show ?thesis using False by simp
    qed
    have acc2: "unat ?acc2 = leb_total nbits i acc [b]" if "\<not> ?over"
    proof -
      have "leb_total nbits i acc [b] < 2 ^ nbits"
        using that fits by blast
      also have "\<dots> \<le> 2 ^ 64"
        using Suc.prems(3) by (intro power_increasing) simp_all
      finally show ?thesis
        using or_disjoint [OF Suc.prems(4), of p] by (simp add: p leb_total_def)
    qed
    have run: "uleb_loop nbits i (Suc k) acc r =
        (if ?over then rfail ''an integer encoding overflows its width'' r1
         else if octet b < 128 then Inr (?acc2, r1) else uleb_loop nbits (i + 1) k ?acc2 r1)"
      unfolding p_def uleb_loop.simps by (simp add: rbind_def b more_octet rret_def Let_def)
    show ?thesis
    proof (cases "octet b < 128")
      case True
      have "uleb_loop nbits i (Suc k) acc r = Inr (v, r2) \<longleftrightarrow> \<not> ?over \<and> v = ?acc2 \<and> r2 = r1"
        using True by (auto simp: run rfail_def)
      also have "\<dots> \<longleftrightarrow> unat v = leb_total nbits i acc [b] \<and> unat v < 2 ^ nbits \<and> r2 = r1"
        using acc2 fits by (auto simp: word_unat_eq_iff)
      finally show ?thesis
        using True b by (auto simp: leb_at_step [of r])
    next
      case False
      have tail: "leb_total nbits i acc (b # cs) = leb_total nbits (i + 1) ?acc2 cs" if "\<not> ?over" for cs
        using acc2 [OF that] by (simp add: leb_total_def power_add algebra_simps)
      show ?thesis
      proof (cases "k = 0")
        case True
        have "uleb_loop nbits i (Suc k) acc r \<noteq> Inr (v, r2)"
          unfolding run using True False by (auto simp: rfail_def)
        moreover have "\<not> (leb_at r bs r2 \<and> length bs \<le> Suc k)" for bs
        proof
          assume bs: "leb_at r bs r2 \<and> length bs \<le> Suc k"
          then obtain cs where "bs = b # cs" and "leb_at r1 cs r2"
            using False b by (subst (asm) leb_at_step [of r]) auto
          then show False
            using bs True by (auto simp: leb_at_def)
        qed
        ultimately show ?thesis by blast
      next
        case inner: False
        then have "unat ?acc2 < 2 ^ (7 * (i + 1))"
          using acc2 total_inner [OF Suc.prems(4), of nbits b] by (simp add: algebra_simps)
        then have "uleb_loop nbits (i + 1) k ?acc2 r1 = Inr (v, r2) \<longleftrightarrow>
            (\<exists>cs. leb_at r1 cs r2 \<and> length cs \<le> k \<and> unat v = leb_total nbits (i + 1) ?acc2 cs \<and> unat v < 2 ^ nbits)"
          using Suc.prems by (intro Suc.IH) simp_all
        then show ?thesis
          using False inner b tail by (auto simp: run leb_at_step [of r])
      qed
    qed
  qed
qed

lemma uleb_reads:
  assumes "0 < nbits" and "nbits \<le> 64"
  shows "uleb nbits r = Inr (v, r2) \<longleftrightarrow>
    (\<exists>bs. leb_at r bs r2 \<and> length bs \<le> div_ceil nbits 7 \<and> unat v = leb_value bs \<and> leb_value bs < 2 ^ nbits)"
  using uleb_exact [of 0 "div_ceil nbits 7" nbits 0 r v r2] assms by (auto simp: uleb_def leb_total_def)

theorem ru32_reads:
  "ru32 r = Inr (n, r2) \<longleftrightarrow> (\<exists>bs. leb_at r bs r2 \<and> length bs \<le> 5 \<and> n = leb_value bs \<and> leb_value bs < 2 ^ 32)"
proof
  assume "ru32 r = Inr (n, r2)"
  then obtain v where v: "uleb 32 r = Inr (v, r2)" and n: "n = unat (ucast v :: 32 word)"
    by (auto simp: ru32_def rbind_def rret_def split: sum.splits)
  obtain bs where bs: "leb_at r bs r2" "length bs \<le> div_ceil 32 7" "unat v = leb_value bs" "leb_value bs < 2 ^ 32"
    using v by (auto simp: uleb_reads)
  then have "n = leb_value bs"
    by (simp add: n unsigned_ucast_eq take_bit_nat_eq_self)
  then show "\<exists>bs. leb_at r bs r2 \<and> length bs \<le> 5 \<and> n = leb_value bs \<and> leb_value bs < 2 ^ 32"
    using bs by (auto simp: div_ceil_def)
next
  assume "\<exists>bs. leb_at r bs r2 \<and> length bs \<le> 5 \<and> n = leb_value bs \<and> leb_value bs < 2 ^ 32"
  then obtain bs where bs: "leb_at r bs r2" "length bs \<le> 5" "n = leb_value bs" "leb_value bs < 2 ^ 32"
    by blast
  then have small: "leb_value bs < 2 ^ 64" by simp
  then have "uleb 32 r = Inr (of_nat (leb_value bs), r2)"
    using bs by (subst uleb_reads) (auto simp: div_ceil_def unat_of_nat intro!: exI [of _ bs])
  then show "ru32 r = Inr (n, r2)"
    using bs small by (simp add: ru32_def rbind_def rret_def unsigned_ucast_eq unat_of_nat take_bit_nat_eq_self)
qed

end
