(* ===== verification/Vm_Program.thy ===== *)
theory Vm_Program
  imports Vm_Fuel Vm_Leb
begin

text \<open>
  A program from its bytes to its report: the composition of the decoder, the instance, the loop and
  the streams of \<open>crates/almide-wasm-vm\<close>, over any device.
\<close>

subsection \<open>The runner\<close>

lemma program_cases:
  assumes "lim_cells lim < 2 ^ 32"
  obtains e where "run_program pn dev bs lim i o1 o2 = Refused e"
  | m s where "decode pn bs = Some (Inr m)" and "new_instance m lim = Some (Inr s)" and "inst_ok s"
      and "i_module s = m" and "i_frames s = []"
      and "run_program pn dev bs lim i o1 o2 =
        (case run_instance dev s (new_io i o1 o2) of
           Panicked \<Rightarrow> ProgramPanic | Hung \<Rightarrow> ProgramHang
         | Ended oc _ w \<Rightarrow> (let (rep, w1) = report_of dev oc w in Reported rep w1))"
proof (cases "decode pn bs")
  case None
  then show ?thesis
    using decode_ok [of pn bs] by simp
next
  case (Some v)
  show ?thesis
  proof (cases v)
    case (Inl e)
    then show ?thesis
      using Some that(1) by (simp add: run_program_def)
  next
    case (Inr m)
    have m: "module_ok m"
      using decode_ok [of pn bs] Some Inr by simp
    show ?thesis
    proof (cases "new_instance m lim")
      case None
      then show ?thesis
        using new_instance_ok [OF m assms] by simp
    next
      case inst: (Some u)
      show ?thesis
      proof (cases u)
        case (Inl e)
        then show ?thesis
          using Some Inr inst that(1) by (simp add: run_program_def)
      next
        case s: (Inr s)
        then show ?thesis
          using new_instance_ok [OF m assms] Some Inr inst that(2) [of m s] by (simp add: run_program_def)
      qed
    qed
  qed
qed

lemma program_safe:
  assumes "fair_reads dev" and "lim_cells lim < 2 ^ 32"
  shows "run_program pn dev bs lim i o1 o2 \<noteq> ProgramPanic"
proof (cases rule: program_cases [OF assms(2), of pn dev bs i o1 o2])
  case (2 m s)
  have "run_instance dev s (new_io i o1 o2) \<noteq> Panicked"
    using run_ends(1) [OF 2(3,5), of True dev] assms(1) by (simp add: fair_def)
  then show ?thesis
    using 2(6) by (auto split: run_finish.splits prod.splits)
qed simp

lemma program_returns:
  assumes "fair_reads dev" and "responsive dev" and "lim_cells lim < 2 ^ 32"
  shows "(\<exists>e. run_program pn dev bs lim i o1 o2 = Refused e) \<or> (\<exists>rep w. run_program pn dev bs lim i o1 o2 = Reported rep w)"
proof (cases rule: program_cases [OF assms(3), of pn dev bs i o1 o2])
  case (2 m s)
  have "run_instance dev s (new_io i o1 o2) \<noteq> Panicked" and "run_instance dev s (new_io i o1 o2) \<noteq> Hung"
    using run_ends [OF 2(3,5), of False dev] assms(1,2) by (simp_all add: fair_def)
  then show ?thesis
    using 2(6) by (auto simp: Let_def split: run_finish.splits prod.splits)
qed simp

subsection \<open>The states of a run\<close>

text \<open>The state the loop starts in, once the entry function's frame is set up.\<close>

definition vm_begins :: "inst \<Rightarrow> ('i, 'o) io \<Rightarrow> ('i, 'o) vm_state \<Rightarrow> bool" where
  "vm_begins s w c \<longleftrightarrow>
     (\<exists>fp ob s1 w1. enter (m_entry (i_module s)) 0 s w = XOk (fp, ob) s1 w1 \<and>
        c = (start_regs (m_entry (i_module s)) fp ob, s1, w1))"

definition finish_of :: "(unit, 'i, 'o) xres \<Rightarrow> ('i, 'o) run_finish" where
  "finish_of v =
     (case v of
        XPanic \<Rightarrow> Panicked
      | XHang \<Rightarrow> Hung
      | XOk _ s1 w1 \<Rightarrow> Ended Finished s1 w1
      | XStop (SExit n) s1 w1 \<Rightarrow> Ended (Exited n) s1 w1
      | XStop (STrap t) s1 w1 \<Rightarrow> Ended (Trapped t) s1 w1)"

lemma begins_sound:
  assumes "inst_ok s" and "i_frames s = []" and "fresh_zero s" and "vm_begins s w (r, s1, w1)"
  shows "sound_state s1 r \<and> i_module s1 = i_module s \<and> i_fuel s1 = i_fuel s"
proof -
  obtain fp ob where c: "enter (m_entry (i_module s)) 0 s w = XOk (fp, ob) s1 w1"
      "r = start_regs (m_entry (i_module s)) fp ob"
    using assms(4) by (auto simp: vm_begins_def)
  have "like s s1 \<and> live s1 r"
    using entry_enters [OF assms(1,2), of True w] c by (simp add: xwp_def)
  moreover have "s1 = s\<lparr>i_stack := i_stack s1\<rparr>"
    using c(1) by (auto simp: enter_def shape_at_def clear_cells_def x_unfold Let_def split: option.splits if_splits)
  then have "fresh_zero s1"
    using assms(3) by (metis (no_types, lifting) fresh_zero_def inst.select_convs inst.surjective inst.update_convs(9))
  ultimately show ?thesis
    by (simp add: sound_state_def like_def steady_def)
qed

lemma run_machine:
  assumes ok: "inst_ok s" and none: "i_frames s = []"
  shows "run_instance dev s w = Ended (Trapped TStackExhausted) s w \<or>
    (\<exists>c n c2. vm_begins s w c \<and> vm_reach dev c n c2 \<and> \<not> (\<exists>c3. vm_step dev c2 c3) \<and> n \<le> i_fuel s \<and>
       run_instance dev s w = finish_of (vm_last dev c2))"
proof -
  let ?m = "i_module s" and ?e = "m_entry (i_module s)"
  have m: "module_ok ?m"
    using ok by (simp add: inst_ok_def)
  have def: "defined ?m ?e"
    by (rule entry_defined [OF m])
  have enters: "xwp False (enter ?e 0) (\<lambda>(fp, ob) s1 w1. like s s1 \<and> live s1 (start_regs ?e fp ob)) s w"
    by (rule entry_enters [OF ok none])
  have run: "run_instance dev s w =
      finish_of (xbind (enter ?e 0) (\<lambda>(fp, ob). xbind (code_of ?e) (\<lambda>_. execute_loop dev (start_regs ?e fp ob))) s w)"
    using def by (simp add: run_instance_def finish_of_def execute_def start_regs_def defined_def is_host_def x_unfold)
  show ?thesis
  proof (cases "enter ?e 0 s w")
    case (XOk q s1 w1)
    obtain fp ob where q: "q = (fp, ob)" by (cases q)
    then have like: "like s s1" and live: "live s1 (start_regs ?e fp ob)"
      using enters XOk by (simp_all add: xwp_def)
    obtain code where code: "code_of ?e s1 w1 = XOk code s1 w1"
      using like def defined_body(2) [OF m def]
      by (auto simp: code_of_def nimports_def x_unfold defined_def is_host_def like_def steady_def sget_def)
    obtain n c2 where c2: "vm_reach dev (start_regs ?e fp ob, s1, w1) n c2"
        "execute_loop dev (start_regs ?e fp ob) s1 w1 = vm_last dev c2" "\<not> (\<exists>c3. vm_step dev c2 c3)"
      using loop_runs_machine by blast
    have "n \<le> i_fuel s"
      using reach_fuel [OF c2(1)] like by (simp add: like_def steady_def)
    moreover have "run_instance dev s w = finish_of (vm_last dev c2)"
      using run XOk q code c2(2) by (simp add: xbind_def)
    moreover have "vm_begins s w (start_regs ?e fp ob, s1, w1)"
      using XOk q by (simp add: vm_begins_def)
    ultimately show ?thesis
      using c2(1,3) by blast
  next
    case (XStop st s1 w1)
    then have "st = STrap TStackExhausted \<and> s1 = s \<and> w1 = w"
      by (auto simp: enter_def shape_at_def clear_cells_def x_unfold Let_def split: option.splits if_splits)
    then show ?thesis
      using run XStop by (simp add: xbind_def finish_of_def)
  qed (use enters in \<open>simp_all add: xwp_def\<close>)
qed

text \<open>What holds of every state a run reaches.\<close>

lemma reached_bounds:
  assumes m: "decode pn bs = Some (Inr m)" and s: "new_instance m lim = Some (Inr s)" and cells: "lim_cells lim < 2 ^ 32"
    and dev: "fair_reads dev" and c: "vm_begins s w c" "vm_reach dev c n (r, s2, w2)"
  shows "sound_state s2 r"
proof -
  have mok: "module_ok m"
    using decode_ok [of pn bs] m by simp
  have ok: "inst_ok s" "i_frames s = []"
    using new_instance_ok [OF mok cells] s by simp_all
  have "fresh_zero s"
    by (rule new_instance_zero [OF mok s])
  then have "sound_state (fst (snd c)) (fst c)"
    using begins_sound [OF ok, of w "fst c" "fst (snd c)" "snd (snd c)"] c(1) by simp
  then show ?thesis
    using reach_sound [OF c(2) _ dev] by simp
qed

text \<open>The exit code, and what standard error holds in the end.\<close>

lemma program_reports:
  assumes "run_program pn (rec_dev rd) bs lim i [] [] = Reported rep w"
  shows "\<exists>m s oc s1 w1. decode pn bs = Some (Inr m) \<and> new_instance m lim = Some (Inr s) \<and>
    run_instance (rec_dev rd) s (new_io i [] []) = Ended oc s1 w1 \<and>
    rep = \<lparr>rep_exit = exit_of oc, rep_trap = trap_of oc\<rparr> \<and>
    io_out w = io_out w1 \<and> io_err w = io_err w1 @ trap_note oc (io_err w1)"
proof -
  obtain m s oc s1 w1 where run: "decode pn bs = Some (Inr m)" "new_instance m lim = Some (Inr s)"
      "run_instance (rec_dev rd) s (new_io i [] []) = Ended oc s1 w1" "report_of (rec_dev rd) oc w1 = (rep, w)"
    using assms by (auto simp: run_program_def split: option.splits sum.splits run_finish.splits prod.splits)
  then show ?thesis
    using report_contract [OF run(3)] by (intro exI [of _ m] exI [of _ s] exI [of _ oc] exI [of _ s1] exI [of _ w1]) auto
qed

end
