(* ===== verification/Vm_Example.thy ===== *)
theory Vm_Example
  imports Vm_Program
begin

text \<open>
  A module of the binary format and a device, the concrete inputs of the witnesses: the entry
  function pushes the size of memory and drops it; a read finds the end of the input.
\<close>

definition sample_module :: bytes where
  "sample_module = [
     CHR 0x00, CHR 0x61, CHR 0x73, CHR 0x6D, CHR 0x01, CHR 0x00, CHR 0x00, CHR 0x00,
     CHR 0x01, CHR 0x04, CHR 0x01, CHR 0x60, CHR 0x00, CHR 0x00,
     CHR 0x03, CHR 0x02, CHR 0x01, CHR 0x00,
     CHR 0x05, CHR 0x04, CHR 0x01, CHR 0x01, CHR 0x00, CHR 0x00,
     CHR 0x07, CHR 0x13, CHR 0x02, CHR 0x06, CHR 0x6D, CHR 0x65, CHR 0x6D, CHR 0x6F, CHR 0x72, CHR 0x79, CHR 0x02, CHR 0x00,
     CHR 0x06, CHR 0x5F, CHR 0x73, CHR 0x74, CHR 0x61, CHR 0x72, CHR 0x74, CHR 0x00, CHR 0x00,
     CHR 0x0A, CHR 0x07, CHR 0x01, CHR 0x05, CHR 0x00, CHR 0x3F, CHR 0x00, CHR 0x1A, CHR 0x0B]"

definition sample_nan :: nan_choice where
  "sample_nan = \<lparr>nan64 = (\<lambda>a b. 0x7FF8000000000000), nan32 = (\<lambda>a. 0x7FC00000)\<rparr>"

definition sample_limits :: limits_of where
  "sample_limits = \<lparr>lim_fuel = 9, lim_pages = 1, lim_cells = 4, lim_depth = 2\<rparr>"

definition ended_input :: "unit \<Rightarrow> nat \<Rightarrow> read_event \<times> unit" where
  "ended_input i n = (ReadOk [], i)"

subsection \<open>Reading the module\<close>

lemma ru32_one: "rbyte r = Inr (b, r1) \<Longrightarrow> octet b < 128 \<Longrightarrow> ru32 r = Inr (octet b, r1)"
  by (subst ru32_reads) (auto simp: leb_at_step [of r] intro!: exI [of _ "[b]"])

lemmas decoding =
  rbind_def rret_def r_offset_def at_rend_def rfail_def new_rdr_def rbyte_def rtake_def rsub_def ri32_def
  ri64_def f64_bits_def vec_len_def skip_rest_def rname_def MAX_LOCALS_def as_u32_def tbind_def tret_def
  tseq_def tfail_def tread_def tget_def tmod_def tpanic_def param_runs_def run_end_def local_run_def
  read_locals_def local_get_def new_ctrl_def label_value_def top_def push_def pop_def pop_expect_def
  pop_params_def cut_to_def set_unreachable_def emit_def put_instr_def here_def label_def branch_def
  block_type_def expect_value_def push_value_def check_block_end_def patch_def pop_ctrl_def push_ctrl_def
  need_memory_def zero_index_def memarg_def v_numeric_def position_def v_memory_or_numeric_def v_prefixed_def
  v_variable_def first_result_def v_func_type_def v_callee_def v_call_rest_def v_call_def v_else_of_def
  v_else_def v_end_of_def v_end_def label_type_def v_br_if_def branch_value_def v_block_def v_if_def
  v_control_def v_select_def v_memory_size_or_grow_def v_constant_def v_op_def start_tr_def translate_def
  host_module_def by_name_def fn_type_def MAX_PAGES_def MAX_PARAMS_def MAX_TABLE_def new_draft_def
  value_type_def value_types_def limits_def const_expr_def one_type_def type_section_def one_import_def
  import_section_def one_function_def function_section_def table_section_def memory_section_def
  global_type_def one_global_def global_section_def export_count_def one_export_def export_section_def
  one_element_def element_section_def one_data_def data_section_def draft_ctx_def code_section_def
  section_rank_def custom_section_def count_section_def section_plain_def section_at_def entry_type_def
  element_bad_def data_bad_def draft_module_def finish_def section_head_def order_check_def decode_def
  checked_add_usize_def sget_def subslice_def Let_def sections.simps translate_loop.simps declared_type_def
  whole_def PAGE_def

definition sample_program :: module where
  "sample_program =
     \<lparr>m_types = [\<lparr>params = [], results = []\<rparr>], m_imports = [], m_funcs = [0], m_table = None,
      m_memory = Some (0, Some 0), m_globals = [], m_elements = [], m_data = [],
      m_bodies = [\<lparr>b_locals = 0, b_params = 0, b_code = [MemorySize, Drop, ICall Return], b_max = 1\<rparr>],
      m_entry = 0\<rparr>"

lemma sample_names: "utf8_ok ''memory''" "utf8_ok ''_start''"
  by code_simp+

lemma sample_decodes: "decode sample_nan sample_module = Some (Inr sample_program)"
  by (simp add: sample_names ru32_one decoding sample_module_def sample_program_def)

subsection \<open>Running it\<close>

definition sample_inst :: inst where
  "sample_inst =
     \<lparr>i_module = sample_program, i_shapes = [\<lparr>sh_params = 0, sh_locals = 0, sh_result = False, sh_max = 1\<rparr>],
      i_canon = [0], i_memory = [], i_pages = 0, i_max_pages = 0, i_globals = [], i_table = [],
      i_stack = [0, 0, 0, 0], i_frames = [], i_depth = 2, i_fuel = 9\<rparr>"

lemma sample_instance: "new_instance sample_program sample_limits = Some (Inr sample_inst)"
  by (simp add: new_instance_def shape_of_def canon_of_def sample_program_def sample_limits_def sample_inst_def Let_def sget_def eval_nat_numeral)

lemma sample_ok: "inst_ok sample_inst" "i_frames sample_inst = []"
proof -
  have "module_ok sample_program"
    using decode_ok [of sample_nan sample_module] by (simp add: sample_decodes)
  then show "inst_ok sample_inst" "i_frames sample_inst = []"
    using new_instance_ok [of sample_program sample_limits] by (simp_all add: sample_instance) (simp_all add: sample_limits_def)
qed

definition sample_start :: "(unit, bytes) vm_state" where
  "sample_start = (start_regs 0 0 0, sample_inst, new_io () [] [])"

lemmas stepping = x_unfold enter_def shape_at_def clear_cells_def set_cell_def code_of_def nimports_def
  one_step_def push_cell_def at_sp_def spend_def leave_def resume_caller_def set_frames_def Let_def sget_def

lemma sample_fields:
  "i_module sample_inst = sample_program" "i_stack sample_inst = [0, 0, 0, 0]" "i_frames sample_inst = []"
  "i_shapes sample_inst = [\<lparr>sh_params = 0, sh_locals = 0, sh_result = False, sh_max = 1\<rparr>]"
  "i_pages sample_inst = 0" "i_fuel sample_inst = 9" "m_entry sample_program = 0" "m_imports sample_program = []"
  "m_bodies sample_program = [\<lparr>b_locals = 0, b_params = 0, b_code = [MemorySize, Drop, ICall Return], b_max = 1\<rparr>]"
  by (simp_all add: sample_inst_def sample_program_def)

lemma same_cells: "put xs n [] = xs" "sample_inst\<lparr>i_stack := [0, 0, 0, 0]\<rparr> = sample_inst"
  by (simp_all add: put_def sample_inst_def)

lemma sample_begins: "vm_begins sample_inst (new_io () [] []) sample_start"
  by (simp add: vm_begins_def sample_start_def sample_fields stepping same_cells)

lemma sample_step:
  "vm_step (rec_dev ended_input) sample_start
     ((start_regs 0 0 0)\<lparr>r_pc := 1, r_sp := 1\<rparr>, sample_inst\<lparr>i_fuel := 8\<rparr>, new_io () [] [])"
  unfolding sample_start_def
  by (rule vm_step.intros [where ?s1.0 = "sample_inst\<lparr>i_fuel := 8\<rparr>" and ?w1.0 = "new_io () [] []"])
    (simp_all add: sample_fields stepping start_regs_def)

lemma sample_runs:
  "run_instance (rec_dev ended_input) sample_inst (new_io () [] []) =
     Ended Finished (sample_inst\<lparr>i_fuel := 6\<rparr>) (new_io () [] [])"
  by (simp add: run_instance_def execute_def execute_loop.simps sample_fields stepping same_cells)

lemma sample_reports:
  "run_program sample_nan (rec_dev ended_input) sample_module sample_limits () [] [] =
     Reported \<lparr>rep_exit = 0, rep_trap = None\<rparr> (new_io () [] [])"
  by (simp add: run_program_def sample_decodes sample_instance sample_runs report_of_def)

end
