(* ===== verification/Lp_Rational.thy ===== *)
theory Lp_Rational
  imports Complex_Main Prelude "HOL-Library.Signed_Division"
begin

text \<open>
  The exact rationals of \<open>crates/almide-lin-prove/src/lp.rs\<close>: fractions of 128-bit integers whose
  operations fail where a checked operation of the language overflows. An operation that returns has
  the value of the operation on rational numbers.
\<close>

subsection \<open>128-bit integers\<close>

definition fits :: "int \<Rightarrow> bool" where
  "fits x \<longleftrightarrow> - (2 ^ 127) \<le> x \<and> x < 2 ^ 127"

text \<open>\<open>checked_add\<close>, \<open>checked_mul\<close> and \<open>checked_neg\<close> are the exact result where it fits; the plain
  operators of a release build wrap.\<close>

definition chk :: "int \<Rightarrow> int option" where
  "chk x = (if fits x then Some x else None)"

definition wrap :: "int \<Rightarrow> int" where
  "wrap x = (x + 2 ^ 127) mod 2 ^ 128 - 2 ^ 127"

lemma wrap_fits: "fits x \<Longrightarrow> wrap x = x"
  by (simp add: wrap_def fits_def)

definition i_abs :: "int \<Rightarrow> int" where
  "i_abs x = wrap \<bar>x\<bar>"

lemma i_abs_dvd [simp]:
  assumes "fits x"
  shows "d dvd i_abs x \<longleftrightarrow> d dvd x"
proof (cases "x = - (2 ^ 127)")
  case True
  then show ?thesis by (simp add: i_abs_def wrap_def)
next
  case False
  then have "wrap \<bar>x\<bar> = \<bar>x\<bar>"
    using assms by (intro wrap_fits) (auto simp: fits_def)
  then show ?thesis by (simp add: i_abs_def)
qed

subsection \<open>Greatest common divisors\<close>

function gcd_loop :: "int \<Rightarrow> int \<Rightarrow> int" where
  "gcd_loop a b = (if b = 0 then a else gcd_loop b (a smod b))"
  by pat_completeness auto
termination
proof (relation "measure (\<lambda>(a, b). nat \<bar>b\<bar>)", goal_cases)
  case (2 a b)
  then have "\<bar>a smod b\<bar> < \<bar>b\<bar>"
    by (simp add: signed_modulo_int_def abs_mult abs_mod_less)
  then show ?case using 2 by simp
qed simp

declare gcd_loop.simps [simp del]

definition q_gcd :: "int \<Rightarrow> int \<Rightarrow> int" where
  "q_gcd a b = gcd_loop (i_abs a) (i_abs b)"

lemma smod_dvd:
  fixes a b d :: int
  assumes "d dvd b"
  shows "d dvd a smod b \<longleftrightarrow> d dvd a"
proof -
  have "a = a sdiv b * b + a smod b"
    by (simp add: sdiv_mult_smod_eq)
  then show ?thesis
    using assms by (metis dvd_add_right_iff dvd_mult)
qed

lemma gcd_loop_dvd: "d dvd gcd_loop a b \<longleftrightarrow> d dvd a \<and> d dvd b"
proof (induction a b rule: gcd_loop.induct)
  case (1 a b)
  show ?case
  proof (cases "b = 0")
    case True
    then show ?thesis by (simp add: gcd_loop.simps)
  next
    case False
    then have "d dvd gcd_loop a b \<longleftrightarrow> d dvd b \<and> d dvd a smod b"
      using 1 by (simp add: gcd_loop.simps [of a b])
    then show ?thesis
      using smod_dvd by blast
  qed
qed

lemma q_gcd_dvd: "fits a \<Longrightarrow> fits b \<Longrightarrow> max (q_gcd a b) 1 dvd a \<and> max (q_gcd a b) 1 dvd b"
  using gcd_loop_dvd [of "q_gcd a b" "i_abs a" "i_abs b"] by (auto simp: q_gcd_def max_def)

lemma sdiv_exact: "g dvd n \<Longrightarrow> n sdiv g * g = n" for n g :: int
  using sdiv_mult_smod_eq [of n g] smod_dvd [of g g n] by (simp add: signed_modulo_int_def)

subsection \<open>Fractions\<close>

record q =
  q_num :: int
  q_den :: int

definition q_int :: "int \<Rightarrow> q" where
  "q_int n = \<lparr>q_num = n, q_den = 1\<rparr>"

definition q_new :: "int \<Rightarrow> int \<Rightarrow> q option" where
  "q_new n d =
     (if d = 0 then None
      else let g = max (q_gcd n d) 1; sg = (if d < 0 then - 1 else 1)
           in case chk (n sdiv g * sg) of
                None \<Rightarrow> None
              | Some a \<Rightarrow> (case chk (d sdiv g * sg) of None \<Rightarrow> None | Some b \<Rightarrow> Some \<lparr>q_num = a, q_den = b\<rparr>))"

definition chk_mul :: "int \<Rightarrow> int \<Rightarrow> int option" where
  "chk_mul a b = chk (a * b)"

definition q_add :: "q \<Rightarrow> q \<Rightarrow> q option" where
  "q_add x y =
     Option.bind (chk_mul (q_num x) (q_den y)) (\<lambda>a.
       Option.bind (chk_mul (q_num y) (q_den x)) (\<lambda>b.
         Option.bind (chk (a + b)) (\<lambda>n. Option.bind (chk_mul (q_den x) (q_den y)) (\<lambda>d. q_new n d))))"

definition q_sub :: "q \<Rightarrow> q \<Rightarrow> q option" where
  "q_sub x y = Option.bind (chk (- q_num y)) (\<lambda>n. q_add x \<lparr>q_num = n, q_den = q_den y\<rparr>)"

definition q_mul :: "q \<Rightarrow> q \<Rightarrow> q option" where
  "q_mul x y =
     (let g1 = max (q_gcd (q_num x) (q_den y)) 1; g2 = max (q_gcd (q_num y) (q_den x)) 1
      in Option.bind (chk_mul (q_num x sdiv g1) (q_num y sdiv g2)) (\<lambda>n.
           Option.bind (chk_mul (q_den x sdiv g2) (q_den y sdiv g1)) (\<lambda>d. q_new n d)))"

definition q_div :: "q \<Rightarrow> q \<Rightarrow> q option" where
  "q_div x y = (if q_num y = 0 then None else Option.bind (q_new (q_den y) (q_num y)) (q_mul x))"

definition q_zero :: "q \<Rightarrow> bool" where "q_zero x \<longleftrightarrow> q_num x = 0"
definition q_pos :: "q \<Rightarrow> bool" where "q_pos x \<longleftrightarrow> 0 < q_num x"
definition q_neg :: "q \<Rightarrow> bool" where "q_neg x \<longleftrightarrow> q_num x < 0"

text \<open>\<open>cmpq\<close>: the two products it compares.\<close>

definition q_cmp :: "q \<Rightarrow> q \<Rightarrow> (int \<times> int) option" where
  "q_cmp x y =
     Option.bind (chk_mul (q_num x) (q_den y)) (\<lambda>a. map_option (Pair a) (chk_mul (q_num y) (q_den x)))"

subsection \<open>Values\<close>

definition q_ok :: "q \<Rightarrow> bool" where
  "q_ok x \<longleftrightarrow> 0 < q_den x \<and> fits (q_num x) \<and> fits (q_den x)"

definition qval :: "q \<Rightarrow> rat" where
  "qval x = of_int (q_num x) / of_int (q_den x)"

lemma chk_Some [simp]: "chk x = Some y \<longleftrightarrow> y = x \<and> fits x"
  by (auto simp: chk_def)

lemma q_int_val [simp]: "qval (q_int n) = of_int n" "fits n \<Longrightarrow> q_ok (q_int n)"
  by (simp_all add: qval_def q_int_def q_ok_def fits_def)

lemma q_new_val:
  assumes "q_new n d = Some x" and "fits n" and "fits d"
  shows "q_ok x \<and> d \<noteq> 0 \<and> qval x = of_int n / of_int d"
proof -
  let ?g = "max (q_gcd n d) 1" and ?s = "if d < 0 then - 1 else (1 :: int)"
  have d: "d \<noteq> 0" and x: "x = \<lparr>q_num = n sdiv ?g * ?s, q_den = d sdiv ?g * ?s\<rparr>"
    and f: "fits (n sdiv ?g * ?s)" "fits (d sdiv ?g * ?s)"
    using assms(1) by (auto simp: q_new_def Let_def split: option.splits if_splits)
  have g: "0 < ?g" by simp
  have n: "n = n sdiv ?g * ?g" and dd: "d = d sdiv ?g * ?g"
    using q_gcd_dvd [OF assms(2,3)] by (simp_all add: sdiv_exact)
  have "0 < d sdiv ?g * ?s"
    using d dd g by (smt (verit) mult_nonneg_nonneg mult_nonpos_nonneg mult_minus_right mult_cancel_left2)
  moreover have "(of_int (n sdiv ?g * ?s) / of_int (d sdiv ?g * ?s) :: rat) = of_int (n sdiv ?g * ?g) / of_int (d sdiv ?g * ?g)"
    using g by (simp add: field_simps)
  ultimately show ?thesis
    using x f d n dd by (simp add: q_ok_def qval_def)
qed

lemma chk_mul_Some [simp]: "chk_mul a b = Some y \<longleftrightarrow> y = a * b \<and> fits y"
  by (auto simp: chk_mul_def)

lemma qval_den: "q_ok x \<Longrightarrow> (of_int (q_den x) :: rat) \<noteq> 0"
  by (simp add: q_ok_def)

lemma q_add_val:
  assumes "q_add x y = Some z" and "q_ok x" and "q_ok y"
  shows "q_ok z \<and> qval z = qval x + qval y"
proof -
  have z: "q_new (q_num x * q_den y + q_num y * q_den x) (q_den x * q_den y) = Some z"
    and f: "fits (q_num x * q_den y + q_num y * q_den x)" "fits (q_den x * q_den y)"
    using assms(1) by (auto simp: q_add_def bind_eq_Some_conv)
  show ?thesis
    using q_new_val [OF z f] qval_den [OF assms(2)] qval_den [OF assms(3)] by (simp add: qval_def field_simps)
qed

lemma q_sub_val:
  assumes "q_sub x y = Some z" and "q_ok x" and "q_ok y"
  shows "q_ok z \<and> qval z = qval x - qval y"
proof -
  let ?y = "\<lparr>q_num = - q_num y, q_den = q_den y\<rparr>"
  have "q_add x ?y = Some z" and "q_ok ?y"
    using assms by (auto simp: q_sub_def q_ok_def bind_eq_Some_conv)
  then show ?thesis
    using q_add_val [of x ?y z] assms(2) by (simp add: qval_def)
qed

lemma q_mul_val:
  assumes "q_mul x y = Some z" and x: "q_ok x" and y: "q_ok y"
  shows "q_ok z \<and> qval z = qval x * qval y"
proof -
  let ?g = "max (q_gcd (q_num x) (q_den y)) 1" and ?h = "max (q_gcd (q_num y) (q_den x)) 1"
  have z: "q_new (q_num x sdiv ?g * (q_num y sdiv ?h)) (q_den x sdiv ?h * (q_den y sdiv ?g)) = Some z"
    and f: "fits (q_num x sdiv ?g * (q_num y sdiv ?h))" "fits (q_den x sdiv ?h * (q_den y sdiv ?g))"
    using assms(1) by (auto simp: q_mul_def Let_def bind_eq_Some_conv)
  have g: "q_num x = q_num x sdiv ?g * ?g" "q_den y = q_den y sdiv ?g * ?g"
    and h: "q_num y = q_num y sdiv ?h * ?h" "q_den x = q_den x sdiv ?h * ?h"
    using x y q_gcd_dvd by (simp_all add: sdiv_exact q_ok_def)
  have "qval x * qval y =
      of_int (q_num x sdiv ?g * ?g * (q_num y sdiv ?h * ?h)) / of_int (q_den x sdiv ?h * ?h * (q_den y sdiv ?g * ?g))"
    unfolding g [symmetric] h [symmetric] by (simp add: qval_def)
  also have "\<dots> = of_int (q_num x sdiv ?g * (q_num y sdiv ?h)) / of_int (q_den x sdiv ?h * (q_den y sdiv ?g))"
    by (simp add: field_simps)
  finally show ?thesis
    using q_new_val [OF z f] by simp
qed

lemma q_div_val:
  assumes "q_div x y = Some z" and x: "q_ok x" and y: "q_ok y"
  shows "q_ok z \<and> q_num y \<noteq> 0 \<and> qval z = qval x / qval y"
proof -
  obtain i where i: "q_new (q_den y) (q_num y) = Some i" "q_mul x i = Some z" and n: "q_num y \<noteq> 0"
    using assms(1) by (auto simp: q_div_def bind_eq_Some_conv split: if_splits)
  have "q_ok i \<and> qval i = of_int (q_den y) / of_int (q_num y)"
    using q_new_val [OF i(1)] y by (simp add: q_ok_def)
  then show ?thesis
    using q_mul_val [OF i(2) x] n by (simp add: qval_def)
qed

lemma q_signs:
  assumes "q_ok x"
  shows "q_zero x \<longleftrightarrow> qval x = 0" "q_pos x \<longleftrightarrow> 0 < qval x" "q_neg x \<longleftrightarrow> qval x < 0"
  using assms by (auto simp: q_ok_def qval_def q_zero_def q_pos_def q_neg_def zero_less_divide_iff divide_less_0_iff)

lemma q_cmp_val:
  assumes "q_cmp x y = Some (a, b)" and "q_ok x" and "q_ok y"
  shows "a < b \<longleftrightarrow> qval x < qval y" "a = b \<longleftrightarrow> qval x = qval y"
proof -
  have ab: "a = q_num x * q_den y" "b = q_num y * q_den x"
    using assms(1) by (auto simp: q_cmp_def bind_eq_Some_conv)
  have d: "0 < (of_int (q_den x) :: rat)" "0 < (of_int (q_den y) :: rat)"
    using assms(2,3) by (simp_all add: q_ok_def)
  have "qval x < qval y \<longleftrightarrow> (of_int a :: rat) < of_int b"
    using d by (simp add: qval_def ab divide_simps mult.commute)
  then show "a < b \<longleftrightarrow> qval x < qval y" by simp
  have "qval x = qval y \<longleftrightarrow> (of_int a :: rat) = of_int b"
    using d by (simp add: qval_def ab divide_simps mult.commute)
  then show "a = b \<longleftrightarrow> qval x = qval y" by simp
qed

end
