(* ===== verification/Prover_Forms.thy ===== *)
theory Prover_Forms
  imports Lp_Rational Lin_Algebra
begin

text \<open>
  The linear forms of the prover, \<open>crates/almide-lin-prove/src/lib.rs\<close>: the checker's term algebra
  again, over numbered slots and 128-bit integers. As long as nothing overflows each operation builds
  the form the checker builds, with the same terms in the same order, which is what lets a proof name
  its facts by their position.
\<close>

subsection \<open>Forms\<close>

datatype pvar = VS nat | VB nat | VC nat

text \<open>The derived order: by constructor, then by slot.\<close>

fun pvar_key :: "pvar \<Rightarrow> nat \<times> nat" where
  "pvar_key (VS n) = (0, n)"
| "pvar_key (VB n) = (1, n)"
| "pvar_key (VC n) = (2, n)"

lemma pvar_key_inj: "pvar_key u = pvar_key v \<longleftrightarrow> u = v"
  by (cases u; cases v) auto

instantiation pvar :: linorder
begin

definition less_eq_pvar :: "pvar \<Rightarrow> pvar \<Rightarrow> bool" where
  "u \<le> v \<longleftrightarrow> fst (pvar_key u) < fst (pvar_key v) \<or> fst (pvar_key u) = fst (pvar_key v) \<and> snd (pvar_key u) \<le> snd (pvar_key v)"

definition less_pvar :: "pvar \<Rightarrow> pvar \<Rightarrow> bool" where
  "u < v \<longleftrightarrow> fst (pvar_key u) < fst (pvar_key v) \<or> fst (pvar_key u) = fst (pvar_key v) \<and> snd (pvar_key u) < snd (pvar_key v)"

instance
  by standard (auto simp: less_eq_pvar_def less_pvar_def pvar_key_inj [symmetric] prod_eq_iff)

end

type_synonym pterms = "(pvar \<times> int) list"

record form =
  f_terms :: pterms
  f_cst :: int

definition p_v1 :: "pvar \<Rightarrow> form" where
  "p_v1 v = \<lparr>f_terms = [(v, 1)], f_cst = 0\<rparr>"

definition p_kz :: "int \<Rightarrow> form" where
  "p_kz c = \<lparr>f_terms = [], f_cst = c\<rparr>"

definition p_scale :: "int \<Rightarrow> pterms \<Rightarrow> pterms" where
  "p_scale k ts = map (\<lambda>(v, a). (v, wrap (k * a))) ts"

definition p_ladd :: "form \<Rightarrow> form \<Rightarrow> form" where
  "p_ladd a b = \<lparr>f_terms = f_terms a @ f_terms b, f_cst = wrap (f_cst a + f_cst b)\<rparr>"

definition p_lneg :: "form \<Rightarrow> form" where
  "p_lneg a = \<lparr>f_terms = p_scale (- 1) (f_terms a), f_cst = wrap (- f_cst a)\<rparr>"

definition p_lsub :: "form \<Rightarrow> form \<Rightarrow> form" where
  "p_lsub a b = p_ladd a (p_lneg b)"

definition p_lmul :: "int \<Rightarrow> form \<Rightarrow> form" where
  "p_lmul k a = \<lparr>f_terms = p_scale k (f_terms a), f_cst = wrap (k * f_cst a)\<rparr>"

definition p_coef :: "pterms \<Rightarrow> pvar \<Rightarrow> int" where
  "p_coef ts v = foldl (\<lambda>acc (_, a). wrap (acc + a)) 0 (filter (\<lambda>(u, _). u = v) ts)"

definition p_mentions :: "pvar \<Rightarrow> form \<Rightarrow> bool" where
  "p_mentions v l \<longleftrightarrow> list_ex (\<lambda>(u, _). u = v) (f_terms l)"

definition p_kill :: "form list \<Rightarrow> pvar \<Rightarrow> form list" where
  "p_kill f v = filter (\<lambda>l. \<not> p_mentions v l) f"

definition p_kill_region :: "form list \<Rightarrow> nat \<Rightarrow> form list" where
  "p_kill_region f r = p_kill (p_kill f (VB r)) (VC r)"

definition p_eqs :: "pvar \<Rightarrow> form \<Rightarrow> form list" where
  "p_eqs v l = [p_lsub (p_v1 v) l, p_lsub l (p_v1 v)]"

definition p_dropv :: "pvar \<Rightarrow> pterms \<Rightarrow> pterms" where
  "p_dropv v ts = filter (\<lambda>(u, _). u \<noteq> v) ts"

definition p_subst :: "pvar \<Rightarrow> form \<Rightarrow> form \<Rightarrow> form" where
  "p_subst v d f =
     \<lparr>f_terms = concat (map (\<lambda>(u, a). if u = v then p_scale a (f_terms d) else [(u, a)]) (f_terms f)),
      f_cst = wrap (f_cst f + wrap (p_coef (f_terms f) v * f_cst d))\<rparr>"

definition p_fjoin :: "form list option \<Rightarrow> form list option \<Rightarrow> form list option" where
  "p_fjoin a b = (case (a, b) of
     (None, x) \<Rightarrow> x
   | (Some fa, None) \<Rightarrow> Some fa
   | (Some fa, Some fb) \<Rightarrow> Some (filter (\<lambda>l. l \<in> set fb) fa))"

subsection \<open>The checker's forms\<close>

definition z_of_int :: "int \<Rightarrow> zint" where
  "z_of_int x = (if x < 0 then z_neg (z_from_digits (dec_string (nat (- x)))) else z_from_digits (dec_string (nat x)))"

lemma zval_of_int [simp]: "zval (z_of_int x) = x"
  by (simp add: z_of_int_def zval_neg zval_from_digits)

lemma z_of_int_eq: "z_of_int x = z \<longleftrightarrow> x = zval z"
  by (simp add: zval_inj [symmetric])

lemma z_of_int_inj [simp]: "z_of_int x = z_of_int y \<longleftrightarrow> x = y"
  by (simp add: z_of_int_eq)

fun lv :: "pvar \<Rightarrow> lvar" where
  "lv (VS n) = S (dnat_of n)"
| "lv (VB n) = B (dnat_of n)"
| "lv (VC n) = C (dnat_of n)"

lemma lv_inj [simp]: "lv u = lv v \<longleftrightarrow> u = v"
  by (cases u; cases v) auto

definition lterms :: "pterms \<Rightarrow> term_list" where
  "lterms ts = map (\<lambda>(v, a). (lv v, z_of_int a)) ts"

definition lform :: "form \<Rightarrow> lin" where
  "lform l = \<lparr>terms = lterms (f_terms l), cst = z_of_int (f_cst l)\<rparr>"

lemma lterms_inj: "lterms a = lterms b \<longleftrightarrow> a = b"
  unfolding lterms_def by (intro inj_map_eq_map injI) (auto split: prod.splits)

lemma lform_inj [simp]: "lform a = lform b \<longleftrightarrow> a = b"
  by (auto simp: lform_def lterms_inj intro: form.equality)

text \<open>A form whose numbers stay below a bound, and the sum of its coefficients too.\<close>

definition mass :: "pterms \<Rightarrow> int" where
  "mass ts = (\<Sum>p\<leftarrow>ts. \<bar>snd p\<bar>)"

lemma mass_simps [simp]: "mass [] = 0" "mass (p # ts) = \<bar>snd p\<bar> + mass ts" "mass (a @ b) = mass a + mass b"
  by (simp_all add: mass_def)

lemma mass_nonneg [simp]: "0 \<le> mass ts"
  by (induction ts) auto

lemma mass_mem: "p \<in> set ts \<Longrightarrow> \<bar>snd p\<bar> \<le> mass ts"
  by (induction ts) (auto simp: add_increasing add_increasing2)

lemma mass_filter: "mass (filter P ts) \<le> mass ts"
  by (induction ts) auto

definition bounded :: "int \<Rightarrow> form \<Rightarrow> bool" where
  "bounded b l \<longleftrightarrow> mass (f_terms l) \<le> b \<and> \<bar>f_cst l\<bar> \<le> b"

lemma fits_abs: "\<bar>x\<bar> < 2 ^ 127 \<Longrightarrow> fits x"
  by (auto simp: fits_def)

lemma lform_simps:
  "terms (lform l) = lterms (f_terms l)" "cst (lform l) = z_of_int (f_cst l)"
  by (simp_all add: lform_def)

lemma lterms_simps [simp]:
  "lterms [] = []" "lterms ((v, a) # ts) = (lv v, z_of_int a) # lterms ts" "lterms (ps @ qs) = lterms ps @ lterms qs"
  by (simp_all add: lterms_def)

subsection \<open>The operations agree\<close>

lemma wrap_abs: "\<bar>x\<bar> < 2 ^ 127 \<Longrightarrow> wrap x = x"
  by (intro wrap_fits fits_abs)

named_theorems mirror \<open>the checker's form of a form the prover builds\<close>

lemma lterms_scale:
  assumes "\<bar>k\<bar> * mass ts < 2 ^ 127"
  shows "lterms (p_scale k ts) = scale (z_of_int k) (lterms ts)" "mass (p_scale k ts) = \<bar>k\<bar> * mass ts"
proof -
  have "wrap (k * a) = k * a" if "(v, a) \<in> set ts" for v a
  proof (rule wrap_abs)
    have "\<bar>k * a\<bar> \<le> \<bar>k\<bar> * mass ts"
      using mass_mem [OF that] by (simp add: abs_mult mult_left_mono)
    then show "\<bar>k * a\<bar> < 2 ^ 127" using assms by linarith
  qed
  then have s: "p_scale k ts = map (\<lambda>(v, a). (v, k * a)) ts"
    by (auto simp: p_scale_def)
  show "lterms (p_scale k ts) = scale (z_of_int k) (lterms ts)"
    unfolding s by (auto simp: lterms_def scale_def z_of_int_eq zval_simps)
  show "mass (p_scale k ts) = \<bar>k\<bar> * mass ts"
    unfolding s by (induction ts) (auto simp: abs_mult algebra_simps)
qed

lemma lform_v1 [mirror]: "lform (p_v1 v) = v1 (lv v)" "bounded 1 (p_v1 v)"
  by (simp_all add: lform_def p_v1_def v1_def z_of_int_eq zval_simps bounded_def)

lemma lform_kz [mirror]: "lform (p_kz c) = kz (z_of_int c)"
  by (simp add: lform_def p_kz_def kz_def)

lemma bounded_kz: "\<bar>c\<bar> \<le> b \<Longrightarrow> bounded b (p_kz c)"
  by (simp add: bounded_def p_kz_def)

lemma bounded_mono: "bounded b l \<Longrightarrow> b \<le> c \<Longrightarrow> bounded c l"
  by (simp add: bounded_def)

lemma bounded_nonneg: "bounded b l \<Longrightarrow> 0 \<le> b"
  using mass_nonneg [of "f_terms l"] unfolding bounded_def by linarith

lemma lform_ladd:
  assumes "bounded b l" and "bounded c m" and "b + c < 2 ^ 127"
  shows "lform (p_ladd l m) = ladd (lform l) (lform m)" "bounded (b + c) (p_ladd l m)"
proof -
  have "wrap (f_cst l + f_cst m) = f_cst l + f_cst m"
    using assms by (intro wrap_abs) (auto simp: bounded_def)
  then show "lform (p_ladd l m) = ladd (lform l) (lform m)" "bounded (b + c) (p_ladd l m)"
    using assms by (auto simp: p_ladd_def lform_def ladd_def z_of_int_eq zval_simps bounded_def)
qed

lemma lform_lmul:
  assumes "bounded b l" and "\<bar>k\<bar> * b < 2 ^ 127"
  shows "lform (p_lmul k l) = lmul (z_of_int k) (lform l)" "bounded (\<bar>k\<bar> * b) (p_lmul k l)"
proof -
  have m: "\<bar>k\<bar> * mass (f_terms l) \<le> \<bar>k\<bar> * b" and c: "\<bar>k * f_cst l\<bar> \<le> \<bar>k\<bar> * b"
    using assms(1) by (simp_all add: bounded_def abs_mult mult_left_mono)
  have "wrap (k * f_cst l) = k * f_cst l"
    using c assms(2) by (intro wrap_abs) linarith
  then show "lform (p_lmul k l) = lmul (z_of_int k) (lform l)" "bounded (\<bar>k\<bar> * b) (p_lmul k l)"
    using lterms_scale [of k "f_terms l"] m c assms(2)
    by (auto simp: p_lmul_def lform_def lmul_def z_of_int_eq zval_simps bounded_def)
qed

lemma lneg_lmul: "p_lneg l = p_lmul (- 1) l" "lneg m = lmul (z_of_int (- 1)) m"
proof -
  have z: "z_from_i64 (- 1) = z_of_int (- 1)"
    by (simp add: zval_inj [symmetric] zval_simps)
  show "p_lneg l = p_lmul (- 1) l"
    by (simp add: p_lneg_def p_lmul_def)
  show "lneg m = lmul (z_of_int (- 1)) m"
    unfolding lneg_def lmul_def z by (auto intro: lin.equality simp: zval_inj [symmetric] zval_simps)
qed

lemma lform_lneg:
  assumes "bounded b l" and "b < 2 ^ 127"
  shows "lform (p_lneg l) = lneg (lform l)" "bounded b (p_lneg l)"
  using lform_lmul [OF assms(1), of "- 1"] assms(2) by (simp_all add: lneg_lmul)

lemma lform_lsub:
  assumes "bounded b l" and "bounded c m" and "b + c < 2 ^ 127"
  shows "lform (p_lsub l m) = lsub (lform l) (lform m)" "bounded (b + c) (p_lsub l m)"
proof -
  have c: "c < 2 ^ 127" using assms(3) bounded_nonneg [OF assms(1)] by linarith
  show "lform (p_lsub l m) = lsub (lform l) (lform m)" "bounded (b + c) (p_lsub l m)"
    unfolding p_lsub_def lsub_def
    using lform_ladd [OF assms(1) lform_lneg(2) [OF assms(2) c] assms(3)] lform_lneg(1) [OF assms(2) c] by simp_all
qed

lemma lform_mentions: "mentions (lv v) (lform l) = p_mentions v l"
  by (force simp: mentions_def p_mentions_def lform_def lterms_def list_ex_iff)

lemma lform_kill: "map lform (p_kill f v) = kill (map lform f) (lv v)"
  by (simp add: p_kill_def kill_def filter_map comp_def lform_mentions)

lemma lform_kill_region: "map lform (p_kill_region f r) = kill_region (map lform f) (dnat_of r)"
  using lform_kill [of "p_kill f (VB r)" "VC r"] lform_kill [of f "VB r"]
  by (simp add: p_kill_region_def kill_region_def)

lemma lform_eqs:
  assumes "bounded b l" and "b + 1 < 2 ^ 127"
  shows "map lform (p_eqs v l) = eqs (lv v) (lform l)"
  using lform_lsub [OF lform_v1(2) assms(1)] lform_lsub [OF assms(1) lform_v1(2)] assms(2)
  by (simp add: p_eqs_def eqs_def mirror)

lemma lterms_dropv: "lterms (p_dropv v ts) = dropv (lv v) (lterms ts)"
  by (simp add: lterms_def p_dropv_def dropv_def filter_map comp_def case_prod_unfold)

text \<open>Coefficients.\<close>

fun vcoef :: "pterms \<Rightarrow> pvar \<Rightarrow> int" where
  "vcoef [] v = 0"
| "vcoef ((u, a) # ts) v = (if u = v then a else 0) + vcoef ts v"

lemma vcoef_append [simp]: "vcoef (s @ t) v = vcoef s v + vcoef t v"
  by (induction s) auto

lemma vcoef_le: "\<bar>vcoef ts v\<bar> \<le> mass ts"
  by (induction ts) auto

lemma coef_lterms: "zval (coef (lterms ts) (lv v)) = vcoef ts v"
  by (induction ts) (auto simp: coef_Cons)

lemma coef_fold:
  "\<bar>s\<bar> + mass ts < 2 ^ 127 \<Longrightarrow> foldl (\<lambda>acc (_, a). wrap (acc + a)) s ts = s + (\<Sum>p\<leftarrow>ts. snd p)"
proof (induction ts arbitrary: s)
  case (Cons p ts)
  then have b: "\<bar>s + snd p\<bar> + mass ts < 2 ^ 127" by simp
  then have "\<bar>s + snd p\<bar> < 2 ^ 127" using mass_nonneg [of ts] by linarith
  then show ?case
    using Cons.IH [OF b] wrap_abs [of "s + snd p"] by (cases p) (simp add: add.assoc)
qed simp

lemma p_coef_vcoef:
  assumes "mass ts < 2 ^ 127"
  shows "p_coef ts v = vcoef ts v"
proof -
  have "(\<Sum>p\<leftarrow>filter (\<lambda>(u, _). u = v) ts. snd p) = vcoef ts v"
    by (induction ts) auto
  then show ?thesis
    using coef_fold [of 0 "filter (\<lambda>(u, _). u = v) ts"] mass_filter [of "\<lambda>(u, _). u = v" ts] assms
    by (simp add: p_coef_def)
qed

lemma lform_subst:
  assumes f: "bounded b l" and d: "bounded c d" and small: "b + b * c < 2 ^ 127"
  shows "lform (p_subst v d l) = lsubst (lv v) (lform d) (lform l)" "bounded (b + b * c) (p_subst v d l)"
proof -
  have b: "0 \<le> b" "mass (f_terms l) \<le> b" and c: "0 \<le> c" "mass (f_terms d) \<le> c" "\<bar>f_cst d\<bar> \<le> c"
    using f d bounded_nonneg [OF f] bounded_nonneg [OF d] by (simp_all add: bounded_def)
  have "mass (f_terms l) < 2 ^ 127" using b c small mult_nonneg_nonneg [of b c] by linarith
  then have co: "p_coef (f_terms l) v = vcoef (f_terms l) v" by (rule p_coef_vcoef)
  have prod: "\<bar>vcoef (f_terms l) v * f_cst d\<bar> \<le> b * c"
    using vcoef_le [of "f_terms l" v] b c by (auto simp: abs_mult intro!: mult_mono)
  have w: "wrap (vcoef (f_terms l) v * f_cst d) = vcoef (f_terms l) v * f_cst d"
    "wrap (f_cst l + vcoef (f_terms l) v * f_cst d) = f_cst l + vcoef (f_terms l) v * f_cst d"
    using prod small b f by (auto intro!: wrap_abs simp: bounded_def)
  let ?sub = "\<lambda>ts. concat (map (\<lambda>(u, a). if u = v then p_scale a (f_terms d) else [(u, a)]) ts)"
  have sub: "lterms (?sub ts) = subst_terms (lv v) (lform d) (lterms ts) \<and> mass (?sub ts) \<le> mass ts + mass ts * c"
    if "mass ts \<le> b" for ts
    using that
  proof (induction ts)
    case (Cons p ts)
    obtain u a where p: "p = (u, a)" by (cases p)
    have ad: "\<bar>a\<bar> * mass (f_terms d) \<le> \<bar>a\<bar> * c" using c by (simp add: mult_left_mono)
    have "\<bar>a\<bar> \<le> b" using Cons.prems mass_nonneg [of ts] unfolding p mass_simps snd_conv by linarith
    then have "\<bar>a\<bar> * c \<le> b * c" using c by (intro mult_right_mono)
    then have "\<bar>a\<bar> * mass (f_terms d) < 2 ^ 127" using ad small b by linarith
    note s = lterms_scale [OF this]
    have "mass ts \<le> b" using Cons.prems by simp
    then show ?case
      using Cons.IH s ad mult_nonneg_nonneg [OF abs_ge_zero c(1), of a]
      by (auto simp: p subst_terms_def lform_simps algebra_simps)
  qed (simp add: subst_terms_def)
  show "lform (p_subst v d l) = lsubst (lv v) (lform d) (lform l)"
    using sub [OF b(2)] w
    by (simp add: p_subst_def lsubst_def lform_def co z_of_int_eq zval_simps coef_lterms)
  have "mass (f_terms l) * c \<le> b * c" using b c by (simp add: mult_right_mono)
  then show "bounded (b + b * c) (p_subst v d l)"
    using sub [OF b(2)] w prod f by (auto simp: p_subst_def bounded_def co)
qed

lemma lform_fjoin: "map_option (map lform) (p_fjoin a b) = (case (map_option (map lform) a, map_option (map lform) b) of
     (None, x) \<Rightarrow> x
   | (Some fa, None) \<Rightarrow> Some fa
   | (Some fa, Some fb) \<Rightarrow> Some (filter (\<lambda>l. l \<in> set fb) fa))"
  by (auto simp: p_fjoin_def filter_map comp_def image_iff split: option.splits)

end
