(* ===== verification/Prover_Text.thy ===== *)
theory Prover_Text
  imports Prover_Forms Lin_Format
begin

text \<open>
  The text of forms and proofs, as \<open>crates/almide-anchor-check/src/lin.rs\<close> and
  \<open>crates/almide-lin-prove/src/lib.rs\<close> write it, and its reading by the checker's parser: each text is
  read back as the form or the proof it was written for, wherever it stands.
\<close>

subsection \<open>Writing\<close>

definition z_text :: "int \<Rightarrow> bytes" where
  "z_text k = (if k < 0 then CHR ''-'' # dec_string (nat (- k)) else dec_string (nat k))"

text \<open>\<open>join(" ")\<close>.\<close>

fun spaced :: "bytes list \<Rightarrow> bytes" where
  "spaced [] = []"
| "spaced [x] = x"
| "spaced (x # y # ys) = x @ CHR '' '' # spaced (y # ys)"

definition mult_text :: "nat \<times> int \<Rightarrow> bytes" where
  "mult_text p = dec_string (fst p) @ CHR '':'' # z_text (snd p)"

definition pf_text :: "(nat \<times> int) list \<times> int \<Rightarrow> bytes" where
  "pf_text p = CHR ''('' # spaced (map mult_text (fst p)) @ CHR '')'' # z_text (snd p)"

fun term_text :: "pvar \<times> int \<Rightarrow> bytes" where
  "term_text (VS x, a) = CHR ''s'' # dec_string x @ CHR '':'' # z_text a"
| "term_text (VB x, a) = CHR ''b'' # dec_string x @ CHR '':'' # z_text a"
| "term_text (VC x, a) = CHR ''c'' # dec_string x @ CHR '':'' # z_text a"

definition form_text :: "form \<Rightarrow> bytes" where
  "form_text l = CHR ''['' # spaced (map term_text (f_terms l)) @ CHR '']'' # z_text (f_cst l)"

definition z_pf :: "(nat \<times> int) list \<times> int \<Rightarrow> pf" where
  "z_pf p = (map (\<lambda>(j, k). (dnat_of j, z_of_int k)) (fst p), z_of_int (snd p))"

subsection \<open>Tokens\<close>

text \<open>What may follow a number: anything but a digit.\<close>

definition no_digit :: "bytes \<Rightarrow> bool" where
  "no_digit post \<longleftrightarrow> \<not> (\<exists>b r. post = b # r \<and> is_digit b)"

lemma no_digit_simps [simp]: "no_digit []" "no_digit (b # r) \<longleftrightarrow> \<not> is_digit b"
  by (auto simp: no_digit_def)

lemma sget_mid [simp]: "sget (pre @ c # post) (length pre) = Some c"
  by (simp add: sget_def)

lemma sk_stay: "\<not> is_sep c \<Longrightarrow> sk (pre @ c # post) (length pre) = length pre"
  by (subst sk.simps) simp

lemma sk_blank: "sk (pre @ CHR '' '' # post) (length pre) = sk (pre @ CHR '' '' # post) (Suc (length pre))"
  by (subst sk.simps) (simp add: is_sep_def is_space_def)

lemma sk_twice [simp]: "sk s (sk s i) = sk s i"
proof (induction s i rule: sk.induct)
  case (1 s i)
  show ?case
  proof (cases "\<exists>c. sget s i = Some c \<and> is_sep c")
    case True
    then obtain c where "sget s i = Some c" "is_sep c" by blast
    then show ?thesis using 1 by (subst (2 3) sk.simps) simp
  next
    case False
    then have "sk s i = i" by (subst sk.simps) (auto split: option.split)
    then show ?thesis by simp
  qed
qed

lemma tok_mid: "\<not> is_sep c \<Longrightarrow> tok (pre @ c # post) (length pre) c = Some (Suc (length pre))"
  by (simp add: tok_def sk_stay Let_def)

lemma digit_not_sep: "is_digit d \<Longrightarrow> \<not> is_sep d"
  by (auto simp: is_sep_def is_space_def is_digit_def)

lemma digits_end_text:
  assumes "no_digit post"
  shows "digits_end (pre @ dec_string n @ post) (length pre) = length pre + length (dec_string n)"
  using run_len_digits [OF all_digits_dec_string, of post pre n] assms by (simp add: digits_end_def no_digit_def)

lemma dec_string_Cons: "\<exists>d ds. dec_string n = d # ds \<and> is_digit d"
  using all_digits_dec_string [of n] by (cases "dec_string n") auto

lemma sk_digits: "sk (pre @ dec_string n @ post) (length pre) = length pre"
  using dec_string_Cons [of n] sk_stay digit_not_sep by force

lemma nat_at_text:
  assumes "no_digit post"
  shows "nat_at (pre @ dec_string n @ post) (length pre) = Some (dnat_of n, length pre + length (dec_string n))"
  using digits_end_text [OF assms, of pre n]
  by (simp add: nat_at_def sk_digits dnat_of_def Let_def)

lemma unum_text:
  assumes "no_digit post"
  shows "unum (pre @ dec_string n @ post) (length pre) = Some (z_from_digits (dec_string n), length pre + length (dec_string n))"
  using digits_end_text [OF assms, of pre n] by (simp add: unum_def Let_def)

lemma z_at_text:
  assumes "no_digit post"
  shows "z_at (pre @ z_text k @ post) (length pre) = Some (z_of_int k, length pre + length (z_text k))"
proof (cases "k < 0")
  case True
  let ?s = "pre @ CHR ''-'' # dec_string (nat (- k)) @ post"
  have "sk ?s (length pre) = length pre" by (rule sk_stay) (simp add: is_sep_def is_space_def)
  moreover have "unum ?s (Suc (length pre)) =
      Some (z_from_digits (dec_string (nat (- k))), Suc (length pre) + length (dec_string (nat (- k))))"
    using unum_text [OF assms, of "pre @ [CHR ''-'']" "nat (- k)"] by simp
  ultimately show ?thesis
    using True by (simp add: z_at_def z_text_def z_of_int_def Let_def)
next
  case False
  obtain d ds where d: "dec_string (nat k) = d # ds" "is_digit d" using dec_string_Cons by blast
  then have "sget (pre @ dec_string (nat k) @ post) (length pre) \<noteq> Some (CHR ''-'')"
    by (auto simp: is_digit_def)
  then show ?thesis
    using False unum_text [OF assms, of pre "nat k"] sk_digits [of pre "nat k" post]
    by (simp add: z_at_def z_text_def z_of_int_def Let_def)
qed

lemma z_text_not_Nil [simp]: "z_text k \<noteq> []"
  by (simp add: z_text_def)

subsection \<open>Written items\<close>

text \<open>
  An item whose text is read back wherever it stands, before anything but a digit; it does not start
  with a separator or the end of a list, and its reader skips separators first.
\<close>

locale written = scanner item "\<lambda>_. True" for item :: "'b scanner" +
  fixes wtext :: "'a \<Rightarrow> bytes" and meant :: "'a \<Rightarrow> 'b"
  assumes reads: "no_digit post \<Longrightarrow> item (pre @ wtext x @ post) (length pre) = Some (meant x, length pre + length (wtext x))"
    and starts: "\<exists>c r. wtext x = c # r \<and> \<not> is_sep c \<and> c \<notin> set ''|}])''"
    and skips: "item s (sk s i) = item s i"
begin

lemma many_end: "\<not> is_sep c \<Longrightarrow> c \<in> set ''|}])'' \<Longrightarrow> many item (pre @ c # post) (length pre) out = Some (out, length pre)"
  by (subst many.simps) (simp add: at_stop_def sk_stay)

lemma many_step:
  assumes "no_digit post"
  shows "many item (pre @ wtext x @ post) (length pre) out =
    many item (pre @ wtext x @ post) (length pre + length (wtext x)) (out @ [meant x])"
proof -
  obtain c r where c: "wtext x = c # r" "\<not> is_sep c" "c \<notin> set ''|}])''" using starts by blast
  have "\<not> at_stop (pre @ wtext x @ post) (length pre)"
    using c by (simp add: at_stop_def sk_stay)
  then show ?thesis
    using reads [OF assms, of pre x] by (subst many.simps) simp
qed

lemma many_blank: "many item (pre @ CHR '' '' # post) (length pre) out = many item (pre @ CHR '' '' # post) (Suc (length pre)) out"
proof -
  let ?s = "pre @ CHR '' '' # post"
  have "item ?s (length pre) = item ?s (Suc (length pre))"
    using skips [of ?s "length pre"] skips [of ?s "Suc (length pre)"] sk_blank [of pre post] by simp
  then show ?thesis
    by (subst (1 2) many.simps) (simp add: at_stop_def sk_blank)
qed

lemma many_text:
  assumes c: "\<not> is_sep c" "c \<in> set ''|}])''"
  shows "many item (pre @ spaced (map wtext xs) @ c # post) (length pre) out =
    Some (out @ map meant xs, length pre + length (spaced (map wtext xs)))"
proof (induction xs arbitrary: pre out rule: induct_list012)
  case (2 x)
  have "no_digit (c # post)" using c by (auto simp: is_digit_def)
  then show ?case
    using many_step [of "c # post" pre x out] many_end [OF c, of "pre @ wtext x" post "out @ [meant x]"] by simp
next
  case (3 x y ys)
  let ?r = "spaced (map wtext (y # ys)) @ c # post"
  have "many item (pre @ wtext x @ CHR '' '' # ?r) (length pre) out =
      many item (pre @ wtext x @ CHR '' '' # ?r) (length pre + length (wtext x)) (out @ [meant x])"
    by (rule many_step) (simp add: is_digit_def)
  also have "\<dots> = many item (pre @ wtext x @ CHR '' '' # ?r) (Suc (length pre + length (wtext x))) (out @ [meant x])"
    using many_blank [of "pre @ wtext x" ?r "out @ [meant x]"] by simp
  also have "\<dots> = Some ((out @ [meant x]) @ map meant (y # ys), Suc (length pre + length (wtext x)) + length (spaced (map wtext (y # ys))))"
    using 3(2) [of "pre @ wtext x @ [CHR '' '']" "out @ [meant x]"] by simp
  finally show ?case by simp
qed (simp add: many_end [OF c])

end

subsection \<open>Multipliers and proofs\<close>

lemma not_sep [simp]:
  "\<not> is_sep (CHR '':'')" "\<not> is_sep (CHR ''('')" "\<not> is_sep (CHR '')'')" "\<not> is_sep (CHR ''['')" "\<not> is_sep (CHR '']'')"
  "\<not> is_sep (CHR ''s'')" "\<not> is_sep (CHR ''b'')" "\<not> is_sep (CHR ''c'')"
  by (simp_all add: is_sep_def is_space_def)

lemma not_digit [simp]:
  "\<not> is_digit (CHR '':'')" "\<not> is_digit (CHR ''('')" "\<not> is_digit (CHR '')'')" "\<not> is_digit (CHR ''['')" "\<not> is_digit (CHR '']'')"
  "\<not> is_digit (CHR '' '')"
  by (simp_all add: is_digit_def)

lemma nat_at_skips: "nat_at s (sk s i) = nat_at s i"
  by (simp add: nat_at_def)

lemma tok_skips: "tok s (sk s i) c = tok s i c"
  by (simp add: tok_def)

lemma digit_starts: "\<exists>c r. dec_string n @ ws = c # r \<and> \<not> is_sep c \<and> c \<notin> set ''|}])''"
proof -
  obtain d ds where d: "dec_string n = d # ds" "is_digit d" using dec_string_Cons by blast
  have "d \<notin> set ''|}])''" using d(2) by (auto simp: is_digit_def)
  then show ?thesis using d digit_not_sep by simp
qed

interpretation written_mults: written mult_at mult_text "\<lambda>(j, k). (dnat_of j, z_of_int k)"
proof (unfold_locales, goal_cases)
  case (1 post pre x)
  obtain j k where x: "x = (j, k)" by (cases x)
  let ?s = "pre @ dec_string j @ CHR '':'' # z_text k @ post"
  have "nat_at ?s (length pre) = Some (dnat_of j, length pre + length (dec_string j))"
    by (rule nat_at_text) simp
  moreover have "tok ?s (length pre + length (dec_string j)) (CHR '':'') = Some (Suc (length pre + length (dec_string j)))"
    using tok_mid [of "CHR '':''" "pre @ dec_string j" "z_text k @ post"] by simp
  moreover have "z_at ?s (Suc (length pre + length (dec_string j))) =
      Some (z_of_int k, Suc (length pre + length (dec_string j)) + length (z_text k))"
    using z_at_text [OF 1, of "pre @ dec_string j @ [CHR '':'']" k] by simp
  ultimately show ?case by (simp add: mult_at_def mult_text_def x)
next
  case (2 x)
  then show ?case using digit_starts [of "fst x"] by (simp add: mult_text_def)
next
  case (3 s i)
  then show ?case by (simp add: mult_at_def nat_at_skips)
qed

lemma pf_at_text:
  assumes "no_digit post"
  shows "pf_at (pre @ pf_text p @ post) (length pre) = Some (z_pf p, length pre + length (pf_text p))"
proof -
  obtain ps mu where p: "p = (ps, mu)" by (cases p)
  let ?m = "spaced (map mult_text ps)"
  let ?s = "pre @ CHR ''('' # ?m @ CHR '')'' # z_text mu @ post"
  have "tok ?s (length pre) (CHR ''('') = Some (Suc (length pre))"
    by (rule tok_mid) simp
  moreover have "many mult_at ?s (Suc (length pre)) [] =
      Some (map (\<lambda>(j, k). (dnat_of j, z_of_int k)) ps, Suc (length pre) + length ?m)"
    using written_mults.many_text [of "CHR '')''" "pre @ [CHR ''('']" ps "z_text mu @ post" "[]"] by simp
  moreover have "tok ?s (Suc (length pre) + length ?m) (CHR '')'') = Some (Suc (Suc (length pre) + length ?m))"
    using tok_mid [of "CHR '')''" "pre @ CHR ''('' # ?m" "z_text mu @ post"] by simp
  moreover have "z_at ?s (Suc (Suc (length pre) + length ?m)) =
      Some (z_of_int mu, Suc (Suc (length pre) + length ?m) + length (z_text mu))"
    using z_at_text [OF assms, of "pre @ CHR ''('' # ?m @ [CHR '')'']" mu] by simp
  ultimately show ?thesis by (simp add: pf_at_def pf_text_def z_pf_def p)
qed

interpretation written_pfs: written pf_at pf_text z_pf
  by unfold_locales (simp add: pf_at_text, simp add: pf_text_def, simp add: pf_at_def tok_skips)

subsection \<open>Forms\<close>

lemma term_at_text:
  assumes "no_digit post"
  shows "term_at (pre @ term_text x @ post) (length pre) =
    Some ((lv (fst x), z_of_int (snd x)), length pre + length (term_text x))"
proof -
  obtain v a where x: "x = (v, a)" by (cases x)
  define d where "d = (case v of VS _ \<Rightarrow> CHR ''s'' | VB _ \<Rightarrow> CHR ''b'' | VC _ \<Rightarrow> CHR ''c'')"
  define n where "n = (case v of VS n \<Rightarrow> n | VB n \<Rightarrow> n | VC n \<Rightarrow> n)"
  have t: "term_text x = d # dec_string n @ CHR '':'' # z_text a"
    by (cases v) (simp_all add: x d_def n_def)
  let ?s = "pre @ d # dec_string n @ CHR '':'' # z_text a @ post"
  have "sk ?s (length pre) = length pre"
    by (rule sk_stay) (simp add: d_def split: pvar.split)
  moreover have "nat_at ?s (Suc (length pre)) = Some (dnat_of n, Suc (length pre) + length (dec_string n))"
    using nat_at_text [of "CHR '':'' # z_text a @ post" "pre @ [d]" n] by simp
  moreover have "tok ?s (Suc (length pre) + length (dec_string n)) (CHR '':'') = Some (Suc (Suc (length pre) + length (dec_string n)))"
    using tok_mid [of "CHR '':''" "pre @ d # dec_string n" "z_text a @ post"] by simp
  moreover have "z_at ?s (Suc (Suc (length pre) + length (dec_string n))) =
      Some (z_of_int a, Suc (Suc (length pre) + length (dec_string n)) + length (z_text a))"
    using z_at_text [OF assms, of "pre @ d # dec_string n @ [CHR '':'']" a] by simp
  ultimately show ?thesis
    by (cases v) (simp_all add: term_at_def t x d_def n_def Let_def)
qed

interpretation written_terms: written term_at term_text "\<lambda>(v, a). (lv v, z_of_int a)"
proof (unfold_locales, goal_cases)
  case (1 post pre x)
  then show ?case using term_at_text by (cases x) simp
next
  case (2 x)
  then show ?case by (cases x rule: term_text.cases) simp_all
next
  case (3 s i)
  then show ?case by (simp add: term_at_def)
qed

lemma lin_at_text:
  assumes "no_digit post"
  shows "lin_at (pre @ form_text l @ post) (length pre) = Some (lform l, length pre + length (form_text l))"
proof -
  let ?m = "spaced (map term_text (f_terms l))"
  let ?s = "pre @ CHR ''['' # ?m @ CHR '']'' # z_text (f_cst l) @ post"
  have "tok ?s (length pre) (CHR ''['') = Some (Suc (length pre))"
    by (rule tok_mid) simp
  moreover have "many term_at ?s (Suc (length pre)) [] = Some (lterms (f_terms l), Suc (length pre) + length ?m)"
    using written_terms.many_text [of "CHR '']''" "pre @ [CHR ''['']" "f_terms l" "z_text (f_cst l) @ post" "[]"]
    by (simp add: lterms_def)
  moreover have "tok ?s (Suc (length pre) + length ?m) (CHR '']'') = Some (Suc (Suc (length pre) + length ?m))"
    using tok_mid [of "CHR '']''" "pre @ CHR ''['' # ?m" "z_text (f_cst l) @ post"] by simp
  moreover have "z_at ?s (Suc (Suc (length pre) + length ?m)) =
      Some (z_of_int (f_cst l), Suc (Suc (length pre) + length ?m) + length (z_text (f_cst l)))"
    using z_at_text [OF assms, of "pre @ CHR ''['' # ?m @ [CHR '']'']" "f_cst l"] by simp
  ultimately show ?thesis by (simp add: lin_at_def form_text_def lform_def)
qed

interpretation written_forms: written lin_at form_text lform
  by unfold_locales (simp add: lin_at_text, simp add: form_text_def, simp add: lin_at_def tok_skips)

end
