(* ===== verification/Lp_Simplex.thy ===== *)
theory Lp_Simplex
  imports Lp_Rational
begin

text \<open>
  The exact simplex of \<open>crates/almide-lin-prove/src/lp.rs\<close>, which looks for Farkas multipliers. A
  computation counts the pivots it takes and ends with a value, with nothing (the \<open>None\<close> of a failed
  search or of an overflow) or in a panic (an index outside its table).
\<close>

datatype 'a lres = LDone 'a | LNone | LPanic

type_synonym 'a lp = "nat \<Rightarrow> 'a lres \<times> nat"

definition lbind :: "'a lp \<Rightarrow> ('a \<Rightarrow> 'b lp) \<Rightarrow> 'b lp" where
  "lbind m f n =
     (case m n of
        (LDone x, k) \<Rightarrow> f x k
      | (LNone, k) \<Rightarrow> (LNone, k)
      | (LPanic, k) \<Rightarrow> (LPanic, k))"

definition lret :: "'a \<Rightarrow> 'a lp" where
  "lret x n = (LDone x, n)"

definition lnone :: "'a lp" where
  "lnone n = (LNone, n)"

definition lpanic :: "'a lp" where
  "lpanic n = (LPanic, n)"

definition lopt :: "'a option \<Rightarrow> 'a lp" where
  "lopt v = (case v of None \<Rightarrow> lnone | Some x \<Rightarrow> lret x)"

definition lidx :: "'a list \<Rightarrow> nat \<Rightarrow> 'a lp" where
  "lidx xs i = (if i < length xs then lret (xs ! i) else lpanic)"

definition lset :: "'a list \<Rightarrow> nat \<Rightarrow> 'a \<Rightarrow> 'a list lp" where
  "lset xs i x = (if i < length xs then lret (xs[i := x]) else lpanic)"

fun lmap :: "('a \<Rightarrow> 'b lp) \<Rightarrow> 'a list \<Rightarrow> 'b list lp" where
  "lmap f [] = lret []"
| "lmap f (x # xs) = lbind (f x) (\<lambda>y. lbind (lmap f xs) (\<lambda>ys. lret (y # ys)))"

fun lfold :: "('a \<Rightarrow> 's \<Rightarrow> 's lp) \<Rightarrow> 'a list \<Rightarrow> 's \<Rightarrow> 's lp" where
  "lfold f [] s = lret s"
| "lfold f (x # xs) s = lbind (f x s) (lfold f xs)"

fun lfind :: "('a \<Rightarrow> bool lp) \<Rightarrow> 'a list \<Rightarrow> 'a option lp" where
  "lfind f [] = lret None"
| "lfind f (x # xs) = lbind (f x) (\<lambda>b. if b then lret (Some x) else lfind f xs)"

subsection \<open>The tableau\<close>

type_synonym row = "q list"
type_synonym mat = "q list list"
type_synonym sparse = "(nat \<times> int) list \<times> int"

definition cell2 :: "mat \<Rightarrow> nat \<Rightarrow> nat \<Rightarrow> q lp" where
  "cell2 t i j = lbind (lidx t i) (\<lambda>row. lidx row j)"

definition add_entry :: "nat \<Rightarrow> nat \<times> int \<Rightarrow> mat \<Rightarrow> mat lp" where
  "add_entry j = (\<lambda>(v, a) t.
     lbind (lidx t v) (\<lambda>row. lbind (lidx row j) (\<lambda>x. lbind (lopt (q_add x (q_int a))) (\<lambda>y.
       lbind (lset row j y) (lset t v)))))"

definition add_fact :: "nat \<times> sparse \<Rightarrow> mat \<Rightarrow> mat lp" where
  "add_fact = (\<lambda>(j, row, b). lfold (add_entry j) row)"

text \<open>The target's coefficients, added by the plain operator.\<close>

definition target_row :: "sparse \<Rightarrow> nat \<Rightarrow> int list lp" where
  "target_row target m =
     lfold (\<lambda>(v, a) c. lbind (lidx c v) (\<lambda>x. lset c v (wrap (x + a)))) (fst target) (replicate m 0)"

definition finish_row :: "nat \<Rightarrow> nat \<Rightarrow> int list \<Rightarrow> nat \<times> row \<Rightarrow> row lp" where
  "finish_row n cols rhs_c = (\<lambda>(i, row).
     lbind (lidx rhs_c i) (\<lambda>c.
       lbind (if q_neg (q_int c)
              then lbind (lmap (\<lambda>x. lopt (q_sub (q_int 0) x)) (take n row)) (\<lambda>neg.
                     lbind (lopt (q_sub (q_int 0) (q_int c))) (\<lambda>r. lret (neg @ drop n row, r)))
              else lret (row, q_int c)) (\<lambda>(row2, rhs).
         lbind (lset row2 (n + i) (q_int 1)) (\<lambda>row3. lset row3 cols rhs))))"

definition tableau :: "sparse list \<Rightarrow> sparse \<Rightarrow> nat \<Rightarrow> nat \<Rightarrow> mat lp" where
  "tableau facts target n m =
     (let cols = n + m
      in lbind (target_row target m) (\<lambda>rhs_c.
           lbind (lfold add_fact (zip [0..<length facts] facts) (replicate m (replicate (cols + 1) (q_int 0)))) (\<lambda>t.
             lmap (finish_row n cols rhs_c) (zip [0..<length t] t))))"

subsection \<open>Pivots\<close>

definition tick :: "unit lp" where
  "tick n = (LDone (), n + 1)"

definition elim_row :: "q \<Rightarrow> row \<Rightarrow> nat \<Rightarrow> row \<Rightarrow> row lp" where
  "elim_row f prow cols =
     lfold (\<lambda>k row. lbind (lidx prow k) (\<lambda>p.
       if q_zero p then lret row
       else lbind (lidx row k) (\<lambda>x. lbind (lopt (q_mul f p)) (\<lambda>y. lbind (lopt (q_sub x y)) (lset row k)))))
     [0..<cols + 1]"

definition pivot_row :: "nat \<Rightarrow> nat \<Rightarrow> row \<Rightarrow> nat \<Rightarrow> nat \<times> row \<Rightarrow> row lp" where
  "pivot_row r c prow cols = (\<lambda>(i, row).
     if i = r then lret row
     else lbind (lidx row c) (\<lambda>f. if q_zero f then lret row else elim_row f prow cols row))"

definition pivot :: "mat \<Rightarrow> nat list \<Rightarrow> nat \<Rightarrow> nat \<Rightarrow> nat \<Rightarrow> (mat \<times> nat list) lp" where
  "pivot t basis r c cols =
     lbind tick (\<lambda>_. lbind (lidx t r) (\<lambda>row. lbind (lidx row c) (\<lambda>p.
       lbind (lmap (\<lambda>x. lopt (q_div x p)) row) (\<lambda>prow.
         let t1 = t[r := prow]
         in lbind (lmap (pivot_row r c prow cols) (zip [0..<length t1] t1)) (\<lambda>t2.
              lbind (lset basis r c) (\<lambda>basis2. lret (t2, basis2)))))))"

text \<open>The reduced cost of a column, and the first column outside the basis whose cost is positive.\<close>

definition reduced_cost :: "mat \<Rightarrow> nat list \<Rightarrow> row \<Rightarrow> nat \<Rightarrow> q lp" where
  "reduced_cost t basis obj j =
     lbind (lidx obj j) (lfold (\<lambda>(i, b) rc.
       lbind (if b < length obj then lidx obj b else lret (q_int 0)) (\<lambda>ob.
         if q_zero ob then lret rc
         else lbind (cell2 t i j) (\<lambda>x.
           if q_zero x then lret rc else lbind (lopt (q_mul ob x)) (\<lambda>y. lopt (q_sub rc y)))))
       (zip [0..<length basis] basis))"

fun first_column :: "mat \<Rightarrow> nat list \<Rightarrow> row \<Rightarrow> nat list \<Rightarrow> (nat \<times> q) option lp" where
  "first_column t basis obj [] = lret None"
| "first_column t basis obj (j # js) =
     (if j \<in> set basis then first_column t basis obj js
      else lbind (reduced_cost t basis obj j) (\<lambda>rc.
             if q_pos rc then lret (Some (j, rc)) else first_column t basis obj js))"

definition entering :: "mat \<Rightarrow> nat list \<Rightarrow> row \<Rightarrow> nat \<Rightarrow> (nat \<times> q) option lp" where
  "entering t basis obj allowed = first_column t basis obj [0..<allowed]"

text \<open>The least ratio, ties to the smaller basic index.\<close>

definition better_row :: "nat list \<Rightarrow> nat \<Rightarrow> q \<Rightarrow> (nat \<times> q) option \<Rightarrow> bool lp" where
  "better_row basis i ratio leave =
     (case leave of
        None \<Rightarrow> lret True
      | Some (li, lr) \<Rightarrow>
          lbind (lopt (q_cmp ratio lr)) (\<lambda>(a, b).
            if a < b then lret True
            else if a = b then lbind (lidx basis i) (\<lambda>x. lbind (lidx basis li) (\<lambda>y. lret (x < y)))
            else lret False))"

definition leaving :: "mat \<Rightarrow> nat list \<Rightarrow> nat \<Rightarrow> nat \<Rightarrow> nat option lp" where
  "leaving t basis e width =
     lbind (lfold (\<lambda>(i, row) leave.
       lbind (lidx row e) (\<lambda>x.
         if q_pos x
         then lbind (lidx row width) (\<lambda>y. lbind (lopt (q_div y x)) (\<lambda>ratio.
                lbind (better_row basis i ratio leave) (\<lambda>better.
                  lret (if better then Some (i, ratio) else leave))))
         else lret leave)) (zip [0..<length t] t) None) (\<lambda>leave. lret (map_option fst leave))"

definition unbounded_ray ::
    "mat \<Rightarrow> nat list \<Rightarrow> row \<Rightarrow> nat \<Rightarrow> q \<Rightarrow> nat \<Rightarrow> q option \<Rightarrow> (nat \<times> row \<times> q) lp" where
  "unbounded_ray t basis obj e rc width goal =
     lbind (lfold (\<lambda>(i, b) cur.
       if b < length obj
       then lbind (lidx obj b) (\<lambda>ob. lbind (cell2 t i width) (\<lambda>x. lbind (lopt (q_mul ob x)) (\<lambda>y. lopt (q_add cur y))))
       else lret cur) (zip [0..<length basis] basis) (q_int 0)) (\<lambda>cur.
     lbind (lopt (q_sub (case goal of Some g \<Rightarrow> g | None \<Rightarrow> cur) cur)) (\<lambda>gap.
       lbind (if q_pos gap then lbind (lopt (q_div gap rc)) (\<lambda>s. lopt (q_add s (q_int 1))) else lret (q_int 1)) (\<lambda>steps.
         lbind (lmap (\<lambda>row. lidx row e) t) (\<lambda>dir. lret (e, dir, steps)))))"

text \<open>The loop runs at most 10000 times.\<close>

fun simplex_loop ::
    "nat \<Rightarrow> mat \<Rightarrow> nat list \<Rightarrow> row \<Rightarrow> nat \<Rightarrow> nat \<Rightarrow> q option \<Rightarrow> ((nat \<times> row \<times> q) option \<times> mat \<times> nat list) lp" where
  "simplex_loop 0 t basis obj allowed width goal = lnone"
| "simplex_loop (Suc k) t basis obj allowed width goal =
     lbind (entering t basis obj allowed) (\<lambda>en.
       case en of
         None \<Rightarrow> lret (None, t, basis)
       | Some (e, rc) \<Rightarrow>
           lbind (leaving t basis e width) (\<lambda>lv.
             case lv of
               Some r \<Rightarrow> lbind (pivot t basis r e width) (\<lambda>(t2, b2). simplex_loop k t2 b2 obj allowed width goal)
             | None \<Rightarrow> lbind (unbounded_ray t basis obj e rc width goal) (\<lambda>ray. lret (Some ray, t, basis))))"

definition simplex ::
    "mat \<Rightarrow> nat list \<Rightarrow> row \<Rightarrow> nat \<Rightarrow> q option \<Rightarrow> ((nat \<times> row \<times> q) option \<times> mat \<times> nat list) lp" where
  "simplex t basis obj allowed goal =
     (let len = (case t of [] \<Rightarrow> length obj + 1 | row # _ \<Rightarrow> length row)
      in if len = 0 then lpanic else simplex_loop 10000 t basis obj allowed (len - 1) goal)"

subsection \<open>The search\<close>

definition basic_left :: "mat \<Rightarrow> nat list \<Rightarrow> nat \<Rightarrow> nat \<Rightarrow> bool lp" where
  "basic_left t basis n cols =
     lbind (lfind (\<lambda>(i, b). if n \<le> b then lbind (cell2 t i cols) (\<lambda>x. lret (\<not> q_zero x)) else lret False)
       (zip [0..<length basis] basis)) (\<lambda>o1. lret (o1 \<noteq> None))"

definition drive_out :: "nat \<Rightarrow> nat \<Rightarrow> nat \<Rightarrow> mat \<times> nat list \<Rightarrow> (mat \<times> nat list) lp" where
  "drive_out n cols i = (\<lambda>(t, basis).
     lbind (lfind (\<lambda>j. lbind (cell2 t i j) (\<lambda>x. lret (\<not> q_zero x))) [0..<n]) (\<lambda>free.
       lbind (lidx basis i) (\<lambda>b.
         case free of
           Some j \<Rightarrow> if n \<le> b then pivot t basis i j cols else lret (t, basis)
         | None \<Rightarrow> lret (t, basis))))"

definition phase1 :: "mat \<Rightarrow> nat list \<Rightarrow> nat \<Rightarrow> nat \<Rightarrow> (mat \<times> nat list) lp" where
  "phase1 t basis n cols =
     lbind (simplex t basis (map (\<lambda>j. if n \<le> j then q_int (- 1) else q_int 0) [0..<cols]) cols None) (\<lambda>(_, t1, b1).
       lbind (basic_left t1 b1 n cols) (\<lambda>bad.
         if bad then lnone else lfold (drive_out n cols) [0..<length b1] (t1, b1)))"

definition multipliers :: "mat \<Rightarrow> nat list \<Rightarrow> nat \<Rightarrow> nat \<Rightarrow> (nat \<times> row \<times> q) option \<Rightarrow> row lp" where
  "multipliers t basis n cols ray =
     lbind (lfold (\<lambda>(i, b) lam. if b < n then lbind (cell2 t i cols) (lset lam b) else lret lam)
       (zip [0..<length basis] basis) (replicate n (q_int 0))) (\<lambda>lam.
     case ray of
       None \<Rightarrow> lret lam
     | Some (e, dir, tt) \<Rightarrow>
         lbind (lidx lam e) (\<lambda>x. lbind (lopt (q_add x tt)) (\<lambda>y. lbind (lset lam e y)
           (lfold (\<lambda>(i, b) lam. if b < n
              then lbind (lidx lam b) (\<lambda>x. lbind (lidx dir i) (\<lambda>d. lbind (lopt (q_mul d tt)) (\<lambda>y.
                     lbind (lopt (q_sub x y)) (lset lam b))))
              else lret lam) (zip [0..<length basis] basis)))))"

definition common_scale :: "row \<Rightarrow> int lp" where
  "common_scale lam =
     lfold (\<lambda>l mu. lopt (chk_mul mu (q_den l sdiv max (q_gcd mu (q_den l)) 1))) (filter (\<lambda>l. \<not> q_zero l) lam) 1"

definition integer_multipliers :: "row \<Rightarrow> ((nat \<times> int) list \<times> int) lp" where
  "integer_multipliers lam =
     lbind (common_scale lam) (\<lambda>mu.
       lbind (lfold (\<lambda>(j, l) out.
         if q_neg l then lnone
         else if q_zero l then lret out
         else lbind (lopt (chk_mul (q_num l) (mu sdiv q_den l))) (\<lambda>k. lret (out @ [(j, k)])))
         (zip [0..<length lam] lam) []) (\<lambda>out. lret (out, mu)))"

definition reached_value :: "sparse list \<Rightarrow> row \<Rightarrow> q lp" where
  "reached_value facts lam =
     lfold (\<lambda>(j, _, b) val. lbind (lidx lam j) (\<lambda>l. lbind (lopt (q_mul l (q_int b))) (\<lambda>y. lopt (q_add val y))))
       (zip [0..<length facts] facts) (q_int 0)"

definition farkas :: "sparse list \<Rightarrow> sparse \<Rightarrow> nat \<Rightarrow> ((nat \<times> int) list \<times> int) lp" where
  "farkas facts target nvars =
     (let n = length facts; m = nvars; cols = n + m; goal = q_int (snd target)
      in lbind (tableau facts target n m) (\<lambda>t.
           lbind (phase1 t [n..<n + m] n cols) (\<lambda>(t1, b1).
             lbind (simplex t1 b1 (map (q_int \<circ> snd) facts @ replicate m (q_int 0)) n (Some goal)) (\<lambda>(ray, t2, b2).
               lbind (multipliers t2 b2 n cols ray) (\<lambda>lam.
                 lbind (reached_value facts lam) (\<lambda>val.
                   lbind (lopt (q_cmp val goal)) (\<lambda>(a, b).
                     if a < b then lnone else integer_multipliers lam)))))))"

end
