(* ===== verification/Lp_Rules.thy ===== *)
theory Lp_Rules
  imports Lp_Simplex
begin

text \<open>
  Rules for the computations of the simplex: what holds of the value, when there is one, of a
  computation that does not panic; and what each table operation does to the entries.
\<close>

definition lwp :: "'a lp \<Rightarrow> ('a \<Rightarrow> bool) \<Rightarrow> bool" where
  "lwp m P \<longleftrightarrow> (\<forall>n. case fst (m n) of LPanic \<Rightarrow> False | LNone \<Rightarrow> True | LDone x \<Rightarrow> P x)"

named_theorems lwps

lemma lwp_bind [lwps]: "lwp m (\<lambda>x. lwp (f x) P) \<Longrightarrow> lwp (lbind m f) P"
  unfolding lwp_def lbind_def
  by (auto split: lres.splits prod.splits) (metis fst_conv lres.simps)+

lemma lwp_ret [lwps]: "P x \<Longrightarrow> lwp (lret x) P"
  by (simp add: lwp_def lret_def)

lemma lwp_none [lwps]: "lwp lnone P"
  by (simp add: lwp_def lnone_def)

lemma lwp_opt: "(\<And>x. v = Some x \<Longrightarrow> P x) \<Longrightarrow> lwp (lopt v) P"
  by (cases v) (simp_all add: lopt_def lwp_ret lwp_none)

lemma lwp_q:
  assumes "q_ok x" and "q_ok y"
  shows "(\<And>z. q_ok z \<Longrightarrow> qval z = qval x + qval y \<Longrightarrow> P z) \<Longrightarrow> lwp (lopt (q_add x y)) P"
    and "(\<And>z. q_ok z \<Longrightarrow> qval z = qval x - qval y \<Longrightarrow> P z) \<Longrightarrow> lwp (lopt (q_sub x y)) P"
    and "(\<And>z. q_ok z \<Longrightarrow> qval z = qval x * qval y \<Longrightarrow> P z) \<Longrightarrow> lwp (lopt (q_mul x y)) P"
    and "(\<And>z. q_ok z \<Longrightarrow> qval y \<noteq> 0 \<Longrightarrow> qval z = qval x / qval y \<Longrightarrow> P z) \<Longrightarrow> lwp (lopt (q_div x y)) P"
  using q_add_val [OF _ assms] q_sub_val [OF _ assms] q_mul_val [OF _ assms] q_div_val [OF _ assms] q_signs(1) [OF assms(2)]
  by (auto intro!: lwp_opt simp: q_zero_def)

lemma lwp_idx [lwps]: "i < length xs \<Longrightarrow> P (xs ! i) \<Longrightarrow> lwp (lidx xs i) P"
  by (simp add: lidx_def lwp_ret)

lemma lwp_set [lwps]: "i < length xs \<Longrightarrow> P (xs[i := x]) \<Longrightarrow> lwp (lset xs i x) P"
  by (simp add: lset_def lwp_ret)

lemma lwp_tick [lwps]: "P () \<Longrightarrow> lwp tick P"
  by (simp add: lwp_def tick_def)

lemma lwp_if [lwps]: "(b \<Longrightarrow> lwp m P) \<Longrightarrow> (\<not> b \<Longrightarrow> lwp k P) \<Longrightarrow> lwp (if b then m else k) P"
  by simp

lemma lwp_prod: "(\<And>a b. x = (a, b) \<Longrightarrow> lwp (f a b) P) \<Longrightarrow> lwp (case x of (a, b) \<Rightarrow> f a b) P"
  by (cases x) simp

lemma lwp_mono: "lwp m P \<Longrightarrow> (\<And>x. P x \<Longrightarrow> Q x) \<Longrightarrow> lwp m Q"
  by (auto simp: lwp_def split: lres.splits)

lemma lwp_conj: "lwp m P \<Longrightarrow> lwp m Q \<Longrightarrow> lwp m (\<lambda>x. P x \<and> Q x)"
  by (auto simp: lwp_def split: lres.splits)

lemma lwp_map:
  "(\<And>x. x \<in> set xs \<Longrightarrow> lwp (f x) (Q x)) \<Longrightarrow> lwp (lmap f xs) (list_all2 Q xs)"
proof (induction xs)
  case (Cons x xs)
  show ?case
    by (simp, intro lwps lwp_mono [OF Cons.prems(1)] lwp_mono [OF Cons.IH]) (use Cons.prems in auto)
qed (simp add: lwp_ret)

lemma lwp_map_nth:
  assumes "\<And>i. i < length xs \<Longrightarrow> lwp (f (xs ! i)) (Q i)"
  shows "lwp (lmap f xs) (\<lambda>ys. length ys = length xs \<and> (\<forall>i < length xs. Q i (ys ! i)))"
  using assms
proof (induction xs arbitrary: Q)
  case (Cons x xs)
  have "lwp (lmap f xs) (\<lambda>ys. length ys = length xs \<and> (\<forall>i < length xs. Q (Suc i) (ys ! i)))"
    using Cons.prems [of "Suc _"] by (intro Cons.IH) simp
  moreover have "lwp (f x) (Q 0)"
    using Cons.prems [of 0] by simp
  ultimately show ?case
    by (simp, intro lwps) (auto elim!: lwp_mono intro!: lwps simp: nth_Cons split: nat.split)
qed (simp add: lwp_ret)

lemma lwp_fold:
  assumes "I 0 s" and "\<And>k s. k < length xs \<Longrightarrow> I k s \<Longrightarrow> lwp (f (xs ! k) s) (I (Suc k))"
  shows "lwp (lfold f xs s) (I (length xs))"
  using assms
proof (induction xs arbitrary: I s)
  case (Cons x xs)
  have "lwp (f x s) (I (Suc 0))"
    using Cons.prems(2) [of 0 s] Cons.prems(1) by simp
  moreover have "lwp (lfold f xs s1) (I (Suc (length xs)))" if "I (Suc 0) s1" for s1
    using that Cons.prems(2) [of "Suc _"] by (intro Cons.IH [of "\<lambda>k. I (Suc k)"]) simp_all
  ultimately show ?case
    by (simp, intro lwps) (auto elim: lwp_mono)
qed (simp add: lwp_ret)

text \<open>A loop over the positions below \<open>n\<close>.\<close>

lemma lwp_fold_upt:
  assumes "I 0 s" and "\<And>k s. k < n \<Longrightarrow> I k s \<Longrightarrow> lwp (f k s) (I (Suc k))"
  shows "lwp (lfold f [0..<n] s) (I n)"
  using lwp_fold [of I s "[0..<n]" f] assms by simp

lemma lwp_fold_zip:
  assumes "I 0 s" and "\<And>k s. k < length xs \<Longrightarrow> I k s \<Longrightarrow> lwp (f (k, xs ! k) s) (I (Suc k))"
  shows "lwp (lfold f (zip [0..<length xs] xs) s) (I (length xs))"
  using lwp_fold [of I s "zip [0..<length xs] xs" f] assms by simp

lemma lwp_find:
  assumes "\<And>x. x \<in> set xs \<Longrightarrow> lwp (f x) (\<lambda>b. b = Q x)"
  shows "lwp (lfind f xs) (\<lambda>o1. o1 = find Q xs)"
  using assms
proof (induction xs)
  case (Cons x xs)
  have "lwp (lfind f xs) (\<lambda>o1. o1 = find Q xs)"
    using Cons by simp
  then have "lwp (if b then lret (Some x) else lfind f xs) (\<lambda>o1. o1 = find Q (x # xs))" if "b = Q x" for b
    using that by (auto intro!: lwp_ret)
  then show ?case
    unfolding lfind.simps using Cons.prems [of x] by (intro lwp_bind) (auto elim: lwp_mono)
qed (simp add: lwp_ret)

subsection \<open>Tables\<close>

definition row_ok :: "nat \<Rightarrow> row \<Rightarrow> bool" where
  "row_ok c row \<longleftrightarrow> length row = c \<and> (\<forall>x \<in> set row. q_ok x)"

definition mat_ok :: "nat \<Rightarrow> nat \<Rightarrow> mat \<Rightarrow> bool" where
  "mat_ok m c t \<longleftrightarrow> length t = m \<and> (\<forall>row \<in> set t. row_ok c row)"

definition entry :: "mat \<Rightarrow> nat \<Rightarrow> nat \<Rightarrow> rat" where
  "entry t i j = qval (t ! i ! j)"

lemma row_okD: "row_ok c row \<Longrightarrow> k < c \<Longrightarrow> q_ok (row ! k)" "row_ok c row \<Longrightarrow> length row = c"
  by (auto simp: row_ok_def)

lemma mat_okD: "mat_ok m c t \<Longrightarrow> i < m \<Longrightarrow> row_ok c (t ! i)" "mat_ok m c t \<Longrightarrow> length t = m"
  by (auto simp: mat_ok_def)

lemma row_ok_upd: "row_ok c row \<Longrightarrow> q_ok x \<Longrightarrow> row_ok c (row[k := x])"
  by (auto simp: row_ok_def dest: set_update_subset_insert [THEN subsetD])

lemma mat_ok_nth: "length t = m \<Longrightarrow> (\<And>i. i < m \<Longrightarrow> row_ok c (t ! i)) \<Longrightarrow> mat_ok m c t"
  by (auto simp: mat_ok_def in_set_conv_nth)

lemma mat_ok_upd: "mat_ok m c t \<Longrightarrow> row_ok c row \<Longrightarrow> mat_ok m c (t[k := row])"
  by (auto simp: mat_ok_def dest: set_update_subset_insert [THEN subsetD])

lemma lwp_cell2:
  assumes "mat_ok m c t" and "i < m" and "j < c" and "q_ok (t ! i ! j) \<Longrightarrow> P (t ! i ! j)"
  shows "lwp (cell2 t i j) P"
proof -
  have "i < length t" and "j < length (t ! i)" and "q_ok (t ! i ! j)"
    using assms(2,3) mat_okD [OF assms(1)] row_okD [of c "t ! i"] by simp_all
  then show ?thesis
    unfolding cell2_def using assms(4) by (intro lwps)
qed

subsection \<open>Pivots\<close>

lemma lwp_div_row:
  assumes "row_ok c row" and "q_ok p"
  shows "lwp (lmap (\<lambda>x. lopt (q_div x p)) row)
    (\<lambda>prow. row_ok c prow \<and> (\<forall>k < c. qval (prow ! k) = qval (row ! k) / qval p) \<and> (0 < c \<longrightarrow> qval p \<noteq> 0))"
proof -
  have "lwp (lopt (q_div (row ! k) p)) (\<lambda>y. q_ok y \<and> qval y = qval (row ! k) / qval p \<and> qval p \<noteq> 0)"
    if "k < length row" for k
    using that row_okD [OF assms(1)] by (intro lwp_q(4) [OF _ assms(2)]) simp_all
  then show ?thesis
    by (rule lwp_mono [OF lwp_map_nth])
      (use assms row_okD [OF assms(1)] in \<open>auto simp: row_ok_def in_set_conv_nth\<close>)
qed

lemma lwp_elim_row:
  assumes row: "row_ok (cols + 1) row" and prow: "row_ok (cols + 1) prow" and f: "q_ok f"
  shows "lwp (elim_row f prow cols row)
    (\<lambda>row2. row_ok (cols + 1) row2 \<and> (\<forall>k \<le> cols. qval (row2 ! k) = qval (row ! k) - qval f * qval (prow ! k)))"
proof -
  let ?I = "\<lambda>k row2. row_ok (cols + 1) row2 \<and>
    (\<forall>j \<le> cols. qval (row2 ! j) = (if j < k then qval (row ! j) - qval f * qval (prow ! j) else qval (row ! j)))"
  have "lwp (elim_row f prow cols row) (?I (cols + 1))"
    unfolding elim_row_def
  proof (rule lwp_fold_upt [where I = ?I])
    fix k row2
    assume k: "k < cols + 1" and I: "?I k row2"
    have p: "q_ok (prow ! k)" and x: "q_ok (row2 ! k)" and len: "length prow = cols + 1" "length row2 = cols + 1"
      using k I prow row_okD by blast+
    show "lwp (lbind (lidx prow k) (\<lambda>p. if q_zero p then lret row2
        else lbind (lidx row2 k) (\<lambda>x. lbind (lopt (q_mul f p)) (\<lambda>y. lbind (lopt (q_sub x y)) (lset row2 k))))) (?I (Suc k))"
    proof (rule lwp_bind [OF lwp_idx], goal_cases)
      case 2
      show ?case
      proof (rule lwp_if)
        assume "q_zero (prow ! k)"
        then show "lwp (lret row2) (?I (Suc k))"
          using I q_signs(1) [OF p] by (auto simp: less_Suc_eq intro!: lwp_ret)
      next
        have "?I (Suc k) (row2[k := z])" if "q_ok z" "qval z = qval (row2 ! k) - qval f * qval (prow ! k)" for z
          using that I k len by (auto simp: row_ok_upd nth_list_update less_Suc_eq)
        then show "lwp (lbind (lidx row2 k) (\<lambda>x. lbind (lopt (q_mul f (prow ! k))) (\<lambda>y. lbind (lopt (q_sub x y)) (lset row2 k)))) (?I (Suc k))"
          using k len by (intro lwps lwp_q(3) [OF f p] lwp_q(2) [OF x]) simp_all
      qed
    qed (use k len in simp)
  qed (use row in simp)
  then show ?thesis
    by (rule lwp_mono) auto
qed

end
