(* ===== verification/Lp_Pivot.thy ===== *)
theory Lp_Pivot
  imports Lp_Rules
begin

text \<open>
  What a pivot does to a table: it divides the pivot's row, clears the pivot's column in the others, keeps
  the basis columns unit columns, and every solution of the new table is one of the old.
\<close>

definition pivoted :: "nat \<Rightarrow> nat \<Rightarrow> mat \<Rightarrow> nat \<Rightarrow> nat \<Rightarrow> mat \<Rightarrow> bool" where
  "pivoted m cols t r c t2 \<longleftrightarrow>
     mat_ok m (cols + 1) t2 \<and> r < m \<and> c < cols \<and> entry t r c \<noteq> 0 \<and>
     (\<forall>k \<le> cols. entry t2 r k = entry t r k / entry t r c) \<and>
     (\<forall>i < m. i \<noteq> r \<longrightarrow> (\<forall>k \<le> cols. entry t2 i k = entry t i k - entry t i c * entry t2 r k))"

lemma pivoted_mat: "pivoted m cols t r c t2 \<Longrightarrow> mat_ok m (cols + 1) t2"
  unfolding pivoted_def by (rule conjunct1)

definition sol :: "nat \<Rightarrow> nat \<Rightarrow> mat \<Rightarrow> (nat \<Rightarrow> rat) \<Rightarrow> bool" where
  "sol m cols t x \<longleftrightarrow> (\<forall>i < m. (\<Sum>j < cols. entry t i j * x j) = entry t i cols)"

definition canon :: "nat \<Rightarrow> nat \<Rightarrow> mat \<Rightarrow> nat list \<Rightarrow> bool" where
  "canon m cols t basis \<longleftrightarrow>
     length basis = m \<and>
     (\<forall>i < m. basis ! i < cols \<and> (\<forall>k < m. entry t k (basis ! i) = (if k = i then 1 else 0)))"

lemma canonD:
  assumes "canon m cols t basis" and "i < m"
  shows "basis ! i < cols" "k < m \<Longrightarrow> entry t k (basis ! i) = (if k = i then 1 else 0)"
  using assms by (simp_all add: canon_def)

lemma canon_inj: "canon m cols t basis \<Longrightarrow> i < m \<Longrightarrow> k < m \<Longrightarrow> basis ! i = basis ! k \<longleftrightarrow> i = k"
  using canonD(2) [of m cols t basis i i] canonD(2) [of m cols t basis k i] by (auto split: if_splits)

lemma pivoted_sol:
  assumes pv: "pivoted m cols t r c t2" and s: "sol m cols t2 x"
  shows "sol m cols t x"
  unfolding sol_def
proof (intro allI impI)
  fix i
  assume i: "i < m"
  let ?p = "entry t r c"
  have p: "?p \<noteq> 0" and r: "r < m"
    and er: "\<And>k. k \<le> cols \<Longrightarrow> entry t r k = ?p * entry t2 r k"
    and eo: "\<And>k. i \<noteq> r \<Longrightarrow> k \<le> cols \<Longrightarrow> entry t i k = entry t2 i k + entry t i c * entry t2 r k"
    using pv i by (simp_all add: pivoted_def)
  have row: "\<And>l. l < m \<Longrightarrow> (\<Sum>j < cols. entry t2 l j * x j) = entry t2 l cols"
    using s by (simp add: sol_def)
  show "(\<Sum>j < cols. entry t i j * x j) = entry t i cols"
  proof (cases "i = r")
    case True
    have "(\<Sum>j < cols. entry t r j * x j) = (\<Sum>j < cols. ?p * (entry t2 r j * x j))"
      by (intro sum.cong) (simp_all add: er)
    also have "\<dots> = ?p * entry t2 r cols"
      using row [OF r] by (simp add: sum_distrib_left [symmetric])
    finally show ?thesis using True er [of cols] by simp
  next
    case False
    have "(\<Sum>j < cols. entry t i j * x j) = (\<Sum>j < cols. entry t2 i j * x j + entry t i c * (entry t2 r j * x j))"
      by (intro sum.cong) (simp_all add: eo [OF False] algebra_simps)
    also have "\<dots> = entry t2 i cols + entry t i c * entry t2 r cols"
      using row [OF r] row [OF i] by (simp add: sum.distrib sum_distrib_left [symmetric])
    finally show ?thesis using eo [OF False, of cols] by simp
  qed
qed

lemma pivoted_canon:
  assumes pv: "pivoted m cols t r c t2" and cn: "canon m cols t basis"
  shows "canon m cols t2 (basis[r := c])"
  unfolding canon_def
proof (intro conjI allI impI)
  have len: "length basis = m" and rc: "r < m" "c < cols" and p: "entry t r c \<noteq> 0"
    and er: "\<And>k. k \<le> cols \<Longrightarrow> entry t2 r k = entry t r k / entry t r c"
    and eo: "\<And>i k. i < m \<Longrightarrow> i \<noteq> r \<Longrightarrow> k \<le> cols \<Longrightarrow> entry t2 i k = entry t i k - entry t i c * entry t2 r k"
    using pv cn by (simp_all add: pivoted_def canon_def)
  show "length (basis[r := c]) = m" using len by simp
  fix i
  assume i: "i < m"
  show "basis[r := c] ! i < cols"
    using i len rc canonD(1) [OF cn i] by (simp add: nth_list_update)
  fix k
  assume k: "k < m"
  show "entry t2 k (basis[r := c] ! i) = (if k = i then 1 else 0)"
  proof (cases "i = r")
    case True
    then show ?thesis
      using len rc p er [of c] eo [OF k, of c] by (cases "k = r") simp_all
  next
    case False
    let ?b = "basis ! i"
    have b: "?b \<le> cols" and "entry t r ?b = 0" and "entry t k ?b = (if k = i then 1 else 0)"
      using canonD [OF cn i] False rc k by simp_all
    then show ?thesis
      using False rc er [OF b] eo [OF k _ b] by (cases "k = r") simp_all
  qed
qed

text \<open>A row whose entry in the pivot's column is zero stays as it is.\<close>

lemma pivoted_row: "pivoted m cols t r c t2 \<Longrightarrow> i < m \<Longrightarrow> i \<noteq> r \<Longrightarrow> entry t i c = 0 \<Longrightarrow> k \<le> cols \<Longrightarrow> entry t2 i k = entry t i k"
  by (simp add: pivoted_def)

lemma lwp_pivot_row:
  assumes t: "mat_ok m (cols + 1) t" and prow: "row_ok (cols + 1) prow" and i: "i < m" and c: "c < cols"
  shows "lwp (pivot_row r c prow cols (i, t ! i))
    (\<lambda>row. row_ok (cols + 1) row \<and>
      (\<forall>k \<le> cols. qval (row ! k) = (if i = r then entry t i k else entry t i k - entry t i c * qval (prow ! k))))"
proof -
  have row: "row_ok (cols + 1) (t ! i)" and f: "q_ok (t ! i ! c)" and len: "c < length (t ! i)"
    using mat_okD(1) [OF t i] c by (simp_all add: row_okD)
  show ?thesis
    unfolding pivot_row_def entry_def prod.case
    by (intro lwps lwp_mono [OF lwp_elim_row [OF row prow f]] len) (use row q_signs(1) [OF f] in simp_all)
qed

lemma lwp_pivot [lwps]:
  assumes t: "mat_ok m (cols + 1) t" and basis: "length basis = m" and rc: "r < m" "c < cols"
    and P: "\<And>t2. pivoted m cols t r c t2 \<Longrightarrow> P (t2, basis[r := c])"
  shows "lwp (pivot t basis r c cols) P"
proof -
  let ?ok = "\<lambda>prow. row_ok (cols + 1) prow \<and> (\<forall>k < cols + 1. qval (prow ! k) = entry t r k / entry t r c) \<and> entry t r c \<noteq> 0"
  have row: "row_ok (cols + 1) (t ! r)" and f: "q_ok (t ! r ! c)" and len: "r < length t" "c < length (t ! r)"
    using mat_okD [OF t] rc row_okD [OF mat_okD(1) [OF t rc(1)]] by simp_all
  have div: "lwp (lmap (\<lambda>x. lopt (q_div x (t ! r ! c))) (t ! r)) ?ok"
    using lwp_div_row [OF row f] by (simp add: entry_def)
  have elim: "lwp (lmap (pivot_row r c prow cols) (zip [0..<length (t[r := prow])] (t[r := prow])))
      (\<lambda>t2. pivoted m cols t r c t2)" if ok: "?ok prow" for prow
  proof -
    let ?t = "t[r := prow]"
    have t1: "mat_ok m (cols + 1) ?t" using t ok by (simp add: mat_ok_upd)
    have e: "entry ?t i k = (if i = r then qval (prow ! k) else entry t i k)" if "i < m" for i k
      using that rc len by (simp add: entry_def)
    let ?Q = "\<lambda>i row. row_ok (cols + 1) row \<and>
      (\<forall>k \<le> cols. qval (row ! k) = (if i = r then entry ?t i k else entry ?t i k - entry ?t i c * qval (prow ! k)))"
    have "lwp (lmap (pivot_row r c prow cols) (zip [0..<length ?t] ?t))
        (\<lambda>t2. length t2 = length (zip [0..<length ?t] ?t) \<and> (\<forall>i < length (zip [0..<length ?t] ?t). ?Q i (t2 ! i)))"
      using lwp_pivot_row [OF t1 _ _ rc(2)] ok mat_okD(2) [OF t] by (intro lwp_map_nth) auto
    then show ?thesis
    proof (rule lwp_mono)
      fix t2
      assume "length t2 = length (zip [0..<length ?t] ?t) \<and> (\<forall>i < length (zip [0..<length ?t] ?t). ?Q i (t2 ! i))"
      then have l: "length t2 = m" and q: "\<And>i. i < m \<Longrightarrow> ?Q i (t2 ! i)"
        using mat_okD(2) [OF t] by simp_all
      have "entry t2 i k = (if i = r then qval (prow ! k) else entry t i k - entry t i c * qval (prow ! k))"
        if "i < m" "k \<le> cols" for i k
        using q [OF that(1)] e [OF that(1)] that(2) by (cases "i = r") (simp_all add: entry_def [of t2])
      then show "pivoted m cols t r c t2"
        unfolding pivoted_def using l q ok rc by (auto intro!: mat_ok_nth)
    qed
  qed
  show ?thesis
    unfolding pivot_def Let_def
    by (intro lwps lwp_mono [OF div] lwp_mono [OF elim] len) (use rc basis P in simp_all)
qed

end
