(* ===== verification/Lp_Search.thy ===== *)
theory Lp_Search
  imports Lp_Pivot
begin

text \<open>
  The simplex loop keeps its table in canonical form for its basis, never leaves the solutions of the
  table it was given, and indexes nothing outside its tables.
\<close>

subsection \<open>Choosing a column and a row\<close>

lemma canon_length: "canon m cols t basis \<Longrightarrow> length basis = m"
  unfolding canon_def by (rule conjunct1)

lemma lwp_reduced_cost:
  assumes t: "mat_ok m (cols + 1) t" and b: "canon m cols t basis" and obj: "row_ok cols obj" and j: "j < cols"
  shows "lwp (reduced_cost t basis obj j) q_ok"
proof -
  have step: "lwp (case (i, basis ! i) of (i, b) \<Rightarrow>
      lbind (if b < length obj then lidx obj b else lret (q_int 0)) (\<lambda>ob.
         if q_zero ob then lret rc
         else lbind (cell2 t i j) (\<lambda>x.
           if q_zero x then lret rc else lbind (lopt (q_mul ob x)) (\<lambda>y. lopt (q_sub rc y))))) q_ok"
    if i: "i < length basis" and rc: "q_ok rc" for i rc
  proof -
    have im: "i < m" and bi: "basis ! i < cols" and l: "length obj = cols"
      using i canon_length [OF b] canonD(1) [OF b] obj by (simp_all add: row_ok_def)
    have "q_ok (obj ! (basis ! i))"
      using row_okD(1) [OF obj bi] .
    then show ?thesis
      unfolding prod.case using im bi l rc j by (intro lwps lwp_cell2 [OF t] lwp_q) simp_all
  qed
  show ?thesis
    unfolding reduced_cost_def
    using step row_okD [OF obj] j by (intro lwps lwp_fold_zip [where I = "\<lambda>_. q_ok"]) simp_all
qed

lemma lwp_first_column:
  assumes t: "mat_ok m (cols + 1) t" and b: "canon m cols t basis" and obj: "row_ok cols obj" and js: "\<forall>j \<in> set js. j < cols"
  shows "lwp (first_column t basis obj js) (\<lambda>en. \<forall>e rc. en = Some (e, rc) \<longrightarrow> e \<in> set js \<and> q_ok rc)"
  using js
proof (induction js)
  case (Cons j js)
  have rc: "lwp (reduced_cost t basis obj j) q_ok"
    using Cons.prems by (intro lwp_reduced_cost [OF t b obj]) simp
  show ?case
    unfolding first_column.simps
    by (intro lwps lwp_mono [OF rc] lwp_mono [OF Cons.IH]) (use Cons.prems in auto)
qed (simp add: lwp_ret)

lemma lwp_entering [lwps]:
  assumes "mat_ok m (cols + 1) t" and "canon m cols t basis" and "row_ok cols obj" and "allowed \<le> cols"
    and "P None" and "\<And>e rc. e < allowed \<Longrightarrow> q_ok rc \<Longrightarrow> P (Some (e, rc))"
  shows "lwp (entering t basis obj allowed) P"
proof -
  have "lwp (first_column t basis obj [0..<allowed]) (\<lambda>en. \<forall>e rc. en = Some (e, rc) \<longrightarrow> e \<in> set [0..<allowed] \<and> q_ok rc)"
    using assms(4) by (intro lwp_first_column [OF assms(1-3)]) simp
  then show ?thesis
    unfolding entering_def using assms(5,6) by (elim lwp_mono) (metis atLeastLessThan_iff option.exhaust set_upt surj_pair)
qed

lemma lwp_better_row:
  assumes b: "length basis = m" and i: "i < m" and l: "\<forall>li lr. leave = Some (li, lr) \<longrightarrow> li < m"
  shows "lwp (better_row basis i ratio leave) (\<lambda>_. True)"
  unfolding better_row_def
  by (cases leave) (use assms in \<open>auto intro!: lwps lwp_opt lwp_prod\<close>)

lemma lwp_leaving [lwps]:
  assumes t: "mat_ok m (cols + 1) t" and b: "length basis = m" and e: "e < cols"
    and P: "P None" "\<And>r. r < m \<Longrightarrow> 0 < entry t r e \<Longrightarrow> P (Some r)"
  shows "lwp (leaving t basis e cols) P"
proof -
  let ?I = "\<lambda>_ leave :: (nat \<times> q) option. \<forall>li lr. leave = Some (li, lr) \<longrightarrow> li < m \<and> 0 < entry t li e"
  let ?f = "\<lambda>(i, row) leave :: (nat \<times> q) option. lbind (lidx row e) (\<lambda>x.
         if q_pos x
         then lbind (lidx row cols) (\<lambda>y. lbind (lopt (q_div y x)) (\<lambda>ratio.
                lbind (better_row basis i ratio leave) (\<lambda>better. lret (if better then Some (i, ratio) else leave))))
         else lret leave)"
  have "lwp (lfold ?f (zip [0..<length t] t) None) (?I (length t))"
  proof (rule lwp_fold_zip [where I = ?I])
    fix i leave
    assume "i < length t" and I: "?I i leave"
    then have i: "i < m" using mat_okD(2) [OF t] by simp
    have row: "row_ok (cols + 1) (t ! i)" using mat_okD(1) [OF t i] .
    then have l: "e < length (t ! i)" "cols < length (t ! i)" and p: "q_pos (t ! i ! e) \<longleftrightarrow> 0 < entry t i e"
      using e row_okD [OF row] by (simp_all add: entry_def q_signs(2))
    have better: "lwp (better_row basis i ratio leave) (\<lambda>_. True)" for ratio
      using I by (intro lwp_better_row [OF b i]) blast
    show "lwp (?f (i, t ! i) leave) (?I (Suc i))"
      unfolding prod.case by (intro lwps lwp_opt l lwp_mono [OF better]) (use i p I in auto)
  qed simp
  moreover have "P (map_option fst leave)" if "?I k leave" for k leave
    using that P by (cases leave) auto
  ultimately show ?thesis
    unfolding leaving_def by (intro lwps) (elim lwp_mono, intro lwps)
qed

subsection \<open>The loop\<close>

definition ray_ok :: "nat \<Rightarrow> nat \<Rightarrow> mat \<Rightarrow> nat \<Rightarrow> (nat \<times> row \<times> q) option \<Rightarrow> bool" where
  "ray_ok m allowed t cols ray \<longleftrightarrow>
     (\<forall>e dir tt. ray = Some (e, dir, tt) \<longrightarrow>
        e < allowed \<and> q_ok tt \<and> length dir = m \<and> (\<forall>i < m. q_ok (dir ! i) \<and> qval (dir ! i) = entry t i e))"

lemma lwp_unbounded_ray:
  assumes t: "mat_ok m (cols + 1) t" and b: "canon m cols t basis" and obj: "row_ok cols obj"
    and e: "e < allowed" "allowed \<le> cols" and rc: "q_ok rc" and goal: "\<forall>g. goal = Some g \<longrightarrow> q_ok g"
  shows "lwp (unbounded_ray t basis obj e rc cols goal) (\<lambda>ray. ray_ok m allowed t cols (Some ray))"
proof -
  let ?f = "\<lambda>(i, b) cur. if b < length obj
       then lbind (lidx obj b) (\<lambda>ob. lbind (cell2 t i cols) (\<lambda>x. lbind (lopt (q_mul ob x)) (\<lambda>y. lopt (q_add cur y))))
       else lret cur"
  have cur: "lwp (lfold ?f (zip [0..<length basis] basis) (q_int 0)) q_ok"
  proof (rule lwp_fold_zip [where I = "\<lambda>_. q_ok"])
    fix i cur
    assume i: "i < length basis" and cur: "q_ok cur"
    have im: "i < m" and bi: "basis ! i < cols" and l: "length obj = cols"
      using i canon_length [OF b] canonD(1) [OF b] obj by (simp_all add: row_ok_def)
    have "q_ok (obj ! (basis ! i))"
      using row_okD(1) [OF obj bi] .
    then show "lwp (?f (i, basis ! i) cur) q_ok"
      unfolding prod.case using im bi l cur by (intro lwps lwp_cell2 [OF t] lwp_q) simp_all
  qed (simp add: fits_def)
  have dir: "lwp (lmap (\<lambda>row. lidx row e) t) (\<lambda>dir. length dir = length t \<and> (\<forall>i < length t. dir ! i = t ! i ! e))"
    using mat_okD(2) [OF t] row_okD(2) [OF mat_okD(1) [OF t]] e by (intro lwp_map_nth lwps) simp_all
  have "q_ok (t ! i ! e)" if "i < m" for i
    using row_okD(1) [OF mat_okD(1) [OF t that]] e by simp
  then have "ray_ok m allowed t cols (Some (e, dir, steps))"
    if "q_ok steps" and "length dir = length t \<and> (\<forall>i < length t. dir ! i = t ! i ! e)" for dir steps
    using that mat_okD(2) [OF t] e by (simp add: ray_ok_def entry_def)
  moreover have "q_ok (case goal of Some g \<Rightarrow> g | None \<Rightarrow> cur)" if "q_ok cur" for cur
    using that goal by (cases goal) simp_all
  moreover have one: "q_ok (q_int 1)"
    by (simp add: fits_def)
  ultimately show ?thesis
    unfolding unbounded_ray_def
    by (intro lwps lwp_mono [OF cur] lwp_mono [OF dir] lwp_q rc one) simp_all
qed

definition table_of :: "nat \<Rightarrow> nat \<Rightarrow> mat \<Rightarrow> mat \<Rightarrow> nat list \<Rightarrow> bool" where
  "table_of m cols t0 t basis \<longleftrightarrow>
     mat_ok m (cols + 1) t \<and> canon m cols t basis \<and> (\<forall>x. sol m cols t x \<longrightarrow> sol m cols t0 x)"

lemma table_of_pivoted:
  "table_of m cols t0 t basis \<Longrightarrow> pivoted m cols t r c t2 \<Longrightarrow> table_of m cols t0 t2 (basis[r := c])"
  unfolding table_of_def by (blast intro: pivoted_mat pivoted_canon pivoted_sol)

lemma table_ofD:
  assumes "table_of m cols t0 t basis"
  shows "mat_ok m (cols + 1) t" "canon m cols t basis" "length basis = m" "sol m cols t x \<Longrightarrow> sol m cols t0 x"
  using assms unfolding table_of_def by (blast intro: canon_length)+

text \<open>A property that the pivots of allowed columns keep, beside the invariant of the table.\<close>

lemma lwp_simplex_loop:
  assumes "table_of m cols t0 t basis" and "K t basis"
    and obj: "row_ok cols obj" and al: "allowed \<le> cols" and goal: "\<forall>g. goal = Some g \<longrightarrow> q_ok g"
    and step: "\<And>t basis r e t2. table_of m cols t0 t basis \<Longrightarrow> K t basis \<Longrightarrow> e < allowed \<Longrightarrow> 0 < entry t r e \<Longrightarrow>
      pivoted m cols t r e t2 \<Longrightarrow> K t2 (basis[r := e])"
  shows "lwp (simplex_loop k t basis obj allowed cols goal)
    (\<lambda>(ray, t2, b2). table_of m cols t0 t2 b2 \<and> K t2 b2 \<and> ray_ok m allowed t2 cols ray)"
  using assms(1,2)
proof (induction k arbitrary: t basis)
  case (Suc k)
  note T = table_ofD [OF Suc.prems(1)]
  show ?case
    unfolding simplex_loop.simps
  proof (intro lwp_bind lwp_entering [OF T(1,2) obj al], goal_cases)
    case 1
    then show ?case using Suc.prems by (auto intro!: lwp_ret simp: ray_ok_def)
  next
    case (2 e rc)
    have e: "e < cols" using 2 al by simp
    have ray: "lwp (unbounded_ray t basis obj e rc cols goal) (\<lambda>ray. ray_ok m allowed t cols (Some ray))"
      using 2 by (intro lwp_unbounded_ray [OF T(1,2) obj _ al _ goal])
    have loop: "lwp (simplex_loop k t2 (basis[r := e]) obj allowed cols goal)
        (\<lambda>(ray, t2, b2). table_of m cols t0 t2 b2 \<and> K t2 b2 \<and> ray_ok m allowed t2 cols ray)"
      if "0 < entry t r e" and "pivoted m cols t r e t2" for r t2
      using that 2 by (intro Suc.IH table_of_pivoted [OF Suc.prems(1)] step [OF Suc.prems])
    show ?case
      unfolding option.case prod.case
    proof (intro lwp_bind lwp_leaving [OF T(1,3) e], goal_cases)
      case 1
      show ?case
        unfolding option.case
        by (intro lwp_bind lwp_mono [OF ray] lwp_ret) (use Suc.prems in simp)
    next
      case (2 r)
      then show ?case
        unfolding option.case
        by (intro lwp_bind lwp_pivot [OF T(1,3) _ e]) (simp_all add: loop)
    qed
  qed
qed (simp add: lwp_none)

lemma lwp_simplex:
  assumes T: "table_of m cols t0 t basis" and K: "K t basis"
    and obj: "row_ok cols obj" and al: "allowed \<le> cols" and goal: "\<forall>g. goal = Some g \<longrightarrow> q_ok g"
    and step: "\<And>t basis r e t2. table_of m cols t0 t basis \<Longrightarrow> K t basis \<Longrightarrow> e < allowed \<Longrightarrow> 0 < entry t r e \<Longrightarrow>
      pivoted m cols t r e t2 \<Longrightarrow> K t2 (basis[r := e])"
  shows "lwp (simplex t basis obj allowed goal)
    (\<lambda>(ray, t2, b2). table_of m cols t0 t2 b2 \<and> K t2 b2 \<and> ray_ok m allowed t2 cols ray)"
proof -
  have "(case t of [] \<Rightarrow> length obj + 1 | row # _ \<Rightarrow> length row) = cols + 1"
    using table_ofD(1) [OF T] obj by (auto simp: mat_ok_def row_ok_def split: list.split)
  then show ?thesis
    unfolding simplex_def Let_def
    using lwp_simplex_loop [where K = K, OF T K obj al goal step] by simp
qed

end
