(* ===== verification/Lp_Phases.thy ===== *)
theory Lp_Phases
  imports Lp_Search
begin

text \<open>
  The two phases: after the first no artificial that stays basic has a row that touches a multiplier, the
  second keeps it so, and the multipliers read off the last table solve the first one.
\<close>

text \<open>The rows of basic artificials.\<close>

definition art :: "nat \<Rightarrow> nat \<Rightarrow> nat \<Rightarrow> mat \<Rightarrow> nat list \<Rightarrow> bool" where
  "art m n cols t basis \<longleftrightarrow>
     (\<forall>i < m. n \<le> basis ! i \<longrightarrow> entry t i cols = 0 \<and> (\<forall>j < n. entry t i j = 0))"

lemma lwp_nonzero:
  assumes "mat_ok m (cols + 1) t" and "i < m" and "j \<le> cols"
  shows "lwp (lbind (cell2 t i j) (\<lambda>x. lret (\<not> q_zero x))) (\<lambda>b. b = (entry t i j \<noteq> 0))"
  using assms by (intro lwps lwp_cell2 [OF assms(1)]) (simp_all add: q_signs(1) entry_def)

lemma lwp_basic_left:
  assumes t: "mat_ok m (cols + 1) t" and b: "length basis = m"
  shows "lwp (basic_left t basis n cols) (\<lambda>bad. \<not> bad \<longrightarrow> (\<forall>i < m. n \<le> basis ! i \<longrightarrow> entry t i cols = 0))"
proof -
  let ?Q = "\<lambda>(i, b). n \<le> b \<and> entry t i cols \<noteq> 0"
  let ?xs = "zip [0..<length basis] basis"
  have "lwp (lfind (\<lambda>(i, b). if n \<le> b then lbind (cell2 t i cols) (\<lambda>x. lret (\<not> q_zero x)) else lret False) ?xs)
      (\<lambda>o1. o1 = find ?Q ?xs)"
  proof (rule lwp_find)
    fix y
    assume "y \<in> set ?xs"
    then obtain i b where y: "y = (i, b)" "i < m"
      using b by (metis set_zip_leftD atLeastLessThan_iff set_upt surj_pair)
    have nz: "lwp (lbind (cell2 t i cols) (\<lambda>x. lret (\<not> q_zero x))) (\<lambda>b. b = (entry t i cols \<noteq> 0))"
      using y(2) by (intro lwp_nonzero [OF t]) simp_all
    show "lwp (case y of (i, b) \<Rightarrow> if n \<le> b then lbind (cell2 t i cols) (\<lambda>x. lret (\<not> q_zero x)) else lret False)
        (\<lambda>b. b = ?Q y)"
      unfolding y(1) prod.case by (rule lwp_if) (use nz in \<open>auto elim: lwp_mono intro!: lwp_ret\<close>)
  qed
  moreover have "\<forall>i < m. n \<le> basis ! i \<longrightarrow> entry t i cols = 0" if "find ?Q ?xs = None"
  proof (intro allI impI)
    fix i
    assume i: "i < m" and n: "n \<le> basis ! i"
    then have "(i, basis ! i) \<in> set ?xs"
      using b by (auto simp: in_set_zip intro!: exI [of _ i])
    then show "entry t i cols = 0"
      using that n by (auto simp: find_None_iff)
  qed
  ultimately show ?thesis
    unfolding basic_left_def by (intro lwps) (elim lwp_mono, intro lwps, blast)
qed

lemma lwp_drive_out:
  assumes T: "table_of m cols t0 t basis" and z: "\<forall>i < m. n \<le> basis ! i \<longrightarrow> entry t i cols = 0"
    and cleared: "\<forall>i < k. n \<le> basis ! i \<longrightarrow> (\<forall>j < n. entry t i j = 0)" and k: "k < m" and n: "n \<le> cols"
  shows "lwp (drive_out n cols k (t, basis)) (\<lambda>(t2, b2). table_of m cols t0 t2 b2 \<and>
    (\<forall>i < m. n \<le> b2 ! i \<longrightarrow> entry t2 i cols = 0) \<and> (\<forall>i < Suc k. n \<le> b2 ! i \<longrightarrow> (\<forall>j < n. entry t2 i j = 0)))"
    (is "lwp _ ?P")
proof -
  note D = table_ofD [OF T]
  let ?Q = "\<lambda>j. entry t k j \<noteq> 0"
  have find: "lwp (lfind (\<lambda>j. lbind (cell2 t k j) (\<lambda>x. lret (\<not> q_zero x))) [0..<n]) (\<lambda>o1. o1 = find ?Q [0..<n])"
    using k n by (intro lwp_find lwp_nonzero [OF D(1)]) simp_all
  have stay: "?P (t, basis)" if "find ?Q [0..<n] = None \<or> basis ! k < n"
    using that T z cleared by (auto simp: find_None_iff less_Suc_eq)
  have step: "lwp (pivot t basis k j cols) ?P" if f: "find ?Q [0..<n] = Some j" and a: "n \<le> basis ! k" for j
  proof -
    have j: "j < n" using f by (auto simp: find_Some_iff)
    have zk: "entry t k cols = 0" using z a k by simp
    have "?P (t2, basis[k := j])" if pv: "pivoted m cols t k j t2" for t2
    proof -
      have rhs: "entry t2 i cols = entry t i cols" if "i < m" for i
        using pv zk that by (cases "i = k") (simp_all add: pivoted_def)
      have rows: "entry t2 i l = entry t i l" if "i < k" "n \<le> basis ! i" "l < n" for i l
        using pivoted_row [OF pv] that cleared k j n by simp
      show ?thesis
        using table_of_pivoted [OF T pv] rhs rows z cleared j k D(3)
        by (auto simp: nth_list_update less_Suc_eq)
    qed
    then show ?thesis
      using D k j n by (intro lwp_pivot) simp_all
  qed
  show ?thesis
    unfolding drive_out_def prod.case
    by (intro lwps lwp_mono [OF find]) (use stay step D(3) k in \<open>auto intro!: lwps split: option.split\<close>)
qed

lemma lwp_phase1:
  assumes T: "table_of m cols t0 t basis" and n: "n \<le> cols"
  shows "lwp (phase1 t basis n cols) (\<lambda>(t2, b2). table_of m cols t0 t2 b2 \<and> art m n cols t2 b2)"
proof -
  let ?obj = "map (\<lambda>j. if n \<le> j then q_int (- 1) else q_int 0) [0..<cols]"
  have obj: "row_ok cols ?obj" by (auto simp: row_ok_def fits_def)
  have first: "lwp (simplex t basis ?obj cols None)
      (\<lambda>(ray, t2, b2). table_of m cols t0 t2 b2 \<and> True \<and> ray_ok m cols t2 cols ray)"
    by (rule lwp_simplex [where K = "\<lambda>_ _. True", OF T TrueI obj]) simp_all
  let ?I = "\<lambda>k (t2, b2). table_of m cols t0 t2 b2 \<and> (\<forall>i < m. n \<le> b2 ! i \<longrightarrow> entry t2 i cols = 0) \<and>
    (\<forall>i < k. n \<le> b2 ! i \<longrightarrow> (\<forall>j < n. entry t2 i j = 0))"
  have drive: "lwp (lfold (drive_out n cols) [0..<m] (t1, b1)) (?I m)"
    if "table_of m cols t0 t1 b1" and "\<forall>i < m. n \<le> b1 ! i \<longrightarrow> entry t1 i cols = 0" for t1 b1
    by (rule lwp_fold_upt [where I = ?I]) (use that in \<open>auto intro!: lwp_drive_out n\<close>)
  have rest: "lwp (lbind (basic_left t1 b1 n cols) (\<lambda>bad. if bad then lnone else lfold (drive_out n cols) [0..<length b1] (t1, b1)))
      (?I m)" if T1: "table_of m cols t0 t1 b1" for t1 b1
    using table_ofD(3) [OF T1] drive [OF T1]
    by (intro lwps lwp_mono [OF lwp_basic_left [OF table_ofD(1,3) [OF T1]]]) auto
  have "lwp (phase1 t basis n cols) (?I m)"
    unfolding phase1_def
    by (intro lwp_bind lwp_mono [OF first]) (simp only: split_paired_all prod.case, intro rest, blast)
  then show ?thesis
    by (rule lwp_mono) (auto simp: art_def)
qed

text \<open>The second phase pivots on multiplier columns at positive entries, which those rows do not have.\<close>

lemma art_pivoted:
  assumes a: "art m n cols t basis" and b: "length basis = m" and e: "e < n" "n \<le> cols" and p: "0 < entry t r e"
    and pv: "pivoted m cols t r e t2"
  shows "art m n cols t2 (basis[r := e])"
  unfolding art_def
proof (intro allI impI)
  fix i
  assume i: "i < m" and ni: "n \<le> basis[r := e] ! i"
  then have ir: "i \<noteq> r" using b e by auto
  then have bi: "n \<le> basis ! i" using ni by simp
  then have "entry t i e = 0" using a i e by (simp add: art_def)
  then show "entry t2 i cols = 0 \<and> (\<forall>j < n. entry t2 i j = 0)"
    using pivoted_row [OF pv i ir] a i bi e ir by (simp add: art_def)
qed

lemma lwp_phase2:
  assumes T: "table_of m cols t0 t basis" and a: "art m n cols t basis"
    and obj: "row_ok cols obj" and n: "n \<le> cols" and g: "q_ok g"
  shows "lwp (simplex t basis obj n (Some g))
    (\<lambda>(ray, t2, b2). table_of m cols t0 t2 b2 \<and> art m n cols t2 b2 \<and> ray_ok m n t2 cols ray)"
proof (rule lwp_simplex [where K = "art m n cols", OF T a obj n])
  fix t basis r e t2
  assume "table_of m cols t0 t basis" "art m n cols t basis" "e < n" "0 < entry t r e" "pivoted m cols t r e t2"
  then show "art m n cols t2 (basis[r := e])"
    using table_ofD(3) n by (intro art_pivoted)
qed (use g in simp)

end
