(* ===== verification/Lp_Multipliers.thy ===== *)
theory Lp_Multipliers
  imports Lp_Phases
begin

text \<open>
  The multipliers of the last table solve the first, along a ray as well; and scaled by a common
  multiple of their denominators they are integers.
\<close>

text \<open>The steps of the two loops of \<open>multipliers\<close>.\<close>

abbreviation look_up :: "mat \<Rightarrow> nat \<Rightarrow> nat \<Rightarrow> nat \<times> nat \<Rightarrow> row \<Rightarrow> row lp" where
  "look_up t n cols \<equiv> (\<lambda>(i, b) lam. if b < n then lbind (cell2 t i cols) (lset lam b) else lret lam)"

abbreviation walk_row :: "row \<Rightarrow> q \<Rightarrow> nat \<Rightarrow> nat \<times> nat \<Rightarrow> row \<Rightarrow> row lp" where
  "walk_row dir tt n \<equiv> (\<lambda>(i, b) lam. if b < n
       then lbind (lidx lam b) (\<lambda>x. lbind (lidx dir i) (\<lambda>d. lbind (lopt (q_mul d tt)) (\<lambda>y.
              lbind (lopt (q_sub x y)) (lset lam b))))
       else lret lam)"

subsection \<open>Basic solutions\<close>

definition basic_vec :: "nat \<Rightarrow> nat list \<Rightarrow> (nat \<Rightarrow> rat) \<Rightarrow> nat \<Rightarrow> rat" where
  "basic_vec m basis v j = (\<Sum>k < m. if basis ! k = j then v k else 0)"

lemma basic_vec_row:
  assumes cn: "canon m cols t basis" and i: "i < m"
  shows "(\<Sum>j < cols. entry t i j * (if j < n then basic_vec m basis v j else 0)) = (if basis ! i < n then v i else 0)"
proof -
  have "(\<Sum>j < cols. entry t i j * (if j < n then basic_vec m basis v j else 0)) =
      (\<Sum>j < cols. \<Sum>k < m. if basis ! k = j then (if j < n then entry t i j * v k else 0) else 0)"
    by (intro sum.cong) (auto simp: basic_vec_def sum_distrib_left intro!: sum.cong sum.neutral)
  also have "\<dots> = (\<Sum>k < m. \<Sum>j < cols. if basis ! k = j then (if j < n then entry t i j * v k else 0) else 0)"
    by (rule sum.swap)
  also have "\<dots> = (\<Sum>k < m. if i = k then (if basis ! i < n then v i else 0) else 0)"
    using canonD [OF cn] i by (intro sum.cong) (auto simp: sum.delta)
  finally show ?thesis
    using i by (simp add: sum.delta)
qed

lemma lwp_lookup:
  assumes T: "table_of m cols t0 t basis"
  shows "lwp (lfold (look_up t n cols)
      (zip [0..<length basis] basis) (replicate n (q_int 0)))
    (\<lambda>lam. row_ok n lam \<and> (\<forall>j < n. qval (lam ! j) = basic_vec m basis (\<lambda>k. entry t k cols) j))"
proof -
  note D = table_ofD [OF T]
  let ?v = "\<lambda>k j. \<Sum>i < k. if basis ! i = j then entry t i cols else (0 :: rat)"
  let ?I = "\<lambda>k lam. row_ok n lam \<and> (\<forall>j < n. qval (lam ! j) = ?v k j)"
  have "lwp (lfold (look_up t n cols)
      (zip [0..<length basis] basis) (replicate n (q_int 0))) (?I (length basis))"
  proof (rule lwp_fold_zip [where I = ?I])
    fix k lam
    assume k: "k < length basis" and I: "?I k lam"
    have z: "?v k (basis ! k) = 0"
      using canon_inj [OF D(2)] k D(3) by (intro sum.neutral) auto
    then have "?I (Suc k) (lam[basis ! k := t ! k ! cols])" if "basis ! k < n" "q_ok (t ! k ! cols)"
      using that I row_okD(2) [of n lam] by (auto simp: row_ok_upd nth_list_update entry_def)
    moreover have "?I (Suc k) lam" if "\<not> basis ! k < n"
      using that I by auto
    ultimately show "lwp (look_up t n cols (k, basis ! k) lam) (?I (Suc k))"
      unfolding prod.case
      by (intro lwps lwp_cell2 [OF D(1)]) (use k D(3) I row_okD(2) [of n lam] in auto)
  qed (auto simp: row_ok_def fits_def)
  then show ?thesis
    using D(3) by (simp add: basic_vec_def)
qed

lemma lwp_along:
  assumes T: "table_of m cols t0 t basis" and lam: "row_ok n lam" and tt: "q_ok tt" and l: "length dir = m"
    and dir: "\<forall>i < m. q_ok (dir ! i) \<and> qval (dir ! i) = entry t i e"
  shows "lwp (lfold (walk_row dir tt n) (zip [0..<length basis] basis) lam)
    (\<lambda>out. row_ok n out \<and>
      (\<forall>j < n. qval (out ! j) = qval (lam ! j) - basic_vec m basis (\<lambda>k. entry t k e * qval tt) j))"
proof -
  note D = table_ofD [OF T]
  let ?v = "\<lambda>k j. \<Sum>i < k. if basis ! i = j then entry t i e * qval tt else 0"
  let ?I = "\<lambda>k out. row_ok n out \<and> (\<forall>j < n. qval (out ! j) = qval (lam ! j) - ?v k j)"
  have "lwp (lfold (walk_row dir tt n) (zip [0..<length basis] basis) lam) (?I (length basis))"
  proof (rule lwp_fold_zip [where I = ?I])
    fix k out
    assume "k < length basis" and I: "?I k out"
    then have k: "k < m" and d: "q_ok (dir ! k)" "qval (dir ! k) = entry t k e" using D(3) dir by simp_all
    have "?I (Suc k) (out[basis ! k := z])" if "basis ! k < n" "q_ok z" "qval z = qval (out ! (basis ! k)) - entry t k e * qval tt" for z
      using that I row_okD(2) [of n out] by (auto simp: row_ok_upd nth_list_update)
    moreover have "?I (Suc k) out" if "\<not> basis ! k < n"
      using that I by auto
    ultimately show "lwp (walk_row dir tt n (k, basis ! k) out) (?I (Suc k))"
      unfolding prod.case
      by (intro lwps lwp_q d tt) (use k l d I row_okD [of n out] in auto)
  qed (use lam in simp)
  then show ?thesis
    using D(3) by (simp add: basic_vec_def)
qed

lemma basic_sol:
  assumes T: "table_of m cols t0 t basis" and a: "art m n cols t basis"
    and q: "\<forall>j < n. lam j = basic_vec m basis (\<lambda>k. entry t k cols) j"
  shows "sol m cols t0 (\<lambda>j. if j < n then lam j else 0)"
proof -
  have "(\<lambda>j. if j < n then lam j else 0) = (\<lambda>j. if j < n then basic_vec m basis (\<lambda>k. entry t k cols) j else 0)"
    using q by auto
  then have "sol m cols t (\<lambda>j. if j < n then lam j else 0)"
    using basic_vec_row [OF table_ofD(2) [OF T]] a by (auto simp: sol_def art_def)
  then show ?thesis by (rule table_ofD(4) [OF T])
qed

lemma ray_sol:
  assumes T: "table_of m cols t0 t basis" and a: "art m n cols t basis" and e: "e < n" "n \<le> cols"
    and q: "\<forall>j < n. lam j = basic_vec m basis (\<lambda>k. entry t k cols - entry t k e * s) j + (if j = e then s else 0)"
  shows "sol m cols t0 (\<lambda>j. if j < n then lam j else 0)"
proof (rule table_ofD(4) [OF T], unfold sol_def, intro allI impI)
  fix i
  assume i: "i < m"
  let ?w = "\<lambda>k. entry t k cols - entry t k e * s"
  have "(\<Sum>j < cols. entry t i j * (if j < n then lam j else 0)) =
      (\<Sum>j < cols. entry t i j * (if j < n then basic_vec m basis ?w j else 0) + (if e = j then entry t i e * s else 0))"
    using q e by (intro sum.cong) (auto simp: algebra_simps)
  also have "\<dots> = (if basis ! i < n then ?w i else 0) + entry t i e * s"
    using basic_vec_row [OF table_ofD(2) [OF T] i, of n ?w] e by (simp add: sum.distrib sum.delta)
  also have "\<dots> = entry t i cols"
    using a i e by (auto simp: art_def)
  finally show "(\<Sum>j < cols. entry t i j * (if j < n then lam j else 0)) = entry t i cols" .
qed

lemma basic_vec_diff: "basic_vec m basis (\<lambda>k. v k - w k) j = basic_vec m basis v j - basic_vec m basis w j"
  unfolding basic_vec_def sum_subtractf [symmetric] by (intro sum.cong) simp_all

lemma lwp_walk:
  assumes T: "table_of m cols t0 t basis" and a: "art m n cols t basis" and e: "e < n" "n \<le> cols"
    and tt: "q_ok tt" and l: "length dir = m" and dir: "\<forall>i < m. q_ok (dir ! i) \<and> qval (dir ! i) = entry t i e"
    and L: "row_ok n lam" and q: "\<forall>j < n. qval (lam ! j) = basic_vec m basis (\<lambda>k. entry t k cols) j"
  shows "lwp (lbind (lidx lam e) (\<lambda>x. lbind (lopt (q_add x tt)) (\<lambda>y. lbind (lset lam e y)
           (lfold (walk_row dir tt n) (zip [0..<length basis] basis)))))
    (\<lambda>out. row_ok n out \<and> sol m cols t0 (\<lambda>j. if j < n then qval (out ! j) else 0))"
proof -
  have along: "lwp (lfold (walk_row dir tt n) (zip [0..<length basis] basis) (lam[e := y]))
      (\<lambda>out. row_ok n out \<and> sol m cols t0 (\<lambda>j. if j < n then qval (out ! j) else 0))"
    if "q_ok y" "qval y = qval (lam ! e) + qval tt" for y
  proof (rule lwp_mono [OF lwp_along [OF T row_ok_upd [OF L that(1)] tt l dir]], elim conjE, intro conjI ray_sol [OF T a e])
    fix out
    assume "\<forall>j < n. qval (out ! j) = qval (lam[e := y] ! j) - basic_vec m basis (\<lambda>k. entry t k e * qval tt) j"
    then show "\<forall>j < n. qval (out ! j) =
        basic_vec m basis (\<lambda>k. entry t k cols - entry t k e * qval tt) j + (if j = e then qval tt else 0)"
      using that(2) q e row_okD(2) [OF L] by (simp add: basic_vec_diff nth_list_update)
  qed
  show ?thesis
    by (intro lwps lwp_q tt along) (use e row_okD [OF L] in simp_all)
qed

lemma lwp_multipliers:
  assumes T: "table_of m cols t0 t basis" and a: "art m n cols t basis" and ray: "ray_ok m n t cols ray" and n: "n \<le> cols"
  shows "lwp (multipliers t basis n cols ray)
    (\<lambda>lam. row_ok n lam \<and> sol m cols t0 (\<lambda>j. if j < n then qval (lam ! j) else 0))"
proof (cases ray)
  case None
  show ?thesis
    unfolding multipliers_def None option.case
    by (intro lwps lwp_mono [OF lwp_lookup [OF T]]) (simp add: basic_sol [OF T a])
next
  case (Some r)
  obtain e dir tt where r: "r = (e, dir, tt)" by (cases r)
  then have "e < n" "q_ok tt" "length dir = m" "\<forall>i < m. q_ok (dir ! i) \<and> qval (dir ! i) = entry t i e"
    using ray Some by (simp_all add: ray_ok_def)
  then show ?thesis
    unfolding multipliers_def Some r option.case prod.case
    by (intro lwp_bind lwp_mono [OF lwp_lookup [OF T]] lwp_walk [OF T a _ n]) simp_all
qed

end
