(* ===== verification/Lp_Farkas.thy ===== *)
theory Lp_Farkas
  imports Lp_Multipliers
begin

text \<open>
  The first table states that the facts' combination has the target's coefficients; so the search's
  answer, when there is one, is a positive combination of the facts that is a positive multiple of the
  target up to a constant in the right direction.
\<close>

subsection \<open>The first table\<close>

fun coefl :: "(nat \<times> int) list \<Rightarrow> nat \<Rightarrow> int" where
  "coefl [] v = 0"
| "coefl ((u, a) # ps) v = (if u = v then a else 0) + coefl ps v"

lemma coefl_append [simp]: "coefl (ps @ qs) v = coefl ps v + coefl qs v"
  by (induction ps) auto

lemma coefl_absent: "v \<notin> fst ` set ps \<Longrightarrow> coefl ps v = 0"
  by (induction ps) auto

lemma coefl_take: "k < length ps \<Longrightarrow> coefl (take (Suc k) ps) v = coefl (take k ps) v + (if fst (ps ! k) = v then snd (ps ! k) else 0)"
  by (cases "ps ! k") (simp add: take_Suc_conv_app_nth)

definition fact_ok :: "nat \<Rightarrow> sparse \<Rightarrow> bool" where
  "fact_ok m s \<longleftrightarrow> (\<forall>p \<in> set (fst s). fst p < m \<and> fits (snd p)) \<and> fits (snd s)"

lemma fact_okD:
  assumes "fact_ok m s"
  shows "k < length (fst s) \<Longrightarrow> fst (fst s ! k) < m \<and> fits (snd (fst s ! k))" "fits (snd s)"
  using assms by (simp_all add: fact_ok_def)

lemma lwp_target_row:
  assumes ok: "fact_ok m target" and d: "distinct (map fst (fst target))"
  shows "lwp (target_row target m)
    (\<lambda>c. length c = m \<and> (\<forall>v < m. c ! v = coefl (fst target) v \<and> fits (c ! v)))"
proof -
  let ?ps = "fst target"
  let ?I = "\<lambda>k c. length c = m \<and> (\<forall>v < m. c ! v = coefl (take k ?ps) v \<and> fits (c ! v))"
  have "lwp (target_row target m) (?I (length ?ps))"
    unfolding target_row_def
  proof (rule lwp_fold [where I = ?I])
    fix k c
    assume k: "k < length ?ps" and I: "?I k c"
    obtain v a where va: "?ps ! k = (v, a)" by (cases "?ps ! k")
    have v: "v < m" and a: "fits a" using fact_okD(1) [OF ok k] va by simp_all
    have "v \<notin> fst ` set (take k ?ps)"
      using d va arg_cong [OF id_take_nth_drop [OF k], of "\<lambda>ps. distinct (map fst ps)"] by simp
    then have "c ! v = 0" using I v by (simp add: coefl_absent)
    then have step: "?I (Suc k) (c[v := wrap (c ! v + a)])"
      using I k va a v by (auto simp: coefl_take nth_list_update wrap_fits)
    show "lwp ((case ?ps ! k of (v, a) \<Rightarrow> \<lambda>c. lbind (lidx c v) (\<lambda>x. lset c v (wrap (x + a)))) c) (?I (Suc k))"
      unfolding va prod.case by (intro lwps step) (use v I in simp_all)
  qed (simp add: fits_def)
  then show ?thesis by simp
qed

lemma lwp_add_entry:
  assumes t: "mat_ok m (cols + 1) t" and v: "v < m" and a: "fits a" and j: "j < cols + 1"
    and P: "\<And>t2. mat_ok m (cols + 1) t2 \<Longrightarrow>
      (\<And>i k. i < m \<Longrightarrow> entry t2 i k = entry t i k + (if i = v \<and> k = j then of_int a else 0)) \<Longrightarrow> P t2"
  shows "lwp (add_entry j (v, a) t) P"
proof -
  note row = mat_okD(1) [OF t v]
  have "P (t[v := (t ! v)[j := y]])" if "q_ok y" "qval y = entry t v j + of_int a" for y
    using that t v j row_okD(2) [OF row]
    by (intro P mat_ok_upd row_ok_upd row) (auto simp: entry_def mat_okD(2) nth_list_update)
  then show ?thesis
    unfolding add_entry_def prod.case
    by (intro lwps lwp_q) (use v j a mat_okD(2) [OF t] row_okD [OF row] in \<open>simp_all add: entry_def\<close>)
qed

lemma lwp_add_fact:
  assumes t: "mat_ok m (cols + 1) t" and ok: "fact_ok m s" and j: "j < cols + 1"
  shows "lwp (add_fact (j, s) t) (\<lambda>t2. mat_ok m (cols + 1) t2 \<and>
    (\<forall>i < m. \<forall>k. entry t2 i k = entry t i k + (if k = j then of_int (coefl (fst s) i) else 0)))"
proof -
  let ?ps = "fst s"
  let ?I = "\<lambda>l t2. mat_ok m (cols + 1) t2 \<and>
    (\<forall>i < m. \<forall>k. entry t2 i k = entry t i k + (if k = j then of_int (coefl (take l ?ps) i) else 0))"
  have "lwp (lfold (add_entry j) ?ps t) (?I (length ?ps))"
  proof (rule lwp_fold [where I = ?I])
    fix l t2
    assume l: "l < length ?ps" and I: "?I l t2"
    obtain v a where va: "?ps ! l = (v, a)" by (cases "?ps ! l")
    show "lwp (add_entry j (?ps ! l) t2) (?I (Suc l))"
      unfolding va using fact_okD(1) [OF ok l] va j I l
      by (intro lwp_add_entry [of m cols]) (auto simp: coefl_take)
  qed (use t in simp)
  then show ?thesis
    by (simp add: add_fact_def split_def cong: if_cong split del: if_split)
qed

definition sgn_of :: "int \<Rightarrow> rat" where
  "sgn_of c = (if c < 0 then - 1 else 1)"

lemma lwp_finish_row:
  assumes row: "row_ok (n + m + 1) row" and i: "i < m" and c: "i < length cs" "fits (cs ! i)"
  shows "lwp (finish_row n (n + m) cs (i, row)) (\<lambda>out. row_ok (n + m + 1) out \<and>
    (\<forall>j < n. qval (out ! j) = sgn_of (cs ! i) * qval (row ! j)) \<and>
    (\<forall>j < m. qval (out ! (n + j)) = (if j = i then 1 else qval (row ! (n + j)))) \<and>
    qval (out ! (n + m)) = sgn_of (cs ! i) * of_int (cs ! i))"
proof -
  have zero: "q_ok (q_int 0)" and one: "q_ok (q_int 1)" and ci: "q_ok (q_int (cs ! i))"
    using c by (simp_all add: fits_def)
  have neg: "lwp (lmap (\<lambda>x. lopt (q_sub (q_int 0) x)) (take n row))
      (\<lambda>ys. length ys = length (take n row) \<and> (\<forall>j < length (take n row). q_ok (ys ! j) \<and> qval (ys ! j) = - qval (take n row ! j)))"
    using row_okD [OF row] by (intro lwp_map_nth lwp_q zero) simp_all
  let ?R = "\<lambda>(row2, rhs). row_ok (n + m + 1) row2 \<and> q_ok rhs \<and> qval rhs = sgn_of (cs ! i) * of_int (cs ! i) \<and>
    (\<forall>j < n + m. qval (row2 ! j) = (if j < n then sgn_of (cs ! i) * qval (row ! j) else qval (row ! j)))"
  have step: "lwp (if q_neg (q_int (cs ! i))
              then lbind (lmap (\<lambda>x. lopt (q_sub (q_int 0) x)) (take n row)) (\<lambda>neg.
                     lbind (lopt (q_sub (q_int 0) (q_int (cs ! i)))) (\<lambda>r. lret (neg @ drop n row, r)))
              else lret (row, q_int (cs ! i))) ?R"
  proof (rule lwp_if)
    assume "q_neg (q_int (cs ! i))"
    then have s: "sgn_of (cs ! i) = - 1" by (simp add: q_signs(3) [OF ci] sgn_of_def)
    have "row_ok (n + m + 1) (ys @ drop n row)"
      if "length ys = n" "\<forall>j < n. q_ok (ys ! j)" for ys
      using that row by (auto simp: row_ok_def in_set_conv_nth dest: in_set_dropD)
    then show "lwp (lbind (lmap (\<lambda>x. lopt (q_sub (q_int 0) x)) (take n row)) (\<lambda>neg.
        lbind (lopt (q_sub (q_int 0) (q_int (cs ! i)))) (\<lambda>r. lret (neg @ drop n row, r)))) ?R"
      by (intro lwps lwp_mono [OF neg] lwp_q zero ci) (use row_okD(2) [OF row] s in \<open>auto simp: nth_append\<close>)
  next
    assume "\<not> q_neg (q_int (cs ! i))"
    then have s: "sgn_of (cs ! i) = 1" by (simp add: q_signs(3) [OF ci] sgn_of_def)
    show "lwp (lret (row, q_int (cs ! i))) ?R"
      using s row ci by (intro lwps) simp
  qed
  have fin: "row_ok (n + m + 1) (row2[n + i := q_int 1, n + m := rhs]) \<and>
      (\<forall>j < n. qval (row2[n + i := q_int 1, n + m := rhs] ! j) = sgn_of (cs ! i) * qval (row ! j)) \<and>
      (\<forall>j < m. qval (row2[n + i := q_int 1, n + m := rhs] ! (n + j)) = (if j = i then 1 else qval (row ! (n + j)))) \<and>
      qval (row2[n + i := q_int 1, n + m := rhs] ! (n + m)) = sgn_of (cs ! i) * of_int (cs ! i)"
    if "?R (row2, rhs)" for row2 rhs
    using that i one row_okD(2) [of "n + m + 1" row2] by (auto intro!: row_ok_upd simp: nth_list_update)
  show ?thesis
    unfolding finish_row_def prod.case
    by (intro lwps c lwp_mono [OF step] lwp_prod fin) (use i row_okD(2) [of "n + m + 1"] in auto)
qed

end
