(* ===== verification/Lp_Sound.thy ===== *)
theory Lp_Sound
  imports Lp_Farkas
begin

text \<open>The search of \<open>farkas\<close>: what its answer means, and that it indexes nothing out of range.\<close>

lemma lwp_tableau:
  assumes facts: "\<forall>s \<in> set facts. fact_ok m s" and target: "fact_ok m target" and d: "distinct (map fst (fst target))"
    and n: "n = length facts"
  shows "lwp (tableau facts target n m) (\<lambda>t. mat_ok m (n + m + 1) t \<and>
    (\<forall>i < m. let s = sgn_of (coefl (fst target) i) in
      (\<forall>j < n. entry t i j = s * of_int (coefl (fst (facts ! j)) i)) \<and>
      (\<forall>j < m. entry t i (n + j) = (if j = i then 1 else 0)) \<and>
      entry t i (n + m) = s * of_int (coefl (fst target) i)))"
proof -
  let ?Z = "replicate m (replicate (n + m + 1) (q_int 0))"
  let ?A = "\<lambda>l t. mat_ok m (n + m + 1) t \<and>
    (\<forall>i < m. \<forall>j \<le> n + m. entry t i j = (if j < l then of_int (coefl (fst (facts ! j)) i) else 0))"
  have fill: "lwp (lfold add_fact (zip [0..<length facts] facts) ?Z) (?A (length facts))"
  proof (rule lwp_fold_zip [where I = ?A])
    fix l t
    assume l: "l < length facts" and A: "?A l t"
    have add: "lwp (add_fact (l, facts ! l) t) (\<lambda>t2. mat_ok m (n + m + 1) t2 \<and>
        (\<forall>i < m. \<forall>k. entry t2 i k = entry t i k + (if k = l then of_int (coefl (fst (facts ! l)) i) else 0)))"
      using A facts l n by (intro lwp_add_fact) simp_all
    show "lwp (add_fact (l, facts ! l) t) (?A (Suc l))"
      by (rule lwp_mono [OF add]) (use A in auto)
  qed (auto simp: mat_ok_def row_ok_def fits_def entry_def simp del: replicate_Suc)
  have finish: "lwp (lmap (finish_row n (n + m) cs) (zip [0..<length t] t)) (\<lambda>out. mat_ok m (n + m + 1) out \<and>
      (\<forall>i < m. let s = sgn_of (coefl (fst target) i) in
        (\<forall>j < n. entry out i j = s * of_int (coefl (fst (facts ! j)) i)) \<and>
        (\<forall>j < m. entry out i (n + j) = (if j = i then 1 else 0)) \<and>
        entry out i (n + m) = s * of_int (coefl (fst target) i)))"
    if c: "length cs = m \<and> (\<forall>v < m. cs ! v = coefl (fst target) v \<and> fits (cs ! v))" and A: "?A n t" for cs t
  proof -
    have len: "length t = m" and rows: "\<And>i. i < m \<Longrightarrow> row_ok (n + m + 1) (t ! i)" using A mat_okD by blast+
    let ?Q = "\<lambda>i out. row_ok (n + m + 1) out \<and>
      (\<forall>j < n. qval (out ! j) = sgn_of (cs ! i) * qval (t ! i ! j)) \<and>
      (\<forall>j < m. qval (out ! (n + j)) = (if j = i then 1 else qval (t ! i ! (n + j)))) \<and>
      qval (out ! (n + m)) = sgn_of (cs ! i) * of_int (cs ! i)"
    have "lwp (lmap (finish_row n (n + m) cs) (zip [0..<length t] t)) (\<lambda>out. length out = length (zip [0..<length t] t) \<and>
        (\<forall>i < length (zip [0..<length t] t). ?Q i (out ! i)))"
    proof (rule lwp_map_nth)
      fix i
      assume "i < length (zip [0..<length t] t)"
      then have i: "i < m" using len by simp
      have f: "fits (cs ! i)" using c i by blast
      show "lwp (finish_row n (n + m) cs (zip [0..<length t] t ! i)) (?Q i)"
        using lwp_finish_row [OF rows [OF i] i _ f] c i len by (simp split del: if_split)
    qed
    then show ?thesis
      by (rule lwp_mono) (use len A c in \<open>auto simp: Let_def entry_def intro!: mat_ok_nth\<close>)
  qed
  show ?thesis
    unfolding tableau_def Let_def n [symmetric]
    by (intro lwps lwp_mono [OF lwp_target_row [OF target d]] lwp_mono [OF fill [folded n]] finish [unfolded Let_def])
qed

subsection \<open>Integers\<close>

lemma lwp_common_scale:
  assumes lam: "\<forall>l \<in> set lam. q_ok l"
  shows "lwp (common_scale lam) (\<lambda>mu. 0 < mu \<and> (\<forall>l \<in> set lam. \<not> q_zero l \<longrightarrow> q_den l dvd mu))"
proof -
  let ?ls = "filter (\<lambda>l. \<not> q_zero l) lam"
  let ?I = "\<lambda>k mu. 0 < mu \<and> fits mu \<and> (\<forall>l \<in> set (take k ?ls). q_den l dvd mu)"
  have "lwp (common_scale lam) (?I (length ?ls))"
    unfolding common_scale_def
  proof (rule lwp_fold [where I = ?I])
    fix k mu
    assume k: "k < length ?ls" and I: "?I k mu"
    let ?l = "?ls ! k"
    let ?g = "max (q_gcd mu (q_den ?l)) 1"
    have "?l \<in> set ?ls" using k by (rule nth_mem)
    then have d: "0 < q_den ?l" "fits (q_den ?l)" using lam by (auto simp: q_ok_def)
    then have g: "mu sdiv ?g * ?g = mu" "q_den ?l sdiv ?g * ?g = q_den ?l"
      using q_gcd_dvd [of mu "q_den ?l"] I by (simp_all add: sdiv_exact)
    have pos: "0 < q_den ?l sdiv ?g"
      using d(1) zero_less_mult_pos2 [of "q_den ?l sdiv ?g" ?g] by (simp add: g(2))
    have "mu * (q_den ?l sdiv ?g) = mu sdiv ?g * ?g * (q_den ?l sdiv ?g)"
      by (simp only: g(1))
    also have "\<dots> = mu sdiv ?g * (q_den ?l sdiv ?g * ?g)"
      by (simp only: mult.assoc mult.commute [of ?g])
    finally have dvd: "q_den ?l dvd mu * (q_den ?l sdiv ?g)"
      by (simp only: g(2) dvd_triv_right)
    have next_I: "?I (Suc k) x" if x: "chk_mul mu (q_den ?l sdiv ?g) = Some x" for x
    proof -
      have "x = mu * (q_den ?l sdiv ?g)" and "fits x" using x unfolding chk_mul_Some by blast+
      then show ?thesis
        using I pos dvd k by (simp add: take_Suc_conv_app_nth)
    qed
    show "lwp (lopt (chk_mul mu (q_den ?l sdiv ?g))) (?I (Suc k))"
      by (rule lwp_opt) (rule next_I)
  qed (simp add: fits_def)
  then show ?thesis
    by (rule lwp_mono) auto
qed

lemma lwp_integer_multipliers:
  assumes lam: "row_ok n lam"
  shows "lwp (integer_multipliers lam) (\<lambda>(out, mu). 0 < mu \<and> (\<forall>p \<in> set out. fst p < n \<and> 0 < snd p) \<and>
    (\<forall>f :: nat \<Rightarrow> rat. (\<Sum>p\<leftarrow>out. of_int (snd p) * f (fst p)) = of_int mu * (\<Sum>j < n. qval (lam ! j) * f j)))"
proof -
  have len: "length lam = n" and ok: "\<forall>l \<in> set lam. q_ok l" using lam by (simp_all add: row_ok_def)
  let ?f = "\<lambda>mu (j, l) out. if q_neg l then lnone else if q_zero l then lret out
    else lbind (lopt (chk_mul (q_num l) (mu sdiv q_den l))) (\<lambda>k. lret (out @ [(j, k)]))"
  let ?I = "\<lambda>mu k out. (\<forall>p \<in> set out. fst p < n \<and> 0 < snd p) \<and>
    (\<forall>f :: nat \<Rightarrow> rat. (\<Sum>p\<leftarrow>out. of_int (snd p) * f (fst p)) = of_int mu * (\<Sum>j < k. qval (lam ! j) * f j))"
  have step: "lwp (lfold (?f mu) (zip [0..<length lam] lam) []) (?I mu (length lam))"
    if mu: "0 < mu" "\<forall>l \<in> set lam. \<not> q_zero l \<longrightarrow> q_den l dvd mu" for mu
  proof (rule lwp_fold_zip [where I = "?I mu"])
    fix k out
    assume k: "k < length lam" and I: "?I mu k out"
    let ?l = "lam ! k" and ?k = "q_num (lam ! k) * (mu sdiv q_den (lam ! k))"
    have l: "?l \<in> set lam" "q_ok ?l" using k ok by simp_all
    have add: "?I mu (Suc k) (out @ [(k, ?k)])" if nz: "\<not> q_zero ?l" "\<not> q_neg ?l"
    proof -
      have d: "0 < q_den ?l" "mu sdiv q_den ?l * q_den ?l = mu"
        using l mu nz by (simp_all add: q_ok_def sdiv_exact)
      then have p: "0 < mu sdiv q_den ?l" using mu(1) by (metis zero_less_mult_pos2)
      have "0 < q_num ?l" using nz by (simp add: q_zero_def q_neg_def)
      then have "0 < ?k" using p by simp
      moreover have "of_int ?k = of_int mu * qval ?l"
        using d(1) arg_cong [OF d(2), of "of_int :: int \<Rightarrow> rat"] by (simp add: qval_def field_simps)
      ultimately show ?thesis
        using I k len by (simp add: algebra_simps)
    qed
    have skip: "?I mu (Suc k) out" if "q_zero ?l"
      using that I q_signs(1) [OF l(2)] by simp
    show "lwp (?f mu (k, ?l) out) (?I mu (Suc k))"
      unfolding prod.case by (intro lwps lwp_opt) (use add skip in simp_all)
  qed simp
  then show ?thesis
    unfolding integer_multipliers_def len [symmetric]
    by (intro lwps lwp_mono [OF lwp_common_scale [OF ok]]) (elim conjE, intro lwps lwp_mono [OF step], auto simp: len)
qed

lemma lwp_reached_value:
  assumes lam: "row_ok n lam" and n: "n = length facts" and facts: "\<forall>s \<in> set facts. fact_ok m s"
  shows "lwp (reached_value facts lam) (\<lambda>v. q_ok v \<and> qval v = (\<Sum>j < n. qval (lam ! j) * of_int (snd (facts ! j))))"
proof -
  let ?I = "\<lambda>k v. q_ok v \<and> qval v = (\<Sum>j < k. qval (lam ! j) * of_int (snd (facts ! j)))"
  have "lwp (reached_value facts lam) (?I (length facts))"
    unfolding reached_value_def
  proof (rule lwp_fold_zip [where I = ?I])
    fix k v
    assume k: "k < length facts" and I: "?I k v"
    obtain row b where f: "facts ! k = (row, b)" by (cases "facts ! k")
    have b: "q_ok (q_int b)" using facts k f fact_okD(2) [of m "facts ! k"] by (metis nth_mem q_int_val(2) snd_conv)
    show "lwp ((case (k, facts ! k) of (j, _, b) \<Rightarrow> \<lambda>val. lbind (lidx lam j) (\<lambda>l. lbind (lopt (q_mul l (q_int b))) (\<lambda>y. lopt (q_add val y)))) v)
        (?I (Suc k))"
      unfolding f prod.case by (intro lwps lwp_q b) (use k n f I row_okD [OF lam] in simp_all)
  qed (simp add: fits_def)
  then show ?thesis using n by simp
qed

subsection \<open>The answer\<close>

text \<open>
  Nonnegative integer multipliers of the facts and a positive scale: coefficient by coefficient the
  combination is the scale times the target, and its constant is at least as large.
\<close>

definition certifies :: "sparse list \<Rightarrow> sparse \<Rightarrow> (nat \<times> int) list \<Rightarrow> int \<Rightarrow> bool" where
  "certifies facts target ps mu \<longleftrightarrow>
     0 < mu \<and> (\<forall>p \<in> set ps. fst p < length facts \<and> 0 < snd p) \<and>
     (\<forall>v. (\<Sum>p\<leftarrow>ps. snd p * coefl (fst (facts ! fst p)) v) = mu * coefl (fst target) v) \<and>
     mu * snd target \<le> (\<Sum>p\<leftarrow>ps. snd p * snd (facts ! fst p))"

lemma sgn_of_nz [simp]: "sgn_of c \<noteq> 0"
  by (simp add: sgn_of_def)

lemma coefl_outside: "fact_ok m s \<Longrightarrow> m \<le> v \<Longrightarrow> coefl (fst s) v = 0"
  by (intro coefl_absent) (auto simp: fact_ok_def)

text \<open>A solution of the first table combines the facts into the target.\<close>

lemma tableau_sol:
  assumes t: "\<forall>i < m. let s = sgn_of (coefl (fst target) i) in
      (\<forall>j < n. entry t i j = s * of_int (coefl (fst (facts ! j)) i)) \<and>
      (\<forall>j < m. entry t i (n + j) = (if j = i then 1 else 0)) \<and>
      entry t i (n + m) = s * of_int (coefl (fst target) i)"
    and s: "sol m (n + m) t (\<lambda>j. if j < n then lam j else 0)" and i: "i < m"
  shows "(\<Sum>j < n. lam j * of_int (coefl (fst (facts ! j)) i)) = of_int (coefl (fst target) i)"
proof -
  let ?s = "sgn_of (coefl (fst target) i)"
  have "(\<Sum>j < n + m. entry t i j * (if j < n then lam j else 0)) = (\<Sum>j < n. entry t i j * lam j)"
    by (intro sum.mono_neutral_cong_right) auto
  also have "\<dots> = ?s * (\<Sum>j < n. lam j * of_int (coefl (fst (facts ! j)) i))"
    using t i by (auto simp: sum_distrib_left Let_def intro!: sum.cong)
  finally have "?s * (\<Sum>j < n. lam j * of_int (coefl (fst (facts ! j)) i)) = ?s * of_int (coefl (fst target) i)"
    using s t i by (simp add: sol_def Let_def)
  then show ?thesis
    by auto
qed

lemma tableau_canon:
  assumes "\<forall>i < m. (\<forall>j < m. entry t i (n + j) = (if j = i then 1 else 0))"
  shows "canon m (n + m) t [n..<n + m]"
  using assms by (auto simp: canon_def)

lemma of_int_sum: "of_int (\<Sum>p\<leftarrow>ps. f p) = (\<Sum>p\<leftarrow>ps. of_int (f p))"
  by (induction ps) simp_all

lemma certifies_rat:
  assumes facts: "\<forall>s \<in> set facts. fact_ok m s" and target: "fact_ok m target"
    and mu: "0 < mu" and ps: "\<forall>p \<in> set ps. fst p < length facts \<and> 0 < snd p"
    and sums: "\<forall>f :: nat \<Rightarrow> rat. (\<Sum>p\<leftarrow>ps. of_int (snd p) * f (fst p)) = of_int mu * (\<Sum>j < length facts. lam j * f j)"
    and eq: "\<forall>i < m. (\<Sum>j < length facts. lam j * of_int (coefl (fst (facts ! j)) i)) = of_int (coefl (fst target) i)"
    and val: "of_int (snd target) \<le> (\<Sum>j < length facts. lam j * of_int (snd (facts ! j)))"
  shows "certifies facts target ps mu"
  unfolding certifies_def
proof (intro conjI allI mu ps)
  fix v
  show "(\<Sum>p\<leftarrow>ps. snd p * coefl (fst (facts ! fst p)) v) = mu * coefl (fst target) v"
  proof (cases "v < m")
    case True
    have "of_int (\<Sum>p\<leftarrow>ps. snd p * coefl (fst (facts ! fst p)) v) = (of_int (mu * coefl (fst target) v) :: rat)"
      using sums [rule_format, of "\<lambda>j. of_int (coefl (fst (facts ! j)) v)"] eq True
      by (simp add: of_int_sum)
    then show ?thesis by (simp only: of_int_eq_iff)
  next
    case False
    then have "(\<Sum>p\<leftarrow>ps. snd p * coefl (fst (facts ! fst p)) v) = (\<Sum>p\<leftarrow>ps. 0)"
      using facts ps coefl_outside [of m _ v] by (intro arg_cong [of _ _ sum_list] map_cong) auto
    then show ?thesis
      using coefl_outside [OF target, of v] False by simp
  qed
next
  have "of_int (mu * snd target) \<le> (of_int mu * (\<Sum>j < length facts. lam j * of_int (snd (facts ! j))) :: rat)"
    using val mu by (simp add: mult_left_mono)
  also have "\<dots> = of_int (\<Sum>p\<leftarrow>ps. snd p * snd (facts ! fst p))"
    using sums [rule_format, of "\<lambda>j. of_int (snd (facts ! j))"] by (simp add: of_int_sum)
  finally show "mu * snd target \<le> (\<Sum>p\<leftarrow>ps. snd p * snd (facts ! fst p))"
    by (simp only: of_int_le_iff)
qed

lemma lwp_farkas:
  assumes facts: "\<forall>s \<in> set facts. fact_ok m s" and target: "fact_ok m target" and d: "distinct (map fst (fst target))"
  shows "lwp (farkas facts target m) (\<lambda>(ps, mu). certifies facts target ps mu)"
proof -
  let ?n = "length facts"
  let ?cols = "?n + m"
  let ?obj = "map (q_int \<circ> snd) facts @ replicate m (q_int 0)"
  let ?goal = "q_int (snd target)"
  have g: "q_ok ?goal" using fact_okD(2) [OF target] by simp
  have obj: "row_ok ?cols ?obj"
    using facts by (auto simp: row_ok_def fact_ok_def fits_def)
  let ?T = "\<lambda>t. mat_ok m (?cols + 1) t \<and> (\<forall>i < m. let s = sgn_of (coefl (fst target) i) in
      (\<forall>j < ?n. entry t i j = s * of_int (coefl (fst (facts ! j)) i)) \<and>
      (\<forall>j < m. entry t i (?n + j) = (if j = i then 1 else 0)) \<and>
      entry t i ?cols = s * of_int (coefl (fst target) i))"
  have last: "lwp (integer_multipliers lam) (\<lambda>(ps, mu). certifies facts target ps mu)"
    if "?T t" "row_ok ?n lam" "sol m ?cols t (\<lambda>j. if j < ?n then qval (lam ! j) else 0)"
      "of_int (snd target) \<le> (\<Sum>j < ?n. qval (lam ! j) * of_int (snd (facts ! j)))" for t lam
    using tableau_sol [OF conjunct2 [OF that(1)] that(3)] that(4)
    by (intro lwp_mono [OF lwp_integer_multipliers [OF that(2)]])
      (auto intro!: certifies_rat [OF facts target])
  have reach: "lwp (lbind (reached_value facts lam) (\<lambda>val. lbind (lopt (q_cmp val ?goal)) (\<lambda>(a, b).
      if a < b then lnone else integer_multipliers lam))) (\<lambda>(ps, mu). certifies facts target ps mu)"
    if "?T t" "row_ok ?n lam \<and> sol m ?cols t (\<lambda>j. if j < ?n then qval (lam ! j) else 0)" for t lam
    using that by (intro lwps lwp_mono [OF lwp_reached_value [OF _ _ facts]] lwp_opt lwp_prod last)
      (auto simp: q_cmp_val(1) [OF _ _ g])
  have first: "table_of m ?cols t t [?n..<?n + m]" if "?T t" for t
    using that tableau_canon [of m t ?n] by (auto simp: table_of_def Let_def)
  have search: "lwp (lbind (phase1 t [?n..<?n + m] ?n ?cols) (\<lambda>(t1, b1).
      lbind (simplex t1 b1 ?obj ?n (Some ?goal)) (\<lambda>(ray, t2, b2).
        lbind (multipliers t2 b2 ?n ?cols ray) (\<lambda>lam. lbind (reached_value facts lam) (\<lambda>val.
          lbind (lopt (q_cmp val ?goal)) (\<lambda>(a, b). if a < b then lnone else integer_multipliers lam))))))
      (\<lambda>(ps, mu). certifies facts target ps mu)" if "?T t" for t
  proof (intro lwp_bind lwp_mono [OF lwp_phase1 [OF first [OF that]]], simp, clarify)
    fix t1 b1
    assume one: "table_of m ?cols t t1 b1" "art m ?n ?cols t1 b1"
    show "lwp (lbind (simplex t1 b1 ?obj ?n (Some ?goal)) (\<lambda>(ray, t2, b2).
        lbind (multipliers t2 b2 ?n ?cols ray) (\<lambda>lam. lbind (reached_value facts lam) (\<lambda>val.
          lbind (lopt (q_cmp val ?goal)) (\<lambda>(a, b). if a < b then lnone else integer_multipliers lam)))))
      (\<lambda>(ps, mu). certifies facts target ps mu)"
    proof (intro lwp_bind lwp_mono [OF lwp_phase2 [OF one obj _ g]], simp, clarify)
      fix ray t2 b2
      assume two: "table_of m ?cols t t2 b2" "art m ?n ?cols t2 b2" "ray_ok m ?n t2 ?cols ray"
      show "lwp (lbind (multipliers t2 b2 ?n ?cols ray) (\<lambda>lam. lbind (reached_value facts lam) (\<lambda>val.
          lbind (lopt (q_cmp val ?goal)) (\<lambda>(a, b). if a < b then lnone else integer_multipliers lam))))
        (\<lambda>(ps, mu). certifies facts target ps mu)"
        by (rule lwp_bind, rule lwp_mono [OF lwp_multipliers [OF two]], simp, rule reach [OF that])
    qed
  qed
  show ?thesis
    unfolding farkas_def Let_def
    by (rule lwp_bind, rule lwp_mono [OF lwp_tableau [OF facts target d refl]], rule search)
qed

end
