(* ===== verification/Prover.thy ===== *)
theory Prover
  imports Prover_Text Lp_Sound
begin

text \<open>
  The prover of one fact, \<open>prove\<close> of \<open>crates/almide-lin-prove/src/lib.rs\<close>: the fact itself, one fact
  scaled, or the simplex.
\<close>

subsection \<open>Ordered maps\<close>

text \<open>\<open>*m.entry(k).or_insert(0) += a\<close> on a \<open>BTreeMap\<close>, kept as its sorted entries.\<close>

fun bt_add :: "'k :: linorder \<Rightarrow> int \<Rightarrow> ('k \<times> int) list \<Rightarrow> ('k \<times> int) list" where
  "bt_add k a [] = [(k, wrap a)]"
| "bt_add k a ((u, b) # m) =
     (if k < u then (k, wrap a) # (u, b) # m
      else if k = u then (u, wrap (b + a)) # m
      else (u, b) # bt_add k a m)"

definition nonzero :: "('k \<times> int) list \<Rightarrow> ('k \<times> int) list" where
  "nonzero m = filter (\<lambda>(_, a). a \<noteq> 0) m"

definition coefs :: "form \<Rightarrow> pterms" where
  "coefs l = nonzero (foldl (\<lambda>m (v, a). bt_add v a m) [] (f_terms l))"

subsection \<open>The search for a proof\<close>

fun index_of :: "'a \<Rightarrow> 'a list \<Rightarrow> nat option" where
  "index_of x [] = None"
| "index_of x (y # ys) = (if x = y then Some 0 else map_option Suc (index_of x ys))"

function p_gcd :: "int \<Rightarrow> int \<Rightarrow> int" where
  "p_gcd a b = (if b = 0 then i_abs a else p_gcd b (a smod b))"
  by pat_completeness auto
termination
proof (relation "measure (\<lambda>(a, b). nat \<bar>b\<bar>)", goal_cases)
  case (2 a b)
  then have "\<bar>a smod b\<bar> < \<bar>b\<bar>"
    by (simp add: signed_modulo_int_def abs_mult abs_mod_less)
  then show ?case using 2 by simp
qed simp

declare p_gcd.simps [simp del]

text \<open>One fact, scaled: \<open>lam\<close> times the fact is \<open>mu\<close> times the target, coefficient by coefficient.\<close>

definition scales :: "pterms \<Rightarrow> form \<Rightarrow> pvar \<Rightarrow> int \<Rightarrow> form \<Rightarrow> (int \<times> int) option" where
  "scales tc t v0 a0 g =
     (let gc = coefs g
      in case map_of gc v0 of
           None \<Rightarrow> None
         | Some b0 \<Rightarrow>
             if (0 < b0) \<noteq> (0 < a0) \<or> length gc \<noteq> length tc then None
             else let lam = i_abs a0; mu = i_abs b0
                  in if list_all (\<lambda>(v, b). case map_of tc v of Some a \<Rightarrow> wrap (lam * b) = wrap (mu * a) | None \<Rightarrow> False) gc \<and>
                        wrap (mu * f_cst t) \<le> wrap (lam * f_cst g)
                     then let gg = max (p_gcd lam mu) 1 in Some (lam sdiv gg, mu sdiv gg)
                     else None)"

fun first_scaled :: "pterms \<Rightarrow> form \<Rightarrow> pvar \<Rightarrow> int \<Rightarrow> nat \<Rightarrow> form list \<Rightarrow> (nat \<times> int \<times> int) option" where
  "first_scaled tc t v0 a0 j [] = None"
| "first_scaled tc t v0 a0 j (g # gs) =
     (case scales tc t v0 a0 g of
        Some (lam, mu) \<Rightarrow> Some (j, lam, mu)
      | None \<Rightarrow> first_scaled tc t v0 a0 (Suc j) gs)"

definition one_fact :: "form list \<Rightarrow> form \<Rightarrow> (nat \<times> int \<times> int) option" where
  "one_fact f t = (case coefs t of [] \<Rightarrow> None | (v0, a0) # _ \<Rightarrow> first_scaled (coefs t) t v0 a0 0 f)"

text \<open>A form as a sparse row; \<open>idx\<close> holds the variables in the order of their numbers.\<close>

definition row_term :: "pvar list \<times> (nat \<times> int) list \<Rightarrow> pvar \<times> int \<Rightarrow> pvar list \<times> (nat \<times> int) list" where
  "row_term = (\<lambda>(idx, m) (v, a).
     case index_of v idx of
       Some i \<Rightarrow> (idx, bt_add i a m)
     | None \<Rightarrow> (idx @ [v], bt_add (length idx) a m))"

definition sparse_row :: "pvar list \<Rightarrow> form \<Rightarrow> pvar list \<times> sparse" where
  "sparse_row idx l =
     (let (idx2, m) = foldl row_term (idx, []) (f_terms l) in (idx2, (nonzero m, f_cst l)))"

fun sparse_rows :: "pvar list \<Rightarrow> form list \<Rightarrow> pvar list \<times> sparse list" where
  "sparse_rows idx [] = (idx, [])"
| "sparse_rows idx (g # gs) =
     (let (idx2, r) = sparse_row idx g; (idx3, rs) = sparse_rows idx2 gs in (idx3, r # rs))"

text \<open>\<open>past_deadline\<close>: the pivots taken so far exceed the budget.\<close>

definition past_deadline :: "nat \<Rightarrow> bool lp" where
  "past_deadline budget n = (LDone (budget < n), n)"

definition prove :: "nat \<Rightarrow> form list \<Rightarrow> form \<Rightarrow> bytes lp" where
  "prove budget f t =
     (case index_of t f of
        Some j \<Rightarrow> lret (CHR ''('' # dec_string j @ '':1)1'')
      | None \<Rightarrow>
          (case one_fact f t of
             Some (j, lam, mu) \<Rightarrow> lret (CHR ''('' # dec_string j @ CHR '':'' # z_text lam @ CHR '')'' # z_text mu)
           | None \<Rightarrow>
               lbind (past_deadline budget) (\<lambda>late.
                 if late then lnone
                 else let (idx, rows) = sparse_rows [] f; (idx2, tr) = sparse_row idx t
                      in lbind (farkas rows tr (length idx2)) (\<lambda>(ps, mu). lret (pf_text (ps, mu))))))"

subsection \<open>Ordered maps hold sums\<close>

definition bval :: "('k \<times> int) list \<Rightarrow> 'k \<Rightarrow> int" where
  "bval m k = (case map_of m k of None \<Rightarrow> 0 | Some a \<Rightarrow> a)"

lemma bval_simps [simp]: "bval [] k = 0" "bval ((u, a) # m) k = (if k = u then a else bval m k)"
  by (simp_all add: bval_def)

definition sorted_map :: "('k :: linorder \<times> int) list \<Rightarrow> bool" where
  "sorted_map m \<longleftrightarrow> sorted_wrt (<) (map fst m)"

lemma sorted_map_simps [simp]:
  "sorted_map []" "sorted_map ((k, a) # m) \<longleftrightarrow> (\<forall>p \<in> set m. k < fst p) \<and> sorted_map m"
  by (auto simp: sorted_map_def)

lemma sorted_map_distinct: "sorted_map m \<Longrightarrow> distinct (map fst m)"
  by (simp add: sorted_map_def strict_sorted_iff)

lemma bt_add_keys: "fst ` set (bt_add k a m) = insert k (fst ` set m)"
proof (induction m)
  case (Cons p m)
  then show ?case by (cases p) (simp split: if_split, blast)
qed simp

lemma bval_absent: "k \<notin> fst ` set m \<Longrightarrow> bval m k = 0"
  by (induction m) auto

lemma bt_add_val:
  assumes "sorted_map m" and "\<bar>bval m k + a\<bar> < 2 ^ 127"
  shows "sorted_map (bt_add k a m)" "bval (bt_add k a m) j = bval m j + (if j = k then a else 0)"
proof -
  have "sorted_map (bt_add k a m) \<and> bval (bt_add k a m) j = bval m j + (if j = k then a else 0)"
    using assms
  proof (induction m)
    case (Cons p m)
    obtain u b where p: "p = (u, b)" by (cases p)
    have less: "\<forall>q \<in> set m. u < fst q" and m: "sorted_map m" using Cons.prems(1) p by auto
    show ?case
    proof (cases "k \<le> u")
      case True
      have z: "bval m k = 0" using less True by (intro bval_absent) auto
      moreover have "bval m u = 0" using less by (intro bval_absent) auto
      ultimately show ?thesis
        using True less m Cons.prems wrap_abs [of a] wrap_abs [of "b + a"] p by (auto simp: p)
    next
      case False
      then have IH: "sorted_map (bt_add k a m) \<and> bval (bt_add k a m) j = bval m j + (if j = k then a else 0)"
        using Cons.IH [OF m] Cons.prems(2) p by (simp split: if_splits)
      have "\<forall>q \<in> set (bt_add k a m). u < fst q"
        using less False bt_add_keys [of k a m] by (metis image_iff insert_iff not_le)
      then show ?thesis
        using IH False p by auto
    qed
  qed (simp add: wrap_abs)
  then show "sorted_map (bt_add k a m)" "bval (bt_add k a m) j = bval m j + (if j = k then a else 0)" by auto
qed

lemma nonzero_sorted: "sorted_map m \<Longrightarrow> sorted_map (nonzero m)"
  by (induction m) (auto simp: nonzero_def)

lemma nonzero_val: "sorted_map m \<Longrightarrow> bval (nonzero m) k = bval m k"
proof (induction m)
  case (Cons p m)
  then have "\<forall>q \<in> set m. fst p < fst q" by (cases p) simp
  then have "bval m (fst p) = 0" by (intro bval_absent) auto
  then show ?case
    using Cons by (cases p) (auto simp: nonzero_def)
qed (simp add: nonzero_def)

lemma nonzero_keys: "sorted_map m \<Longrightarrow> k \<in> fst ` set (nonzero m) \<longleftrightarrow> bval m k \<noteq> 0"
proof (induction m)
  case (Cons p m)
  then have "\<forall>q \<in> set m. fst p < fst q" by (cases p) simp
  then have "bval m (fst p) = 0" by (intro bval_absent) auto
  then show ?case
    using Cons by (cases p) (auto simp: nonzero_def)
qed (simp add: nonzero_def)

lemma coefs_fold:
  assumes "sorted_map m" and "\<And>v. \<bar>bval m v\<bar> + mass ts < 2 ^ 127"
  shows "sorted_map (foldl (\<lambda>m (v, a). bt_add v a m) m ts) \<and>
    (\<forall>v. bval (foldl (\<lambda>m (v, a). bt_add v a m) m ts) v = bval m v + vcoef ts v)"
  using assms
proof (induction ts arbitrary: m)
  case (Cons p ts)
  obtain u a where p: "p = (u, a)" by (cases p)
  have b: "\<bar>bval m v\<bar> + \<bar>a\<bar> + mass ts < 2 ^ 127" for v using Cons.prems(2) [of v] by (simp add: p)
  have "\<bar>bval m u + a\<bar> < 2 ^ 127" using b [of u] mass_nonneg [of ts] by linarith
  note s = bt_add_val [OF Cons.prems(1) this]
  have "\<bar>bval (bt_add u a m) v\<bar> + mass ts < 2 ^ 127" for v
    using b [of v] abs_triangle_ineq [of "bval m v" a] by (auto simp: s(2))
  then show ?case
    using Cons.IH [OF s(1)] s(2) by (simp add: p)
qed simp

lemma coefs_val:
  assumes "mass (f_terms l) < 2 ^ 127"
  shows "sorted_map (coefs l)" "bval (coefs l) v = vcoef (f_terms l) v"
    "v \<in> fst ` set (coefs l) \<longleftrightarrow> vcoef (f_terms l) v \<noteq> 0"
  using coefs_fold [of "[]" "f_terms l"] assms
  by (auto simp: coefs_def nonzero_sorted nonzero_val nonzero_keys)

end
