(* ===== verification/Prover_Accept.thy ===== *)
theory Prover_Accept
  imports Prover
begin

text \<open>
  A proof the prover writes is a proof the checker accepts: \<open>entails\<close> holds of it, and its text is read
  back as that proof.
\<close>

subsection \<open>The checker accepts a certificate\<close>

definition fact_proof :: "form list \<Rightarrow> form \<Rightarrow> (nat \<times> int) list \<Rightarrow> int \<Rightarrow> bool" where
  "fact_proof f t ps mu \<longleftrightarrow>
     0 < mu \<and> (\<forall>p \<in> set ps. fst p < length f \<and> 0 < snd p) \<and>
     (\<forall>v. (\<Sum>p\<leftarrow>ps. snd p * vcoef (f_terms (f ! fst p)) v) = mu * vcoef (f_terms t) v) \<and>
     mu * f_cst t \<le> (\<Sum>p\<leftarrow>ps. snd p * f_cst (f ! fst p))"

lemma as_index_dnat [simp]: "j < 10 ^ 18 \<Longrightarrow> as_index (dnat_of j) = Some j"
  using as_index_None [of "dnat_of j"] as_index_Some [of "dnat_of j"] by (cases "as_index (dnat_of j)") auto

lemma coef_append: "zval (coef (s @ t) v) = zval (coef s v) + zval (coef t v)"
  by (induction s) (auto simp: coef_Cons)

lemma coef_scale: "zval (coef (scale k ts) v) = zval k * zval (coef ts v)"
  by (induction ts) (auto simp: scale_def coef_Cons zval_simps algebra_simps)

lemma comb_proof:
  assumes len: "length f \<le> 10 ^ 18" and "\<forall>p \<in> set ps. fst p < length f \<and> 0 < snd p"
  shows "\<exists>ts c. comb (map lform f) (map (\<lambda>(j, k). (dnat_of j, z_of_int k)) ps) = Some (ts, c) \<and>
    fst ` set ts \<subseteq> range lv \<and>
    (\<forall>v. zval (coef ts (lv v)) = (\<Sum>p\<leftarrow>ps. snd p * vcoef (f_terms (f ! fst p)) v)) \<and>
    zval c = (\<Sum>p\<leftarrow>ps. snd p * f_cst (f ! fst p))"
  using assms(2)
proof (induction ps)
  case (Cons p ps)
  obtain j k where p: "p = (j, k)" by (cases p)
  obtain ts c where IH: "comb (map lform f) (map (\<lambda>(j, k). (dnat_of j, z_of_int k)) ps) = Some (ts, c)"
    "fst ` set ts \<subseteq> range lv"
    "\<forall>v. zval (coef ts (lv v)) = (\<Sum>p\<leftarrow>ps. snd p * vcoef (f_terms (f ! fst p)) v)"
    "zval c = (\<Sum>p\<leftarrow>ps. snd p * f_cst (f ! fst p))"
    using Cons.IH Cons.prems by auto
  have j: "j < length f" and k: "0 < k" using Cons.prems p by simp_all
  then have "fact_at (map lform f) (dnat_of j) = Some (lform (f ! j))"
    using len by (simp add: fact_at_def)
  then have "comb (map lform f) (map (\<lambda>(j, k). (dnat_of j, z_of_int k)) (p # ps)) =
      Some (scale (z_of_int k) (terms (lform (f ! j))) @ ts, z_add (z_mul (z_of_int k) (cst (lform (f ! j)))) c)"
    using IH(1) k by (simp add: p zval_is_neg)
  moreover have "fst ` set (scale (z_of_int k) (terms (lform (f ! j)))) \<subseteq> range lv"
    by (auto simp: scale_def lform_simps lterms_def)
  ultimately show ?case
    using IH(2-4) by (auto simp: p coef_append coef_scale coef_lterms lform_simps zval_simps)
qed simp

lemma fact_proof_entails:
  assumes "fact_proof f t ps mu" and "length f \<le> 10 ^ 18"
  shows "entails (map lform f) (z_pf (ps, mu)) (lform t)"
proof -
  obtain ts c where c: "comb (map lform f) (map (\<lambda>(j, k). (dnat_of j, z_of_int k)) ps) = Some (ts, c)"
    "fst ` set ts \<subseteq> range lv"
    "\<forall>v. zval (coef ts (lv v)) = (\<Sum>p\<leftarrow>ps. snd p * vcoef (f_terms (f ! fst p)) v)"
    "zval c = (\<Sum>p\<leftarrow>ps. snd p * f_cst (f ! fst p))"
    using comb_proof [OF assms(2), of ps] assms(1) by (auto simp: fact_proof_def)
  have mu: "0 < mu" and eq: "\<And>v. zval (coef ts (lv v)) = mu * vcoef (f_terms t) v" and "mu * f_cst t \<le> zval c"
    using assms(1) c(3,4) by (simp_all add: fact_proof_def)
  moreover have "coef ts u = z_mul (z_of_int mu) (coef (terms (lform t)) u)" if "u \<in> fst ` set (ts @ terms (lform t))" for u
  proof -
    have "u \<in> range lv"
      using that c(2) by (auto simp: lform_simps lterms_def)
    then obtain v where "u = lv v" by blast
    then show ?thesis
      using eq [of v] by (simp add: zval_inj [symmetric] zval_simps lform_simps coef_lterms)
  qed
  ultimately show ?thesis
    unfolding entails_def z_pf_def using c(1)
    by (force simp: zval_simps list_all_iff lform_simps)
qed

subsection \<open>One fact\<close>

lemma p_gcd_dvd: "fits a \<Longrightarrow> fits b \<Longrightarrow> p_gcd a b dvd a \<and> p_gcd a b dvd b"
proof (induction a b rule: p_gcd.induct)
  case (1 a b)
  show ?case
  proof (cases "b = 0")
    case True
    then show ?thesis
      using 1(2) i_abs_dvd [of a "i_abs a"] by (simp add: p_gcd.simps)
  next
    case False
    have "\<bar>a smod b\<bar> < \<bar>b\<bar>" and "\<bar>b\<bar> \<le> 2 ^ 127"
      using False 1(3) by (auto simp: signed_modulo_int_def abs_mult abs_mod_less fits_def)
    then have "fits (a smod b)"
      by (intro fits_abs) linarith
    then show ?thesis
      using 1(1) [OF False 1(3)] False smod_dvd [of "p_gcd b (a smod b)" b a] by (simp add: p_gcd.simps [of a b])
  qed
qed

lemma index_of_Some: "index_of x xs = Some i \<Longrightarrow> i < length xs \<and> xs ! i = x"
  by (induction xs arbitrary: i) (auto split: if_splits)

lemma index_of_None: "index_of x xs = None \<longleftrightarrow> x \<notin> set xs"
  by (induction xs) auto

lemma first_scaled_Some:
  "first_scaled tc t v0 a0 j gs = Some (i, lam, mu) \<Longrightarrow> j \<le> i \<and> i - j < length gs \<and> scales tc t v0 a0 (gs ! (i - j)) = Some (lam, mu)"
proof (induction gs arbitrary: j)
  case (Cons g gs)
  show ?case
  proof (cases "scales tc t v0 a0 g")
    case None
    then have "Suc j \<le> i \<and> i - Suc j < length gs \<and> scales tc t v0 a0 (gs ! (i - Suc j)) = Some (lam, mu)"
      using Cons by simp
    then show ?thesis by (auto simp: nth_Cons' Suc_diff_Suc less_diff_conv)
  next
    case (Some q)
    then show ?thesis using Cons.prems by (cases q) simp
  qed
qed simp

text \<open>All numbers of a form below a bound whose square fits.\<close>

lemma square_fits:
  assumes "\<bar>x\<bar> \<le> b" and "\<bar>y\<bar> \<le> b" and "b * b < 2 ^ 127"
  shows "wrap (x * y) = x * y"
proof (rule wrap_abs)
  have "\<bar>x\<bar> * \<bar>y\<bar> \<le> b * b"
    using assms(1,2) by (intro mult_mono) auto
  then show "\<bar>x * y\<bar> < 2 ^ 127"
    using assms(3) by (simp add: abs_mult)
qed

lemma abs_below:
  fixes b :: int
  assumes "0 \<le> b" and "b * b < 2 ^ 127"
  shows "b < 2 ^ 64"
proof (rule ccontr)
  assume "\<not> b < 2 ^ 64"
  then have "2 ^ 64 * 2 ^ 64 \<le> b * b" using assms(1) by (intro mult_mono) auto
  then show False using assms(2) by simp
qed

text \<open>What the test of one fact found: nonzero leads, and products that agree on every key.\<close>

lemma scales_steps:
  assumes s: "scales tc t v0 a0 g = Some (lam, mu)"
  obtains x where "map_of (coefs g) v0 = Some x" "length (coefs g) = length tc"
    "\<And>v y. (v, y) \<in> set (coefs g) \<Longrightarrow> \<exists>a. map_of tc v = Some a \<and> wrap (i_abs a0 * y) = wrap (i_abs x * a)"
    "wrap (i_abs x * f_cst t) \<le> wrap (i_abs a0 * f_cst g)"
    "lam = i_abs a0 sdiv max (p_gcd (i_abs a0) (i_abs x)) 1" "mu = i_abs x sdiv max (p_gcd (i_abs a0) (i_abs x)) 1"
proof -
  obtain x where x: "map_of (coefs g) v0 = Some x" "length (coefs g) = length tc"
    "list_all (\<lambda>(v, y). case map_of tc v of Some a \<Rightarrow> wrap (i_abs a0 * y) = wrap (i_abs x * a) | None \<Rightarrow> False) (coefs g)"
    "wrap (i_abs x * f_cst t) \<le> wrap (i_abs a0 * f_cst g)"
    "lam = i_abs a0 sdiv max (p_gcd (i_abs a0) (i_abs x)) 1" "mu = i_abs x sdiv max (p_gcd (i_abs a0) (i_abs x)) 1"
    using s by (auto simp: scales_def Let_def split: option.splits if_splits)
  then show ?thesis
    by (intro that) (auto simp: list_all_iff split: option.splits)
qed

text \<open>Maps of one size, one's keys among the other's, have the same keys.\<close>

lemma same_keys:
  assumes "sorted_map m" and "sorted_map n" and "length m = length n" and "fst ` set m \<subseteq> fst ` set n"
  shows "fst ` set m = fst ` set n"
proof (rule card_subset_eq)
  show "card (fst ` set m) = card (fst ` set n)"
    using assms(3) distinct_card [OF sorted_map_distinct [OF assms(1)]] distinct_card [OF sorted_map_distinct [OF assms(2)]] by simp
qed (use assms(4) in auto)

text \<open>Dividing both factors by their common divisor keeps equations and inequations.\<close>

lemma divided_out:
  fixes x y :: int
  assumes "fits x" and "fits y" and "0 < x" and "0 < y"
    and lam: "lam = x sdiv max (p_gcd x y) 1" and mu: "mu = y sdiv max (p_gcd x y) 1"
  shows "0 < lam" "0 < mu" "x * p = y * q \<Longrightarrow> lam * p = mu * q" "y * q \<le> x * p \<Longrightarrow> mu * q \<le> lam * p"
proof -
  let ?d = "max (p_gcd x y) 1"
  have "?d dvd x" "?d dvd y"
    using p_gcd_dvd [OF assms(1,2)] by (auto simp: max_def)
  then have d: "x = ?d * lam" "y = ?d * mu" "0 < ?d"
    using sdiv_exact [of ?d x] sdiv_exact [of ?d y] unfolding lam mu by (simp_all only: mult.commute [of ?d])
  show "0 < lam" "0 < mu"
    using assms(3,4) d by (metis zero_less_mult_pos)+
  show "x * p = y * q \<Longrightarrow> lam * p = mu * q"
    using d by (metis mult.assoc mult_left_cancel less_irrefl)
  show "y * q \<le> x * p \<Longrightarrow> mu * q \<le> lam * p"
    using d by (metis mult.assoc mult_le_cancel_left_pos)
qed

lemma i_abs_small: "\<bar>x\<bar> \<le> b \<Longrightarrow> b < 2 ^ 64 \<Longrightarrow> i_abs x = \<bar>x\<bar>"
  by (auto simp: i_abs_def intro!: wrap_abs)

lemma scales_proof:
  assumes s: "scales (coefs t) t v0 a0 g = Some (lam, mu)" and hd: "coefs t = (v0, a0) # r"
    and g: "bounded b g" and t: "bounded b t" and b: "b * b < 2 ^ 127"
  shows "0 < lam \<and> 0 < mu \<and> (\<forall>v. lam * vcoef (f_terms g) v = mu * vcoef (f_terms t) v) \<and> mu * f_cst t \<le> lam * f_cst g"
proof -
  have small: "b < 2 ^ 64" using abs_below [OF bounded_nonneg [OF g] b] .
  have mg: "mass (f_terms g) \<le> b" "mass (f_terms g) < 2 ^ 127" and mt: "mass (f_terms t) \<le> b" "mass (f_terms t) < 2 ^ 127"
    using g t small by (auto simp: bounded_def)
  note G = coefs_val [OF mg(2)] and T = coefs_val [OF mt(2)]
  have le: "\<bar>vcoef (f_terms g) v\<bar> \<le> b" "\<bar>vcoef (f_terms t) v\<bar> \<le> b" for v
    using vcoef_le [of "f_terms g" v] vcoef_le [of "f_terms t" v] mg mt by simp_all
  obtain x where x: "map_of (coefs g) v0 = Some x" "length (coefs g) = length (coefs t)"
    "\<And>v y. (v, y) \<in> set (coefs g) \<Longrightarrow> \<exists>a. map_of (coefs t) v = Some a \<and> wrap (i_abs a0 * y) = wrap (i_abs x * a)"
    "wrap (i_abs x * f_cst t) \<le> wrap (i_abs a0 * f_cst g)"
    "lam = i_abs a0 sdiv max (p_gcd (i_abs a0) (i_abs x)) 1" "mu = i_abs x sdiv max (p_gcd (i_abs a0) (i_abs x)) 1"
    using scales_steps [OF s] by metis
  have a0: "a0 = vcoef (f_terms t) v0" "a0 \<noteq> 0" using T(2,3) [of v0] hd by force+
  have x0: "x = vcoef (f_terms g) v0" "x \<noteq> 0"
    using G(2,3) [of v0] x(1) map_of_SomeD [OF x(1)] by (force simp: bval_def)+
  have la: "\<bar>a0\<bar> \<le> b" "\<bar>x\<bar> \<le> b" using le [of v0] a0 x0 by simp_all
  note ia = i_abs_small [OF la(1) small] i_abs_small [OF la(2) small]
  have eq1: "i_abs a0 * vcoef (f_terms g) v = i_abs x * vcoef (f_terms t) v" if v: "(v, y) \<in> set (coefs g)" for v y
  proof -
    obtain a where a: "map_of (coefs t) v = Some a" "wrap (i_abs a0 * y) = wrap (i_abs x * a)"
      using x(3) [OF v] by blast
    have "y = vcoef (f_terms g) v" "a = vcoef (f_terms t) v"
      using G(2) [of v] T(2) [of v] a(1) map_of_is_SomeI [OF sorted_map_distinct [OF G(1)] v] by (simp_all add: bval_def)
    then show ?thesis
      using a(2) square_fits [OF _ _ b] la le [of v] ia by simp
  qed
  have keys: "fst ` set (coefs g) = fst ` set (coefs t)"
    using x(2,3) by (intro same_keys [OF G(1) T(1)]) (force dest: map_of_SomeD)+
  have eq: "i_abs a0 * vcoef (f_terms g) v = i_abs x * vcoef (f_terms t) v" for v
  proof (cases "v \<in> fst ` set (coefs g)")
    case True
    then show ?thesis using eq1 by auto
  next
    case False
    then show ?thesis using G(3) [of v] T(3) [of v] keys by simp
  qed
  have "\<bar>f_cst t\<bar> \<le> b" "\<bar>f_cst g\<bar> \<le> b" using g t by (simp_all add: bounded_def)
  then have le_c: "i_abs x * f_cst t \<le> i_abs a0 * f_cst g"
    using x(4) square_fits [OF _ _ b] la ia by simp
  have "fits (i_abs a0)" "fits (i_abs x)" "0 < i_abs a0" "0 < i_abs x"
    using ia la small a0(2) x0(2) by (auto intro!: fits_abs)
  note d = divided_out [OF this x(5,6)]
  show ?thesis
    using d(1,2) d(3) [OF eq] d(4) [OF le_c] by blast
qed

subsection \<open>Sparse rows\<close>

lemma vcoef_absent: "v \<notin> fst ` set ts \<Longrightarrow> vcoef ts v = 0"
  by (induction ts) auto

lemma coefl_bval: "sorted_map m \<Longrightarrow> coefl m k = bval m k"
proof (induction m)
  case (Cons p m)
  then have "\<forall>q \<in> set m. fst p < fst q" by (cases p) simp
  then have "coefl m (fst p) = 0" by (intro coefl_absent) auto
  then show ?case using Cons by (cases p) auto
qed simp

definition rows_inv :: "pvar list \<Rightarrow> (nat \<times> int) list \<Rightarrow> bool" where
  "rows_inv idx m \<longleftrightarrow> distinct idx \<and> sorted_map m \<and> (\<forall>k \<in> fst ` set m. k < length idx)"

lemma row_term_val:
  assumes inv: "rows_inv idx m" and b: "\<And>i. \<bar>bval m i + a\<bar> < 2 ^ 127" and r: "row_term (idx, m) (v, a) = (idx2, m2)"
  shows "rows_inv idx2 m2 \<and> (\<exists>ext. idx2 = idx @ ext) \<and> v \<in> set idx2 \<and>
    (\<forall>i < length idx2. bval m2 i = bval m i + (if idx2 ! i = v then a else 0))"
proof (cases "index_of v idx")
  case None
  then have e: "idx2 = idx @ [v]" "m2 = bt_add (length idx) a m" using r by (simp_all add: row_term_def)
  have v: "v \<notin> set idx" using None by (simp add: index_of_None)
  note s = bt_add_val [of m "length idx" a] 
  have "sorted_map m" using inv by (simp add: rows_inv_def)
  then have m: "sorted_map m2" "bval m2 j = bval m j + (if j = length idx then a else 0)" for j
    using s b e(2) by blast+
  have "\<forall>k \<in> fst ` set m2. k < length idx2"
    using inv unfolding e bt_add_keys by (auto simp: rows_inv_def)
  moreover have "(idx2 ! i = v) = (i = length idx)" if "i < length idx2" for i
    using that v e(1) nth_mem [of i idx] by (auto simp: nth_append)
  ultimately show ?thesis
    using inv v m e(1) by (auto simp: rows_inv_def)
next
  case (Some k)
  then have e: "idx2 = idx" "m2 = bt_add k a m" using r by (simp_all add: row_term_def)
  have k: "k < length idx" "idx ! k = v" using index_of_Some [OF Some] by auto
  have "sorted_map m" using inv by (simp add: rows_inv_def)
  then have m: "sorted_map m2" "bval m2 j = bval m j + (if j = k then a else 0)" for j
    using bt_add_val [of m k a] b e(2) by blast+
  have "\<forall>k \<in> fst ` set m2. k < length idx2"
    using inv k unfolding e bt_add_keys by (auto simp: rows_inv_def)
  moreover have "(idx2 ! i = v) = (i = k)" if "i < length idx2" for i
    using that inv k e(1) by (auto simp: rows_inv_def nth_eq_iff_index_eq)
  moreover have "v \<in> set idx" using k nth_mem by blast
  ultimately show ?thesis
    using inv m e(1) by (auto simp: rows_inv_def)
qed

lemma row_fold:
  assumes "rows_inv idx m" and "\<And>i. \<bar>bval m i\<bar> + mass ts < 2 ^ 127" and "foldl row_term (idx, m) ts = (idx2, m2)"
  shows "rows_inv idx2 m2 \<and> (\<exists>ext. idx2 = idx @ ext) \<and> fst ` set ts \<subseteq> set idx2 \<and>
    (\<forall>i < length idx2. bval m2 i = bval m i + vcoef ts (idx2 ! i))"
  using assms
proof (induction ts arbitrary: idx m)
  case (Cons p ts)
  obtain v a where p: "p = (v, a)" by (cases p)
  obtain idx1 m1 where one: "row_term (idx, m) (v, a) = (idx1, m1)" by (cases "row_term (idx, m) (v, a)")
  have b: "\<bar>bval m i\<bar> + \<bar>a\<bar> + mass ts < 2 ^ 127" for i
    using Cons.prems(2) [of i] by (simp add: p)
  have "\<bar>bval m i + a\<bar> < 2 ^ 127" for i
    using b [of i] abs_triangle_ineq [of "bval m i" a] mass_nonneg [of ts] by linarith
  note s = row_term_val [OF Cons.prems(1) this one]
  then obtain ext1 where e1: "idx1 = idx @ ext1" by blast
  have m1: "bval m1 i = bval m i + (if i < length idx1 \<and> idx1 ! i = v then a else 0)" for i
  proof (cases "i < length idx1")
    case False
    then have "i \<notin> fst ` set m1" "i \<notin> fst ` set m"
      using s Cons.prems(1) e1 by (auto simp: rows_inv_def)
    then show ?thesis using False by (simp add: bval_absent)
  qed (use s in simp)
  have "\<bar>bval m1 i\<bar> + mass ts < 2 ^ 127" for i
    using b [of i] abs_triangle_ineq [of "bval m i" a] by (auto simp: m1)
  then have IH: "rows_inv idx2 m2 \<and> (\<exists>ext. idx2 = idx1 @ ext) \<and> fst ` set ts \<subseteq> set idx2 \<and>
      (\<forall>i < length idx2. bval m2 i = bval m1 i + vcoef ts (idx2 ! i))"
    using s Cons.prems(3) by (intro Cons.IH) (simp_all add: p one)
  then obtain ext2 where e2: "idx2 = idx1 @ ext2" by blast
  have at: "(idx2 ! i = v) = (i < length idx1 \<and> idx1 ! i = v)" if "i < length idx2" for i
  proof (cases "i < length idx1")
    case False
    have "idx2 ! i \<notin> set idx1"
      using that False IH e2 nth_mem [of "i - length idx1" ext2] by (auto simp: rows_inv_def nth_append)
    then show ?thesis using s False by auto
  qed (simp add: e2 nth_append)
  have val: "bval m2 i = bval m i + vcoef ((v, a) # ts) (idx2 ! i)" if "i < length idx2" for i
  proof -
    have "bval m2 i = bval m1 i + vcoef ts (idx2 ! i)" using IH that by blast
    also have "bval m1 i = bval m i + (if v = idx2 ! i then a else 0)"
    proof -
      have "(v = idx2 ! i) = (i < length idx1 \<and> idx1 ! i = v)" unfolding eq_commute [of v "idx2 ! i"] by (rule at [OF that])
      then show ?thesis by (simp only: m1)
    qed
    finally show ?thesis by simp
  qed
  have "v \<in> set idx1" using s by blast
  then have v: "v \<in> set idx2" and ext: "idx2 = idx @ ext1 @ ext2" unfolding e2 e1 by auto
  show ?case
  proof (intro conjI)
    show "rows_inv idx2 m2" using IH by blast
    show "\<exists>ext. idx2 = idx @ ext" using ext by blast
    show "fst ` set (p # ts) \<subseteq> set idx2" using IH v unfolding p by simp
    show "\<forall>i < length idx2. bval m2 i = bval m i + vcoef (p # ts) (idx2 ! i)" unfolding p using val by blast
  qed
qed (use assms in auto)

definition row_matches :: "pvar list \<Rightarrow> sparse \<Rightarrow> form \<Rightarrow> bool" where
  "row_matches idx s l \<longleftrightarrow>
     fact_ok (length idx) s \<and> distinct (map fst (fst s)) \<and> snd s = f_cst l \<and> fst ` set (f_terms l) \<subseteq> set idx \<and>
     (\<forall>i < length idx. coefl (fst s) i = vcoef (f_terms l) (idx ! i))"

lemma row_matches_grow:
  assumes m: "row_matches idx s l" and d: "distinct (idx @ ext)"
  shows "row_matches (idx @ ext) s l"
proof -
  have "coefl (fst s) i = vcoef (f_terms l) ((idx @ ext) ! i)" if "i < length (idx @ ext)" for i
  proof (cases "i < length idx")
    case False
    have "(idx @ ext) ! i \<notin> set idx"
      using that False d nth_mem [of "i - length idx" ext] by (auto simp: nth_append)
    then have "vcoef (f_terms l) ((idx @ ext) ! i) = 0" using m by (intro vcoef_absent) (auto simp: row_matches_def)
    moreover have "coefl (fst s) i = 0" using m False coefl_outside [of "length idx" s i] by (simp add: row_matches_def)
    ultimately show ?thesis by simp
  qed (use m in \<open>simp add: row_matches_def nth_append\<close>)
  moreover have "fact_ok (length (idx @ ext)) s" using m by (auto simp: row_matches_def fact_ok_def)
  ultimately show ?thesis using m by (auto simp: row_matches_def)
qed

lemma sparse_row_matches:
  assumes d: "distinct idx" and l: "bounded b l" and b: "b < 2 ^ 127" and r: "sparse_row idx l = (idx2, s)"
  shows "row_matches idx2 s l \<and> distinct idx2 \<and> (\<exists>ext. idx2 = idx @ ext)"
proof -
  obtain m where f: "foldl row_term (idx, []) (f_terms l) = (idx2, m)" and s: "s = (nonzero m, f_cst l)"
    using r by (auto simp: sparse_row_def Let_def split: prod.splits)
  have mass: "mass (f_terms l) < 2 ^ 127" using l b by (simp add: bounded_def)
  have F: "rows_inv idx2 m" "\<exists>ext. idx2 = idx @ ext" "fst ` set (f_terms l) \<subseteq> set idx2"
    "\<And>i. i < length idx2 \<Longrightarrow> bval m i = vcoef (f_terms l) (idx2 ! i)"
    using row_fold [OF _ _ f] d mass by (auto simp: rows_inv_def)
  have m: "sorted_map m" "sorted_map (nonzero m)" using F(1) by (auto simp: rows_inv_def nonzero_sorted)
  have "fst p < length idx2 \<and> fits (snd p)" if p: "p \<in> set (nonzero m)" for p
  proof -
    have k: "fst p < length idx2" using p F(1) by (auto simp: rows_inv_def nonzero_def)
    have "snd p = bval (nonzero m) (fst p)"
      using map_of_is_SomeI [OF sorted_map_distinct [OF m(2)], of "fst p" "snd p"] p by (simp add: bval_def)
    then have "snd p = vcoef (f_terms l) (idx2 ! fst p)" using F(4) [OF k] m by (simp add: nonzero_val)
    then have "\<bar>snd p\<bar> < 2 ^ 127" using vcoef_le [of "f_terms l" "idx2 ! fst p"] mass by simp
    then show ?thesis using k by (simp add: fits_abs)
  qed
  moreover have "fits (f_cst l)" using l b by (intro fits_abs) (simp add: bounded_def)
  ultimately have "fact_ok (length idx2) s" by (simp add: fact_ok_def s)
  then show ?thesis
    using F m by (auto simp: row_matches_def s sorted_map_distinct coefl_bval nonzero_val rows_inv_def)
qed

lemma sparse_rows_match:
  assumes "distinct idx" and "\<forall>l \<in> set f. bounded b l" and "b < 2 ^ 127" and "sparse_rows idx f = (idx2, rows)"
  shows "list_all2 (row_matches idx2) rows f \<and> distinct idx2 \<and> (\<exists>ext. idx2 = idx @ ext)"
  using assms
proof (induction f arbitrary: idx rows)
  case (Cons l f)
  obtain idx1 s where one: "sparse_row idx l = (idx1, s)" by (cases "sparse_row idx l")
  obtain rs where rest: "sparse_rows idx1 f = (idx2, rs)" "rows = s # rs"
    using Cons.prems(4) by (auto simp: one Let_def split: prod.splits)
  note s = sparse_row_matches [OF Cons.prems(1) _ Cons.prems(3) one]
  then have s: "row_matches idx1 s l" "distinct idx1" "\<exists>ext. idx1 = idx @ ext" using Cons.prems(2) by auto
  have IH: "list_all2 (row_matches idx2) rs f \<and> distinct idx2 \<and> (\<exists>ext. idx2 = idx1 @ ext)"
    using Cons.prems(2,3) by (intro Cons.IH [OF s(2) _ _ rest(1)]) auto
  then have "row_matches idx2 s l" using row_matches_grow [OF s(1)] by blast
  then show ?case using IH s(3) rest(2) by auto
qed simp

text \<open>What certifies the rows proves the forms.\<close>

lemma certifies_forms:
  assumes rows: "list_all2 (row_matches idx) rows f" and t: "row_matches idx tr t" and c: "certifies rows tr ps mu"
  shows "fact_proof f t ps mu"
  unfolding fact_proof_def
proof (intro conjI allI)
  have len: "length rows = length f" and at: "\<And>j. j < length f \<Longrightarrow> row_matches idx (rows ! j) (f ! j)"
    using rows by (auto simp: list_all2_conv_all_nth)
  show "0 < mu" and ps: "\<forall>p \<in> set ps. fst p < length f \<and> 0 < snd p"
    using c len by (simp_all add: certifies_def)
  have "(\<Sum>p\<leftarrow>ps. snd p * snd (rows ! fst p)) = (\<Sum>p\<leftarrow>ps. snd p * f_cst (f ! fst p))"
    using ps at by (intro arg_cong [of _ _ sum_list] map_cong) (auto simp: row_matches_def)
  then show "mu * f_cst t \<le> (\<Sum>p\<leftarrow>ps. snd p * f_cst (f ! fst p))"
    using c t by (simp add: certifies_def row_matches_def)
  fix v
  show "(\<Sum>p\<leftarrow>ps. snd p * vcoef (f_terms (f ! fst p)) v) = mu * vcoef (f_terms t) v"
  proof (cases "v \<in> set idx")
    case True
    then obtain i where i: "i < length idx" "idx ! i = v" by (auto simp: in_set_conv_nth)
    have "(\<Sum>p\<leftarrow>ps. snd p * vcoef (f_terms (f ! fst p)) v) = (\<Sum>p\<leftarrow>ps. snd p * coefl (fst (rows ! fst p)) i)"
      using ps at i by (intro arg_cong [of _ _ sum_list] map_cong) (auto simp: row_matches_def)
    then show ?thesis using c t i by (simp add: certifies_def row_matches_def)
  next
    case False
    then have z: "vcoef (f_terms l) v = 0" if "row_matches idx s l" for s l
      using that by (intro vcoef_absent) (auto simp: row_matches_def)
    have "vcoef (f_terms (f ! j)) v = 0" if "j < length f" for j
      using z [OF at [OF that]] .
    then have "(\<Sum>p\<leftarrow>ps. snd p * vcoef (f_terms (f ! fst p)) v) = (\<Sum>p\<leftarrow>ps. 0)"
      using ps by (intro arg_cong [of _ _ sum_list] map_cong) auto
    then show ?thesis using z [OF t] by simp
  qed
qed

subsection \<open>The proofs of \<open>prove\<close>\<close>

lemma fact_itself:
  assumes "index_of t f = Some j"
  shows "fact_proof f t [(j, 1)] 1"
  using index_of_Some [OF assms] by (simp add: fact_proof_def)

lemma fact_scaled:
  assumes o: "one_fact f t = Some (j, lam, mu)"
    and f: "\<forall>l \<in> set f. bounded b l" and t: "bounded b t" and b: "b * b < 2 ^ 127"
  shows "fact_proof f t [(j, lam)] mu"
proof -
  obtain v0 a0 r where hd: "coefs t = (v0, a0) # r" and s: "first_scaled (coefs t) t v0 a0 0 f = Some (j, lam, mu)"
    using o by (auto simp: one_fact_def split: list.splits)
  have j: "j < length f" "scales (coefs t) t v0 a0 (f ! j) = Some (lam, mu)"
    using first_scaled_Some [OF s] by simp_all
  then show ?thesis
    using scales_proof [OF j(2) hd _ t b] f by (simp add: fact_proof_def)
qed

lemma lwp_late: "(\<And>late. P late) \<Longrightarrow> lwp (past_deadline budget) P"
  by (simp add: lwp_def past_deadline_def)

lemma unit_text: "CHR ''('' # dec_string j @ '':1)1'' = pf_text ([(j, 1)], 1)"
proof -
  have "dec_string (Suc 0) = ''1''"
    by code_simp
  then show ?thesis by (simp add: pf_text_def mult_text_def z_text_def)
qed

lemma scaled_text: "CHR ''('' # dec_string j @ CHR '':'' # z_text lam @ CHR '')'' # z_text mu = pf_text ([(j, lam)], mu)"
  by (simp add: pf_text_def mult_text_def)

lemma lwp_prove:
  assumes f: "\<forall>l \<in> set f. bounded b l" and t: "bounded b t" and b: "b * b < 2 ^ 127"
  shows "lwp (prove budget f t) (\<lambda>out. \<exists>p. out = pf_text p \<and> fact_proof f t (fst p) (snd p))"
proof (cases "index_of t f")
  case (Some j)
  then show ?thesis
    using fact_itself [OF Some] by (auto simp: prove_def unit_text intro!: lwp_ret exI [of _ "([(j, 1)], 1)"])
next
  case None
  show ?thesis
  proof (cases "one_fact f t")
    case (Some q)
    obtain j lam mu where q: "q = (j, lam, mu)" by (cases q)
    show ?thesis
      using fact_scaled [OF Some [unfolded q] f t b] None Some
      by (auto simp: prove_def q scaled_text intro!: lwp_ret exI [of _ "([(j, lam)], mu)"])
  next
    case one: None
    have small: "b < 2 ^ 127"
      using abs_below [OF bounded_nonneg [OF t] b] by simp
    obtain idx rows where r: "sparse_rows [] f = (idx, rows)" by (cases "sparse_rows [] f")
    obtain idx2 tr where tr: "sparse_row idx t = (idx2, tr)" by (cases "sparse_row idx t")
    have R: "list_all2 (row_matches idx) rows f" "distinct idx"
      using sparse_rows_match [OF _ f small r] by simp_all
    have T: "row_matches idx2 tr t" "distinct idx2" "\<exists>ext. idx2 = idx @ ext"
      using sparse_row_matches [OF R(2) t small tr] by simp_all
    have rows: "list_all2 (row_matches idx2) rows f"
      using R(1) T(2,3) row_matches_grow by (auto elim!: list_all2_mono)
    have "lwp (farkas rows tr (length idx2)) (\<lambda>(ps, mu). certifies rows tr ps mu)"
      using rows T(1) by (intro lwp_farkas) (fastforce simp: row_matches_def list_all2_conv_all_nth in_set_conv_nth)+
    then have "lwp (farkas rows tr (length idx2)) (\<lambda>(ps, mu). fact_proof f t ps mu)"
      by (rule lwp_mono) (use certifies_forms [OF rows T(1)] in auto)
    then have "lwp (lbind (farkas rows tr (length idx2)) (\<lambda>(ps, mu). lret (pf_text (ps, mu))))
        (\<lambda>out. \<exists>p. out = pf_text p \<and> fact_proof f t (fst p) (snd p))"
      by (intro lwp_bind) (elim lwp_mono, auto intro!: lwp_ret)
    then show ?thesis
      unfolding prove_def None one option.case
      by (intro lwp_bind lwp_late lwp_if lwp_none) (simp add: r tr)
  qed
qed

text \<open>What \<open>prove\<close> writes, the checker reads and accepts.\<close>

lemma lwp_prove_accepted:
  assumes f: "\<forall>l \<in> set f. bounded b l" and t: "bounded b t" and b: "b * b < 2 ^ 127" and len: "length f \<le> 10 ^ 18"
    and post: "no_digit post"
  shows "lwp (prove budget f t) (\<lambda>out. \<exists>pf. pf_at (pre @ out @ post) (length pre) = Some (pf, length pre + length out) \<and>
    entails (map lform f) pf (lform t))"
proof (rule lwp_mono [OF lwp_prove [OF f t b]], elim exE conjE)
  fix out p
  assume out: "out = pf_text p" and p: "fact_proof f t (fst p) (snd p)"
  have "entails (map lform f) (z_pf p) (lform t)"
    using fact_proof_entails [OF p len] by simp
  then show "\<exists>pf. pf_at (pre @ out @ post) (length pre) = Some (pf, length pre + length out) \<and>
      entails (map lform f) pf (lform t)"
    unfolding out using pf_at_text [OF post, of pre p] by blast
qed

end
