(* ===== verification/Lp_Example.thy ===== *)
theory Lp_Example
  imports Lp_Sound
begin

text \<open>
  The search evaluated on the entailments of the source's own test, \<open>small_entailments\<close>. The loop is
  counted in binary, so that evaluation does not unfold its ten thousand rounds.
\<close>

function simplex_count ::
    "int \<Rightarrow> mat \<Rightarrow> nat list \<Rightarrow> row \<Rightarrow> nat \<Rightarrow> nat \<Rightarrow> q option \<Rightarrow> ((nat \<times> row \<times> q) option \<times> mat \<times> nat list) lp" where
  "simplex_count k t basis obj allowed width goal =
     (if k \<le> 0 then lnone
      else lbind (entering t basis obj allowed) (\<lambda>en.
       case en of
         None \<Rightarrow> lret (None, t, basis)
       | Some (e, rc) \<Rightarrow>
           lbind (leaving t basis e width) (\<lambda>lv.
             case lv of
               Some r \<Rightarrow> lbind (pivot t basis r e width) (\<lambda>(t2, b2). simplex_count (k - 1) t2 b2 obj allowed width goal)
             | None \<Rightarrow> lbind (unbounded_ray t basis obj e rc width goal) (\<lambda>ray. lret (Some ray, t, basis)))))"
  by pat_completeness auto
termination
  by (relation "measure (\<lambda>(k, _). nat k)") auto

declare simplex_count.simps [simp del]

lemma simplex_count_eq: "simplex_count (int k) t basis obj allowed width goal = simplex_loop k t basis obj allowed width goal"
proof (induction k arbitrary: t basis)
  case (Suc k)
  then show ?case
    by (subst simplex_count.simps) (simp cong: option.case_cong prod.case_cong)
qed (simp add: simplex_count.simps)

text \<open>The equation for evaluation waits for the state.\<close>

lemma simplex_count_code [code]:
  "simplex_count k t basis obj allowed width goal n =
     (if k \<le> 0 then lnone n
      else case entering t basis obj allowed n of
        (LDone None, n) \<Rightarrow> (LDone (None, t, basis), n)
      | (LDone (Some (e, rc)), n) \<Rightarrow>
          lbind (leaving t basis e width) (\<lambda>lv.
             case lv of
               Some r \<Rightarrow> lbind (pivot t basis r e width) (\<lambda>(t2, b2). simplex_count (k - 1) t2 b2 obj allowed width goal)
             | None \<Rightarrow> lbind (unbounded_ray t basis obj e rc width goal) (\<lambda>ray. lret (Some ray, t, basis))) n
      | (LNone, n) \<Rightarrow> (LNone, n)
      | (LPanic, n) \<Rightarrow> (LPanic, n))"
  by (subst simplex_count.simps) (auto simp: lbind_def lret_def split: lres.splits prod.splits option.splits)

lemma simplex_code [code]:
  "simplex t basis obj allowed goal =
     (let len = (case t of [] \<Rightarrow> length obj + 1 | row # _ \<Rightarrow> length row)
      in if len = 0 then lpanic else simplex_count 10000 t basis obj allowed (len - 1) goal)"
  using simplex_count_eq [of 10000] by (simp add: simplex_def Let_def)

text \<open>\<open>x - 3 <= 0\<close> and \<open>y - x <= 0\<close> give \<open>y - 5 <= 0\<close>.\<close>

lemma chain_entailed:
  "fst (farkas [([(0, 1)], -3), ([(1, 1), (0, -1)], 0)] ([(1, 1)], -5) 2 0) = LDone ([(0, 1), (1, 1)], 1)"
  by code_simp

text \<open>\<open>2x - 2 <= 0\<close> gives \<open>x - 1 <= 0\<close> with a multiplier of a half, scaled; \<open>2x - 1 <= 0\<close> does not give \<open>x <= 0\<close>.\<close>

lemma half_entailed:
  "fst (farkas [([(0, 2)], -2)] ([(0, 1)], -1) 1 0) = LDone ([(0, 1)], 2)"
  "fst (farkas [([(0, 2)], -1)] ([(0, 1)], 0) 1 0) = LNone"
  by code_simp+

text \<open>Contradictory facts give anything, along a ray.\<close>

lemma contradiction_entails:
  "fst (farkas [([(0, 1)], 0), ([(0, -1)], 1)] ([], 7) 1 0) = LDone ([(0, 8), (1, 8)], 1)"
  by code_simp

end
