(* ===== verification/Prover_Example.thy ===== *)
theory Prover_Example
  imports Prover_Accept Lp_Example
begin

text \<open>The three ways of \<open>prove\<close>, run on small facts: the simplex, a scaled fact, the fact itself.\<close>

definition sample_facts :: "form list" where
  "sample_facts = [\<lparr>f_terms = [(VS 0, 1)], f_cst = - 3\<rparr>, \<lparr>f_terms = [(VS 1, 1), (VS 0, - 1)], f_cst = 0\<rparr>]"

definition sample_goal :: form where
  "sample_goal = \<lparr>f_terms = [(VS 1, 1)], f_cst = - 5\<rparr>"

lemma sample_bounded: "\<forall>l \<in> set sample_facts. bounded 5 l" "bounded 5 sample_goal"
  by (simp_all add: sample_facts_def sample_goal_def bounded_def)

lemma sample_proved: "prove 10 sample_facts sample_goal 0 = (LDone ''(0:1 1:1)1'', 2)"
  by code_simp

lemma scaled_proved: "prove 10 sample_facts \<lparr>f_terms = [(VS 0, 2)], f_cst = - 8\<rparr> 0 = (LDone ''(0:2)1'', 0)"
  by code_simp

lemma itself_proved: "prove 10 sample_facts (sample_facts ! 1) 0 = (LDone ''(1:1)1'', 0)"
  by code_simp

end
