(* ===== verification/Template.thy ===== *)
theory Template
  imports Prover_Text
begin

text \<open>
  The templates of \<open>crates/almide-anchor-check/src/lin.rs\<close>: the certificate text of a translated body, with
  holes for what the prover fills in, and the test that a certificate spells a template.
\<close>

subsection \<open>Translated bodies\<close>

datatype it =
    KAcc bool nat nat form nat
  | KHandle nat nat
  | KLen nat nat int
  | KAlloc nat nat form
  | KWf nat
  | KStatic nat int int
  | KSet nat
  | KSetR nat int int
  | KAsn nat form
  | KTest form form bool "it list" "it list"
  | KBranch "it list" "it list"
  | KLoop "it list"
  | KCont
  | KBrk
  | KTrap
  | KCall nat "(nat \<times> form) list" nat
  | KRet

record skel =
  k_rslot :: nat
  k_body :: "it list"
  k_sites :: "nat list"

subsection \<open>Templates\<close>

datatype hole = HPf | HPfs | HFacts | HReg | HMaps | HArgPf

datatype tpl_tok = TLit bytes | THole hole

text \<open>A literal extends the literal before it.\<close>

definition tlit :: "bytes \<Rightarrow> tpl_tok list \<Rightarrow> tpl_tok list" where
  "tlit s out =
     (if out = [] then [TLit s]
      else case last out of TLit l \<Rightarrow> butlast out @ [TLit (l @ s)] | THole h \<Rightarrow> out @ [TLit s])"

definition thole :: "hole \<Rightarrow> tpl_tok list \<Rightarrow> tpl_tok list" where
  "thole h out = out @ [THole h]"

fun arg_templates :: "(nat \<times> form) list \<Rightarrow> tpl_tok list \<Rightarrow> tpl_tok list" where
  "arg_templates [] out = out"
| "arg_templates ((p, l) # args) out =
     arg_templates args (thole HArgPf (tlit (CHR '' '' # dec_string p @ CHR '':'' # form_text l) out))"

fun spaced_holes :: "hole \<Rightarrow> nat \<Rightarrow> tpl_tok list \<Rightarrow> tpl_tok list" where
  "spaced_holes h 0 out = out"
| "spaced_holes h (Suc 0) out = thole h out"
| "spaced_holes h (Suc (Suc n)) out = spaced_holes h (Suc n) (tlit '' '' (thole h out))"

fun items_template :: "it list \<Rightarrow> tpl_tok list \<Rightarrow> tpl_tok list" where
  "items_template [] out = out"
| "items_template (KAcc store w off addr site # its) out =
     items_template its (spaced_holes HPf 3
       (tlit (CHR '','' # dec_string w @ CHR '','' # dec_string off @ CHR '' '' # form_text addr @ '' '')
         (thole HReg (tlit (if store then '' W'' else '' A'') out))))"
| "items_template (KHandle h r # its) out =
     items_template its (tlit ('' h'' @ dec_string h @ CHR '','' # dec_string r) out)"
| "items_template (KLen n r s # its) out =
     items_template its (tlit ('' n'' @ dec_string n @ CHR '','' # dec_string r @ CHR '','' # z_text s) out)"
| "items_template (KAlloc h r sz # its) out =
     items_template its (spaced_holes HPf 2
       (tlit ('' a'' @ dec_string h @ CHR '','' # dec_string r @ CHR '' '' # form_text sz @ '' '') out))"
| "items_template (KWf r # its) out = items_template its (tlit ('' f'' @ dec_string r) out)"
| "items_template (KStatic r b0 c0 # its) out =
     items_template its (tlit ('' g'' @ dec_string r @ CHR '','' # z_text b0 @ CHR '','' # z_text c0) out)"
| "items_template (KSet x # its) out = items_template its (tlit ('' s'' @ dec_string x) out)"
| "items_template (KSetR x lo hi # its) out =
     items_template its (tlit ('' r'' @ dec_string x @ CHR '','' # z_text lo @ CHR '','' # z_text hi) out)"
| "items_template (KAsn x l # its) out =
     items_template its (spaced_holes HPf 2 (tlit ('' ='' @ dec_string x @ CHR '' '' # form_text l @ '' '') out))"
| "items_template (KTest a b sg thn els # its) out =
     items_template its (tlit '' }'' (items_template els (tlit '' |'' (items_template thn (tlit '' {''
       (spaced_holes HPf 6
         (tlit ('' T'' @ (if sg then ''+'' else ''u'') @ CHR '' '' # form_text a @ CHR '' '' # form_text b @ '' '') out)))))))"
| "items_template (KBranch thn els # its) out =
     items_template its (tlit '' }'' (items_template els (tlit '' |'' (items_template thn (tlit '' B{'' out)))))"
| "items_template (KLoop body # its) out =
     items_template its (tlit '' }'' (items_template body (tlit '' |'' (thole HPfs (tlit '' | '' (thole HFacts
       (tlit '' L{ '' out)))))))"
| "items_template (KCont # its) out = items_template its (tlit '' }'' (thole HPfs (tlit '' c{ '' out)))"
| "items_template (KBrk # its) out = items_template its (tlit '' k'' out)"
| "items_template (KTrap # its) out = items_template its (tlit '' x'' out)"
| "items_template (KRet # its) out = items_template its (tlit '' }'' (thole HPfs (tlit '' R{ '' out)))"
| "items_template (KCall f args res # its) out =
     items_template its (tlit '' }'' (thole HPfs (tlit ('' | '' @ dec_string res @ '' | '') (thole HMaps
       (tlit '' | '' (thole HMaps (tlit '' | '' (arg_templates args (tlit ('' C'' @ dec_string f @ ''{'') out)))))))))"

definition template :: "nat \<Rightarrow> skel \<Rightarrow> tpl_tok list" where
  "template pos k =
     tlit '' }'' (items_template (k_body k) (tlit ('' | '' @ dec_string (k_rslot k) @ '' |'') (thole HFacts
       (tlit '' | '' (thole HFacts (tlit (CHR ''Q'' # dec_string pos @ ''{ '') []))))))"

subsection \<open>Matching\<close>

definition z_len :: "bytes \<Rightarrow> nat option" where
  "z_len s =
     (let neg = (if sget s 0 = Some (CHR ''-'') then 1 else 0); d = length (takeWhile is_digit (drop neg s))
      in if 0 < d then Some (neg + d) else None)"

definition nat_len :: "bytes \<Rightarrow> nat option" where
  "nat_len s = (let d = length (takeWhile is_digit s) in if 0 < d then Some d else None)"

text \<open>The entries of a list after its bracket: a single blank between two of them.\<close>

definition next_entry :: "bytes \<Rightarrow> nat \<Rightarrow> nat option" where
  "next_entry s i = (if 1 < i then (if sget s i = Some (CHR '' '') then Some (i + 1) else None) else Some i)"

definition number_colon :: "bytes \<Rightarrow> nat \<Rightarrow> nat option" where
  "number_colon s i =
     (case nat_len (drop i s) of
        None \<Rightarrow> None
      | Some n \<Rightarrow>
          if sget s (i + n) \<noteq> Some (CHR '':'') then None
          else map_option (\<lambda>z. i + n + 1 + z) (z_len (drop (i + n + 1) s)))"

lemma number_colon_bound: "number_colon s i = Some j \<Longrightarrow> i < j \<and> i < length s"
  by (cases "i < length s") (auto simp: number_colon_def nat_len_def Let_def split: option.splits if_splits)

lemma next_entry_bound: "next_entry s i = Some j \<Longrightarrow> i \<le> j \<and> j \<le> i + 1"
  by (auto simp: next_entry_def split: if_splits)

function pf_loop :: "bytes \<Rightarrow> nat \<Rightarrow> nat option" where
  "pf_loop s i =
     (if sget s i = Some (CHR '')'') then Some i
      else case next_entry s i of
             None \<Rightarrow> None
           | Some j \<Rightarrow> (case number_colon s j of None \<Rightarrow> None | Some k \<Rightarrow> pf_loop s k))"
  by pat_completeness auto
termination
  by (relation "measure (\<lambda>(s, i). length s - i)")
    (auto dest!: number_colon_bound next_entry_bound)

definition pf_len :: "bytes \<Rightarrow> nat option" where
  "pf_len s =
     (if sget s 0 \<noteq> Some (CHR ''('') then None
      else case pf_loop s 1 of
             None \<Rightarrow> None
           | Some i \<Rightarrow> map_option (\<lambda>z. i + 1 + z) (z_len (drop (i + 1) s)))"

function lin_loop :: "bytes \<Rightarrow> nat \<Rightarrow> nat option" where
  "lin_loop s i =
     (if sget s i = Some (CHR '']'') then Some i
      else case next_entry s i of
             None \<Rightarrow> None
           | Some j \<Rightarrow>
               if sget s j \<notin> {Some (CHR ''s''), Some (CHR ''b''), Some (CHR ''c'')} then None
               else (case number_colon s (j + 1) of None \<Rightarrow> None | Some k \<Rightarrow> lin_loop s k))"
  by pat_completeness auto
termination
  by (relation "measure (\<lambda>(s, i). length s - i)")
    (auto dest!: number_colon_bound next_entry_bound)

definition lin_len :: "bytes \<Rightarrow> nat option" where
  "lin_len s =
     (if sget s 0 \<noteq> Some (CHR ''['') then None
      else case lin_loop s 1 of
             None \<Rightarrow> None
           | Some i \<Rightarrow> map_option (\<lambda>z. i + 1 + z) (z_len (drop (i + 1) s)))"

function many_loop :: "(bytes \<Rightarrow> nat option) \<Rightarrow> bytes \<Rightarrow> nat \<Rightarrow> nat" where
  "many_loop unit s i =
     (if sget s i = Some (CHR '' '')
      then case unit (drop (i + 1) s) of Some n \<Rightarrow> many_loop unit s (i + (1 + n)) | None \<Rightarrow> i
      else i)"
  by pat_completeness auto
termination
  by (relation "measure (\<lambda>(unit, s, i). length s - i)") (auto simp: sget_Some)

declare pf_loop.simps [simp del] lin_loop.simps [simp del] many_loop.simps [simp del]

definition many_len :: "bytes \<Rightarrow> (bytes \<Rightarrow> nat option) \<Rightarrow> nat" where
  "many_len s unit = (case unit s of None \<Rightarrow> 0 | Some n \<Rightarrow> many_loop unit s n)"

definition map_len :: "bytes \<Rightarrow> nat option" where
  "map_len s =
     (case nat_len s of
        None \<Rightarrow> None
      | Some a \<Rightarrow>
          if sget s a \<noteq> Some (CHR '':'') then None
          else map_option (\<lambda>b. a + 1 + b) (nat_len (drop (a + 1) s)))"

definition argpf_len :: "bytes \<Rightarrow> nat option" where
  "argpf_len s =
     (if take 3 s = '' ! ''
      then (case pf_len (drop 3 s) of
              None \<Rightarrow> None
            | Some a \<Rightarrow>
                if sget s (3 + a) \<noteq> Some (CHR '' '') then None
                else map_option (\<lambda>b. 3 + a + 1 + b) (pf_len (drop (3 + a + 1) s)))
      else Some 0)"

definition hole_len :: "hole \<Rightarrow> bytes \<Rightarrow> nat option" where
  "hole_len h s = (case h of
     HPf \<Rightarrow> pf_len s
   | HPfs \<Rightarrow> Some (many_len s pf_len)
   | HFacts \<Rightarrow> Some (many_len s lin_len)
   | HReg \<Rightarrow> nat_len s
   | HMaps \<Rightarrow> Some (many_len s map_len)
   | HArgPf \<Rightarrow> argpf_len s)"

definition tok_len :: "tpl_tok \<Rightarrow> bytes \<Rightarrow> nat option" where
  "tok_len t s = (case t of
     TLit l \<Rightarrow> if take (length l) s = l then Some (length l) else None
   | THole h \<Rightarrow> hole_len h s)"

text \<open>Where the certificate stops spelling the template: the token's number and the offset.\<close>

fun matches_from :: "nat \<Rightarrow> tpl_tok list \<Rightarrow> bytes \<Rightarrow> nat \<Rightarrow> (nat \<times> nat) + nat" where
  "matches_from k [] cert i = Inr i"
| "matches_from k (t # ts) cert i =
     (case tok_len t (drop (min i (length cert)) cert) of
        None \<Rightarrow> Inl (k, i)
      | Some n \<Rightarrow> matches_from (Suc k) ts cert (i + n))"

definition matches_at :: "tpl_tok list \<Rightarrow> bytes \<Rightarrow> nat \<Rightarrow> (nat \<times> nat) + nat" where
  "matches_at tpl cert i = matches_from 0 tpl cert i"

definition matches_tpl :: "tpl_tok list \<Rightarrow> bytes \<Rightarrow> nat \<Rightarrow> nat option" where
  "matches_tpl tpl cert i = (case matches_at tpl cert i of Inr n \<Rightarrow> Some n | Inl _ \<Rightarrow> None)"

definition render_holes :: "tpl_tok list \<Rightarrow> bytes" where
  "render_holes t = concat (map (\<lambda>x. case x of TLit l \<Rightarrow> l | THole h \<Rightarrow> ''_'') t)"

end
