(* ===== verification/Template_Holes.thy ===== *)
theory Template_Holes
  imports Template
begin

text \<open>
  What the matcher accepts at a position, the verifier's parser reads there: literals, and the text of a
  hole up to the same end.
\<close>

subsection \<open>Literals\<close>

definition at_lit :: "bytes \<Rightarrow> nat \<Rightarrow> bytes \<Rightarrow> bool" where
  "at_lit s k l \<longleftrightarrow> take (length l) (drop k s) = l"

lemma at_lit_Nil [simp]: "at_lit s k []"
  by (simp add: at_lit_def)

lemma at_lit_Cons [simp]: "at_lit s k (c # l) \<longleftrightarrow> sget s k = Some c \<and> at_lit s (Suc k) l"
proof (cases "k < length s")
  case True
  then have "drop k s = s ! k # drop (Suc k) s" by (simp add: Cons_nth_drop_Suc)
  then show ?thesis using True by (auto simp: at_lit_def sget_def)
qed (simp add: at_lit_def sget_def)

lemma at_lit_append [simp]: "at_lit s k (l @ m) \<longleftrightarrow> at_lit s k l \<and> at_lit s (k + length l) m"
  by (induction l arbitrary: k) auto

lemma at_lit_split:
  assumes "at_lit s k l" and "l \<noteq> []"
  shows "s = take k s @ l @ drop (k + length l) s" "length (take k s) = k"
proof -
  have "drop k s = l @ drop (length l) (drop k s)"
    using assms(1) append_take_drop_id [of "length l" "drop k s"] by (simp add: at_lit_def)
  then show "s = take k s @ l @ drop (k + length l) s"
    using append_take_drop_id [of k s] by (simp add: add.commute)
  show "length (take k s) = k"
    using assms by (cases "k \<le> length s") (auto simp: at_lit_def)
qed

text \<open>No digit stands at a position.\<close>

definition nd :: "bytes \<Rightarrow> nat \<Rightarrow> bool" where
  "nd s k \<longleftrightarrow> (\<forall>c. sget s k = Some c \<longrightarrow> \<not> is_digit c)"

lemma nd_drop: "nd s k \<Longrightarrow> no_digit (drop k s)"
  by (cases "k < length s") (auto simp: nd_def no_digit_def sget_def Cons_nth_drop_Suc [symmetric])

lemma nat_lit:
  assumes "at_lit s k (dec_string n)" and "nd s (k + length (dec_string n))"
  shows "nat_at s k = Some (dnat_of n, k + length (dec_string n))"
  using nat_at_text [OF nd_drop [OF assms(2)], of "take k s" n] at_lit_split [OF assms(1)] by simp

lemma z_lit:
  assumes "at_lit s k (z_text n)" and "nd s (k + length (z_text n))"
  shows "z_at s k = Some (z_of_int n, k + length (z_text n))"
  using z_at_text [OF nd_drop [OF assms(2)], of "take k s" n] at_lit_split [OF assms(1)] by simp

lemma z_lit_nat:
  assumes "at_lit s k (dec_string n)" and "nd s (k + length (dec_string n))"
  shows "z_at s k = Some (z_of_int (int n), k + length (dec_string n))"
  using z_lit [of s k "int n"] assms by (simp add: z_text_def)

lemma form_lit:
  assumes "at_lit s k (form_text l)" and "nd s (k + length (form_text l))"
  shows "lin_at s k = Some (lform l, k + length (form_text l))"
  using lin_at_text [OF nd_drop [OF assms(2)], of "take k s" l] at_lit_split [OF assms(1)] by (simp add: form_text_def)

lemma sk_at: "sget s k = Some c \<Longrightarrow> sk s k = (if is_sep c then sk s (Suc k) else k)"
  by (subst sk.simps) simp

lemma tok_at: "sget s k = Some c \<Longrightarrow> \<not> is_sep c \<Longrightarrow> tok s k c = Some (Suc k)"
  by (simp add: tok_def sk_at Let_def)

text \<open>Separators are skipped before each token.\<close>

lemma z_at_skips: "z_at s (sk s i) = z_at s i"
  by (simp add: z_at_def)

lemma lin_at_skips: "lin_at s (sk s i) = lin_at s i"
  by (simp add: lin_at_def tok_skips)

lemma pf_at_skips: "pf_at s (sk s i) = pf_at s i"
  by (simp add: pf_at_def tok_skips)

lemma map_at_skips: "map_at s (sk s i) = map_at s i"
  by (simp add: map_at_def nat_at_skips)

lemma past_sep:
  assumes "sget s k = Some c" and "is_sep c"
  shows "sk s k = sk s (Suc k)" "nat_at s k = nat_at s (Suc k)" "z_at s k = z_at s (Suc k)" "lin_at s k = lin_at s (Suc k)"
    "pf_at s k = pf_at s (Suc k)" "map_at s k = map_at s (Suc k)" "tok s k d = tok s (Suc k) d" "at_stop s k = at_stop s (Suc k)"
proof -
  show k: "sk s k = sk s (Suc k)" using assms by (simp add: sk_at)
  show "nat_at s k = nat_at s (Suc k)" "z_at s k = z_at s (Suc k)" "lin_at s k = lin_at s (Suc k)"
    "pf_at s k = pf_at s (Suc k)" "map_at s k = map_at s (Suc k)" "tok s k d = tok s (Suc k) d"
    using k nat_at_skips z_at_skips lin_at_skips pf_at_skips map_at_skips tok_skips by metis+
  show "at_stop s k = at_stop s (Suc k)" by (simp add: at_stop_def k)
qed

lemma sep_bytes [simp]: "is_sep (CHR '' '')" "is_sep (CHR '','')"
  by (simp_all add: is_sep_def is_space_def)

subsection \<open>Holes\<close>

lemma sget_drop [simp]: "sget (drop k s) i = sget s (k + i)"
  by (auto simp: sget_def)

text \<open>A unit of text: what the matcher measures at a position, the item's reader reads to the same end; it starts
  with neither a separator nor the end of a list.\<close>

locale measured = scanner item "\<lambda>_. True" for item :: "'a scanner" +
  fixes unit_len :: "bytes \<Rightarrow> nat option"
  assumes reads: "unit_len (drop k s) = Some n \<Longrightarrow> \<exists>x. item s k = Some (x, k + n)"
    and starts: "unit_len (drop k s) = Some n \<Longrightarrow> \<exists>c. sget s k = Some c \<and> \<not> is_sep c \<and> c \<notin> set ''|}])''"
    and skips: "item s (sk s i) = item s i"
begin

lemma not_stop_at:
  assumes "unit_len (drop k s) = Some n"
  shows "\<not> at_stop s k" "sk s k = k"
  using starts [OF assms] by (auto simp: at_stop_def sk_at)

lemma many_blank: "sget s k = Some (CHR '' '') \<Longrightarrow> many item s k out = many item s (Suc k) out"
  using past_sep(1,8) [of s k "CHR '' ''"] skips [of s k] skips [of s "Suc k"]
  by (subst (1 2) many.simps) simp

lemma many_unit:
  assumes "unit_len (drop k s) = Some n"
  shows "\<exists>x. many item s k out = many item s (k + n) (out @ [x])"
  using reads [OF assms] not_stop_at [OF assms] by (subst many.simps) auto

lemma many_stop: "at_stop s k \<Longrightarrow> many item s k out = Some (out, sk s k)"
  by (subst many.simps) simp

lemma many_loop_reads:
  "at_stop s (k + many_loop unit_len (drop k s) i) \<Longrightarrow>
     \<exists>xs. many item s (k + i) out = Some (out @ xs, sk s (k + many_loop unit_len (drop k s) i))"
proof (induction "length s - (k + i)" arbitrary: i out rule: less_induct)
  case less
  show ?case
  proof (cases "sget s (k + i) = Some (CHR '' '') \<and> unit_len (drop (Suc (k + i)) s) \<noteq> None")
    case True
    then obtain n where b: "sget s (k + i) = Some (CHR '' '')" and n: "unit_len (drop (Suc (k + i)) s) = Some n"
      by auto
    have m: "many_loop unit_len (drop k s) i = many_loop unit_len (drop k s) (i + (1 + n))"
      using b n by (subst many_loop.simps) (simp add: add.commute)
    obtain x where x: "many item s (Suc (k + i)) out = many item s (k + (i + (1 + n))) (out @ [x])"
      using many_unit [OF n, of out] by (auto simp: add.assoc)
    have "length s - (k + (i + (1 + n))) < length s - (k + i)"
      using b by (auto simp: sget_Some)
    then obtain xs where "many item s (k + (i + (1 + n))) (out @ [x]) =
        Some ((out @ [x]) @ xs, sk s (k + many_loop unit_len (drop k s) i))"
      using less.hyps less.prems m by metis
    then show ?thesis
      using many_blank [OF b, of out] x by auto
  next
    case False
    then have "many_loop unit_len (drop k s) i = i"
      by (subst many_loop.simps) (auto simp: add.commute split: option.split)
    then show ?thesis using less.prems many_stop by simp
  qed
qed

lemma many_len_reads:
  assumes "at_stop s (k + many_len (drop k s) unit_len)"
  shows "\<exists>xs. many item s k [] = Some (xs, sk s (k + many_len (drop k s) unit_len))"
proof (cases "unit_len (drop k s)")
  case None
  then show ?thesis using assms many_stop by (simp add: many_len_def)
next
  case (Some n)
  then obtain x where "many item s k [] = many item s (k + n) [x]"
    using many_unit [OF Some, of "[]"] by auto
  then show ?thesis
    using many_loop_reads [of s k n "[x]"] assms Some by (auto simp: many_len_def)
qed

end

subsection \<open>Numbers\<close>

lemma digits_at: "0 < length (takeWhile is_digit (drop k s)) \<Longrightarrow> \<exists>c. sget s k = Some c \<and> is_digit c"
  by (cases "k < length s") (auto simp: sget_def Cons_nth_drop_Suc [symmetric] split: if_splits)

lemma stop_not_digit: "is_digit c \<Longrightarrow> c \<notin> set ''|}])'' \<and> c \<noteq> CHR ''-''"
  by (auto simp: is_digit_def)

lemma nat_len_reads:
  assumes "nat_len (drop k s) = Some n"
  shows "\<exists>m. nat_at s k = Some (m, k + n)" "\<exists>c. sget s k = Some c \<and> is_digit c" "0 < n"
proof -
  have n: "n = run_len is_digit s k" "0 < n"
    using assms by (auto simp: nat_len_def run_len_def Let_def split: if_splits)
  then show d: "\<exists>c. sget s k = Some c \<and> is_digit c" and "0 < n"
    using digits_at by (auto simp: run_len_def)
  then have "sk s k = k" by (auto simp: sk_at digit_not_sep)
  then show "\<exists>m. nat_at s k = Some (m, k + n)"
    using n by (simp add: nat_at_def digits_end_def Let_def)
qed

lemma unum_run: "0 < run_len is_digit s k \<Longrightarrow> \<exists>z. unum s k = Some (z, k + run_len is_digit s k)"
  by (simp add: unum_def digits_end_def Let_def)

lemma z_len_reads:
  assumes "z_len (drop k s) = Some n"
  shows "\<exists>z. z_at s k = Some (z, k + n)"
proof (cases "sget s k = Some (CHR ''-'')")
  case True
  then have n: "n = Suc (run_len is_digit s (Suc k))" "0 < run_len is_digit s (Suc k)"
    using assms by (auto simp: z_len_def run_len_def Let_def split: if_splits)
  moreover have "sk s k = k" using True by (simp add: sk_at is_sep_def is_space_def)
  ultimately show ?thesis
    using True unum_run [OF n(2)] by (auto simp: z_at_def)
next
  case False
  then have n: "n = run_len is_digit s k" "0 < run_len is_digit s k"
    using assms by (auto simp: z_len_def run_len_def Let_def split: if_splits)
  then obtain c where c: "sget s k = Some c" "is_digit c" using digits_at by (auto simp: run_len_def)
  then have "sk s k = k" by (simp add: sk_at digit_not_sep)
  then show ?thesis
    using False unum_run [OF n(2)] n(1) by (auto simp: z_at_def)
qed

lemma number_colon_reads:
  assumes "number_colon (drop k s) i = Some j"
  shows "\<exists>m l z. nat_at s (k + i) = Some (m, l) \<and> tok s l (CHR '':'') = Some (Suc l) \<and> z_at s (Suc l) = Some (z, k + j)"
    "\<exists>c. sget s (k + i) = Some c \<and> is_digit c"
proof -
  obtain n z where n: "nat_len (drop (k + i) s) = Some n" "sget s (k + i + n) = Some (CHR '':'')"
    and z: "z_len (drop (Suc (k + i + n)) s) = Some z" "j = i + n + 1 + z"
    using assms by (auto simp: number_colon_def add.commute add.assoc add.left_commute split: option.splits if_splits)
  show "\<exists>c. sget s (k + i) = Some c \<and> is_digit c" using nat_len_reads(2) [OF n(1)] .
  obtain m where m: "nat_at s (k + i) = Some (m, k + i + n)" using nat_len_reads(1) [OF n(1)] by blast
  obtain x where x: "z_at s (Suc (k + i + n)) = Some (x, Suc (k + i + n) + z)" using z_len_reads [OF z(1)] by blast
  have "tok s (k + i + n) (CHR '':'') = Some (Suc (k + i + n))" using n(2) by (rule tok_at) simp
  with m x z(2) show "\<exists>m l z. nat_at s (k + i) = Some (m, l) \<and> tok s l (CHR '':'') = Some (Suc l) \<and> z_at s (Suc l) = Some (z, k + j)"
    by auto
qed

subsection \<open>Proofs and forms\<close>

text \<open>A bracketed list: its entries are read one by one, and the loop stops at the closing bracket.\<close>

lemma mult_at_reads: "number_colon (drop k s) i = Some j \<Longrightarrow> \<exists>x. mult_at s (k + i) = Some (x, k + j)"
  using number_colon_reads(1) [of k s i j] by (auto simp: mult_at_def)

lemma mult_at_skips: "mult_at s (sk s i) = mult_at s i"
  by (simp add: mult_at_def nat_at_skips)

lemma entry_many:
  assumes skips: "\<And>i. item s (sk s i) = item s i" and n: "next_entry (drop k s) i = Some j"
  shows "many item s (k + i) out = many item s (k + j) out"
proof (cases "1 < i")
  case True
  then have b: "sget s (k + i) = Some (CHR '' '')" and j: "j = Suc i"
    using n by (auto simp: next_entry_def split: if_splits)
  show ?thesis
    using past_sep(1,8) [OF b] skips [of "k + i"] skips [of "Suc (k + i)"] j
    by (subst (1 2) many.simps) simp
qed (use n in \<open>simp add: next_entry_def\<close>)

lemma many_once:
  assumes "item s k = Some (x, j)" and "sget s k = Some c" and "\<not> is_sep c" and "c \<notin> set ''|}])''"
  shows "many item s k out = many item s j (out @ [x])"
  using assms by (subst many.simps) (simp add: at_stop_def sk_at)

lemma many_close: "sget s k = Some c \<Longrightarrow> c \<in> set ''|}])'' \<Longrightarrow> \<not> is_sep c \<Longrightarrow> many item s k out = Some (out, k)"
  by (subst many.simps) (simp add: at_stop_def sk_at)

lemma pf_loop_reads:
  "pf_loop (drop k s) i = Some j \<Longrightarrow>
     sget s (k + j) = Some (CHR '')'') \<and> (\<exists>xs. many mult_at s (k + i) out = Some (out @ xs, k + j))"
proof (induction "drop k s" i arbitrary: out rule: pf_loop.induct)
  case (1 i)
  show ?case
  proof (cases "sget s (k + i) = Some (CHR '')'')")
    case True
    then have "j = i" using 1(2) by (subst (asm) pf_loop.simps) simp
    then show ?thesis using True many_close [OF True, of mult_at out] by simp
  next
    case False
    then obtain l m where e: "next_entry (drop k s) i = Some l" and n: "number_colon (drop k s) l = Some m"
      and r: "pf_loop (drop k s) m = Some j"
      using 1(2) by (subst (asm) pf_loop.simps) (auto split: option.splits)
    obtain x where x: "mult_at s (k + l) = Some (x, k + m)" using mult_at_reads [OF n] by blast
    obtain c where c: "sget s (k + l) = Some c" "is_digit c" using number_colon_reads(2) [OF n] by blast
    have "many mult_at s (k + i) out = many mult_at s (k + l) out"
      by (rule entry_many [where item = mult_at, OF mult_at_skips e])
    also have "\<dots> = many mult_at s (k + m) (out @ [x])"
      using c stop_not_digit digit_not_sep by (intro many_once [where item = mult_at, OF x]) auto
    finally show ?thesis
      using 1(1) [OF _ e n r, of "out @ [x]"] False by auto
  qed
qed

lemma close_z:
  assumes "sget s (k + i) = Some c" and "\<not> is_sep c" and "z_len (drop (i + 1) (drop k s)) = Some z"
  shows "tok s (k + i) c = Some (Suc (k + i)) \<and> (\<exists>x. z_at s (Suc (k + i)) = Some (x, k + (i + 1 + z)))"
  using tok_at [OF assms(1,2)] z_len_reads [of "Suc (k + i)" s z] assms(3) by (simp add: add.commute add.left_commute)

lemma pf_len_reads: "pf_len (drop k s) = Some n \<Longrightarrow> \<exists>x. pf_at s k = Some (x, k + n)"
proof -
  assume p: "pf_len (drop k s) = Some n"
  then obtain i z where o1: "sget s k = Some (CHR ''('')" and l: "pf_loop (drop k s) 1 = Some i"
    and z: "z_len (drop (i + 1) (drop k s)) = Some z" and n: "n = i + 1 + z"
    by (auto simp: pf_len_def split: if_splits option.splits)
  obtain xs where m: "many mult_at s (Suc k) [] = Some (xs, k + i)" and c: "sget s (k + i) = Some (CHR '')'')"
    using pf_loop_reads [OF l, of "[]"] by auto
  show ?thesis
    using tok_at [OF o1] m close_z [OF c _ z] n by (auto simp: pf_at_def)
qed

interpretation measured_pfs: measured pf_at pf_len
proof (unfold_locales, goal_cases)
  case (2 k s n)
  then show ?case by (auto simp: pf_len_def split: if_splits)
qed (rule pf_len_reads, assumption, rule pf_at_skips)

lemma term_at_skips: "term_at s (sk s i) = term_at s i"
  by (simp add: term_at_def)

lemma term_at_reads:
  assumes c: "sget s (k + i) \<in> {Some (CHR ''s''), Some (CHR ''b''), Some (CHR ''c'')}" and n: "number_colon (drop k s) (i + 1) = Some j"
  shows "\<exists>x. term_at s (k + i) = Some (x, k + j)"
proof -
  have "sk s (k + i) = k + i" using c by (auto simp: sk_at)
  then show ?thesis
    using c number_colon_reads(1) [OF n] by (auto simp: term_at_def Let_def)
qed

lemma lin_loop_reads:
  "lin_loop (drop k s) i = Some j \<Longrightarrow>
     sget s (k + j) = Some (CHR '']'') \<and> (\<exists>xs. many term_at s (k + i) out = Some (out @ xs, k + j))"
proof (induction "drop k s" i arbitrary: out rule: lin_loop.induct)
  case (1 i)
  show ?case
  proof (cases "sget s (k + i) = Some (CHR '']'')")
    case True
    then have "j = i" using 1(2) by (subst (asm) lin_loop.simps) simp
    then show ?thesis using True many_close [OF True, of term_at out] by simp
  next
    case False
    then obtain l m where e: "next_entry (drop k s) i = Some l"
      and t: "sget s (k + l) \<in> {Some (CHR ''s''), Some (CHR ''b''), Some (CHR ''c'')}"
      and n: "number_colon (drop k s) (l + 1) = Some m" and r: "lin_loop (drop k s) m = Some j"
      using 1(2) by (subst (asm) lin_loop.simps) (auto split: option.splits if_splits)
    obtain x where x: "term_at s (k + l) = Some (x, k + m)" using term_at_reads [OF t n] by blast
    have "many term_at s (k + i) out = many term_at s (k + l) out"
      by (rule entry_many [where item = term_at, OF term_at_skips e])
    also have "\<dots> = many term_at s (k + m) (out @ [x])"
      using t by (intro many_once [where item = term_at, OF x, of "the (sget s (k + l))"]) auto
    finally show ?thesis
      using 1(1) [OF _ e _ n r, of "out @ [x]"] False t by auto
  qed
qed

lemma lin_len_reads: "lin_len (drop k s) = Some n \<Longrightarrow> \<exists>x. lin_at s k = Some (x, k + n)"
proof -
  assume p: "lin_len (drop k s) = Some n"
  then obtain i z where o1: "sget s k = Some (CHR ''['')" and l: "lin_loop (drop k s) 1 = Some i"
    and z: "z_len (drop (i + 1) (drop k s)) = Some z" and n: "n = i + 1 + z"
    by (auto simp: lin_len_def split: if_splits option.splits)
  obtain xs where m: "many term_at s (Suc k) [] = Some (xs, k + i)" and c: "sget s (k + i) = Some (CHR '']'')"
    using lin_loop_reads [OF l, of "[]"] by auto
  show ?thesis
    using tok_at [OF o1] m close_z [OF c _ z] n by (auto simp: lin_at_def)
qed

interpretation measured_lins: measured lin_at lin_len
proof (unfold_locales, goal_cases)
  case (2 k s n)
  then show ?case by (auto simp: lin_len_def split: if_splits)
qed (rule lin_len_reads, assumption, rule lin_at_skips)

subsection \<open>Maps\<close>

lemma map_len_reads: "map_len (drop k s) = Some n \<Longrightarrow> \<exists>x. map_at s k = Some (x, k + n)"
proof -
  assume m: "map_len (drop k s) = Some n"
  then obtain a b where a: "nat_len (drop k s) = Some a" and c: "sget s (k + a) = Some (CHR '':'')"
    and b: "nat_len (drop (Suc (k + a)) s) = Some b" and n: "n = a + 1 + b"
    by (auto simp: map_len_def add.commute split: option.splits if_splits)
  show ?thesis
    using nat_len_reads(1) [OF a] tok_at [OF c] nat_len_reads(1) [OF b] n by (auto simp: map_at_def)
qed

interpretation measured_maps: measured map_at map_len
proof (unfold_locales, goal_cases)
  case (2 k s n)
  then obtain a where "nat_len (drop k s) = Some a" by (auto simp: map_len_def split: option.splits)
  then show ?case using nat_len_reads(2) stop_not_digit digit_not_sep by blast
qed (rule map_len_reads, assumption, rule map_at_skips)

end
