(* ===== verification/Template_Read.thy ===== *)
theory Template_Read
  imports Template_Holes
begin

text \<open>
  A certificate that spells the template of a translated body is read by the verifier as that body: the
  items, slots, widths and forms are the translated ones, and only the proofs, facts, regions and maps are
  the certificate's own.
\<close>

subsection \<open>Matching piece by piece\<close>

text \<open>A literal, a hole and a template at a position, with the position after them.\<close>

definition lit_at :: "bytes \<Rightarrow> nat \<Rightarrow> bytes \<Rightarrow> nat option" where
  "lit_at s k l = (if at_lit s k l then Some (k + length l) else None)"

definition hole_at :: "bytes \<Rightarrow> nat \<Rightarrow> hole \<Rightarrow> nat option" where
  "hole_at s k h = map_option (\<lambda>n. k + n) (hole_len h (drop k s))"

fun meets :: "bytes \<Rightarrow> nat \<Rightarrow> tpl_tok list \<Rightarrow> nat option" where
  "meets s i [] = Some i"
| "meets s i (TLit l # ts) = Option.bind (lit_at s i l) (\<lambda>j. meets s j ts)"
| "meets s i (THole h # ts) = Option.bind (hole_at s i h) (\<lambda>j. meets s j ts)"

lemma bind_chain [simp]:
  "Option.bind (Option.bind x f) g = Option.bind x (\<lambda>y. Option.bind (f y) g)"
  by (cases x) auto

lemma lit_at_Nil [simp]: "lit_at s k [] = Some k"
  by (simp add: lit_at_def)

lemma lit_at_Cons [simp]: "lit_at s k (c # l) = (if sget s k = Some c then lit_at s (Suc k) l else None)"
  by (simp add: lit_at_def)

lemma lit_at_append [simp]: "lit_at s k (l @ m) = Option.bind (lit_at s k l) (\<lambda>j. lit_at s j m)"
  by (simp add: lit_at_def add.assoc)

lemma meets_append [simp]: "meets s i (ts @ us) = Option.bind (meets s i ts) (\<lambda>j. meets s j us)"
proof (induction ts arbitrary: i)
  case (Cons t ts)
  then show ?case by (cases t) (auto split: Option.bind_split)
qed simp

lemma meets_tlit [simp]: "meets s i (tlit l out) = Option.bind (meets s i out) (\<lambda>j. lit_at s j l)"
  by (cases out rule: rev_cases) (auto simp: tlit_def split: tpl_tok.split)

lemma meets_thole [simp]: "meets s i (thole h out) = Option.bind (meets s i out) (\<lambda>j. hole_at s j h)"
  by (auto simp: thole_def split: Option.bind_split)

lemma matches_meets: "matches_from k tpl s i = Inr n \<longleftrightarrow> meets s i tpl = Some n"
proof (induction tpl arbitrary: k i)
  case (Cons t ts)
  have "drop (min i (length s)) s = drop i s" by (simp add: min_def)
  with Cons show ?case
    by (cases t) (auto simp: tok_len_def lit_at_def hole_at_def at_lit_def split: option.split)
qed auto

subsection \<open>Spelled items\<close>

fun arms :: "it \<Rightarrow> it list list" where
  "arms (KTest a b sg thn els) = [thn, els]"
| "arms (KBranch thn els) = [thn, els]"
| "arms (KLoop body) = [body]"
| "arms _ = []"

lemma arms_smaller: "b \<in> set (arms x) \<Longrightarrow> size_list size b < size x"
  by (cases x) auto

lemma items_induct [case_names Nil Cons]:
  assumes "P []" and "\<And>x its. P its \<Longrightarrow> (\<And>b. b \<in> set (arms x) \<Longrightarrow> P b) \<Longrightarrow> P (x # its)"
  shows "P its"
proof (induction its rule: measure_induct_rule [of "size_list size"])
  case (less its)
  show ?case
  proof (cases its)
    case (Cons x xs)
    have "P b" if "b \<in> set (arms x)" for b
      using less [of b] arms_smaller [OF that] Cons by simp
    then show ?thesis using assms(2) less [of xs] Cons by simp
  qed (simp add: assms(1))
qed

definition spell :: "bytes \<Rightarrow> nat \<Rightarrow> it list \<Rightarrow> nat option" where
  "spell s m its = meets s m (items_template its [])"

definition spell_args :: "bytes \<Rightarrow> nat \<Rightarrow> (nat \<times> form) list \<Rightarrow> nat option" where
  "spell_args s m args = meets s m (arg_templates args [])"

text \<open>What follows is matched where the rest ends.\<close>

lemma spell_args_simps:
  "spell_args s m [] = Some m"
  "spell_args s m (a # args) = meets s m (arg_templates (a # args) [])"
  by (simp_all add: spell_args_def)

lemma meets_args: "meets s i (arg_templates args out) = Option.bind (meets s i out) (\<lambda>m. spell_args s m args)"
proof (induction args arbitrary: i out)
  case (Cons a args)
  obtain p l where a: "a = (p, l)" by (cases a)
  show ?case
    by (simp add: a spell_args_simps(2) Cons)
qed (simp add: spell_args_simps)

lemma spell_simps:
  "spell s m [] = Some m"
  "spell s m (x # its) = meets s m (items_template (x # its) [])"
  by (simp_all add: spell_def)

lemma meets_items: "meets s i (items_template its out) = Option.bind (meets s i out) (\<lambda>m. spell s m its)"
proof (induction its arbitrary: i out rule: items_induct)
  case (Cons x its)
  show ?case
    using Cons(2) by (cases x) (simp_all add: spell_simps(2) Cons(1) meets_args eval_nat_numeral)
qed (simp add: spell_simps)

lemma spell_Cons: "spell s m (x # its) = Option.bind (spell s m [x]) (\<lambda>k. spell s k its)"
  by (cases x) (simp_all add: spell_simps meets_items)

text \<open>One item, as a chain of literals and holes.\<close>

lemmas one_item = spell_simps meets_items meets_args eval_nat_numeral

subsection \<open>Tokens of a template\<close>

text \<open>A blank and the end of a list after it.\<close>

definition closes :: "bytes \<Rightarrow> nat \<Rightarrow> bool" where
  "closes s k \<longleftrightarrow> sget s k = Some (CHR '' '') \<and> (\<exists>c \<in> set ''|}''. sget s (Suc k) = Some c)"

lemma closesI:
  "sget s k = Some (CHR '' '') \<Longrightarrow> sget s (Suc k) = Some (CHR ''|'') \<Longrightarrow> closes s k"
  "sget s k = Some (CHR '' '') \<Longrightarrow> sget s (Suc k) = Some (CHR ''}'') \<Longrightarrow> closes s k"
  by (simp_all add: closes_def)

lemma is_sep_letters [simp]: "is_sep (CHR '' '')" "is_sep (CHR '','')"
  by (simp_all add: is_sep_def is_space_def)

lemma closes_stop:
  assumes "closes s k"
  shows "at_stop s k" "sk s k = Suc k"
proof -
  obtain c where c: "sget s k = Some (CHR '' '')" "c \<in> set ''|}''" "sget s (Suc k) = Some c"
    using assms by (auto simp: closes_def)
  then have "sk s (Suc k) = Suc k" by (auto simp: sk_at is_sep_def is_space_def)
  then show "sk s k = Suc k" using c past_sep(1) [OF c(1)] by simp
  then show "at_stop s k" using c by (auto simp: at_stop_def)
qed

lemma nd_at: "sget s k = Some c \<Longrightarrow> \<not> is_digit c \<Longrightarrow> nd s k"
  by (simp add: nd_def)

lemma lit_nat: "lit_at s k (dec_string n) = Some j \<Longrightarrow> nd s j \<Longrightarrow> nat_at s k = Some (dnat_of n, j)"
  using nat_lit by (auto simp: lit_at_def split: if_splits)

lemma lit_z: "lit_at s k (z_text n) = Some j \<Longrightarrow> nd s j \<Longrightarrow> z_at s k = Some (z_of_int n, j)"
  using z_lit by (auto simp: lit_at_def split: if_splits)

lemma lit_z_nat: "lit_at s k (dec_string n) = Some j \<Longrightarrow> nd s j \<Longrightarrow> z_at s k = Some (z_of_int (int n), j)"
  using z_lit_nat by (auto simp: lit_at_def split: if_splits)

lemma lit_form: "lit_at s k (form_text l) = Some j \<Longrightarrow> nd s j \<Longrightarrow> lin_at s k = Some (lform l, j)"
  using form_lit by (auto simp: lit_at_def split: if_splits)

lemma tok_here: "sget s k = Some c \<Longrightarrow> \<not> is_sep c \<Longrightarrow> tok s k c = Some (Suc k)"
  by (rule tok_at)

text \<open>A token after a separator.\<close>

lemma after_sep:
  assumes "sget s k = Some c" and "is_sep c"
  shows "nat_at s (Suc k) = r \<Longrightarrow> nat_at s k = r" "z_at s (Suc k) = q \<Longrightarrow> z_at s k = q"
    "lin_at s (Suc k) = l \<Longrightarrow> lin_at s k = l" "pf_at s (Suc k) = p \<Longrightarrow> pf_at s k = p"
  using past_sep [OF assms] by simp_all

text \<open>What the holes hold.\<close>

lemma pf_hole: "hole_at s k HPf = Some j \<Longrightarrow> \<exists>p. pf_at s k = Some (p, j)"
  using pf_len_reads by (auto simp: hole_at_def hole_len_def)

lemma reg_hole: "hole_at s k HReg = Some j \<Longrightarrow> \<exists>r. nat_at s k = Some (r, j)"
  using nat_len_reads(1) by (auto simp: hole_at_def hole_len_def)

lemma pfs_hole: "hole_at s k HPfs = Some j \<Longrightarrow> closes s j \<Longrightarrow> \<exists>ps. many pf_at s k [] = Some (ps, Suc j)"
  using measured_pfs.many_len_reads [of s k] closes_stop [of s j] by (auto simp: hole_at_def hole_len_def)

lemma facts_hole: "hole_at s k HFacts = Some j \<Longrightarrow> closes s j \<Longrightarrow> \<exists>ls. many lin_at s k [] = Some (ls, Suc j)"
  using measured_lins.many_len_reads [of s k] closes_stop [of s j] by (auto simp: hole_at_def hole_len_def)

lemma maps_hole: "hole_at s k HMaps = Some j \<Longrightarrow> closes s j \<Longrightarrow> \<exists>ms. many map_at s k [] = Some (ms, Suc j)"
  using measured_maps.many_len_reads [of s k] closes_stop [of s j] by (auto simp: hole_at_def hole_len_def)

end
