(* ===== verification/Template_Items.thy ===== *)
theory Template_Items
  imports Template_Read
begin

text \<open>
  The items a template stands for and, item by item, their reading from a certificate that spells it.
\<close>

subsection \<open>What a template leaves open\<close>

definition no_pf :: pf where
  "no_pf = ([], z_of_int 0)"

definition want_arg :: "nat \<times> form \<Rightarrow> larg" where
  "want_arg a = (dnat_of (fst a), lform (snd a), None)"

definition bare_arg :: "larg \<Rightarrow> larg" where
  "bare_arg a = (fst a, fst (snd a), None)"

lemma arg_eqs: "bare_arg (p, l, pp) = (p, l, None)" "want_arg (n, f) = (dnat_of n, lform f, None)"
  by (simp_all add: bare_arg_def want_arg_def)

text \<open>The items of a body with nothing in the holes, and an item list with its holes emptied.\<close>

fun expected :: "it list \<Rightarrow> litem list" where
  "expected [] = []"
| "expected (KAcc store w off addr site # ks) =
     (if store then LSto else LAcc) (dnat_of 0) (z_of_int (int w)) (z_of_int (int off)) (lform addr) no_pf no_pf no_pf
       # expected ks"
| "expected (KHandle h r # ks) = LHandle (dnat_of h) (dnat_of r) # expected ks"
| "expected (KLen n r st # ks) = LLen (dnat_of n) (dnat_of r) (z_of_int st) # expected ks"
| "expected (KAlloc h r sz # ks) = LAlloc (dnat_of h) (dnat_of r) (lform sz) no_pf no_pf # expected ks"
| "expected (KWf r # ks) = LWf (dnat_of r) # expected ks"
| "expected (KStatic r b0 c0 # ks) = LStatic (dnat_of r) (z_of_int b0) (z_of_int c0) # expected ks"
| "expected (KSet x # ks) = LSet (dnat_of x) # expected ks"
| "expected (KSetR x lo hi # ks) = LSetR (dnat_of x) (z_of_int lo) (z_of_int hi) # expected ks"
| "expected (KAsn x l # ks) = LAsn (dnat_of x) (lform l) no_pf no_pf # expected ks"
| "expected (KTest a b sg thn els # ks) =
     LTest (lform a) (lform b) sg (no_pf, no_pf) (no_pf, no_pf) (no_pf, no_pf) (expected thn) (expected els)
       # expected ks"
| "expected (KBranch thn els # ks) = LBranch (expected thn) (expected els) # expected ks"
| "expected (KLoop body # ks) = LLoop [] [] (expected body) # expected ks"
| "expected (KCont # ks) = LCont [] # expected ks"
| "expected (KBrk # ks) = LBrk # expected ks"
| "expected (KTrap # ks) = LTrap # expected ks"
| "expected (KCall f args res # ks) =
     LCall (dnat_of f) (map want_arg args) [] [] (dnat_of res) [] # expected ks"
| "expected (KRet # ks) = LRet [] # expected ks"

fun emptied :: "litem list \<Rightarrow> litem list" where
  "emptied [] = []"
| "emptied (LAcc r w off a p0 p1 p2 # ls) = LAcc (dnat_of 0) w off a no_pf no_pf no_pf # emptied ls"
| "emptied (LSto r w off a p0 p1 p2 # ls) = LSto (dnat_of 0) w off a no_pf no_pf no_pf # emptied ls"
| "emptied (LHandle h r # ls) = LHandle h r # emptied ls"
| "emptied (LLen n r st # ls) = LLen n r st # emptied ls"
| "emptied (LAlloc h r sz lo hi # ls) = LAlloc h r sz no_pf no_pf # emptied ls"
| "emptied (LWf r # ls) = LWf r # emptied ls"
| "emptied (LStatic r b0 c0 # ls) = LStatic r b0 c0 # emptied ls"
| "emptied (LSet x # ls) = LSet x # emptied ls"
| "emptied (LSetR x lo hi # ls) = LSetR x lo hi # emptied ls"
| "emptied (LAsn x l lo hi # ls) = LAsn x l no_pf no_pf # emptied ls"
| "emptied (LTest a b sg pa pb nn thn els # ls) =
     LTest a b sg (no_pf, no_pf) (no_pf, no_pf) (no_pf, no_pf) (emptied thn) (emptied els) # emptied ls"
| "emptied (LBranch thn els # ls) = LBranch (emptied thn) (emptied els) # emptied ls"
| "emptied (LLoop iv pin body # ls) = LLoop [] [] (emptied body) # emptied ls"
| "emptied (LCont ps # ls) = LCont [] # emptied ls"
| "emptied (LBrk # ls) = LBrk # emptied ls"
| "emptied (LTrap # ls) = LTrap # emptied ls"
| "emptied (LCall f args reps outs res ps # ls) =
     LCall f (map bare_arg args) [] [] res [] # emptied ls"
| "emptied (LRet ps # ls) = LRet [] # emptied ls"

lemma emptied_Cons: "emptied (x # ls) = emptied [x] @ emptied ls"
  by (cases x) simp_all

lemma expected_Cons: "expected (x # ks) = expected [x] @ expected ks"
  by (cases x) simp_all

text \<open>Nothing follows an item that leaves its list.\<close>

definition final :: "it \<Rightarrow> bool" where
  "final x \<longleftrightarrow> x \<in> {KCont, KBrk, KTrap, KRet}"

function well_ended :: "it list \<Rightarrow> bool" where
  "well_ended [] = True"
| "well_ended (x # ks) \<longleftrightarrow> (final x \<longrightarrow> ks = []) \<and> list_all well_ended (arms x) \<and> well_ended ks"
  by pat_completeness auto
termination
  by (relation "measure (size_list size)") (auto dest: arms_smaller)

subsection \<open>Items without arms\<close>

text \<open>An item read after its blank and its letter.\<close>

definition flat :: "bytes \<Rightarrow> nat \<Rightarrow> it \<Rightarrow> nat \<Rightarrow> bool" where
  "flat s m x k \<longleftrightarrow>
     (\<exists>c y. sget s m = Some (CHR '' '') \<and> sget s (Suc m) = Some c \<and> c \<notin> set ''TBL|}]), '' \<and> \<not> is_space c \<and>
       lflat_item c s (Suc (Suc m)) = Some (y, k) \<and> emptied [y] = expected [x] \<and> (terminal y \<longleftrightarrow> final x))"

lemma flatI:
  assumes "sget s m = Some (CHR '' '')" and "sget s (Suc m) = Some c" and "lflat_item c s (Suc (Suc m)) = Some (y, k)"
    and "c \<in> set ''AWhnafgsr=cRkxC''" and "emptied [y] = expected [x]" and "terminal y \<longleftrightarrow> final x"
  shows "flat s m x k"
  unfolding flat_def using assms by (intro exI [of _ c] exI [of _ y]) (auto simp: is_space_def)

lemma mark_nd: "sget s j = Some c \<Longrightarrow> c \<in> set '' ,:|{!'' \<Longrightarrow> nd s j"
  by (auto simp: nd_def is_digit_def)

lemma reads_nat:
  "lit_at s k (dec_string n) = Some j \<Longrightarrow> sget s j = Some c \<Longrightarrow> c \<in> set '' ,:|{!'' \<Longrightarrow> nat_at s k = Some (dnat_of n, j)"
  using lit_nat mark_nd by blast

lemma reads_z:
  "lit_at s k (z_text n) = Some j \<Longrightarrow> sget s j = Some c \<Longrightarrow> c \<in> set '' ,:|{!'' \<Longrightarrow> z_at s k = Some (z_of_int n, j)"
  using lit_z mark_nd by blast

lemma reads_z_nat:
  "lit_at s k (dec_string n) = Some j \<Longrightarrow> sget s j = Some c \<Longrightarrow> c \<in> set '' ,:|{!'' \<Longrightarrow> z_at s k = Some (z_of_int (int n), j)"
  using lit_z_nat mark_nd by blast

lemma reads_form:
  "lit_at s k (form_text l) = Some j \<Longrightarrow> sget s j = Some c \<Longrightarrow> c \<in> set '' ,:|{!'' \<Longrightarrow> lin_at s k = Some (lform l, j)"
  using lit_form mark_nd by blast

lemmas reads = reads_nat reads_z reads_z_nat reads_form

text \<open>A proof after a blank.\<close>

lemma reads_pf:
  assumes "sget s k = Some (CHR '' '')" and "hole_at s (Suc k) HPf = Some j"
  shows "\<exists>p. pf_at s k = Some (p, j)"
  using pf_hole [OF assms(2)] after_sep(4) [OF assms(1)] by auto

lemmas chain = one_item bind_eq_Some_conv

lemma read_handle:
  assumes "spell s m [KHandle h r] = Some k" and e: "sget s k = Some (CHR '' '')"
  shows "flat s m (KHandle h r) k"
proof -
  obtain i where a: "sget s m = Some (CHR '' '')" "sget s (Suc m) = Some (CHR ''h'')"
    "lit_at s (Suc (Suc m)) (dec_string h) = Some i" "sget s i = Some (CHR '','')"
    "lit_at s (Suc i) (dec_string r) = Some k"
    using assms(1) by (auto simp: chain split: if_splits)
  show ?thesis
    by (rule flatI [OF a(1,2), where y = "LHandle (dnat_of h) (dnat_of r)"])
      (simp_all add: lflat_item_def lflat_handle_def reads_nat [OF a(3,4)] after_sep [OF a(4)] reads_nat [OF a(5) e]
        final_def)
qed

lemma read_len:
  assumes "spell s m [KLen n r st] = Some k" and e: "sget s k = Some (CHR '' '')"
  shows "flat s m (KLen n r st) k"
proof -
  obtain i j where a: "sget s m = Some (CHR '' '')" "sget s (Suc m) = Some (CHR ''n'')"
    "lit_at s (Suc (Suc m)) (dec_string n) = Some i" "sget s i = Some (CHR '','')"
    "lit_at s (Suc i) (dec_string r) = Some j" "sget s j = Some (CHR '','')" "lit_at s (Suc j) (z_text st) = Some k"
    using assms(1) by (auto simp: chain split: if_splits)
  show ?thesis
    by (rule flatI [OF a(1,2), where y = "LLen (dnat_of n) (dnat_of r) (z_of_int st)"])
      (simp_all add: lflat_item_def lflat_len_def reads_nat [OF a(3,4)] after_sep [OF a(4)] reads_nat [OF a(5,6)]
        after_sep [OF a(6)] reads_z [OF a(7) e] final_def)
qed

lemma read_wf:
  assumes "spell s m [KWf r] = Some k" and e: "sget s k = Some (CHR '' '')"
  shows "flat s m (KWf r) k"
proof -
  have a: "sget s m = Some (CHR '' '')" "sget s (Suc m) = Some (CHR ''f'')" "lit_at s (Suc (Suc m)) (dec_string r) = Some k"
    using assms(1) by (auto simp: chain split: if_splits)
  show ?thesis
    by (rule flatI [OF a(1,2), where y = "LWf (dnat_of r)"])
      (simp_all add: lflat_item_def lflat_wf_def reads_nat [OF a(3) e] final_def)
qed

lemma read_set:
  assumes "spell s m [KSet x] = Some k" and e: "sget s k = Some (CHR '' '')"
  shows "flat s m (KSet x) k"
proof -
  have a: "sget s m = Some (CHR '' '')" "sget s (Suc m) = Some (CHR ''s'')" "lit_at s (Suc (Suc m)) (dec_string x) = Some k"
    using assms(1) by (auto simp: chain split: if_splits)
  show ?thesis
    by (rule flatI [OF a(1,2), where y = "LSet (dnat_of x)"])
      (simp_all add: lflat_item_def lflat_set_def reads_nat [OF a(3) e] final_def)
qed

lemma read_static:
  assumes "spell s m [KStatic r b0 c0] = Some k" and e: "sget s k = Some (CHR '' '')"
  shows "flat s m (KStatic r b0 c0) k"
proof -
  obtain i j where a: "sget s m = Some (CHR '' '')" "sget s (Suc m) = Some (CHR ''g'')"
    "lit_at s (Suc (Suc m)) (dec_string r) = Some i" "sget s i = Some (CHR '','')"
    "lit_at s (Suc i) (z_text b0) = Some j" "sget s j = Some (CHR '','')" "lit_at s (Suc j) (z_text c0) = Some k"
    using assms(1) by (auto simp: chain split: if_splits)
  show ?thesis
    by (rule flatI [OF a(1,2), where y = "LStatic (dnat_of r) (z_of_int b0) (z_of_int c0)"])
      (simp_all add: lflat_item_def lflat_static_def reads_nat [OF a(3,4)] after_sep [OF a(4)] reads_z [OF a(5,6)]
        after_sep [OF a(6)] reads_z [OF a(7) e] final_def)
qed

lemma read_setr:
  assumes "spell s m [KSetR x lo hi] = Some k" and e: "sget s k = Some (CHR '' '')"
  shows "flat s m (KSetR x lo hi) k"
proof -
  obtain i j where a: "sget s m = Some (CHR '' '')" "sget s (Suc m) = Some (CHR ''r'')"
    "lit_at s (Suc (Suc m)) (dec_string x) = Some i" "sget s i = Some (CHR '','')"
    "lit_at s (Suc i) (z_text lo) = Some j" "sget s j = Some (CHR '','')" "lit_at s (Suc j) (z_text hi) = Some k"
    using assms(1) by (auto simp: chain split: if_splits)
  show ?thesis
    by (rule flatI [OF a(1,2), where y = "LSetR (dnat_of x) (z_of_int lo) (z_of_int hi)"])
      (simp_all add: lflat_item_def lflat_setr_def reads_nat [OF a(3,4)] after_sep [OF a(4)] reads_z [OF a(5,6)]
        after_sep [OF a(6)] reads_z [OF a(7) e] final_def)
qed

lemma read_asn:
  assumes "spell s m [KAsn x l] = Some k"
  shows "flat s m (KAsn x l) k"
proof -
  obtain i j e where a: "sget s m = Some (CHR '' '')" "sget s (Suc m) = Some (CHR ''='')"
    "lit_at s (Suc (Suc m)) (dec_string x) = Some i" "sget s i = Some (CHR '' '')"
    "lit_at s (Suc i) (form_text l) = Some j" "sget s j = Some (CHR '' '')"
    "hole_at s (Suc j) HPf = Some e" "sget s e = Some (CHR '' '')" "hole_at s (Suc e) HPf = Some k"
    using assms(1) by (auto simp: chain split: if_splits)
  obtain p q where p: "pf_at s j = Some (p, e)" "pf_at s e = Some (q, k)"
    using reads_pf [OF a(6,7)] reads_pf [OF a(8,9)] by blast
  show ?thesis
    by (rule flatI [OF a(1,2), where y = "LAsn (dnat_of x) (lform l) p q"])
      (simp_all add: lflat_item_def lflat_asn_def reads_nat [OF a(3,4)] after_sep(3) [OF a(4)] reads_form [OF a(5,6)] p final_def)
qed

lemma read_alloc:
  assumes "spell s m [KAlloc h r sz] = Some k"
  shows "flat s m (KAlloc h r sz) k"
proof -
  obtain i j l e where a: "sget s m = Some (CHR '' '')" "sget s (Suc m) = Some (CHR ''a'')"
    "lit_at s (Suc (Suc m)) (dec_string h) = Some i" "sget s i = Some (CHR '','')"
    "lit_at s (Suc i) (dec_string r) = Some j" "sget s j = Some (CHR '' '')"
    "lit_at s (Suc j) (form_text sz) = Some l" "sget s l = Some (CHR '' '')"
    "hole_at s (Suc l) HPf = Some e" "sget s e = Some (CHR '' '')" "hole_at s (Suc e) HPf = Some k"
    using assms(1) by (auto simp: chain split: if_splits)
  obtain p q where p: "pf_at s l = Some (p, e)" "pf_at s e = Some (q, k)"
    using reads_pf [OF a(8,9)] reads_pf [OF a(10,11)] by blast
  show ?thesis
    by (rule flatI [OF a(1,2), where y = "LAlloc (dnat_of h) (dnat_of r) (lform sz) p q"])
      (simp_all add: lflat_item_def lflat_alloc_def reads_nat [OF a(3,4)] after_sep(1) [OF a(4)] reads_nat [OF a(5,6)]
        after_sep(3) [OF a(6)] reads_form [OF a(7,8)] p final_def)
qed

lemma read_acc:
  assumes "spell s m [KAcc store w off addr site] = Some k"
  shows "flat s m (KAcc store w off addr site) k"
proof -
  define c where "c = (if store then CHR ''W'' else CHR ''A'')"
  obtain h i j l e f where a: "sget s m = Some (CHR '' '')" "sget s (Suc m) = Some c"
    "hole_at s (Suc (Suc m)) HReg = Some h" "sget s h = Some (CHR '','')"
    "lit_at s (Suc h) (dec_string w) = Some i" "sget s i = Some (CHR '','')"
    "lit_at s (Suc i) (dec_string off) = Some j" "sget s j = Some (CHR '' '')"
    "lit_at s (Suc j) (form_text addr) = Some l" "sget s l = Some (CHR '' '')"
    "hole_at s (Suc l) HPf = Some e" "sget s e = Some (CHR '' '')"
    "hole_at s (Suc e) HPf = Some f" "sget s f = Some (CHR '' '')" "hole_at s (Suc f) HPf = Some k"
    using assms(1) by (auto simp: chain c_def split: if_splits)
  obtain p q o1 where p: "pf_at s l = Some (p, e)" "pf_at s e = Some (q, f)" "pf_at s f = Some (o1, k)"
    using reads_pf [OF a(10,11)] reads_pf [OF a(12,13)] reads_pf [OF a(14,15)] by blast
  obtain r where r: "nat_at s (Suc (Suc m)) = Some (r, h)" using reg_hole [OF a(3)] by blast
  let ?y = "(if store then LSto else LAcc) r (z_of_int (int w)) (z_of_int (int off)) (lform addr) p q o1"
  have "lflat_acc c s (Suc (Suc m)) = Some (?y, k)"
    by (simp add: lflat_acc_def r after_sep(2) [OF a(4)] reads_z_nat [OF a(5,6)] after_sep(2) [OF a(6)]
        reads_z_nat [OF a(7,8)] after_sep(3) [OF a(8)] reads_form [OF a(9,10)] pf3_def p c_def)
  then show ?thesis
    by (intro flatI [OF a(1,2), where y = ?y]) (simp_all add: c_def lflat_item_def final_def)
qed

lemma read_brk:
  assumes "spell s m [KBrk] = Some k"
  shows "flat s m KBrk k"
proof -
  have a: "sget s m = Some (CHR '' '')" "sget s (Suc m) = Some (CHR ''k'')" "k = Suc (Suc m)"
    using assms by (auto simp: chain split: if_splits)
  show ?thesis by (rule flatI [OF a(1,2), where y = LBrk]) (simp_all add: a(3) lflat_item_def final_def)
qed

lemma read_trap:
  assumes "spell s m [KTrap] = Some k"
  shows "flat s m KTrap k"
proof -
  have a: "sget s m = Some (CHR '' '')" "sget s (Suc m) = Some (CHR ''x'')" "k = Suc (Suc m)"
    using assms by (auto simp: chain split: if_splits)
  show ?thesis by (rule flatI [OF a(1,2), where y = LTrap]) (simp_all add: a(3) lflat_item_def final_def)
qed

text \<open>A list of hints between a blank and a closing mark.\<close>

lemma blank_many: "sget s k = Some (CHR '' '') \<Longrightarrow>
    many pf_at s k [] = many pf_at s (Suc k) [] \<and> many lin_at s k [] = many lin_at s (Suc k) [] \<and>
    many map_at s k [] = many map_at s (Suc k) []"
  by (simp add: measured_pfs.many_blank [of s k] measured_lins.many_blank [of s k] measured_maps.many_blank [of s k])

lemma reads_pfs:
  assumes "sget s k = Some (CHR '' '')" and "hole_at s (Suc k) HPfs = Some j" and "closes s j"
  shows "\<exists>ps. many pf_at s k [] = Some (ps, Suc j)"
  using pfs_hole [OF assms(2,3)] blank_many [OF assms(1)] by simp

lemma reads_facts:
  assumes "sget s k = Some (CHR '' '')" and "hole_at s (Suc k) HFacts = Some j" and "closes s j"
  shows "\<exists>ls. many lin_at s k [] = Some (ls, Suc j)"
  using facts_hole [OF assms(2,3)] blank_many [OF assms(1)] by simp

lemma reads_maps:
  assumes "sget s k = Some (CHR '' '')" and "hole_at s (Suc k) HMaps = Some j" and "closes s j"
  shows "\<exists>ms. many map_at s k [] = Some (ms, Suc j)"
  using maps_hole [OF assms(2,3)] blank_many [OF assms(1)] by simp

lemma tok_marks [simp]:
  "sget s k = Some (CHR ''|'') \<Longrightarrow> tok s k (CHR ''|'') = Some (Suc k)"
  "sget s k = Some (CHR ''}'') \<Longrightarrow> tok s k (CHR ''}'') = Some (Suc k)"
  "sget s k = Some (CHR ''{'') \<Longrightarrow> tok s k (CHR ''{'') = Some (Suc k)"
  "sget s k = Some (CHR '':'') \<Longrightarrow> tok s k (CHR '':'') = Some (Suc k)"
  by (simp_all add: tok_at is_sep_def is_space_def)

text \<open>The braces of \<open>c\<close> and \<open>R\<close>.\<close>

lemma read_braces:
  assumes "sget s i = Some (CHR ''{'')" and "sget s (Suc i) = Some (CHR '' '')" and "hole_at s (Suc (Suc i)) HPfs = Some j"
    and "sget s j = Some (CHR '' '')" and "sget s (Suc j) = Some (CHR ''}'')"
  shows "\<exists>ps. lflat_pfs c s i = Some (if c = CHR ''c'' then LCont ps else LRet ps, Suc (Suc j))"
proof -
  obtain ps where "many pf_at s (Suc i) [] = Some (ps, Suc j)"
    using reads_pfs [OF assms(2,3)] closesI(2) [OF assms(4,5)] by blast
  then show ?thesis using assms by (simp add: lflat_pfs_def)
qed

lemma read_cont:
  assumes "spell s m [KCont] = Some k"
  shows "flat s m KCont k"
proof -
  obtain i where a: "sget s m = Some (CHR '' '')" "sget s (Suc m) = Some (CHR ''c'')" "sget s (Suc (Suc m)) = Some (CHR ''{'')"
    "sget s (Suc (Suc (Suc m))) = Some (CHR '' '')" "hole_at s (Suc (Suc (Suc (Suc m)))) HPfs = Some i"
    "sget s i = Some (CHR '' '')" "sget s (Suc i) = Some (CHR ''}'')" "k = Suc (Suc i)"
    using assms by (auto simp: chain split: if_splits)
  obtain ps where "lflat_pfs (CHR ''c'') s (Suc (Suc m)) = Some (LCont ps, k)"
    using read_braces [OF a(3-7), of "CHR ''c''"] a(8) by auto
  then show ?thesis by (intro flatI [OF a(1,2), where y = "LCont ps"]) (simp_all add: lflat_item_def final_def)
qed

lemma read_ret:
  assumes "spell s m [KRet] = Some k"
  shows "flat s m KRet k"
proof -
  obtain i where a: "sget s m = Some (CHR '' '')" "sget s (Suc m) = Some (CHR ''R'')" "sget s (Suc (Suc m)) = Some (CHR ''{'')"
    "sget s (Suc (Suc (Suc m))) = Some (CHR '' '')" "hole_at s (Suc (Suc (Suc (Suc m)))) HPfs = Some i"
    "sget s i = Some (CHR '' '')" "sget s (Suc i) = Some (CHR ''}'')" "k = Suc (Suc i)"
    using assms by (auto simp: chain split: if_splits)
  obtain ps where "lflat_pfs (CHR ''R'') s (Suc (Suc m)) = Some (LRet ps, k)"
    using read_braces [OF a(3-7), of "CHR ''R''"] a(8) by auto
  then show ?thesis by (intro flatI [OF a(1,2), where y = "LRet ps"]) (simp_all add: lflat_item_def final_def)
qed

subsection \<open>Calls\<close>

lemma after_blank: "sget s k = Some (CHR '' '') \<Longrightarrow> tok s k c = tok s (Suc k) c"
  using past_sep(7) [of s k "CHR '' ''" c] by simp

text \<open>What stands after an argument is not the mark of its proofs.\<close>

definition unmarked :: "bytes \<Rightarrow> nat \<Rightarrow> bool" where
  "unmarked s k \<longleftrightarrow> sget s k = Some (CHR '' '') \<and> (\<exists>c. sget s (Suc k) = Some c \<and> (is_digit c \<or> c = CHR ''|''))"

lemma unmarked_tok: "unmarked s k \<Longrightarrow> tok s k (CHR ''!'') = None"
proof -
  assume u: "unmarked s k"
  then obtain c where c: "sget s k = Some (CHR '' '')" "sget s (Suc k) = Some c" "is_digit c \<or> c = CHR ''|''"
    by (auto simp: unmarked_def)
  then have "\<not> is_sep c" using digit_not_sep by (auto simp: is_sep_def is_space_def)
  then have "sk s (Suc k) = Suc k" using c by (simp add: sk_at)
  then show ?thesis using c after_blank [OF c(1)] by (auto simp: tok_def is_digit_def)
qed

lemma argpf_blank:
  assumes "hole_at s e HArgPf = Some k" and "unmarked s k"
  shows "sget s e = Some (CHR '' '')"
proof (cases "at_lit s e '' ! ''")
  case False
  then have "k = e"
    using assms(1) by (simp add: hole_at_def hole_len_def argpf_len_def at_lit_def numeral_3_eq_3)
  then show ?thesis using assms(2) by (simp add: unmarked_def)
qed simp

lemma read_argpf:
  assumes "hole_at s e HArgPf = Some k" and "unmarked s k" and l: "lin_at s b = Some (l, e)"
    and n: "nat_at s i = Some (p, a)" and c: "tok s a (CHR '':'') = Some b"
  shows "\<exists>pp. arg_at s i = Some ((p, l, pp), k)"
proof (cases "at_lit s e '' ! ''")
  case True
  then have p: "take 3 (drop e s) = '' ! ''" by (simp add: at_lit_def eval_nat_numeral)
  obtain u where t: "hole_at s (Suc (Suc (Suc e))) HPf = Some u" "sget s u = Some (CHR '' '')" "hole_at s (Suc u) HPf = Some k"
    using assms(1) p
    by (auto simp: hole_at_def hole_len_def argpf_len_def numeral_3_eq_3 add.commute add.left_commute
        split: option.splits if_splits)
  have b: "sget s e = Some (CHR '' '')" "sget s (Suc e) = Some (CHR ''!'')" "sget s (Suc (Suc e)) = Some (CHR '' '')"
    using True by auto
  obtain x y where "pf_at s (Suc (Suc e)) = Some (x, u)" "pf_at s u = Some (y, k)"
    using reads_pf [OF b(3) t(1)] reads_pf [OF t(2,3)] by blast
  moreover have "tok s e (CHR ''!'') = Some (Suc (Suc e))"
    using tok_at [OF b(2)] after_blank [OF b(1)] by (simp add: is_sep_def is_space_def)
  ultimately show ?thesis using n c l by (simp add: arg_at_def pf2_at_def)
next
  case False
  then have "k = e"
    using assms(1) by (simp add: hole_at_def hole_len_def argpf_len_def at_lit_def numeral_3_eq_3)
  then show ?thesis using n c l unmarked_tok [OF assms(2)] by (simp add: arg_at_def)
qed

lemma dec_start: "lit_at s k (dec_string n) = Some j \<Longrightarrow> \<exists>c. sget s k = Some c \<and> is_digit c"
  using dec_string_Cons [of n] by (auto split: if_splits)

text \<open>An argument as the template has it.\<close>

lemma spell_args_Cons:
  "spell_args s m ((p, l) # args) = Some k \<longleftrightarrow>
     (\<exists>i e j. sget s m = Some (CHR '' '') \<and> lit_at s (Suc m) (dec_string p) = Some i \<and> sget s i = Some (CHR '':'') \<and>
       lit_at s (Suc i) (form_text l) = Some e \<and> hole_at s e HArgPf = Some j \<and> spell_args s j args = Some k)"
  by (auto simp: spell_args_simps(2) meets_args bind_eq_Some_conv split: if_splits)

lemma args_start: "spell_args s m args = Some k \<Longrightarrow> unmarked s k \<Longrightarrow> unmarked s m"
proof (cases args)
  case (Cons a as)
  obtain p l where a: "a = (p, l)" by (cases a)
  assume "spell_args s m args = Some k"
  then obtain i where "sget s m = Some (CHR '' '')" "lit_at s (Suc m) (dec_string p) = Some i"
    by (auto simp: Cons a spell_args_Cons)
  then show ?thesis using dec_start [of s "Suc m" p] by (auto simp: unmarked_def)
qed (simp add: spell_args_simps)

lemma arg_at_skips: "arg_at s (sk s i) = arg_at s i"
  by (simp add: arg_at_def nat_at_skips)

lemma arg_once:
  assumes "sget s m = Some (CHR '' '')" and "sget s (Suc m) = Some c" and "is_digit c" and "arg_at s (Suc m) = Some (x, k)"
  shows "many arg_at s m out = many arg_at s k (out @ [x])"
proof -
  have "many arg_at s m out = many arg_at s (Suc m) out"
    using past_sep(1,8) [OF assms(1)] arg_at_skips [of s m] arg_at_skips [of s "Suc m"]
    by (subst (1 2) many.simps) simp
  also have "\<dots> = many arg_at s k (out @ [x])"
    using stop_not_digit [OF assms(3)] digit_not_sep [OF assms(3)]
    by (intro many_once [where item = arg_at, OF assms(4,2)]) auto
  finally show ?thesis .
qed

lemma read_args:
  assumes "spell_args s m args = Some k" and "sget s k = Some (CHR '' '')" and "sget s (Suc k) = Some (CHR ''|'')"
  shows "\<exists>as. many arg_at s m out = Some (out @ as, Suc k) \<and>
    map bare_arg as = map want_arg args"
  using assms(1)
proof (induction args arbitrary: m out)
  case Nil
  then have "m = k" by (simp add: spell_args_simps)
  then show ?case
    using closes_stop [of s k] assms(2,3) by (subst many.simps) (simp add: closes_def)
next
  case (Cons a args)
  obtain p l where a: "a = (p, l)" by (cases a)
  obtain i e j where b: "sget s m = Some (CHR '' '')" "lit_at s (Suc m) (dec_string p) = Some i" "sget s i = Some (CHR '':'')"
    "lit_at s (Suc i) (form_text l) = Some e" "hole_at s e HArgPf = Some j" "spell_args s j args = Some k"
    using Cons.prems by (auto simp: a spell_args_Cons)
  have u: "unmarked s j" using args_start [OF b(6)] assms(2,3) by (simp add: unmarked_def)
  have "lin_at s (Suc i) = Some (lform l, e)" using reads_form [OF b(4) argpf_blank [OF b(5) u]] by simp
  moreover have "nat_at s (Suc m) = Some (dnat_of p, i)" using reads_nat [OF b(2,3)] by simp
  ultimately obtain pp where x: "arg_at s (Suc m) = Some ((dnat_of p, lform l, pp), j)"
    using read_argpf [OF b(5) u] b(3) by force
  obtain c where c: "sget s (Suc m) = Some c" "is_digit c" using dec_start [OF b(2)] by blast
  obtain as where as: "many arg_at s j (out @ [(dnat_of p, lform l, pp)]) = Some ((out @ [(dnat_of p, lform l, pp)]) @ as, Suc k)"
    "map bare_arg as = map want_arg args"
    using Cons.IH [OF b(6), of "out @ [(dnat_of p, lform l, pp)]"] by blast
  show ?case
    by (rule exI [of _ "(dnat_of p, lform l, pp) # as"]) (use arg_once [OF b(1) c x] as in \<open>simp add: a arg_eqs\<close>)
qed

lemma read_call:
  assumes "spell s m [KCall f args res] = Some k"
  shows "flat s m (KCall f args res) k"
proof -
  obtain i j n q r t where a: "sget s m = Some (CHR '' '')" "sget s (Suc m) = Some (CHR ''C'')"
    "lit_at s (Suc (Suc m)) (dec_string f) = Some i" "sget s i = Some (CHR ''{'')" "spell_args s (Suc i) args = Some j"
    and b: "sget s j = Some (CHR '' '')" "sget s (Suc j) = Some (CHR ''|'')" "sget s (Suc (Suc j)) = Some (CHR '' '')"
    "hole_at s (Suc (Suc (Suc j))) HMaps = Some n"
    and c: "sget s n = Some (CHR '' '')" "sget s (Suc n) = Some (CHR ''|'')" "sget s (Suc (Suc n)) = Some (CHR '' '')"
    "hole_at s (Suc (Suc (Suc n))) HMaps = Some q"
    and d: "sget s q = Some (CHR '' '')" "sget s (Suc q) = Some (CHR ''|'')" "sget s (Suc (Suc q)) = Some (CHR '' '')"
    "lit_at s (Suc (Suc (Suc q))) (dec_string res) = Some r"
    and e: "sget s r = Some (CHR '' '')" "sget s (Suc r) = Some (CHR ''|'')" "sget s (Suc (Suc r)) = Some (CHR '' '')"
    "hole_at s (Suc (Suc (Suc r))) HPfs = Some t"
    and z: "sget s t = Some (CHR '' '')" "sget s (Suc t) = Some (CHR ''}'')" "k = Suc (Suc t)"
    using assms by (clarsimp simp: chain split: if_splits)
  obtain as where as: "many arg_at s (Suc i) [] = Some (as, Suc j)"
    "map bare_arg as = map want_arg args"
    using read_args [OF a(5) b(1,2), of "[]"] by auto
  obtain reps where reps: "many map_at s (Suc (Suc j)) [] = Some (reps, Suc n)"
    using reads_maps [OF b(3,4)] closesI(1) [OF c(1,2)] by blast
  obtain outs where outs: "many map_at s (Suc (Suc n)) [] = Some (outs, Suc q)"
    using reads_maps [OF c(3,4)] closesI(1) [OF d(1,2)] by blast
  obtain ps where ps: "many pf_at s (Suc (Suc r)) [] = Some (ps, Suc t)"
    using reads_pfs [OF e(3,4)] closesI(2) [OF z(1,2)] by blast
  have bar: "tok s r (CHR ''|'') = Some (Suc (Suc r))" using after_blank [OF e(1)] e(2) by simp
  have "lflat_call s (Suc (Suc m)) = Some (LCall (dnat_of f) as reps outs (dnat_of res) ps, k)"
    by (simp add: lflat_call_def reads_nat [OF a(3,4)] a(4) as(1) b(2) reps c(2) outs d(2) after_sep(1) [OF d(3)]
        reads_nat [OF d(4) e(1)] bar ps z)
  then show ?thesis
    by (intro flatI [OF a(1,2), where y = "LCall (dnat_of f) as reps outs (dnat_of res) ps"])
      (simp_all add: lflat_item_def as(2) final_def)
qed

text \<open>Every item without arms.\<close>

lemma read_flat:
  assumes "spell s m [x] = Some k" and "arms x = []" and "sget s k = Some (CHR '' '')"
  shows "flat s m x k"
  using assms read_acc read_handle read_len read_alloc read_wf read_static read_set read_setr read_asn read_cont read_brk
    read_trap read_call read_ret
  by (cases x) auto

end
