(* ===== verification/Template_Body.thy ===== *)
theory Template_Body
  imports Template_Items
begin

text \<open>
  The reading of a whole body, by induction over its items, and of a procedure.
\<close>

subsection \<open>The parser, item by item\<close>

lemma lprog_close: "closes s k \<Longrightarrow> lprog_at s k acc = Some (acc, Suc k)"
  by (subst lprog_at.simps) (simp add: closes_stop)

lemma letter_at:
  assumes "sget s m = Some (CHR '' '')" and "sget s (Suc m) = Some c" and "c \<notin> set ''|}]), ''" and "\<not> is_space c"
  shows "sk s m = Suc m" "\<not> at_stop s m" "sget s (sk s m) = Some c"
proof -
  have "sk s (Suc m) = Suc m" using assms(2-4) by (simp add: sk_at is_sep_def)
  then show k: "sk s m = Suc m" using past_sep(1) [OF assms(1)] by simp
  show "\<not> at_stop s m" "sget s (sk s m) = Some c" using assms(2,3) k by (auto simp: at_stop_def)
qed

lemma lprog_flat:
  assumes "flat s m x k"
  shows "\<exists>y. emptied [y] = expected [x] \<and>
    (\<forall>acc. lprog_at s m acc =
      (if final x then (if at_stop s k then Some (acc @ [y], sk s k) else None) else lprog_at s k (acc @ [y])))"
proof -
  obtain c y where a: "sget s m = Some (CHR '' '')" "sget s (Suc m) = Some c" "c \<notin> set ''TBL|}]), ''" "\<not> is_space c"
    "lflat_item c s (Suc (Suc m)) = Some (y, k)" and y: "emptied [y] = expected [x]" "terminal y \<longleftrightarrow> final x"
    using assms by (auto simp: flat_def)
  have "sk s m = Suc m" "\<not> at_stop s m" "s ! Suc m = c"
    using letter_at [OF a(1,2) _ a(4)] a(2,3) by (auto simp: sget_Some)
  then have "lprog_at s m acc =
      (if final x then (if at_stop s k then Some (acc @ [y], sk s k) else None) else lprog_at s k (acc @ [y]))" for acc
    using a(2,3,5) y(2) by (subst lprog_at.simps) simp
  with y(1) show ?thesis by blast
qed

lemma lprog_branch:
  assumes "sget s m = Some (CHR '' '')" and "sget s (Suc m) = Some (CHR ''B'')" and "sget s (Suc (Suc m)) = Some (CHR ''{'')"
    and "lprog_at s (Suc (Suc (Suc m))) [] = Some (thn, l)" and "sget s l = Some (CHR ''|'')"
    and "lprog_at s (Suc l) [] = Some (els, e)" and "sget s e = Some (CHR ''}'')"
  shows "lprog_at s m acc = lprog_at s (Suc e) (acc @ [LBranch thn els])"
  using letter_at [OF assms(1,2)] assms by (subst lprog_at.simps) (simp add: is_space_def)

lemma lprog_test:
  assumes "sget s m = Some (CHR '' '')" and "sget s (Suc m) = Some (CHR ''T'')"
    and "test_head s (Suc (Suc m)) = Some ((g, a, b, pa, pb, nn), k)"
    and "lprog_at s k [] = Some (thn, l)" and "sget s l = Some (CHR ''|'')"
    and "lprog_at s (Suc l) [] = Some (els, e)" and "sget s e = Some (CHR ''}'')"
  shows "lprog_at s m acc = lprog_at s (Suc e) (acc @ [LTest a b g pa pb nn thn els])"
  using letter_at [OF assms(1,2)] assms by (subst lprog_at.simps) (simp add: is_space_def)

lemma lprog_loop:
  assumes "sget s m = Some (CHR '' '')" and "sget s (Suc m) = Some (CHR ''L'')"
    and "loop_head s (Suc (Suc m)) = Some ((iv, pin), k)"
    and "lprog_at s k [] = Some (body, e)" and "sget s e = Some (CHR ''}'')"
  shows "lprog_at s m acc = lprog_at s (Suc e) (acc @ [LLoop iv pin body])"
  using letter_at [OF assms(1,2)] assms by (subst lprog_at.simps) (simp add: is_space_def)

subsection \<open>The items with arms, as the template has them\<close>

definition arm_at :: "bytes \<Rightarrow> nat \<Rightarrow> byte \<Rightarrow> nat option" where
  "arm_at s k c = lit_at s k [CHR '' '', c]"

lemma arm_at_Some:
  assumes "arm_at s k c = Some j" and "c \<in> set ''|}''"
  shows "closes s k" "sget s (Suc k) = Some c" "j = Suc (Suc k)"
  using assms by (auto simp: arm_at_def closes_def split: if_splits)

definition test_to :: "bytes \<Rightarrow> nat \<Rightarrow> bool \<Rightarrow> form \<Rightarrow> form \<Rightarrow> nat option" where
  "test_to s m sg a b = meets s m (tlit '' {'' (spaced_holes HPf 6
     (tlit ('' T'' @ (if sg then ''+'' else ''u'') @ CHR '' '' # form_text a @ CHR '' '' # form_text b @ '' '') [])))"

definition loop_to :: "bytes \<Rightarrow> nat \<Rightarrow> nat option" where
  "loop_to s m = meets s m (tlit '' |'' (thole HPfs (tlit '' | '' (thole HFacts (tlit '' L{ '' [])))))"

lemma spelled_arms:
  "spell s m [KTest a b sg thn els] =
     Option.bind (test_to s m sg a b) (\<lambda>u. Option.bind (spell s u thn) (\<lambda>l. Option.bind (arm_at s l (CHR ''|''))
       (\<lambda>v. Option.bind (spell s v els) (\<lambda>e. arm_at s e (CHR ''}'')))))"
  "spell s m [KBranch thn els] =
     Option.bind (lit_at s m '' B{'') (\<lambda>u. Option.bind (spell s u thn) (\<lambda>l. Option.bind (arm_at s l (CHR ''|''))
       (\<lambda>v. Option.bind (spell s v els) (\<lambda>e. arm_at s e (CHR ''}'')))))"
  "spell s m [KLoop body] =
     Option.bind (loop_to s m) (\<lambda>v. Option.bind (spell s v body) (\<lambda>e. arm_at s e (CHR ''}'')))"
  by (simp_all add: one_item test_to_def loop_to_def arm_at_def)

lemma loop_to_reads:
  assumes "loop_to s m = Some v"
  shows "sget s m = Some (CHR '' '')" "sget s (Suc m) = Some (CHR ''L'')" "\<exists>iv pin. loop_head s (Suc (Suc m)) = Some ((iv, pin), v)"
proof -
  obtain i j where a: "sget s m = Some (CHR '' '')" "sget s (Suc m) = Some (CHR ''L'')" "sget s (Suc (Suc m)) = Some (CHR ''{'')"
    "sget s (Suc (Suc (Suc m))) = Some (CHR '' '')" "hole_at s (Suc (Suc (Suc (Suc m)))) HFacts = Some i"
    and b: "sget s i = Some (CHR '' '')" "sget s (Suc i) = Some (CHR ''|'')" "sget s (Suc (Suc i)) = Some (CHR '' '')"
    "hole_at s (Suc (Suc (Suc i))) HPfs = Some j"
    and c: "sget s j = Some (CHR '' '')" "sget s (Suc j) = Some (CHR ''|'')" "v = Suc (Suc j)"
    using assms by (clarsimp simp: loop_to_def bind_eq_Some_conv split: if_splits)
  show "sget s m = Some (CHR '' '')" "sget s (Suc m) = Some (CHR ''L'')" by (fact a)+
  obtain iv where iv: "many lin_at s (Suc (Suc (Suc m))) [] = Some (iv, Suc i)"
    using reads_facts [OF a(4,5)] closesI(1) [OF b(1,2)] by blast
  obtain pin where pin: "many pf_at s (Suc (Suc i)) [] = Some (pin, Suc j)"
    using reads_pfs [OF b(3,4)] closesI(1) [OF c(1,2)] by blast
  show "\<exists>iv pin. loop_head s (Suc (Suc m)) = Some ((iv, pin), v)"
    by (simp add: loop_head_def a(3) iv b(2) pin c)
qed

lemma spaced_six:
  "meets s m (spaced_holes HPf 6 out) = Some k \<Longrightarrow> sget s k = Some (CHR '' '') \<Longrightarrow>
     \<exists>i a b c d e. meets s m out = Some i \<and> hole_at s i HPf = Some a \<and> sget s a = Some (CHR '' '') \<and> hole_at s (Suc a) HPf = Some b \<and>
       sget s b = Some (CHR '' '') \<and> hole_at s (Suc b) HPf = Some c \<and> sget s c = Some (CHR '' '') \<and> hole_at s (Suc c) HPf = Some d \<and>
       sget s d = Some (CHR '' '') \<and> hole_at s (Suc d) HPf = Some e \<and> sget s e = Some (CHR '' '') \<and> hole_at s (Suc e) HPf = Some k"
  by (clarsimp simp: eval_nat_numeral bind_eq_Some_conv split: if_splits)

lemma test_to_reads:
  assumes "test_to s m sg a b = Some v"
  shows "sget s m = Some (CHR '' '')" "sget s (Suc m) = Some (CHR ''T'')"
    "\<exists>pa pb nn. test_head s (Suc (Suc m)) = Some ((sg, lform a, lform b, pa, pb, nn), v)"
proof -
  let ?l = "'' T'' @ (if sg then ''+'' else ''u'') @ CHR '' '' # form_text a @ CHR '' '' # form_text b @ '' ''"
  obtain k where k: "meets s m (spaced_holes HPf 6 (tlit ?l [])) = Some k" "sget s k = Some (CHR '' '')"
    "sget s (Suc k) = Some (CHR ''{'')" "v = Suc (Suc k)"
    using assms by (auto simp: test_to_def bind_eq_Some_conv split: if_splits)
  obtain i p q r t u where h: "lit_at s m ?l = Some i" "hole_at s i HPf = Some p" "sget s p = Some (CHR '' '')"
    "hole_at s (Suc p) HPf = Some q" "sget s q = Some (CHR '' '')" "hole_at s (Suc q) HPf = Some r" "sget s r = Some (CHR '' '')"
    "hole_at s (Suc r) HPf = Some t" "sget s t = Some (CHR '' '')" "hole_at s (Suc t) HPf = Some u" "sget s u = Some (CHR '' '')"
    "hole_at s (Suc u) HPf = Some k"
    using spaced_six [OF k(1,2)] by (auto simp del: append.simps)
  let ?c = "if sg then CHR ''+'' else CHR ''u''"
  obtain x y where g: "sget s m = Some (CHR '' '')" "sget s (Suc m) = Some (CHR ''T'')" "sget s (Suc (Suc m)) = Some ?c"
    "sget s (Suc (Suc (Suc m))) = Some (CHR '' '')" "lit_at s (Suc (Suc (Suc (Suc m)))) (form_text a) = Some x"
    "sget s x = Some (CHR '' '')" "lit_at s (Suc x) (form_text b) = Some y" "sget s y = Some (CHR '' '')" "i = Suc y"
    using h(1) by (cases sg) (clarsimp simp: bind_eq_Some_conv split: if_splits)+
  show "sget s m = Some (CHR '' '')" "sget s (Suc m) = Some (CHR ''T'')" by (fact g)+
  obtain f1 f2 f3 f4 f5 f6 where f: "pf_at s y = Some (f1, p)" "pf_at s p = Some (f2, q)" "pf_at s q = Some (f3, r)"
    "pf_at s r = Some (f4, t)" "pf_at s t = Some (f5, u)" "pf_at s u = Some (f6, k)"
    using reads_pf [OF g(8)] reads_pf [OF h(3,4)] reads_pf [OF h(5,6)] reads_pf [OF h(7,8)] reads_pf [OF h(9,10)]
      reads_pf [OF h(11,12)] h(2) g(9) by blast
  have "sk s (Suc (Suc m)) = Suc (Suc m)" using g(3) by (simp add: sk_at is_sep_def is_space_def split: if_splits)
  moreover have "tok s k (CHR ''{'') = Some v" using after_blank [OF k(2)] k(3,4) by simp
  ultimately show "\<exists>pa pb nn. test_head s (Suc (Suc m)) = Some ((sg, lform a, lform b, pa, pb, nn), v)"
    using g(3) by (simp add: test_head_def Let_def after_sep(3) [OF g(4)] reads_form [OF g(5,6)] after_sep(3) [OF g(6)]
        reads_form [OF g(7,8)] pf2_at_def f)
qed

subsection \<open>Bodies\<close>

definition reads_as :: "bytes \<Rightarrow> nat \<Rightarrow> it list \<Rightarrow> nat \<Rightarrow> bool" where
  "reads_as s m its j \<longleftrightarrow>
     sget s m = Some (CHR '' '') \<and> (\<exists>ls. emptied ls = expected its \<and> (\<forall>acc. lprog_at s m acc = Some (acc @ ls, Suc j)))"

text \<open>One item before the rest.\<close>

lemma reads_as_Cons:
  assumes "sget s m = Some (CHR '' '')" and "emptied [y] = expected [x]" and "\<And>acc. lprog_at s m acc = lprog_at s k (acc @ [y])"
    and "reads_as s k its j"
  shows "reads_as s m (x # its) j"
proof -
  obtain ls where ls: "emptied ls = expected its" "\<And>acc. lprog_at s k acc = Some (acc @ ls, Suc j)"
    using assms(4) by (auto simp: reads_as_def)
  have "emptied (y # ls) = expected (x # its)"
    using emptied_Cons [of y ls] expected_Cons [of x its] assms(2) ls(1) by simp
  moreover have "lprog_at s m acc = Some (acc @ (y # ls), Suc j)" for acc
    using assms(3) [of acc] ls(2) [of "acc @ [y]"] by simp
  ultimately show ?thesis using assms(1) by (auto simp: reads_as_def)
qed

lemma reads_as_arm: "reads_as s m its j \<Longrightarrow> \<exists>ls. lprog_at s m [] = Some (ls, Suc j) \<and> emptied ls = expected its"
  by (auto simp: reads_as_def)

lemma reads_as_flat:
  assumes sp: "spell s m [x] = Some k" and "arms x = []" and rest: "reads_as s k its j"
    and final: "final x \<Longrightarrow> its = [] \<and> k = j" and j: "closes s j"
  shows "reads_as s m (x # its) j"
proof -
  have f: "flat s m x k" using read_flat [OF sp assms(2)] rest by (simp add: reads_as_def)
  have m: "sget s m = Some (CHR '' '')" using f by (auto simp: flat_def)
  obtain y where y: "emptied [y] = expected [x]" "\<And>acc. lprog_at s m acc =
      (if final x then (if at_stop s k then Some (acc @ [y], sk s k) else None) else lprog_at s k (acc @ [y]))"
    using lprog_flat [OF f] by blast
  show ?thesis
  proof (cases "final x")
    case True
    then have "lprog_at s m acc = lprog_at s k (acc @ [y])" for acc
      using y(2) final closes_stop [OF j] lprog_close [OF j] by simp
    then show ?thesis by (rule reads_as_Cons [OF m y(1) _ rest])
  next
    case False
    then show ?thesis using y(2) by (intro reads_as_Cons [OF m y(1) _ rest]) simp
  qed
qed

lemma reads_as_item:
  assumes sp: "spell s m [x] = Some k" and rest: "reads_as s k its j"
    and final: "final x \<Longrightarrow> its = [] \<and> k = j" and j: "closes s j"
    and arm: "\<And>b u l. b \<in> set (arms x) \<Longrightarrow> spell s u b = Some l \<Longrightarrow> closes s l \<Longrightarrow> reads_as s u b l"
  shows "reads_as s m (x # its) j"
proof (cases x)
  case (KTest a b sg thn els)
  obtain u l v e where t: "test_to s m sg a b = Some u" and "spell s u thn = Some l" and l: "arm_at s l (CHR ''|'') = Some v"
    and "spell s v els = Some e" and e: "arm_at s e (CHR ''}'') = Some k"
    using sp by (auto simp: KTest spelled_arms bind_eq_Some_conv)
  then obtain lt le where arms: "lprog_at s u [] = Some (lt, Suc l)" "emptied lt = expected thn"
    "lprog_at s v [] = Some (le, Suc e)" "emptied le = expected els"
    using arm [of thn u l] arm [of els v e] arm_at_Some [OF l] arm_at_Some [OF e] reads_as_arm
    by (simp add: KTest) blast
  obtain pa pb nn where "test_head s (Suc (Suc m)) = Some ((sg, lform a, lform b, pa, pb, nn), u)"
    using test_to_reads(3) [OF t] by blast
  then have "lprog_at s m acc = lprog_at s k (acc @ [LTest (lform a) (lform b) sg pa pb nn lt le])" for acc
    using lprog_test [OF test_to_reads(1,2) [OF t]] arms arm_at_Some(2,3) [OF l] arm_at_Some(2,3) [OF e] by simp
  moreover have "emptied [LTest (lform a) (lform b) sg pa pb nn lt le] = expected [x]"
    using arms by (simp add: KTest)
  ultimately show ?thesis by (intro reads_as_Cons [OF test_to_reads(1) [OF t] _ _ rest])
next
  case (KBranch thn els)
  obtain u l v e where t: "lit_at s m '' B{'' = Some u" and "spell s u thn = Some l" and l: "arm_at s l (CHR ''|'') = Some v"
    and "spell s v els = Some e" and e: "arm_at s e (CHR ''}'') = Some k"
    using sp by (auto simp: KBranch spelled_arms bind_eq_Some_conv simp del: lit_at_Cons)
  then obtain lt le where arms: "lprog_at s u [] = Some (lt, Suc l)" "emptied lt = expected thn"
    "lprog_at s v [] = Some (le, Suc e)" "emptied le = expected els"
    using arm [of thn u l] arm [of els v e] arm_at_Some [OF l] arm_at_Some [OF e] reads_as_arm
    by (simp add: KBranch del: lit_at_Cons) blast
  have h: "sget s m = Some (CHR '' '')" "sget s (Suc m) = Some (CHR ''B'')" "sget s (Suc (Suc m)) = Some (CHR ''{'')"
    "u = Suc (Suc (Suc m))"
    using t by (auto split: if_splits)
  then have "lprog_at s m acc = lprog_at s k (acc @ [LBranch lt le])" for acc
    using lprog_branch [OF h(1-3)] arms arm_at_Some(2,3) [OF l] arm_at_Some(2,3) [OF e] by simp
  then show ?thesis
    using arms by (intro reads_as_Cons [OF h(1) _ _ rest]) (auto simp: KBranch)
next
  case (KLoop body)
  obtain v e where t: "loop_to s m = Some v" and "spell s v body = Some e" and e: "arm_at s e (CHR ''}'') = Some k"
    using sp by (auto simp: KLoop spelled_arms bind_eq_Some_conv)
  then obtain lb where b: "lprog_at s v [] = Some (lb, Suc e)" "emptied lb = expected body"
    using arm [of body v e] arm_at_Some [OF e] reads_as_arm by (simp add: KLoop) blast
  obtain iv pin where "loop_head s (Suc (Suc m)) = Some ((iv, pin), v)"
    using loop_to_reads(3) [OF t] by blast
  then have "lprog_at s m acc = lprog_at s k (acc @ [LLoop iv pin lb])" for acc
    using lprog_loop [OF loop_to_reads(1,2) [OF t]] b arm_at_Some(2,3) [OF e] by simp
  moreover have "emptied [LLoop iv pin lb] = expected [x]" using b by (simp add: KLoop)
  ultimately show ?thesis by (intro reads_as_Cons [OF loop_to_reads(1) [OF t] _ _ rest])
qed (use assms in \<open>auto intro: reads_as_flat\<close>)

theorem spelled_read:
  "spell s m its = Some j \<Longrightarrow> closes s j \<Longrightarrow> well_ended its \<Longrightarrow> reads_as s m its j"
proof (induction its arbitrary: m j rule: items_induct)
  case Nil
  then show ?case
    using lprog_close [of s j] by (auto simp: reads_as_def spell_simps closes_def intro: exI [of _ "[]"])
next
  case (Cons x its)
  obtain k where k: "spell s m [x] = Some k" "spell s k its = Some j"
    using Cons.prems(1) spell_Cons [of s m x its] by (auto simp: bind_eq_Some_conv)
  have w: "final x \<Longrightarrow> its = []" "\<And>b. b \<in> set (arms x) \<Longrightarrow> well_ended b" "well_ended its"
    using Cons.prems(3) by (auto simp: list_all_iff)
  have "final x \<Longrightarrow> its = [] \<and> k = j" using w(1) k(2) by (auto simp: spell_simps)
  then show ?case
    using reads_as_item [OF k(1) Cons.IH(1) [OF k(2) Cons.prems(2) w(3)] _ Cons.prems(2)] Cons.IH(2) w(2) by blast
qed

subsection \<open>Procedures\<close>

theorem template_read:
  assumes "matches_at (template pos k) s i = Inr n" and "well_ended (k_body k)"
  shows "sget s i = Some (CHR ''Q'') \<and> (\<exists>p. parse_lproc s (Suc i) = Some ((dnat_of pos, p), sk s n) \<and>
    rslot p = dnat_of (k_rslot k) \<and> emptied (lbody p) = expected (k_body k))"
proof -
  have m: "meets s i (template pos k) = Some n" using assms(1) by (simp add: matches_at_def matches_meets)
  obtain a b c d e f g where h: "sget s i = Some (CHR ''Q'')" "lit_at s (Suc i) (dec_string pos) = Some a"
    "sget s a = Some (CHR ''{'')" "sget s (Suc a) = Some (CHR '' '')" "hole_at s (Suc (Suc a)) HFacts = Some b"
    and b: "sget s b = Some (CHR '' '')" "sget s (Suc b) = Some (CHR ''|'')" "sget s (Suc (Suc b)) = Some (CHR '' '')"
    "hole_at s (Suc (Suc (Suc b))) HFacts = Some c"
    and c: "sget s c = Some (CHR '' '')" "sget s (Suc c) = Some (CHR ''|'')" "sget s (Suc (Suc c)) = Some (CHR '' '')"
    "lit_at s (Suc (Suc (Suc c))) (dec_string (k_rslot k)) = Some d"
    and d: "sget s d = Some (CHR '' '')" "sget s (Suc d) = Some (CHR ''|'')" "spell s (Suc (Suc d)) (k_body k) = Some e"
    and e: "sget s e = Some (CHR '' '')" "sget s (Suc e) = Some (CHR ''}'')" "n = Suc (Suc e)"
    using m by (clarsimp simp: template_def meets_items bind_eq_Some_conv split: if_splits)
  obtain pr where pr: "many lin_at s (Suc a) [] = Some (pr, Suc b)"
    using reads_facts [OF h(4,5)] closesI(1) [OF b(1,2)] by blast
  obtain po where po: "many lin_at s (Suc (Suc b)) [] = Some (po, Suc c)"
    using reads_facts [OF b(3,4)] closesI(1) [OF c(1,2)] by blast
  obtain ls where ls: "lprog_at s (Suc (Suc d)) [] = Some (ls, Suc e)" "emptied ls = expected (k_body k)"
    using reads_as_arm [OF spelled_read [OF d(3) closesI(2) [OF e(1,2)] assms(2)]] by blast
  have "tok s d (CHR ''|'') = Some (Suc (Suc d))" using after_blank [OF d(1)] d(2) by simp
  then have "parse_lproc s (Suc i) =
      Some ((dnat_of pos, \<lparr>lpre = pr, lpost = po, rslot = dnat_of (k_rslot k), lbody = ls\<rparr>), sk s n)"
    by (simp add: parse_lproc_def reads_nat [OF h(2,3)] h(3) pr b(2) po c(2) after_sep(1) [OF c(3)]
        reads_nat [OF c(4) d(1)] ls e)
  then show ?thesis using h(1) ls(2) by simp
qed

end
