(* ===== verification/Template_Example.thy ===== *)
theory Template_Example
  imports Template_Body
begin

text \<open>A translated body with a loop, a call and a test, and a certificate that spells its template.\<close>

definition sample_skel :: skel where
  "sample_skel = \<lparr>k_rslot = 2,
     k_body = [KAsn 1 \<lparr>f_terms = [(VS 0, 1)], f_cst = 4\<rparr>,
       KLoop [KAcc True 4 0 \<lparr>f_terms = [(VB 0, 1)], f_cst = 8\<rparr> 7, KBranch [KBrk] [KCont]],
       KCall 5 [(0, \<lparr>f_terms = [], f_cst = - 1\<rparr>), (1, \<lparr>f_terms = [(VS 1, 1)], f_cst = 0\<rparr>)] 2,
       KRet],
     k_sites = [7]\<rparr>"

definition sample_cert :: bytes where
  "sample_cert =
     ''Q3{ [s0:-1]0 |  | 2 | =1 [s0:1]4 (0:1)1 ()1 L{ [s1:1]0 | (0:1)1 | W6,4,0 [b0:1]8 ()1 (0:2)1 ()1'' @
     '' B{ k | c{ (0:1)1 ()1 } } } C5{ 0:[]-1 1:[s1:1]0 ! ()1 (1:1)1 | 0:1 |  | 2 | ()1 } R{  } }''"

lemma sample_spelled: "matches_at (template 3 sample_skel) sample_cert 0 = Inr (length sample_cert)"
  by code_simp

lemma sample_ends: "well_ended (k_body sample_skel)"
  by code_simp

end
