(* ===== verification/Spec2Isabelle.thy ===== *)
theory Spec2Isabelle
  imports Examples Procs_Sound Vm_Example Prover_Example Template_Example
begin

text \<open>
  Almide is a compiler whose emitters write, beside each program, certificates of the facts their
  output depends on. The crate \<open>crates/almide-verify\<close> is the independent program that reads those
  certificates and decides them; a mistake in it turns every guarantee of the tool chain into an
  empty word. The crate \<open>crates/almide-wasm-vm\<close> is the interpreter that loads, validates and runs the
  emitted WebAssembly of a program of the critical profile. The crate \<open>crates/almide-lin-prove\<close> writes
  the proofs of linear certificates, which nobody has to believe. This development models the first two
  crates function by function and the core of the third, and proves what an accepted certificate means,
  what a run can do, and that the proofs the prover writes are the ones the verifier accepts.

  The parts of the verifier and the theories that model them:

    \<^item> \<open>nat.rs\<close>, decimal naturals of any length and the splitters of the witness formats: \<open>Nat_Digits\<close>,
      over the generic facts on bytes, scanners and splitting in \<open>Prelude\<close>;
    \<^item> \<open>zint.rs\<close>, sign-and-magnitude integers on 32-bit limbs, with the carries and borrows at their
      machine widths: \<open>Zint\<close>;
    \<^item> \<open>modes.rs\<close>, \<open>reach.rs\<close>, \<open>init.rs\<close>, \<open>fields.rs\<close>, the checkers of call modes, capabilities,
      initialisation and field layouts: \<open>Modes\<close>, \<open>Reach\<close>, \<open>Scan\<close> and \<open>Init_Cert\<close>, \<open>Fields_Cert\<close>;
    \<^item> \<open>ownership.rs\<close> and \<open>native_calls.rs\<close>, the reference-count lines and the binding of native
      calls: \<open>Ownership\<close>, \<open>Ownership_Runs\<close>, \<open>Ownership_Text\<close>, \<open>Native_Calls\<close>;
    \<^item> \<open>bounds.rs\<close>, \<open>rbounds.rs\<close>, \<open>procs.rs\<close>, \<open>lin.rs\<close>, the four kinds of bounds certificates:
      \<open>Bounds_List\<close>, \<open>Rbounds\<close>, \<open>Procs\<close> and \<open>Procs_Sound\<close>, \<open>Lin_Algebra\<close>, \<open>Lin\<close>, \<open>Lin_Sound\<close> and
      \<open>Lin_Format\<close>, composed in \<open>Bounds_Cert\<close>; the facts they share on slots are the locale of
      \<open>Slot_Facts\<close>;
    \<^item> \<open>sha256.rs\<close>, \<open>lib.rs\<close> and \<open>bundle.rs\<close>, the digest, the dispatch on properties and the bundle
      reader: \<open>Sha256\<close>, \<open>Verify\<close>, \<open>Bundle\<close>, \<open>Bundle_Text\<close>; \<open>Meaning\<close> gives the promise of each
      property as one definition. \<open>Examples\<close> holds the concrete inputs of the witnesses.

  The parts of the interpreter:

    \<^item> \<open>types.rs\<close>, \<open>error.rs\<close>, \<open>ir.rs\<close>: \<open>Vm_Types\<close>; \<open>numeric.rs\<close> with IEEE arithmetic by exact rationals
      and one rounding: \<open>Vm_Float\<close>, \<open>Vm_Numeric\<close>;
    \<^item> \<open>reader.rs\<close>, the cursor and its LEB128 integers: \<open>Vm_Reader\<close> (on \<open>Std_Text\<close>, the standard library's
      text functions), with the integers' exactness in \<open>Vm_Leb\<close>;
    \<^item> \<open>validate.rs\<close>, the one pass that validates and translates a body: \<open>Vm_Validate\<close> and
      \<open>Vm_Translate\<close>. \<open>Vm_Heights\<close>, \<open>Vm_Annotate\<close>, \<open>Vm_Ends\<close> and \<open>Vm_Body\<close> prove its promise: an
      assignment of operand heights to the code under which every jump and every operand fits;
    \<^item> \<open>module.rs\<close>, the sections and their cross checks: \<open>Vm_Module\<close>, with the validity of what it
      accepts in \<open>Vm_Valid\<close>;
    \<^item> \<open>wasi.rs\<close>, the host calls over a device (what a read returns, whether a write succeeds): \<open>Vm_Wasi\<close>;
    \<^item> \<open>exec.rs\<close>, instantiation, calls and the loop: \<open>Vm_Exec\<close>, \<open>Vm_Step\<close>; \<open>Vm_Instance\<close> and \<open>Vm_Safe\<close>
      hold the invariant and a calculus of weakest preconditions, \<open>Vm_Machine\<close> the step relation and
      what holds of its reachable states, \<open>Vm_Streams\<close> what a run does to the streams, \<open>Vm_Fuel\<close> that
      no instruction sees the fuel;
    \<^item> \<open>lib.rs\<close> and \<open>main.rs\<close>, the runner, its report and the options: \<open>Vm_Run\<close>; \<open>Vm_Program\<close> composes all
      of it from bytes to report, and \<open>Vm_Example\<close> runs a module of the binary format.

  The parts of the prover of linear facts, \<open>crates/almide-lin-prove\<close>:

    \<^item> \<open>lp.rs\<close>, the exact simplex: \<open>Lp_Rational\<close> holds its fractions of checked 128-bit integers with their
      values, \<open>Lp_Simplex\<close> the code, a computation that counts its pivots and may fail or panic. The
      proof is \<open>Lp_Rules\<close> (a calculus for such computations), \<open>Lp_Pivot\<close> (a pivot keeps the solutions),
      \<open>Lp_Search\<close> (so does the loop), \<open>Lp_Phases\<close> (no basic artificial touches a multiplier),
      \<open>Lp_Multipliers\<close> (the multipliers solve the first table), \<open>Lp_Farkas\<close> (what the first table says)
      and \<open>Lp_Sound\<close>, the certificate; \<open>Lp_Example\<close> runs the source's own tests;
    \<^item> \<open>lib.rs\<close>, the forms and \<open>prove\<close>: \<open>Prover_Forms\<close> (the operations, each shown to build the verifier's
      form), \<open>Prover_Text\<close> (the texts, also \<open>Lin::text\<close> of \<open>crates/almide-anchor-check/src/lin.rs\<close>, with the
      locale of written items), \<open>Prover\<close>, \<open>Prover_Accept\<close> and \<open>Prover_Example\<close>;
    \<^item> the templates of \<open>crates/almide-anchor-check/src/lin.rs\<close>, the text of a translated body with holes for
      what the prover fills in, and the test that a certificate spells its template: \<open>Template\<close>. The locale of
      \<open>Template_Holes\<close> says that a measured hole is what the verifier's scanner reads, \<open>Template_Read\<close> splits a
      template into literals and holes, \<open>Template_Items\<close> and \<open>Template_Body\<close> follow the verifier's parser item by
      item, \<open>Template_Example\<close> has a certificate.

  How the model reads. A byte slice is a list of characters and an index into it a natural number;
  \<open>get\<close> is \<open>sget\<close>, which is \<open>None\<close> past the end, and the early returns of \<open>?\<close> are \<open>None\<close> or \<open>Inl\<close>.
  A Rust enum is a datatype, a struct a record, a \<open>BTreeSet\<close> a set, a \<open>u32\<close> or \<open>u64\<close> a word. Loops are
  recursions: structural ones by \<open>fun\<close>, scanners by \<open>function\<close> with the distance to the end of the
  text as measure, and the two loops that take a scanner as an argument (\<open>seq_at\<close>, \<open>many\<close>) by
  \<open>partial_function\<close>, with the locale of scanners proving that they return for every scanner that
  moves forward. No fuel is used in the model: every parser, checker and decoder is total, and the
  interpreter's loop ends by the fuel that the program itself counts. Where the interpreter indexes,
  slices or subtracts in a way that could panic, the model has a panic as a value, and the theorems
  exclude it. A function pointer of an instruction is a function; a device is a record of functions
  over states of its own, so that every environment is an instance.

  What the lemmas show. For the checkers with a finite meaning (ownership, signatures, native
  calls, capabilities, fields, initialisation, modes) the checker is equal to its meaning, so
  acceptance is neither weaker nor stronger. For the bounds certificates the meaning is a step
  relation on frames of 64-bit words and on blocks (\<open>brun\<close>, \<open>rrun\<close>, \<open>prun\<close>, \<open>lrun\<close>), in which an
  access outside its block is a fault, and acceptance excludes every faulting run, also the runs
  that never end. The digest refines the standard's definition; the texts round trip; bundles
  parse to well-formed values; \<open>CERTIFIED\<close> implies the promise of every witness.

  Hypotheses that restrict a theorem. \<open>stretch_plain\<close> asks that a procedure's groups are flat and
  that calls bind each parameter once: the producer writes such certificates, the checker does
  not insist, and C5 shows that for groups it must. \<open>modest\<close>, \<open>length sigs \<le> 10 ^ 18\<close> and \<open>length w <
  10 ^ 18\<close> hold of every file a 64-bit machine can read.

  For the interpreter the lemmas show, over every device: the runner never panics and, when reads
  end, returns; accepted modules are valid; all reachable states keep their registers in range; the
  report follows the documented contract; writes happen whole or not at all; fuel only cuts.

  For the prover the lemmas show that an answer is right and that no index leaves its table; not that
  an entailed target is always found, since the search stops at overflow, after 10000 rounds or past
  its budget of pivots. Its plain additions and products wrap, as in a release build; the theorems about
  forms ask that the sums of their coefficients and their constants stay below a bound whose square fits.
  A certificate that spells a template is read by the verifier as the template's items; \<open>well_ended\<close> asks that
  nothing follows a jump or a return in its list, which the verifier refuses.

  Not modelled. \<open>main.rs\<close> of the crates reads files, prints and exits; of the prover the replay over a body
  (\<open>sim.rs\<close>), the projection of preconditions and the inference of contracts, which only choose what to
  prove; of \<open>crates/almide-anchor-check\<close> the translation of WebAssembly bodies to the items of a template, which
  works on the operators of the parser \<open>wasmparser\<close>; the platform's choice of a NaN is a parameter; allocation failure and the host's own stack are outside; the error texts of the bundle reader are the constructors of
  \<open>bmessage\<close>. The compiler itself (front end, optimiser, emitters, runtime, drivers) is outside:
  its output is what the certificates describe, and the correspondence of a certificate with the
  emitted code is the subject of the repository's own proofs.
\<close>

section \<open>The certificate verifier: soundness of the checkers\<close>



text \<open>C2. A bounds certificate the whole checker accepts is safe: with the procedures' groups flat and
  each parameter bound once, no run of any stretch of the file (element loops, routines,
  procedures, linear procedures) from a state its precondition allows reads or writes outside its
  block.\<close>

theorem bounds_certificate_safe:
  assumes "check_bounds_cert w" and "parse_stretches w 0 [] = Some ps" and "list_all stretch_plain ps"
  shows "list_all (stretch_safe ps) ps"
  using assms by (rule bounds_cert_sound)

theorem bounds_certificate_safe_witness: "list_all (stretch_safe ex_stretches) ex_stretches"
  by (rule bounds_certificate_safe [OF ex_bounds_accepted ex_bounds_parsed ex_bounds_plain])





text \<open>C5. The one-step representative of \<open>pre_met\<close> is not enough: with chained groups the checker
  accepts a caller whose arguments, bound as it binds them, let the callee pass its own test and
  then read outside the block of the tested slot.\<close>

theorem chained_groups_escape:
  "procs_ok chained_table \<and> plook chained_table (dnat_of 1) = Some chained_callee \<and>
   (\<exists>e bm' e'. count_ok (chained_caps \<circ> chained_blocks) (dnat_of 4) (dnat_of 8) (e (dnat_of 5)) \<and>
      binds chained_args chained_blocks e bm' e' \<and>
      test_pass False (e' (dnat_of 0)) (e' (dnat_of 3)) \<and>
      \<not> payload_in (chained_caps \<circ> bm') (dnat_of 0, dnat_of 8) (dnat_of 0) (dnat_of 8) e')"
proof -
  define e :: slots where "e = (\<lambda>_. 0)(dnat_of 5 := 1)"
  define bm' where "bm' = (\<lambda>p. if p = dnat_of 0 then 1 else 0 :: nat)"
  define e' :: slots where "e' = (\<lambda>p. if p = dnat_of 3 then 1 else 0)"
  have b: "binds chained_args chained_blocks e bm' e'"
    by (simp add: binds_def chained_args_def chained_blocks_def e_def bm'_def e'_def)
  have c: "count_ok (chained_caps \<circ> chained_blocks) (dnat_of 4) (dnat_of 8) (e (dnat_of 5))"
    by (simp add: count_ok_def chained_caps_def chained_blocks_def e_def)
  have "e (dnat_of 6) = 0" "e (dnat_of 5) = 1"
    by (simp_all add: e_def)
  then show ?thesis
    using b c chained_accepted chained_reads_outside [OF b] chained_found by blast
qed

text \<open>C6. A routine that \<open>raccepts\<close> accepts never faults: on blocks of fewer than \<open>2 ^ 63\<close> bytes, no
  run reads or writes outside the payload of its block or outside the 12 header bytes.\<close>

theorem routines_safe:
  assumes "raccepts its" and "ritems_wf its" and "caps_wf cp"
  shows "\<not> rrun cp e its Fault"
  using assms by (rule raccepts_sound)

theorem routines_safe_witness: "\<not> rrun (\<lambda>_. 8) (\<lambda>_. 0) ex_routine Fault"
proof (rule routines_safe)
  show "raccepts ex_routine" by code_simp
  show "ritems_wf ex_routine" by (simp add: ex_routine_def fact_wf_def)
  show "caps_wf (\<lambda>_. 8)" by (simp add: caps_wf_def)
qed

text \<open>C7. An element stretch that \<open>bcheck\<close> accepts never faults: on blocks with positive element width
  and fewer than \<open>2 ^ 63\<close> elements, every read and write it makes is of an element inside its
  block.\<close>

theorem element_stretches_safe:
  assumes "bcheck {} its \<noteq> None" and "\<forall>x. eblock_wf (bl x)"
  shows "\<not> brun bl e its Fault"
  using assms by (rule bcheck_sound)

theorem element_stretches_safe_witness:
  "\<not> brun (\<lambda>_. \<lparr>header = 12, count = 3, ewidth = 8\<rparr>) (\<lambda>_. 0) ex_list Fault"
proof (rule element_stretches_safe)
  show "bcheck {} ex_list \<noteq> None"
    by (simp add: bcheck_def ex_list_def bkills.simps)
qed (simp add: eblock_wf_def)

section \<open>The certificate verifier: what each checker decides\<close>

text \<open>C8. The ownership checker decides exactly the reference-count discipline: it accepts a witness
  if and only if on every path through every line (loops run any number of times, either arm of a
  branch, early exits and traps) every event is legal for the count it meets and the line ends
  with no reference held, unless the path traps.\<close>

theorem ownership_exact: "check_xc w \<longleftrightarrow> (\<forall>line \<in> set (parse_xc w). line_safe line)"
  by (rule check_xc_iff)

theorem ownership_exact_witness:
  "line_safe [Op Inc, Branch [Dec] [MoveOut]] \<and> \<not> line_safe [Op Inc]"
proof -
  have "check_xc ''i{d|m}''" "parse_xc ''i{d|m}'' = [[Op Inc, Branch [Dec] [MoveOut]]]"
    "\<not> check_xc ''i''" "parse_xc ''i'' = [[Op Inc]]"
    by code_simp+
  then show ?thesis
    using ownership_exact [of "''i{d|m}''"] ownership_exact [of "''i''"] by simp
qed

text \<open>C9. The signature checker accepts a function exactly when its parameter modes are 0 or 1 and its
  lines are safe from the references the modes hand over: none for a borrowed parameter, one for a
  moved one, which the line gives back and never reuses in place.\<close>

theorem signatures_exact:
  "check_sig_cert w \<longleftrightarrow>
    (let modes = pnats (fst (split_bar w))
     in (\<forall>m \<in> set modes. dval m \<le> 1) \<and> lines_safe False modes (parse_xc (snd (split_bar w))))"
  by (rule check_sig_cert_iff)

theorem signatures_exact_witness:
  "lines_safe False [dnat_of 1, dnat_of 0] [[Op MoveOut], [Op Alias, Op Dec]] \<and>
   \<not> lines_safe False [dnat_of 1] [[Op Alias, Op Dec]]"
proof -
  define w1 w2 :: bytes where "w1 = ''1 0|m'' @ newline # ''ad''" and "w2 = ''1|ad''"
  have "check_sig_cert w1" "parse_xc (snd (split_bar w1)) = [[Op MoveOut], [Op Alias, Op Dec]]"
    "pnats (fst (split_bar w1)) = [dnat_of 1, dnat_of 0]"
    "\<not> check_sig_cert w2" "parse_xc (snd (split_bar w2)) = [[Op Alias, Op Dec]]"
    "pnats (fst (split_bar w2)) = [dnat_of 1]"
    unfolding w1_def w2_def by code_simp+
  then show ?thesis
    using signatures_exact [of w1] signatures_exact [of w2] by (simp add: Let_def)
qed

text \<open>C10. The native-call checker accepts a program exactly when every block is bound: its sites agree
  with the modes their callees declare, its marks pair every moved argument with one move event of
  a line, its host ids are of the named set, and its lines are safe from the references the modes
  hand over.\<close>

theorem native_calls_exact:
  assumes "length w < 10 ^ 18" and "blocks = map parse_block (split_on (\<lambda>c. c = CHR ''#'') w)"
  shows "check_native_calls_cert w \<longleftrightarrow>
    (\<forall>b \<in> set blocks. block_bound (map (\<lambda>b. map dval (bmodes b)) blocks) b)"
  using assms by (rule check_native_calls_iff)

theorem native_calls_exact_witness:
  "let blocks = map parse_block (split_on (\<lambda>c. c = CHR ''#'') ex_native)
   in length blocks = 2 \<and> (\<forall>b \<in> set blocks. block_bound (map (\<lambda>b. map dval (bmodes b)) blocks) b)"
proof -
  have "length ex_native \<le> 100" "length (map parse_block (split_on (\<lambda>c. c = CHR ''#'') ex_native)) = 2"
    by code_simp+
  then show ?thesis
    unfolding Let_def using native_calls_exact [OF _ refl, of ex_native] ex_native_accepted by auto
qed



text \<open>C12. The capability checker decides containment over the whole call graph: it accepts exactly the
  graphs in which every capability a reachable function uses directly is declared by the function
  that reaches it, however long the chain of calls.\<close>

theorem capabilities_exact:
  "check_prog_cert w \<longleftrightarrow> caps_contained (map parse_node (split_semi w))"
  by (rule check_prog_cert_iff)

text \<open>C13. The field checker decides the meaning of a witness: it accepts exactly when no two layouts
  have one kind, every layout fits its payload, every construction writes every field of the one
  layout of its kind, every access names a field of it, and every tag read is of a first field of
  four bytes at offset 0.\<close>

theorem fields_exact:
  assumes "parse_items w 0 [] = Some its" and "modest its"
  shows "check_fields_cert w \<longleftrightarrow> fields_meaning its"
  using assms by (rule check_fields_cert_iff)

theorem fields_exact_witness: "fields_meaning ex_items"
  using fields_exact [OF ex_fields_parsed ex_items_modest] ex_fields_accepted by simp



text \<open>C15. The initialisation checker decides what it names: a witness is accepted exactly when it
  parses and every allocation site, run as its stores or as its counted fill with any values of
  the locals, writes every payload slot and nothing past the block.\<close>

theorem initialisation_exact:
  "check_init_cert w \<longleftrightarrow>
    (\<exists>sites. parse_sites w 0 [] = Some sites \<and> (\<forall>x \<in> set sites. site_initialises x))"
  by (rule check_init_cert_iff)

theorem initialisation_exact_witness:
  "site_initialises (Fill (dnat_of 8) (dnat_of 4) (dnat_of 3) (dnat_of 3) (dnat_of 4)) \<and>
   \<not> site_initialises (Fixed (dnat_of 8) (dnat_of 4) (dnat_of 2) [dnat_of 0])"
proof -
  have "check_init_cert ''h8 w4 v3 r0 f3 t4''" "\<not> check_init_cert ''h8 w4 n2 r0 s0''"
    "parse_sites ''h8 w4 v3 r0 f3 t4'' 0 [] = Some [Fill (dnat_of 8) (dnat_of 4) (dnat_of 3) (dnat_of 3) (dnat_of 4)]"
    "parse_sites ''h8 w4 n2 r0 s0'' 0 [] = Some [Fixed (dnat_of 8) (dnat_of 4) (dnat_of 2) [dnat_of 0]]"
    by code_simp+
  then show ?thesis
    using initialisation_exact [of "''h8 w4 v3 r0 f3 t4''"] initialisation_exact [of "''h8 w4 n2 r0 s0''"] by simp
qed

text \<open>C16. The call-mode checker accepts exactly the programs whose signatures hold only modes 0 and 1
  and whose call sites name a function and agree with its signature mode for mode, for tables of
  at most \<open>10 ^ 18\<close> functions.\<close>

theorem call_modes_exact:
  assumes "parse_modes w = (sigs, sites)" and "length sigs \<le> 10 ^ 18"
  shows "check_modes_cert w \<longleftrightarrow>
    (\<forall>sig \<in> set sigs. \<forall>m \<in> set sig. dval m \<le> 1) \<and>
    (\<forall>site \<in> set sites. call_agrees (map (map dval) sigs) (map dval site))"
  using assms by (rule check_modes_cert_iff)

theorem call_modes_exact_witness: "call_agrees [[0, 1], [1]] [0, 0, 1] \<and> \<not> call_agrees [[0, 1]] [0, 1, 1]"
proof -
  have "parse_modes ''0 1;1|0 0 1'' = ([[dnat_of 0, dnat_of 1], [dnat_of 1]], [[dnat_of 0, dnat_of 0, dnat_of 1]])"
    "check_modes_cert ''0 1;1|0 0 1''"
    "parse_modes ''0 1|0 1 1'' = ([[dnat_of 0, dnat_of 1]], [[dnat_of 0, dnat_of 1, dnat_of 1]])"
    "\<not> check_modes_cert ''0 1|0 1 1''"
    by code_simp+
  then show ?thesis
    using call_modes_exact [of "''0 1;1|0 0 1''"] call_modes_exact [of "''0 1|0 1 1''"] by simp
qed

text \<open>C17. Entailment is sound (the Farkas rule): a nonnegative combination of facts that hold, checked
  as \<open>entails\<close> checks it, bounds the target by 0 in every environment.\<close>

theorem entailment_sound:
  assumes "lsat rho f" and "entails f pf t"
  shows "lval rho t \<le> 0"
  using assms by (rule entails_sound)

theorem entailment_sound_witness:
  "lval (\<lambda>_. 3) (lin_of [(S (dnat_of 0), 2)] (- 8)) \<le> 0"
proof (rule entailment_sound)
  show "lsat (\<lambda>_. 3) [lin_of [(S (dnat_of 0), 1)] (- 4)]"
    by (simp add: lsat_def lval_def tval_def lin_of_def)
  show "entails [lin_of [(S (dnat_of 0), 1)] (- 4)] ([(dnat_of 0, zi 2)], zi 1) (lin_of [(S (dnat_of 0), 2)] (- 8))"
    by (simp add: entails_def lin_of_def fact_at_def as_index_dnat_of zi_arith scale_def coef_def)
qed

section \<open>The certificate verifier: numbers, digests, texts and bundles\<close>

text \<open>C18. A bundle written in the format parses back to itself: for the text of every bundle whose
  lines are UTF-8 without newlines and whose records its version allows, whatever bytes the
  witnesses hold.\<close>

theorem bundles_round_trip:
  assumes "bundle_ok v b"
  shows "parse_bundle (bundle_text v b) = Inr b"
  using assms by (rule bundle_round_trip)

theorem bundles_round_trip_witness: "parse_bundle (bundle_text 5 ex_bundle) = Inr ex_bundle"
  by (rule bundles_round_trip [OF ex_bundle_ok])



text \<open>C20. The digest refines the standard: the padded, block-by-block, in-place computation equals the
  specification of FIPS 180-4 on every byte string, and its constants give the standard's test
  vector for \<open>abc\<close> as 64 lower-case hex digits.\<close>

theorem sha256_refines_standard:
  "digest data = fips_digest data \<and>
   hex ''abc'' = ''ba7816bf8f01cfea414140de5dae2223b00361a396177a9cb410ff61f20015ad''"
  by (intro conjI digest_fips hex_abc)

text \<open>C21. Integers of the linear checker are exact: on canonical magnitudes of 32-bit limbs, sum,
  product, difference, negation and order are those of the integers, and equal numbers are equal
  representations, so no bound on the size of a certificate's constants is needed.\<close>

theorem integers_exact:
  "zval (z_add a b) = zval a + zval b \<and> zval (z_mul a b) = zval a * zval b \<and>
   zval (z_sub a b) = zval a - zval b \<and> zval (z_neg a) = - zval a \<and>
   (a \<le> b \<longleftrightarrow> zval a \<le> zval b) \<and> (a < b \<longleftrightarrow> zval a < zval b) \<and> (zval a = zval b \<longleftrightarrow> a = b)"
  by (simp add: zval_simps zval_inj)

text \<open>C22. Naturals are decimal strings, and their schoolbook sum and their comparison (length first,
  then bytes) are those of the numbers they write, for numbers of any length.\<close>

theorem naturals_exact:
  assumes "wf_nat m" and "wf_nat n"
  shows "dval (nat_add m n) = dval m + dval n \<and> nat_cmp m n = ord_of (dval m) (dval n) \<and>
    (m < n \<longleftrightarrow> dval m < dval n) \<and> (m \<le> n \<longleftrightarrow> dval m \<le> dval n)"
  using assms by (simp add: nat_add_val nat_cmp_val less_dval le_dval)

theorem naturals_exact_witness: "dval (nat_add (dnat_of 999) (dnat_of 1)) = 1000"
  using naturals_exact [OF wf_dnat_of wf_dnat_of, of 999 1] by simp

text \<open>C23. The ownership text loses nothing: the lines written one event per byte, with their loops,
  arms and exit marks, are the lines the parser reads.\<close>

theorem ownership_text_round_trip:
  assumes "ls \<noteq> []"
  shows "parse_xc (xc_text ls) = ls"
  using assms by (rule parse_xc_text)

theorem ownership_text_round_trip_witness:
  "parse_xc (xc_text [[Op Inc, CondLoop [Borrow] []], [BranchRet True [] [Dec]]]) =
     [[Op Inc, CondLoop [Borrow] []], [BranchRet True [] [Dec]]]"
  by (rule ownership_text_round_trip) simp

text \<open>C24. The initialisation text round trips: the sites the encoder writes are the sites the parser
  reads, after any prefix.\<close>

theorem sites_round_trip:
  assumes "\<forall>x \<in> set xs. site_wf x" and "s = pre @ sites_text xs" and "i = length pre"
  shows "parse_sites s i out = Some (out @ xs)"
  using assms by (rule parse_sites_text)

theorem sites_round_trip_witness:
  "parse_sites (sites_text [Fixed (dnat_of 12) (dnat_of 8) (dnat_of 2) [dnat_of 0, dnat_of 1]]) 0 [] =
     Some [Fixed (dnat_of 12) (dnat_of 8) (dnat_of 2) [dnat_of 0, dnat_of 1]]"
  using sites_round_trip [of "[Fixed (dnat_of 12) (dnat_of 8) (dnat_of 2) [dnat_of 0, dnat_of 1]]" _ "[]" 0 "[]"]
  by (simp add: site_wf_def)

text \<open>C25. The reference count the checker folds stays within the events it reads: from a count that is
  not negative it never goes negative and never grows by more than one per event, so the source's
  machine counter cannot overflow on a line shorter than its range.\<close>

theorem reference_count_bounded:
  assumes "exec_line its rc = Some r" and "0 \<le> rc"
  shows "0 \<le> r \<and> r \<le> rc + int (sum_list (map item_ops its))"
  using assms by (rule exec_line_range)

theorem reference_count_bounded_witness: "0 \<le> (1::int) \<and> (1::int) \<le> 0 + int (sum_list (map item_ops [Op Inc]))"
  by (rule reference_count_bounded [where its = "[Op Inc]"]) simp_all

section \<open>The interpreter: programs from bytes to report\<close>



text \<open>C27. The runner returns. On a device whose reads end (none answers for ever that it was
  interrupted) every program is refused or comes to a report, within the fuel it was given.\<close>

theorem programs_return:
  assumes "fair_reads dev" and "responsive dev" and "lim_cells cfg < 2 ^ 32"
  shows "(\<exists>e. run_program pn dev bs cfg i o1 o2 = Refused e) \<or>
    (\<exists>rep w. run_program pn dev bs cfg i o1 o2 = Reported rep w)"
  using assms by (rule program_returns)

theorem programs_return_witness:
  "(\<exists>e. run_program sample_nan (rec_dev ended_input) sample_module sample_limits () [] [] = Refused e) \<or>
   (\<exists>rep w. run_program sample_nan (rec_dev ended_input) sample_module sample_limits () [] [] = Reported rep w)"
  by (rule programs_return)
    (simp_all add: fair_reads_def responsive_def ended_input_def sample_limits_def read_retry.simps)

text \<open>C28. The decoder is total and its modules are valid: it never panics, and a module it accepts has
  types within their limits, every index inside its table, segments inside memory and table, and
  bodies whose code stays within its operand heights at every instruction.\<close>

theorem decoded_modules_valid:
  "case decode pn bs of None \<Rightarrow> False | Some (Inl e) \<Rightarrow> True | Some (Inr m) \<Rightarrow> module_ok m"
  by (rule decode_ok)





text \<open>C31. The report is the documented contract: the exit code is 0 when the program returns, the code
  it left with, or 1 after a trap; standard output is what the program wrote; standard error is what
  it wrote and, after a trap, one line more, unless the program ended in \<open>unreachable\<close> and the last
  line of its own standard error begins with \<open>Error: \<close>.\<close>

theorem reports_follow_contract:
  assumes "run_program pn (rec_dev rd) bs cfg i [] [] = Reported rep w"
  shows "\<exists>m s oc s1 w1. decode pn bs = Some (Inr m) \<and> new_instance m cfg = Some (Inr s) \<and>
    run_instance (rec_dev rd) s (new_io i [] []) = Ended oc s1 w1 \<and>
    rep = \<lparr>rep_exit = exit_of oc, rep_trap = trap_of oc\<rparr> \<and>
    io_out w = io_out w1 \<and> io_err w = io_err w1 @ trap_note oc (io_err w1)"
  using assms by (rule program_reports)

theorem reports_follow_contract_witness:
  "\<exists>m s oc s1 w1. decode sample_nan sample_module = Some (Inr m) \<and> new_instance m sample_limits = Some (Inr s) \<and>
    run_instance (rec_dev ended_input) s (new_io () [] []) = Ended oc s1 w1 \<and> exit_of oc = 0 \<and> io_err w1 = []"
  using reports_follow_contract [OF sample_reports] by (auto simp: new_io_def)


text \<open>C33. The watch on standard error, which keeps seven bytes, a length and a flag however much is
  written, is the last line of everything written: it says an error exactly when the last of the lines begins with \<open>Error: \<close>.\<close>

theorem watch_is_last_line: "last_line_is_error (feed s new_tail) = ends_in_error s"
  by (rule tail_is_last_line)

text \<open>C34. Fuel only cuts a run short: a program that ends for another reason than its fuel has the same
  report, the same output and the same refusals with more of it.\<close>

theorem fuel_only_cuts:
  assumes "run_program pn dev bs cfg i o1 o2 = v" and "\<And>rep w. v = Reported rep w \<Longrightarrow> rep_trap rep \<noteq> Some TOutOfFuel"
  shows "run_program pn dev bs (cfg\<lparr>lim_fuel := lim_fuel cfg + k\<rparr>) i o1 o2 = v"
  using assms by (rule program_more)

theorem fuel_only_cuts_witness:
  "run_program sample_nan (rec_dev ended_input) sample_module (sample_limits\<lparr>lim_fuel := 9 + 5\<rparr>) () [] [] =
     Reported \<lparr>rep_exit = 0, rep_trap = None\<rparr> (new_io () [] [])"
  using fuel_only_cuts [OF sample_reports, of 5] by (simp add: sample_limits_def)

text \<open>C35. The reader of 32-bit numbers accepts exactly their LEB128 encodings: continuation bits on all
  bytes but the last, at most five bytes, a value that fits; it returns that value and stands behind
  the encoding.\<close>

theorem numbers_read_exactly:
  "ru32 r = Inr (n, r2) \<longleftrightarrow> (\<exists>bs. leb_at r bs r2 \<and> length bs \<le> 5 \<and> n = leb_value bs \<and> leb_value bs < 2 ^ 32)"
  by (rule ru32_reads)

section \<open>The prover of linear facts\<close>





text \<open>C38. The text of a linear form is read back as that form, and the text of a proof as that proof, wherever
  they stand before anything but a digit.\<close>

theorem forms_read_back:
  assumes "no_digit post"
  shows "lin_at (pre @ form_text l @ post) (length pre) = Some (lform l, length pre + length (form_text l)) \<and>
    pf_at (pre @ pf_text p @ post) (length pre) = Some (z_pf p, length pre + length (pf_text p))"
  using assms by (intro conjI lin_at_text pf_at_text)

theorem forms_read_back_witness:
  "form_text sample_goal = ''[s1:1]-5'' \<and> lin_at ''[s1:1]-5 (0:2)1'' 0 = Some (lform sample_goal, 8)"
proof -
  have "form_text sample_goal = ''[s1:1]-5''"
    by code_simp
  moreover have "lin_at ([] @ form_text sample_goal @ '' (0:2)1'') (length ([] :: bytes)) =
      Some (lform sample_goal, length ([] :: bytes) + length (form_text sample_goal))"
    using forms_read_back [of "'' (0:2)1''" "[]" sample_goal] by simp
  ultimately show ?thesis by (simp add: eval_nat_numeral)
qed

text \<open>C39. The prover replays the verifier's forms exactly: as long as nothing overflows, each operation on the
  prover's 128-bit forms builds the form the verifier's operation builds, the same terms in the same
  order, and finds the same facts to forget and to join.\<close>

theorem forms_replayed:
  assumes "bounded b l" and "bounded b m" and "b + b * b < 2 ^ 127" and "2 * b + 1 < 2 ^ 127" and "\<bar>k\<bar> * b < 2 ^ 127"
  shows "lform (p_ladd l m) = ladd (lform l) (lform m) \<and> lform (p_lsub l m) = lsub (lform l) (lform m) \<and>
    lform (p_lneg l) = lneg (lform l) \<and> lform (p_lmul k l) = lmul (z_of_int k) (lform l) \<and>
    lform (p_subst v m l) = lsubst (lv v) (lform m) (lform l) \<and> map lform (p_eqs v l) = eqs (lv v) (lform l) \<and>
    map lform (p_kill f v) = kill (map lform f) (lv v) \<and>
    map lform (p_kill_region f r) = kill_region (map lform f) (dnat_of r) \<and>
    map_option (map lform) (p_fjoin sa sb) = fjoin (map_option (map lform) sa) (map_option (map lform) sb)"
proof -
  have b: "b < 2 ^ 127" "b + b < 2 ^ 127" "b + 1 < 2 ^ 127"
    using assms(4) bounded_nonneg [OF assms(1)] by simp_all
  show ?thesis
    using lform_ladd(1) [OF assms(1,2) b(2)] lform_lsub(1) [OF assms(1,2) b(2)] lform_lneg(1) [OF assms(1) b(1)]
      lform_lmul(1) [OF assms(1,5)] lform_subst(1) [OF assms(1,2,3)] lform_eqs [OF assms(1) b(3)]
    by (simp add: lform_kill lform_kill_region lform_fjoin fjoin_def)
qed

theorem forms_replayed_witness:
  "lform (p_lsub sample_goal (sample_facts ! 0)) = lsub (lform sample_goal) (lform (sample_facts ! 0))"
  using forms_replayed [of 5 sample_goal "sample_facts ! 0" 1] sample_bounded by (simp add: sample_facts_def)

section \<open>Certificates of translated bodies\<close>

text \<open>C40. A certificate that spells the template of a translated body is that body for the verifier: where the
  anchor check's matcher accepts, the verifier's parser reads a procedure of that position and result slot,
  ends at the same place, and its items are the translated ones, slot by slot and form by form; only the
  proofs, facts, regions and maps are the certificate's own.\<close>

theorem template_anchors:
  assumes "matches_at (template fid k) cert i = Inr n" and "well_ended (k_body k)"
  shows "\<exists>p. parse_lproc cert (Suc i) = Some ((dnat_of fid, p), sk cert n) \<and> rslot p = dnat_of (k_rslot k) \<and>
    emptied (lbody p) = expected (k_body k)"
  using template_read [OF assms] by blast

theorem template_anchors_witness:
  "\<exists>p. parse_lproc sample_cert 1 = Some ((dnat_of 3, p), sk sample_cert (length sample_cert)) \<and>
    rslot p = dnat_of 2 \<and> emptied (lbody p) = expected (k_body sample_skel)"
  using template_anchors [OF sample_spelled sample_ends] by (simp add: sample_skel_def)

end
